(* ===== verification/Prelude.thy ===== *)
theory Prelude
  imports Main "HOL-Library.Word"
begin

text \<open>
  Shared vocabulary of the development: names for the machine types of the Go
  sources, errors and results as values, little-endian byte strings, and the
  generic lemmas on words and lists that the component theories use.

  Go's \<^verbatim>\<open>uint8\<close>, \<^verbatim>\<open>uint32\<close> and \<^verbatim>\<open>uint64\<close> are words of their width.  The 32-byte
  arrays of the program (\<^verbatim>\<open>types.Hash\<close>, public and private key bytes) are 256-bit
  words whose byte \<^term>\<open>i\<close> is the bits from \<^term>\<open>8 * i\<close> on, so that the array and
  the little-endian number it denotes are one value.
\<close>

unbundle bit_operations_syntax

named_theorems wire_simps \<open>decoding rules: what a reader does on a well-formed prefix\<close>
named_theorems size_simps \<open>lengths of encodings\<close>

type_synonym byte = "8 word"
type_synonym u32 = "32 word"
type_synonym u64 = "64 word"
type_synonym hash = "256 word"

text \<open>Errors of the program: the sentinel errors of \<^verbatim>\<open>io\<close> and \<^verbatim>\<open>encoding/binary\<close>, an
  error built by the code (\<^verbatim>\<open>errors.New\<close>, \<^verbatim>\<open>fmt.Errorf\<close>) by its text, and a run-time panic.\<close>

datatype error = EOF | UnexpectedEOF | Overflow | Err string | Panic string

type_synonym 'a result = "error + 'a"

fun is_ok :: "'a result \<Rightarrow> bool" where
  "is_ok (Inr _) = True"
| "is_ok (Inl _) = False"

fun bindR :: "'a result \<Rightarrow> ('a \<Rightarrow> 'b result) \<Rightarrow> 'b result" where
  "bindR (Inl e) _ = Inl e"
| "bindR (Inr x) f = f x"

lemma bindR_Inr_iff: "bindR m f = Inr y \<longleftrightarrow> (\<exists>x. m = Inr x \<and> f x = Inr y)"
  by (cases m) auto

lemma bindR_assoc: "bindR (bindR m f) g = bindR m (\<lambda>x. bindR (f x) g)"
  by (cases m) auto

text \<open>Indexing of a Go slice: out of range panics.\<close>

definition nth_go :: "'a list \<Rightarrow> nat \<Rightarrow> 'a result" where
  "nth_go xs i = (if i < length xs then Inr (xs ! i) else Inl (Panic ''index out of range''))"

lemma nth_go_Inr [simp]: "nth_go xs i = Inr x \<longleftrightarrow> i < length xs \<and> xs ! i = x"
  by (simp add: nth_go_def)

text \<open>Mapping a fallible operation over a list, stopping at the first error.\<close>

fun mapR :: "('a \<Rightarrow> 'b result) \<Rightarrow> 'a list \<Rightarrow> 'b list result" where
  "mapR f [] = Inr []"
| "mapR f (x # xs) = bindR (f x) (\<lambda>y. bindR (mapR f xs) (\<lambda>ys. Inr (y # ys)))"

lemma mapR_Inr_iff:
  "mapR f xs = Inr ys \<longleftrightarrow> list_all2 (\<lambda>x y. f x = Inr y) xs ys"
  by (induction xs arbitrary: ys) (auto simp: bindR_Inr_iff list_all2_Cons1)

lemma mapR_total:
  assumes "\<And>x. x \<in> set xs \<Longrightarrow> f x = Inr (g x)"
  shows "mapR f xs = Inr (map g xs)"
  using assms by (induction xs) auto

section \<open>Little-endian byte strings\<close>

definition le_bytes :: "nat \<Rightarrow> 'a::len word \<Rightarrow> byte list" where
  "le_bytes n w = map (\<lambda>i. ucast (drop_bit (8 * i) w)) [0..<n]"

fun le_word :: "byte list \<Rightarrow> 'a::len word" where
  "le_word [] = 0"
| "le_word (b # bs) = or (ucast b) (push_bit 8 (le_word bs))"

lemma length_le_bytes [simp, size_simps]: "length (le_bytes n w) = n"
  by (simp add: le_bytes_def)

lemma bit_byte_bound: "bit (b :: byte) n \<Longrightarrow> n < 8"
  using bit_imp_le_length by fastforce

lemma bit_le_word:
  "bit (le_word bs :: 'a::len word) j \<longleftrightarrow>
     j < LENGTH('a) \<and> j div 8 < length bs \<and> bit (bs ! (j div 8)) (j mod 8)"
proof (induction bs arbitrary: j)
  case Nil
  then show ?case by simp
next
  case (Cons b bs)
  show ?case
  proof (cases "j < 8")
    case True
    then show ?thesis by (auto simp: bit_simps Cons.IH)
  next
    case False
    then have "j div 8 = Suc ((j - 8) div 8)" "j mod 8 = (j - 8) mod 8"
      by (auto simp: le_div_geq le_mod_geq)
    with False show ?thesis
      by (auto simp: bit_simps Cons.IH dest: bit_byte_bound)
  qed
qed

lemma bit_le_bytes_nth:
  assumes "i < n"
  shows "bit (le_bytes n w ! i) k \<longleftrightarrow> k < 8 \<and> bit w (8 * i + k)"
  using assms by (auto simp: le_bytes_def bit_simps add.commute)

lemma le_word_le_bytes_take: "le_word (le_bytes n w) = take_bit (8 * n) (w :: 'a::len word)"
proof (rule bit_word_eqI)
  fix j assume j: "j < LENGTH('a)"
  have "j div 8 < n \<longleftrightarrow> j < 8 * n" by auto
  then show "bit (le_word (le_bytes n w) :: 'a word) j = bit (take_bit (8 * n) w) j"
    using j by (auto simp: bit_le_word bit_simps bit_le_bytes_nth)
qed

lemma le_word_le_bytes:
  assumes "LENGTH('a::len) \<le> 8 * n"
  shows "le_word (le_bytes n w) = (w :: 'a word)"
  using assms by (simp add: le_word_le_bytes_take take_bit_word_eq_self)

lemma le_bytes_le_word:
  assumes "8 * length bs \<le> LENGTH('a::len)"
  shows "le_bytes (length bs) (le_word bs :: 'a word) = bs"
proof (rule nth_equalityI)
  show "length (le_bytes (length bs) (le_word bs :: 'a word)) = length bs" by simp
next
  fix i assume "i < length (le_bytes (length bs) (le_word bs :: 'a word))"
  then have i: "i < length bs" by simp
  show "le_bytes (length bs) (le_word bs :: 'a word) ! i = bs ! i"
  proof (rule bit_word_eqI)
    fix k assume "k < LENGTH(8)"
    then have k: "k < 8" by simp
    with i assms have "8 * i + k < LENGTH('a)" by auto
    with i k show "bit (le_bytes (length bs) (le_word bs :: 'a word) ! i) k = bit (bs ! i) k"
      by (simp add: bit_le_bytes_nth bit_le_word)
  qed
qed

section \<open>Words\<close>

lemma unat_lt_64: "unat (x :: u64) < 18446744073709551616"
  using unsigned_less [of x, where ?'a = nat] by simp

lemma unat_lt_256 [simp]: "unat (x :: byte) < 256"
  using unsigned_less [of x, where ?'a = nat] by simp

lemma word_less_nat_iff: "a < b \<longleftrightarrow> unat a < unat (b :: 'a::len word)"
  by (rule word_less_nat_alt)

lemma unat_of_nat_small: "n < 2 ^ LENGTH('a::len) \<Longrightarrow> unat (of_nat n :: 'a word) = n"
  by (simp add: unat_of_nat)

lemma one_le_u64_iff: "1 \<le> x \<longleftrightarrow> x \<noteq> (0 :: u64)"
  by (simp add: word_le_nat_alt Suc_le_eq unat_gt_0)

lemma unat_drop_bit_div: "unat (drop_bit n (x :: 'a::len word)) = unat x div 2 ^ n"
  by (subst unat_drop_bit_eq) (rule drop_bit_eq_div)

lemma unat_exp: "n < LENGTH('a::len) \<Longrightarrow> unat (2 ^ n :: 'a word) = 2 ^ n"
  using unat_of_nat_small [of "2 ^ n", where ?'a = 'a] by simp

lemma unat_top_bit: "unat (drop_bit 63 (x :: u64)) \<le> 1"
  using unsigned_less [of x, where ?'a = nat] unfolding unat_drop_bit_div
  by (simp add: less_mult_imp_div_less flip: less_Suc_eq_le)

text \<open>The number of iterations of \<^verbatim>\<open>for i := 0; i < int(n); i++\<close> for a \<^verbatim>\<open>uint64\<close> count: the
  conversion to a 64-bit \<^verbatim>\<open>int\<close> makes a count of \<open>2^63\<close> or more negative.\<close>

definition int_count :: "u64 \<Rightarrow> nat" where
  "int_count n = nat (sint n)"

lemma sint_small: "unat (x :: u64) < 2 ^ 63 \<Longrightarrow> sint x = int (unat x)"
proof -
  assume "unat x < 2 ^ 63"
  then have "uint x < 2 ^ 63"
    using of_nat_less_iff [of "unat x" "2 ^ 63", where ?'a = int] by simp
  then have "signed_take_bit 63 (uint x) = uint x"
    by (intro signed_take_bit_int_eq_self) (auto intro: order_trans [OF _ uint_ge_0])
  then show ?thesis by (simp add: sint_uint)
qed

lemma int_count_small: "unat n < 2 ^ 63 \<Longrightarrow> int_count n = unat n"
  by (simp add: int_count_def sint_small)

lemma int_count_of_nat: "n < 2 ^ 63 \<Longrightarrow> int_count (of_nat n) = n"
  by (subst int_count_small) (simp_all add: unat_of_nat)

lemma int_count_big: "2 ^ 63 \<le> unat n \<Longrightarrow> int_count n = 0"
proof -
  assume "2 ^ 63 \<le> unat n"
  moreover have "unat n < 2 ^ 64" using unsigned_less [of n, where ?'a = nat] by simp
  ultimately have "unat n div 2 ^ 63 = 1" by (intro div_nat_eqI) auto
  then have "bit (unat n) 63" by (simp only: bit_iff_odd) simp
  then have "sint n < 0" using bit_last_iff [of n] by (simp add: bit_unsigned_iff)
  then show ?thesis by (simp add: int_count_def)
qed

end
