(* ===== verification/Wire.thy ===== *)
theory Wire
  imports Prelude
begin

text \<open>
  The byte streams of the program and its primitive codecs.

  \<^item> \<open>reader\<close> is \<^verbatim>\<open>utils.ReaderAndByteReader\<close>: an in-memory reader (the unread bytes of a
    \<^verbatim>\<open>bytes.Reader\<close>, or what a connection has still to deliver) or a
    \<^verbatim>\<open>utils.LimitedByteReader\<close> over another reader (utils/limitreader.go).
  \<^item> \<open>ReadByte\<close>, \<open>Read\<close>, \<open>ReadFull\<close>, \<open>ReadUvarint\<close>, \<open>AppendUvarint\<close> are the functions of
    \<^verbatim>\<open>io\<close> and \<^verbatim>\<open>encoding/binary\<close> the sources call.
  \<^item> \<open>UVarInt64Size\<close> is the size function of utils/number.go.
  \<^item> the locale \<open>codec\<close> is the contract of every encoder/decoder pair of the program;
    \<open>sized_codec\<close> adds a size function, as the \<^verbatim>\<open>BufferLength\<close> methods are.
\<close>

section \<open>Readers\<close>

datatype reader = BytesReader "byte list" | LimitByteReader reader int

type_synonym 'a rd = "reader \<Rightarrow> 'a result \<times> reader"

text \<open>The bytes a reader can still deliver, and the reader after \<open>k\<close> of them are taken.\<close>

fun avail :: "reader \<Rightarrow> byte list" where
  "avail (BytesReader bs) = bs"
| "avail (LimitByteReader R N) = take (nat N) (avail R)"

fun advance :: "nat \<Rightarrow> reader \<Rightarrow> reader" where
  "advance k (BytesReader bs) = BytesReader (drop k bs)"
| "advance k (LimitByteReader R N) = LimitByteReader (advance k R) (N - int k)"

text \<open>\<^verbatim>\<open>ReadByte\<close>: a limited reader decrements its limit also when the reader below fails.\<close>

fun ReadByte :: "byte rd" where
  "ReadByte (BytesReader []) = (Inl EOF, BytesReader [])"
| "ReadByte (BytesReader (b # bs)) = (Inr b, BytesReader bs)"
| "ReadByte (LimitByteReader R N) =
    (if N \<le> 0 then (Inl EOF, LimitByteReader R N)
     else (case ReadByte R of (v, R') \<Rightarrow> (v, LimitByteReader R' (N - 1))))"

text \<open>\<^verbatim>\<open>Read(p)\<close> with \<open>n = len(p)\<close>: the bytes read, whether \<^verbatim>\<open>io.EOF\<close> came back, the reader after.\<close>

fun Read :: "nat \<Rightarrow> reader \<Rightarrow> byte list \<times> bool \<times> reader" where
  "Read n (BytesReader bs) =
    (if bs = [] then ([], True, BytesReader bs) else (take n bs, False, BytesReader (drop n bs)))"
| "Read n (LimitByteReader R N) =
    (if N \<le> 0 then ([], True, LimitByteReader R N)
     else (case Read (min n (nat N)) R of
             (got, eof, R') \<Rightarrow> (got, eof, LimitByteReader R' (N - int (length got)))))"

text \<open>\<^verbatim>\<open>Left\<close> of a limited reader.\<close>

fun Left :: "reader \<Rightarrow> int" where
  "Left (LimitByteReader R N) = N"
| "Left (BytesReader bs) = int (length bs)"

lemma advance_0 [simp]: "advance 0 r = r"
  by (induction r) auto

lemma avail_advance [simp]: "avail (advance k r) = drop k (avail r)"
proof (induction r)
  case (LimitByteReader R N)
  have "nat (N - int k) = nat N - k" by arith
  with LimitByteReader show ?case by (simp add: drop_take)
qed simp

lemma advance_advance [simp]: "advance a (advance b r) = advance (b + a) r"
  by (induction r) (auto simp: add.commute)

lemma Read_spec:
  "0 < n \<Longrightarrow> Read n r = (take n (avail r), avail r = [], advance (length (take n (avail r))) r)"
proof (induction r arbitrary: n)
  case (BytesReader bs)
  then show ?case by (auto simp: min_def)
next
  case (LimitByteReader R N)
  then show ?case by (cases "N \<le> 0") (auto simp: min_def)
qed

text \<open>\<^verbatim>\<open>io.ReadFull\<close> of \<open>n\<close> bytes, as the loop of \<^verbatim>\<open>io.ReadAtLeast\<close>: nothing is read for \<open>n = 0\<close>;
  an end of input after some bytes is \<^verbatim>\<open>io.ErrUnexpectedEOF\<close>.\<close>

function readAtLeast :: "byte list \<Rightarrow> nat \<Rightarrow> byte list rd" where
  "readAtLeast acc n r =
    (if n = 0 then (Inr acc, r)
     else (case Read n r of (got, eof, r') \<Rightarrow>
             if eof then (if length got \<ge> n then Inr (acc @ got)
                          else if acc @ got \<noteq> [] then Inl UnexpectedEOF else Inl EOF, r')
             else readAtLeast (acc @ got) (n - length got) r'))"
  by pat_completeness auto
termination
  by (relation "measure (\<lambda>(acc, n, r). n)") (auto simp: Read_spec)

declare readAtLeast.simps [simp del]

definition ReadFull :: "nat \<Rightarrow> byte list rd" where
  "ReadFull n r = readAtLeast [] n r"

lemma ReadFull_ok [wire_simps]:
  "n \<le> length (avail r) \<Longrightarrow> ReadFull n r = (Inr (take n (avail r)), advance n r)"
  by (auto simp: ReadFull_def readAtLeast.simps [of "[]" n] readAtLeast.simps [of _ 0] Read_spec min_def)

lemma ReadFull_short:
  assumes "length (avail r) < n"
  shows "ReadFull n r = (Inl (if avail r = [] then EOF else UnexpectedEOF), advance (length (avail r)) r)"
proof -
  let ?bs = "avail r"
  have n: "0 < n" "0 < n - length ?bs" using assms by auto
  then show ?thesis using assms
    by (cases "?bs = []")
      (auto simp: ReadFull_def readAtLeast.simps [of "[]" n] Read_spec
        readAtLeast.simps [of _ "n - length ?bs"])
qed

lemma ReadByte_ok [wire_simps]: "avail r = b # bs \<Longrightarrow> ReadByte r = (Inr b, advance 1 r)"
proof (induction r arbitrary: bs)
  case (LimitByteReader R N)
  then have "0 < N" by (cases "N \<le> 0") auto
  moreover from this LimitByteReader.prems obtain cs where "avail R = b # cs"
    by (cases "avail R") (auto simp: take_Cons split: nat.splits)
  ultimately show ?case using LimitByteReader.IH by auto
qed auto

lemma ReadByte_empty: "avail r = [] \<Longrightarrow> fst (ReadByte r) = Inl EOF"
  by (induction r) (auto split: prod.splits)

section \<open>Sequencing of reads\<close>

definition andThen :: "'a rd \<Rightarrow> ('a \<Rightarrow> 'b rd) \<Rightarrow> 'b rd" where
  "andThen p f r = (case p r of (Inl e, r') \<Rightarrow> (Inl e, r') | (Inr x, r') \<Rightarrow> f x r')"

definition giveR :: "'a \<Rightarrow> 'a rd" where
  "giveR x r = (Inr x, r)"

definition failR :: "error \<Rightarrow> 'a rd" where
  "failR e r = (Inl e, r)"

text \<open>\<open>timesR n p\<close>: the loop that appends \<open>n\<close> decoded elements.\<close>

fun timesR :: "nat \<Rightarrow> 'a rd \<Rightarrow> 'a list rd" where
  "timesR 0 p = giveR []"
| "timesR (Suc n) p = andThen p (\<lambda>x. andThen (timesR n p) (\<lambda>xs. giveR (x # xs)))"

text \<open>\<open>decodes p bs x\<close>: on any reader whose next bytes are \<open>bs\<close>, \<open>p\<close> takes exactly those and
  returns \<open>x\<close>.\<close>

definition decodes :: "'a rd \<Rightarrow> byte list \<Rightarrow> 'a \<Rightarrow> bool" where
  "decodes p bs x \<longleftrightarrow>
    (\<forall>r rest. avail r = bs @ rest \<longrightarrow> p r = (Inr x, advance (length bs) r))"

lemma decodesD: "decodes p bs x \<Longrightarrow> avail r = bs @ rest \<Longrightarrow> p r = (Inr x, advance (length bs) r)"
  by (simp add: decodes_def)

lemma decodes_andThen:
  assumes "decodes p bs x" "decodes (f x) cs y"
  shows "decodes (andThen p f) (bs @ cs) y"
  using assms by (fastforce simp: decodes_def andThen_def)

lemma giveR_eq_iff [simp]: "giveR x = giveR y \<longleftrightarrow> x = y"
  by (metis Inr_inject fst_conv giveR_def)

lemma decodes_giveR [intro!, simp]: "decodes (giveR x) [] x"
  by (simp add: decodes_def giveR_def)

lemma decodes_andThen_give:
  assumes "decodes p bs x"
  shows "decodes (andThen p (\<lambda>x. giveR (f x))) bs (f x)"
  using decodes_andThen [OF assms decodes_giveR] by simp

lemma decodes_andThen_end:
  assumes "decodes p bs x" and "f x = giveR y"
  shows "decodes (andThen p f) bs y"
  using decodes_andThen [OF assms(1), of f "[]" y] assms(2) by simp

lemma decodes_timesR:
  assumes "\<And>x. x \<in> set xs \<Longrightarrow> decodes p (enc x) x"
  shows "decodes (timesR (length xs) p) (concat (map enc xs)) xs"
  using assms
proof (induction xs)
  case (Cons x xs)
  then have "decodes p (enc x) x" "decodes (timesR (length xs) p) (concat (map enc xs)) xs" by auto
  then show ?case by (simp add: decodes_andThen decodes_andThen_give)
qed simp

lemma decodes_if: "(c \<Longrightarrow> decodes p bs x) \<Longrightarrow> (\<not> c \<Longrightarrow> decodes q bs x) \<Longrightarrow> decodes (if c then p else q) bs x"
  by simp

lemma decodes_unique:
  assumes "decodes p (enc x) x" "decodes p (enc y) y" "enc x @ a = enc y @ b"
  shows "x = y \<and> a = b"
proof -
  have "p (BytesReader (enc x @ a)) = (Inr x, advance (length (enc x)) (BytesReader (enc x @ a)))"
    using assms(1) by (simp add: decodesD)
  moreover have "p (BytesReader (enc x @ a)) = (Inr y, advance (length (enc y)) (BytesReader (enc y @ b)))"
    using assms(2,3) by (simp add: decodesD)
  ultimately show ?thesis using assms(3) by auto
qed

section \<open>Unsigned variable-length integers\<close>

function AppendUvarint :: "u64 \<Rightarrow> byte list" where
  "AppendUvarint x =
    (if x < 0x80 then [ucast x]
     else (ucast x OR 0x80) # AppendUvarint (drop_bit 7 x))"
  by pat_completeness auto
termination
proof (relation "measure unat", goal_cases)
  case (2 x)
  then have "128 \<le> unat x" by (simp add: not_less word_le_nat_alt)
  then show ?case by (simp add: unat_drop_bit_div)
qed simp

declare AppendUvarint.simps [simp del]

text \<open>The loop of \<^verbatim>\<open>binary.ReadUvarint\<close> at byte \<open>i\<close> with the bits read so far; the shift is \<open>7 * i\<close>.\<close>

function readUvarintLoop :: "nat \<Rightarrow> u64 \<Rightarrow> u64 rd" where
  "readUvarintLoop i x r =
    (if 10 \<le> i then (Inl Overflow, r)
     else (case ReadByte r of
        (Inl e, r') \<Rightarrow> (Inl (if 0 < i \<and> e = EOF then UnexpectedEOF else e), r')
      | (Inr b, r') \<Rightarrow>
          if b < 0x80 then
            (if i = 9 \<and> 1 < b then Inl Overflow else Inr (x OR push_bit (7 * i) (ucast b)), r')
          else readUvarintLoop (i + 1) (x OR push_bit (7 * i) (ucast (b AND 0x7f))) r'))"
  by pat_completeness auto
termination
  by (relation "measure (\<lambda>(i, x, r). 10 - i)") auto

declare readUvarintLoop.simps [simp del]

definition ReadUvarint :: "u64 rd" where
  "ReadUvarint r = readUvarintLoop 0 0 r"

lemma mask_low7: "(b OR 0x80) AND 0x7f = (take_bit 7 b :: byte)"
proof -
  have "(0x80 :: byte) AND mask 7 = 0" by (simp add: mask_eq_exp_minus_1)
  moreover have "(0x7f :: byte) = mask 7" by (simp add: mask_eq_exp_minus_1)
  ultimately show ?thesis by (simp add: take_bit_eq_mask bit.conj_disj_distrib2)
qed

lemma uvarint_step:
  "take_bit (7 * i) x OR push_bit (7 * i) (ucast (take_bit 7 (ucast (drop_bit (7 * i) x) :: byte)))
   = take_bit (7 * i + 7) (x :: u64)"
  by (rule bit_word_eqI) (auto simp: bit_simps)

lemma uvarint_last:
  assumes "drop_bit (7 * i) x < (0x80 :: u64)"
  shows "take_bit (7 * i) x OR push_bit (7 * i) (ucast (ucast (drop_bit (7 * i) x) :: byte)) = x"
proof -
  let ?y = "drop_bit (7 * i) x"
  have "unat ?y < 2 ^ 7" using assms by (simp add: word_less_nat_alt)
  then have "take_bit 7 ?y = ?y" by (simp add: take_bit_nat_eq_self word_unat_eq_iff unsigned_take_bit_eq)
  then have "ucast (ucast ?y :: byte) = ?y"
    by (intro bit_word_eqI) (auto simp: bit_simps bit_eq_iff)
  then show ?thesis by (auto intro!: bit_word_eqI simp: bit_simps)
qed

lemma decodes_uvarintLoop:
  "y = drop_bit (7 * i) x \<Longrightarrow> i \<le> 9 \<Longrightarrow>
    decodes (readUvarintLoop i (take_bit (7 * i) x)) (AppendUvarint y) x"
proof (induction y arbitrary: i rule: AppendUvarint.induct)
  case (1 y)
  show ?case
  proof (cases "y < 0x80")
    case True
    have "unat y < 128" using True by (simp add: word_less_nat_alt)
    then have lt: "(ucast y :: byte) < 0x80"
      by (simp add: word_less_nat_alt unsigned_ucast_eq take_bit_nat_eq_self)
    have small: "\<not> (1 :: byte) < ucast y" if "i = 9"
    proof -
      have "unat y \<le> 1" using that "1.prems" unat_top_bit [of x] by (simp only: ) simp
      then show ?thesis
        by (simp add: word_less_nat_alt unsigned_ucast_eq take_bit_nat_eq_self)
    qed
    have "AppendUvarint y = [ucast y]" using True by (simp add: AppendUvarint.simps [of y])
    then show ?thesis
      using True lt small "1.prems" uvarint_last [of i x]
      by (auto simp: decodes_def readUvarintLoop.simps [of i] ReadByte_ok)
  next
    case False
    have "7 * i + 7 < 64"
    proof (rule ccontr)
      assume "\<not> ?thesis"
      then have "i = 9" using "1.prems" by simp
      then have "unat y \<le> 1" using "1.prems" unat_top_bit [of x] by (simp only: ) simp
      then show False using False by (simp add: word_less_nat_alt)
    qed
    then have i: "i + 1 \<le> 9" "i < 10" by auto
    have y: "drop_bit 7 y = drop_bit (7 * (i + 1)) x" using "1.prems" by (simp add: algebra_simps)
    have ge: "\<not> (ucast y OR 0x80 :: byte) < 0x80"
      using le_word_or1 [of "0x80 :: byte" "ucast y"] by (simp add: not_less)
    have dec: "decodes (readUvarintLoop (i + 1) (take_bit (7 * (i + 1)) x)) (AppendUvarint (drop_bit 7 y)) x"
      using "1.IH" [OF False y] i by simp
    have "AppendUvarint y = (ucast y OR 0x80) # AppendUvarint (drop_bit 7 y)"
      using False by (simp add: AppendUvarint.simps [of y])
    then show ?thesis
      using ge dec i "1.prems" uvarint_step [of i x]
      by (auto simp: decodes_def readUvarintLoop.simps [of i] ReadByte_ok mask_low7 algebra_simps)
  qed
qed

lemma decodes_uvarint [intro, wire_simps]: "decodes ReadUvarint (AppendUvarint x) x"
  using decodes_uvarintLoop [of x 0 x] by (simp add: ReadUvarint_def [abs_def])

text \<open>The length of an encoding, and \<^verbatim>\<open>utils.UVarInt64Size\<close> with its thresholds \<^verbatim>\<open>VarIntLen1\<close>
  to \<^verbatim>\<open>VarIntLen9\<close>, which are \<open>1 << 7\<close> to \<open>1 << 63\<close>.\<close>

lemma AppendUvarint_not_Nil [simp]: "AppendUvarint x \<noteq> []"
  by (subst AppendUvarint.simps) simp

lemma length_AppendUvarint_le_iff:
  "length (AppendUvarint x) \<le> k \<longleftrightarrow> 1 \<le> k \<and> unat x < 2 ^ (7 * k)"
proof (induction x arbitrary: k rule: AppendUvarint.induct)
  case (1 x)
  show ?case
  proof (cases "x < 0x80")
    case True
    then have "unat x < 128" by (simp add: word_less_nat_alt)
    moreover have "(128 :: nat) \<le> 2 ^ (7 * k)" if "1 \<le> k"
      using power_increasing [of 7 "7 * k" "2 :: nat"] that by simp
    ultimately show ?thesis using True by (auto simp: AppendUvarint.simps [of x])
  next
    case False
    then have ge: "128 \<le> unat x" by (simp add: word_less_nat_alt)
    have "unat (drop_bit 7 x) < 2 ^ (7 * j) \<longleftrightarrow> unat x < 2 ^ (7 * Suc j)" for j
      by (simp add: unat_drop_bit_div power_add div_less_iff_less_mult mult.commute)
    then have "length (AppendUvarint (drop_bit 7 x)) \<le> j \<longleftrightarrow> 1 \<le> j \<and> unat x < 2 ^ (7 * Suc j)" for j
      using 1 [OF False] by blast
    with ge False show ?thesis
      by (cases k; cases "k - 1") (simp_all add: AppendUvarint.simps [of x])
  qed
qed

definition VarIntLen :: "nat \<Rightarrow> u64" where
  "VarIntLen i = push_bit (i * 7) 1"

definition UVarInt64Size :: "u64 \<Rightarrow> nat" where
  "UVarInt64Size x =
    (if x < VarIntLen 1 then 1
     else if x < VarIntLen 2 then 2
     else if x < VarIntLen 3 then 3
     else if x < VarIntLen 4 then 4
     else if x < VarIntLen 5 then 5
     else if x < VarIntLen 6 then 6
     else if x < VarIntLen 7 then 7
     else if x < VarIntLen 8 then 8
     else if x < VarIntLen 9 then 9
     else 10)"

fun UVarInt64SliceSize :: "u64 list \<Rightarrow> nat" where
  "UVarInt64SliceSize [] = 0"
| "UVarInt64SliceSize (v # vs) = UVarInt64Size v + UVarInt64SliceSize vs"

lemma VarIntLen_less_iff:
  assumes "1 \<le> k" "k \<le> 9"
  shows "x < VarIntLen k \<longleftrightarrow> length (AppendUvarint x) \<le> k"
proof -
  have "unat (VarIntLen k) = 2 ^ (7 * k)"
    using assms by (simp add: VarIntLen_def push_bit_eq_mult unat_exp mult.commute)
  with assms show ?thesis by (simp add: word_less_nat_alt length_AppendUvarint_le_iff)
qed

lemma length_AppendUvarint_bounds:
  "1 \<le> length (AppendUvarint x)" "length (AppendUvarint x) \<le> 10"
  using length_AppendUvarint_le_iff [of x 0] length_AppendUvarint_le_iff [of x 10] unat_lt_64 [of x]
  by (simp_all add: Suc_le_eq)

lemma UVarInt64Size_eq_length [size_simps]: "UVarInt64Size x = length (AppendUvarint x)"
  using length_AppendUvarint_bounds [of x]
  by (simp add: UVarInt64Size_def VarIntLen_less_iff)

lemma UVarInt64SliceSize_eq_length [size_simps]:
  "UVarInt64SliceSize vs = length (concat (map AppendUvarint vs))"
  by (induction vs) (simp_all add: UVarInt64Size_eq_length)

section \<open>Fixed-width fields\<close>

definition ReadLE :: "nat \<Rightarrow> 'a::len word rd" where
  "ReadLE n = andThen (ReadFull n) (\<lambda>bs. giveR (le_word bs))"

lemma decodes_ReadFull [intro]: "length bs = n \<Longrightarrow> decodes (ReadFull n) bs bs"
  by (auto simp: decodes_def ReadFull_ok)

lemma decodes_ReadByte [intro, simp]: "decodes ReadByte [b] b"
  by (auto simp: decodes_def ReadByte_ok)

lemma decodes_ReadLE [intro]:
  "LENGTH('a::len) \<le> 8 * n \<Longrightarrow> decodes (ReadLE n) (le_bytes n w) (w :: 'a word)"
  using decodes_andThen_give [of "ReadFull n" "le_bytes n w" "le_bytes n w" "le_word :: _ \<Rightarrow> 'a word"]
  by (simp add: ReadLE_def decodes_ReadFull le_word_le_bytes)

section \<open>Reading never adds input\<close>

definition shrinks :: "'a rd \<Rightarrow> bool" where
  "shrinks p \<longleftrightarrow> (\<forall>r. length (avail (snd (p r))) \<le> length (avail r))"

lemma shrinks_ReadByte [intro, simp]: "shrinks ReadByte"
proof -
  have "length (avail (snd (ReadByte r))) \<le> length (avail r)" for r
    by (induction r rule: ReadByte.induct) (auto split: prod.splits)
  then show ?thesis by (simp add: shrinks_def)
qed

lemma shrinks_ReadFull [intro, simp]: "shrinks (ReadFull n)"
proof -
  have "length (avail (snd (ReadFull n r))) \<le> length (avail r)" for r
    by (cases "n \<le> length (avail r)") (simp_all add: ReadFull_ok ReadFull_short not_le)
  then show ?thesis by (simp add: shrinks_def)
qed

lemma shrinks_andThen [intro]:
  assumes "shrinks p" "\<And>x. shrinks (f x)"
  shows "shrinks (andThen p f)"
  unfolding shrinks_def
proof
  fix r
  obtain v r' where p: "p r = (v, r')" by (cases "p r")
  have "length (avail r') \<le> length (avail r)" using assms(1) p by (metis shrinks_def snd_conv)
  moreover have "length (avail (snd (f x r'))) \<le> length (avail r')" for x
    using assms(2) by (simp add: shrinks_def)
  ultimately show "length (avail (snd (andThen p f r))) \<le> length (avail r)"
    by (cases v) (auto simp: andThen_def p intro: order_trans)
qed

lemma shrinks_giveR [intro, simp]: "shrinks (giveR x)"
  by (simp add: shrinks_def giveR_def)

lemma shrinks_failR [intro, simp]: "shrinks (failR e)"
  by (simp add: shrinks_def failR_def)

lemma shrinks_if [intro]: "shrinks p \<Longrightarrow> shrinks q \<Longrightarrow> shrinks (if c then p else q)"
  by simp

lemma shrinks_ReadLE [intro, simp]: "shrinks (ReadLE n)"
  by (auto simp: ReadLE_def)

lemma shrinks_ReadUvarint [intro, simp]: "shrinks ReadUvarint"
proof -
  have "length (avail (snd (readUvarintLoop i x r))) \<le> length (avail r)" for i x r
  proof (induction i x r rule: readUvarintLoop.induct)
    case (1 i x r)
    obtain v r' where v: "ReadByte r = (v, r')" by (cases "ReadByte r")
    then have "length (avail r') \<le> length (avail r)"
      using shrinks_ReadByte by (metis shrinks_def snd_conv)
    with 1 v show ?case
      by (cases v) (auto simp: readUvarintLoop.simps [of i x r] intro: order_trans)
  qed
  then show ?thesis by (simp add: shrinks_def ReadUvarint_def)
qed

text \<open>A decoder that starts with a byte and succeeds has taken input.\<close>

lemma andThen_ReadLE_1_less:
  fixes f :: "byte \<Rightarrow> 'a rd"
  assumes "andThen (ReadLE 1) f r = (Inr x, r')" and "\<And>b. shrinks (f b)"
  shows "length (avail r') < length (avail r)"
proof (cases "avail r = []")
  case True
  then have "(ReadLE 1 :: byte rd) r = (Inl EOF, r)"
    by (simp add: ReadLE_def andThen_def ReadFull_short)
  then show ?thesis using assms(1) by (simp add: andThen_def)
next
  case False
  then have "1 \<le> length (avail r)" by (cases "avail r") auto
  then have "(ReadLE 1 :: byte rd) r = (Inr (le_word (take 1 (avail r))), advance 1 r)"
    by (simp add: ReadLE_def andThen_def ReadFull_ok giveR_def)
  then have "length (avail r') \<le> length (avail (advance 1 r))"
    using assms by (metis (no_types, lifting) andThen_def old.prod.case old.sum.simps(6) shrinks_def snd_conv)
  then show ?thesis using False by (cases "avail r") auto
qed

section \<open>The codec contract\<close>

text \<open>An encoder and a decoder of one type, with the well-formedness the encoder relies on.\<close>

locale codec =
  fixes enc :: "'a \<Rightarrow> byte list" and dec :: "'a rd" and ok :: "'a \<Rightarrow> bool"
  assumes dec_enc: "ok x \<Longrightarrow> decodes dec (enc x) x"
begin

lemma round_trip: "ok x \<Longrightarrow> dec (BytesReader (enc x @ rest)) = (Inr x, BytesReader rest)"
  using decodesD [OF dec_enc, of x "BytesReader (enc x @ rest)" rest] by simp

lemma enc_unique: "ok x \<Longrightarrow> ok y \<Longrightarrow> enc x @ a = enc y @ b \<Longrightarrow> x = y \<and> a = b"
  by (rule decodes_unique [OF dec_enc dec_enc])

lemma enc_inj_on: "inj_on enc {x. ok x}"
  by (auto intro!: inj_onI dest: enc_unique [where a = "[]" and b = "[]"])

lemma dec_list: "\<forall>x \<in> set xs. ok x \<Longrightarrow> decodes (timesR (length xs) dec) (concat (map enc xs)) xs"
  by (rule decodes_timesR) (auto intro: dec_enc)

text \<open>A list behind its length as a varint, read by a loop over \<^verbatim>\<open>int(count)\<close>.\<close>

lemma dec_counted:
  assumes "\<forall>x \<in> set xs. ok x" and "length xs < 2 ^ 63"
  shows "decodes (andThen ReadUvarint (\<lambda>n. timesR (int_count n) dec))
           (AppendUvarint (of_nat (length xs)) @ concat (map enc xs)) xs"
  using assms(2) dec_list [OF assms(1)]
  by (intro decodes_andThen [OF decodes_uvarint]) (simp add: int_count_of_nat)

end

locale sized_codec = codec +
  fixes size_of :: "'a \<Rightarrow> nat"
  assumes size_enc: "ok x \<Longrightarrow> size_of x = length (enc x)"
begin

lemma dec_consumes_size:
  "ok x \<Longrightarrow> avail r = enc x @ rest \<Longrightarrow> dec r = (Inr x, advance (size_of x) r)"
  by (simp add: size_enc decodesD [OF dec_enc])

lemma size_list: "\<forall>x \<in> set xs. ok x \<Longrightarrow> length (concat (map enc xs)) = sum_list (map size_of xs)"
  by (induction xs) (auto simp: size_enc)

end

interpretation uvarint: sized_codec AppendUvarint ReadUvarint "\<lambda>_. True" UVarInt64Size
  by unfold_locales (auto simp: UVarInt64Size_eq_length)

interpretation le_u32: sized_codec "le_bytes 4 :: u32 \<Rightarrow> byte list" "ReadLE 4" "\<lambda>_. True" "\<lambda>_. 4"
  by unfold_locales auto

interpretation le_hash: sized_codec "le_bytes 32 :: hash \<Rightarrow> byte list" "ReadLE 32" "\<lambda>_. True" "\<lambda>_. 32"
  by unfold_locales auto

text \<open>Every \<^verbatim>\<open>uint64\<close> is read back from its varint by \<^verbatim>\<open>binary.ReadUvarint\<close>, from any reader
  that holds it (also a limited one), exactly its bytes are taken, and \<^verbatim>\<open>UVarInt64Size\<close> is their
  number, between 1 and 10.\<close>

lemma uvarint_codec:
  assumes "avail r = AppendUvarint x @ rest"
  shows "ReadUvarint r = (Inr x, advance (UVarInt64Size x) r) \<and>
    avail (advance (UVarInt64Size x) r) = rest \<and>
    1 \<le> UVarInt64Size x \<and> UVarInt64Size x \<le> 10"
  using assms uvarint.dec_consumes_size [of r x rest] length_AppendUvarint_bounds [of x]
  by (simp add: UVarInt64Size_eq_length)

end
