(* ===== verification/Numbers.thy ===== *)
theory Numbers
  imports Prelude
begin

text \<open>
  utils/number.go and the small numeric helpers of utils: decimal parsing, powers of two,
  the xorshift generator, integer ranges.  The functions of \<^verbatim>\<open>strconv\<close> and \<^verbatim>\<open>math/bits\<close> they
  call are modelled from the Go library.
\<close>

section \<open>math/bits\<close>

text \<open>\<^verbatim>\<open>bits.Len64\<close>: the number of bits of \<open>x\<close>; \<^verbatim>\<open>bits.LeadingZeros64\<close>.\<close>

function Len64 :: "u64 \<Rightarrow> nat" where
  "Len64 x = (if x = 0 then 0 else Suc (Len64 (drop_bit 1 x)))"
  by pat_completeness auto
termination
proof (relation "measure unat", goal_cases)
  case (2 x)
  then have "0 < unat x" by (simp add: unat_gt_0)
  then have "unat (drop_bit 1 x) < unat x" by (subst unat_drop_bit_div) simp
  then show ?case by (simp only: in_measure)
qed simp

declare Len64.simps [simp del]

definition LeadingZeros64 :: "u64 \<Rightarrow> nat" where
  "LeadingZeros64 x = 64 - Len64 x"

definition Add64 :: "u64 \<Rightarrow> u64 \<Rightarrow> u64 \<Rightarrow> u64 \<times> u64" where
  "Add64 x y carry =
    (x + y + carry, if unat x + unat y + unat carry < 2 ^ 64 then 0 else 1)"

definition Mul64 :: "u64 \<Rightarrow> u64 \<Rightarrow> u64 \<times> u64" where
  "Mul64 x y = (of_nat (unat x * unat y div 2 ^ 64), x * y)"

definition ReverseBytes64 :: "u64 \<Rightarrow> u64" where
  "ReverseBytes64 x = le_word (rev (le_bytes 8 x))"

lemma Len64_bounds:
  "unat x < 2 ^ Len64 x" "x \<noteq> 0 \<Longrightarrow> 2 ^ (Len64 x - 1) \<le> unat x"
proof (induction x rule: Len64.induct)
  case (1 x)
  have half: "unat (drop_bit 1 x) = unat x div 2" by (subst unat_drop_bit_div) simp
  {
    case 1
    show ?case using "1.IH"(1) half by (cases "x = 0") (auto simp: Len64.simps [of x])
  next
    case 2
    then have pos: "0 < unat x" by (simp add: unat_gt_0)
    show ?case
    proof (cases "drop_bit 1 x = 0")
      case True
      then show ?thesis using pos 2 by (simp add: Len64.simps [of x] Len64.simps [of 0] del: drop_bit_Suc)
    next
      case False
      then have "0 < Len64 (drop_bit 1 x)" by (subst Len64.simps) simp
      with False "1.IH"(2) [OF 2 False] half 2 show ?thesis
        by (cases "Len64 (drop_bit 1 x)") (auto simp: Len64.simps [of x])
    qed
  }
qed

lemma Len64_le: "Len64 x \<le> 64"
proof (cases "x = 0")
  case False
  then have "2 ^ (Len64 x - 1) < (2 :: nat) ^ 64"
    using Len64_bounds(2) [of x] unat_lt_64 [of x] by simp
  then show ?thesis by (simp only: power_strict_increasing_iff)
qed (simp add: Len64.simps)

text \<open>utils/number.go \<^verbatim>\<open>PreviousPowerOfTwo\<close>: a 64-bit \<^verbatim>\<open>int\<close>, so the top bit gives the smallest \<^verbatim>\<open>int\<close>.\<close>

definition PreviousPowerOfTwo :: "u64 \<Rightarrow> int" where
  "PreviousPowerOfTwo x =
    (if x = 0 then 0 else sint (push_bit (64 - LeadingZeros64 x - 1) (1 :: u64)))"

lemma PreviousPowerOfTwo_bounds:
  assumes "0 < n" "n < 2 ^ 63"
  obtains k where "PreviousPowerOfTwo (of_nat n) = 2 ^ k" "2 ^ k \<le> n" "n < 2 ^ (k + 1)"
proof -
  let ?x = "of_nat n :: u64" and ?k = "Len64 (of_nat n) - 1"
  have n: "unat ?x = n" using assms by (simp add: unat_of_nat)
  then have "?x \<noteq> 0" using assms by auto
  then have pos: "0 < Len64 ?x" by (subst Len64.simps) simp
  have lo: "2 ^ ?k \<le> n" and hi: "n < 2 ^ (?k + 1)"
    using Len64_bounds [of ?x] \<open>?x \<noteq> 0\<close> n pos by auto
  from lo assms(2) have lt: "(2 :: nat) ^ ?k < 2 ^ 63" by (rule order.strict_trans1)
  then have k: "?k < 63" by (simp only: power_strict_increasing_iff)
  have "unat (2 ^ ?k :: u64) = 2 ^ ?k" using k by (intro unat_exp) simp
  with lt sint_small [of "2 ^ ?k"] have "sint (2 ^ ?k :: u64) = int (2 ^ ?k)"
    by (simp only:)
  then have "PreviousPowerOfTwo ?x = 2 ^ ?k"
    using \<open>?x \<noteq> 0\<close> Len64_le [of ?x]
    by (simp add: PreviousPowerOfTwo_def LeadingZeros64_def push_bit_eq_mult)
  with lo hi that show thesis by blast
qed

section \<open>Decimal numbers\<close>

definition is_digit :: "byte \<Rightarrow> bool" where
  "is_digit c \<longleftrightarrow> 48 \<le> c \<and> c \<le> 57"

text \<open>\<^verbatim>\<open>strconv.ParseUint(s, 10, 64)\<close>: no sign, no underscore; a value out of range is an error as
  soon as it is met.\<close>

fun parseUintLoop :: "byte list \<Rightarrow> u64 \<Rightarrow> u64 result" where
  "parseUintLoop [] n = Inr n"
| "parseUintLoop (c # cs) n =
    (if \<not> is_digit c then Inl (Err ''invalid syntax'')
     else if n \<ge> - 1 div 10 + 1 then Inl (Err ''value out of range'')
     else let n' = n * 10; n1 = n' + ucast (c - 48) in
       if n1 < n' then Inl (Err ''value out of range'') else parseUintLoop cs n1)"

definition ParseUint :: "byte list \<Rightarrow> u64 result" where
  "ParseUint s = (if s = [] then Inl (Err ''invalid syntax'') else parseUintLoop s 0)"

text \<open>\<^verbatim>\<open>strconv.FormatUint(n, 10)\<close>.\<close>

fun digits10 :: "nat \<Rightarrow> byte list" where
  "digits10 n = (if n < 10 then [48 + of_nat n] else digits10 (n div 10) @ [48 + of_nat (n mod 10)])"

declare digits10.simps [simp del]

definition FormatUint :: "u64 \<Rightarrow> byte list" where
  "FormatUint n = digits10 (unat n)"

text \<open>utils/number.go \<^verbatim>\<open>ParseUint64\<close>: the loop over the bytes left, with the number of digits read.\<close>

fun parseUint64Loop :: "byte list \<Rightarrow> byte list \<Rightarrow> nat \<Rightarrow> u64 \<Rightarrow> u64 result" where
  "parseUint64Loop s (c # rest) i d =
    (if is_digit c then
       (let d' = d * 10 + ucast (c - 48) in
        if i + 1 > 18 then ParseUint s else parseUint64Loop s rest (i + 1) d')
     else if i \<le> 0 then Inl (Err ''cannot parse uint64'')
     else Inl (Err ''unparsed tail left''))"
| "parseUint64Loop s [] i d =
    (if i \<le> 0 then Inl (Err ''cannot parse uint64'') else Inr d)"

definition ParseUint64 :: "byte list \<Rightarrow> u64 result" where
  "ParseUint64 s =
    (if s = [] then Inl (Err ''cannot parse uint64 from empty string'')
     else parseUint64Loop s s 0 0)"

text \<open>The number a digit string denotes.\<close>

definition dec_step :: "nat \<Rightarrow> byte \<Rightarrow> nat" where
  "dec_step v c = 10 * v + unat (c - 48)"

definition dec_val :: "byte list \<Rightarrow> nat" where
  "dec_val s = foldl dec_step 0 s"

lemma digit_val: "is_digit c \<Longrightarrow> unat (c - 48) \<le> 9"
  unfolding is_digit_def by unat_arith

lemma foldl_dec_step_ge: "v \<le> foldl dec_step v s"
proof (induction s arbitrary: v)
  case (Cons c s)
  have "v \<le> dec_step v c" by (simp add: dec_step_def)
  then show ?case using Cons [of "dec_step v c"] by simp
qed simp

lemma dec_step_u64:
  assumes "is_digit c"
  shows "dec_step (unat n) c < 2 ^ 64 \<longleftrightarrow>
      \<not> n \<ge> - 1 div 10 + 1 \<and> \<not> n * 10 + ucast (c - 48) < (n * 10 :: u64)"
    and "dec_step (unat n) c < 2 ^ 64 \<Longrightarrow> unat (n * 10 + ucast (c - 48) :: u64) = dec_step (unat n) c"
proof -
  let ?d = "ucast (c - 48) :: u64"
  have d: "unat ?d = unat (c - 48)" "unat ?d \<le> 9"
    using digit_val [OF assms] by (simp_all add: unsigned_ucast_eq take_bit_nat_eq_self)
  have cut: "1844674407370955162 \<le> n \<longleftrightarrow> 1844674407370955162 \<le> unat n"
    by (simp add: word_le_nat_alt)
  have mult: "unat (n * 10) = 10 * unat n" if "unat n < 1844674407370955162"
    using that by (simp add: unat_word_ariths)
  show "dec_step (unat n) c < 2 ^ 64 \<longleftrightarrow>
      \<not> n \<ge> - 1 div 10 + 1 \<and> \<not> n * 10 + ?d < n * 10"
    using d mult by (auto simp: cut dec_step_def word_less_nat_alt unat_plus_if')
  show "unat (n * 10 + ?d) = dec_step (unat n) c" if "dec_step (unat n) c < 2 ^ 64"
    using that d mult by (auto simp: dec_step_def unat_plus_if')
qed

lemma parseUintLoop_iff:
  "parseUintLoop s n = Inr m \<longleftrightarrow>
    list_all is_digit s \<and> foldl dec_step (unat n) s < 2 ^ 64 \<and> unat m = foldl dec_step (unat n) s"
proof (induction s arbitrary: n)
  case Nil
  then show ?case using unat_lt_64 [of n] by (auto simp: word_unat_eq_iff)
next
  case (Cons c s)
  show ?case
  proof (cases "is_digit c \<and> dec_step (unat n) c < 2 ^ 64")
    case True
    with Cons.IH show ?thesis using dec_step_u64 [of c n] by (simp add: Let_def)
  next
    case False
    then have "\<not> is_digit c \<or> 2 ^ 64 \<le> foldl dec_step (unat n) (c # s)"
      using foldl_dec_step_ge [of "dec_step (unat n) c" s] by auto
    then show ?thesis using False dec_step_u64(1) [of c n] by (auto simp: Let_def)
  qed
qed

lemma ParseUint_iff:
  "ParseUint s = Inr m \<longleftrightarrow> s \<noteq> [] \<and> list_all is_digit s \<and> dec_val s < 2 ^ 64 \<and> unat m = dec_val s"
  by (simp add: ParseUint_def parseUintLoop_iff dec_val_def)

lemma foldl_dec_step_less:
  "list_all is_digit s \<Longrightarrow> foldl dec_step v s < (v + 1) * 10 ^ length s"
proof (induction s arbitrary: v)
  case (Cons c s)
  then have "foldl dec_step (dec_step v c) s < (dec_step v c + 1) * 10 ^ length s" by simp
  also have "\<dots> \<le> ((v + 1) * 10) * 10 ^ length s"
    using digit_val [of c] Cons.prems by (intro mult_right_mono) (auto simp: dec_step_def)
  finally show ?case by (simp add: algebra_simps)
qed simp

lemma parseUint64Loop_iff:
  assumes "s = pre @ rest" "i = length pre" "i \<le> 18" "list_all is_digit pre" "s \<noteq> []"
    and "unat d = dec_val pre"
  shows "parseUint64Loop s rest i d = Inr m \<longleftrightarrow> ParseUint s = Inr m"
  using assms
proof (induction s rest i d arbitrary: pre rule: parseUint64Loop.induct)
  case (1 s c rest i d)
  show ?case
  proof (cases "is_digit c")
    case True
    have "dec_val (pre @ [c]) < 10 ^ length (pre @ [c])"
      unfolding dec_val_def using foldl_dec_step_less [of "pre @ [c]" 0] 1(5) True by simp
    also have "\<dots> \<le> 10 ^ 19" using 1(3,4) by (intro power_increasing) auto
    finally have lt: "dec_step (unat d) c < 2 ^ 64"
      using 1(7) by (simp add: dec_val_def)
    then have d': "unat (d * 10 + ucast (c - 48)) = dec_val (pre @ [c])"
      using dec_step_u64(2) [OF True lt] 1(7) by (simp add: dec_val_def)
    show ?thesis
      using True 1(1) [OF True refl _ _ _ _ _ _ d'] 1(2-7) by (auto simp: Let_def)
  next
    case False
    then show ?thesis using 1 by (auto simp: ParseUint_iff)
  qed
next
  case (2 s i d)
  then have "dec_val s < 2 ^ 64" using unat_lt_64 [of d] by simp
  with 2 show ?case by (auto simp: ParseUint_iff word_unat_eq_iff)
qed

lemma ParseUint64_iff: "ParseUint64 s = Inr m \<longleftrightarrow> ParseUint s = Inr m"
  using parseUint64Loop_iff [of s "[]" s 0 0 m]
  by (cases "s = []") (simp_all add: ParseUint64_def ParseUint_def dec_val_def)

text \<open>\<^verbatim>\<open>ParseUint64\<close> accepts exactly what \<^verbatim>\<open>strconv.ParseUint(s, 10, 64)\<close> accepts, with the same
  value: the non-empty strings of decimal digits whose value is below \<open>2^64\<close>.\<close>

lemma ParseUint64_correct:
  "(ParseUint64 s = Inr m \<longleftrightarrow> ParseUint s = Inr m) \<and>
   (ParseUint64 s = Inr m \<longleftrightarrow>
      s \<noteq> [] \<and> list_all is_digit s \<and> dec_val s < 2 ^ 64 \<and> unat m = dec_val s)"
  by (simp add: ParseUint64_iff ParseUint_iff)

lemma digit_byte: "n < 10 \<Longrightarrow> is_digit (48 + of_nat n) \<and> unat ((48 + of_nat n) - 48 :: byte) = n"
  by (simp add: is_digit_def word_le_nat_alt unat_of_nat unat_plus_if')

lemma digits10_not_Nil [simp]: "digits10 n \<noteq> []"
  by (subst digits10.simps) simp

lemma digits10_correct: "list_all is_digit (digits10 n) \<and> dec_val (digits10 n) = n"
proof (induction n rule: digits10.induct)
  case (1 n)
  show ?case
  proof (cases "n < 10")
    case True
    then show ?thesis using digit_byte [OF True]
      by (simp add: digits10.simps [of n] dec_val_def dec_step_def)
  next
    case False
    have "n mod 10 < 10" by simp
    from digit_byte [OF this] 1 [OF False] False show ?thesis
      by (simp add: digits10.simps [of n] dec_val_def dec_step_def)
  qed
qed

lemma ParseUint_FormatUint: "ParseUint (FormatUint n) = Inr n"
  using digits10_correct [of "unat n"] unat_lt_64 [of n] by (simp add: ParseUint_iff FormatUint_def)

lemma ParseUint64_FormatUint: "ParseUint64 (FormatUint n) = Inr n"
  by (simp add: ParseUint64_iff ParseUint_FormatUint)

section \<open>Short forms of numbers\<close>

text \<open>The package \<^verbatim>\<open>github.com/jxskiss/base62\<close> with the alphabet of utils/number.go, as a
  parameter: \<^verbatim>\<open>FormatUint\<close> and \<^verbatim>\<open>ParseUint\<close> of the encoding.\<close>

record base62_pkg =
  b62_FormatUint :: "u64 \<Rightarrow> byte list"
  b62_ParseUint :: "byte list \<Rightarrow> u64 result"

definition is_letter :: "byte \<Rightarrow> bool" where
  "is_letter c \<longleftrightarrow> 65 \<le> c \<and> c \<le> 90 \<or> 97 \<le> c \<and> c \<le> 122"

text \<open>What the code relies on: numbers are written with characters of the alphabet, and parsing
  undoes formatting.\<close>

definition base62_ok :: "base62_pkg \<Rightarrow> bool" where
  "base62_ok E \<longleftrightarrow>
    (\<forall>n. list_all (\<lambda>c. is_digit c \<or> is_letter c) (b62_FormatUint E n) \<and>
         b62_ParseUint E (b62_FormatUint E n) = Inr n)"

definition dot :: byte where
  "dot = 46"

definition DecodeBinaryNumber :: "base62_pkg \<Rightarrow> byte list \<Rightarrow> u64" where
  "DecodeBinaryNumber E i =
    (case (if dot \<notin> set i then ParseUint i else Inl (Err ''dot'')) of
       Inr n \<Rightarrow> n
     | Inl _ \<Rightarrow> (case b62_ParseUint E (filter (\<lambda>c. c \<noteq> dot) i) of Inr n \<Rightarrow> n | Inl _ \<Rightarrow> 0))"

definition EncodeBinaryNumber :: "base62_pkg \<Rightarrow> u64 \<Rightarrow> byte list" where
  "EncodeBinaryNumber E n =
    (let v1 = b62_FormatUint E n; v2 = FormatUint n;
         v1 = (if list_ex is_letter v1 then v1 else dot # v1)
     in if length v1 \<ge> length v2 then v2 else v1)"

lemma dot_no_alnum: "is_digit c \<or> is_letter c \<Longrightarrow> c \<noteq> dot"
  by (auto simp: is_digit_def is_letter_def dot_def)

lemma letter_not_digit: "is_letter c \<Longrightarrow> \<not> is_digit c"
  unfolding is_digit_def is_letter_def by unat_arith

text \<open>The short form of a number is decoded to that number, whichever of its two notations
  \<^verbatim>\<open>EncodeBinaryNumber\<close> chose, and it is never longer than the decimal one.\<close>

lemma BinaryNumber_round_trip:
  assumes "base62_ok E"
  shows "DecodeBinaryNumber E (EncodeBinaryNumber E n) = n \<and>
    length (EncodeBinaryNumber E n) \<le> length (FormatUint n)"
proof -
  let ?v1 = "b62_FormatUint E n"
  have alnum: "list_all (\<lambda>c. is_digit c \<or> is_letter c) ?v1" and parse: "b62_ParseUint E ?v1 = Inr n"
    using assms by (auto simp: base62_ok_def)
  have nodot: "dot \<notin> set ?v1" using alnum dot_no_alnum by (auto simp: list_all_iff)
  then have strip: "filter (\<lambda>c. c \<noteq> dot) ?v1 = ?v1" by (intro filter_True) auto
  have dec: "dot \<notin> set (FormatUint n)"
    using digits10_correct [of "unat n"] dot_no_alnum by (auto simp: FormatUint_def list_all_iff)
  have "ParseUint ?v1 \<noteq> Inr m" if "list_ex is_letter ?v1" for m
    using that letter_not_digit by (auto simp: ParseUint_iff list_all_iff list_ex_iff)
  then have "DecodeBinaryNumber E ?v1 = n" if "list_ex is_letter ?v1"
    using that nodot strip parse by (auto simp: DecodeBinaryNumber_def split: sum.splits)
  then show ?thesis using dec strip parse
    by (auto simp: EncodeBinaryNumber_def Let_def DecodeBinaryNumber_def ParseUint_FormatUint)
qed

text \<open>A package with these laws: digits only.\<close>

definition base62_dec :: base62_pkg where
  "base62_dec = \<lparr>b62_FormatUint = FormatUint, b62_ParseUint = ParseUint\<rparr>"

section \<open>xorshift*\<close>

definition XorShift64Star :: "u64 \<Rightarrow> u64" where
  "XorShift64Star x =
    (let x = x XOR drop_bit 12 x;
         x = x XOR push_bit 25 x;
         x = x XOR drop_bit 27 x
     in x * 0x2545F4914F6CDD1D)"

text \<open>utils/count.go, utils/statistics.go \<^verbatim>\<open>Factorial\<close>, utils/shorten.go.\<close>

fun SliceCount :: "'a list \<Rightarrow> ('a \<Rightarrow> bool) \<Rightarrow> nat" where
  "SliceCount [] f = 0"
| "SliceCount (x # xs) f = (if f x then 1 else 0) + SliceCount xs f"

lemma SliceCount_eq: "SliceCount xs f = length (filter f xs)"
  by (induction xs) auto

definition Shorten :: "byte list \<Rightarrow> nat \<Rightarrow> byte list" where
  "Shorten value n =
    (if length value \<le> n * 2 + 3 then value
     else take n value @ [dot, dot, dot] @ drop (length value - n) value)"

text \<open>\<^verbatim>\<open>ShortenSlice\<close> works in place: the tail is copied over the middle first.\<close>

definition ShortenSlice :: "byte list \<Rightarrow> nat \<Rightarrow> byte list" where
  "ShortenSlice value n =
    (if length value \<le> n * 2 + 3 then value
     else let tail = drop (length value - n) value;
              value = take (n + 3) value @ tail @ drop (n + 3 + length tail) value;
              value = value[n := dot, n + 1 := dot, n + 2 := dot]
          in take (n * 2 + 3) value)"

lemma ShortenSlice_eq: "ShortenSlice value n = Shorten value n"
proof (cases "length value \<le> n * 2 + 3")
  case False
  have "(take (n + 3) value)[n := dot, n + 1 := dot, n + 2 := dot] = take n value @ [dot, dot, dot]"
    using False by (intro nth_equalityI) (auto simp: nth_append nth_list_update nth_Cons' min_def)
  with False show ?thesis
    by (simp add: ShortenSlice_def Shorten_def list_update_append min_def numeral_3_eq_3)
qed (simp add: ShortenSlice_def Shorten_def)

end
