(* ===== verification/Types.thy ===== *)
theory Types
  imports Wire Numbers
begin

text \<open>
  types/difficulty.go and types/types.go: 128-bit difficulties and 32-byte hashes.

  A difficulty has the two limbs of the Go struct; \<open>val\<close> is the number it denotes.  The methods
  the source writes itself (\<^verbatim>\<open>Cmp\<close>, \<^verbatim>\<open>Add\<close>, \<^verbatim>\<open>Mul64\<close>, \<^verbatim>\<open>Target\<close>) are translated; the others
  forward to \<^verbatim>\<open>lukechampine.com/uint128\<close>, which is the parameter \<open>uint128_pkg\<close>, as
  \<^verbatim>\<open>github.com/holiman/uint256\<close> is \<open>uint256_pkg\<close> and \<^verbatim>\<open>tmthrgd/go-hex\<close> is \<open>hex_pkg\<close>.
\<close>

section \<open>Difficulties\<close>

datatype Difficulty = Difficulty (Lo: u64) (Hi: u64)

definition val :: "Difficulty \<Rightarrow> nat" where
  "val d = unat (Hi d) * 2 ^ 64 + unat (Lo d)"

definition of_val :: "nat \<Rightarrow> Difficulty" where
  "of_val n = Difficulty (of_nat n) (of_nat (n div 2 ^ 64))"

definition ZeroDifficulty :: Difficulty where
  "ZeroDifficulty = Difficulty 0 0"

definition MaxDifficulty :: Difficulty where
  "MaxDifficulty = Difficulty (- 1) (- 1)"

definition NewDifficulty :: "u64 \<Rightarrow> u64 \<Rightarrow> Difficulty" where
  "NewDifficulty lo hi = Difficulty lo hi"

definition DifficultyFrom64 :: "u64 \<Rightarrow> Difficulty" where
  "DifficultyFrom64 v = NewDifficulty v 0"

lemma val_lt: "val d < 2 ^ 128"
proof -
  have "unat (Hi d) * 2 ^ 64 + unat (Lo d) < (unat (Hi d) + 1) * 2 ^ 64"
    using unat_lt_64 [of "Lo d"] by simp
  also have "\<dots> \<le> 2 ^ 64 * 2 ^ 64" using unat_lt_64 [of "Hi d"] by (intro mult_right_mono) auto
  finally show ?thesis by (simp add: val_def)
qed

lemma val_div_mod: "val d div 2 ^ 64 = unat (Hi d)" "val d mod 2 ^ 64 = unat (Lo d)"
  using unat_lt_64 [of "Lo d"] by (simp_all add: val_def)

lemma val_inject: "val a = val b \<longleftrightarrow> a = b"
  by (metis Difficulty.expand val_div_mod word_unat_eq_iff)

lemma val_of_val: "val (of_val n) = n mod 2 ^ 128"
proof -
  have "n mod 2 ^ 128 = (n div 2 ^ 64) mod 2 ^ 64 * 2 ^ 64 + n mod 2 ^ 64"
    using mod_mult2_eq [of n "2 ^ 64" "2 ^ 64"] by simp
  then show ?thesis by (simp add: val_def of_val_def unat_of_nat)
qed

lemma Lo_of_val [simp]: "Lo (of_val n) = of_nat n"
  by (simp add: of_val_def)

lemma of_val_val [simp]: "of_val (val d) = d"
  using val_lt [of d] by (simp add: val_of_val flip: val_inject)

lemma two_64 [simp]: "(18446744073709551616 :: u64) = 0"
  by (simp add: word_eq_iff_unsigned [where ?'a = nat] unat_numeral)

lemma val_consts [simp]:
  "val ZeroDifficulty = 0" "val MaxDifficulty = 2 ^ 128 - 1" "val (DifficultyFrom64 v) = unat v"
  "val (Difficulty v 0) = unat v"
  by (simp_all add: val_def ZeroDifficulty_def MaxDifficulty_def DifficultyFrom64_def NewDifficulty_def
      unsigned_minus_1_eq_mask mask_eq_exp_minus_1)

instantiation Difficulty :: linorder
begin

definition less_eq_Difficulty :: "Difficulty \<Rightarrow> Difficulty \<Rightarrow> bool" where
  "less_eq_Difficulty a b \<longleftrightarrow> val a \<le> val b"

definition less_Difficulty :: "Difficulty \<Rightarrow> Difficulty \<Rightarrow> bool" where
  "less_Difficulty a b \<longleftrightarrow> val a < val b"

instance
  by standard (auto simp: less_eq_Difficulty_def less_Difficulty_def val_inject)

end

text \<open>The comparison the source writes out on the limbs.\<close>

definition Cmp :: "Difficulty \<Rightarrow> Difficulty \<Rightarrow> int" where
  "Cmp d v =
    (if d = v then 0
     else if Hi d < Hi v \<or> (Hi d = Hi v \<and> Lo d < Lo v) then - 1
     else 1)"

definition Add :: "Difficulty \<Rightarrow> Difficulty \<Rightarrow> Difficulty" where
  "Add d v =
    (let (lo, carry) = Add64 (Lo d) (Lo v) 0; (hi, _) = Add64 (Hi d) (Hi v) carry
     in Difficulty lo hi)"

definition MulBy64 :: "Difficulty \<Rightarrow> u64 \<Rightarrow> Difficulty" where
  "MulBy64 d v = (let (hi, lo) = Mul64 (Lo d) v; hi = hi + Hi d * v in Difficulty lo hi)"

lemma less_limbs: "val a < val b \<longleftrightarrow> Hi a < Hi b \<or> Hi a = Hi b \<and> Lo a < Lo b"
proof -
  have "unat (Hi a) < unat (Hi b) \<Longrightarrow> val a < val b" for a b
  proof -
    assume lt: "unat (Hi a) < unat (Hi b)"
    have "val a < (unat (Hi a) + 1) * 2 ^ 64" using unat_lt_64 [of "Lo a"] by (simp add: val_def)
    also have "\<dots> \<le> unat (Hi b) * 2 ^ 64" using lt by (intro mult_right_mono) auto
    finally show "val a < val b" by (simp add: val_def)
  qed
  then show ?thesis
    by (auto simp: word_less_nat_alt word_unat_eq_iff val_def linorder_neq_iff)
      (metis less_asym not_less_iff_gr_or_eq val_def)+
qed

lemma Cmp_spec: "Cmp a b = (if a < b then - 1 else if a = b then 0 else 1)"
  by (auto simp: Cmp_def less_Difficulty_def less_limbs)

lemma Cmp_iffs [simp]:
  "Cmp a b < 0 \<longleftrightarrow> a < b" "0 \<le> Cmp a b \<longleftrightarrow> b \<le> a"
  "0 < Cmp a b \<longleftrightarrow> b < a" "Cmp a b \<le> 0 \<longleftrightarrow> a \<le> b" "Cmp a b = 0 \<longleftrightarrow> a = b"
  by (auto simp: Cmp_spec)

lemma val_Add: "val (Add a b) = (val a + val b) mod 2 ^ 128"
proof -
  let ?s = "unat (Lo a) + unat (Lo b)" and ?h = "unat (Hi a) + unat (Hi b)"
  have "of_val (val a + val b) = Add a b"
  proof -
    have n: "val a + val b = ?h * 2 ^ 64 + ?s" by (simp add: val_def algebra_simps)
    have d: "(val a + val b) div 2 ^ 64 = ?h + (if ?s < 2 ^ 64 then 0 else 1)"
      unfolding n using unat_lt_64 [of "Lo a"] unat_lt_64 [of "Lo b"] by auto
    show ?thesis
      unfolding of_val_def d unfolding n by (simp add: Add_def Add64_def)
  qed
  then show ?thesis by (metis val_of_val)
qed

lemma val_MulBy64: "val (MulBy64 d v) = (val d * unat v) mod 2 ^ 128"
proof -
  have "of_val (val d * unat v) = MulBy64 d v"
  proof -
    have n: "val d * unat v = (unat (Hi d) * unat v) * 2 ^ 64 + unat (Lo d) * unat v"
      by (simp add: val_def algebra_simps)
    have "(val d * unat v) div 2 ^ 64 = unat (Hi d) * unat v + (unat (Lo d) * unat v) div 2 ^ 64"
      unfolding n by simp
    then show ?thesis
      unfolding of_val_def by (simp add: MulBy64_def Mul64_def n)
  qed
  then show ?thesis by (metis val_of_val)
qed

text \<open>Difficulty arithmetic and comparison are those of 128-bit numbers: \<^verbatim>\<open>Add\<close> and \<^verbatim>\<open>Mul64\<close> wrap
  modulo \<open>2^128\<close> and \<^verbatim>\<open>Cmp\<close> is the numerical order.\<close>

lemma Difficulty_arithmetic:
  "val (Add a b) = (val a + val b) mod 2 ^ 128 \<and>
   val (MulBy64 a v) = (val a * unat v) mod 2 ^ 128 \<and>
   Cmp a b = (if val a < val b then - 1 else if val a = val b then 0 else 1)"
  by (simp add: val_Add val_MulBy64 Cmp_spec less_Difficulty_def val_inject)

section \<open>The uint128 package\<close>

text \<open>The operations the sources call.  Division by zero, and \<^verbatim>\<open>Sub\<close> and \<^verbatim>\<open>Mul64\<close> out of range, panic.\<close>

record uint128_pkg =
  u_IsZero :: "Difficulty \<Rightarrow> bool"
  u_Equals :: "Difficulty \<Rightarrow> Difficulty \<Rightarrow> bool"
  u_Equals64 :: "Difficulty \<Rightarrow> u64 \<Rightarrow> bool"
  u_Cmp64 :: "Difficulty \<Rightarrow> u64 \<Rightarrow> int"
  u_AddWrap64 :: "Difficulty \<Rightarrow> u64 \<Rightarrow> Difficulty"
  u_SubWrap :: "Difficulty \<Rightarrow> Difficulty \<Rightarrow> Difficulty"
  u_SubWrap64 :: "Difficulty \<Rightarrow> u64 \<Rightarrow> Difficulty"
  u_Sub :: "Difficulty \<Rightarrow> Difficulty \<Rightarrow> Difficulty result"
  u_MulWrap :: "Difficulty \<Rightarrow> Difficulty \<Rightarrow> Difficulty"
  u_Mul64 :: "Difficulty \<Rightarrow> u64 \<Rightarrow> Difficulty result"
  u_Div :: "Difficulty \<Rightarrow> Difficulty \<Rightarrow> Difficulty result"
  u_Div64 :: "Difficulty \<Rightarrow> u64 \<Rightarrow> Difficulty result"
  u_QuoRem64 :: "Difficulty \<Rightarrow> u64 \<Rightarrow> (Difficulty \<times> u64) result"
  u_FromBytesBE :: "byte list \<Rightarrow> Difficulty"
  u_PutBytesBE :: "Difficulty \<Rightarrow> byte list"

definition div_panic :: error where
  "div_panic = Panic ''integer divide by zero''"

text \<open>Big-endian bytes of a difficulty.\<close>

definition be_bytes :: "Difficulty \<Rightarrow> byte list" where
  "be_bytes d = rev (le_bytes 8 (Lo d) @ le_bytes 8 (Hi d))"

definition be_diff :: "byte list \<Rightarrow> Difficulty" where
  "be_diff bs = Difficulty (le_word (rev (drop 8 bs))) (le_word (rev (take 8 bs)))"

text \<open>The documented behaviour of the package, on the numbers denoted.\<close>

definition uint128_ok :: "uint128_pkg \<Rightarrow> bool" where
  "uint128_ok U \<longleftrightarrow>
    (\<forall>a. u_IsZero U a \<longleftrightarrow> val a = 0) \<and>
    (\<forall>a b. u_Equals U a b \<longleftrightarrow> val a = val b) \<and>
    (\<forall>a v. u_Equals64 U a v \<longleftrightarrow> val a = unat v) \<and>
    (\<forall>a v. u_Cmp64 U a v = (if val a < unat v then - 1 else if val a = unat v then 0 else 1)) \<and>
    (\<forall>a v. val (u_AddWrap64 U a v) = (val a + unat v) mod 2 ^ 128) \<and>
    (\<forall>a b. val (u_SubWrap U a b) = (2 ^ 128 + val a - val b) mod 2 ^ 128) \<and>
    (\<forall>a v. val (u_SubWrap64 U a v) = (2 ^ 128 + val a - unat v) mod 2 ^ 128) \<and>
    (\<forall>a b. u_Sub U a b = (if val b \<le> val a then Inr (of_val (val a - val b)) else Inl (Panic ''underflow''))) \<and>
    (\<forall>a b. val (u_MulWrap U a b) = (val a * val b) mod 2 ^ 128) \<and>
    (\<forall>a v. u_Mul64 U a v = (if val a * unat v < 2 ^ 128 then Inr (of_val (val a * unat v))
                            else Inl (Panic ''overflow''))) \<and>
    (\<forall>a b. u_Div U a b = (if val b = 0 then Inl div_panic else Inr (of_val (val a div val b)))) \<and>
    (\<forall>a v. u_Div64 U a v = (if v = 0 then Inl div_panic else Inr (of_val (val a div unat v)))) \<and>
    (\<forall>a v. u_QuoRem64 U a v =
       (if v = 0 then Inl div_panic else Inr (of_val (val a div unat v), of_nat (val a mod unat v)))) \<and>
    (\<forall>bs. length bs = 16 \<longrightarrow> u_FromBytesBE U bs = be_diff bs) \<and>
    (\<forall>a. u_PutBytesBE U a = be_bytes a)"

definition uint128_ref :: uint128_pkg where
  "uint128_ref = \<lparr>
    u_IsZero = (\<lambda>a. val a = 0),
    u_Equals = (\<lambda>a b. val a = val b),
    u_Equals64 = (\<lambda>a v. val a = unat v),
    u_Cmp64 = (\<lambda>a v. if val a < unat v then - 1 else if val a = unat v then 0 else 1),
    u_AddWrap64 = (\<lambda>a v. of_val (val a + unat v)),
    u_SubWrap = (\<lambda>a b. of_val (2 ^ 128 + val a - val b)),
    u_SubWrap64 = (\<lambda>a v. of_val (2 ^ 128 + val a - unat v)),
    u_Sub = (\<lambda>a b. if val b \<le> val a then Inr (of_val (val a - val b)) else Inl (Panic ''underflow'')),
    u_MulWrap = (\<lambda>a b. of_val (val a * val b)),
    u_Mul64 = (\<lambda>a v. if val a * unat v < 2 ^ 128 then Inr (of_val (val a * unat v))
                     else Inl (Panic ''overflow'')),
    u_Div = (\<lambda>a b. if val b = 0 then Inl div_panic else Inr (of_val (val a div val b))),
    u_Div64 = (\<lambda>a v. if v = 0 then Inl div_panic else Inr (of_val (val a div unat v))),
    u_QuoRem64 = (\<lambda>a v. if v = 0 then Inl div_panic
                    else Inr (of_val (val a div unat v), of_nat (val a mod unat v))),
    u_FromBytesBE = be_diff,
    u_PutBytesBE = be_bytes\<rparr>"

lemma uint128_ref_ok [simp]: "uint128_ok uint128_ref"
  unfolding uint128_ok_def uint128_ref_def
  by (intro conjI allI impI; simp only: uint128_pkg.simps val_of_val)

lemma uint128_okD:
  assumes "uint128_ok U"
  shows "u_Cmp64 U a v = (if val a < unat v then - 1 else if val a = unat v then 0 else 1)"
    and "val (u_AddWrap64 U a v) = (val a + unat v) mod 2 ^ 128"
    and "val (u_SubWrap U a b) = (2 ^ 128 + val a - val b) mod 2 ^ 128"
    and "u_Div U a b = (if val b = 0 then Inl div_panic else Inr (of_val (val a div val b)))"
    and "u_Div64 U a v = (if v = 0 then Inl div_panic else Inr (of_val (val a div unat v)))"
    and "u_QuoRem64 U a v = (if v = 0 then Inl div_panic
           else Inr (of_val (val a div unat v), of_nat (val a mod unat v)))"
    and "u_Mul64 U a v = (if val a * unat v < 2 ^ 128 then Inr (of_val (val a * unat v))
           else Inl (Panic ''overflow''))"
    and "u_PutBytesBE U a = be_bytes a"
    and "u_IsZero U a \<longleftrightarrow> val a = 0"
    and "u_Equals U a b \<longleftrightarrow> val a = val b"
    and "u_Equals64 U a v \<longleftrightarrow> val a = unat v"
    and "val (u_MulWrap U a b) = (val a * val b) mod 2 ^ 128"
    and "val (u_SubWrap64 U a v) = (2 ^ 128 + val a - unat v) mod 2 ^ 128"
    and "u_Sub U a b = (if val b \<le> val a then Inr (of_val (val a - val b)) else Inl (Panic ''underflow''))"
  using assms unfolding uint128_ok_def by (elim conjE, simp only:)+

lemma uint128_FromBytesBE: "uint128_ok U \<Longrightarrow> length bs = 16 \<Longrightarrow> u_FromBytesBE U bs = be_diff bs"
  unfolding uint128_ok_def by blast

lemma be_diff_be_bytes [simp]: "be_diff (be_bytes d) = d"
  by (simp add: be_diff_def be_bytes_def le_word_le_bytes)

lemma length_be_bytes [simp]: "length (be_bytes d) = 16"
  by (simp add: be_bytes_def)

lemma be_bytes_be_diff: "length bs = 16 \<Longrightarrow> be_bytes (be_diff bs) = bs"
  using le_bytes_le_word [of "rev (drop 8 bs)", where ?'a = 64]
    le_bytes_le_word [of "rev (take 8 bs)", where ?'a = 64]
  by (simp add: be_bytes_def be_diff_def)

text \<open>The forwarding methods of types/difficulty.go.\<close>

definition IsZero :: "uint128_pkg \<Rightarrow> Difficulty \<Rightarrow> bool" where
  "IsZero U d = u_IsZero U d"

definition Equals :: "uint128_pkg \<Rightarrow> Difficulty \<Rightarrow> Difficulty \<Rightarrow> bool" where
  "Equals U d v = u_Equals U d v"

definition Equals64 :: "uint128_pkg \<Rightarrow> Difficulty \<Rightarrow> u64 \<Rightarrow> bool" where
  "Equals64 U d v = u_Equals64 U d v"

definition Cmp64 :: "uint128_pkg \<Rightarrow> Difficulty \<Rightarrow> u64 \<Rightarrow> int" where
  "Cmp64 U d v = u_Cmp64 U d v"

definition AddBy64 :: "uint128_pkg \<Rightarrow> Difficulty \<Rightarrow> u64 \<Rightarrow> Difficulty" where
  "AddBy64 U d v = u_AddWrap64 U d v"

definition Sub :: "uint128_pkg \<Rightarrow> Difficulty \<Rightarrow> Difficulty \<Rightarrow> Difficulty" where
  "Sub U d v = u_SubWrap U d v"

definition Sub64 :: "uint128_pkg \<Rightarrow> Difficulty \<Rightarrow> u64 \<Rightarrow> Difficulty" where
  "Sub64 U d v = u_SubWrap64 U d v"

definition Mul :: "uint128_pkg \<Rightarrow> Difficulty \<Rightarrow> Difficulty \<Rightarrow> Difficulty" where
  "Mul U d v = u_MulWrap U d v"

definition Div :: "uint128_pkg \<Rightarrow> Difficulty \<Rightarrow> Difficulty \<Rightarrow> Difficulty result" where
  "Div U d v = u_Div U d v"

definition Div64 :: "uint128_pkg \<Rightarrow> Difficulty \<Rightarrow> u64 \<Rightarrow> Difficulty result" where
  "Div64 U d v = u_Div64 U d v"

definition QuoRem64 :: "uint128_pkg \<Rightarrow> Difficulty \<Rightarrow> u64 \<Rightarrow> (Difficulty \<times> u64) result" where
  "QuoRem64 U d v = u_QuoRem64 U d v"

lemma val_Sub:
  assumes "uint128_ok U" "val b \<le> val a"
  shows "val (Sub U a b) = val a - val b"
proof -
  have "val (Sub U a b) = (2 ^ 128 + val a - val b) mod 2 ^ 128"
    using uint128_okD(3) [OF assms(1), of a b] by (simp only: Sub_def)
  also have "\<dots> = (2 ^ 128 + (val a - val b)) mod 2 ^ 128"
    by (simp only: diff_add_assoc assms(2))
  also have "\<dots> = (val a - val b) mod 2 ^ 128" by (rule mod_add_self1)
  also have "\<dots> = val a - val b" using val_lt [of a] by (intro mod_less) linarith
  finally show ?thesis .
qed

text \<open>\<^verbatim>\<open>Target\<close>: \<open>2^64 / d\<close> rounded up.\<close>

definition Target :: "uint128_pkg \<Rightarrow> Difficulty \<Rightarrow> u64 result" where
  "Target U d =
    (if Hi d > 0 then Inr 1
     else if Lo d \<le> 1 then Inr (- 1)
     else bindR (QuoRem64 U (Difficulty 0 1) (Lo d)) (\<lambda>(q, rem).
       if rem > 0 then Inr (Lo q + 1) else Inr (Lo q)))"

lemma ceil_div:
  assumes "0 < (l :: nat)"
  shows "(n + l - 1) div l = n div l + (if 0 < n mod l then 1 else 0)"
proof -
  have r: "n mod l < l" using assms by simp
  have "n + l - 1 = n div l * l + (n mod l + l - 1)"
    using assms div_mult_mod_eq [of n l] by linarith
  then have "(n + l - 1) div l = n div l + (n mod l + l - 1) div l"
    using assms by (metis add.commute div_mult_self1 less_not_refl)
  moreover have "(n mod l + l - 1) div l = (if 0 < n mod l then 1 else 0)"
    using assms r by (auto intro!: div_nat_eqI)
  ultimately show ?thesis by simp
qed

lemma Target_middle:
  assumes "uint128_ok U" "Hi d = 0" "1 < Lo d"
  shows "\<exists>t. Target U d = Inr t \<and> unat t = (2 ^ 64 + val d - 1) div val d"
proof -
  let ?l = "unat (Lo d)" and ?N = "2 ^ 64 :: nat"
  have l: "1 < ?l" and v: "val d = ?l" using assms by (simp_all add: word_less_nat_alt val_def)
  have q: "?N div ?l < 2 ^ 64 - 1"
    using div_le_mono2 [of 2 ?l ?N] l by simp
  have q': "unat (of_nat (?N div ?l) :: u64) = ?N div ?l"
    using q by (intro unat_of_nat_small) simp
  have "?N mod ?l < ?l" using l by (intro mod_less_divisor) simp
  also have "?l < 2 ^ 64" using unat_lt_64 [of "Lo d"] by simp
  finally have "unat (of_nat (?N mod ?l) :: u64) = ?N mod ?l"
    by (intro unat_of_nat_small) simp
  then have r': "(0 :: u64) < of_nat (?N mod ?l) \<longleftrightarrow> 0 < ?N mod ?l"
    by (simp only: word_less_nat_alt unat_0)
  have "QuoRem64 U (Difficulty 0 1) (Lo d) = Inr (of_val (?N div ?l), of_nat (?N mod ?l))"
    using assms l by (simp add: QuoRem64_def uint128_okD val_def word_unat_eq_iff)
  then have t: "Target U d = Inr (of_nat (?N div ?l) + (if 0 < ?N mod ?l then 1 else 0))"
    using assms r' by (simp add: Target_def of_val_def not_le)
  have "unat (of_nat (?N div ?l) + (if 0 < ?N mod ?l then 1 else 0) :: u64)
      = ?N div ?l + (if 0 < ?N mod ?l then 1 else 0)"
    using q q' by (simp add: unat_plus_if')
  then show ?thesis using t ceil_div [of ?l ?N] l v by simp
qed

section \<open>Proof of work\<close>

text \<open>The package \<^verbatim>\<open>holiman/uint256\<close>; its \<^verbatim>\<open>Int\<close> is four 64-bit limbs, the lowest first, here one word.\<close>

record uint256_pkg =
  q_SetBytes32 :: "byte list \<Rightarrow> 256 word"
  q_Div :: "256 word \<Rightarrow> 256 word \<Rightarrow> 256 word"
  q_Bytes32 :: "256 word \<Rightarrow> byte list"

definition uint256_ok :: "uint256_pkg \<Rightarrow> bool" where
  "uint256_ok Q \<longleftrightarrow>
    (\<forall>bs. length bs = 32 \<longrightarrow> q_SetBytes32 Q bs = le_word (rev bs)) \<and>
    (\<forall>x y. y \<noteq> 0 \<longrightarrow> q_Div Q x y = x div y) \<and>
    (\<forall>x. q_Bytes32 Q x = rev (le_bytes 32 x))"

definition uint256_ref :: uint256_pkg where
  "uint256_ref = \<lparr>q_SetBytes32 = (\<lambda>bs. le_word (rev bs)), q_Div = (\<lambda>x y. x div y),
     q_Bytes32 = (\<lambda>x. rev (le_bytes 32 x))\<rparr>"

lemma uint256_ref_ok [simp]: "uint256_ok uint256_ref"
  by (simp add: uint256_ok_def uint256_ref_def)

definition limb :: "256 word \<Rightarrow> nat \<Rightarrow> u64" where
  "limb w i = ucast (drop_bit (64 * i) w)"

definition mk256 :: "u64 \<Rightarrow> u64 \<Rightarrow> u64 \<Rightarrow> u64 \<Rightarrow> 256 word" where
  "mk256 a b c d = le_word (le_bytes 8 a @ le_bytes 8 b @ le_bytes 8 c @ le_bytes 8 d)"

definition ZeroHash :: hash where
  "ZeroHash = 0"

definition DifficultyFromBytes :: "uint128_pkg \<Rightarrow> byte list \<Rightarrow> Difficulty" where
  "DifficultyFromBytes U buf = u_FromBytesBE U buf"

definition powBase :: "uint256_pkg \<Rightarrow> 256 word" where
  "powBase Q = q_SetBytes32 Q (replicate 32 0xff)"

definition DifficultyFromPoW :: "uint128_pkg \<Rightarrow> uint256_pkg \<Rightarrow> hash \<Rightarrow> Difficulty" where
  "DifficultyFromPoW U Q powHash =
    (if powHash = ZeroHash then ZeroDifficulty
     else
       let pow = q_SetBytes32 Q (le_bytes 32 powHash);
           pow = mk256 (ReverseBytes64 (limb pow 3)) (ReverseBytes64 (limb pow 2))
                       (ReverseBytes64 (limb pow 1)) (ReverseBytes64 (limb pow 0));
           powResult = q_Bytes32 Q (q_Div Q (powBase Q) pow)
       in DifficultyFromBytes U (drop 16 powResult))"

definition CheckPoW :: "uint128_pkg \<Rightarrow> uint256_pkg \<Rightarrow> Difficulty \<Rightarrow> hash \<Rightarrow> bool" where
  "CheckPoW U Q d pow \<longleftrightarrow> Cmp (DifficultyFromPoW U Q pow) d \<ge> 0"

lemma le_bytes_ReverseBytes64: "le_bytes 8 (ReverseBytes64 x) = rev (le_bytes 8 x)"
  using le_bytes_le_word [of "rev (le_bytes 8 x)", where ?'a = 64] by (simp add: ReverseBytes64_def)

lemma le_bytes_limb:
  assumes "i < 4"
  shows "le_bytes 8 (limb w i) = take 8 (drop (8 * i) (le_bytes 32 w))"
proof (rule nth_equalityI)
  show "length (le_bytes 8 (limb w i)) = length (take 8 (drop (8 * i) (le_bytes 32 w)))"
    using assms by simp
next
  fix k assume "k < length (le_bytes 8 (limb w i))"
  then have k: "k < 8" by simp
  then have "8 * i + k < 32" using assms by simp
  with k show "le_bytes 8 (limb w i) ! k = take 8 (drop (8 * i) (le_bytes 32 w)) ! k"
    by (intro bit_word_eqI) (auto simp: bit_le_bytes_nth limb_def bit_simps algebra_simps)
qed

lemma rev_chunk:
  assumes "length B = 32" "i < 4"
  shows "rev (take 8 (drop (8 * (3 - i)) (rev B))) = take 8 (drop (8 * i) B)"
proof -
  have "32 - 8 * (3 - i) = 8 * i + 8" "8 * i + 8 - 8 = 8 * i" using assms(2) by auto
  then show ?thesis using assms
    by (simp add: drop_rev take_rev drop_take del: diff_mult_distrib2)
qed

lemma chunks4: "length B = 32 \<Longrightarrow>
    take 8 B @ take 8 (drop 8 B) @ take 8 (drop 16 B) @ take 8 (drop 24 B) = B"
proof -
  assume "length B = 32"
  then have "take 8 (drop 24 B) = drop 24 B" by simp
  moreover have "take 8 (drop k B) @ drop (k + 8) B = drop k B" for k
    using append_take_drop_id [of 8 "drop k B"] by (simp only: drop_drop add.commute)
  from this [of 0] this [of 8] this [of 16] have
    "take 8 B @ drop 8 B = B" "take 8 (drop 8 B) @ drop 16 B = drop 8 B"
    "take 8 (drop 16 B) @ drop 24 B = drop 16 B" by simp_all
  ultimately show ?thesis by metis
qed

lemma pow_bytes_swap:
  assumes "uint256_ok Q" and pow: "pow = q_SetBytes32 Q (le_bytes 32 h)"
  shows "mk256 (ReverseBytes64 (limb pow 3)) (ReverseBytes64 (limb pow 2))
                (ReverseBytes64 (limb pow 1)) (ReverseBytes64 (limb pow 0)) = h"
proof -
  let ?B = "le_bytes 32 h"
  have "pow = le_word (rev ?B)" using assms by (simp add: uint256_ok_def)
  then have "le_bytes 32 pow = rev ?B"
    using le_bytes_le_word [of "rev ?B", where ?'a = 256] by simp
  then have "le_bytes 8 (ReverseBytes64 (limb pow (3 - i))) = take 8 (drop (8 * i) ?B)" if "i < 4" for i
    using that rev_chunk [of ?B i] by (simp add: le_bytes_ReverseBytes64 le_bytes_limb)
  from this [of 0] this [of 1] this [of 2] this [of 3] show ?thesis
    using chunks4 [of ?B] by (simp add: mk256_def le_word_le_bytes)
qed

lemma be_diff_low:
  "be_diff (drop 16 (rev (le_bytes 32 w))) = of_val (unat (w :: 256 word))"
proof -
  let ?B = "le_bytes 32 w"
  have lo: "(le_word (take 8 ?B) :: u64) = ucast w"
    by (rule bit_word_eqI) (auto simp: bit_le_word bit_le_bytes_nth bit_simps)
  have hi: "(le_word (take 8 (drop 8 ?B)) :: u64) = ucast (drop_bit 64 w)"
    by (rule bit_word_eqI) (auto simp: bit_le_word bit_le_bytes_nth bit_simps algebra_simps)
  have "(ucast (drop_bit 64 w) :: u64) = of_nat (unat w div 2 ^ 64)"
    by (simp add: word_unat_eq_iff unsigned_ucast_eq unat_of_nat take_bit_eq_mod unat_drop_bit_div)
  moreover have "(ucast w :: u64) = of_nat (unat w)" by simp
  ultimately show ?thesis
    using lo hi by (simp add: be_diff_def of_val_def drop_rev take_rev rev_drop drop_take)
qed

lemma powBase_eq: "uint256_ok Q \<Longrightarrow> powBase Q = - 1"
proof -
  have "(0xff :: byte) = - 1" by simp
  then have "le_word (replicate 32 (0xff :: byte)) = (- 1 :: 256 word)"
    by (intro bit_word_eqI) (simp only: bit_le_word, auto simp: less_mult_imp_div_less)
  then show "uint256_ok Q \<Longrightarrow> powBase Q = - 1" by (simp add: uint256_ok_def powBase_def)
qed

lemma uint256_okD:
  assumes "uint256_ok Q"
  shows "y \<noteq> 0 \<Longrightarrow> q_Div Q x y = x div y" and "q_Bytes32 Q x = rev (le_bytes 32 x)"
  using assms by (auto simp: uint256_ok_def)

lemma val_DifficultyFromPoW:
  assumes "uint128_ok U" "uint256_ok Q" "h \<noteq> 0"
  shows "val (DifficultyFromPoW U Q h) = ((2 ^ 256 - 1) div unat h) mod 2 ^ 128"
proof -
  let ?q = "(- 1) div h :: 256 word"
  have "DifficultyFromPoW U Q h = be_diff (drop 16 (rev (le_bytes 32 ?q)))"
    using assms
    by (simp add: DifficultyFromPoW_def ZeroHash_def Let_def pow_bytes_swap [OF assms(2) refl, unfolded One_nat_def]
        powBase_eq DifficultyFromBytes_def uint128_FromBytesBE uint256_okD)
  moreover have "unat ?q = (2 ^ 256 - 1) div unat h"
    by (simp add: unat_div unsigned_minus_1_eq_mask mask_eq_exp_minus_1)
  ultimately show ?thesis by (simp only: be_diff_low val_of_val)
qed

text \<open>Proof-of-work check.  For a hash of at least \<open>2^128\<close> \<^verbatim>\<open>CheckPoW\<close> is the exact
  condition \<open>hash * difficulty < 2^256\<close>; the zero hash only passes difficulty zero; and
  \<^verbatim>\<open>Target\<close> is \<open>2^64 / difficulty\<close> rounded up, without panic, wherever that fits 64 bits.\<close>

lemma CheckPoW_Target_correct:
  assumes "uint128_ok U" and "uint256_ok Q"
  shows "(2 ^ 128 \<le> unat h \<longrightarrow> (CheckPoW U Q d h \<longleftrightarrow> unat h * val d < 2 ^ 256)) \<and>
    (CheckPoW U Q d 0 \<longleftrightarrow> d = ZeroDifficulty) \<and>
    (2 \<le> val d \<longrightarrow> val d < 2 ^ 64 \<longrightarrow>
       (\<exists>t. Target U d = Inr t \<and> unat t = (2 ^ 64 + val d - 1) div val d))"
proof (intro conjI impI)
  assume h: "2 ^ 128 \<le> unat h"
  then have "h \<noteq> 0" by auto
  have "(2 ^ 256 - 1) div unat h \<le> (2 ^ 256 - 1) div 2 ^ 128"
    by (rule div_le_mono2 [OF _ h]) simp
  also have "\<dots> < (2 ^ 128 :: nat)" by simp
  finally have "val (DifficultyFromPoW U Q h) = (2 ^ 256 - 1) div unat h"
    using val_DifficultyFromPoW [OF assms \<open>h \<noteq> 0\<close>] by simp
  moreover have "val d \<le> (2 ^ 256 - 1) div unat h \<longleftrightarrow> unat h * val d < 2 ^ 256"
    using h by (subst less_eq_div_iff_mult_less_eq) (auto simp: mult.commute)
  ultimately show "CheckPoW U Q d h \<longleftrightarrow> unat h * val d < 2 ^ 256"
    by (simp only: CheckPoW_def Cmp_iffs less_eq_Difficulty_def)
next
  show "CheckPoW U Q d 0 \<longleftrightarrow> d = ZeroDifficulty"
    using val_inject [of d ZeroDifficulty]
    by (simp add: CheckPoW_def DifficultyFromPoW_def ZeroHash_def less_eq_Difficulty_def)
next
  assume d: "2 \<le> val d" "val d < 2 ^ 64"
  then have "Hi d = 0" by (simp add: val_def unat_eq_0 [symmetric])
  moreover from this d have "1 < Lo d" by (simp add: val_def word_less_nat_alt)
  ultimately show "\<exists>t. Target U d = Inr t \<and> unat t = (2 ^ 64 + val d - 1) div val d"
    using Target_middle assms(1) by blast
qed

text \<open>Below \<open>2^128\<close> the quotient of \<^verbatim>\<open>DifficultyFromPoW\<close> is cut to its low 128 bits, so that a
  hash which satisfies \<open>hash * difficulty < 2^256\<close> can be refused.\<close>

lemma CheckPoW_truncates:
  assumes "uint128_ok U" and "uint256_ok Q"
  shows "\<not> CheckPoW U Q (of_val (2 ^ 127)) 3 \<and> unat (3 :: hash) * val (of_val (2 ^ 127)) < 2 ^ 256"
proof -
  have "val (DifficultyFromPoW U Q 3) = ((2 ^ 256 - 1) div 3) mod 2 ^ 128"
    using val_DifficultyFromPoW [OF assms, of 3] by simp
  also have "\<dots> < 2 ^ 127" by simp
  finally show ?thesis
    by (simp add: CheckPoW_def less_eq_Difficulty_def val_of_val not_le)
qed

section \<open>Hashes\<close>

definition HashFromBytes :: "byte list \<Rightarrow> hash" where
  "HashFromBytes buf = (if length buf \<noteq> 32 then 0 else le_word buf)"

text \<open>\<^verbatim>\<open>Compare\<close> on the four 64-bit words of the arrays, the last first.\<close>

definition Compare :: "hash \<Rightarrow> hash \<Rightarrow> int" where
  "Compare h other =
    (if limb h 3 < limb other 3 then - 1
     else if limb h 3 > limb other 3 then 1
     else if limb h 2 < limb other 2 then - 1
     else if limb h 2 > limb other 2 then 1
     else if limb h 1 < limb other 1 then - 1
     else if limb h 1 > limb other 1 then 1
     else if limb h 0 < limb other 0 then - 1
     else if limb h 0 > limb other 0 then 1
     else 0)"

definition Hash_Uint64 :: "hash \<Rightarrow> u64" where
  "Hash_Uint64 h = le_word (take 8 (le_bytes 32 h))"

lemma unat_limb: "unat (limb h i) = unat h div 2 ^ (64 * i) mod 2 ^ 64"
  by (simp add: limb_def unsigned_ucast_eq take_bit_eq_mod unat_drop_bit_div)

lemma unat_limbs:
  "unat h = ((unat (limb h 3) * 2 ^ 64 + unat (limb h 2)) * 2 ^ 64 + unat (limb h 1)) * 2 ^ 64 + unat (limb h 0)"
proof -
  let ?M = "2 ^ 64 :: nat"
  have step: "unat h div 2 ^ (64 * i) = unat h div 2 ^ (64 * Suc i) * ?M + unat (limb h i)" for i
    using div_mult_mod_eq [of "unat h div 2 ^ (64 * i)" ?M]
    by (simp add: unat_limb div_mult2_eq power_add mult.commute)
  have "unat h < 2 ^ 256" using unsigned_less [of h, where ?'a = nat] by simp
  then have "unat h div 2 ^ (64 * 4) = 0" by simp
  with step [of 0] step [of 1] step [of 2] step [of 3] show ?thesis
    by (simp only: eval_nat_numeral mult_0_right power_0 div_by_1) simp
qed

lemma lex_step:
  assumes "a < (2 :: nat) ^ 64" "b < 2 ^ 64"
  shows "x * 2 ^ 64 + a < y * 2 ^ 64 + b \<longleftrightarrow> x < y \<or> x = y \<and> a < b"
proof -
  have "x < y \<Longrightarrow> x * 2 ^ 64 + a < y * 2 ^ 64 + b" if "a < 2 ^ 64" for x y a b :: nat
  proof -
    assume "x < y"
    then have "(x + 1) * 2 ^ 64 \<le> y * 2 ^ 64" by (intro mult_right_mono) auto
    then show ?thesis using that by simp
  qed
  from this [of a x y b] this [of b y x a] assms show ?thesis
    by (cases x y rule: linorder_cases) auto
qed

lemma unat_limb_lt: "unat (limb h i) < 2 ^ 64"
  using unat_lt_64 by simp

lemma hash_less_limbs:
  "h < o' \<longleftrightarrow> limb h 3 < limb o' 3 \<or> limb h 3 = limb o' 3 \<and> (limb h 2 < limb o' 2 \<or> limb h 2 = limb o' 2 \<and>
     (limb h 1 < limb o' 1 \<or> limb h 1 = limb o' 1 \<and> limb h 0 < limb o' 0))"
proof -
  have eq: "x * 2 ^ 64 + a = y * 2 ^ 64 + b \<longleftrightarrow> x = y \<and> a = b" if "a < 2 ^ 64" "b < 2 ^ 64" for x y a b :: nat
    using lex_step [of a b x y] lex_step [of b a y x] that by (metis nat_neq_iff)
  show ?thesis
    unfolding word_less_nat_alt [of h] unat_limbs [of h] unat_limbs [of o']
    by (simp only: lex_step unat_limb_lt eq word_less_nat_alt word_unat_eq_iff) blast
qed

lemma Compare_spec: "Compare a b = (if a < b then - 1 else if a = b then 0 else 1)"
proof (cases a b rule: linorder_cases)
  case less
  then have "Compare a b = - 1"
    unfolding hash_less_limbs by (elim disjE conjE) (simp_all add: Compare_def)
  with less show ?thesis by simp
next
  case equal
  then show ?thesis by (simp add: Compare_def)
next
  case greater
  then have "Compare a b = 1"
    unfolding hash_less_limbs by (elim disjE conjE) (simp_all add: Compare_def order_less_not_sym)
  with greater show ?thesis by auto
qed

lemma Compare_less_iff [simp]: "Compare a b < 0 \<longleftrightarrow> a < b" "Compare a b = 0 \<longleftrightarrow> a = b" "0 < Compare a b \<longleftrightarrow> b < a"
  by (auto simp: Compare_spec)

text \<open>\<^verbatim>\<open>Hash.Compare\<close> is a total order: it orders the little-endian numbers of the two
  arrays, is zero only on equal hashes, antisymmetric and transitive.\<close>

lemma Hash_Compare_order:
  "Compare a b = (if a < b then - 1 else if a = b then 0 else 1) \<and>
   Compare b a = - Compare a b \<and>
   (Compare a b \<le> 0 \<longrightarrow> Compare b c \<le> 0 \<longrightarrow> Compare a c \<le> 0)"
  by (auto simp: Compare_spec)

section \<open>Text forms\<close>

text \<open>\<^verbatim>\<open>encoding/hex\<close>: two lower-case digits per byte; decoding takes both cases.\<close>

definition hexDigit :: "byte \<Rightarrow> byte" where
  "hexDigit n = (if n < 10 then 48 + n else 87 + n)"

definition hexVal :: "byte \<Rightarrow> byte option" where
  "hexVal c =
    (if 48 \<le> c \<and> c \<le> 57 then Some (c - 48)
     else if 97 \<le> c \<and> c \<le> 102 then Some (c - 87)
     else if 65 \<le> c \<and> c \<le> 70 then Some (c - 55)
     else None)"

definition hexEncode :: "byte list \<Rightarrow> byte list" where
  "hexEncode bs = concat (map (\<lambda>b. [hexDigit (drop_bit 4 b), hexDigit (b AND 15)]) bs)"

fun hexDecode :: "byte list \<Rightarrow> byte list result" where
  "hexDecode [] = Inr []"
| "hexDecode [p] = Inl (Err (if hexVal p = None then ''invalid byte'' else ''odd length hex string''))"
| "hexDecode (p # q # r) =
    (case (hexVal p, hexVal q) of
       (Some a, Some b) \<Rightarrow> bindR (hexDecode r) (\<lambda>bs. Inr (((push_bit 4 a) OR b) # bs))
     | _ \<Rightarrow> Inl (Err ''invalid byte''))"

text \<open>\<^verbatim>\<open>github.com/tmthrgd/go-hex\<close>, used where speed matters: \<^verbatim>\<open>Encode\<close> and \<^verbatim>\<open>Decode\<close>.\<close>

record hex_pkg =
  hx_Encode :: "byte list \<Rightarrow> byte list"
  hx_Decode :: "byte list \<Rightarrow> byte list result"

definition hex_ok :: "hex_pkg \<Rightarrow> bool" where
  "hex_ok X \<longleftrightarrow>
    (\<forall>bs. length (hx_Encode X bs) = 2 * length bs \<and> hx_Decode X (hx_Encode X bs) = Inr bs)"

definition hex_ref :: hex_pkg where
  "hex_ref = \<lparr>hx_Encode = hexEncode, hx_Decode = hexDecode\<rparr>"

definition quote :: byte where
  "quote = 34"

definition Hash_MarshalJSON :: "hex_pkg \<Rightarrow> hash \<Rightarrow> byte list" where
  "Hash_MarshalJSON X h = quote # hx_Encode X (le_bytes 32 h) @ [quote]"

text \<open>The receiver's value after \<^verbatim>\<open>UnmarshalJSON\<close>, from its value before.\<close>

definition Hash_UnmarshalJSON :: "hex_pkg \<Rightarrow> hash \<Rightarrow> byte list \<Rightarrow> hash result" where
  "Hash_UnmarshalJSON X h b =
    (if length b = 0 \<or> length b = 2 then Inr h
     else if length b \<noteq> 32 * 2 + 2 then Inl (Err ''wrong hash size'')
     else bindR (hx_Decode X (take (length b - 2) (drop 1 b))) (\<lambda>bs. Inr (le_word bs)))"

definition Hash_String :: "hash \<Rightarrow> byte list" where
  "Hash_String h = hexEncode (le_bytes 32 h)"

definition HashFromString :: "byte list \<Rightarrow> hash result" where
  "HashFromString s =
    bindR (hexDecode s) (\<lambda>buf.
      if length buf \<noteq> 32 then Inl (Err ''wrong hash size'') else Inr (le_word buf))"

definition Bytes_MarshalJSON :: "hex_pkg \<Rightarrow> byte list \<Rightarrow> byte list" where
  "Bytes_MarshalJSON X b = quote # hx_Encode X b @ [quote]"

definition Bytes_UnmarshalJSON :: "hex_pkg \<Rightarrow> byte list \<Rightarrow> byte list result" where
  "Bytes_UnmarshalJSON X buf =
    (if length buf < 2 \<or> length buf mod 2 \<noteq> 0 \<or> hd buf \<noteq> quote \<or> last buf \<noteq> quote
     then Inl (Err ''invalid bytes'')
     else hx_Decode X (take (length buf - 2) (drop 1 buf)))"

definition Difficulty_Bytes :: "uint128_pkg \<Rightarrow> Difficulty \<Rightarrow> byte list" where
  "Difficulty_Bytes U d = u_PutBytesBE U d"

definition Difficulty_String :: "uint128_pkg \<Rightarrow> Difficulty \<Rightarrow> byte list" where
  "Difficulty_String U d = hexEncode (Difficulty_Bytes U d)"

definition Difficulty_MarshalJSON :: "uint128_pkg \<Rightarrow> hex_pkg \<Rightarrow> Difficulty \<Rightarrow> byte list" where
  "Difficulty_MarshalJSON U X d =
    (if Hi d = 0 then FormatUint (Lo d)
     else quote # hx_Encode X (u_PutBytesBE U d) @ [quote])"

text \<open>\<^verbatim>\<open>DifficultyFromString\<close>: after a \<^verbatim>\<open>0x\<close> prefix the bytes are right-aligned in 16, and more than 16
  make the slice expression \<^verbatim>\<open>d[DifficultySize-len(buf):]\<close> panic.\<close>

definition DifficultyFromString :: "uint128_pkg \<Rightarrow> byte list \<Rightarrow> Difficulty result" where
  "DifficultyFromString U s =
    (if take 2 s = [48, 120] then
       bindR (hexDecode (drop 2 s)) (\<lambda>buf.
         if length buf > 16 then Inl (Panic ''slice bounds out of range'')
         else Inr (DifficultyFromBytes U (replicate (16 - length buf) 0 @ buf)))
     else
       bindR (hexDecode s) (\<lambda>buf.
         if length buf \<noteq> 16 then Inl (Err ''wrong difficulty size'')
         else Inr (DifficultyFromBytes U buf)))"

definition Difficulty_UnmarshalJSON :: "uint128_pkg \<Rightarrow> hex_pkg \<Rightarrow> byte list \<Rightarrow> Difficulty result" where
  "Difficulty_UnmarshalJSON U X b =
    (if b = [] then Inl UnexpectedEOF
     else if hd b = quote then
       (if length b < 2 \<or> length b mod 2 \<noteq> 0 \<or> last b \<noteq> quote then Inl (Err ''invalid bytes'')
        else if length b = 16 * 2 + 2 then
          bindR (hx_Decode X (take (length b - 2) (drop 1 b))) (\<lambda>buf. Inr (DifficultyFromBytes U buf))
        else DifficultyFromString U (take (length b - 2) (drop 1 b)))
     else bindR (ParseUint64 b) (\<lambda>lo. Inr (Difficulty lo 0)))"

text \<open>\<^verbatim>\<open>Scan\<close> and \<^verbatim>\<open>Value\<close> for the database; \<^verbatim>\<open>None\<close> is a nil value or source.\<close>

definition Difficulty_Scan :: "uint128_pkg \<Rightarrow> Difficulty \<Rightarrow> byte list option \<Rightarrow> Difficulty result" where
  "Difficulty_Scan U d src =
    (case src of None \<Rightarrow> Inr d
     | Some buf \<Rightarrow>
         if length buf = 0 then Inr d
         else if length buf \<noteq> 16 then Inl (Err ''invalid difficulty size'')
         else Inr (DifficultyFromBytes U buf))"

definition Hash_Scan :: "hash \<Rightarrow> byte list option \<Rightarrow> hash result" where
  "Hash_Scan h src =
    (case src of None \<Rightarrow> Inr h
     | Some buf \<Rightarrow>
         if length buf = 0 then Inr h
         else if length buf \<noteq> 32 then Inl (Err ''invalid hash size'')
         else Inr (le_word buf))"

definition Hash_Value :: "hash \<Rightarrow> byte list option" where
  "Hash_Value h = (if h = ZeroHash then None else Some (le_bytes 32 h))"

lemma hexVal_hexDigit:
  assumes "n < 16"
  shows "hexVal (hexDigit n) = Some n"
proof (cases "n < 10")
  case True
  then have "48 \<le> 48 + n" "48 + n \<le> 57"
    by (simp_all add: word_le_nat_alt word_less_nat_alt unat_plus_if')
  with True show ?thesis by (simp add: hexVal_def hexDigit_def)
next
  case False
  then have "97 \<le> 87 + n" "87 + n \<le> 102" "\<not> 87 + n \<le> 57"
    using assms by (simp_all add: word_le_nat_alt word_less_nat_alt unat_plus_if')
  with False show ?thesis by (simp add: hexVal_def hexDigit_def)
qed

lemma nibbles: "push_bit 4 (drop_bit 4 b) OR (b AND 15) = (b :: byte)"
proof -
  have "(15 :: byte) = mask 4" by (simp add: mask_eq_exp_minus_1)
  then have "b AND 15 = take_bit 4 b" by (simp add: take_bit_eq_mask)
  then show ?thesis by (auto intro!: bit_word_eqI simp: bit_simps)
qed

lemma nibbles_lt: "drop_bit 4 b < (16 :: byte)" "b AND 15 < (16 :: byte)"
proof -
  have "unat (drop_bit 4 b) < 16" unfolding unat_drop_bit_div
    using unat_lt_256 [of b] by (simp add: less_mult_imp_div_less)
  then show "drop_bit 4 b < (16 :: byte)" by (simp only: word_less_nat_alt) simp
  show "b AND 15 < (16 :: byte)" using word_and_le1 [of b 15] by unat_arith
qed

lemma length_hexEncode: "length (hexEncode bs) = 2 * length bs"
  by (induction bs) (auto simp: hexEncode_def)

lemma hexDecode_hexEncode [simp]: "hexDecode (hexEncode bs) = Inr bs"
proof (induction bs)
  case (Cons b bs)
  then show ?case
    by (simp add: hexEncode_def hexVal_hexDigit nibbles_lt nibbles)
qed (simp add: hexEncode_def)

lemma hex_ref_ok [simp]: "hex_ok hex_ref"
  by (simp add: hex_ok_def hex_ref_def length_hexEncode)

lemma hd_FormatUint: "FormatUint n \<noteq> [] \<and> hd (FormatUint n) \<noteq> quote"
  using digits10_correct [of "unat n"] digits10_not_Nil [of "unat n"]
  by (cases "digits10 (unat n)") (auto simp: FormatUint_def is_digit_def quote_def)

lemma hexEncode_no_0x: "take 2 (hexEncode bs) \<noteq> [48, 120]"
proof (cases bs)
  case (Cons b bs')
  have "hexVal (hexDigit (b AND 15)) \<noteq> None" by (simp add: hexVal_hexDigit nibbles_lt)
  then have "hexDigit (b AND 15) \<noteq> 120" by (auto simp: hexVal_def)
  then show ?thesis by (simp add: Cons hexEncode_def)
qed (simp add: hexEncode_def)

text \<open>Text and database forms.  A hash and a difficulty are recovered from their JSON form,
  their hexadecimal string and their database value, and byte strings from their JSON form; a
  difficulty is written as a decimal number exactly when it fits 64 bits.\<close>

lemma text_forms_round_trip:
  assumes "uint128_ok U" and "hex_ok X"
  shows "Hash_UnmarshalJSON X h0 (Hash_MarshalJSON X h) = Inr h \<and>
    HashFromString (Hash_String h) = Inr h \<and>
    Hash_Scan ZeroHash (Hash_Value h) = Inr h \<and>
    Bytes_UnmarshalJSON X (Bytes_MarshalJSON X b) = Inr b \<and>
    Difficulty_UnmarshalJSON U X (Difficulty_MarshalJSON U X d) = Inr d \<and>
    DifficultyFromString U (Difficulty_String U d) = Inr d \<and>
    Difficulty_Scan U d0 (Some (Difficulty_Bytes U d)) = Inr d"
proof -
  have X: "length (hx_Encode X bs) = 2 * length bs" "hx_Decode X (hx_Encode X bs) = Inr bs" for bs
    using assms(2) by (auto simp: hex_ok_def)
  have U: "u_PutBytesBE U d = be_bytes d" "u_FromBytesBE U (be_bytes d) = d"
    using assms(1) by (simp_all add: uint128_okD uint128_FromBytesBE)
  have hash: "le_word (le_bytes 32 h) = h" by (simp add: le_word_le_bytes)
  have "Difficulty_UnmarshalJSON U X (Difficulty_MarshalJSON U X d) = Inr d"
  proof (cases "Hi d = 0")
    case True
    then show ?thesis using hd_FormatUint [of "Lo d"]
      by (cases d) (simp add: Difficulty_MarshalJSON_def Difficulty_UnmarshalJSON_def ParseUint64_FormatUint)
  next
    case False
    then show ?thesis
      by (simp add: Difficulty_MarshalJSON_def Difficulty_UnmarshalJSON_def U X DifficultyFromBytes_def)
  qed
  then show ?thesis
    using hexEncode_no_0x [of "be_bytes d"]
    by (simp add: Hash_UnmarshalJSON_def Hash_MarshalJSON_def HashFromString_def Hash_String_def
        Hash_Scan_def Hash_Value_def Bytes_UnmarshalJSON_def Bytes_MarshalJSON_def X hash
        DifficultyFromString_def Difficulty_String_def Difficulty_Bytes_def Difficulty_Scan_def U
        DifficultyFromBytes_def ZeroHash_def)
qed

text \<open>A hexadecimal difficulty with a \<^verbatim>\<open>0x\<close> prefix and more than 16 bytes makes
  \<^verbatim>\<open>DifficultyFromString\<close> panic instead of returning an error.\<close>

lemma DifficultyFromString_panics:
  assumes "16 < length bs"
  shows "DifficultyFromString U ([48, 120] @ hexEncode bs) = Inl (Panic ''slice bounds out of range'')"
  using assms by (simp add: DifficultyFromString_def)

end
