(* ===== verification/Transaction.thy ===== *)
theory Transaction
  imports Types
begin

text \<open>
  monero/transaction: outputs (output.go), extra tags (extra.go) and the coinbase transaction
  (coinbase.go).

  An \<^verbatim>\<open>AppendBinary\<close> method takes the buffer it appends to; a \<^verbatim>\<open>FromReader\<close> method takes the
  receiver's value before, of which the source keeps some fields, and gives the value after.
  \<^verbatim>\<open>PooledKeccak256\<close> rests on a third-party hash function, the parameter \<open>K\<close>.
\<close>

definition TxInGen :: byte where "TxInGen = 0xff"
definition TxOutToKey :: byte where "TxOutToKey = 2"
definition TxOutToTaggedKey :: byte where "TxOutToTaggedKey = 3"

lemmas tx_consts = TxInGen_def TxOutToKey_def TxOutToTaggedKey_def

section \<open>Outputs\<close>

record Output =
  o_Index :: u64
  o_Reward :: u64
  o_EphemeralPublicKey :: hash
  o_Type :: byte
  o_ViewTag :: byte

definition readOutput :: "nat \<Rightarrow> Output rd" where
  "readOutput index =
    andThen ReadUvarint (\<lambda>reward.
    andThen ReadByte (\<lambda>ty.
      if ty = TxOutToTaggedKey \<or> ty = TxOutToKey then
        andThen (ReadLE 32) (\<lambda>key.
          if ty = TxOutToTaggedKey then
            andThen ReadByte (\<lambda>tag. giveR
              \<lparr>o_Index = of_nat index, o_Reward = reward, o_EphemeralPublicKey = key, o_Type = ty, o_ViewTag = tag\<rparr>)
          else giveR
              \<lparr>o_Index = of_nat index, o_Reward = reward, o_EphemeralPublicKey = key, o_Type = ty, o_ViewTag = 0\<rparr>)
      else failR (Err ''unknown TXOUT key'')))"

text \<open>The loop with the next index and the outputs so far.\<close>

fun readOutputs :: "nat \<Rightarrow> nat \<Rightarrow> Output list \<Rightarrow> Output list rd" where
  "readOutputs 0 index s = giveR s"
| "readOutputs (Suc n) index s =
    andThen (readOutput index) (\<lambda>o'. readOutputs n (Suc index) (s @ [o']))"

definition Outputs_FromReader :: "Output list \<Rightarrow> Output list rd" where
  "Outputs_FromReader s =
    andThen ReadUvarint (\<lambda>outputCount.
      if outputCount > 0 then
        readOutputs (int_count outputCount) 0 (if outputCount < 8192 then [] else s)
      else giveR s)"

fun Outputs_BufferLength :: "Output list \<Rightarrow> nat" where
  "Outputs_BufferLength s =
    UVarInt64Size (of_nat (length s)) +
    sum_list (map (\<lambda>o'. UVarInt64Size (o_Reward o') + 1 + 32 +
      (if o_Type o' = TxOutToTaggedKey then 1 else 0)) s)"

definition appendOutput :: "Output \<Rightarrow> byte list \<Rightarrow> byte list result" where
  "appendOutput o' data =
    (let data = data @ AppendUvarint (o_Reward o') @ [o_Type o'] in
     if o_Type o' = TxOutToTaggedKey \<or> o_Type o' = TxOutToKey then
       (let data = data @ le_bytes 32 (o_EphemeralPublicKey o') in
        Inr (if o_Type o' = TxOutToTaggedKey then data @ [o_ViewTag o'] else data))
     else Inl (Err ''unknown output type''))"

fun appendOutputs :: "Output list \<Rightarrow> byte list \<Rightarrow> byte list result" where
  "appendOutputs [] data = Inr data"
| "appendOutputs (o' # os) data = bindR (appendOutput o' data) (appendOutputs os)"

definition Outputs_AppendBinary :: "Output list \<Rightarrow> byte list \<Rightarrow> byte list result" where
  "Outputs_AppendBinary s preAllocatedBuf =
    appendOutputs s (preAllocatedBuf @ AppendUvarint (of_nat (length s)))"

text \<open>Outputs the format can represent: a known type, no view tag on untagged keys, the index
  equal to the position.\<close>

definition output_ok :: "nat \<Rightarrow> Output \<Rightarrow> bool" where
  "output_ok i o' \<longleftrightarrow> o_Index o' = of_nat i \<and>
    (o_Type o' = TxOutToTaggedKey \<or> o_Type o' = TxOutToKey \<and> o_ViewTag o' = 0)"

definition outputs_ok :: "Output list \<Rightarrow> bool" where
  "outputs_ok s \<longleftrightarrow> length s < 2 ^ 63 \<and> (\<forall>i < length s. output_ok i (s ! i))"

definition output_enc :: "Output \<Rightarrow> byte list" where
  "output_enc o' = AppendUvarint (o_Reward o') @ [o_Type o'] @ le_bytes 32 (o_EphemeralPublicKey o') @
     (if o_Type o' = TxOutToTaggedKey then [o_ViewTag o'] else [])"

definition outputs_enc :: "Output list \<Rightarrow> byte list" where
  "outputs_enc s = AppendUvarint (of_nat (length s)) @ concat (map output_enc s)"

lemma appendOutput_ok: "output_ok i o' \<Longrightarrow> appendOutput o' data = Inr (data @ output_enc o')"
  by (auto simp: output_ok_def appendOutput_def output_enc_def Let_def tx_consts)

lemma appendOutputs_ok:
  "\<forall>o' \<in> set os. \<exists>i. output_ok i o' \<Longrightarrow> appendOutputs os data = Inr (data @ concat (map output_enc os))"
  by (induction os arbitrary: data) (auto simp: appendOutput_ok)

lemma Outputs_AppendBinary_ok: "outputs_ok s \<Longrightarrow> Outputs_AppendBinary s buf = Inr (buf @ outputs_enc s)"
  unfolding Outputs_AppendBinary_def outputs_enc_def
  by (subst appendOutputs_ok) (fastforce simp: outputs_ok_def in_set_conv_nth)+

lemma decodes_readOutput:
  assumes "output_ok i o'"
  shows "decodes (readOutput i) (output_enc o') o'"
proof (cases "o_Type o' = TxOutToTaggedKey")
  case True
  then show ?thesis unfolding readOutput_def output_enc_def using assms
    by (intro decodes_andThen [OF decodes_uvarint] decodes_andThen [OF decodes_ReadByte])
      (auto simp: output_ok_def
        intro!: decodes_andThen [OF decodes_ReadLE] decodes_andThen_end [OF decodes_ReadByte] Output.equality)
next
  case False
  then show ?thesis unfolding readOutput_def output_enc_def using assms
    by (intro decodes_andThen [OF decodes_uvarint] decodes_andThen [OF decodes_ReadByte])
      (auto simp: output_ok_def intro!: decodes_andThen_end [OF decodes_ReadLE] Output.equality)
qed

lemma decodes_readOutputs:
  "\<forall>i < length os. output_ok (index + i) (os ! i) \<Longrightarrow>
    decodes (readOutputs (length os) index s) (concat (map output_enc os)) (s @ os)"
proof (induction os arbitrary: index s)
  case (Cons o' os)
  have "output_ok index o'" using Cons.prems by force
  moreover have "\<forall>i < length os. output_ok (Suc index + i) (os ! i)" using Cons.prems by force
  ultimately have "decodes (readOutput index) (output_enc o') o'"
    and "decodes (readOutputs (length os) (Suc index) (s @ [o'])) (concat (map output_enc os)) (s @ o' # os)"
    using Cons.IH [of "Suc index" "s @ [o']"] by (auto intro: decodes_readOutput)
  then show ?case by (simp add: decodes_andThen)
qed simp

lemma decodes_Outputs:
  assumes "outputs_ok s"
  shows "decodes (Outputs_FromReader []) (outputs_enc s) s"
  unfolding Outputs_FromReader_def outputs_enc_def
proof (rule decodes_andThen [OF decodes_uvarint])
  let ?n = "of_nat (length s) :: u64"
  have len: "length s < 2 ^ 63" using assms by (simp add: outputs_ok_def)
  then have n: "unat ?n = length s" by (simp add: unat_of_nat)
  have "decodes (readOutputs (length s) 0 []) (concat (map output_enc s)) s"
    using decodes_readOutputs [of s 0 "[]"] assms by (simp add: outputs_ok_def)
  moreover have "0 < ?n \<longleftrightarrow> s \<noteq> []" using n by (simp add: word_less_nat_alt)
  ultimately show "decodes (if 0 < ?n then readOutputs (int_count ?n) 0 (if ?n < 8192 then [] else [])
      else giveR []) (concat (map output_enc s)) s"
    using len by (auto simp: int_count_of_nat)
qed

lemma size_output: "output_ok i o' \<Longrightarrow>
    length (output_enc o') = UVarInt64Size (o_Reward o') + 1 + 32 + (if o_Type o' = TxOutToTaggedKey then 1 else 0)"
  by (simp add: output_enc_def UVarInt64Size_eq_length)

lemma Outputs_BufferLength_eq: "outputs_ok s \<Longrightarrow> Outputs_BufferLength s = length (outputs_enc s)"
  by (auto simp: outputs_enc_def length_concat UVarInt64Size_eq_length output_enc_def comp_def
      intro!: arg_cong [where f = sum_list])

interpretation outputs: sized_codec outputs_enc "Outputs_FromReader []" outputs_ok Outputs_BufferLength
  by unfold_locales (auto intro: decodes_Outputs simp: Outputs_BufferLength_eq simp del: Outputs_BufferLength.simps)

declare Outputs_BufferLength.simps [simp del]

section \<open>Extra tags\<close>

definition TxExtraTagPadding :: byte where "TxExtraTagPadding = 0x00"
definition TxExtraTagPubKey :: byte where "TxExtraTagPubKey = 0x01"
definition TxExtraTagNonce :: byte where "TxExtraTagNonce = 0x02"
definition TxExtraTagMergeMining :: byte where "TxExtraTagMergeMining = 0x03"
definition TxExtraTagAdditionalPubKeys :: byte where "TxExtraTagAdditionalPubKeys = 0x04"
definition TxExtraTagMysteriousMinergate :: byte where "TxExtraTagMysteriousMinergate = 0xde"

lemmas extra_consts = TxExtraTagPadding_def TxExtraTagPubKey_def TxExtraTagNonce_def
  TxExtraTagMergeMining_def TxExtraTagAdditionalPubKeys_def TxExtraTagMysteriousMinergate_def

record ExtraTag =
  t_VarInt :: u64
  t_Tag :: byte
  t_HasVarInt :: bool
  t_Data :: "byte list"

definition zeroTag :: ExtraTag where
  "zeroTag = \<lparr>t_VarInt = 0, t_Tag = 0, t_HasVarInt = False, t_Data = []\<rparr>"

definition ExtraTag_BufferLength :: "ExtraTag \<Rightarrow> nat" where
  "ExtraTag_BufferLength t =
    (if t_HasVarInt t then 1 + UVarInt64Size (t_VarInt t) + length (t_Data t)
     else 1 + length (t_Data t))"

definition ExtraTag_AppendBinary :: "ExtraTag \<Rightarrow> byte list \<Rightarrow> byte list" where
  "ExtraTag_AppendBinary t preAllocatedBuf =
    (let buf = preAllocatedBuf @ [t_Tag t];
         buf = (if t_HasVarInt t then buf @ AppendUvarint (t_VarInt t) else buf)
     in buf @ t_Data t)"

definition ExtraTag_SideChainHashingBlob :: "ExtraTag \<Rightarrow> byte list \<Rightarrow> bool \<Rightarrow> byte list" where
  "ExtraTag_SideChainHashingBlob t preAllocatedBuf zeroTemplateId =
    (let buf = preAllocatedBuf @ [t_Tag t];
         buf = (if t_HasVarInt t then buf @ AppendUvarint (t_VarInt t) else buf)
     in if zeroTemplateId \<and> t_Tag t = TxExtraTagMergeMining then
          buf @ replicate (length (t_Data t)) 0
        else if t_Tag t = TxExtraTagNonce then
          (if length (t_Data t) > 4 then buf @ replicate 4 0 @ drop 4 (t_Data t)
           else buf @ replicate (length (t_Data t)) 0)
        else buf @ t_Data t)"

text \<open>The padding loop: \<open>sz\<close> starts at 1 and counts the zero bytes up to the end of the input.\<close>

function paddingLoop :: "nat \<Rightarrow> nat rd" where
  "paddingLoop sz r =
    (if sz \<le> 255 then
       (case ReadByte r of
          (Inl e, r') \<Rightarrow> (if e = EOF then Inr sz else Inl e, r')
        | (Inr zero, r') \<Rightarrow>
            if zero \<noteq> 0 then (Inl (Err ''padding is not zero''), r') else paddingLoop (sz + 1) r')
     else (Inr sz, r))"
  by pat_completeness auto
termination
  by (relation "measure (\<lambda>(sz, r). 256 - sz)") auto

declare paddingLoop.simps [simp del]

text \<open>A tag whose varint \<open>n\<close> is followed by \<open>len n\<close> bytes.\<close>

definition readVarData :: "ExtraTag \<Rightarrow> (u64 \<Rightarrow> bool) \<Rightarrow> string \<Rightarrow> (u64 \<Rightarrow> nat) \<Rightarrow> ExtraTag rd" where
  "readVarData t tooBig msg len =
    andThen ReadUvarint (\<lambda>n.
      if tooBig n then failR (Err msg)
      else andThen (ReadFull (len n)) (\<lambda>data.
        giveR (t\<lparr>t_HasVarInt := True, t_VarInt := n, t_Data := data\<rparr>)))"

definition ExtraTag_FromReader :: "ExtraTag \<Rightarrow> ExtraTag rd" where
  "ExtraTag_FromReader t =
    andThen (ReadLE 1) (\<lambda>tag.
      let t = t\<lparr>t_Tag := tag\<rparr> in
      if tag = TxExtraTagPadding then
        andThen (paddingLoop 1) (\<lambda>sz.
          if sz > 255 then failR (Err ''padding is too big'')
          else if sz < 2 then failR (Panic ''makeslice: len out of range'')
          else giveR (t\<lparr>t_Data := replicate (sz - 2) 0\<rparr>))
      else if tag = TxExtraTagPubKey then
        andThen (ReadFull 32) (\<lambda>data. giveR (t\<lparr>t_Data := data\<rparr>))
      else if tag = TxExtraTagNonce then
        readVarData t (\<lambda>n. n > 255) ''nonce is too big'' unat
      else if tag = TxExtraTagMergeMining then
        readVarData t (\<lambda>n. False) [] (\<lambda>n. 32)
      else if tag = TxExtraTagAdditionalPubKeys then
        readVarData t (\<lambda>n. n > 4096) ''too many public keys'' (\<lambda>n. unat (32 * n))
      else if tag = TxExtraTagMysteriousMinergate then
        readVarData t (\<lambda>n. n > 255) ''nonce is too big'' unat
      else failR (Err ''unknown extra tag''))"

lemma shrinks_paddingLoop [intro, simp]: "shrinks (paddingLoop n)"
proof -
  have "length (avail (snd (paddingLoop n r))) \<le> length (avail r)" for n r
  proof (induction n r rule: paddingLoop.induct)
    case (1 n r)
    obtain v r' where v: "ReadByte r = (v, r')" by (cases "ReadByte r")
    then have "length (avail r') \<le> length (avail r)"
      using shrinks_ReadByte by (metis shrinks_def snd_conv)
    with 1 v show ?case
      by (cases v) (auto simp: paddingLoop.simps [of n r] intro: order_trans)
  qed
  then show ?thesis by (simp add: shrinks_def)
qed

lemma shrinks_readVarData [intro, simp]: "shrinks (readVarData t tooBig msg len)"
  unfolding readVarData_def by (intro shrinks_andThen shrinks_if) simp_all

lemma ExtraTag_FromReader_less:
  assumes "ExtraTag_FromReader t r = (Inr t', r')"
  shows "length (avail r') < length (avail r)"
  using assms unfolding ExtraTag_FromReader_def
  unfolding Let_def by (rule andThen_ReadLE_1_less) (intro shrinks_andThen shrinks_if; simp)

text \<open>\<^verbatim>\<open>GetTag\<close>: the first tag with that number.\<close>

definition GetTag :: "ExtraTag list \<Rightarrow> byte \<Rightarrow> ExtraTag option" where
  "GetTag t tag = find (\<lambda>x. t_Tag x = tag) t"

text \<open>\<^verbatim>\<open>ExtraTags.FromReader\<close>: one variable \<^verbatim>\<open>tag\<close> is reused for all tags, and the end of input, also
  inside a tag whose first read finds none, ends the list.\<close>

function ExtraTags_loop :: "ExtraTag list \<Rightarrow> ExtraTag \<Rightarrow> ExtraTag list rd" where
  "ExtraTags_loop ts tag r =
    (case ExtraTag_FromReader tag r of
       (Inl e, r') \<Rightarrow> (if e = EOF then Inr ts else Inl e, r')
     | (Inr tag', r') \<Rightarrow>
         if GetTag ts (t_Tag tag') \<noteq> None then (Inl (Err ''tag already exists''), r')
         else ExtraTags_loop (ts @ [tag']) tag' r')"
  by pat_completeness auto
termination
  by (relation "measure (\<lambda>(ts, tag, r). length (avail r))") (auto dest: ExtraTag_FromReader_less [OF sym])

declare ExtraTags_loop.simps [simp del]

definition ExtraTags_FromReader :: "ExtraTag list \<Rightarrow> ExtraTag list rd" where
  "ExtraTags_FromReader ts = ExtraTags_loop ts zeroTag"

fun ExtraTags_BufferLength :: "ExtraTag list \<Rightarrow> nat" where
  "ExtraTags_BufferLength [] = 0"
| "ExtraTags_BufferLength (t # ts) = ExtraTag_BufferLength t + ExtraTags_BufferLength ts"

definition ExtraTags_AppendBinary :: "ExtraTag list \<Rightarrow> byte list \<Rightarrow> byte list" where
  "ExtraTags_AppendBinary ts buf = fold ExtraTag_AppendBinary ts buf"

definition ExtraTags_SideChainHashingBlob :: "ExtraTag list \<Rightarrow> byte list \<Rightarrow> bool \<Rightarrow> byte list" where
  "ExtraTags_SideChainHashingBlob ts buf z = fold (\<lambda>t buf. ExtraTag_SideChainHashingBlob t buf z) ts buf"

text \<open>Tags that survive a round trip, given the tag \<open>p\<close> read before: a public key only while no varint
  tag has been read (the reused variable keeps \<^verbatim>\<open>HasVarInt\<close>), no padding.\<close>

definition tag_ok :: "ExtraTag \<Rightarrow> ExtraTag \<Rightarrow> bool" where
  "tag_ok p t \<longleftrightarrow>
    t_Tag t = TxExtraTagPubKey \<and> \<not> t_HasVarInt p \<and> \<not> t_HasVarInt t \<and> t_VarInt t = t_VarInt p \<and>
      length (t_Data t) = 32 \<or>
    t_HasVarInt t \<and>
      ((t_Tag t = TxExtraTagNonce \<or> t_Tag t = TxExtraTagMysteriousMinergate) \<and>
         t_VarInt t \<le> 255 \<and> length (t_Data t) = unat (t_VarInt t) \<or>
       t_Tag t = TxExtraTagMergeMining \<and> length (t_Data t) = 32 \<or>
       t_Tag t = TxExtraTagAdditionalPubKeys \<and> t_VarInt t \<le> 4096 \<and>
         length (t_Data t) = unat (32 * t_VarInt t))"

fun tags_ok_from :: "ExtraTag \<Rightarrow> ExtraTag list \<Rightarrow> bool" where
  "tags_ok_from p [] = True"
| "tags_ok_from p (t # ts) = (tag_ok p t \<and> tags_ok_from t ts)"

definition tags_ok :: "ExtraTag list \<Rightarrow> bool" where
  "tags_ok ts \<longleftrightarrow> tags_ok_from zeroTag ts \<and> distinct (map t_Tag ts)"

definition tag_enc :: "ExtraTag \<Rightarrow> byte list" where
  "tag_enc t = [t_Tag t] @ (if t_HasVarInt t then AppendUvarint (t_VarInt t) else []) @ t_Data t"

definition tags_enc :: "ExtraTag list \<Rightarrow> byte list" where
  "tags_enc ts = concat (map tag_enc ts)"

lemma ExtraTags_AppendBinary_eq: "ExtraTags_AppendBinary ts buf = buf @ tags_enc ts"
  by (induction ts arbitrary: buf)
    (auto simp: ExtraTags_AppendBinary_def tags_enc_def ExtraTag_AppendBinary_def tag_enc_def Let_def)

lemma ExtraTags_BufferLength_eq [size_simps]: "ExtraTags_BufferLength ts = length (tags_enc ts)"
  by (induction ts)
    (auto simp: tags_enc_def ExtraTag_BufferLength_def tag_enc_def UVarInt64Size_eq_length)

lemma decodes_ReadLE_1 [intro]: "decodes (ReadLE 1) [b] (b :: byte)"
proof -
  have "le_bytes 1 b = [b]" by (simp add: le_bytes_def)
  then show ?thesis using decodes_ReadLE [of 1 b] by simp
qed

lemma decodes_readVarData:
  assumes "k = t_Tag t" "\<not> tooBig (t_VarInt t)" "length (t_Data t) = len (t_VarInt t)" "t_HasVarInt t"
  shows "decodes (readVarData (p\<lparr>t_Tag := k\<rparr>) tooBig msg len)
     (AppendUvarint (t_VarInt t) @ t_Data t) t"
  unfolding readVarData_def using assms
  by (intro decodes_andThen [OF decodes_uvarint])
    (auto intro!: decodes_andThen_end [OF decodes_ReadFull] ExtraTag.equality)

lemma decodes_ExtraTag:
  assumes "tag_ok p t"
  shows "decodes (ExtraTag_FromReader p) (tag_enc t) t"
  unfolding ExtraTag_FromReader_def tag_enc_def
proof (rule decodes_andThen [OF decodes_ReadLE_1])
  show "decodes (let ta = p\<lparr>t_Tag := t_Tag t\<rparr> in
      if t_Tag t = TxExtraTagPadding then
        andThen (paddingLoop 1) (\<lambda>sz.
          if sz > 255 then failR (Err ''padding is too big'')
          else if sz < 2 then failR (Panic ''makeslice: len out of range'')
          else giveR (ta\<lparr>t_Data := replicate (sz - 2) 0\<rparr>))
      else if t_Tag t = TxExtraTagPubKey then
        andThen (ReadFull 32) (\<lambda>data. giveR (ta\<lparr>t_Data := data\<rparr>))
      else if t_Tag t = TxExtraTagNonce then
        readVarData ta (\<lambda>n. n > 255) ''nonce is too big'' unat
      else if t_Tag t = TxExtraTagMergeMining then
        readVarData ta (\<lambda>n. False) [] (\<lambda>n. 32)
      else if t_Tag t = TxExtraTagAdditionalPubKeys then
        readVarData ta (\<lambda>n. n > 4096) ''too many public keys'' (\<lambda>n. unat (32 * n))
      else if t_Tag t = TxExtraTagMysteriousMinergate then
        readVarData ta (\<lambda>n. n > 255) ''nonce is too big'' unat
      else failR (Err ''unknown extra tag''))
    ((if t_HasVarInt t then AppendUvarint (t_VarInt t) else []) @ t_Data t) t"
    using assms unfolding tag_ok_def extra_consts Let_def
    by (elim disjE conjE)
      (auto simp: not_less intro!: decodes_readVarData decodes_andThen_end [OF decodes_ReadFull] ExtraTag.equality)
qed

lemma GetTag_None: "GetTag ts tag = None \<longleftrightarrow> tag \<notin> t_Tag ` set ts"
  by (auto simp: GetTag_def find_None_iff)

lemma ExtraTag_FromReader_empty: "avail r = [] \<Longrightarrow> ExtraTag_FromReader p r = (Inl EOF, r)"
  by (simp add: ExtraTag_FromReader_def ReadLE_def andThen_def ReadFull_short)

lemma ExtraTags_loop_decodes:
  "tags_ok_from p ts \<Longrightarrow> distinct (map t_Tag (done' @ ts)) \<Longrightarrow> avail r = tags_enc ts \<Longrightarrow>
    ExtraTags_loop done' p r = (Inr (done' @ ts), advance (length (tags_enc ts)) r)"
proof (induction ts arbitrary: p done' r)
  case Nil
  then show ?case
    by (simp add: tags_enc_def ExtraTags_loop.simps [of done' p r] ExtraTag_FromReader_empty)
next
  case (Cons t ts)
  have "ExtraTag_FromReader p r = (Inr t, advance (length (tag_enc t)) r)"
    using decodesD [OF decodes_ExtraTag [of p t], of r "tags_enc ts"] Cons.prems
    by (simp add: tags_enc_def)
  moreover have "GetTag done' (t_Tag t) = None"
    using Cons.prems(2) by (auto simp: GetTag_None)
  ultimately show ?case
    using Cons.IH [of t "done' @ [t]" "advance (length (tag_enc t)) r"] Cons.prems
    by (simp add: ExtraTags_loop.simps [of done' p r] tags_enc_def)
qed

lemma ExtraTags_decodes_all:
  "tags_ok ts \<Longrightarrow> avail r = tags_enc ts \<Longrightarrow>
    ExtraTags_FromReader [] r = (Inr ts, advance (length (tags_enc ts)) r)"
  using ExtraTags_loop_decodes [of zeroTag ts "[]" r] by (simp add: tags_ok_def ExtraTags_FromReader_def)

text \<open>Extra fields.  Tags in a readable order survive serialisation: a limited reader over the
  bytes \<^verbatim>\<open>AppendBinary\<close> wrote gives the same tags back and is used up, and \<^verbatim>\<open>BufferLength\<close> is the
  number of those bytes.\<close>

lemma ExtraTags_round_trip:
  assumes "tags_ok ts"
  shows "ExtraTags_FromReader [] (LimitByteReader (BytesReader (ExtraTags_AppendBinary ts [] @ rest))
           (int (ExtraTags_BufferLength ts))) =
         (Inr ts, LimitByteReader (BytesReader rest) 0)"
  using ExtraTags_decodes_all [OF assms, of "LimitByteReader (BytesReader (tags_enc ts @ rest))
    (int (length (tags_enc ts)))"]
  by (simp add: ExtraTags_AppendBinary_eq ExtraTags_BufferLength_eq)

definition example_tags :: "ExtraTag list" where
  "example_tags =
    [\<lparr>t_VarInt = 0, t_Tag = 1, t_HasVarInt = False, t_Data = replicate 32 7\<rparr>,
     \<lparr>t_VarInt = 4, t_Tag = 2, t_HasVarInt = True, t_Data = [1, 2, 3, 4]\<rparr>,
     \<lparr>t_VarInt = 32, t_Tag = 3, t_HasVarInt = True, t_Data = replicate 32 9\<rparr>]"

lemma example_tags_ok: "tags_ok example_tags"
  by (simp add: example_tags_def tags_ok_def tag_ok_def extra_consts zeroTag_def)

lemma paddingLoop_zeros:
  "avail r = replicate n 0 \<Longrightarrow> sz + n \<le> 255 \<Longrightarrow> fst (paddingLoop sz r) = Inr (sz + n)"
proof (induction n arbitrary: sz r)
  case 0
  obtain v r' where v: "ReadByte r = (v, r')" by (cases "ReadByte r")
  then have "v = Inl EOF" using 0 ReadByte_empty [of r] by simp
  with v 0 show ?case by (simp add: paddingLoop.simps [of sz r])
next
  case (Suc n)
  then have "ReadByte r = (Inr 0, advance 1 r)" by (simp add: ReadByte_ok)
  with Suc.IH [of "advance 1 r" "sz + 1"] Suc.prems show ?case
    by (simp add: paddingLoop.simps [of sz r])
qed

text \<open>Padding in the extra field.  A padding tag that is the last byte of the field makes the
  decoder panic, and a padding tag followed by \<open>n\<close> zero bytes is decoded with \<open>n - 1\<close> bytes of
  data, so that serialising it again gives one byte less than was read.\<close>

lemma padding_tag_loses_byte:
  assumes "1 \<le> n" and "n \<le> 254"
  shows "fst (ExtraTags_FromReader [] (BytesReader [TxExtraTagPadding])) =
           Inl (Panic ''makeslice: len out of range'') \<and>
    (\<exists>t. fst (ExtraTag_FromReader zeroTag (BytesReader (TxExtraTagPadding # replicate n 0))) = Inr t \<and>
         ExtraTag_AppendBinary t [] = TxExtraTagPadding # replicate (n - 1) 0)"
proof -
  have tag: "ReadLE 1 (BytesReader (TxExtraTagPadding # bs)) = (Inr TxExtraTagPadding, BytesReader bs)" for bs
    using decodesD [OF decodes_ReadLE_1, of "BytesReader (TxExtraTagPadding # bs)" TxExtraTagPadding bs] by simp
  have pad: "\<exists>r'. paddingLoop 1 (BytesReader (replicate k 0)) = (Inr (1 + k), r')" if "k \<le> 254" for k
    using paddingLoop_zeros [of "BytesReader (replicate k 0)" k 1] that
    by (cases "paddingLoop 1 (BytesReader (replicate k 0))") auto
  from pad [of 0] have "fst (ExtraTag_FromReader zeroTag (BytesReader [TxExtraTagPadding])) =
      Inl (Panic ''makeslice: len out of range'')"
    using tag [of "[]"] by (auto simp: ExtraTag_FromReader_def andThen_def failR_def Let_def)
  then have "fst (ExtraTags_FromReader [] (BytesReader [TxExtraTagPadding])) =
      Inl (Panic ''makeslice: len out of range'')"
    by (auto simp: ExtraTags_FromReader_def ExtraTags_loop.simps split: prod.splits)
  moreover from pad [of n] assms have "fst (ExtraTag_FromReader zeroTag (BytesReader (TxExtraTagPadding # replicate n 0))) =
      Inr (zeroTag\<lparr>t_Tag := TxExtraTagPadding, t_Data := replicate (n - 1) 0\<rparr>)"
    using tag [of "replicate n 0"]
    by (auto simp: ExtraTag_FromReader_def andThen_def giveR_def Let_def)
  ultimately show ?thesis by (simp add: ExtraTag_AppendBinary_def zeroTag_def)
qed

section \<open>The coinbase transaction\<close>

record CoinbaseTransaction =
  c_Version :: byte
  c_InputCount :: byte
  c_InputType :: byte
  c_UnlockTime :: u64
  c_GenHeight :: u64
  c_Outputs :: "Output list"
  c_OutputsBlobSize :: u64
  c_TotalReward :: u64
  c_Extra :: "ExtraTag list"
  c_ExtraBaseRCT :: byte

definition MinerRewardUnlockTime :: u64 where "MinerRewardUnlockTime = 60"

definition zeroCoinbase :: CoinbaseTransaction where
  "zeroCoinbase = \<lparr>c_Version = 0, c_InputCount = 0, c_InputType = 0, c_UnlockTime = 0, c_GenHeight = 0,
     c_Outputs = [], c_OutputsBlobSize = 0, c_TotalReward = 0, c_Extra = [], c_ExtraBaseRCT = 0\<rparr>"

text \<open>The loop that fills \<^verbatim>\<open>OutputsBlobSize\<close> and \<^verbatim>\<open>TotalReward\<close> from decoded outputs.\<close>

fun outputTotals :: "Output list \<Rightarrow> u64 \<Rightarrow> u64 \<Rightarrow> (u64 \<times> u64) result" where
  "outputTotals [] blob tot = Inr (blob, tot)"
| "outputTotals (o' # os) blob tot =
    (if o_Type o' = TxOutToTaggedKey then outputTotals os (blob + (1 + 32 + 1)) (tot + o_Reward o')
     else if o_Type o' = TxOutToKey then outputTotals os (blob + (1 + 32)) (tot + o_Reward o')
     else Inl (Err ''unknown TXOUT key''))"

definition readOutputsField :: "Output list \<Rightarrow> (Output list \<times> u64 \<times> u64) rd" where
  "readOutputsField os0 =
    andThen (Outputs_FromReader os0) (\<lambda>os.
      if length os \<noteq> 0 then
        (case outputTotals os 0 0 of
           Inl e \<Rightarrow> failR e
         | Inr (blob, tot) \<Rightarrow> giveR (os, blob, tot))
      else
        andThen ReadUvarint (\<lambda>tot.
        andThen ReadUvarint (\<lambda>blob.
          giveR (os, blob, tot))))"

fun underlying :: "reader \<Rightarrow> reader" where
  "underlying (LimitByteReader R N) = R"
| "underlying (BytesReader bs) = BytesReader bs"

text \<open>The extra field is read through a limited reader over the same input.\<close>

definition readExtraField :: "ExtraTag list \<Rightarrow> u64 \<Rightarrow> ExtraTag list rd" where
  "readExtraField ts0 txExtraSize r =
    (case ExtraTags_FromReader ts0 (LimitByteReader r (sint txExtraSize)) of
       (Inl e, l) \<Rightarrow> (Inl e, underlying l)
     | (Inr ts, l) \<Rightarrow>
         (if Left l > 0 then Inl (Err ''bytes leftover in extra data'') else Inr ts, underlying l))"

definition Coinbase_FromReader :: "CoinbaseTransaction \<Rightarrow> CoinbaseTransaction rd" where
  "Coinbase_FromReader c =
    andThen ReadByte (\<lambda>version.
    if version \<noteq> 2 then failR (Err ''version not supported'') else
    andThen ReadUvarint (\<lambda>unlockTime.
    andThen ReadByte (\<lambda>inputCount.
    if inputCount \<noteq> 1 then failR (Err ''invalid input count'') else
    andThen ReadByte (\<lambda>inputType.
    if inputType \<noteq> TxInGen then failR (Err ''invalid coinbase input type'') else
    andThen ReadUvarint (\<lambda>genHeight.
    if unlockTime \<noteq> genHeight + MinerRewardUnlockTime then failR (Err ''invalid unlock time'') else
    andThen (readOutputsField (c_Outputs c)) (\<lambda>(os, blob, tot).
    andThen ReadUvarint (\<lambda>txExtraSize.
    if txExtraSize > 65536 then failR (Err ''tx extra too large'') else
    andThen (readExtraField (c_Extra c) txExtraSize) (\<lambda>extra.
    andThen (ReadLE 1) (\<lambda>rct.
    if rct \<noteq> 0 then failR (Err ''invalid extra base RCT'') else
    giveR \<lparr>c_Version = version, c_InputCount = inputCount, c_InputType = inputType,
      c_UnlockTime = unlockTime, c_GenHeight = genHeight, c_Outputs = os,
      c_OutputsBlobSize = blob, c_TotalReward = tot, c_Extra = extra, c_ExtraBaseRCT = rct\<rparr>)))))))))"

definition Coinbase_BufferLength :: "CoinbaseTransaction \<Rightarrow> nat" where
  "Coinbase_BufferLength c =
    1 + UVarInt64Size (c_UnlockTime c) + 1 + 1 + UVarInt64Size (c_GenHeight c) +
    Outputs_BufferLength (c_Outputs c) +
    UVarInt64Size (of_nat (ExtraTags_BufferLength (c_Extra c))) + ExtraTags_BufferLength (c_Extra c) + 1"

text \<open>\<^verbatim>\<open>buf, _ = c.Outputs.AppendBinary(buf)\<close>: the error is dropped and the buffer becomes nil.\<close>

definition orNil :: "byte list result \<Rightarrow> byte list" where
  "orNil x = (case x of Inl _ \<Rightarrow> [] | Inr b \<Rightarrow> b)"

definition Coinbase_prefix :: "CoinbaseTransaction \<Rightarrow> byte list" where
  "Coinbase_prefix c = [c_Version c] @ AppendUvarint (c_UnlockTime c) @ [c_InputCount c] @ [c_InputType c] @
     AppendUvarint (c_GenHeight c)"

definition Coinbase_AppendBinaryFlags :: "CoinbaseTransaction \<Rightarrow> byte list \<Rightarrow> bool \<Rightarrow> byte list" where
  "Coinbase_AppendBinaryFlags c preAllocatedBuf pruned =
    (let buf = preAllocatedBuf @ Coinbase_prefix c;
         buf = (if pruned then
                  buf @ AppendUvarint 0 @ AppendUvarint (c_TotalReward c) @
                    AppendUvarint (of_nat (length (orNil (Outputs_AppendBinary (c_Outputs c) []))))
                else orNil (Outputs_AppendBinary (c_Outputs c) buf));
         buf = buf @ AppendUvarint (of_nat (ExtraTags_BufferLength (c_Extra c)));
         buf = ExtraTags_AppendBinary (c_Extra c) buf
     in buf @ [c_ExtraBaseRCT c])"

definition Coinbase_SideChainHashingBlob :: "CoinbaseTransaction \<Rightarrow> byte list \<Rightarrow> bool \<Rightarrow> byte list" where
  "Coinbase_SideChainHashingBlob c preAllocatedBuf zeroTemplateId =
    (let buf = preAllocatedBuf @ Coinbase_prefix c;
         buf = orNil (Outputs_AppendBinary (c_Outputs c) buf);
         buf = buf @ AppendUvarint (of_nat (ExtraTags_BufferLength (c_Extra c)));
         buf = ExtraTags_SideChainHashingBlob (c_Extra c) buf zeroTemplateId
     in buf @ [c_ExtraBaseRCT c])"

text \<open>The transaction id: three hashes, hashed.\<close>

definition CalculateId :: "(byte list \<Rightarrow> hash) \<Rightarrow> CoinbaseTransaction \<Rightarrow> hash" where
  "CalculateId K c =
    (let txBytes = Coinbase_AppendBinaryFlags c [] False in
     K (le_bytes 32 (K (take (length txBytes - 1) txBytes)) @
        le_bytes 32 (K [c_ExtraBaseRCT c]) @ le_bytes 32 ZeroHash))"

text \<open>Coinbase transactions as the decoder produces them.\<close>

definition coinbase_base_ok :: "CoinbaseTransaction \<Rightarrow> bool" where
  "coinbase_base_ok c \<longleftrightarrow> c_Version c = 2 \<and> c_InputCount c = 1 \<and> c_InputType c = TxInGen \<and>
     c_UnlockTime c = c_GenHeight c + MinerRewardUnlockTime \<and> c_ExtraBaseRCT c = 0 \<and>
     tags_ok (c_Extra c) \<and> length (tags_enc (c_Extra c)) \<le> 65536 \<and> outputs_ok (c_Outputs c)"

definition coinbase_ok :: "CoinbaseTransaction \<Rightarrow> bool" where
  "coinbase_ok c \<longleftrightarrow> coinbase_base_ok c \<and> c_Outputs c \<noteq> [] \<and>
     outputTotals (c_Outputs c) 0 0 = Inr (c_OutputsBlobSize c, c_TotalReward c)"

definition coinbase_enc :: "bool \<Rightarrow> CoinbaseTransaction \<Rightarrow> byte list" where
  "coinbase_enc pruned c = Coinbase_prefix c @
     (if pruned then AppendUvarint 0 @ AppendUvarint (c_TotalReward c) @
        AppendUvarint (of_nat (length (outputs_enc (c_Outputs c))))
      else outputs_enc (c_Outputs c)) @
     AppendUvarint (of_nat (length (tags_enc (c_Extra c)))) @ tags_enc (c_Extra c) @ [c_ExtraBaseRCT c]"

text \<open>What a reader of the pruned form gets: no outputs, and the size of their serialisation.\<close>

definition pruned_coinbase :: "CoinbaseTransaction \<Rightarrow> CoinbaseTransaction" where
  "pruned_coinbase c = c\<lparr>c_Outputs := [], c_OutputsBlobSize := of_nat (length (outputs_enc (c_Outputs c)))\<rparr>"

lemma Coinbase_AppendBinaryFlags_eq:
  "outputs_ok (c_Outputs c) \<Longrightarrow> Coinbase_AppendBinaryFlags c buf pruned = buf @ coinbase_enc pruned c"
  by (simp add: Coinbase_AppendBinaryFlags_def coinbase_enc_def Let_def Outputs_AppendBinary_ok orNil_def
      ExtraTags_AppendBinary_eq ExtraTags_BufferLength_eq)

lemma Coinbase_BufferLength_eq:
  "outputs_ok (c_Outputs c) \<Longrightarrow> Coinbase_BufferLength c = length (coinbase_enc False c)"
  by (simp add: Coinbase_BufferLength_def coinbase_enc_def Coinbase_prefix_def UVarInt64Size_eq_length
      Outputs_BufferLength_eq ExtraTags_BufferLength_eq)

lemma decodes_readExtraField:
  assumes "tags_ok ts" "length (tags_enc ts) \<le> 65536"
  shows "decodes (readExtraField [] (of_nat (length (tags_enc ts)))) (tags_enc ts) ts"
  unfolding decodes_def
proof (intro allI impI)
  fix r rest assume r: "avail r = tags_enc ts @ rest"
  let ?n = "length (tags_enc ts)"
  let ?l = "LimitByteReader r (int ?n)"
  have "sint (of_nat ?n :: u64) = int ?n"
    using assms(2) by (subst sint_small) (simp_all add: unat_of_nat)
  moreover have "ExtraTags_FromReader [] ?l = (Inr ts, LimitByteReader (advance ?n r) 0)"
    using ExtraTags_decodes_all [OF assms(1), of ?l] r by simp
  ultimately show "readExtraField [] (of_nat ?n) r = (Inr ts, advance ?n r)"
    by (simp add: readExtraField_def)
qed

lemma decodes_outputs_full:
  assumes "outputs_ok os" "os \<noteq> []" "outputTotals os 0 0 = Inr (blob, tot)"
  shows "decodes (readOutputsField []) (outputs_enc os) (os, blob, tot)"
  unfolding readOutputsField_def using assms
  by (intro decodes_andThen_end [OF decodes_Outputs]) auto

lemma decodes_outputs_pruned:
  "decodes (readOutputsField []) (AppendUvarint 0 @ AppendUvarint tot @ AppendUvarint blob) ([], blob, tot)"
proof -
  have "decodes (Outputs_FromReader []) (AppendUvarint 0) []"
    unfolding Outputs_FromReader_def by (rule decodes_andThen_end [OF decodes_uvarint]) simp
  then show ?thesis unfolding readOutputsField_def
    by (rule decodes_andThen)
      (auto intro!: decodes_andThen [OF decodes_uvarint] decodes_andThen_end [OF decodes_uvarint])
qed

lemma decodes_coinbase_general:
  assumes base: "coinbase_base_ok c"
    and outs: "decodes (readOutputsField []) out (os, blob, tot)"
    and c': "c' = c\<lparr>c_Outputs := os, c_OutputsBlobSize := blob, c_TotalReward := tot\<rparr>"
  shows "decodes (Coinbase_FromReader zeroCoinbase)
     (Coinbase_prefix c @ out @ AppendUvarint (of_nat (length (tags_enc (c_Extra c)))) @
      tags_enc (c_Extra c) @ [c_ExtraBaseRCT c]) c'"
proof -
  let ?n = "of_nat (length (tags_enc (c_Extra c))) :: u64"
  have n: "\<not> ?n > 65536"
    using base by (simp add: coinbase_base_ok_def not_less word_le_nat_alt unat_of_nat)
  have ex: "decodes (readExtraField [] ?n) (tags_enc (c_Extra c)) (c_Extra c)"
    using base by (intro decodes_readExtraField) (auto simp: coinbase_base_ok_def)
  have split: "Coinbase_prefix c @ out @ rest =
      [c_Version c] @ AppendUvarint (c_UnlockTime c) @ [c_InputCount c] @ [c_InputType c] @
      AppendUvarint (c_GenHeight c) @ out @ rest" for rest
    by (simp add: Coinbase_prefix_def)
  show ?thesis
    unfolding Coinbase_FromReader_def split
    using base n
    by (auto simp: coinbase_base_ok_def zeroCoinbase_def c' simp del: append_Cons append.simps(2) One_nat_def
        intro!: decodes_andThen [OF decodes_ReadByte] decodes_andThen [OF decodes_uvarint]
          decodes_andThen [OF outs] decodes_andThen [OF ex] decodes_andThen_end [OF decodes_ReadLE_1]
          CoinbaseTransaction.equality)
qed

lemma decodes_coinbase:
  assumes "coinbase_ok c"
  shows "decodes (Coinbase_FromReader zeroCoinbase) (coinbase_enc False c) c"
proof -
  have "decodes (readOutputsField []) (outputs_enc (c_Outputs c)) (c_Outputs c, c_OutputsBlobSize c, c_TotalReward c)"
    using assms by (intro decodes_outputs_full) (auto simp: coinbase_ok_def coinbase_base_ok_def)
  from decodes_coinbase_general [OF _ this, of c c] assms show ?thesis
    by (simp add: coinbase_enc_def coinbase_ok_def)
qed

lemma decodes_coinbase_pruned:
  assumes "coinbase_base_ok c"
  shows "decodes (Coinbase_FromReader zeroCoinbase) (coinbase_enc True c) (pruned_coinbase c)"
  unfolding coinbase_enc_def
  using decodes_coinbase_general [OF assms decodes_outputs_pruned [of "c_TotalReward c"], of "pruned_coinbase c"]
  by (simp add: pruned_coinbase_def)

interpretation coinbase: sized_codec "coinbase_enc False" "Coinbase_FromReader zeroCoinbase" coinbase_ok
  Coinbase_BufferLength
  by unfold_locales
    (auto intro: decodes_coinbase simp: Coinbase_BufferLength_eq coinbase_ok_def coinbase_base_ok_def)

text \<open>The coinbase transaction survives serialisation in both forms.  Reading the full form
  gives the transaction back and takes \<^verbatim>\<open>BufferLength\<close> bytes; reading the pruned form gives it
  without its outputs, with their total reward and the length of their serialisation.\<close>

lemma Coinbase_round_trip:
  assumes "coinbase_ok c"
  shows "Coinbase_FromReader zeroCoinbase (BytesReader (Coinbase_AppendBinaryFlags c [] False @ rest)) =
      (Inr c, BytesReader rest) \<and>
    length (Coinbase_AppendBinaryFlags c [] False) = Coinbase_BufferLength c \<and>
    Coinbase_FromReader zeroCoinbase (BytesReader (Coinbase_AppendBinaryFlags c [] True @ rest)) =
      (Inr (pruned_coinbase c), BytesReader rest)"
proof -
  have ok: "outputs_ok (c_Outputs c)" "coinbase_base_ok c"
    using assms by (simp_all add: coinbase_ok_def coinbase_base_ok_def)
  have "Coinbase_FromReader zeroCoinbase (BytesReader (coinbase_enc True c @ rest)) =
      (Inr (pruned_coinbase c), BytesReader rest)"
    using decodesD [OF decodes_coinbase_pruned [OF ok(2)], of "BytesReader (coinbase_enc True c @ rest)" rest]
    by simp
  then show ?thesis
    using coinbase.round_trip [OF assms, of rest] coinbase.size_enc [OF assms] ok
    by (simp add: Coinbase_AppendBinaryFlags_eq)
qed

definition example_output :: Output where
  "example_output = \<lparr>o_Index = 0, o_Reward = 600000000000, o_EphemeralPublicKey = 77, o_Type = 3, o_ViewTag = 9\<rparr>"

definition example_coinbase :: CoinbaseTransaction where
  "example_coinbase = \<lparr>c_Version = 2, c_InputCount = 1, c_InputType = 0xff, c_UnlockTime = 3000060,
     c_GenHeight = 3000000, c_Outputs = [example_output], c_OutputsBlobSize = 34,
     c_TotalReward = 600000000000, c_Extra = example_tags, c_ExtraBaseRCT = 0\<rparr>"

lemma length_AppendUvarint_small: "unat x < 128 \<Longrightarrow> length (AppendUvarint x) = 1"
  by (simp add: AppendUvarint.simps [of x] word_less_nat_alt)

lemma example_coinbase_ok: "coinbase_ok example_coinbase"
proof -
  have "length (tags_enc example_tags) \<le> 65536"
    by (simp add: example_tags_def tags_enc_def tag_enc_def length_AppendUvarint_small)
  then show ?thesis
    using example_tags_ok
    by (simp add: coinbase_ok_def coinbase_base_ok_def example_coinbase_def example_output_def
        outputs_ok_def output_ok_def tx_consts MinerRewardUnlockTime_def)
qed

end
