(* ===== verification/Merkle.thy ===== *)
theory Merkle
  imports Types
begin

text \<open>
  monero/crypto/merkle.go: the root and the main branch of the transaction tree of a block,
  computed in place on an array, and their equivalence with the recursive definition of a
  binary hash tree.  The hash function is the parameter \<open>K\<close> (keccak, a third-party package).
\<close>

definition hash2 :: "(byte list \<Rightarrow> hash) \<Rightarrow> hash \<Rightarrow> hash \<Rightarrow> hash" where
  "hash2 K a b = K (le_bytes 32 a @ le_bytes 32 b)"

fun leafHash :: "(byte list \<Rightarrow> hash) \<Rightarrow> hash list \<Rightarrow> hash result" where
  "leafHash K [] = Inl (Panic ''unsupported length'')"
| "leafHash K [h] = Inr h"
| "leafHash K (a # b # t) = Inr (hash2 K a b)"

text \<open>The inner loop: entry \<open>i\<close> becomes the hash of entries \<open>2 * i\<close> and \<open>2 * i + 1\<close>, in place, for \<open>n\<close>
  entries from \<open>i\<close> on.\<close>

fun hashLevel :: "(byte list \<Rightarrow> hash) \<Rightarrow> nat \<Rightarrow> nat \<Rightarrow> hash list \<Rightarrow> hash list result" where
  "hashLevel K i 0 t = Inr t"
| "hashLevel K i (Suc n) t = bindR (leafHash K (drop (i * 2) t)) (\<lambda>h. hashLevel K (i + 1) n (t[i := h]))"

function hashLevels :: "(byte list \<Rightarrow> hash) \<Rightarrow> nat \<Rightarrow> hash list \<Rightarrow> hash list result" where
  "hashLevels K pow2cnt t =
    (if pow2cnt > 1 then bindR (hashLevel K 0 pow2cnt t) (hashLevels K (pow2cnt div 2)) else Inr t)"
  by pat_completeness auto
termination
  by (relation "measure (\<lambda>(K, n, t). n)") auto

declare hashLevels.simps [simp del]

text \<open>The array both functions start from: the first entries and the hashes of the pairs of the others.\<close>

definition temporaryTree :: "(byte list \<Rightarrow> hash) \<Rightarrow> nat \<Rightarrow> hash list \<Rightarrow> hash list result" where
  "temporaryTree K pow2cnt t =
    (let offset = pow2cnt * 2 - length t in
     bindR (mapR (\<lambda>i. leafHash K (drop (offset + i * 2) t)) [0..<pow2cnt - offset])
       (\<lambda>offsetTree. Inr (take offset t @ offsetTree)))"

definition RootHash :: "(byte list \<Rightarrow> hash) \<Rightarrow> hash list \<Rightarrow> hash result" where
  "RootHash K t =
    (if length t \<le> 2 then leafHash K t
     else let pow2cnt = nat (PreviousPowerOfTwo (of_nat (length t))) in
       bindR (temporaryTree K pow2cnt t) (\<lambda>tmp.
       bindR (hashLevels K (pow2cnt div 2) tmp) (leafHash K)))"

text \<open>\<^verbatim>\<open>MainBranch\<close> keeps entry 1 of every level before it is hashed.\<close>

function branchLevels ::
  "(byte list \<Rightarrow> hash) \<Rightarrow> nat \<Rightarrow> hash list \<Rightarrow> hash list \<Rightarrow> (hash list \<times> hash list) result" where
  "branchLevels K pow2cnt t branch =
    (if pow2cnt > 1 then
       bindR (nth_go t 1) (\<lambda>h.
       bindR (hashLevel K 0 pow2cnt t) (\<lambda>t'. branchLevels K (pow2cnt div 2) t' (branch @ [h])))
     else Inr (branch, t))"
  by pat_completeness auto
termination
  by (relation "measure (\<lambda>(K, n, t, b). n)") auto

declare branchLevels.simps [simp del]

definition MainBranch :: "(byte list \<Rightarrow> hash) \<Rightarrow> hash list \<Rightarrow> hash list result" where
  "MainBranch K t =
    (if length t \<le> 2 then Inr []
     else let pow2cnt = nat (PreviousPowerOfTwo (of_nat (length t)));
              offset = pow2cnt * 2 - length t;
              first = concat (map (\<lambda>i. if offset + i * 2 = 0 then [t ! 1] else []) [0..<pow2cnt - offset])
          in bindR (temporaryTree K pow2cnt t) (\<lambda>tmp.
             bindR (branchLevels K (pow2cnt div 2) tmp first) (\<lambda>(branch, tmp').
             bindR (nth_go tmp' 1) (\<lambda>h. Inr (branch @ [h])))))"

section \<open>The reference tree\<close>

fun pairs :: "(byte list \<Rightarrow> hash) \<Rightarrow> hash list \<Rightarrow> hash list" where
  "pairs K (a # b # t) = hash2 K a b # pairs K t"
| "pairs K t = t"

fun tree_hash :: "(byte list \<Rightarrow> hash) \<Rightarrow> nat \<Rightarrow> hash list \<Rightarrow> hash" where
  "tree_hash K 0 t = hd t"
| "tree_hash K (Suc k) t = hash2 K (tree_hash K k (take (2 ^ k) t)) (tree_hash K k (drop (2 ^ k) t))"

lemma pairs_append: "even (length xs) \<Longrightarrow> pairs K (xs @ ys) = pairs K xs @ pairs K ys"
  by (induction K xs rule: pairs.induct) auto

lemma length_pairs: "even (length xs) \<Longrightarrow> length (pairs K xs) = length xs div 2"
  by (induction K xs rule: pairs.induct) auto

lemma nth_pairs: "2 * i + 1 < length xs \<Longrightarrow> pairs K xs ! i = hash2 K (xs ! (2 * i)) (xs ! (2 * i + 1))"
  by (induction K xs arbitrary: i rule: pairs.induct) (auto simp: nth_Cons split: nat.splits)

lemma pairs_take_drop:
  assumes "2 * m \<le> length xs"
  shows "pairs K (take (2 * m) xs) = take m (pairs K xs)" "pairs K (drop (2 * m) xs) = drop m (pairs K xs)"
proof -
  have "pairs K xs = pairs K (take (2 * m) xs) @ pairs K (drop (2 * m) xs)"
    using pairs_append [of "take (2 * m) xs" K "drop (2 * m) xs"] assms by simp
  moreover have "length (pairs K (take (2 * m) xs)) = m"
    using length_pairs [of "take (2 * m) xs" K] assms by simp
  ultimately show "pairs K (take (2 * m) xs) = take m (pairs K xs)" "pairs K (drop (2 * m) xs) = drop m (pairs K xs)"
    by simp_all
qed

lemma tree_hash_pairs: "length xs = 2 ^ Suc k \<Longrightarrow> tree_hash K (Suc k) xs = tree_hash K k (pairs K xs)"
proof (induction k arbitrary: xs)
  case 0
  then obtain a b where "xs = [a, b]" by (cases xs; cases "tl xs") auto
  then show ?case by simp
next
  case (Suc k)
  let ?m = "2 ^ k :: nat"
  have "tree_hash K (Suc k) (take (2 * ?m) xs) = tree_hash K k (take ?m (pairs K xs))"
    "tree_hash K (Suc k) (drop (2 * ?m) xs) = tree_hash K k (drop ?m (pairs K xs))"
    using Suc.IH [of "take (2 * ?m) xs"] Suc.IH [of "drop (2 * ?m) xs"] Suc.prems
      pairs_take_drop [of ?m xs K] by (simp_all del: tree_hash.simps)
  then show ?case by (simp only: tree_hash.simps(2) [of K "Suc k" xs] power_Suc tree_hash.simps(2) [of K k "pairs K xs"])
qed

lemma leafHash_drop: "2 * i + 1 < length t \<Longrightarrow> leafHash K (drop (i * 2) t) = Inr (hash2 K (t ! (2 * i)) (t ! (2 * i + 1)))"
  by (simp add: mult.commute flip: Cons_nth_drop_Suc)

text \<open>The in-place loop: entry \<open>i\<close> is written after entries \<open>2 * i\<close> and \<open>2 * i + 1\<close> were read.\<close>

lemma hashLevel_pairs:
  assumes "2 * (i + n) \<le> length t"
  shows "\<exists>t'. hashLevel K i n t = Inr t' \<and> length t' = length t \<and>
    (\<forall>j. i \<le> j \<and> j < i + n \<longrightarrow> t' ! j = hash2 K (t ! (2 * j)) (t ! (2 * j + 1))) \<and>
    (\<forall>j < i. t' ! j = t ! j)"
  using assms
proof (induction n arbitrary: i t)
  case (Suc n)
  let ?h = "hash2 K (t ! (2 * i)) (t ! (2 * i + 1))"
  have leaf: "leafHash K (drop (i * 2) t) = Inr ?h" using Suc.prems by (intro leafHash_drop) simp
  obtain t' where t': "hashLevel K (i + 1) n (t[i := ?h]) = Inr t'" "length t' = length t"
    "\<forall>j. i + 1 \<le> j \<and> j < i + 1 + n \<longrightarrow> t' ! j = hash2 K (t[i := ?h] ! (2 * j)) (t[i := ?h] ! (2 * j + 1))"
    "\<forall>j < i + 1. t' ! j = t[i := ?h] ! j"
    using Suc.IH [of "i + 1" "t[i := ?h]"] Suc.prems by auto
  have "t' ! j = hash2 K (t ! (2 * j)) (t ! (2 * j + 1))" if "i \<le> j" "j < i + Suc n" for j
    using that t' Suc.prems by (cases "j = i") auto
  moreover have "t' ! j = t ! j" if "j < i" for j using t'(4) that by simp
  ultimately show ?case using leaf t' by simp
qed auto

lemma hashLevel_0:
  assumes "2 * n \<le> length t"
  obtains t' where "hashLevel K 0 n t = Inr t'" "length t' = length t" "take n t' = pairs K (take (2 * n) t)"
proof -
  obtain t' where t': "hashLevel K 0 n t = Inr t'" "length t' = length t"
    "\<forall>j < n. t' ! j = hash2 K (t ! (2 * j)) (t ! (2 * j + 1))"
    using hashLevel_pairs [of 0 n t K] assms by auto
  have "take n t' = pairs K (take (2 * n) t)"
    using assms t' by (intro nth_equalityI) (auto simp: length_pairs nth_pairs)
  with t' that show thesis by blast
qed

lemma one_less_2_pow: "Suc 0 < 2 * 2 ^ k"
  using one_less_power [of "2 :: nat" "Suc k"] by simp

lemma hashLevels_tree:
  "2 ^ Suc k \<le> length t \<Longrightarrow>
    \<exists>t'. hashLevels K (2 ^ k) t = Inr t' \<and> length t' = length t \<and>
      hash2 K (t' ! 0) (t' ! 1) = tree_hash K (Suc k) (take (2 ^ Suc k) t)"
proof (induction k arbitrary: t)
  case 0
  then obtain a b u where "t = a # b # u" by (cases t; cases "tl t") auto
  then show ?case by (simp add: hashLevels.simps [of K "Suc 0"])
next
  case (Suc k)
  let ?n = "2 ^ Suc k :: nat"
  obtain t1 where t1: "hashLevel K 0 ?n t = Inr t1" "length t1 = length t" "take ?n t1 = pairs K (take (2 * ?n) t)"
    using Suc.prems by (elim hashLevel_0 [of ?n t K, rotated]) auto
  moreover have "2 ^ Suc k \<le> length t1" using t1 Suc.prems by simp
  moreover have "hashLevels K ?n t = bindR (hashLevel K 0 ?n t) (hashLevels K (2 ^ k))"
    by (subst hashLevels.simps) (simp add: one_less_2_pow)
  moreover have "tree_hash K (Suc (Suc k)) (take (2 ^ Suc (Suc k)) t) = tree_hash K (Suc k) (pairs K (take (2 * ?n) t))"
    using tree_hash_pairs [of "take (2 * ?n) t" "Suc k" K] Suc.prems by (simp del: tree_hash.simps)
  ultimately show ?case using Suc.IH [of t1] by (simp del: tree_hash.simps)
qed

text \<open>Folding a branch from a leaf upwards, as a verifier of the coinbase does.\<close>

definition fold_branch :: "(byte list \<Rightarrow> hash) \<Rightarrow> hash \<Rightarrow> hash list \<Rightarrow> hash" where
  "fold_branch K h branch = foldl (hash2 K) h branch"

lemma branchLevels_tree:
  "2 ^ Suc k \<le> length t \<Longrightarrow> fold_branch K h branch = t ! 0 \<Longrightarrow>
    \<exists>t' branch'. branchLevels K (2 ^ k) t branch = Inr (branch', t') \<and> length t' = length t \<and>
      length branch' = length branch + k \<and>
      fold_branch K h (branch' @ [t' ! 1]) = tree_hash K (Suc k) (take (2 ^ Suc k) t)"
proof (induction k arbitrary: t branch)
  case 0
  then obtain a b u where "t = a # b # u" by (cases t; cases "tl t") auto
  with 0 show ?case by (simp add: branchLevels.simps [of K "Suc 0"] fold_branch_def)
next
  case (Suc k)
  let ?n = "2 ^ Suc k :: nat"
  obtain t1 where t1: "hashLevel K 0 ?n t = Inr t1" "length t1 = length t" "take ?n t1 = pairs K (take (2 * ?n) t)"
    using Suc.prems by (elim hashLevel_0 [of ?n t K, rotated]) auto
  have len: "2 ^ Suc k \<le> length t1" "1 < length t"
    using t1 Suc.prems(1) one_less_2_pow [of "Suc k"] by auto
  have "t1 ! 0 = take ?n t1 ! 0" by simp
  also have "\<dots> = hash2 K (t ! 0) (t ! 1)"
    using t1(3) nth_pairs [of 0 "take (2 * ?n) t" K] Suc.prems one_less_2_pow [of "Suc k"] by simp
  finally have "fold_branch K h (branch @ [t ! 1]) = t1 ! 0"
    using Suc.prems(2) by (simp add: fold_branch_def)
  moreover have "branchLevels K ?n t branch =
      bindR (hashLevel K 0 ?n t) (\<lambda>t'. branchLevels K (2 ^ k) t' (branch @ [t ! 1]))"
    using len by (subst branchLevels.simps) (simp add: one_less_2_pow nth_go_def)
  moreover have "tree_hash K (Suc (Suc k)) (take (2 ^ Suc (Suc k)) t) = tree_hash K (Suc k) (pairs K (take (2 * ?n) t))"
    using tree_hash_pairs [of "take (2 * ?n) t" "Suc k" K] Suc.prems by (simp del: tree_hash.simps)
  ultimately show ?case using Suc.IH [of t1 "branch @ [t ! 1]"] len t1 by (simp del: tree_hash.simps)
qed

lemma mapR_leafHash_pairs:
  "length xs = 2 * n \<Longrightarrow> mapR (\<lambda>i. leafHash K (drop (i * 2) xs)) [0..<n] = Inr (pairs K xs)"
proof -
  assume len: "length xs = 2 * n"
  then have "mapR (\<lambda>i. leafHash K (drop (i * 2) xs)) [0..<n] = Inr (map (\<lambda>i. hash2 K (xs ! (2 * i)) (xs ! (2 * i + 1))) [0..<n])"
    by (intro mapR_total leafHash_drop) auto
  also have "map (\<lambda>i. hash2 K (xs ! (2 * i)) (xs ! (2 * i + 1))) [0..<n] = pairs K xs"
    using len by (intro nth_equalityI) (auto simp: length_pairs nth_pairs)
  finally show ?thesis .
qed

lemma temporaryTree_eq:
  assumes "2 ^ k \<le> length t" "length t < 2 ^ (k + 1)"
  shows "temporaryTree K (2 ^ k) t =
    (let offset = 2 ^ (k + 1) - length t in Inr (take offset t @ pairs K (drop offset t)))"
proof -
  let ?off = "2 ^ k * 2 - length t"
  have "length (drop ?off t) = 2 * (2 ^ k - ?off)" using assms by simp
  from mapR_leafHash_pairs [OF this, of K] show ?thesis
    by (simp add: temporaryTree_def Let_def add.commute mult.commute)
qed

lemma RootHash_MainBranch_few:
  "RootHash K [a] = Inr a" "MainBranch K [a] = Inr []" "RootHash K [a, b] = Inr (hash2 K a b)" "MainBranch K [a, b] = Inr []"
  by (simp_all add: RootHash_def MainBranch_def)

lemma RootHash_MainBranch_many:
  assumes "2 < length t" and "length t < 2 ^ 63"
  shows "\<exists>k root branch. 2 ^ k \<le> length t \<and> length t < 2 ^ (k + 1) \<and>
    RootHash K t = Inr root \<and>
    root = tree_hash K k (take (2 ^ (k + 1) - length t) t @ pairs K (drop (2 ^ (k + 1) - length t) t)) \<and>
    MainBranch K t = Inr branch \<and> length branch = k \<and> fold_branch K (t ! 0) branch = root"
proof -
  obtain k0 where k0: "PreviousPowerOfTwo (of_nat (length t)) = 2 ^ k0" "2 ^ k0 \<le> length t" "length t < 2 ^ (k0 + 1)"
    by (rule PreviousPowerOfTwo_bounds [of "length t"]) (use assms in auto)
  have "k0 \<noteq> 0" using k0(3) assms(1) by (intro notI) simp
  then obtain k where k: "k0 = Suc k" by (cases k0) auto
  define off where "off = 2 ^ (k0 + 1) - length t"
  define tmp where "tmp = take off t @ pairs K (drop off t)"
  have off: "0 < off" "off \<le> length t" "even (length (drop off t))" using k0 by (auto simp: off_def)
  then have len: "length tmp = 2 ^ Suc k" using k0 k by (simp add: length_pairs tmp_def off_def)
  have p: "nat (PreviousPowerOfTwo (of_nat (length t))) = 2 ^ k0" "2 ^ k0 div 2 = (2 ^ k :: nat)"
    using k0(1) nat_power_eq [of 2 k0] k by simp_all
  have tmp: "temporaryTree K (2 ^ k0) t = Inr tmp"
    using temporaryTree_eq [OF k0(2,3), of K] by (simp add: Let_def tmp_def off_def)
  have hd: "tmp ! 0 = t ! 0" using off by (simp add: nth_append tmp_def)
  have all: "take (2 ^ Suc k) tmp = tmp" using len by simp
  obtain t' where t': "hashLevels K (2 ^ k) tmp = Inr t'" "length t' = length tmp"
    "hash2 K (t' ! 0) (t' ! 1) = tree_hash K k0 tmp"
    using hashLevels_tree [of k tmp K] unfolding all k len by blast
  have two: "1 < length t'" using t'(2) len one_less_2_pow [of k] by simp
  then have leaf: "leafHash K t' = Inr (tree_hash K k0 tmp)"
    using t'(3) leafHash_drop [of 0 t' K] by simp
  obtain t2 branch where b: "branchLevels K (2 ^ k) tmp [] = Inr (branch, t2)" "length t2 = length tmp"
    "length branch = k" "fold_branch K (t ! 0) (branch @ [t2 ! 1]) = tree_hash K k0 tmp"
    using branchLevels_tree [of k tmp K "t ! 0" "[]"] unfolding all k len
    by (auto simp: fold_branch_def hd simp del: tree_hash.simps)
  have "1 < length t2" using b(2) len one_less_2_pow [of k] by simp
  moreover have "\<not> 2 ^ k0 * 2 \<le> length t" using k0(3) by simp
  ultimately have "MainBranch K t = Inr (branch @ [t2 ! 1])"
    using assms(1) tmp b by (simp add: MainBranch_def p Let_def nth_go_def map_replicate_const)
  moreover have "RootHash K t = Inr (tree_hash K k0 tmp)"
    using assms(1) tmp t'(1) leaf by (simp add: RootHash_def p Let_def)
  ultimately show ?thesis using k0 b(3,4) k unfolding tmp_def off_def
    by (intro exI conjI) (assumption | simp)+
qed

text \<open>C36: Merkle tree.  For every non-empty list of fewer than \<open>2^63\<close> hashes, \<^verbatim>\<open>RootHash\<close> and \<^verbatim>\<open>MainBranch\<close> succeed.  The root of one
  hash is that hash, the root of two is the hash of the pair, and for both the branch is empty.  For more
  than two the root is that of the balanced tree over the first leaves and the hashed pairs of the
  rest, and folding the branch from the first leaf gives that root.\<close>

theorem RootHash_MainBranch_correct:
  assumes "t \<noteq> []" and "length t < 2 ^ 63"
  shows "(length t = 1 \<longrightarrow> RootHash K t = Inr (t ! 0) \<and> MainBranch K t = Inr []) \<and>
    (length t = 2 \<longrightarrow> RootHash K t = Inr (hash2 K (t ! 0) (t ! 1)) \<and> MainBranch K t = Inr []) \<and>
    (2 < length t \<longrightarrow> (\<exists>k root branch. 2 ^ k \<le> length t \<and> length t < 2 ^ (k + 1) \<and>
      RootHash K t = Inr root \<and>
      root = tree_hash K k (take (2 ^ (k + 1) - length t) t @ pairs K (drop (2 ^ (k + 1) - length t) t)) \<and>
      MainBranch K t = Inr branch \<and> length branch = k \<and> fold_branch K (t ! 0) branch = root))"
proof (intro conjI impI)
  assume "length t = 1"
  then obtain a where "t = [a]" by (auto simp: length_Suc_conv)
  then show "RootHash K t = Inr (t ! 0)" "MainBranch K t = Inr []" by (simp_all add: RootHash_MainBranch_few)
next
  assume "length t = 2"
  then obtain a b where "t = [a, b]" by (auto simp: length_Suc_conv numeral_2_eq_2)
  then show "RootHash K t = Inr (hash2 K (t ! 0) (t ! 1))" "MainBranch K t = Inr []" by (simp_all add: RootHash_MainBranch_few)
qed (rule RootHash_MainBranch_many [OF _ assms(2)])

theorem RootHash_MainBranch_correct_witness:
  "(\<exists>root branch. RootHash (\<lambda>bs. le_word (take 32 bs) + 1) [10, 20, 30, 40, 50] = Inr root \<and>
     MainBranch (\<lambda>bs. le_word (take 32 bs) + 1) [10, 20, 30, 40, 50] = Inr branch \<and>
     fold_branch (\<lambda>bs. le_word (take 32 bs) + 1) 10 branch = root) \<and>
   RootHash (\<lambda>bs. le_word (take 32 bs) + 1) [10] = Inr 10"
  using RootHash_MainBranch_correct [of "[10, 20, 30, 40, 50]" "\<lambda>bs. le_word (take 32 bs) + 1"]
    RootHash_MainBranch_correct [of "[10]" "\<lambda>bs. le_word (take 32 bs) + 1"] by auto

end
