(* ===== verification/MainBlock.thy ===== *)
theory MainBlock
  imports Transaction Merkle
begin

text \<open>
  monero/block: the main-chain block with its full, pruned and compact serialisations, its hashing
  blobs (block.go) and the block reward (reward.go); the RandomX seed height
  (monero/randomx/randomx.go).  The RandomX hasher is a parameter.
\<close>

definition HardForkViewTagsVersion :: byte where "HardForkViewTagsVersion = 15"
definition HardForkSupportedVersion :: byte where "HardForkSupportedVersion = 16"

record Block =
  b_MajorVersion :: byte
  b_MinorVersion :: byte
  b_Nonce :: u32
  b_Timestamp :: u64
  b_PreviousId :: hash
  b_Coinbase :: CoinbaseTransaction
  b_Transactions :: "hash list"
  b_TransactionParentIndices :: "u64 list"

definition zeroBlock :: Block where
  "zeroBlock = \<lparr>b_MajorVersion = 0, b_MinorVersion = 0, b_Nonce = 0, b_Timestamp = 0, b_PreviousId = 0,
     b_Coinbase = zeroCoinbase, b_Transactions = [], b_TransactionParentIndices = []\<rparr>"

definition Block_BufferLength :: "Block \<Rightarrow> nat" where
  "Block_BufferLength b =
    1 + 1 + UVarInt64Size (b_Timestamp b) + 32 + 4 + Coinbase_BufferLength (b_Coinbase b) +
    UVarInt64Size (of_nat (length (b_Transactions b))) + 32 * length (b_Transactions b)"

definition HeaderBlob :: "Block \<Rightarrow> byte list \<Rightarrow> byte list" where
  "HeaderBlob b buf =
    buf @ [b_MajorVersion b] @ [b_MinorVersion b] @ AppendUvarint (b_Timestamp b) @
    le_bytes 32 (b_PreviousId b) @ le_bytes 4 (b_Nonce b)"

definition HeaderBlobBufferLength :: "Block \<Rightarrow> nat" where
  "HeaderBlobBufferLength b = 1 + 1 + UVarInt64Size (b_Timestamp b) + 32 + 4"

text \<open>The parent index of transaction \<open>i\<close>: 0 when there is none.\<close>

definition parent_index :: "u64 list \<Rightarrow> nat \<Rightarrow> u64" where
  "parent_index inds i = (if i < length inds \<and> inds ! i \<noteq> 0 then inds ! i else 0)"

fun appendCompact :: "u64 list \<Rightarrow> nat \<Rightarrow> hash list \<Rightarrow> byte list \<Rightarrow> byte list" where
  "appendCompact inds i [] buf = buf"
| "appendCompact inds i (txId # txs) buf =
    appendCompact inds (i + 1) txs
      (if i < length inds \<and> inds ! i \<noteq> 0 then buf @ AppendUvarint (inds ! i)
       else buf @ AppendUvarint 0 @ le_bytes 32 txId)"

definition Block_AppendBinaryFlags :: "Block \<Rightarrow> byte list \<Rightarrow> bool \<Rightarrow> bool \<Rightarrow> byte list result" where
  "Block_AppendBinaryFlags b preAllocatedBuf pruned compact =
    (let buf = preAllocatedBuf @ [b_MajorVersion b] in
     if b_MajorVersion b > HardForkSupportedVersion then Inl (Err ''unsupported version'')
     else let buf = buf @ [b_MinorVersion b] in
     if b_MinorVersion b < b_MajorVersion b then Inl (Err ''minor version smaller than major'')
     else let buf = buf @ AppendUvarint (b_Timestamp b);
              buf = buf @ le_bytes 32 (b_PreviousId b);
              buf = buf @ le_bytes 4 (b_Nonce b);
              buf = Coinbase_AppendBinaryFlags (b_Coinbase b) buf pruned;
              buf = buf @ AppendUvarint (of_nat (length (b_Transactions b)))
          in Inr (if compact then appendCompact (b_TransactionParentIndices b) 0 (b_Transactions b) buf
                  else buf @ concat (map (le_bytes 32) (b_Transactions b))))"

text \<open>One entry of a compact block: an index into the parent's transactions, or a hash after 0.\<close>

definition readCompactTx :: "(hash \<times> u64) rd" where
  "readCompactTx =
    andThen ReadUvarint (\<lambda>parentIndex.
      if parentIndex = 0 then andThen (ReadLE 32) (\<lambda>h. giveR (h, parentIndex))
      else giveR (ZeroHash, parentIndex))"

definition Block_FromReaderFlags :: "Block \<Rightarrow> bool \<Rightarrow> Block rd" where
  "Block_FromReaderFlags b compact =
    andThen ReadByte (\<lambda>major.
    andThen ReadByte (\<lambda>minor.
    andThen ReadUvarint (\<lambda>timestamp.
    andThen (ReadLE 32) (\<lambda>prev.
    andThen (ReadLE 4) (\<lambda>nonce.
    andThen (Coinbase_FromReader (b_Coinbase b)) (\<lambda>cb.
    andThen ReadUvarint (\<lambda>txCount.
      let b' = b\<lparr>b_MajorVersion := major, b_MinorVersion := minor, b_Timestamp := timestamp,
                 b_PreviousId := prev, b_Nonce := nonce, b_Coinbase := cb\<rparr> in
      if compact then
        andThen (timesR (int_count txCount) readCompactTx) (\<lambda>es.
          let (txs, inds) = (if txCount < 8192 then ([], [])
                             else (b_Transactions b, b_TransactionParentIndices b))
          in giveR (b'\<lparr>b_Transactions := txs @ map fst es, b_TransactionParentIndices := inds @ map snd es\<rparr>))
      else
        andThen (timesR (int_count txCount) (ReadLE 32)) (\<lambda>hs.
          let txs = (if txCount < 8192 then [] else b_Transactions b)
          in giveR (b'\<lparr>b_Transactions := txs @ hs\<rparr>)))))))))"

definition Block_SideChainHashingBlob :: "Block \<Rightarrow> byte list \<Rightarrow> bool \<Rightarrow> byte list" where
  "Block_SideChainHashingBlob b preAllocatedBuf zeroTemplateId =
    (let buf = preAllocatedBuf @ [b_MajorVersion b] @ [b_MinorVersion b] @ AppendUvarint (b_Timestamp b) @
           le_bytes 32 (b_PreviousId b) @ le_bytes 4 (0 :: u32);
         buf = Coinbase_SideChainHashingBlob (b_Coinbase b) buf zeroTemplateId;
         buf = buf @ AppendUvarint (of_nat (length (b_Transactions b)))
     in buf @ concat (map (le_bytes 32) (b_Transactions b)))"

definition HashingBlobBufferLength :: "Block \<Rightarrow> nat" where
  "HashingBlobBufferLength b = HeaderBlobBufferLength b + 32 + UVarInt64Size (of_nat (length (b_Transactions b) + 1))"

definition HashingBlob :: "(byte list \<Rightarrow> hash) \<Rightarrow> Block \<Rightarrow> byte list \<Rightarrow> byte list result" where
  "HashingBlob K b preAllocatedBuf =
    (let buf = HeaderBlob b preAllocatedBuf;
         merkleTree = CalculateId K (b_Coinbase b) # b_Transactions b
     in bindR (RootHash K merkleTree) (\<lambda>txTreeHash.
        Inr (buf @ le_bytes 32 txTreeHash @ AppendUvarint (of_nat (length (b_Transactions b) + 1)))))"

definition PowHashWithError ::
  "(byte list \<Rightarrow> hash) \<Rightarrow> (byte list \<Rightarrow> byte list \<Rightarrow> hash result) \<Rightarrow> (u64 \<Rightarrow> hash) \<Rightarrow> Block \<Rightarrow> hash result" where
  "PowHashWithError K hasher f b =
    (let seed = f (c_GenHeight (b_Coinbase b)) in
     if seed = ZeroHash then Inl (Err ''could not get seed'')
     else bindR (HashingBlob K b []) (hasher (le_bytes 32 seed)))"

definition Block_Id :: "(byte list \<Rightarrow> hash) \<Rightarrow> Block \<Rightarrow> hash result" where
  "Block_Id K b = bindR (HashingBlob K b []) (\<lambda>buf. Inr (K (AppendUvarint (of_nat (length buf)) @ buf)))"

definition Block_Difficulty :: "(u64 \<Rightarrow> Difficulty) \<Rightarrow> Block \<Rightarrow> Difficulty" where
  "Block_Difficulty f b = f (c_GenHeight (b_Coinbase b))"

record Header =
  h_MajorVersion :: byte
  h_MinorVersion :: byte
  h_Nonce :: u32
  h_Timestamp :: u64
  h_PreviousId :: hash
  h_Height :: u64
  h_Reward :: u64
  h_Difficulty :: Difficulty
  h_Id :: hash

definition Block_Header :: "(byte list \<Rightarrow> hash) \<Rightarrow> Block \<Rightarrow> Header result" where
  "Block_Header K b = bindR (Block_Id K b) (\<lambda>i. Inr
    \<lparr>h_MajorVersion = b_MajorVersion b, h_MinorVersion = b_MinorVersion b, h_Nonce = b_Nonce b,
     h_Timestamp = b_Timestamp b, h_PreviousId = b_PreviousId b,
     h_Height = c_GenHeight (b_Coinbase b), h_Reward = c_TotalReward (b_Coinbase b),
     h_Difficulty = ZeroDifficulty, h_Id = i\<rparr>)"

section \<open>Serialisation\<close>

definition block_base_ok :: "Block \<Rightarrow> bool" where
  "block_base_ok b \<longleftrightarrow> b_MajorVersion b \<le> HardForkSupportedVersion \<and> b_MajorVersion b \<le> b_MinorVersion b \<and>
     length (b_Transactions b) < 2 ^ 63"

text \<open>The transactions a compact block carries: known to the parent by index, or by hash.\<close>

definition compact_entry :: "u64 list \<Rightarrow> nat \<Rightarrow> hash \<Rightarrow> hash \<times> u64" where
  "compact_entry inds i tx = (if parent_index inds i \<noteq> 0 then (ZeroHash, parent_index inds i) else (tx, 0))"

fun compact_entries :: "u64 list \<Rightarrow> nat \<Rightarrow> hash list \<Rightarrow> (hash \<times> u64) list" where
  "compact_entries inds i [] = []"
| "compact_entries inds i (tx # txs) = compact_entry inds i tx # compact_entries inds (i + 1) txs"

definition compact_tx_enc :: "hash \<times> u64 \<Rightarrow> byte list" where
  "compact_tx_enc e = AppendUvarint (snd e) @ (if snd e = 0 then le_bytes 32 (fst e) else [])"

definition txs_enc :: "bool \<Rightarrow> Block \<Rightarrow> byte list" where
  "txs_enc compact b =
    (if compact then concat (map compact_tx_enc (compact_entries (b_TransactionParentIndices b) 0 (b_Transactions b)))
     else concat (map (le_bytes 32) (b_Transactions b)))"

definition block_enc :: "bool \<Rightarrow> bool \<Rightarrow> Block \<Rightarrow> byte list" where
  "block_enc pruned compact b = HeaderBlob b [] @ coinbase_enc pruned (b_Coinbase b) @
     AppendUvarint (of_nat (length (b_Transactions b))) @ txs_enc compact b"

lemma appendCompact_eq:
  "appendCompact inds i txs buf = buf @ concat (map compact_tx_enc (compact_entries inds i txs))"
  by (induction txs arbitrary: i buf) (auto simp: compact_tx_enc_def compact_entry_def parent_index_def)

lemma length_compact_entries [simp]: "length (compact_entries inds i txs) = length txs"
  by (induction txs arbitrary: i) auto

lemma nth_compact_entries:
  "j < length txs \<Longrightarrow> compact_entries inds i txs ! j = compact_entry inds (i + j) (txs ! j)"
  by (induction txs arbitrary: i j) (auto simp: nth_Cons split: nat.splits)

lemma Block_AppendBinaryFlags_eq:
  "block_base_ok b \<Longrightarrow> outputs_ok (c_Outputs (b_Coinbase b)) \<Longrightarrow>
    Block_AppendBinaryFlags b buf pruned compact = Inr (buf @ block_enc pruned compact b)"
  by (simp add: Block_AppendBinaryFlags_def block_base_ok_def not_less Let_def Coinbase_AppendBinaryFlags_eq
      block_enc_def HeaderBlob_def txs_enc_def appendCompact_eq)

interpretation compact_tx: codec compact_tx_enc readCompactTx "\<lambda>e. snd e \<noteq> 0 \<longrightarrow> fst e = ZeroHash"
proof
  fix e :: "hash \<times> u64" assume "snd e \<noteq> 0 \<longrightarrow> fst e = ZeroHash"
  then show "decodes readCompactTx (compact_tx_enc e) e"
    unfolding readCompactTx_def compact_tx_enc_def
    by (intro decodes_andThen [OF decodes_uvarint])
      (cases e, auto intro!: decodes_andThen_end [OF decodes_ReadLE])
qed

lemma compact_entries_ok: "\<forall>e \<in> set (compact_entries inds i txs). snd e \<noteq> 0 \<longrightarrow> fst e = ZeroHash"
  by (induction txs arbitrary: i) (auto simp: compact_entry_def)

text \<open>What the reader of each form gets.\<close>

definition decoded_block :: "bool \<Rightarrow> bool \<Rightarrow> Block \<Rightarrow> Block" where
  "decoded_block pruned compact b =
    (let b = (if pruned then b\<lparr>b_Coinbase := pruned_coinbase (b_Coinbase b)\<rparr> else b);
         es = compact_entries (b_TransactionParentIndices b) 0 (b_Transactions b)
     in if compact then b\<lparr>b_Transactions := map fst es, b_TransactionParentIndices := map snd es\<rparr>
        else b\<lparr>b_TransactionParentIndices := []\<rparr>)"

lemma decodes_block:
  assumes "block_base_ok b" "coinbase_ok (b_Coinbase b)"
  shows "decodes (Block_FromReaderFlags zeroBlock compact) (block_enc pruned compact b) (decoded_block pruned compact b)"
proof -
  have z: "b_Coinbase zeroBlock = zeroCoinbase" by (simp add: zeroBlock_def)
  let ?cb = "if pruned then pruned_coinbase (b_Coinbase b) else b_Coinbase b"
  let ?es = "compact_entries (b_TransactionParentIndices b) 0 (b_Transactions b)"
  have cb: "decodes (Coinbase_FromReader zeroCoinbase) (coinbase_enc pruned (b_Coinbase b)) ?cb"
    using assms(2) decodes_coinbase decodes_coinbase_pruned by (auto simp: coinbase_ok_def)
  have n: "length (b_Transactions b) < 2 ^ 63" using assms(1) by (simp add: block_base_ok_def)
  have full: "decodes (timesR (length (b_Transactions b)) (ReadLE 32))
      (concat (map (le_bytes 32) (b_Transactions b))) (b_Transactions b)"
    by (rule le_hash.dec_list) simp
  have comp: "decodes (timesR (length (b_Transactions b)) readCompactTx) (concat (map compact_tx_enc ?es)) ?es"
    using compact_tx.dec_list [OF compact_entries_ok] by (metis length_compact_entries)
  have enc: "block_enc pruned compact b = [b_MajorVersion b] @ [b_MinorVersion b] @ AppendUvarint (b_Timestamp b) @
     le_bytes 32 (b_PreviousId b) @ le_bytes 4 (b_Nonce b) @ coinbase_enc pruned (b_Coinbase b) @
     AppendUvarint (of_nat (length (b_Transactions b))) @ txs_enc compact b"
    by (simp add: block_enc_def HeaderBlob_def)
  show ?thesis unfolding enc Block_FromReaderFlags_def z
    by (intro decodes_andThen [OF decodes_ReadByte] decodes_andThen [OF decodes_uvarint]
        decodes_andThen [OF decodes_ReadLE] decodes_andThen [OF cb])
      (use full comp n in \<open>auto simp: zeroBlock_def Let_def int_count_of_nat txs_enc_def decoded_block_def
        intro!: decodes_andThen_end Block.equality\<close>)
qed

lemma Block_BufferLength_eq:
  "outputs_ok (c_Outputs (b_Coinbase b)) \<Longrightarrow> Block_BufferLength b = length (block_enc False False b)"
  by (simp add: Block_BufferLength_def block_enc_def HeaderBlob_def txs_enc_def UVarInt64Size_eq_length
      Coinbase_BufferLength_eq length_concat comp_def sum_list_triv mult.commute)

definition block_ok :: "Block \<Rightarrow> bool" where
  "block_ok b \<longleftrightarrow> block_base_ok b \<and> coinbase_ok (b_Coinbase b) \<and> b_TransactionParentIndices b = []"

lemma decoded_block_full: "block_ok b \<Longrightarrow> decoded_block False False b = b"
  by (simp add: decoded_block_def block_ok_def)

lemma block_ok_outputs: "coinbase_ok c \<Longrightarrow> outputs_ok (c_Outputs c)"
  by (simp add: coinbase_ok_def coinbase_base_ok_def)

interpretation block: sized_codec "block_enc False False" "Block_FromReaderFlags zeroBlock False" block_ok
  Block_BufferLength
proof
  fix b assume ok: "block_ok b"
  then show "decodes (Block_FromReaderFlags zeroBlock False) (block_enc False False b) b"
    using decodes_block [of b False False] by (simp add: decoded_block_full) (simp add: block_ok_def)
  show "Block_BufferLength b = length (block_enc False False b)"
    using ok by (simp add: Block_BufferLength_eq block_ok_def block_ok_outputs)
qed

text \<open>Main-chain blocks survive serialisation in all forms.  A block with a supported version is
  serialised without error; reading the full form gives the block back and takes \<^verbatim>\<open>BufferLength\<close>
  bytes; reading a pruned or compact form gives the block without its outputs, with its
  transactions replaced by the parent indices the compact form carries.\<close>

lemma Block_round_trip:
  assumes "block_base_ok b" and "coinbase_ok (b_Coinbase b)"
  shows "\<exists>buf. Block_AppendBinaryFlags b [] pruned compact = Inr buf \<and>
      Block_FromReaderFlags zeroBlock compact (BytesReader (buf @ rest)) =
        (Inr (decoded_block pruned compact b), BytesReader rest) \<and>
      (\<not> pruned \<and> \<not> compact \<longrightarrow> length buf = Block_BufferLength b \<and>
        decoded_block pruned compact b = b\<lparr>b_TransactionParentIndices := []\<rparr>)"
  using assms decodesD [OF decodes_block [OF assms, of compact pruned],
      of "BytesReader (block_enc pruned compact b @ rest)" rest]
  by (auto simp: Block_AppendBinaryFlags_eq block_ok_outputs Block_BufferLength_eq decoded_block_def)

definition example_block :: Block where
  "example_block = \<lparr>b_MajorVersion = 16, b_MinorVersion = 16, b_Nonce = 123456, b_Timestamp = 1700000000,
     b_PreviousId = 5, b_Coinbase = example_coinbase, b_Transactions = [11, 22, 33],
     b_TransactionParentIndices = [0, 2]\<rparr>"

lemma example_block_ok: "block_base_ok example_block" "coinbase_ok (b_Coinbase example_block)"
  using example_coinbase_ok by (simp_all add: block_base_ok_def example_block_def HardForkSupportedVersion_def)

lemma length_HashingBlob:
  assumes "HashingBlob K b [] = Inr buf"
  shows "length buf = HashingBlobBufferLength b"
  using assms
  by (auto simp: HashingBlob_def bindR_Inr_iff HashingBlobBufferLength_def HeaderBlob_def
      HeaderBlobBufferLength_def UVarInt64Size_eq_length Let_def)

section \<open>Block rewards\<close>

definition TailEmissionReward :: u64 where "TailEmissionReward = 600000000000"

definition GetBaseReward :: "u64 \<Rightarrow> u64" where
  "GetBaseReward alreadyGeneratedCoins =
    (let result = drop_bit 19 (NOT alreadyGeneratedCoins) in
     if result < TailEmissionReward then TailEmissionReward else result)"

definition fullRewardZone :: "byte \<Rightarrow> u64" where
  "fullRewardZone version = (if version < 2 then 20000 else if version < 5 then 60000 else 300000)"

text \<open>\<^verbatim>\<open>block.GetBlockReward\<close> with the product and the two divisions of the uint128 package.\<close>

definition GetBlockReward :: "uint128_pkg \<Rightarrow> u64 \<Rightarrow> u64 \<Rightarrow> u64 \<Rightarrow> byte \<Rightarrow> u64 result" where
  "GetBlockReward U medianWeight currentBlockWeight alreadyGeneratedCoins version =
    (let targ = (if version < 2 then 60 else 120 :: u64);
         targetMinutes = targ div 60;
         emissionSpeedFactor = 20 - (targetMinutes - 1);
         baseReward = drop_bit (unat emissionSpeedFactor) (- 1 - alreadyGeneratedCoins);
         baseReward = (if baseReward < 300000000000 * targetMinutes then 300000000000 * targetMinutes else baseReward);
         zone = fullRewardZone version;
         medianWeight = (if medianWeight < zone then zone else medianWeight)
     in if currentBlockWeight \<le> medianWeight then Inr baseReward
        else if currentBlockWeight > 2 * medianWeight then Inr 0
        else bindR (u_Mul64 U (DifficultyFrom64 baseReward) (2 * medianWeight - currentBlockWeight)) (\<lambda>product.
             bindR (u_Div64 U product medianWeight) (\<lambda>q.
             bindR (u_Div64 U q medianWeight) (\<lambda>q'. Inr (Lo q')))))"

definition effectiveMedian :: "u64 \<Rightarrow> byte \<Rightarrow> u64" where
  "effectiveMedian medianWeight version = max medianWeight (fullRewardZone version)"

lemma GetBlockReward_v2:
  assumes "2 \<le> version"
  shows "GetBlockReward U medianWeight weight coins version =
    (let m = effectiveMedian medianWeight version; base = GetBaseReward coins in
     if weight \<le> m then Inr base
     else if weight > 2 * m then Inr 0
     else bindR (u_Mul64 U (DifficultyFrom64 base) (2 * m - weight)) (\<lambda>product.
          bindR (u_Div64 U product m) (\<lambda>q. bindR (u_Div64 U q m) (\<lambda>q'. Inr (Lo q')))))"
proof -
  have n: "(- 1 :: u64) - coins = NOT coins" by (simp add: not_eq_complement)
  have "\<not> version < 2" using assms by simp
  moreover have "(if medianWeight < fullRewardZone version then fullRewardZone version else medianWeight) =
      effectiveMedian medianWeight version" by (auto simp: effectiveMedian_def max_def)
  ultimately show ?thesis
    by (simp only: GetBlockReward_def GetBaseReward_def Let_def TailEmissionReward_def n) simp
qed

lemma effectiveMedian_pos: "0 < unat (effectiveMedian m version)"
proof -
  have "0 < fullRewardZone version" by (simp add: fullRewardZone_def)
  then have "0 < effectiveMedian m version" by (simp add: effectiveMedian_def less_max_iff_disj)
  then show ?thesis by (simp add: word_less_nat_alt)
qed

text \<open>Block reward.  From version 2 on, with the median raised to the full reward zone, a block
  up to the median gets the base reward, one above twice the median gets nothing, and in between
  the result is \<open>base * (2 * median - weight) / median / median\<close>, without panic: at most the base
  reward divided by the median, a drop by the factor \<open>median\<close> right above it.\<close>

lemma GetBlockReward_branches:
  assumes "uint128_ok U" and "2 \<le> version" and "m = effectiveMedian medianWeight version" and "unat m < 2 ^ 63"
  shows "\<exists>r. GetBlockReward U medianWeight weight coins version = Inr r \<and>
    (if weight \<le> m then r = GetBaseReward coins
     else if unat weight > 2 * unat m then r = 0
     else unat r = unat (GetBaseReward coins) * (2 * unat m - unat weight) div unat m div unat m \<and>
          unat r \<le> unat (GetBaseReward coins) div unat m)"
proof -
  let ?base = "GetBaseReward coins"
  let ?b = "unat ?base" and ?m = "unat m" and ?w = "unat weight"
  have m: "0 < ?m" and m0: "m \<noteq> 0" using effectiveMedian_pos [of medianWeight version] assms(3) by auto
  have m2: "unat (2 * m) = 2 * ?m" using assms(4) by (simp add: unat_word_ariths)
  have gt: "weight > 2 * m \<longleftrightarrow> ?w > 2 * ?m" by (simp add: word_less_nat_alt m2)
  show ?thesis
  proof (cases "weight \<le> m \<or> ?w > 2 * ?m")
    case True
    moreover have "\<not> weight \<le> m" if "?w > 2 * ?m" using that by (simp add: word_le_nat_alt)
    ultimately show ?thesis
      by (auto simp: GetBlockReward_v2 [OF assms(2)] gt Let_def simp flip: assms(3))
  next
    case False
    let ?f = "2 * ?m - ?w"
    have f: "unat (2 * m - weight) = ?f" using False m2 by (simp add: unat_sub_if')
    have fm: "?f \<le> ?m" using False by (auto simp: word_le_nat_alt)
    have b: "?b < 2 ^ 64" and fl: "?f < 2 ^ 64" using unat_lt_64 [of ?base] fm assms(4) by auto
    have prod: "?b * ?f < 2 ^ 128"
      using mult_strict_mono [OF b fl] by simp
    have q: "?b * ?f div ?m \<le> ?b"
      using div_le_mono [OF mult_le_mono2 [OF fm, of ?b], of ?m] m by simp
    then have q': "?b * ?f div ?m div ?m \<le> ?b div ?m" by (rule div_le_mono)
    have bm: "?b div ?m < 2 ^ 64" using b by (meson div_le_dividend le_less_trans)
    have small: "?b * ?f div ?m < 2 ^ 128" using prod by (meson div_le_dividend le_less_trans)
    have "GetBlockReward U medianWeight weight coins version = Inr (of_nat (?b * ?f div ?m div ?m))"
      using False prod small assms(1) m0
      by (auto simp: GetBlockReward_v2 [OF assms(2)] gt Let_def f uint128_okD val_of_val simp flip: assms(3))
    moreover have "unat (of_nat (?b * ?f div ?m div ?m) :: u64) = ?b * ?f div ?m div ?m"
      using q' bm by (intro unat_of_nat_small) simp
    ultimately show ?thesis using False q' by auto
  qed
qed

section \<open>RandomX seeds\<close>

definition SeedHashEpochLag :: u64 where "SeedHashEpochLag = 64"
definition SeedHashEpochBlocks :: u64 where "SeedHashEpochBlocks = 2048"

definition SeedHeight :: "u64 \<Rightarrow> u64" where
  "SeedHeight height =
    (if height \<le> SeedHashEpochBlocks + SeedHashEpochLag then 0
     else (height - SeedHashEpochLag - 1) AND NOT (SeedHashEpochBlocks - 1))"

definition SeedHeights :: "u64 \<Rightarrow> u64 \<times> u64" where
  "SeedHeights height = (SeedHeight height, SeedHeight (height + SeedHashEpochLag))"

lemma SeedHeight_nat:
  "unat (SeedHeight h) = (if unat h \<le> 2112 then 0 else (unat h - 65) div 2048 * 2048)"
proof (cases "unat h \<le> 2112")
  case True
  then show ?thesis by (simp add: SeedHeight_def SeedHashEpochBlocks_def SeedHashEpochLag_def word_le_nat_alt)
next
  case False
  have mask: "(2047 :: u64) = mask 11" by (simp add: mask_eq_exp_minus_1)
  let ?x = "h - 64 - 1"
  have x: "unat ?x = unat h - 65" "unat (h - 65) = unat h - 65" using False by (simp_all add: unat_sub_if')
  have "?x AND NOT 2047 = push_bit 11 (drop_bit 11 ?x)"
    unfolding mask by (rule bit_word_eqI) (auto simp: bit_simps)
  also have "unat \<dots> = (unat h - 65) div 2048 * 2048"
  proof -
    have d: "unat (drop_bit 11 ?x) = (unat h - 65) div 2048" by (subst unat_drop_bit_div) (simp add: x)
    have "(unat h - 65) div 2048 * 2048 < 2 ^ 64"       using unat_lt_64 [of h] div_times_less_eq_dividend [of "unat h - 65" 2048] by simp
    then show ?thesis by (simp only: push_bit_eq_mult unat_word_ariths d) simp
  qed
  finally show ?thesis using False
    by (simp add: SeedHeight_def SeedHashEpochBlocks_def SeedHashEpochLag_def word_le_nat_alt)
qed

text \<open>RandomX seed heights.  The seed of a block comes from a multiple of 2048 that lies at least
  65 and, past the first epoch, less than 2113 blocks below it, and seed heights never decrease.\<close>

lemma SeedHeight_correct:
  "unat (SeedHeight h) mod 2048 = 0 \<and>
   (2112 < unat h \<longrightarrow> unat (SeedHeight h) + 65 \<le> unat h \<and> unat h < unat (SeedHeight h) + 2113) \<and>
   (h \<le> h' \<longrightarrow> SeedHeight h \<le> SeedHeight h')"
proof (intro conjI impI)
  show "unat (SeedHeight h) mod 2048 = 0" by (simp add: SeedHeight_nat)
next
  assume "2112 < unat h"
  then show "unat (SeedHeight h) + 65 \<le> unat h" "unat h < unat (SeedHeight h) + 2113"
    using div_mult_mod_eq [of "unat h - 65" 2048] mod_less_divisor [of 2048 "unat h - 65"]
    by (simp_all add: SeedHeight_nat)
next
  assume "h \<le> h'"
  then have "unat h - 65 \<le> unat h' - 65" "unat h \<le> unat h'" by (simp_all add: word_le_nat_alt diff_le_mono)
  then show "SeedHeight h \<le> SeedHeight h'"
    by (auto simp: word_le_nat_alt SeedHeight_nat intro: mult_right_mono div_le_mono)
qed

end
