(* ===== verification/Consensus.thy ===== *)
theory Consensus
  imports MainBlock
begin

text \<open>
  p2pool/sidechain/consensus.go and hardfork.go: the parameters of a side chain, their
  verification, the uncle penalty, and the versions in force at a main-chain height and at a
  share's timestamp.  \<^verbatim>\<open>randomx.ConsensusHash\<close> rests on the RandomX cache and is the parameter \<open>CH\<close>.
\<close>

type_synonym ShareVersion = byte

definition ShareVersion_None :: ShareVersion where "ShareVersion_None = 0"
definition ShareVersion_V1 :: ShareVersion where "ShareVersion_V1 = 1"
definition ShareVersion_V2 :: ShareVersion where "ShareVersion_V2 = 2"

lemmas version_consts = ShareVersion_None_def ShareVersion_V1_def ShareVersion_V2_def

datatype NetworkType = NetworkInvalid | NetworkMainnet | NetworkTestnet | NetworkStagenet

definition ascii :: "string \<Rightarrow> byte list" where
  "ascii s = map of_char s"

fun NetworkType_String :: "NetworkType \<Rightarrow> string" where
  "NetworkType_String NetworkInvalid = ''invalid''"
| "NetworkType_String NetworkMainnet = ''mainnet''"
| "NetworkType_String NetworkTestnet = ''testnet''"
| "NetworkType_String NetworkStagenet = ''stagenet''"

text \<open>\<^verbatim>\<open>UnmarshalJSON\<close> on the decoded string.\<close>

definition NetworkType_FromString :: "string \<Rightarrow> NetworkType result" where
  "NetworkType_FromString s =
    (if s = ''invalid'' then Inr NetworkInvalid
     else if s = [] \<or> s = ''mainnet'' then Inr NetworkMainnet
     else if s = ''testnet'' then Inr NetworkTestnet
     else if s = ''stagenet'' then Inr NetworkStagenet
     else Inl (Err ''unknown network type''))"

lemma NetworkType_round_trip: "NetworkType_FromString (NetworkType_String n) = Inr n"
  by (cases n) (simp_all add: NetworkType_FromString_def)

section \<open>Hard forks\<close>

datatype HardFork = HardFork (f_Version: byte) (f_Height: u64) (f_Threshold: byte) (f_Time: u64)

definition mainNetHardForks :: "HardFork list" where
  "mainNetHardForks =
    [HardFork 1 1 0 1341378000,
     HardFork 2 1009827 0 1442763710,
     HardFork 3 1141317 0 1458558528,
     HardFork 4 1220516 0 1483574400,
     HardFork 5 1288616 0 1489520158,
     HardFork 6 1400000 0 1503046577,
     HardFork 7 1546000 0 1521303150,
     HardFork 8 1685555 0 1535889547,
     HardFork 9 1686275 0 1535889548,
     HardFork 10 1788000 0 1549792439,
     HardFork 11 1788720 0 1550225678,
     HardFork 12 1978433 0 1571419280,
     HardFork 13 2210000 0 1598180817,
     HardFork 14 2210720 0 1598180818,
     HardFork 15 2688888 0 1656629117,
     HardFork 16 2689608 0 1656629118]"

definition testNetHardForks :: "HardFork list" where
  "testNetHardForks =
    [HardFork 1 1 0 1341378000,
     HardFork 2 624634 0 1445355000,
     HardFork 3 800500 0 1472415034,
     HardFork 4 801219 0 1472415035,
     HardFork 5 802660 0 1487967036,
     HardFork 6 971400 0 1501709789,
     HardFork 7 1057027 0 1512211236,
     HardFork 8 1057058 0 1533211200,
     HardFork 9 1057778 0 1533297600,
     HardFork 10 1154318 0 1550153694,
     HardFork 11 1155038 0 1550225678,
     HardFork 12 1308737 0 1569582000,
     HardFork 13 1543939 0 1599069376,
     HardFork 14 1544659 0 1599069377,
     HardFork 15 1982800 0 1652727000,
     HardFork 16 1983520 0 1652813400]"

definition stageNetHardForks :: "HardFork list" where
  "stageNetHardForks =
    [HardFork 1 1 0 1341378000,
     HardFork 2 32000 0 1521000000,
     HardFork 3 33000 0 1521120000,
     HardFork 4 34000 0 1521240000,
     HardFork 5 35000 0 1521360000,
     HardFork 6 36000 0 1521480000,
     HardFork 7 37000 0 1521600000,
     HardFork 8 176456 0 1537821770,
     HardFork 9 177176 0 1537821771,
     HardFork 10 269000 0 1550153694,
     HardFork 11 269720 0 1550225678,
     HardFork 12 454721 0 1571419280,
     HardFork 13 675405 0 1598180817,
     HardFork 14 676125 0 1598180818,
     HardFork 15 1151000 0 1656629117,
     HardFork 16 1151720 0 1656629118]"

definition p2poolMainNetHardForks :: "HardFork list" where
  "p2poolMainNetHardForks = [HardFork ShareVersion_V1 0 0 0, HardFork ShareVersion_V2 0 0 1679173200]"

definition p2poolTestNetHardForks :: "HardFork list" where
  "p2poolTestNetHardForks = [HardFork ShareVersion_V1 0 0 0, HardFork ShareVersion_V2 0 0 1674507600]"

definition p2poolStageNetHardForks :: "HardFork list" where
  "p2poolStageNetHardForks = [HardFork (f_Version (last p2poolMainNetHardForks)) 0 0 0]"

record Consensus =
  n_NetworkType :: NetworkType
  n_PoolName :: "byte list"
  n_PoolPassword :: "byte list"
  n_TargetBlockTime :: u64
  n_MinimumDifficulty :: u64
  n_ChainWindowSize :: u64
  n_UnclePenalty :: u64
  n_HardForks :: "HardFork list"
  n_Id :: hash

definition NetworkHardFork :: "Consensus \<Rightarrow> HardFork list result" where
  "NetworkHardFork c =
    (case n_NetworkType c of
       NetworkMainnet \<Rightarrow> Inr mainNetHardForks
     | NetworkTestnet \<Rightarrow> Inr testNetHardForks
     | NetworkStagenet \<Rightarrow> Inr stageNetHardForks
     | NetworkInvalid \<Rightarrow> Inl (Panic ''invalid network type for determining share version''))"

text \<open>The loop both lookups share: it stops at the first fork not reached yet.\<close>

fun forkLoop :: "(HardFork \<Rightarrow> u64) \<Rightarrow> u64 \<Rightarrow> byte \<Rightarrow> HardFork list \<Rightarrow> byte" where
  "forkLoop key x result [] = result"
| "forkLoop key x result (f # fs) = (if x < key f then result else forkLoop key x (f_Version f) fs)"

definition NetworkMajorVersion :: "Consensus \<Rightarrow> u64 \<Rightarrow> byte result" where
  "NetworkMajorVersion c height =
    bindR (NetworkHardFork c) (\<lambda>hardForks.
      case hardForks of [] \<Rightarrow> Inr 0 | f # fs \<Rightarrow> Inr (forkLoop f_Height height (f_Version f) fs))"

definition P2PoolShareVersion :: "Consensus \<Rightarrow> u64 \<Rightarrow> ShareVersion" where
  "P2PoolShareVersion c timestamp =
    (case n_HardForks c of [] \<Rightarrow> ShareVersion_None | f # fs \<Rightarrow> forkLoop f_Time timestamp (f_Version f) fs)"

text \<open>A fork table with increasing positions and versions.\<close>

definition forks_ok :: "(HardFork \<Rightarrow> u64) \<Rightarrow> HardFork list \<Rightarrow> bool" where
  "forks_ok key fs \<longleftrightarrow> fs \<noteq> [] \<and> sorted (map key fs) \<and> sorted_wrt (<) (map f_Version fs)"

lemma forkLoop_bounds:
  assumes "sorted (map key fs)" "sorted_wrt (<) (v # map f_Version fs)"
  shows "v \<le> forkLoop key x v fs" "\<forall>f \<in> set fs. key f \<le> x \<longrightarrow> f_Version f \<le> forkLoop key x v fs"
    "forkLoop key x v fs = v \<or> (\<exists>f \<in> set fs. key f \<le> x \<and> f_Version f = forkLoop key x v fs)"
  using assms
proof (induction fs arbitrary: v)
  case (Cons f fs)
  {
    case 1 then show ?case using Cons.IH(1) [of "f_Version f"] by (auto dest: order.strict_implies_order)
  next
    case 2
    then have *: "f_Version f \<le> forkLoop key x (f_Version f) fs"
      "\<forall>g \<in> set fs. key g \<le> x \<longrightarrow> f_Version g \<le> forkLoop key x (f_Version f) fs"
      using Cons.IH(1,2) [of "f_Version f"] by auto
    show ?case
    proof (cases "x < key f")
      case True
      then have "\<forall>g \<in> set (f # fs). \<not> key g \<le> x" using 2(1) by auto
      then show ?thesis by auto
    qed (use * in auto)
  next
    case 3 then show ?case using Cons.IH(3) [of "f_Version f"] by (auto simp: not_less)
  }
qed auto

lemma forkLoop_mono:
  assumes "sorted (map key fs)" "sorted_wrt (<) (v # map f_Version fs)" "x \<le> y"
  shows "forkLoop key x v fs \<le> forkLoop key y v fs"
proof -
  from forkLoop_bounds(3) [OF assms(1,2), of x] show ?thesis
  proof
    assume "forkLoop key x v fs = v"
    then show ?thesis using forkLoop_bounds(1) [OF assms(1,2), of y] by simp
  next
    assume "\<exists>f \<in> set fs. key f \<le> x \<and> f_Version f = forkLoop key x v fs"
    then obtain f where "f \<in> set fs" "key f \<le> y" "f_Version f = forkLoop key x v fs"
      using assms(3) order.trans by blast
    then show ?thesis using forkLoop_bounds(2) [OF assms(1,2), of y] by metis
  qed
qed

lemma tables_ok:
  "forks_ok f_Height mainNetHardForks" "forks_ok f_Height testNetHardForks" "forks_ok f_Height stageNetHardForks"
  "forks_ok f_Time p2poolMainNetHardForks" "forks_ok f_Time p2poolTestNetHardForks" "forks_ok f_Time p2poolStageNetHardForks"
  by (simp_all add: forks_ok_def mainNetHardForks_def testNetHardForks_def stageNetHardForks_def
      p2poolMainNetHardForks_def p2poolTestNetHardForks_def p2poolStageNetHardForks_def version_consts)

text \<open>Versions.  On a valid network the major version at a height is defined; it is at least
  the version of every fork reached, is that of a fork in the table, at most the supported 16,
  and never decreases with the height.\<close>

lemma NetworkMajorVersion_correct:
  assumes "NetworkHardFork c = Inr forks"
  shows "\<exists>v. NetworkMajorVersion c height = Inr v \<and> v \<in> f_Version ` set forks \<and>
    (\<forall>f \<in> set (tl forks). f_Height f \<le> height \<longrightarrow> f_Version f \<le> v) \<and> v \<le> HardForkSupportedVersion \<and>
    (\<forall>height' v'. height \<le> height' \<longrightarrow> NetworkMajorVersion c height' = Inr v' \<longrightarrow> v \<le> v')"
proof -
  have tab: "forks \<in> {mainNetHardForks, testNetHardForks, stageNetHardForks}"
    using assms by (auto simp: NetworkHardFork_def split: NetworkType.splits)
  then have "forks_ok f_Height forks" using tables_ok by auto
  then obtain f fs where fs: "forks = f # fs" "sorted (map f_Height fs)" "sorted_wrt (<) (f_Version f # map f_Version fs)"
    by (cases forks) (auto simp: forks_ok_def)
  have max: "\<forall>g \<in> set forks. f_Version g \<le> HardForkSupportedVersion"
    using tab by (auto simp: mainNetHardForks_def testNetHardForks_def stageNetHardForks_def HardForkSupportedVersion_def)
  let ?v = "\<lambda>h. forkLoop f_Height h (f_Version f) fs"
  have "NetworkMajorVersion c h = Inr (?v h)" for h using assms fs by (simp add: NetworkMajorVersion_def)
  moreover have "?v height \<in> f_Version ` set forks"
    using forkLoop_bounds(3) [OF fs(2,3), of height] fs(1) by (metis image_eqI list.set_intros)
  moreover have "\<forall>g \<in> set (tl forks). f_Height g \<le> height \<longrightarrow> f_Version g \<le> ?v height"
    using forkLoop_bounds(2) [OF fs(2,3), of height] fs(1) by simp
  ultimately show ?thesis using max forkLoop_mono [OF fs(2,3)] by auto
qed

section \<open>Parameters\<close>

definition UncleBlockDepth :: u64 where "UncleBlockDepth = 3"
definition BlockTime :: u64 where "BlockTime = 60 * 2"
definition SmallestMinimumDifficulty :: u64 where "SmallestMinimumDifficulty = 100000"
definition LargestMinimumDifficulty :: u64 where "LargestMinimumDifficulty = 1000000000"

lemmas consensus_consts = UncleBlockDepth_def BlockTime_def SmallestMinimumDifficulty_def LargestMinimumDifficulty_def

definition ConsensusDefault :: Consensus where
  "ConsensusDefault = \<lparr>n_NetworkType = NetworkMainnet, n_PoolName = ascii ''mainnet test 2'', n_PoolPassword = [],
     n_TargetBlockTime = 10, n_MinimumDifficulty = 100000, n_ChainWindowSize = 2160, n_UnclePenalty = 20,
     n_HardForks = p2poolMainNetHardForks,
     n_Id = le_word [34, 175, 126, 231, 181, 11, 104, 146, 227, 153, 218, 107, 44, 108, 68, 39, 178, 81, 4, 212,
       169, 4, 142, 0, 177, 110, 157, 240, 68, 7, 249, 24]\<rparr>"

definition ConsensusMini :: Consensus where
  "ConsensusMini = \<lparr>n_NetworkType = NetworkMainnet, n_PoolName = ascii ''mini'', n_PoolPassword = [],
     n_TargetBlockTime = 10, n_MinimumDifficulty = 100000, n_ChainWindowSize = 2160, n_UnclePenalty = 20,
     n_HardForks = p2poolMainNetHardForks,
     n_Id = le_word [57, 130, 201, 26, 149, 174, 199, 250, 66, 80, 189, 18, 108, 216, 194, 220, 136, 23, 63, 24,
       64, 113, 221, 44, 219, 86, 39, 163, 53, 24, 126, 196]\<rparr>"

definition IsDefault :: "Consensus \<Rightarrow> bool" where
  "IsDefault c \<longleftrightarrow> n_Id c = n_Id ConsensusDefault"

definition IsMini :: "Consensus \<Rightarrow> bool" where
  "IsMini c \<longleftrightarrow> n_Id c = n_Id ConsensusMini"

definition DefaultPort :: "Consensus \<Rightarrow> 16 word" where
  "DefaultPort c = (if IsMini c then 37888 else 37889)"

definition SeedNode :: "Consensus \<Rightarrow> string" where
  "SeedNode c = (if IsMini c then ''seeds-mini.p2pool.io'' else if IsDefault c then ''seeds.p2pool.io'' else [])"

definition Consensus_CalculateId :: "(byte list \<Rightarrow> hash) \<Rightarrow> Consensus \<Rightarrow> hash" where
  "Consensus_CalculateId CH c =
    CH (ascii (NetworkType_String (n_NetworkType c)) @ [0] @ n_PoolName c @ [0] @ n_PoolPassword c @ [0] @
        FormatUint (n_TargetBlockTime c) @ [0] @ FormatUint (n_MinimumDifficulty c) @ [0] @
        FormatUint (n_ChainWindowSize c) @ [0] @ FormatUint (n_UnclePenalty c) @ [0])"

text \<open>\<^verbatim>\<open>verify\<close> normalises the pool name, fills the id and the hard forks; the receiver after it is returned
  with its answer.\<close>

definition verify :: "(byte list \<Rightarrow> hash) \<Rightarrow> Consensus \<Rightarrow> (bool \<times> Consensus) result" where
  "verify CH c =
    (let c = (if n_PoolName c = ascii ''default'' then c\<lparr>n_PoolName := n_PoolName ConsensusDefault\<rparr> else c) in
     if length (n_PoolName c) > 128 then Inr (False, c)
     else if length (n_PoolPassword c) > 128 then Inr (False, c)
     else if n_TargetBlockTime c < 1 \<or> n_TargetBlockTime c > BlockTime then Inr (False, c)
     else if n_NetworkType c = NetworkMainnet \<and> n_MinimumDifficulty c < SmallestMinimumDifficulty \<or>
             n_MinimumDifficulty c > LargestMinimumDifficulty then Inr (False, c)
     else if n_ChainWindowSize c < 60 \<or> n_ChainWindowSize c > 2160 then Inr (False, c)
     else if n_UnclePenalty c < 1 \<or> n_UnclePenalty c > 99 then Inr (False, c)
     else let c = c\<lparr>n_Id := Consensus_CalculateId CH c\<rparr> in
     if n_Id c = 0 then Inr (False, c)
     else if n_HardForks c = [] then
       (case n_NetworkType c of
          NetworkMainnet \<Rightarrow> Inr (True, c\<lparr>n_HardForks := p2poolMainNetHardForks\<rparr>)
        | NetworkTestnet \<Rightarrow> Inr (True, c\<lparr>n_HardForks := p2poolTestNetHardForks\<rparr>)
        | NetworkStagenet \<Rightarrow> Inr (True, c\<lparr>n_HardForks := p2poolStageNetHardForks\<rparr>)
        | NetworkInvalid \<Rightarrow> Inl (Panic ''invalid network type for determining hardfork''))
     else Inr (True, c))"

definition NewConsensus ::
  "(byte list \<Rightarrow> hash) \<Rightarrow> NetworkType \<Rightarrow> byte list \<Rightarrow> byte list \<Rightarrow> u64 \<Rightarrow> u64 \<Rightarrow> u64 \<Rightarrow> u64 \<Rightarrow> Consensus option result" where
  "NewConsensus CH networkType poolName poolPassword targetBlockTime minimumDifficulty chainWindowSize unclePenalty =
    bindR (verify CH \<lparr>n_NetworkType = networkType, n_PoolName = poolName, n_PoolPassword = poolPassword,
       n_TargetBlockTime = targetBlockTime, n_MinimumDifficulty = minimumDifficulty,
       n_ChainWindowSize = chainWindowSize, n_UnclePenalty = unclePenalty, n_HardForks = [], n_Id = 0\<rparr>)
     (\<lambda>(ok, c). Inr (if ok then Some c else None))"

text \<open>The bounds the rest of the side chain relies on.\<close>

definition consensus_ok :: "Consensus \<Rightarrow> bool" where
  "consensus_ok c \<longleftrightarrow> length (n_PoolName c) \<le> 128 \<and> length (n_PoolPassword c) \<le> 128 \<and>
     1 \<le> n_TargetBlockTime c \<and> n_TargetBlockTime c \<le> 120 \<and>
     (n_NetworkType c = NetworkMainnet \<longrightarrow> 100000 \<le> n_MinimumDifficulty c) \<and> n_MinimumDifficulty c \<le> 1000000000 \<and>
     60 \<le> n_ChainWindowSize c \<and> n_ChainWindowSize c \<le> 2160 \<and> 1 \<le> n_UnclePenalty c \<and> n_UnclePenalty c \<le> 99 \<and>
     n_Id c \<noteq> 0 \<and> n_HardForks c \<noteq> []"

lemma p2pool_forks_not_Nil [simp]:
  "p2poolMainNetHardForks \<noteq> []" "p2poolTestNetHardForks \<noteq> []" "p2poolStageNetHardForks \<noteq> []"
  by (simp_all add: p2poolMainNetHardForks_def p2poolTestNetHardForks_def p2poolStageNetHardForks_def)

lemma verify_ok:
  assumes "verify CH c = Inr (True, c')"
  shows "consensus_ok c' \<and> n_Id c' = Consensus_CalculateId CH c'"
proof -
  define c1 where "c1 = (if n_PoolName c = ascii ''default'' then c\<lparr>n_PoolName := n_PoolName ConsensusDefault\<rparr> else c)"
  have id: "Consensus_CalculateId CH (c1\<lparr>n_Id := h\<rparr>) = Consensus_CalculateId CH c1"
    "Consensus_CalculateId CH (c1\<lparr>n_Id := h, n_HardForks := fs\<rparr>) = Consensus_CalculateId CH c1" for h fs
    by (simp_all add: Consensus_CalculateId_def)
  from assms [unfolded verify_def Let_def, folded c1_def] show ?thesis
    by (simp split: if_split_asm NetworkType.split_asm)
      (auto simp: consensus_ok_def not_less consensus_consts id one_le_u64_iff)
qed

text \<open>\<^verbatim>\<open>ApplyUnclePenalty\<close>: \<open>UnclePenalty\<close> percent of an uncle's weight goes to the block that includes it.\<close>

definition ApplyUnclePenalty :: "uint128_pkg \<Rightarrow> Consensus \<Rightarrow> Difficulty \<Rightarrow> (Difficulty \<times> Difficulty) result" where
  "ApplyUnclePenalty U c weight =
    bindR (Div64 U (MulBy64 weight (n_UnclePenalty c)) 100) (\<lambda>unclePenalty.
      Inr (Sub U weight unclePenalty, unclePenalty))"

lemma ApplyUnclePenalty_split:
  assumes "uint128_ok U" "n_UnclePenalty c \<le> 99"
  obtains uncle pen where "ApplyUnclePenalty U c w = Inr (uncle, pen)" "val uncle + val pen = val w"
    "val pen = (val w * unat (n_UnclePenalty c) mod 2 ^ 128) div 100"
proof -
  let ?p = "unat (n_UnclePenalty c)" and ?x = "val w * unat (n_UnclePenalty c) mod 2 ^ 128"
  let ?pen = "of_val (?x div 100)"
  have p: "?p \<le> 99" using assms(2) by (simp add: word_le_nat_alt)
  have "?x < 2 ^ 128" by simp
  then have pen: "val ?pen = ?x div 100" by (simp add: val_of_val)
  have "?x div 100 \<le> val w * ?p div 100" by (intro div_le_mono) simp
  also have "\<dots> \<le> val w * 100 div 100" using p by (intro div_le_mono mult_le_mono2) simp
  finally have le: "?x div 100 \<le> val w" by simp
  have "ApplyUnclePenalty U c w = Inr (Sub U w ?pen, ?pen)"
    using assms(1) by (simp add: ApplyUnclePenalty_def Div64_def uint128_okD val_MulBy64)
  moreover have "val (Sub U w ?pen) = val w - ?x div 100"
    using val_Sub [OF assms(1), of ?pen w] le pen by simp
  ultimately show thesis using that [of "Sub U w ?pen" ?pen] le pen by simp
qed

text \<open>Consensus parameters.  Parameters that \<^verbatim>\<open>verify\<close> accepts satisfy the documented bounds, carry
  the id computed from them and a hard fork table; and with such parameters \<^verbatim>\<open>ApplyUnclePenalty\<close>
  never panics, splits a weight exactly, and takes the configured percentage when the product
  fits 128 bits.\<close>

lemma verify_ApplyUnclePenalty:
  assumes "verify CH c0 = Inr (True, c)" and "uint128_ok U"
  shows "consensus_ok c \<and> n_Id c = Consensus_CalculateId CH c \<and>
    (\<exists>uncle pen. ApplyUnclePenalty U c w = Inr (uncle, pen) \<and> val uncle + val pen = val w \<and>
      (val w * unat (n_UnclePenalty c) < 2 ^ 128 \<longrightarrow> val pen = val w * unat (n_UnclePenalty c) div 100))"
proof -
  have "consensus_ok c \<and> n_Id c = Consensus_CalculateId CH c" using verify_ok [OF assms(1)] .
  moreover from this have "n_UnclePenalty c \<le> 99" by (simp add: consensus_ok_def)
  from ApplyUnclePenalty_split [OF assms(2) this, of w] obtain uncle pen where
    "ApplyUnclePenalty U c w = Inr (uncle, pen)" "val uncle + val pen = val w"
    "val pen = (val w * unat (n_UnclePenalty c) mod 2 ^ 128) div 100" by blast
  ultimately show ?thesis by auto
qed

end
