(* ===== verification/Shares.thy ===== *)
theory Shares
  imports Consensus "HOL-Library.Multiset" "HOL-Library.Product_Lexorder"
begin

text \<open>
  p2pool/sidechain/share.go, the address order of monero/address/packed.go and
  monero/crypto/crypto.go, and from p2pool/sidechain/utils.go the split of a reward over shares and
  their shuffling.  \<^verbatim>\<open>slices.SortFunc\<close> promises a sorted permutation and not which one; it is a
  parameter with that contract (locale \<open>sorter\<close>), and the result of \<^verbatim>\<open>Compact\<close> does not depend on it.
\<close>

section \<open>Addresses\<close>

type_synonym PackedAddress = "hash \<times> hash"

text \<open>The same comparison as \<^verbatim>\<open>Hash.Compare\<close>, written a second time in monero/crypto.\<close>

definition CompareConsensusPublicKeyBytes :: "hash \<Rightarrow> hash \<Rightarrow> int" where
  "CompareConsensusPublicKeyBytes a b =
    (if limb a 3 < limb b 3 then - 1
     else if limb a 3 > limb b 3 then 1
     else if limb a 2 < limb b 2 then - 1
     else if limb a 2 > limb b 2 then 1
     else if limb a 1 < limb b 1 then - 1
     else if limb a 1 > limb b 1 then 1
     else if limb a 0 < limb b 0 then - 1
     else if limb a 0 > limb b 0 then 1
     else 0)"

lemma CompareConsensus_eq: "CompareConsensusPublicKeyBytes a b = Compare a b"
  by (simp only: CompareConsensusPublicKeyBytes_def Compare_def)

definition ComparePacked :: "PackedAddress \<Rightarrow> PackedAddress \<Rightarrow> int" where
  "ComparePacked p other =
    (let resultSpendKey = CompareConsensusPublicKeyBytes (fst p) (fst other) in
     if resultSpendKey \<noteq> 0 then resultSpendKey
     else CompareConsensusPublicKeyBytes (snd p) (snd other))"

lemma ComparePacked_spec: "ComparePacked p q = (if p < q then - 1 else if p = q then 0 else 1)"
  by (cases p; cases q) (auto simp: ComparePacked_def CompareConsensus_eq Compare_spec Let_def)

section \<open>Shares\<close>

record Share =
  s_Address :: PackedAddress
  s_Weight :: Difficulty

text \<open>The comparison of \<^verbatim>\<open>Sort\<close>: the last byte of the spend keys first, as a fast test.\<close>

definition share_cmp :: "Share \<Rightarrow> Share \<Rightarrow> int" where
  "share_cmp a b =
    (let diff = int (unat (le_bytes 32 (fst (s_Address a)) ! 31)) - int (unat (le_bytes 32 (fst (s_Address b)) ! 31)) in
     if diff \<noteq> 0 then diff
     else if s_Address a = s_Address b then 0
     else ComparePacked (s_Address a) (s_Address b))"

definition Shares_Index :: "Share list \<Rightarrow> PackedAddress \<Rightarrow> int" where
  "Shares_Index s addr =
    (case find (\<lambda>i. s_Address (s ! i) = addr) [0..<length s] of Some i \<Rightarrow> int i | None \<Rightarrow> - 1)"

definition Shares_Clone :: "Share list \<Rightarrow> Share list" where
  "Shares_Clone s = map (\<lambda>x. \<lparr>s_Address = s_Address x, s_Weight = s_Weight x\<rparr>) s"

lemma top_byte: "unat (le_bytes 32 (h :: hash) ! 31) = unat h div 2 ^ 248"
proof -
  have "unat h < 2 ^ 256" using unsigned_less [of h, where ?'a = nat] by simp
  then have "unat h div 2 ^ 248 < 2 ^ 8" by (simp add: less_mult_imp_div_less)
  moreover have "le_bytes 32 h ! 31 = ucast (drop_bit 248 h)" by (simp add: le_bytes_def)
  moreover have "unat (drop_bit 248 h) = unat h div 2 ^ 248" by (rule unat_drop_bit_div)
  ultimately show ?thesis by (simp only: unsigned_ucast_eq) (simp add: take_bit_nat_eq_self)
qed

lemma fst_less: "fst p < fst q \<Longrightarrow> p < (q :: PackedAddress)"
  by (cases p; cases q) simp

lemma div_less_imp: "unat a div n < unat b div n \<Longrightarrow> a < (b :: hash)"
  by (rule ccontr) (auto simp: not_less word_le_nat_alt dest: div_le_mono [where k = n])

lemma share_cmp_less_iff:
  "share_cmp a b < 0 \<longleftrightarrow> s_Address a < s_Address b" "share_cmp a b = 0 \<longleftrightarrow> s_Address a = s_Address b"
  "share_cmp a b \<le> 0 \<longleftrightarrow> s_Address a \<le> s_Address b"
proof -
  define ta tb where "ta = unat (fst (s_Address a)) div 2 ^ 248" and "tb = unat (fst (s_Address b)) div 2 ^ 248"
  have top: "ta < tb \<Longrightarrow> s_Address a < s_Address b" "tb < ta \<Longrightarrow> s_Address b < s_Address a"
    unfolding ta_def tb_def by (blast intro: fst_less div_less_imp)+
  have cmp: "share_cmp a b =
      (if int ta - int tb \<noteq> 0 then int ta - int tb
       else if s_Address a = s_Address b then 0 else ComparePacked (s_Address a) (s_Address b))"
    unfolding share_cmp_def top_byte Let_def ta_def tb_def by (rule refl)
  have sgn: "share_cmp a b < 0 \<and> s_Address a < s_Address b \<or>
      share_cmp a b = 0 \<and> s_Address a = s_Address b \<or> 0 < share_cmp a b \<and> s_Address b < s_Address a"
  proof (cases ta tb rule: linorder_cases)
    case equal
    then show ?thesis unfolding cmp ComparePacked_spec by (auto simp: not_less)
  qed (use top cmp in auto)
  then show "share_cmp a b < 0 \<longleftrightarrow> s_Address a < s_Address b" "share_cmp a b = 0 \<longleftrightarrow> s_Address a = s_Address b"
    "share_cmp a b \<le> 0 \<longleftrightarrow> s_Address a \<le> s_Address b"
    by (auto simp del: less_prod_simp less_eq_prod_simp)
qed

section \<open>Sorting\<close>

text \<open>What \<^verbatim>\<open>slices.SortFunc\<close> with a comparison promises.\<close>

locale sorter =
  fixes srt :: "'a list \<Rightarrow> 'a list" and cmp :: "'a \<Rightarrow> 'a \<Rightarrow> int"
  assumes mset_srt: "mset (srt xs) = mset xs"
    and sorted_srt: "sorted_wrt (\<lambda>a b. cmp a b \<le> 0) (srt xs)"
begin

lemma length_srt: "length (srt xs) = length xs"
  by (metis mset_srt size_mset)

lemma set_srt: "set (srt xs) = set xs"
  by (metis mset_srt set_mset_mset)

lemma srt_empty_iff: "srt xs = [] \<longleftrightarrow> xs = []"
  by (metis length_srt length_0_conv)

end

text \<open>Insertion sort, a sorter for both comparisons of the program that are total orders.\<close>

fun insert_cmp :: "('a \<Rightarrow> 'a \<Rightarrow> int) \<Rightarrow> 'a \<Rightarrow> 'a list \<Rightarrow> 'a list" where
  "insert_cmp cmp x [] = [x]"
| "insert_cmp cmp x (y # ys) = (if cmp x y \<le> 0 then x # y # ys else y # insert_cmp cmp x ys)"

definition sort_cmp :: "('a \<Rightarrow> 'a \<Rightarrow> int) \<Rightarrow> 'a list \<Rightarrow> 'a list" where
  "sort_cmp cmp xs = foldr (insert_cmp cmp) xs []"

lemma mset_insert_cmp [simp]: "mset (insert_cmp cmp x ys) = add_mset x (mset ys)"
  by (induction ys) auto

lemma mset_sort_cmp [simp]: "mset (sort_cmp cmp xs) = mset xs"
  by (induction xs) (auto simp: sort_cmp_def)

lemma set_insert_cmp [simp]: "set (insert_cmp cmp x ys) = insert x (set ys)"
  by (induction ys) auto

lemma sorted_insert_cmp:
  assumes total: "\<And>a b. cmp a b \<le> 0 \<or> cmp b a \<le> 0" and trans: "\<And>a b c. cmp a b \<le> 0 \<Longrightarrow> cmp b c \<le> 0 \<Longrightarrow> cmp a c \<le> 0"
  shows "sorted_wrt (\<lambda>a b. cmp a b \<le> 0) ys \<Longrightarrow> sorted_wrt (\<lambda>a b. cmp a b \<le> 0) (insert_cmp cmp x ys)"
proof (induction ys)
  case (Cons y ys)
  then show ?case using total [of x y] trans [of x y] by auto
qed simp

lemma sorted_sort_cmp:
  assumes "\<And>a b. cmp a b \<le> 0 \<or> cmp b a \<le> 0" "\<And>a b c. cmp a b \<le> 0 \<Longrightarrow> cmp b c \<le> 0 \<Longrightarrow> cmp a c \<le> 0"
  shows "sorted_wrt (\<lambda>a b. cmp a b \<le> 0) (sort_cmp cmp xs)"
proof (induction xs)
  case (Cons x xs)
  then show ?case using sorted_insert_cmp [of cmp "sort_cmp cmp xs" x] assms by (simp add: sort_cmp_def)
qed (simp add: sort_cmp_def)

interpretation share_sort: sorter "sort_cmp share_cmp" share_cmp
proof
  show "sorted_wrt (\<lambda>a b. share_cmp a b \<le> 0) (sort_cmp share_cmp xs)" for xs
    by (rule sorted_sort_cmp) (auto simp: share_cmp_less_iff)
qed simp

section \<open>Compaction\<close>

text \<open>The loop of \<^verbatim>\<open>Compact\<close> over the sorted array, in place: entries up to \<open>index\<close> are merged, entry \<open>i\<close> is
  next.\<close>

function compactLoop :: "Share list \<Rightarrow> nat \<Rightarrow> nat \<Rightarrow> Share list" where
  "compactLoop s index i =
    (if i < length s then
       if s_Address (s ! index) = s_Address (s ! i) then
         compactLoop (s[index := (s ! index)\<lparr>s_Weight := Add (s_Weight (s ! index)) (s_Weight (s ! i))\<rparr>]) index (i + 1)
       else
         compactLoop (s[index + 1 := (s ! (index + 1))\<lparr>s_Address := s_Address (s ! i), s_Weight := s_Weight (s ! i)\<rparr>])
           (index + 1) (i + 1)
     else take (index + 1) s)"
  by pat_completeness auto
termination
  by (relation "measure (\<lambda>(s, index, i). length s - i)") auto

declare compactLoop.simps [simp del]

definition Compact :: "(Share list \<Rightarrow> Share list) \<Rightarrow> Share list \<Rightarrow> Share list" where
  "Compact srt s = (if s = [] then s else compactLoop (srt s) 0 1)"

text \<open>Merging adjacent shares of one address, on lists.\<close>

fun merge_shares :: "Share list \<Rightarrow> Share list" where
  "merge_shares (a # b # s) =
    (if s_Address a = s_Address b then merge_shares (a\<lparr>s_Weight := Add (s_Weight a) (s_Weight b)\<rparr> # s)
     else a # merge_shares (b # s))"
| "merge_shares s = s"

lemma compactLoop_merge:
  "index < i \<Longrightarrow> i \<le> length s \<Longrightarrow>
    compactLoop s index i = take index s @ merge_shares (s ! index # drop i s)"
proof (induction s index i rule: compactLoop.induct)
  case (1 s index i)
  show ?case
  proof (cases "i < length s")
    case False
    then show ?thesis using "1.prems" by (simp add: compactLoop.simps [of s] take_Suc_conv_app_nth)
  next
    case True
    then have d: "drop i s = s ! i # drop (Suc i) s" by (simp add: Cons_nth_drop_Suc)
    show ?thesis
    proof (cases "s_Address (s ! index) = s_Address (s ! i)")
      case same: True
      then show ?thesis using "1.IH"(1) [OF True same] "1.prems" True d
        by (simp add: compactLoop.simps [of s])
    next
      case diff: False
      have eq: "(s ! Suc index)\<lparr>s_Address := s_Address (s ! i), s_Weight := s_Weight (s ! i)\<rparr> = s ! i" by simp
      have tk: "take (Suc index) (s[Suc index := x]) = take index s @ [s ! index]" for x
        using "1.prems" by (simp add: take_Suc_conv_app_nth)
      have "compactLoop s index i = compactLoop (s[Suc index := s ! i]) (Suc index) (Suc i)"
        using True diff by (subst compactLoop.simps) (simp add: eq)
      also have "\<dots> = take (Suc index) (s[Suc index := s ! i]) @ merge_shares (s ! i # drop (Suc i) s)"
        using "1.IH"(2) [OF True diff] "1.prems" True by (simp add: eq)
      finally show ?thesis using diff d tk by simp
    qed
  qed
qed

lemma Compact_eq_merge: "srt s \<noteq> [] \<Longrightarrow> s \<noteq> [] \<Longrightarrow> Compact srt s = merge_shares (srt s)"
  using compactLoop_merge [of 0 1 "srt s"] by (cases "srt s") (auto simp: Compact_def)

text \<open>The weight of an address in a list of shares, modulo \<open>2^128\<close> as difficulties add.\<close>

definition weight_of :: "PackedAddress \<Rightarrow> Share list \<Rightarrow> nat" where
  "weight_of addr s = (\<Sum>x\<leftarrow>s. if s_Address x = addr then val (s_Weight x) else 0) mod 2 ^ 128"

lemma weight_of_Cons:
  "weight_of addr (x # s) = ((if s_Address x = addr then val (s_Weight x) else 0) + weight_of addr s) mod 2 ^ 128"
  by (simp add: weight_of_def mod_simps)

lemma weight_of_merge: "weight_of addr (merge_shares s) = weight_of addr s"
proof (induction s rule: merge_shares.induct)
  case (1 a b s)
  then show ?case
    by (cases "s_Address a = s_Address b")
      (simp_all only: merge_shares.simps if_True if_False weight_of_Cons, auto simp: val_Add mod_simps add.assoc)
qed simp_all

lemma set_merge: "s_Address ` set (merge_shares s) = s_Address ` set s"
  by (induction s rule: merge_shares.induct) auto

lemma hd_merge: "s \<noteq> [] \<Longrightarrow> merge_shares s \<noteq> [] \<and> s_Address (hd (merge_shares s)) = s_Address (hd s)"
  by (induction s rule: merge_shares.induct) auto

lemma sorted_merge:
  "sorted_wrt (\<lambda>a b. s_Address a \<le> s_Address b) s \<Longrightarrow> sorted_wrt (\<lambda>a b. s_Address a < s_Address b) (merge_shares s)"
proof (induction s rule: merge_shares.induct)
  case (1 a b s)
  show ?case
  proof (cases "s_Address a = s_Address b")
    case False
    have ab: "s_Address a < s_Address b" and bs: "\<forall>x \<in> set s. s_Address b \<le> s_Address x"
      using 1(3) False by (simp_all add: less_le)
    have "\<forall>x \<in> set (b # s). s_Address a < s_Address x"
      using ab bs less_le_trans by auto
    then have "\<forall>y \<in> s_Address ` set (merge_shares (b # s)). s_Address a < y"
      unfolding set_merge by blast
    with False 1(2,3) show ?thesis by simp
  next
    case True
    then show ?thesis using 1(1) [OF True] 1(3) by simp
  qed
qed simp_all

lemma share_list_unique:
  assumes "sorted_wrt (\<lambda>a b. s_Address a < s_Address b) xs" "sorted_wrt (\<lambda>a b. s_Address a < s_Address b) ys"
    and "s_Address ` set xs = s_Address ` set ys" and "\<And>addr. weight_of addr xs = weight_of addr ys"
  shows "xs = ys"
proof -
  have w: "weight_of (s_Address x) zs = val (s_Weight x)"
    if "sorted_wrt (\<lambda>a b. s_Address a < s_Address b) zs" "x \<in> set zs" for x zs
    using that
  proof (induction zs)
    case (Cons z zs)
    have zero: "weight_of (s_Address z) zs = 0" if "\<forall>y \<in> set zs. s_Address z < s_Address y" for zs
      using that by (induction zs) (auto simp: weight_of_def)
    show ?case
    proof (cases "x = z")
      case True
      then show ?thesis using Cons.prems zero [of zs] val_lt [of "s_Weight z"] by (simp add: weight_of_Cons)
    next
      case False
      then have "s_Address z < s_Address x" using Cons.prems by auto
      then have "s_Address z \<noteq> s_Address x" by simp
      then show ?thesis using Cons False val_lt [of "s_Weight x"] by (simp add: weight_of_Cons)
    qed
  qed simp
  have "sorted_wrt (<) (map s_Address xs)" "sorted_wrt (<) (map s_Address ys)"
    using assms(1,2) by (simp_all add: sorted_wrt_map)
  then have "map s_Address xs = map s_Address ys"
    using assms(3) by (intro sorted_distinct_set_unique) (simp_all only: strict_sorted_iff set_map)
  then have len: "length xs = length ys" and addr: "\<And>i. i < length xs \<Longrightarrow> s_Address (xs ! i) = s_Address (ys ! i)"
    by (metis length_map) (metis \<open>map s_Address xs = map s_Address ys\<close> length_map nth_map)
  show ?thesis
  proof (rule nth_equalityI [OF len])
    fix i assume i: "i < length xs"
    then have "val (s_Weight (xs ! i)) = val (s_Weight (ys ! i))"
      using w [OF assms(1), of "xs ! i"] w [OF assms(2), of "ys ! i"] assms(4) addr len by (metis nth_mem)
    then show "xs ! i = ys ! i" using addr [OF i] by (simp add: val_inject)
  qed
qed

text \<open>A client of a sorter: compaction through it.\<close>

locale share_sorter = sorter srt share_cmp for srt :: "Share list \<Rightarrow> Share list"
begin

lemma sorted_addresses: "sorted_wrt (\<lambda>a b. s_Address a \<le> s_Address b) (srt s)"
  using sorted_srt [of s] by (simp only: share_cmp_less_iff)

lemma weight_of_srt: "weight_of addr (srt s) = weight_of addr s"
proof -
  have "sum_list (map f (srt s)) = sum_list (map f s)" for f :: "Share \<Rightarrow> nat"
    using sum_mset_sum_list [of "map f (srt s)"] sum_mset_sum_list [of "map f s"] by (simp add: mset_srt)
  then show ?thesis by (simp only: weight_of_def)
qed

lemma Compact_spec:
  shows "sorted_wrt (\<lambda>a b. s_Address a < s_Address b) (Compact srt s)"
    and "s_Address ` set (Compact srt s) = s_Address ` set s"
    and "weight_of addr (Compact srt s) = weight_of addr s"
proof -
  have eq: "Compact srt s = (if s = [] then [] else merge_shares (srt s))"
    using Compact_eq_merge [of srt s] srt_empty_iff [of s] by (auto simp: Compact_def)
  show "sorted_wrt (\<lambda>a b. s_Address a < s_Address b) (Compact srt s)"
    by (simp add: eq sorted_merge sorted_addresses)
  show "s_Address ` set (Compact srt s) = s_Address ` set s"
    by (simp add: eq set_merge set_srt)
  show "weight_of addr (Compact srt s) = weight_of addr s"
    by (simp add: eq weight_of_merge weight_of_srt)
qed

end

interpretation ins: share_sorter "sort_cmp share_cmp"
  by unfold_locales

text \<open>\<^verbatim>\<open>Shares.Compact\<close>, with any sorting function that returns a sorted permutation, gives each address
  once, in increasing consensus order, with the sum of its weights modulo \<open>2^128\<close>; so its result
  does not depend on the sorting algorithm, which \<^verbatim>\<open>slices.SortFunc\<close> leaves open.\<close>

lemma Compact_correct:
  assumes "share_sorter srt" and "share_sorter srt'"
  shows "sorted_wrt (\<lambda>a b. s_Address a < s_Address b) (Compact srt s) \<and>
    s_Address ` set (Compact srt s) = s_Address ` set s \<and>
    (\<forall>addr. weight_of addr (Compact srt s) = weight_of addr s) \<and>
    Compact srt s = Compact srt' s"
  using share_sorter.Compact_spec [OF assms(1)] share_sorter.Compact_spec [OF assms(2)]
    share_list_unique [of "Compact srt s" "Compact srt' s"]
  by simp

section \<open>Splitting a reward\<close>

fun sumWeights :: "Difficulty \<Rightarrow> Share list \<Rightarrow> Difficulty" where
  "sumWeights acc [] = acc"
| "sumWeights acc (x # s) = sumWeights (Add acc (s_Weight x)) s"

text \<open>The loop that hands out the differences of the rounded-down running totals.\<close>

fun splitLoop :: "uint128_pkg \<Rightarrow> u64 \<Rightarrow> Difficulty \<Rightarrow> Difficulty \<Rightarrow> u64 \<Rightarrow> Share list \<Rightarrow> u64 list result" where
  "splitLoop U reward totalWeight w rewardGiven [] = Inr []"
| "splitLoop U reward totalWeight w rewardGiven (x # s) =
    (let w = Add w (s_Weight x) in
     bindR (Div U (MulBy64 w reward) totalWeight) (\<lambda>nextValue.
     bindR (splitLoop U reward totalWeight w (Lo nextValue) s) (\<lambda>rewards.
       Inr ((Lo nextValue - rewardGiven) # rewards))))"

text \<open>\<^verbatim>\<open>SplitReward\<close>; \<open>None\<close> is a nil slice.\<close>

definition SplitReward :: "uint128_pkg \<Rightarrow> u64 \<Rightarrow> Share list \<Rightarrow> u64 list option result" where
  "SplitReward U reward shares =
    (let totalWeight = sumWeights ZeroDifficulty shares in
     if Equals64 U totalWeight 0 then Inr None
     else bindR (splitLoop U reward totalWeight ZeroDifficulty 0 shares) (\<lambda>rewards.
       if sum_list rewards \<noteq> reward then Inr None else Inr (Some rewards)))"

text \<open>The running totals, as numbers.\<close>

definition weights :: "Share list \<Rightarrow> nat list" where
  "weights s = map (\<lambda>x. val (s_Weight x)) s"

lemma val_sumWeights: "val (sumWeights acc s) = (val acc + sum_list (weights s)) mod 2 ^ 128"
  by (induction s arbitrary: acc) (use val_lt in \<open>auto simp: weights_def val_Add mod_simps add.assoc\<close>)

lemma splitLoop_spec:
  assumes "uint128_ok U" "val T = tot" "0 < tot"
    and "val w + sum_list (weights s) \<le> tot" "tot * unat reward < 2 ^ 128"
    and "given = of_nat (val w * unat reward div tot)"
  shows "\<exists>rs. splitLoop U reward T w given s = Inr rs \<and> length rs = length s \<and>
    (\<forall>i < length s. unat (rs ! i) =
      (val w + sum_list (take (i + 1) (weights s))) * unat reward div tot -
      (val w + sum_list (take i (weights s))) * unat reward div tot) \<and>
    sum_list (map unat rs) + val w * unat reward div tot =
      (val w + sum_list (weights s)) * unat reward div tot"
  using assms(4-)
proof (induction s arbitrary: w given)
  case (Cons x s)
  let ?R = "unat reward" and ?w' = "val w + val (s_Weight x)"
  have le: "?w' + sum_list (weights s) \<le> tot" using Cons.prems(1) by (simp add: weights_def)
  then have wt: "?w' \<le> tot" by simp
  have tot: "tot < 2 ^ 128" using assms(2) val_lt by metis
  have w': "val (Add w (s_Weight x)) = ?w'" using wt tot by (simp add: val_Add)
  have prod: "?w' * ?R < 2 ^ 128" using wt Cons.prems(2) by (meson le_less_trans mult_le_mono1)
  have q_le: "?w' * ?R div tot \<le> ?R"
    using div_le_mono [OF mult_le_mono1 [OF wt, of ?R], of tot] assms(3) by simp
  then have q: "?w' * ?R div tot < 2 ^ 64" using unat_lt_64 [of reward] by simp
  have mono: "val w * ?R div tot \<le> ?w' * ?R div tot" by (intro div_le_mono mult_le_mono1) simp
  let ?n = "of_nat (?w' * ?R div tot) :: u64"
  have div: "Div U (MulBy64 (Add w (s_Weight x)) reward) T = Inr (of_val (?w' * ?R div tot))"
    using assms(1-3) prod by (simp add: Div_def uint128_okD val_MulBy64 w')
  obtain rs where rs: "splitLoop U reward T (Add w (s_Weight x)) ?n s = Inr rs" "length rs = length s"
    "\<forall>i < length s. unat (rs ! i) =
      (?w' + sum_list (take (i + 1) (weights s))) * ?R div tot - (?w' + sum_list (take i (weights s))) * ?R div tot"
    "sum_list (map unat rs) + ?w' * ?R div tot = (?w' + sum_list (weights s)) * ?R div tot"
    using Cons.IH [of "Add w (s_Weight x)" ?n] le Cons.prems(2) by (auto simp: w')
  have first: "unat (?n - given) = ?w' * ?R div tot - val w * ?R div tot"
    using q mono Cons.prems(3) by (subst unat_sub) (simp_all add: word_le_nat_alt unat_of_nat)
  have "splitLoop U reward T w given (x # s) = Inr ((?n - given) # rs)"
    using div rs(1) by (simp add: Let_def)
  moreover have "\<forall>i < length (x # s). unat (((?n - given) # rs) ! i) =
      (val w + sum_list (take (i + 1) (weights (x # s)))) * ?R div tot -
      (val w + sum_list (take i (weights (x # s)))) * ?R div tot"
    using first rs(3) by (auto simp: nth_Cons weights_def add.assoc split: nat.splits)
  moreover have "sum_list (map unat ((?n - given) # rs)) + val w * ?R div tot =
      (val w + sum_list (weights (x # s))) * ?R div tot"
    using rs(4) first mono by (simp add: weights_def add.assoc)
  ultimately show ?case using rs(2) by auto
qed (simp add: weights_def)

lemma sum_list_words: "sum_list rs = (of_nat (sum_list (map unat rs)) :: u64)"
  by (induction rs) simp_all

lemma div_add_bounds: "(a + b) div t - a div t \<ge> b div t \<and> (a + b) div t - a div t \<le> b div t + (1 :: nat)"
proof (cases "t = 0")
  case False
  then have "a mod t < t" "b mod t < t" by simp_all
  then have "a mod t + b mod t < 2 * t" by linarith
  then have "(a mod t + b mod t) div t < 2" by (rule less_mult_imp_div_less)
  then show ?thesis unfolding div_add1_eq [of a b t] by simp
qed simp

lemma split_exact:
  assumes "uint128_ok U" and "0 < sum_list (weights s)" and "sum_list (weights s) < 2 ^ 128"
    and "sum_list (weights s) * unat reward < 2 ^ 128"
  shows "\<exists>rs. SplitReward U reward s = Inr (Some rs) \<and> length rs = length s \<and>
    sum_list (map unat rs) = unat reward \<and>
    (\<forall>i < length s.
      val (s_Weight (s ! i)) * unat reward div sum_list (weights s) \<le> unat (rs ! i) \<and>
      unat (rs ! i) \<le> val (s_Weight (s ! i)) * unat reward div sum_list (weights s) + 1)"
proof -
  let ?T = "sum_list (weights s)" and ?R = "unat reward"
  define tw where "tw = sumWeights ZeroDifficulty s"
  have tw: "val tw = ?T" using assms(3) by (simp add: tw_def val_sumWeights)
  obtain rs where rs: "splitLoop U reward tw ZeroDifficulty 0 s = Inr rs" "length rs = length s"
    "\<forall>i < length s. unat (rs ! i) =
      sum_list (take (i + 1) (weights s)) * ?R div ?T - sum_list (take i (weights s)) * ?R div ?T"
    "sum_list (map unat rs) = ?T * ?R div ?T"
    using splitLoop_spec [OF assms(1) tw assms(2), of ZeroDifficulty s reward 0] assms(4) by auto
  have sum: "sum_list (map unat rs) = ?R" using rs(4) assms(2) by simp
  then have "sum_list rs = reward" by (simp add: sum_list_words)
  moreover have "val tw \<noteq> 0" using tw assms(2) by linarith
  ultimately have "SplitReward U reward s = Inr (Some rs)"
    using rs(1) assms(1) unfolding SplitReward_def
    by (simp add: Equals64_def uint128_okD flip: tw_def)
  moreover have "val (s_Weight (s ! i)) * ?R div ?T \<le> unat (rs ! i) \<and>
      unat (rs ! i) \<le> val (s_Weight (s ! i)) * ?R div ?T + 1" if "i < length s" for i
  proof -
    have "sum_list (take (i + 1) (weights s)) = sum_list (take i (weights s)) + val (s_Weight (s ! i))"
      using that by (simp add: weights_def take_Suc_conv_app_nth)
    then show ?thesis
      using rs(3) that div_add_bounds [of "val (s_Weight (s ! i)) * ?R" ?T "sum_list (take i (weights s)) * ?R"]
      by (simp add: algebra_simps)
  qed
  ultimately show ?thesis using rs(2) sum by blast
qed

text \<open>C15: splitting the block reward.  When the total weight is positive and total weight times reward
  fits 128 bits, \<^verbatim>\<open>SplitReward\<close> succeeds with one reward per share; the rewards add up to exactly
  the block reward, and each is the proportional part of its share rounded down, or one more.\<close>

theorem SplitReward_exact:
  assumes "uint128_ok U" and "0 < sum_list (weights s)" and "sum_list (weights s) < 2 ^ 128"
    and "sum_list (weights s) * unat reward < 2 ^ 128"
  shows "\<exists>rs. SplitReward U reward s = Inr (Some rs) \<and> length rs = length s \<and>
    sum_list (map unat rs) = unat reward \<and>
    (\<forall>i < length s.
      val (s_Weight (s ! i)) * unat reward div sum_list (weights s) \<le> unat (rs ! i) \<and>
      unat (rs ! i) \<le> val (s_Weight (s ! i)) * unat reward div sum_list (weights s) + 1)"
  using assms by (rule split_exact)

theorem SplitReward_exact_witness:
  "\<exists>rs. SplitReward uint128_ref 600000000000
       [\<lparr>s_Address = (1, 2), s_Weight = Difficulty 5 0\<rparr>, \<lparr>s_Address = (3, 4), s_Weight = Difficulty 2 0\<rparr>] = Inr (Some rs) \<and>
     length rs = 2 \<and> sum_list (map unat rs) = 600000000000"
  using SplitReward_exact [OF uint128_ref_ok, of
      "[\<lparr>s_Address = (1, 2), s_Weight = Difficulty 5 0\<rparr>, \<lparr>s_Address = (3, 4), s_Weight = Difficulty 2 0\<rparr>]" 600000000000]
  by (auto simp: weights_def)

section \<open>Shuffling\<close>

text \<open>The swap sequence: \<open>i\<close> runs from 0 to \<open>n - 2\<close>, each swap partner comes from the high word of the
  product of the generator's state with the number of items left.\<close>

function shuffleLoop :: "nat \<Rightarrow> nat \<Rightarrow> u64 \<Rightarrow> (nat \<times> nat) list" where
  "shuffleLoop n i seed =
    (if i < n - 1 then
       (let seed = XorShift64Star seed; (k, _) = Mul64 seed (of_nat (n - i))
        in (i, unat (of_nat i + k)) # shuffleLoop n (i + 1) seed)
     else [])"
  by pat_completeness auto
termination
  by (relation "measure (\<lambda>(n, i, seed). n - i)") auto

declare shuffleLoop.simps [simp del]

definition ShuffleSequence :: "(byte list \<Rightarrow> hash) \<Rightarrow> ShareVersion \<Rightarrow> hash \<Rightarrow> nat \<Rightarrow> (nat \<times> nat) list" where
  "ShuffleSequence K shareVersion privateKeySeed items =
    (if shareVersion > ShareVersion_V1 \<and> items > 1 then
       (let seed = Hash_Uint64 (K (le_bytes 32 privateKeySeed));
            seed = (if seed = 0 then 1 else seed)
        in shuffleLoop items 0 seed)
     else [])"

definition swap :: "'a list \<Rightarrow> nat \<times> nat \<Rightarrow> 'a list result" where
  "swap xs = (\<lambda>(i, j).
    bindR (nth_go xs i) (\<lambda>a. bindR (nth_go xs j) (\<lambda>b. Inr (xs[i := b, j := a]))))"

fun swaps :: "'a list \<Rightarrow> (nat \<times> nat) list \<Rightarrow> 'a list result" where
  "swaps xs [] = Inr xs"
| "swaps xs (p # ps) = bindR (swap xs p) (\<lambda>ys. swaps ys ps)"

definition ShuffleShares :: "(byte list \<Rightarrow> hash) \<Rightarrow> 'a list \<Rightarrow> ShareVersion \<Rightarrow> hash \<Rightarrow> 'a list result" where
  "ShuffleShares K shares shareVersion privateKeySeed =
    swaps shares (ShuffleSequence K shareVersion privateKeySeed (length shares))"

lemma Mul64_high_less: "0 < unat m \<Longrightarrow> unat (fst (Mul64 x m)) < unat m"
proof -
  assume m: "0 < unat m"
  have "unat x * unat m < 2 ^ 64 * unat m" using unat_lt_64 [of x] m by (intro mult_strict_right_mono) simp_all
  then have lt: "unat x * unat m div 2 ^ 64 < unat m" by (simp add: less_mult_imp_div_less mult.commute)
  moreover have "unat (of_nat (unat x * unat m div 2 ^ 64) :: u64) = unat x * unat m div 2 ^ 64"
    using lt unat_lt_64 [of m] by (intro unat_of_nat_small) simp
  ultimately show ?thesis by (simp only: Mul64_def fst_conv)
qed

lemma shuffleLoop_range:
  "n < 2 ^ 63 \<Longrightarrow> (a, b) \<in> set (shuffleLoop n i seed) \<Longrightarrow> a \<le> b \<and> b < n"
proof (induction n i seed rule: shuffleLoop.induct)
  case (1 n i seed)
  show ?case
  proof (cases "i < n - 1")
    case True
    define s k where "s = XorShift64Star seed" and "k = fst (Mul64 s (of_nat (n - i)))"
    have m: "unat (of_nat (n - i) :: u64) = n - i" using 1(2) by (intro unat_of_nat_small) simp
    have "unat k < n - i" using Mul64_high_less [of "of_nat (n - i)" s] True unfolding k_def m by simp
    then have ik: "i + unat k < n" by arith
    have "unat (of_nat i :: u64) = i" using 1(2) True by (intro unat_of_nat_small) simp
    then have "unat (of_nat i + k) = i + unat k"
      using ik 1(2) unat_add_lem [of "of_nat i" k] by simp
    with ik have "i \<le> unat (of_nat i + k) \<and> unat (of_nat i + k) < n" by simp
    moreover have "shuffleLoop n i seed = (i, unat (of_nat i + k)) # shuffleLoop n (i + 1) s"
      unfolding s_def k_def using True by (subst shuffleLoop.simps) (simp add: Let_def split: prod.splits)
    ultimately show ?thesis
      using 1(1) [OF True s_def refl prod.collapse] 1(2,3) by auto
  qed (use 1 in \<open>simp add: shuffleLoop.simps [of n]\<close>)
qed

lemma swaps_perm:
  "\<forall>(i, j) \<in> set ps. i < length xs \<and> j < length xs \<Longrightarrow> \<exists>ys. swaps xs ps = Inr ys \<and> mset ys = mset xs"
proof (induction ps arbitrary: xs)
  case (Cons p ps)
  obtain i j where p: "p = (i, j)" by (cases p)
  then have ij: "i < length xs" "j < length xs" using Cons.prems by auto
  then have "swap xs p = Inr (xs[i := xs ! j, j := xs ! i])" by (simp add: swap_def p nth_go_def)
  moreover have "mset (xs[i := xs ! j, j := xs ! i]) = mset xs" using ij by (simp add: mset_swap)
  ultimately show ?case using Cons.IH [of "xs[i := xs ! j, j := xs ! i]"] Cons.prems by auto
qed simp

lemma shuffle_ok:
  assumes "length shares < 2 ^ 63"
  shows "\<exists>ys. ShuffleShares K shares version seed = Inr ys \<and> mset ys = mset shares \<and>
    (version \<le> ShareVersion_V1 \<or> length shares \<le> 1 \<longrightarrow> ys = shares) \<and>
    length (ShuffleSequence K version seed (length shares)) \<le> length shares"
proof -
  have len: "length (shuffleLoop n i s) = n - 1 - i" for n i s
  proof (induction n i s rule: shuffleLoop.induct)
    case (1 n i s)
    then show ?case by (subst shuffleLoop.simps) (auto simp: Let_def split: prod.splits)
  qed
  show ?thesis
  proof (cases "version > ShareVersion_V1 \<and> length shares > 1")
    case True
    then obtain s where s: "ShuffleSequence K version seed (length shares) = shuffleLoop (length shares) 0 s"
      by (simp add: ShuffleSequence_def Let_def)
    have "i < length shares \<and> j < length shares" if "(i, j) \<in> set (shuffleLoop (length shares) 0 s)" for i j
      using shuffleLoop_range [OF assms that] by simp
    then obtain ys where "swaps shares (shuffleLoop (length shares) 0 s) = Inr ys" "mset ys = mset shares"
      using swaps_perm [of "shuffleLoop (length shares) 0 s" shares] by blast
    with True s show ?thesis by (auto simp: ShuffleShares_def len)
  next
    case False
    then have "ShuffleSequence K version seed (length shares) = []"
      unfolding ShuffleSequence_def by (simp only: if_False)
    then show ?thesis by (simp add: ShuffleShares_def)
  qed
qed

text \<open>Shuffling.  Every swap of the sequence stays inside the list, so shuffling never panics and
  returns a permutation of the shares; share version 1 and lists of at most one share are left
  alone.\<close>

lemma ShuffleShares_permutation:
  assumes "length shares < 2 ^ 63"
  shows "\<exists>ys. ShuffleShares K shares version seed = Inr ys \<and> mset ys = mset shares \<and>
    (version \<le> ShareVersion_V1 \<or> length shares \<le> 1 \<longrightarrow> ys = shares) \<and>
    length (ShuffleSequence K version seed (length shares)) \<le> length shares"
  using assms by (rule shuffle_ok)

end
