(* ===== verification/Select.thy ===== *)
theory Select
  imports Prelude "HOL-Library.Multiset"
begin

text \<open>
  utils/nthelement.go: quickselect, in place.  The loop has no bound in the source, so it is a
  partial function; for an index of the slice it is shown to return.  \<^verbatim>\<open>NthElementSlice\<close> and
  \<^verbatim>\<open>NthElementSliceFunc\<close> are the same code over \<open><\<close> and over a comparison; both are instances of
  the definitions below, which take the test \<open>lt\<close>.
\<close>

definition swap_at :: "'a list \<Rightarrow> nat \<Rightarrow> nat \<Rightarrow> 'a list result" where
  "swap_at s i j =
    bindR (nth_go s i) (\<lambda>a. bindR (nth_go s j) (\<lambda>b. Inr (s[i := b, j := a])))"

text \<open>The scan of \<^verbatim>\<open>partition\<close> from \<open>i\<close> to \<open>right\<close>.\<close>

function partLoop :: "('a \<Rightarrow> 'a \<Rightarrow> bool) \<Rightarrow> 'a list \<Rightarrow> nat \<Rightarrow> nat \<Rightarrow> nat \<Rightarrow> ('a list \<times> nat) result" where
  "partLoop lt s storeIndex i right =
    (if i < right then
       bindR (nth_go s i) (\<lambda>x. bindR (nth_go s right) (\<lambda>p.
         if lt x p then bindR (swap_at s storeIndex i) (\<lambda>s'. partLoop lt s' (storeIndex + 1) (i + 1) right)
         else partLoop lt s storeIndex (i + 1) right))
     else Inr (s, storeIndex))"
  by pat_completeness auto
termination
  by (relation "measure (\<lambda>(lt, s, st, i, right). right - i)") auto

declare partLoop.simps [simp del]

definition partition :: "('a \<Rightarrow> 'a \<Rightarrow> bool) \<Rightarrow> 'a list \<Rightarrow> nat \<Rightarrow> nat \<Rightarrow> nat \<Rightarrow> ('a list \<times> nat) result" where
  "partition lt s pivot left right =
    bindR (swap_at s pivot right) (\<lambda>s.
    bindR (partLoop lt s left left right) (\<lambda>(s, storeIndex).
    bindR (swap_at s right storeIndex) (\<lambda>s. Inr (s, storeIndex))))"

partial_function (option) nthLoop ::
  "('a \<Rightarrow> 'a \<Rightarrow> bool) \<Rightarrow> nat \<Rightarrow> 'a list \<Rightarrow> nat \<Rightarrow> nat \<Rightarrow> 'a list result option" where
  "nthLoop lt k s left right =
    (if left = right then Some (Inr s)
     else (case partition lt s ((left + right) div 2) left right of
        Inl e \<Rightarrow> Some (Inl e)
      | Inr (s', pivotIndex) \<Rightarrow>
          if k = pivotIndex then Some (Inr s')
          else if k < pivotIndex then nthLoop lt k s' left (pivotIndex - 1)
          else nthLoop lt k s' (pivotIndex + 1) right))"

definition nthElement :: "('a \<Rightarrow> 'a \<Rightarrow> bool) \<Rightarrow> 'a list \<Rightarrow> nat \<Rightarrow> 'a list result option" where
  "nthElement lt s k =
    (if s = [] then Some (Inl (Panic ''index out of range'')) else nthLoop lt k s 0 (length s - 1))"

definition NthElementSlice :: "'a::linorder list \<Rightarrow> nat \<Rightarrow> 'a list result option" where
  "NthElementSlice s k = nthElement (<) s k"

definition NthElementSliceFunc :: "('a \<Rightarrow> 'a \<Rightarrow> int) \<Rightarrow> 'a list \<Rightarrow> nat \<Rightarrow> 'a list result option" where
  "NthElementSliceFunc cmp s k = nthElement (\<lambda>a b. cmp a b < 0) s k"

section \<open>Rearranging a segment\<close>

text \<open>\<open>seg s l r\<close>: the elements at the indices from \<open>l\<close> to \<open>r\<close>.  \<open>moved l r s s'\<close>: \<open>s'\<close> is a permutation of
  \<open>s\<close> that only moves those.\<close>

definition seg :: "'a list \<Rightarrow> nat \<Rightarrow> nat \<Rightarrow> 'a set" where
  "seg s l r = (!) s ` {l..r}"

definition moved :: "nat \<Rightarrow> nat \<Rightarrow> 'a list \<Rightarrow> 'a list \<Rightarrow> bool" where
  "moved l r s s' \<longleftrightarrow> length s' = length s \<and> mset s' = mset s \<and> seg s' l r = seg s l r \<and>
     (\<forall>i. i < l \<or> r < i \<longrightarrow> s' ! i = s ! i)"

lemma moved_refl: "moved l r s s"
  by (simp add: moved_def)

lemma moved_trans: "moved l r s s' \<Longrightarrow> moved l r s' s'' \<Longrightarrow> moved l r s s''"
  by (auto simp: moved_def)

lemma swap_at_ok:
  assumes "l \<le> i" "i \<le> r" "l \<le> j" "j \<le> r" "r < length s"
  shows "swap_at s i j = Inr (s[i := s ! j, j := s ! i])" "moved l r s (s[i := s ! j, j := s ! i])"
proof -
  let ?s' = "s[i := s ! j, j := s ! i]"
  have nth: "?s' ! k = (if k = j then s ! i else if k = i then s ! j else s ! k)" if "k \<le> r" for k
    using assms that by (auto simp: nth_list_update)
  show "swap_at s i j = Inr ?s'" using assms by (simp add: swap_at_def nth_go_def)
  have "x \<in> seg ?s' l r \<longleftrightarrow> x \<in> seg s l r" for x
  proof
    assume "x \<in> seg ?s' l r"
    then obtain k where k: "k \<in> {l..r}" "x = ?s' ! k" by (auto simp: seg_def)
    then show "x \<in> seg s l r" using nth [of k] assms by (auto simp: seg_def split: if_splits)
  next
    assume "x \<in> seg s l r"
    then obtain k where k: "k \<in> {l..r}" "x = s ! k" by (auto simp: seg_def)
    define k' where "k' = (if k = j then i else if k = i then j else k)"
    have "k' \<in> {l..r}" "x = ?s' ! k'" using k nth [of k'] assms by (auto simp: k'_def)
    then show "x \<in> seg ?s' l r" by (auto simp: seg_def)
  qed
  then have "seg ?s' l r = seg s l r" by blast
  moreover have "mset ?s' = mset s" using assms by (simp add: mset_swap)
  ultimately show "moved l r s ?s'" using assms by (auto simp: moved_def)
qed

section \<open>Correctness\<close>

text \<open>A test that orders weakly: what \<open><\<close> and the comparisons of the program satisfy.\<close>

locale weak_order =
  fixes lt :: "'a \<Rightarrow> 'a \<Rightarrow> bool"
  assumes irrefl: "\<not> lt a a"
    and asym: "lt a b \<Longrightarrow> \<not> lt b a"
    and neg_trans: "\<not> lt a b \<Longrightarrow> \<not> lt b c \<Longrightarrow> \<not> lt a c"
begin

definition le :: "'a \<Rightarrow> 'a \<Rightarrow> bool" where
  "le a b \<longleftrightarrow> \<not> lt b a"

lemma le_trans: "le a b \<Longrightarrow> le b c \<Longrightarrow> le a c"
  using neg_trans by (auto simp: le_def)

lemma le_refl [simp]: "le a a"
  by (simp add: le_def irrefl)

lemma lt_le: "lt a b \<Longrightarrow> le a b"
  by (auto simp: le_def dest: asym)

lemma partLoop_ok:
  assumes "left \<le> st" "st \<le> i" "i \<le> right" "right < length s"
    and "\<forall>j. left \<le> j \<and> j < st \<longrightarrow> lt (s ! j) (s ! right)"
    and "\<forall>j. st \<le> j \<and> j < i \<longrightarrow> \<not> lt (s ! j) (s ! right)"
  shows "\<exists>s' st'. partLoop lt s st i right = Inr (s', st') \<and> moved left right s s' \<and> s' ! right = s ! right \<and>
    left \<le> st' \<and> st' \<le> right \<and>
    (\<forall>j. left \<le> j \<and> j < st' \<longrightarrow> lt (s' ! j) (s' ! right)) \<and>
    (\<forall>j. st' \<le> j \<and> j < right \<longrightarrow> \<not> lt (s' ! j) (s' ! right))"
  using assms
proof (induction "right - i" arbitrary: s st i)
  case 0
  then have "i = right" by simp
  moreover from this have "partLoop lt s st i right = Inr (s, st)" by (subst partLoop.simps) simp
  ultimately show ?case using 0 moved_refl by blast
next
  case (Suc d)
  then have ir: "i < right" by simp
  have step: "partLoop lt s st i right =
      (if lt (s ! i) (s ! right)
       then bindR (swap_at s st i) (\<lambda>s'. partLoop lt s' (st + 1) (i + 1) right)
       else partLoop lt s st (i + 1) right)"
    using ir Suc.prems by (subst partLoop.simps) (simp add: nth_go_def)
  show ?case
  proof (cases "lt (s ! i) (s ! right)")
    case False
    have "\<forall>j. st \<le> j \<and> j < i + 1 \<longrightarrow> \<not> lt (s ! j) (s ! right)"
      using Suc.prems(6) False by (auto simp: less_Suc_eq)
    then show ?thesis using Suc.hyps(1) [of "i + 1" st s] Suc.hyps(2) Suc.prems step False by simp
  next
    case True
    let ?s' = "s[st := s ! i, i := s ! st]"
    have sw: "swap_at s st i = Inr ?s'" "moved left right s ?s'"
      using swap_at_ok [of left st right i s] Suc.prems ir by auto
    have r: "?s' ! right = s ! right" using ir Suc.prems by simp
    have "\<forall>j. left \<le> j \<and> j < st + 1 \<longrightarrow> lt (?s' ! j) (?s' ! right)"
      using Suc.prems True ir r by (auto simp: nth_list_update less_Suc_eq)
    moreover have "\<forall>j. st + 1 \<le> j \<and> j < i + 1 \<longrightarrow> \<not> lt (?s' ! j) (?s' ! right)"
      using Suc.prems ir r by (auto simp: nth_list_update less_Suc_eq)
    ultimately obtain s'' st' where "partLoop lt ?s' (st + 1) (i + 1) right = Inr (s'', st')"
      "moved left right ?s' s''" "s'' ! right = ?s' ! right" "left \<le> st'" "st' \<le> right"
      "\<forall>j. left \<le> j \<and> j < st' \<longrightarrow> lt (s'' ! j) (s'' ! right)"
      "\<forall>j. st' \<le> j \<and> j < right \<longrightarrow> \<not> lt (s'' ! j) (s'' ! right)"
      using Suc.hyps(1) [of "i + 1" "st + 1" ?s'] Suc.hyps(2) Suc.prems ir by fastforce
    then show ?thesis using step True sw r moved_trans by auto
  qed
qed

lemma partition_ok:
  assumes "left < right" "right < length s"
  shows "\<exists>s' p. partition lt s ((left + right) div 2) left right = Inr (s', p) \<and> moved left right s s' \<and>
    left \<le> p \<and> p \<le> right \<and> (\<forall>j. left \<le> j \<and> j < p \<longrightarrow> le (s' ! j) (s' ! p)) \<and>
    (\<forall>j. p \<le> j \<and> j \<le> right \<longrightarrow> le (s' ! p) (s' ! j))"
proof -
  let ?m = "(left + right) div 2"
  let ?s1 = "s[?m := s ! right, right := s ! ?m]"
  have s1: "swap_at s ?m right = Inr ?s1" "moved left right s ?s1"
    using swap_at_ok [of left ?m right right s] assms by auto
  then have len: "right < length ?s1" using assms by simp
  obtain s2 p where s2: "partLoop lt ?s1 left left right = Inr (s2, p)" "moved left right ?s1 s2"
    "left \<le> p" "p \<le> right" "\<forall>j. left \<le> j \<and> j < p \<longrightarrow> lt (s2 ! j) (s2 ! right)"
    "\<forall>j. p \<le> j \<and> j < right \<longrightarrow> \<not> lt (s2 ! j) (s2 ! right)"
  proof -
    have none: "\<forall>j. left \<le> j \<and> j < left \<longrightarrow> Q j" for Q by (auto dest: leD)
    show thesis
      using partLoop_ok [OF order.refl order.refl less_imp_le [OF assms(1)] len none none] that by blast
  qed
  let ?s3 = "s2[right := s2 ! p, p := s2 ! right]"
  have len2: "right < length s2" using s2(2) len by (simp add: moved_def)
  then have s3: "swap_at s2 right p = Inr ?s3" "moved left right s2 ?s3"
    using swap_at_ok [of left right right p s2] assms s2(3,4) by auto
  have p3: "?s3 ! p = s2 ! right" using s2(4) len2 by simp
  have "le (?s3 ! j) (?s3 ! p)" if "left \<le> j" "j < p" for j
    using that s2(4,5) p3 by (simp add: lt_le)
  moreover have "le (?s3 ! p) (?s3 ! j)" if "p \<le> j" "j \<le> right" for j
  proof (cases "j = p")
    case False
    then have "?s3 ! j = (if j = right then s2 ! p else s2 ! j)" using that len2 by simp
    moreover have "\<not> lt (s2 ! j) (s2 ! right)" if "j \<noteq> right" using that \<open>p \<le> j\<close> \<open>j \<le> right\<close> s2(6) by simp
    moreover have "\<not> lt (s2 ! p) (s2 ! right)" using False that s2(6) irrefl by (cases "p = right") auto
    ultimately show ?thesis using p3 by (simp add: le_def)
  qed simp
  moreover have "moved left right s ?s3" using moved_trans [OF moved_trans [OF s1(2) s2(2)] s3(2)] .
  moreover have "partition lt s ?m left right = Inr (?s3, p)"
    using s1(1) s2(1) s3(1) by (simp add: partition_def)
  ultimately show ?thesis using s2(3,4) by blast
qed

text \<open>Everything left of the window is below everything in it, which is below everything right of it.\<close>

definition split_at :: "'a list \<Rightarrow> nat \<Rightarrow> nat \<Rightarrow> bool" where
  "split_at s l r \<longleftrightarrow>
    (\<forall>i j. i < l \<longrightarrow> l \<le> j \<longrightarrow> j < length s \<longrightarrow> le (s ! i) (s ! j)) \<and>
    (\<forall>i j. i \<le> r \<longrightarrow> r < j \<longrightarrow> j < length s \<longrightarrow> le (s ! i) (s ! j))"

lemma seg_nth: "moved l r s s' \<Longrightarrow> l \<le> j \<Longrightarrow> j \<le> r \<Longrightarrow> \<exists>j'. l \<le> j' \<and> j' \<le> r \<and> s' ! j = s ! j'"
proof -
  assume "moved l r s s'" "l \<le> j" "j \<le> r"
  then have "s' ! j \<in> seg s l r" by (auto simp: moved_def seg_def)
  then show ?thesis by (auto simp: seg_def)
qed

lemma split_at_moved:
  assumes "split_at s l r" "moved l r s s'" "l \<le> r" "r < length s"
  shows "split_at s' l r"
proof -
  have out: "s' ! i = s ! i" if "i < l \<or> r < i" for i using assms(2) that by (auto simp: moved_def)
  have len: "length s' = length s" using assms(2) by (simp add: moved_def)
  have "le (s' ! i) (s' ! j)" if "i < l" "l \<le> j" "j < length s'" for i j
  proof (cases "j \<le> r")
    case True
    then obtain j' where "l \<le> j'" "j' \<le> r" "s' ! j = s ! j'" using seg_nth assms(2) \<open>l \<le> j\<close> by blast
    then show ?thesis using assms(1,4) that out by (simp add: split_at_def)
  next
    case False
    then show ?thesis using assms(1) that out len by (simp add: split_at_def)
  qed
  moreover have "le (s' ! i) (s' ! j)" if "i \<le> r" "r < j" "j < length s'" for i j
  proof (cases "l \<le> i")
    case True
    then obtain i' where "l \<le> i'" "i' \<le> r" "s' ! i = s ! i'" using seg_nth assms(2) \<open>i \<le> r\<close> by blast
    then show ?thesis using assms(1) that out len by (simp add: split_at_def)
  next
    case False
    then show ?thesis using assms(1) that out len by (simp add: split_at_def)
  qed
  ultimately show ?thesis by (simp add: split_at_def)
qed

definition selected :: "'a list \<Rightarrow> nat \<Rightarrow> bool" where
  "selected s k \<longleftrightarrow> (\<forall>i < k. le (s ! i) (s ! k)) \<and> (\<forall>j. k < j \<longrightarrow> j < length s \<longrightarrow> le (s ! k) (s ! j))"

lemma nthLoop_ok:
  assumes "left \<le> k" "k \<le> right" "right < length s" "split_at s left right"
  shows "\<exists>s'. nthLoop lt k s left right = Some (Inr s') \<and> mset s' = mset s \<and> selected s' k"
  using assms
proof (induction "right - left" arbitrary: s left right rule: less_induct)
  case less
  show ?case
  proof (cases "left = right")
    case True
    then show ?thesis using less.prems by (auto simp: nthLoop.simps selected_def split_at_def)
  next
    case False
    then have "left < right" using less.prems by simp
    from partition_ok [OF this less.prems(3)] obtain s' p where
      p: "partition lt s ((left + right) div 2) left right = Inr (s', p)" "moved left right s s'"
      "left \<le> p" "p \<le> right" "\<forall>j. left \<le> j \<and> j < p \<longrightarrow> le (s' ! j) (s' ! p)"
      "\<forall>j. p \<le> j \<and> j \<le> right \<longrightarrow> le (s' ! p) (s' ! j)" by blast
    have len: "length s' = length s" and ms: "mset s' = mset s" using p(2) by (simp_all add: moved_def)
    have sp: "split_at s' left right" using split_at_moved less.prems(4) p(2) \<open>left < right\<close> less.prems(3) by simp
    have below: "le (s' ! i) (s' ! p)" if "i < p" for i
      using that sp p(3,4,5) less.prems(3) len unfolding split_at_def by (cases "left \<le> i") auto
    have above: "le (s' ! p) (s' ! j)" if "p \<le> j" "j < length s'" for j
      using that sp p(4,6) unfolding split_at_def by (cases "j \<le> right") auto
    have "split_at s' left (p - 1)" if "k < p"
      unfolding split_at_def
    proof (intro conjI allI impI)
      fix i j assume "i \<le> p - 1" "p - 1 < j" "j < length s'"
      then have "i < p" "p \<le> j" using that by auto
      then show "le (s' ! i) (s' ! j)" using below above \<open>j < length s'\<close> le_trans by blast
    qed (use sp in \<open>simp add: split_at_def\<close>)
    moreover have "split_at s' (p + 1) right"
      unfolding split_at_def
    proof (intro conjI allI impI)
      fix i j assume "i < p + 1" "p + 1 \<le> j" "j < length s'"
      then show "le (s' ! i) (s' ! j)" using below [of i] above [of j] le_trans by (cases "i = p") auto
    qed (use sp in \<open>simp add: split_at_def\<close>)
    moreover have "nthLoop lt k s left right =
        (if k = p then Some (Inr s')
         else if k < p then nthLoop lt k s' left (p - 1) else nthLoop lt k s' (p + 1) right)"
      using False p(1) by (subst nthLoop.simps) simp
    moreover have "selected s' p" using below above by (simp add: selected_def)
    ultimately show ?thesis
      using p(3,4) less.prems len ms less.hyps [of "p - 1" left s'] less.hyps [of right "p + 1" s'] \<open>left < right\<close>
      by (cases k p rule: linorder_cases) simp_all
  qed
qed

lemma nthElement_ok:
  "k < length s \<Longrightarrow> \<exists>s'. nthElement lt s k = Some (Inr s') \<and> mset s' = mset s \<and> selected s' k"
proof -
  assume k: "k < length s"
  then have "split_at s 0 (length s - 1)" by (cases s) (auto simp: split_at_def)
  then show ?thesis using nthLoop_ok [of 0 k "length s - 1" s] k by (auto simp: nthElement_def)
qed

end

interpretation ord: weak_order "(<) :: 'a::linorder \<Rightarrow> 'a \<Rightarrow> bool"
  by unfold_locales auto

lemma selected_sort_nth:
  assumes "ord.selected s k" "k < length (s :: 'a::linorder list)"
  shows "s ! k = sort s ! k"
proof -
  let ?a = "take k s" and ?x = "s ! k" and ?b = "drop (Suc k) s"
  have s: "s = ?a @ ?x # ?b" using assms(2) by (simp add: id_take_nth_drop)
  have a: "\<forall>y \<in> set ?a. y \<le> ?x" using assms by (auto simp: ord.selected_def ord.le_def in_set_conv_nth not_less)
  have b: "\<forall>y \<in> set ?b. ?x \<le> y"
    using assms by (auto simp: ord.selected_def ord.le_def in_set_conv_nth not_less)
  have "sort s = sort ?a @ ?x # sort ?b"
  proof (rule properties_for_sort)
    show "mset (sort ?a @ ?x # sort ?b) = mset s" by (subst (4) s) simp
    show "sorted (sort ?a @ ?x # sort ?b)" using a b by (auto simp: sorted_append intro: order_trans)
  qed
  then show ?thesis using assms(2) by (simp add: nth_append)
qed

lemma nth_element_ok:
  assumes "k < length s"
  shows "\<exists>s'. NthElementSlice s k = Some (Inr s') \<and> mset s' = mset s \<and> s' ! k = sort s ! k \<and>
    (\<forall>i < k. s' ! i \<le> s' ! k) \<and> (\<forall>j. k < j \<longrightarrow> j < length s \<longrightarrow> s' ! k \<le> s' ! j)"
proof -
  obtain s' where s': "NthElementSlice s k = Some (Inr s')" "mset s' = mset s" "ord.selected s' k"
    using ord.nthElement_ok [OF assms] by (auto simp: NthElementSlice_def)
  have len: "length s' = length s" using s'(2) by (metis size_mset)
  have "s' ! k = sort s' ! k" using selected_sort_nth [OF s'(3)] assms len by simp
  also have "sort s' = sort s" using s'(2) by (metis properties_for_sort mset_sort sorted_sort)
  finally show ?thesis using s' len by (auto simp: ord.selected_def ord.le_def not_less)
qed

text \<open>\<^verbatim>\<open>NthElementSlice\<close> returns for every index of the slice, permutes the slice, and leaves at index
  \<open>k\<close> the element a full sort would put there, with nothing larger before and nothing smaller after
  it.\<close>

lemma NthElementSlice_correct:
  assumes "k < length s"
  shows "\<exists>s'. NthElementSlice s k = Some (Inr s') \<and> mset s' = mset s \<and> s' ! k = sort s ! k \<and>
    (\<forall>i < k. s' ! i \<le> s' ! k) \<and> (\<forall>j. k < j \<longrightarrow> j < length s \<longrightarrow> s' ! k \<le> s' ! j)"
  using assms by (rule nth_element_ok)

end
