(* ===== verification/Sidedata.thy ===== *)
theory Sidedata
  imports Shares
begin

text \<open>
  p2pool/sidechain/sidedata.go: the side-chain part of a share and its serialisation, which depends
  on the share version.
\<close>

record SideData =
  sd_PublicKey :: PackedAddress
  sd_CoinbasePrivateKeySeed :: hash
  sd_CoinbasePrivateKey :: hash
  sd_Parent :: hash
  sd_Uncles :: "hash list"
  sd_Height :: u64
  sd_Difficulty :: Difficulty
  sd_CumulativeDifficulty :: Difficulty
  sd_SoftwareId :: u32
  sd_SoftwareVersion :: u32
  sd_RandomNumber :: u32
  sd_SideChainExtraNonce :: u32

definition zeroSideData :: SideData where
  "zeroSideData = \<lparr>sd_PublicKey = (0, 0), sd_CoinbasePrivateKeySeed = 0, sd_CoinbasePrivateKey = 0, sd_Parent = 0,
     sd_Uncles = [], sd_Height = 0, sd_Difficulty = ZeroDifficulty, sd_CumulativeDifficulty = ZeroDifficulty,
     sd_SoftwareId = 0, sd_SoftwareVersion = 0, sd_RandomNumber = 0, sd_SideChainExtraNonce = 0\<rparr>"

definition SideData_BufferLength :: "SideData \<Rightarrow> nat" where
  "SideData_BufferLength b =
    32 + 32 + 32 + 32 +
    UVarInt64Size (of_nat (length (sd_Uncles b))) + length (sd_Uncles b) * 32 +
    UVarInt64Size (sd_Height b) +
    UVarInt64Size (Lo (sd_Difficulty b)) + UVarInt64Size (Hi (sd_Difficulty b)) +
    UVarInt64Size (Lo (sd_CumulativeDifficulty b)) + UVarInt64Size (Hi (sd_CumulativeDifficulty b)) +
    4 * 4"

definition SideData_AppendBinary :: "SideData \<Rightarrow> byte list \<Rightarrow> ShareVersion \<Rightarrow> byte list" where
  "SideData_AppendBinary b preAllocatedBuf version =
    (let buf = preAllocatedBuf @ le_bytes 32 (fst (sd_PublicKey b)) @ le_bytes 32 (snd (sd_PublicKey b));
         buf = buf @ (if version > ShareVersion_V1 then le_bytes 32 (sd_CoinbasePrivateKeySeed b)
                      else le_bytes 32 (sd_CoinbasePrivateKey b));
         buf = buf @ le_bytes 32 (sd_Parent b);
         buf = buf @ AppendUvarint (of_nat (length (sd_Uncles b))) @ concat (map (le_bytes 32) (sd_Uncles b));
         buf = buf @ AppendUvarint (sd_Height b);
         buf = buf @ AppendUvarint (Lo (sd_Difficulty b)) @ AppendUvarint (Hi (sd_Difficulty b));
         buf = buf @ AppendUvarint (Lo (sd_CumulativeDifficulty b)) @ AppendUvarint (Hi (sd_CumulativeDifficulty b))
     in if version > ShareVersion_V1 then
          buf @ le_bytes 4 (sd_SoftwareId b) @ le_bytes 4 (sd_SoftwareVersion b) @
          le_bytes 4 (sd_RandomNumber b) @ le_bytes 4 (sd_SideChainExtraNonce b)
        else buf)"

text \<open>\<^verbatim>\<open>fmt.Errorf("within extra buffer: %w", err)\<close>.\<close>

definition within :: "string \<Rightarrow> 'a rd \<Rightarrow> 'a rd" where
  "within msg p r = (case p r of (Inl e, r') \<Rightarrow> (Inl (Err msg), r') | (Inr x, r') \<Rightarrow> (Inr x, r'))"

definition readExtraBuffer :: "SideData \<Rightarrow> SideData rd" where
  "readExtraBuffer b =
    andThen (within ''within extra buffer'' (ReadLE 4)) (\<lambda>a.
    andThen (within ''within extra buffer'' (ReadLE 4)) (\<lambda>v.
    andThen (within ''within extra buffer'' (ReadLE 4)) (\<lambda>n.
    andThen (within ''within extra buffer'' (ReadLE 4)) (\<lambda>x.
      giveR (b\<lparr>sd_SoftwareId := a, sd_SoftwareVersion := v, sd_RandomNumber := n, sd_SideChainExtraNonce := x\<rparr>)))))"

definition SideData_FromReader :: "SideData \<Rightarrow> ShareVersion \<Rightarrow> SideData rd" where
  "SideData_FromReader b version =
    andThen (ReadLE 32) (\<lambda>spend.
    andThen (ReadLE 32) (\<lambda>view.
    andThen (ReadLE 32) (\<lambda>key.
    andThen (ReadLE 32) (\<lambda>parent.
    andThen (andThen ReadUvarint (\<lambda>uncleCount. timesR (int_count uncleCount) (ReadLE 32))) (\<lambda>uncles.
    andThen ReadUvarint (\<lambda>height.
    andThen ReadUvarint (\<lambda>dlo.
    andThen ReadUvarint (\<lambda>dhi.
    andThen ReadUvarint (\<lambda>clo.
    andThen ReadUvarint (\<lambda>chi.
      let b = b\<lparr>sd_PublicKey := (spend, view), sd_Parent := parent, sd_Uncles := sd_Uncles b @ uncles,
                sd_Height := height, sd_Difficulty := Difficulty dlo dhi, sd_CumulativeDifficulty := Difficulty clo chi\<rparr>;
          b = (if version > ShareVersion_V1 then b\<lparr>sd_CoinbasePrivateKeySeed := key\<rparr>
               else b\<lparr>sd_CoinbasePrivateKey := key\<rparr>)
      in if version > ShareVersion_V1 then readExtraBuffer b else giveR b))))))))))"

text \<open>What a reader of a version gets of a share: the key material and the fields of that version.\<close>

definition decoded_side :: "ShareVersion \<Rightarrow> SideData \<Rightarrow> SideData" where
  "decoded_side version b =
    (if version > ShareVersion_V1 then b\<lparr>sd_CoinbasePrivateKey := 0\<rparr>
     else b\<lparr>sd_CoinbasePrivateKeySeed := 0, sd_SoftwareId := 0, sd_SoftwareVersion := 0, sd_RandomNumber := 0,
            sd_SideChainExtraNonce := 0\<rparr>)"

definition side_enc :: "ShareVersion \<Rightarrow> SideData \<Rightarrow> byte list" where
  "side_enc version b = SideData_AppendBinary b [] version"

lemma SideData_AppendBinary_eq: "SideData_AppendBinary b buf version = buf @ side_enc version b"
  by (simp add: side_enc_def SideData_AppendBinary_def Let_def)

lemma decodes_within [intro]: "decodes p bs x \<Longrightarrow> decodes (within msg p) bs x"
  by (auto simp: decodes_def within_def)

lemma decodes_extraBuffer:
  "decodes (readExtraBuffer b)
     (le_bytes 4 a @ le_bytes 4 v @ le_bytes 4 n @ le_bytes 4 x)
     (b\<lparr>sd_SoftwareId := a, sd_SoftwareVersion := v, sd_RandomNumber := n, sd_SideChainExtraNonce := x\<rparr>)"
  unfolding readExtraBuffer_def
  by (intro decodes_andThen [OF decodes_within [OF decodes_ReadLE]] decodes_andThen_end [OF decodes_within [OF decodes_ReadLE]])
    simp_all

lemma decodes_side:
  assumes "length (sd_Uncles b) < 2 ^ 63"
  shows "decodes (SideData_FromReader zeroSideData version) (side_enc version b) (decoded_side version b)"
proof -
  let ?key = "if version > ShareVersion_V1 then sd_CoinbasePrivateKeySeed b else sd_CoinbasePrivateKey b"
  let ?tail = "if version > ShareVersion_V1 then
          le_bytes 4 (sd_SoftwareId b) @ le_bytes 4 (sd_SoftwareVersion b) @
          le_bytes 4 (sd_RandomNumber b) @ le_bytes 4 (sd_SideChainExtraNonce b) else []"
  have uncles: "decodes (andThen ReadUvarint (\<lambda>uncleCount. timesR (int_count uncleCount) (ReadLE 32)))
     (AppendUvarint (of_nat (length (sd_Uncles b))) @ concat (map (le_bytes 32) (sd_Uncles b))) (sd_Uncles b)"
    by (rule le_hash.dec_counted) (use assms in auto)
  have enc: "side_enc version b =
     le_bytes 32 (fst (sd_PublicKey b)) @ le_bytes 32 (snd (sd_PublicKey b)) @ le_bytes 32 ?key @
     le_bytes 32 (sd_Parent b) @
     (AppendUvarint (of_nat (length (sd_Uncles b))) @ concat (map (le_bytes 32) (sd_Uncles b))) @
     AppendUvarint (sd_Height b) @ AppendUvarint (Lo (sd_Difficulty b)) @ AppendUvarint (Hi (sd_Difficulty b)) @
     AppendUvarint (Lo (sd_CumulativeDifficulty b)) @ AppendUvarint (Hi (sd_CumulativeDifficulty b)) @ ?tail"
    by (simp add: side_enc_def SideData_AppendBinary_def Let_def)
  have extra: "decodes (readExtraBuffer c)
     (le_bytes 4 (sd_SoftwareId b) @ le_bytes 4 (sd_SoftwareVersion b) @
      le_bytes 4 (sd_RandomNumber b) @ le_bytes 4 (sd_SideChainExtraNonce b)) d"
    if "d = c\<lparr>sd_SoftwareId := sd_SoftwareId b, sd_SoftwareVersion := sd_SoftwareVersion b,
              sd_RandomNumber := sd_RandomNumber b, sd_SideChainExtraNonce := sd_SideChainExtraNonce b\<rparr>" for c d
    unfolding that by (rule decodes_extraBuffer)
  have done': "decodes (giveR c) [] d" if "d = c" for c d :: SideData using that by simp
  show ?thesis unfolding enc SideData_FromReader_def
    by (intro decodes_andThen [OF decodes_ReadLE] decodes_andThen [OF uncles] decodes_andThen [OF decodes_uvarint])
      (auto simp: Let_def zeroSideData_def decoded_side_def intro!: extra done' SideData.equality)
qed

lemma SideData_BufferLength_eq:
  "SideData_BufferLength b = length (side_enc version b) + (if version > ShareVersion_V1 then 0 else 16)"
  by (simp add: SideData_BufferLength_def side_enc_def SideData_AppendBinary_def Let_def UVarInt64Size_eq_length
      length_concat comp_def sum_list_triv)

text \<open>Shares of a version that carry nothing else than that version transmits.\<close>

definition side_ok :: "ShareVersion \<Rightarrow> SideData \<Rightarrow> bool" where
  "side_ok version b \<longleftrightarrow> length (sd_Uncles b) < 2 ^ 63 \<and> decoded_side version b = b"

interpretation side_v2: sized_codec "side_enc ShareVersion_V2" "SideData_FromReader zeroSideData ShareVersion_V2"
  "side_ok ShareVersion_V2" SideData_BufferLength
proof
  fix b assume "side_ok ShareVersion_V2 b"
  then show "decodes (SideData_FromReader zeroSideData ShareVersion_V2) (side_enc ShareVersion_V2 b) b"
    using decodes_side [of b ShareVersion_V2] by (simp add: side_ok_def)
  show "SideData_BufferLength b = length (side_enc ShareVersion_V2 b)"
    using SideData_BufferLength_eq [of b ShareVersion_V2] by (simp add: version_consts)
qed

interpretation side_v1: codec "side_enc ShareVersion_V1" "SideData_FromReader zeroSideData ShareVersion_V1"
  "side_ok ShareVersion_V1"
proof
  fix b assume "side_ok ShareVersion_V1 b"
  then show "decodes (SideData_FromReader zeroSideData ShareVersion_V1) (side_enc ShareVersion_V1 b) b"
    using decodes_side [of b ShareVersion_V1] by (simp add: side_ok_def)
qed

text \<open>Side data survives serialisation in every share version: exactly the bytes written are
  taken, the fields of that version come back, and \<^verbatim>\<open>BufferLength\<close> is the number of bytes for
  version 2 and 16 more than it for version 1.\<close>

lemma SideData_round_trip:
  assumes "length (sd_Uncles b) < 2 ^ 63" and "avail r = SideData_AppendBinary b [] version @ rest"
  shows "SideData_FromReader zeroSideData version r =
      (Inr (decoded_side version b), advance (length (SideData_AppendBinary b [] version)) r) \<and>
    SideData_BufferLength b = length (SideData_AppendBinary b [] version) + (if version > ShareVersion_V1 then 0 else 16)"
  using decodesD [OF decodes_side [OF assms(1)], of r version rest] assms(2) SideData_BufferLength_eq [of b version]
  by (simp add: side_enc_def)

definition example_side :: SideData where
  "example_side = zeroSideData\<lparr>sd_PublicKey := (7, 8), sd_Parent := 99, sd_Uncles := [1, 2], sd_Height := 1000,
     sd_Difficulty := Difficulty 400000 0, sd_CumulativeDifficulty := Difficulty 5 6, sd_SoftwareId := 3\<rparr>"

end
