(* ===== verification/Poolblock.thy ===== *)
theory Poolblock
  imports Sidedata
begin

text \<open>
  p2pool/sidechain/poolblock.go: a share, that is a main-chain block with its side data, its ids,
  its serialisations and the filling of compact blocks from their parent.

  Pointers between shares (the iteration cache) are references, numbers into the heap of the
  theories that use them.  The derivation cache the code passes around is the parameter \<open>getKey\<close>,
  its method \<^verbatim>\<open>GetDeterministicTransactionKey\<close>; \<open>detKey\<close> is
  \<^verbatim>\<open>p2poolcrypto.GetDeterministicTransactionPrivateKey\<close>, which computes on the third-party curve.
\<close>

type_synonym ref = nat

record PoolBlock =
  pb_Main :: Block
  pb_Side :: SideData
  pb_templateId :: "hash option"
  pb_coinbaseId :: "hash option"
  pb_powHash :: "hash option"
  pb_Depth :: u64
  pb_Verified :: bool
  pb_Invalid :: bool
  pb_WantBroadcast :: bool
  pb_Broadcasted :: bool
  pb_LocalTimestamp :: u64
  pb_ShareVersion :: ShareVersion
  pb_iterationCache :: "(ref option \<times> ref list) option"

definition zeroPoolBlock :: PoolBlock where
  "zeroPoolBlock = \<lparr>pb_Main = zeroBlock, pb_Side = zeroSideData, pb_templateId = None, pb_coinbaseId = None,
     pb_powHash = None, pb_Depth = 0, pb_Verified = False, pb_Invalid = False, pb_WantBroadcast = False,
     pb_Broadcasted = False, pb_LocalTimestamp = 0, pb_ShareVersion = ShareVersion_None, pb_iterationCache = None\<rparr>"

definition PoolBlockMaxTemplateSize :: nat where
  "PoolBlockMaxTemplateSize = 128 * 1024 - (1 + 4)"

definition SideExtraNonceSize :: nat where "SideExtraNonceSize = 4"
definition SideExtraNonceMaxSize :: nat where "SideExtraNonceMaxSize = 4 + 10"

section \<open>Extra data and ids\<close>

text \<open>\<^verbatim>\<open>CoinbaseExtra\<close>; \<open>None\<close> is a nil slice.\<close>

definition CoinbaseExtra :: "PoolBlock \<Rightarrow> byte \<Rightarrow> byte list option" where
  "CoinbaseExtra b tag =
    (case GetTag (c_Extra (b_Coinbase (pb_Main b))) tag of
       None \<Rightarrow> None
     | Some t \<Rightarrow>
         if tag = TxExtraTagNonce then
           (if length (t_Data t) < SideExtraNonceSize \<or> length (t_Data t) > SideExtraNonceMaxSize then None else Some (t_Data t))
         else if tag = TxExtraTagMergeMining then (if length (t_Data t) \<noteq> 32 then None else Some (t_Data t))
         else if tag = TxExtraTagPubKey then (if length (t_Data t) \<noteq> 32 then None else Some (t_Data t))
         else None)"

text \<open>\<^verbatim>\<open>types.HashFromBytes(b.CoinbaseExtra(SideTemplateId))\<close>: zero when there is none.\<close>

definition template_tag :: "PoolBlock \<Rightarrow> hash" where
  "template_tag b = (case CoinbaseExtra b TxExtraTagMergeMining of None \<Rightarrow> HashFromBytes [] | Some d \<Rightarrow> HashFromBytes d)"

definition ExtraNonce :: "PoolBlock \<Rightarrow> u32" where
  "ExtraNonce b =
    (case CoinbaseExtra b TxExtraTagNonce of
       None \<Rightarrow> 0
     | Some d \<Rightarrow> if length d < SideExtraNonceSize then 0 else le_word (take 4 d))"

definition CalculateShareVersion :: "Consensus \<Rightarrow> PoolBlock \<Rightarrow> ShareVersion" where
  "CalculateShareVersion c b = P2PoolShareVersion c (b_Timestamp (pb_Main b))"

definition ShareVersionSignaling :: "PoolBlock \<Rightarrow> ShareVersion" where
  "ShareVersionSignaling b =
    (if pb_ShareVersion b = ShareVersion_V1 \<and> ExtraNonce b AND 0xFF000000 = 0xFF000000 then ShareVersion_V2
     else ShareVersion_None)"

definition MainId :: "(byte list \<Rightarrow> hash) \<Rightarrow> PoolBlock \<Rightarrow> hash result" where
  "MainId K b = Block_Id K (pb_Main b)"

text \<open>\<^verbatim>\<open>FullId\<close>: the template id, the nonce and the extra nonce.  A missing extra nonce is a nil slice, of
  which the first four bytes are taken.\<close>

definition fullIdOf :: "byte list \<Rightarrow> PoolBlock \<Rightarrow> byte list result" where
  "fullIdOf sidechainId b =
    (case CoinbaseExtra b TxExtraTagNonce of
       None \<Rightarrow> Inl (Panic ''slice bounds out of range'')
     | Some d \<Rightarrow> Inr (sidechainId @ le_bytes 4 (b_Nonce (pb_Main b)) @ take SideExtraNonceSize d))"

definition FullId :: "PoolBlock \<Rightarrow> byte list result" where
  "FullId b = fullIdOf (case CoinbaseExtra b TxExtraTagMergeMining of None \<Rightarrow> replicate 32 0 | Some d \<Rightarrow> d) b"

definition FullId_TemplateId :: "byte list \<Rightarrow> hash" where
  "FullId_TemplateId fid = le_word (take 32 fid)"

definition FullId_Nonce :: "byte list \<Rightarrow> u32" where
  "FullId_Nonce fid = le_word (take 4 (drop 32 fid))"

definition FullId_ExtraNonce :: "byte list \<Rightarrow> u32" where
  "FullId_ExtraNonce fid = le_word (take 4 (drop 36 fid))"

definition FullIdFromString :: "byte list \<Rightarrow> byte list result" where
  "FullIdFromString s =
    bindR (hexDecode s) (\<lambda>buf. if length buf \<noteq> 40 then Inl (Err ''wrong hash size'') else Inr buf)"

text \<open>consensus.go \<^verbatim>\<open>CalculateSideTemplateId\<close>.\<close>

definition CalculateSideTemplateId :: "(byte list \<Rightarrow> hash) \<Rightarrow> Consensus \<Rightarrow> PoolBlock \<Rightarrow> hash" where
  "CalculateSideTemplateId K c share =
    K (Block_SideChainHashingBlob (pb_Main share) [] True @
       SideData_AppendBinary (pb_Side share) [] (pb_ShareVersion share) @ le_bytes 32 (n_Id c))"

text \<open>The memoised ids return the share with its cache filled.\<close>

definition SideTemplateId :: "(byte list \<Rightarrow> hash) \<Rightarrow> Consensus \<Rightarrow> PoolBlock \<Rightarrow> hash \<times> PoolBlock" where
  "SideTemplateId K c b =
    (case pb_templateId b of
       Some h \<Rightarrow> (h, b)
     | None \<Rightarrow>
         let h = CalculateSideTemplateId K c b in
         if h = ZeroHash then (ZeroHash, b) else (h, b\<lparr>pb_templateId := Some h\<rparr>))"

definition CalculateFullId :: "(byte list \<Rightarrow> hash) \<Rightarrow> Consensus \<Rightarrow> PoolBlock \<Rightarrow> byte list result \<times> PoolBlock" where
  "CalculateFullId K c b =
    (let (h, b') = SideTemplateId K c b in (fullIdOf (le_bytes 32 h) b', b'))"

definition CoinbaseId :: "(byte list \<Rightarrow> hash) \<Rightarrow> PoolBlock \<Rightarrow> hash \<times> PoolBlock" where
  "CoinbaseId K b =
    (case pb_coinbaseId b of
       Some h \<Rightarrow> (h, b)
     | None \<Rightarrow>
         let h = CalculateId K (b_Coinbase (pb_Main b)) in
         if h = ZeroHash then (ZeroHash, b) else (h, b\<lparr>pb_coinbaseId := Some h\<rparr>))"

type_synonym hasher = "byte list \<Rightarrow> byte list \<Rightarrow> hash result"

definition PoolBlock_PowHashWithError ::
  "(byte list \<Rightarrow> hash) \<Rightarrow> hasher \<Rightarrow> (u64 \<Rightarrow> hash) \<Rightarrow> PoolBlock \<Rightarrow> hash result \<times> PoolBlock" where
  "PoolBlock_PowHashWithError K hasher f b =
    (case pb_powHash b of
       Some h \<Rightarrow> (Inr h, b)
     | None \<Rightarrow>
         (case PowHashWithError K hasher f (pb_Main b) of
            Inl e \<Rightarrow> (Inl e, b)
          | Inr h \<Rightarrow> if h = ZeroHash then (Inr ZeroHash, b) else (Inr h, b\<lparr>pb_powHash := Some h\<rparr>)))"

definition IsProofHigherThanMainDifficultyWithError ::
  "(byte list \<Rightarrow> hash) \<Rightarrow> uint128_pkg \<Rightarrow> uint256_pkg \<Rightarrow> hasher \<Rightarrow> (u64 \<Rightarrow> Difficulty) \<Rightarrow> (u64 \<Rightarrow> hash) \<Rightarrow> PoolBlock \<Rightarrow>
    bool result \<times> PoolBlock" where
  "IsProofHigherThanMainDifficultyWithError K U Q hasher difficultyFunc seedFunc b =
    (let mainDifficulty = Block_Difficulty difficultyFunc (pb_Main b) in
     if mainDifficulty = ZeroDifficulty then (Inl (Err ''could not get main difficulty''), b)
     else case PoolBlock_PowHashWithError K hasher seedFunc b of
       (Inl e, b') \<Rightarrow> (Inl e, b')
     | (Inr h, b') \<Rightarrow> (Inr (CheckPoW U Q mainDifficulty h), b'))"

definition IsProofHigherThanDifficultyWithError ::
  "(byte list \<Rightarrow> hash) \<Rightarrow> uint128_pkg \<Rightarrow> uint256_pkg \<Rightarrow> hasher \<Rightarrow> (u64 \<Rightarrow> hash) \<Rightarrow> PoolBlock \<Rightarrow>
    bool result \<times> PoolBlock" where
  "IsProofHigherThanDifficultyWithError K U Q hasher f b =
    (case PoolBlock_PowHashWithError K hasher f b of
       (Inl e, b') \<Rightarrow> (Inl e, b')
     | (Inr h, b') \<Rightarrow> (Inr (CheckPoW U Q (sd_Difficulty (pb_Side b)) h), b'))"

section \<open>Keys\<close>

definition GetPrivateKeySeed :: "(hash \<Rightarrow> hash \<Rightarrow> hash) \<Rightarrow> PoolBlock \<Rightarrow> hash" where
  "GetPrivateKeySeed detKey b =
    (if pb_ShareVersion b > ShareVersion_V1 then sd_CoinbasePrivateKeySeed (pb_Side b)
     else let oldSeed = fst (sd_PublicKey (pb_Side b)) in
       if b_MajorVersion (pb_Main b) < HardForkViewTagsVersion \<and>
          detKey oldSeed (b_PreviousId (pb_Main b)) \<noteq> sd_CoinbasePrivateKey (pb_Side b)
       then ZeroHash else oldSeed)"

definition FillPrivateKeys :: "(hash \<Rightarrow> hash \<Rightarrow> hash) \<Rightarrow> (hash \<Rightarrow> hash \<Rightarrow> hash) \<Rightarrow> PoolBlock \<Rightarrow> PoolBlock" where
  "FillPrivateKeys detKey getKey b =
    (if pb_ShareVersion b > ShareVersion_V1 then
       (if sd_CoinbasePrivateKey (pb_Side b) = 0 then
          b\<lparr>pb_Side := (pb_Side b)\<lparr>sd_CoinbasePrivateKey :=
            getKey (GetPrivateKeySeed detKey b) (b_PreviousId (pb_Main b))\<rparr>\<rparr>
        else b)
     else b\<lparr>pb_Side := (pb_Side b)\<lparr>sd_CoinbasePrivateKeySeed := GetPrivateKeySeed detKey b\<rparr>\<rparr>)"

text \<open>p2pool/crypto \<^verbatim>\<open>CalculateTransactionPrivateKeySeed\<close> inlined: a domain, the two blobs, hashed.\<close>

definition CalculateTransactionPrivateKeySeed :: "(byte list \<Rightarrow> hash) \<Rightarrow> byte list \<Rightarrow> byte list \<Rightarrow> hash" where
  "CalculateTransactionPrivateKeySeed K main side = K (ascii ''tx_key_seed'' @ [0] @ main @ side)"

definition PoolBlock_CalculateTransactionPrivateKeySeed :: "(byte list \<Rightarrow> hash) \<Rightarrow> PoolBlock \<Rightarrow> hash" where
  "PoolBlock_CalculateTransactionPrivateKeySeed K b =
    (if pb_ShareVersion b > ShareVersion_V1 then
       CalculateTransactionPrivateKeySeed K (Block_SideChainHashingBlob (pb_Main b) [] False)
         (SideData_AppendBinary (pb_Side b) [] (pb_ShareVersion b))
     else fst (sd_PublicKey (pb_Side b)))"

definition GetTransactionOutputType :: "PoolBlock \<Rightarrow> byte" where
  "GetTransactionOutputType b =
    (if b_MajorVersion (pb_Main b) \<ge> HardForkViewTagsVersion then TxOutToTaggedKey else TxOutToKey)"

section \<open>Serialisation\<close>

definition PoolBlock_BufferLength :: "PoolBlock \<Rightarrow> nat" where
  "PoolBlock_BufferLength b = Block_BufferLength (pb_Main b) + SideData_BufferLength (pb_Side b)"

definition PoolBlock_AppendBinaryFlags :: "PoolBlock \<Rightarrow> byte list \<Rightarrow> bool \<Rightarrow> bool \<Rightarrow> byte list result" where
  "PoolBlock_AppendBinaryFlags b preAllocatedBuf pruned compact =
    bindR (Block_AppendBinaryFlags (pb_Main b) preAllocatedBuf pruned compact) (\<lambda>buf.
      let buf = SideData_AppendBinary (pb_Side b) buf (pb_ShareVersion b) in
      if length buf > PoolBlockMaxTemplateSize then Inl (Err ''buffer too large'') else Inr buf)"

text \<open>\<^verbatim>\<open>FromReader\<close> and \<^verbatim>\<open>FromCompactReader\<close>, which differ in the reader of the main block.  The test
  \<^verbatim>\<open>t == nil && t.VarInt != 32\<close> on the merge mining tag dereferences nil when there is no tag and
  accepts every tag otherwise.\<close>

definition PoolBlock_FromReaderFlags ::
  "(hash \<Rightarrow> hash \<Rightarrow> hash) \<Rightarrow> (hash \<Rightarrow> hash \<Rightarrow> hash) \<Rightarrow> Consensus \<Rightarrow> PoolBlock \<Rightarrow> bool \<Rightarrow> PoolBlock rd" where
  "PoolBlock_FromReaderFlags detKey getKey consensus b compact =
    andThen (Block_FromReaderFlags (pb_Main b) compact) (\<lambda>main.
      case NetworkMajorVersion consensus (c_GenHeight (b_Coinbase main)) of
        Inl e \<Rightarrow> failR e
      | Inr expectedMajorVersion \<Rightarrow>
          if expectedMajorVersion \<noteq> b_MajorVersion main then failR (Err ''expected major version'')
          else if GetTag (c_Extra (b_Coinbase main)) TxExtraTagMergeMining = None
            then failR (Panic ''nil pointer dereference'')
          else
            let b = b\<lparr>pb_Main := main\<rparr>;
                b = b\<lparr>pb_ShareVersion := CalculateShareVersion consensus b\<rparr>
            in andThen (SideData_FromReader (pb_Side b) (pb_ShareVersion b)) (\<lambda>side.
                 giveR (FillPrivateKeys detKey getKey (b\<lparr>pb_Side := side\<rparr>))))"

definition PoolBlock_UnmarshalBinary ::
  "(hash \<Rightarrow> hash \<Rightarrow> hash) \<Rightarrow> (hash \<Rightarrow> hash \<Rightarrow> hash) \<Rightarrow> Consensus \<Rightarrow> byte list \<Rightarrow> PoolBlock result" where
  "PoolBlock_UnmarshalBinary detKey getKey consensus data =
    (if length data > PoolBlockMaxTemplateSize then Inl (Err ''buffer too large'')
     else fst (PoolBlock_FromReaderFlags detKey getKey consensus zeroPoolBlock False (BytesReader data)))"

text \<open>A share whose parts are well formed and whose version and keys are those a reader computes.\<close>

definition poolblock_ok :: "Consensus \<Rightarrow> PoolBlock \<Rightarrow> bool" where
  "poolblock_ok c b \<longleftrightarrow> block_base_ok (pb_Main b) \<and> coinbase_ok (b_Coinbase (pb_Main b)) \<and>
     length (sd_Uncles (pb_Side b)) < 2 ^ 63 \<and>
     NetworkMajorVersion c (c_GenHeight (b_Coinbase (pb_Main b))) = Inr (b_MajorVersion (pb_Main b)) \<and>
     GetTag (c_Extra (b_Coinbase (pb_Main b))) TxExtraTagMergeMining \<noteq> None \<and>
     pb_ShareVersion b = CalculateShareVersion c b"

definition poolblock_enc :: "bool \<Rightarrow> bool \<Rightarrow> PoolBlock \<Rightarrow> byte list" where
  "poolblock_enc pruned compact b = block_enc pruned compact (pb_Main b) @ side_enc (pb_ShareVersion b) (pb_Side b)"

definition decoded_poolblock ::
  "(hash \<Rightarrow> hash \<Rightarrow> hash) \<Rightarrow> (hash \<Rightarrow> hash \<Rightarrow> hash) \<Rightarrow> bool \<Rightarrow> bool \<Rightarrow> PoolBlock \<Rightarrow> PoolBlock" where
  "decoded_poolblock detKey getKey pruned compact b =
    FillPrivateKeys detKey getKey (zeroPoolBlock\<lparr>pb_Main := decoded_block pruned compact (pb_Main b),
      pb_ShareVersion := pb_ShareVersion b, pb_Side := decoded_side (pb_ShareVersion b) (pb_Side b)\<rparr>)"

lemma decoded_block_keeps:
  "b_MajorVersion (decoded_block p c b) = b_MajorVersion b" "b_Timestamp (decoded_block p c b) = b_Timestamp b"
  "c_GenHeight (b_Coinbase (decoded_block p c b)) = c_GenHeight (b_Coinbase b)"
  "c_Extra (b_Coinbase (decoded_block p c b)) = c_Extra (b_Coinbase b)"
  "b_PreviousId (decoded_block p c b) = b_PreviousId b"
  by (simp_all add: decoded_block_def Let_def pruned_coinbase_def)

lemma decodes_poolblock:
  assumes "poolblock_ok c b"
  shows "decodes (PoolBlock_FromReaderFlags detKey getKey c zeroPoolBlock compact) (poolblock_enc pruned compact b)
     (decoded_poolblock detKey getKey pruned compact b)"
proof -
  have z: "pb_Main zeroPoolBlock = zeroBlock" "pb_Side zeroPoolBlock = zeroSideData" by (simp_all add: zeroPoolBlock_def)
  have ok: "block_base_ok (pb_Main b)" "coinbase_ok (b_Coinbase (pb_Main b))" "length (sd_Uncles (pb_Side b)) < 2 ^ 63"
    and net: "NetworkMajorVersion c (c_GenHeight (b_Coinbase (pb_Main b))) = Inr (b_MajorVersion (pb_Main b))"
    and tag: "GetTag (c_Extra (b_Coinbase (pb_Main b))) TxExtraTagMergeMining \<noteq> None"
    and ver: "P2PoolShareVersion c (b_Timestamp (pb_Main b)) = pb_ShareVersion b"
    using assms by (simp_all add: poolblock_ok_def CalculateShareVersion_def)
  show ?thesis
    unfolding PoolBlock_FromReaderFlags_def poolblock_enc_def z
    by (rule decodes_andThen [OF decodes_block [OF ok(1,2)]])
      (use net tag ver in \<open>auto simp: decoded_block_keeps z CalculateShareVersion_def Let_def decoded_poolblock_def
        intro!: decodes_andThen_end [OF decodes_side [OF ok(3)]]\<close>)
qed

lemma PoolBlock_AppendBinaryFlags_eq:
  assumes "poolblock_ok c b" "length (poolblock_enc pruned compact b) \<le> PoolBlockMaxTemplateSize"
  shows "PoolBlock_AppendBinaryFlags b [] pruned compact = Inr (poolblock_enc pruned compact b)"
  using assms
  by (simp add: PoolBlock_AppendBinaryFlags_def poolblock_ok_def Block_AppendBinaryFlags_eq block_ok_outputs
      SideData_AppendBinary_eq poolblock_enc_def Let_def)

lemma PoolBlock_BufferLength_ge:
  "poolblock_ok c b \<Longrightarrow> length (poolblock_enc False False b) \<le> PoolBlock_BufferLength b"
  by (simp add: PoolBlock_BufferLength_def poolblock_enc_def poolblock_ok_def Block_BufferLength_eq block_ok_outputs
      SideData_BufferLength_eq [of _ "pb_ShareVersion b"])

text \<open>C13: shares survive the wire.  A well-formed share that fits the message size is serialised
  without error, the full form within \<^verbatim>\<open>BufferLength\<close>; reading the full, pruned or compact form takes exactly
  those bytes and gives the share back with its version and keys recomputed, without its
  outputs when pruned, with parent indices for transactions when compact.\<close>

theorem PoolBlock_round_trip:
  assumes "poolblock_ok c b" and "length (poolblock_enc pruned compact b) \<le> PoolBlockMaxTemplateSize"
  shows "\<exists>buf. PoolBlock_AppendBinaryFlags b [] pruned compact = Inr buf \<and>
    PoolBlock_FromReaderFlags detKey getKey c zeroPoolBlock compact (BytesReader (buf @ rest)) =
      (Inr (decoded_poolblock detKey getKey pruned compact b), BytesReader rest) \<and>
    (\<not> pruned \<longrightarrow> \<not> compact \<longrightarrow> length buf \<le> PoolBlock_BufferLength b \<and>
      PoolBlock_UnmarshalBinary detKey getKey c buf = Inr (decoded_poolblock detKey getKey False False b))"
proof -
  let ?buf = "poolblock_enc pruned compact b"
  have dec: "PoolBlock_FromReaderFlags detKey getKey c zeroPoolBlock compact (BytesReader (?buf @ rest)) =
      (Inr (decoded_poolblock detKey getKey pruned compact b), BytesReader rest)" for rest
    using decodesD [OF decodes_poolblock [OF assms(1)], of "BytesReader (?buf @ rest)" pruned compact rest] by simp
  show ?thesis
    using PoolBlock_AppendBinaryFlags_eq [OF assms] dec [of rest] dec [of "[]"] assms
      PoolBlock_BufferLength_ge [OF assms(1)]
    by (cases pruned; cases compact) (auto simp: PoolBlock_UnmarshalBinary_def)
qed

definition example_share :: PoolBlock where
  "example_share = zeroPoolBlock\<lparr>pb_Main := example_block, pb_Side := example_side, pb_ShareVersion := ShareVersion_V2\<rparr>"

lemma example_share_ok: "poolblock_ok ConsensusDefault example_share"
proof -
  have "NetworkMajorVersion ConsensusDefault 3000000 = Inr 16"
    by (simp add: NetworkMajorVersion_def NetworkHardFork_def ConsensusDefault_def mainNetHardForks_def)
  then show ?thesis
    using example_block_ok
    by (simp add: poolblock_ok_def example_share_def example_side_def example_block_def example_coinbase_def
        example_tags_def GetTag_def CalculateShareVersion_def P2PoolShareVersion_def ConsensusDefault_def
        p2poolMainNetHardForks_def extra_consts version_consts)
qed

lemma example_share_length: "length (poolblock_enc False False example_share) \<le> PoolBlockMaxTemplateSize"
proof -
  have "PoolBlock_BufferLength example_share \<le> PoolBlockMaxTemplateSize"
    by (simp add: PoolBlock_BufferLength_def Block_BufferLength_def SideData_BufferLength_def example_share_def
        example_side_def example_block_def example_coinbase_def example_output_def example_tags_def
        Coinbase_BufferLength_def Outputs_BufferLength.simps ExtraTag_BufferLength_def
        UVarInt64Size_def VarIntLen_def PoolBlockMaxTemplateSize_def zeroSideData_def)
  then show ?thesis using PoolBlock_BufferLength_ge [OF example_share_ok] by linarith
qed

theorem PoolBlock_round_trip_witness:
  "\<exists>buf. PoolBlock_AppendBinaryFlags example_share [] False False = Inr buf \<and>
    PoolBlock_UnmarshalBinary (\<lambda>_ _. 1) (\<lambda>_ _. 2) ConsensusDefault buf =
      Inr (example_share\<lparr>pb_Main := example_block\<lparr>b_TransactionParentIndices := []\<rparr>,
        pb_Side := example_side\<lparr>sd_CoinbasePrivateKey := 2\<rparr>\<rparr>)"
proof -
  have "decoded_poolblock (\<lambda>_ _. 1) (\<lambda>_ _. 2) False False example_share =
    example_share\<lparr>pb_Main := example_block\<lparr>b_TransactionParentIndices := []\<rparr>,
      pb_Side := example_side\<lparr>sd_CoinbasePrivateKey := 2\<rparr>\<rparr>"
    by (simp add: decoded_poolblock_def FillPrivateKeys_def decoded_block_def decoded_side_def example_share_def
        example_side_def zeroSideData_def zeroPoolBlock_def version_consts)
  then show ?thesis
    using PoolBlock_round_trip [OF example_share_ok example_share_length, of "\<lambda>_ _. 1" "\<lambda>_ _. 2" "[]"] by auto
qed

text \<open>\<^verbatim>\<open>UniquePoolBlockSlice\<close>: a share by its template tag, the shares of a height.\<close>

definition UniquePoolBlockSlice_Get :: "PoolBlock list \<Rightarrow> hash \<Rightarrow> PoolBlock option" where
  "UniquePoolBlockSlice_Get s i = find (\<lambda>p. CoinbaseExtra p TxExtraTagMergeMining = Some (le_bytes 32 i)) s"

definition UniquePoolBlockSlice_GetHeight :: "PoolBlock list \<Rightarrow> u64 \<Rightarrow> PoolBlock list" where
  "UniquePoolBlockSlice_GetHeight s height = [b \<leftarrow> s. sd_Height (pb_Side b) = height]"

section \<open>Compact blocks\<close>

text \<open>\<^verbatim>\<open>slices.Index\<close>: the first position of a value.\<close>

fun index_of :: "'a list \<Rightarrow> 'a \<Rightarrow> nat option" where
  "index_of [] x = None"
| "index_of (y # ys) x = (if y = x then Some 0 else map_option Suc (index_of ys x))"

definition NeedsCompactTransactionFilling :: "PoolBlock \<Rightarrow> bool" where
  "NeedsCompactTransactionFilling b \<longleftrightarrow>
    length (b_TransactionParentIndices (pb_Main b)) > 0 \<and>
    length (b_TransactionParentIndices (pb_Main b)) = length (b_Transactions (pb_Main b)) \<and>
    index_of (b_Transactions (pb_Main b)) ZeroHash \<noteq> None"

text \<open>The loop of \<^verbatim>\<open>FillTransactionsFromTransactionParentIndices\<close> over the indices from position \<open>i\<close> on.  It
  writes in place, so an error leaves the transactions filled so far.\<close>

fun fillLoop :: "hash list \<Rightarrow> nat \<Rightarrow> u64 list \<Rightarrow> hash list \<Rightarrow> error option \<times> hash list" where
  "fillLoop ptx i [] txs = (None, txs)"
| "fillLoop ptx i (parentIndex # ps) txs =
    (if parentIndex \<noteq> 0 then
       let actualIndex = parentIndex - 1 in
       if actualIndex > of_nat (length ptx) then (Some (Err ''index of parent transaction out of bounds''), txs)
       else (case nth_go ptx (unat actualIndex) of
               Inl e \<Rightarrow> (Some e, txs)
             | Inr h \<Rightarrow> fillLoop ptx (i + 1) ps (txs[i := h]))
     else fillLoop ptx (i + 1) ps txs)"

definition FillTransactionsFromTransactionParentIndices :: "PoolBlock \<Rightarrow> PoolBlock option \<Rightarrow> error option \<times> PoolBlock" where
  "FillTransactionsFromTransactionParentIndices b parent =
    (if NeedsCompactTransactionFilling b then
       (case parent of
          None \<Rightarrow> (Some (Err ''parent is nil''), b)
        | Some p \<Rightarrow>
            if template_tag p = sd_Parent (pb_Side b) then
              (let (e, txs) = fillLoop (b_Transactions (pb_Main p)) 0 (b_TransactionParentIndices (pb_Main b))
                                (b_Transactions (pb_Main b))
               in (e, b\<lparr>pb_Main := (pb_Main b)\<lparr>b_Transactions := txs\<rparr>\<rparr>))
            else (None, b))
     else (None, b))"

definition parentIndexOf :: "hash list \<Rightarrow> hash \<Rightarrow> u64" where
  "parentIndexOf ptx txHash = (case index_of ptx txHash of Some i \<Rightarrow> of_nat (i + 1) | None \<Rightarrow> 0)"

definition FillTransactionParentIndices :: "PoolBlock \<Rightarrow> PoolBlock option \<Rightarrow> bool \<times> PoolBlock" where
  "FillTransactionParentIndices b parent =
    (if length (b_Transactions (pb_Main b)) \<noteq> length (b_TransactionParentIndices (pb_Main b)) then
       (case parent of
          None \<Rightarrow> (False, b)
        | Some p \<Rightarrow>
            if template_tag p = sd_Parent (pb_Side b) then
              (True, b\<lparr>pb_Main := (pb_Main b)\<lparr>b_TransactionParentIndices :=
                 map (parentIndexOf (b_Transactions (pb_Main p))) (b_Transactions (pb_Main b))\<rparr>\<rparr>)
            else (False, b))
     else (True, b))"

definition NeedsPreProcess :: "PoolBlock \<Rightarrow> bool" where
  "NeedsPreProcess b \<longleftrightarrow> NeedsCompactTransactionFilling b \<or>
     length (b_Transactions (pb_Main b)) \<noteq> length (b_TransactionParentIndices (pb_Main b)) \<or>
     length (c_Outputs (b_Coinbase (pb_Main b))) = 0"

lemma index_of_Some: "index_of xs x = Some i \<Longrightarrow> i < length xs \<and> xs ! i = x"
  by (induction xs arbitrary: i) (auto split: if_splits)

lemma index_of_None [simp]: "index_of xs x = None \<longleftrightarrow> x \<notin> set xs"
  by (induction xs) auto

lemma fillLoop_restores:
  assumes "length ptx < 2 ^ 63" "length ps = length txs - i" "i \<le> length txs" "length orig = length txs"
    and "\<forall>j < length ps. ps ! j \<noteq> 0 \<longrightarrow> unat (ps ! j) \<le> length ptx \<and> ptx ! (unat (ps ! j) - 1) = orig ! (i + j)"
    and "\<forall>j < length txs. j < i \<or> ps ! (j - i) = 0 \<longrightarrow> txs ! j = orig ! j"
  shows "fillLoop ptx i ps txs = (None, orig)"
  using assms(2-)
proof (induction ps arbitrary: i txs)
  case Nil
  then show ?case by (auto intro!: nth_equalityI)
next
  case (Cons p ps)
  have i: "i < length txs" "length ps = length txs - (i + 1)" using Cons.prems by auto
  have ps: "\<forall>j < length ps. ps ! j \<noteq> 0 \<longrightarrow> unat (ps ! j) \<le> length ptx \<and> ptx ! (unat (ps ! j) - 1) = orig ! (i + 1 + j)"
    using Cons.prems(4) by force
  have keep: "txs ! j = orig ! j" if "j < length txs" "j \<noteq> i" "j < i + 1 \<or> ps ! (j - (i + 1)) = 0" for j
    using Cons.prems(5) that by (auto simp: nth_Cons' Suc_diff_Suc)
  show ?case
  proof (cases "p = 0")
    case True
    then have "txs ! i = orig ! i" using Cons.prems(5) i by auto
    then have "\<forall>j < length txs. j < i + 1 \<or> ps ! (j - (i + 1)) = 0 \<longrightarrow> txs ! j = orig ! j" using keep by blast
    then show ?thesis using Cons.IH [of txs "i + 1"] i ps Cons.prems(3) True by simp
  next
    case False
    have p: "unat p \<le> length ptx" "ptx ! (unat p - 1) = orig ! i" using Cons.prems(4) False by force+
    have u: "unat (p - 1) = unat p - 1" and pos: "0 < unat p" using False by (simp_all add: unat_minus_one unat_gt_0)
    have "\<not> p - 1 > of_nat (length ptx)"
      using p u assms(1) by (simp add: word_less_nat_alt unat_of_nat)
    moreover have "fillLoop ptx (i + 1) ps (txs[i := orig ! i]) = (None, orig)"
      using Cons.IH [of "txs[i := orig ! i]" "i + 1"] i ps Cons.prems(3) keep by (auto simp: nth_list_update)
    ultimately show ?thesis using False p u pos by (simp add: nth_go_def Let_def)
  qed
qed


lemma FillPrivateKeys_keeps:
  "pb_Main (FillPrivateKeys d g b) = pb_Main b" "sd_Parent (pb_Side (FillPrivateKeys d g b)) = sd_Parent (pb_Side b)"
  "sd_Uncles (pb_Side (FillPrivateKeys d g b)) = sd_Uncles (pb_Side b)"
  by (simp_all add: FillPrivateKeys_def)

lemma decoded_poolblock_parts:
  "pb_Main (decoded_poolblock d g pruned compact b) = decoded_block pruned compact (pb_Main b)"
  "sd_Parent (pb_Side (decoded_poolblock d g pruned compact b)) = sd_Parent (pb_Side b)"
  by (simp_all add: decoded_poolblock_def FillPrivateKeys_keeps decoded_side_def)

definition with_indices :: "hash list \<Rightarrow> Block \<Rightarrow> Block" where
  "with_indices ptx m = m\<lparr>b_TransactionParentIndices := map (parentIndexOf ptx) (b_Transactions m)\<rparr>"

lemma parentIndexOf_cases:
  assumes "length ptx < 2 ^ 63"
  shows "parentIndexOf ptx tx \<noteq> 0 \<Longrightarrow> unat (parentIndexOf ptx tx) \<le> length ptx \<and> ptx ! (unat (parentIndexOf ptx tx) - 1) = tx"
proof -
  assume nz: "parentIndexOf ptx tx \<noteq> 0"
  then obtain i where i: "index_of ptx tx = Some i" by (auto simp: parentIndexOf_def split: option.splits)
  have "unat (of_nat (i + 1) :: u64) = i + 1"
    using index_of_Some [OF i] assms by (intro unat_of_nat_small) simp
  then show ?thesis using i index_of_Some [OF i] by (simp add: parentIndexOf_def)
qed

lemma decoded_with_indices:
  "b_TransactionParentIndices (decoded_block pruned True (with_indices ptx m)) = map (parentIndexOf ptx) (b_Transactions m)"
  "b_Transactions (decoded_block pruned True (with_indices ptx m)) =
     map (\<lambda>tx. if parentIndexOf ptx tx \<noteq> 0 then ZeroHash else tx) (b_Transactions m)"
  by (auto simp: decoded_block_def with_indices_def Let_def nth_compact_entries compact_entry_def parent_index_def
      intro!: nth_equalityI)

lemma fillLoop_decoded:
  assumes "length ptx < 2 ^ 63"
  shows "fillLoop ptx 0 (map (parentIndexOf ptx) txs) (map (\<lambda>tx. if parentIndexOf ptx tx \<noteq> 0 then ZeroHash else tx) txs) =
    (None, txs)"
  by (rule fillLoop_restores [OF assms]) (use parentIndexOf_cases [OF assms] in auto)

lemma fill_restores:
  assumes "length (b_Transactions (pb_Main p)) < 2 ^ 63" and "template_tag p = sd_Parent (pb_Side d)"
    and "pb_Main d = decoded_block pruned True (with_indices (b_Transactions (pb_Main p)) m)"
  shows "FillTransactionsFromTransactionParentIndices d (Some p) =
    (None, d\<lparr>pb_Main := (pb_Main d)\<lparr>b_Transactions := b_Transactions m\<rparr>\<rparr>)"
proof (cases "NeedsCompactTransactionFilling d")
  case True
  then show ?thesis
    using fillLoop_decoded [OF assms(1)] assms(2,3)
    by (simp add: FillTransactionsFromTransactionParentIndices_def decoded_with_indices)
next
  case False
  let ?f = "\<lambda>tx. if parentIndexOf (b_Transactions (pb_Main p)) tx \<noteq> 0 then ZeroHash else tx"
  have "map ?f (b_Transactions m) = b_Transactions m"
  proof (rule map_idI)
    fix tx assume "tx \<in> set (b_Transactions m)"
    moreover from this have "ZeroHash \<notin> set (map ?f (b_Transactions m))"
      using False assms(3) length_pos_if_in_set
      by (fastforce simp: NeedsCompactTransactionFilling_def decoded_with_indices simp del: set_map)
    ultimately show "?f tx = tx" by auto
  qed
  then have "b_Transactions (pb_Main d) = b_Transactions m"
    using assms(3) by (simp only: decoded_with_indices)
  then have "d\<lparr>pb_Main := (pb_Main d)\<lparr>b_Transactions := b_Transactions m\<rparr>\<rparr> = d"
    by (intro PoolBlock.equality) (auto intro: Block.equality)
  then show ?thesis using False by (simp add: FillTransactionsFromTransactionParentIndices_def)
qed

text \<open>C14: compact broadcasts lose nothing.  When the sender has the parent and fills the parent indices
  of a share without them, the compact message it sends is decoded by a receiver with the same
  parent and filled back without error to exactly the original transactions; the share
  then needs no more filling if no transaction id is zero.\<close>

theorem compact_fill_round_trip:
  assumes "poolblock_ok c b" and "template_tag p = sd_Parent (pb_Side b)"
    and "length (b_Transactions (pb_Main p)) < 2 ^ 63"
    and "length (b_Transactions (pb_Main b)) \<noteq> length (b_TransactionParentIndices (pb_Main b))"
    and "length (poolblock_enc pruned True (snd (FillTransactionParentIndices b (Some p)))) \<le> PoolBlockMaxTemplateSize"
  shows "\<exists>b1 buf d d'. FillTransactionParentIndices b (Some p) = (True, b1) \<and>
    PoolBlock_AppendBinaryFlags b1 [] pruned True = Inr buf \<and>
    PoolBlock_FromReaderFlags detKey getKey c zeroPoolBlock True (BytesReader buf) = (Inr d, BytesReader []) \<and>
    FillTransactionsFromTransactionParentIndices d (Some p) = (None, d') \<and>
    b_Transactions (pb_Main d') = b_Transactions (pb_Main b) \<and>
    (ZeroHash \<notin> set (b_Transactions (pb_Main b)) \<longrightarrow> \<not> NeedsCompactTransactionFilling d')"
proof -
  let ?b1 = "b\<lparr>pb_Main := with_indices (b_Transactions (pb_Main p)) (pb_Main b)\<rparr>"
  let ?d = "decoded_poolblock detKey getKey pruned True ?b1"
  have b1: "FillTransactionParentIndices b (Some p) = (True, ?b1)"
    using assms(2,4) by (simp add: FillTransactionParentIndices_def with_indices_def)
  have ok: "poolblock_ok c ?b1"
    using assms(1) by (simp add: poolblock_ok_def with_indices_def block_base_ok_def CalculateShareVersion_def)
  have len: "length (poolblock_enc pruned True ?b1) \<le> PoolBlockMaxTemplateSize"
    using assms(5) b1 by simp
  have "PoolBlock_FromReaderFlags detKey getKey c zeroPoolBlock True (BytesReader (poolblock_enc pruned True ?b1)) =
      (Inr ?d, BytesReader [])"
    using decodesD [OF decodes_poolblock [OF ok], of "BytesReader (poolblock_enc pruned True ?b1)" pruned True "[]"] by simp
  moreover have "FillTransactionsFromTransactionParentIndices ?d (Some p) =
      (None, ?d\<lparr>pb_Main := (pb_Main ?d)\<lparr>b_Transactions := b_Transactions (pb_Main b)\<rparr>\<rparr>)"
    by (rule fill_restores [OF assms(3)]) (simp_all add: decoded_poolblock_parts assms(2))
  ultimately show ?thesis
    using b1 PoolBlock_AppendBinaryFlags_eq [OF ok len] by (auto simp: NeedsCompactTransactionFilling_def)
qed


definition example_parent :: PoolBlock where
  "example_parent = example_share\<lparr>pb_Main := example_block\<lparr>b_Transactions := [33, 44, 22]\<rparr>\<rparr>"

definition example_child :: PoolBlock where
  "example_child = example_share\<lparr>pb_Side := example_side\<lparr>sd_Parent := template_tag example_parent\<rparr>\<rparr>"

lemma example_child_ok: "poolblock_ok ConsensusDefault example_child"
  using example_share_ok by (simp add: example_child_def poolblock_ok_def example_share_def example_side_def
      CalculateShareVersion_def)

lemma example_child_filled:
  "FillTransactionParentIndices example_child (Some example_parent) =
    (True, example_child\<lparr>pb_Main := example_block\<lparr>b_TransactionParentIndices := [0, 3, 1]\<rparr>\<rparr>)"
  by (simp add: FillTransactionParentIndices_def example_child_def example_share_def parentIndexOf_def
      example_parent_def example_block_def)

lemma example_child_length:
  "length (poolblock_enc False True (snd (FillTransactionParentIndices example_child (Some example_parent)))) \<le>
     PoolBlockMaxTemplateSize"
proof -
  have "length (poolblock_enc False True (snd (FillTransactionParentIndices example_child (Some example_parent)))) \<le>
      length (poolblock_enc False False example_share)"
    unfolding example_child_filled snd_conv
    by (simp add: poolblock_enc_def block_enc_def txs_enc_def compact_tx_enc_def compact_entry_def
        parent_index_def example_block_def length_AppendUvarint_small example_child_def example_share_def HeaderBlob_def
        side_enc_def SideData_AppendBinary_def example_side_def)
  then show ?thesis using example_share_length by linarith
qed

theorem compact_fill_round_trip_witness:
  "\<exists>b1 buf d d'. FillTransactionParentIndices example_child (Some example_parent) = (True, b1) \<and>
    PoolBlock_AppendBinaryFlags b1 [] False True = Inr buf \<and>
    PoolBlock_FromReaderFlags (\<lambda>_ _. 1) (\<lambda>_ _. 2) ConsensusDefault zeroPoolBlock True (BytesReader buf) =
      (Inr d, BytesReader []) \<and>
    FillTransactionsFromTransactionParentIndices d (Some example_parent) = (None, d') \<and>
    b_Transactions (pb_Main d') = [11, 22, 33] \<and> \<not> NeedsCompactTransactionFilling d'"
  using compact_fill_round_trip [OF example_child_ok _ _ _ example_child_length, of "\<lambda>_ _. 1" "\<lambda>_ _. 2"]
  by (simp add: example_child_def example_share_def example_parent_def example_block_def ZeroHash_def)


lemma fillLoop_zeros: "fillLoop ptx i (replicate k 0 @ ps) txs = fillLoop ptx (i + k) ps txs"
  by (induction k arbitrary: i) auto

text \<open>Bounds of parent indices.  For a compact share whose first non-zero parent index is \<open>idx\<close>, filling
  from its parent with \<open>n\<close> transactions changes no transaction and reports an error when \<open>idx\<close>
  is more than \<open>n + 1\<close>; at \<open>n + 1\<close>, also out of range, the check \<^verbatim>\<open>actualIndex > len\<close> lets it through
  and the code panics.  A missing parent is an error.\<close>

lemma FillTransactions_bounds:
  assumes "NeedsCompactTransactionFilling b" and "template_tag p = sd_Parent (pb_Side b)"
    and "b_TransactionParentIndices (pb_Main b) = replicate k 0 @ idx # rest"
    and "length (b_Transactions (pb_Main p)) < 2 ^ 63"
  shows "(unat idx = length (b_Transactions (pb_Main p)) + 1 \<longrightarrow>
      FillTransactionsFromTransactionParentIndices b (Some p) = (Some (Panic ''index out of range''), b)) \<and>
    (unat idx > length (b_Transactions (pb_Main p)) + 1 \<longrightarrow>
      FillTransactionsFromTransactionParentIndices b (Some p) =
        (Some (Err ''index of parent transaction out of bounds''), b)) \<and>
    FillTransactionsFromTransactionParentIndices b None = (Some (Err ''parent is nil''), b)"
proof -
  let ?n = "length (b_Transactions (pb_Main p))"
  have u: "unat (idx - 1) = unat idx - 1" if "unat idx > ?n" using that by (intro unat_minus_one) auto
  have n: "unat (of_nat ?n :: u64) = ?n" using assms(4) by (intro unat_of_nat_small) simp
  have b: "b\<lparr>pb_Main := pb_Main b\<lparr>b_Transactions := b_Transactions (pb_Main b)\<rparr>\<rparr> = b" by simp
  show ?thesis
    using assms(1-3) n u b
    by (auto simp: FillTransactionsFromTransactionParentIndices_def fillLoop_zeros word_less_nat_alt nth_go_def Let_def)
qed

definition example_bad_child :: PoolBlock where
  "example_bad_child = example_child\<lparr>pb_Main := example_block\<lparr>b_Transactions := [11, 0],
     b_TransactionParentIndices := [0, 4]\<rparr>\<rparr>"

text \<open>Full ids.  The full id of a share whose extra has a merge mining tag and an extra nonce is 40
  bytes that give back its template id, nonce and extra nonce, also through their
  hexadecimal text; without a usable extra nonce, computing the full id panics.\<close>

lemma FullId_parts:
  assumes "CoinbaseExtra b TxExtraTagMergeMining = Some t"
  shows "(CoinbaseExtra b TxExtraTagNonce \<noteq> None \<longrightarrow>
      (\<exists>fid. FullId b = Inr fid \<and> length fid = 40 \<and> FullId_TemplateId fid = template_tag b \<and>
        FullId_Nonce fid = b_Nonce (pb_Main b) \<and> FullId_ExtraNonce fid = ExtraNonce b \<and>
        FullIdFromString (hexEncode fid) = Inr fid)) \<and>
    (CoinbaseExtra b TxExtraTagNonce = None \<longrightarrow> FullId b = Inl (Panic ''slice bounds out of range''))"
proof -
  have t: "length t = 32"
    using assms by (auto simp: CoinbaseExtra_def extra_consts split: option.splits if_splits)
  then have tag: "template_tag b = le_word t" using assms by (simp add: template_tag_def HashFromBytes_def)
  {
    fix d assume d: "CoinbaseExtra b TxExtraTagNonce = Some d"
    then have len: "4 \<le> length d"
      by (auto simp: CoinbaseExtra_def extra_consts SideExtraNonceSize_def split: option.splits if_splits)
    let ?fid = "t @ le_bytes 4 (b_Nonce (pb_Main b)) @ take 4 d"
    have "FullId b = Inr ?fid \<and> length ?fid = 40 \<and> FullId_TemplateId ?fid = template_tag b \<and>
        FullId_Nonce ?fid = b_Nonce (pb_Main b) \<and> FullId_ExtraNonce ?fid = ExtraNonce b \<and>
        FullIdFromString (hexEncode ?fid) = Inr ?fid"
      using d len t tag assms
      by (simp add: FullId_def fullIdOf_def FullId_TemplateId_def FullId_Nonce_def FullId_ExtraNonce_def ExtraNonce_def
          FullIdFromString_def SideExtraNonceSize_def min_absorb2 le_word_le_bytes)
  }
  moreover have "CoinbaseExtra b TxExtraTagNonce = None \<longrightarrow> FullId b = Inl (Panic ''slice bounds out of range'')"
    by (simp add: FullId_def fullIdOf_def)
  ultimately show ?thesis by blast
qed

end
