(* ===== verification/Window.thy ===== *)
theory Window
  imports Poolblock Shares Select
begin

text \<open>
  p2pool/sidechain/utils.go and the iterators of poolblock.go: the walks over the share chain that
  the consensus rules are made of.  These are the PPLNS window and the shares and outputs it
  gives, the difficulty of the next share, and the choice of the longer chain.

  Shares live in a heap, a function from references to shares; \<open>get\<close> is the caller's
  \<^verbatim>\<open>getByTemplateId\<close>.  A callback that collects what it is given is modelled by the list of
  its calls, in order.
\<close>

type_synonym heap = "ref \<Rightarrow> PoolBlock"
type_synonym lookup = "hash \<Rightarrow> ref option"

record ChainMain =
  m_Difficulty :: Difficulty
  m_Height :: u64
  m_Timestamp :: u64
  m_Reward :: u64
  m_Id :: hash

section \<open>Iterators\<close>

definition iteratorGetParent :: "lookup \<Rightarrow> PoolBlock \<Rightarrow> ref option" where
  "iteratorGetParent get b =
    (case pb_iterationCache b of None \<Rightarrow> get (sd_Parent (pb_Side b)) | Some (parent, _) \<Rightarrow> parent)"

text \<open>\<^verbatim>\<open>iteratorUncles\<close> threads the state of its callback, which may panic, and returns the error
  beside the state: some callers ignore the error.\<close>

fun unclesLoop :: "lookup \<Rightarrow> hash list \<Rightarrow> (ref \<Rightarrow> 's \<Rightarrow> 's result) \<Rightarrow> 's \<Rightarrow> ('s \<times> error option) result" where
  "unclesLoop get [] f s = Inr (s, None)"
| "unclesLoop get (uncleId # ids) f s =
    (case get uncleId of
       None \<Rightarrow> Inr (s, Some (Err ''could not find uncle''))
     | Some uncle \<Rightarrow> bindR (f uncle s) (\<lambda>s'. unclesLoop get ids f s'))"

fun foldR :: "('a \<Rightarrow> 's \<Rightarrow> 's result) \<Rightarrow> 'a list \<Rightarrow> 's \<Rightarrow> 's result" where
  "foldR f [] s = Inr s"
| "foldR f (x # xs) s = bindR (f x s) (\<lambda>s'. foldR f xs s')"

definition iteratorUncles :: "lookup \<Rightarrow> PoolBlock \<Rightarrow> (ref \<Rightarrow> 's \<Rightarrow> 's result) \<Rightarrow> 's \<Rightarrow> ('s \<times> error option) result" where
  "iteratorUncles get b f s =
    (if length (sd_Uncles (pb_Side b)) = 0 then Inr (s, None)
     else case pb_iterationCache b of
       None \<Rightarrow> unclesLoop get (sd_Uncles (pb_Side b)) f s
     | Some (_, uncles) \<Rightarrow> bindR (foldR f uncles s) (\<lambda>s'. Inr (s', None)))"

text \<open>What the callback keeps, the iteration keeps; and it meets no error when the uncles are known.\<close>

lemma unclesLoop_keeps:
  assumes "\<And>u s s'. f u s = Inr s' \<Longrightarrow> P s \<Longrightarrow> P s'"
  shows "unclesLoop get ids f s = Inr (s', e) \<Longrightarrow> P s \<Longrightarrow> P s'"
  by (induction ids arbitrary: s) (auto simp: bindR_Inr_iff split: option.splits intro: assms)

lemma foldR_keeps:
  assumes "\<And>u s s'. f u s = Inr s' \<Longrightarrow> P s \<Longrightarrow> P s'"
  shows "foldR f xs s = Inr s' \<Longrightarrow> P s \<Longrightarrow> P s'"
  by (induction xs arbitrary: s) (auto simp: bindR_Inr_iff intro: assms)

lemma iteratorUncles_keeps:
  assumes "\<And>u s s'. f u s = Inr s' \<Longrightarrow> P s \<Longrightarrow> P s'"
    and "iteratorUncles get b f s = Inr (s', e)" "P s"
  shows "P s'"
  using assms(2,3) unclesLoop_keeps [of f P get _ s s' e, OF assms(1)] foldR_keeps [of f P _ s s', OF assms(1)]
  by (auto simp: iteratorUncles_def bindR_Inr_iff split: if_splits option.splits)

definition uncles_known :: "lookup \<Rightarrow> PoolBlock \<Rightarrow> bool" where
  "uncles_known get b \<longleftrightarrow> (pb_iterationCache b = None \<longrightarrow> (\<forall>u \<in> set (sd_Uncles (pb_Side b)). get u \<noteq> None))"

lemma foldR_total:
  assumes "\<And>u s. \<exists>s'. f u s = Inr s'"
  shows "\<exists>s'. foldR f xs s = Inr s'"
proof (induction xs arbitrary: s)
  case (Cons x xs)
  obtain s1 where "f x s = Inr s1" using assms by blast
  then show ?case using Cons.IH [of s1] by simp
qed simp

lemma unclesLoop_total:
  assumes "\<And>u s. \<exists>s'. f u s = Inr s'" "\<forall>u \<in> set ids. get u \<noteq> None"
  shows "\<exists>s'. unclesLoop get ids f s = Inr (s', None)"
  using assms(2)
proof (induction ids arbitrary: s)
  case (Cons i ids)
  then obtain u where u: "get i = Some u" by auto
  obtain s1 where "f u s = Inr s1" using assms(1) by blast
  then show ?case using Cons.IH [of s1] Cons.prems u by simp
qed simp

lemma iteratorUncles_total:
  assumes "\<And>u s. \<exists>s'. f u s = Inr s'" "uncles_known get b"
  shows "\<exists>s'. iteratorUncles get b f s = Inr (s', None)"
proof (cases "pb_iterationCache b")
  case None
  then show ?thesis
    using unclesLoop_total [of f "sd_Uncles (pb_Side b)" get s, OF assms(1)] assms(2)
    by (auto simp: iteratorUncles_def uncles_known_def)
next
  case (Some p)
  then obtain par us where "pb_iterationCache b = Some (par, us)" by (cases p) auto
  then show ?thesis using foldR_total [of f us s, OF assms(1)] by (auto simp: iteratorUncles_def)
qed

section \<open>The PPLNS window\<close>

text \<open>The locals of the walk: the weight so far, the weight of the current share, the calls of
  \<^verbatim>\<open>addWeightFunc\<close>, and the uncles of the current slot.\<close>

record window =
  w_pplnsWeight :: Difficulty
  w_curWeight :: Difficulty
  w_added :: "(ref \<times> Difficulty) list"
  w_curUncles :: "ref list"

definition window_init :: window where
  "window_init = \<lparr>w_pplnsWeight = ZeroDifficulty, w_curWeight = ZeroDifficulty, w_added = [], w_curUncles = []\<rparr>"

definition maxPplnsWeight :: "(u64 \<Rightarrow> Difficulty) \<Rightarrow> PoolBlock \<Rightarrow> Difficulty result" where
  "maxPplnsWeight difficultyByHeight tip =
    (let seedHeight = SeedHeight (c_GenHeight (b_Coinbase (pb_Main tip)));
         mainchainDiff = (if sd_Parent (pb_Side tip) \<noteq> ZeroHash then difficultyByHeight seedHeight else ZeroDifficulty)
     in if sd_Parent (pb_Side tip) \<noteq> ZeroHash \<and> mainchainDiff = ZeroDifficulty
        then Inl (Err ''couldn't get mainchain difficulty'')
        else Inr (if pb_ShareVersion tip > ShareVersion_V1 then MulBy64 mainchainDiff 2 else MaxDifficulty))"

definition addUncle :: "uint128_pkg \<Rightarrow> heap \<Rightarrow> Consensus \<Rightarrow> PoolBlock \<Rightarrow> Difficulty \<Rightarrow> ref \<Rightarrow> window \<Rightarrow> window result" where
  "addUncle U h c tip maxW uncle w =
    (if sd_Height (pb_Side tip) - sd_Height (pb_Side (h uncle)) \<ge> n_ChainWindowSize c then Inr w
     else bindR (ApplyUnclePenalty U c (sd_Difficulty (pb_Side (h uncle)))) (\<lambda>(uncleWeight, unclePenalty).
       let newPplnsWeight = Add (w_pplnsWeight w) uncleWeight in
       if Cmp newPplnsWeight maxW > 0 then Inr w
       else Inr (w\<lparr>w_curWeight := Add (w_curWeight w) unclePenalty,
                   w_added := w_added w @ [(uncle, uncleWeight)],
                   w_pplnsWeight := newPplnsWeight\<rparr>)))"

definition addBlock :: "ref \<Rightarrow> window \<Rightarrow> window" where
  "addBlock cur w = w\<lparr>w_added := w_added w @ [(cur, w_curWeight w)],
     w_pplnsWeight := Add (w_pplnsWeight w) (w_curWeight w)\<rparr>"

text \<open>\<^verbatim>\<open>BlocksInPPLNSWindow\<close>.  One turn of the loop up to its exit tests, then the loop; \<open>blockDepth\<close> stays
  below the window size, a \<^verbatim>\<open>uint64\<close>, so it is a number here.\<close>

definition blocksStep :: "uint128_pkg \<Rightarrow> heap \<Rightarrow> Consensus \<Rightarrow> lookup \<Rightarrow> PoolBlock \<Rightarrow> Difficulty \<Rightarrow> ref \<Rightarrow> window \<Rightarrow> window result" where
  "blocksStep U h c get tip maxW cur w =
    bindR (iteratorUncles get (h cur) (addUncle U h c tip maxW) (w\<lparr>w_curWeight := sd_Difficulty (pb_Side (h cur))\<rparr>))
      (\<lambda>(w', err). case err of Some e \<Rightarrow> Inl e | None \<Rightarrow> Inr (addBlock cur w'))"

function blocksLoop ::
  "uint128_pkg \<Rightarrow> heap \<Rightarrow> Consensus \<Rightarrow> lookup \<Rightarrow> PoolBlock \<Rightarrow> Difficulty \<Rightarrow> nat \<Rightarrow> ref \<Rightarrow> window \<Rightarrow>
    (u64 \<times> (ref \<times> Difficulty) list) result" where
  "blocksLoop U h c get tip maxW blockDepth cur w =
    (case blocksStep U h c get tip maxW cur w of
       Inl e \<Rightarrow> Inl e
     | Inr w' \<Rightarrow>
         if Cmp (w_pplnsWeight w') maxW > 0 then Inr (sd_Height (pb_Side (h cur)), w_added w')
         else if blockDepth + 1 \<ge> unat (n_ChainWindowSize c) then Inr (sd_Height (pb_Side (h cur)), w_added w')
         else if sd_Height (pb_Side (h cur)) = 0 then Inr (sd_Height (pb_Side (h cur)), w_added w')
         else (case iteratorGetParent get (h cur) of
                 None \<Rightarrow> Inl (Err ''could not find parent'')
               | Some parent \<Rightarrow> blocksLoop U h c get tip maxW (blockDepth + 1) parent w'))"
  by pat_completeness auto
termination
  by (relation "measure (\<lambda>(U, h, c, get, tip, maxW, d, cur, w). unat (n_ChainWindowSize c) - d)") auto

declare blocksLoop.simps [simp del]

definition BlocksInPPLNSWindow ::
  "uint128_pkg \<Rightarrow> heap \<Rightarrow> Consensus \<Rightarrow> (u64 \<Rightarrow> Difficulty) \<Rightarrow> lookup \<Rightarrow> ref \<Rightarrow> (u64 \<times> (ref \<times> Difficulty) list) result" where
  "BlocksInPPLNSWindow U h c difficultyByHeight get tip =
    bindR (maxPplnsWeight difficultyByHeight (h tip)) (\<lambda>maxW. blocksLoop U h c get (h tip) maxW 0 tip window_init)"

text \<open>\<^verbatim>\<open>IterateBlocksInPPLNSWindow\<close>: the same walk, which also reports each share with all its uncles to
  \<^verbatim>\<open>slotFunc\<close>.  The result is the calls of \<^verbatim>\<open>slotFunc\<close> and of \<^verbatim>\<open>addWeightFunc\<close>.\<close>

definition addUncleSlot :: "uint128_pkg \<Rightarrow> heap \<Rightarrow> Consensus \<Rightarrow> PoolBlock \<Rightarrow> Difficulty \<Rightarrow> ref \<Rightarrow> window \<Rightarrow> window result" where
  "addUncleSlot U h c tip maxW uncle w = addUncle U h c tip maxW uncle (w\<lparr>w_curUncles := w_curUncles w @ [uncle]\<rparr>)"

definition slotStep :: "uint128_pkg \<Rightarrow> heap \<Rightarrow> Consensus \<Rightarrow> lookup \<Rightarrow> PoolBlock \<Rightarrow> Difficulty \<Rightarrow> ref \<Rightarrow> window \<Rightarrow> window result" where
  "slotStep U h c get tip maxW cur w =
    bindR (iteratorUncles get (h cur) (addUncleSlot U h c tip maxW)
        (w\<lparr>w_curWeight := sd_Difficulty (pb_Side (h cur)), w_curUncles := []\<rparr>))
      (\<lambda>(w', err). case err of Some e \<Rightarrow> Inl e | None \<Rightarrow> Inr (addBlock cur w'))"

function iterateLoop ::
  "uint128_pkg \<Rightarrow> heap \<Rightarrow> Consensus \<Rightarrow> lookup \<Rightarrow> PoolBlock \<Rightarrow> Difficulty \<Rightarrow> nat \<Rightarrow> ref \<Rightarrow> window \<Rightarrow> (ref \<times> ref list) list \<Rightarrow>
    ((ref \<times> ref list) list \<times> (ref \<times> Difficulty) list) result" where
  "iterateLoop U h c get tip maxW blockDepth cur w slots =
    (case slotStep U h c get tip maxW cur w of
       Inl e \<Rightarrow> Inl e
     | Inr w' \<Rightarrow>
         let slots' = slots @ [(cur, w_curUncles w')] in
         if Cmp (w_pplnsWeight w') maxW > 0 then Inr (slots', w_added w')
         else if blockDepth + 1 \<ge> unat (n_ChainWindowSize c) then Inr (slots', w_added w')
         else if sd_Height (pb_Side (h cur)) = 0 then Inr (slots', w_added w')
         else (case iteratorGetParent get (h cur) of
                 None \<Rightarrow> Inl (Err ''could not find parent'')
               | Some parent \<Rightarrow> iterateLoop U h c get tip maxW (blockDepth + 1) parent w' slots'))"
  by pat_completeness auto
termination
  by (relation "measure (\<lambda>(U, h, c, get, tip, maxW, d, cur, w, slots). unat (n_ChainWindowSize c) - d)") auto

declare iterateLoop.simps [simp del]

definition IterateBlocksInPPLNSWindow ::
  "uint128_pkg \<Rightarrow> heap \<Rightarrow> Consensus \<Rightarrow> (u64 \<Rightarrow> Difficulty) \<Rightarrow> lookup \<Rightarrow> ref \<Rightarrow>
    ((ref \<times> ref list) list \<times> (ref \<times> Difficulty) list) result" where
  "IterateBlocksInPPLNSWindow U h c difficultyByHeight get tip =
    bindR (maxPplnsWeight difficultyByHeight (h tip)) (\<lambda>maxW. iterateLoop U h c get (h tip) maxW 0 tip window_init [])"

subsection \<open>The two walks agree\<close>

text \<open>Two callbacks that keep a relation between their states give iterations that do.\<close>

abbreviation same_result :: "('a \<Rightarrow> 'b \<Rightarrow> bool) \<Rightarrow> 'a result \<Rightarrow> 'b result \<Rightarrow> bool" where
  "same_result R \<equiv> rel_sum (=) R"

lemma same_result_bindR:
  assumes "same_result R m n" "\<And>x y. R x y \<Longrightarrow> same_result S (f x) (g y)"
  shows "same_result S (bindR m f) (bindR n g)"
  using assms by (cases m; cases n) auto

lemma foldR_sim:
  assumes "\<And>u s t. R s t \<Longrightarrow> same_result R (f u s) (g u t)"
  shows "R s t \<Longrightarrow> same_result R (foldR f xs s) (foldR g xs t)"
  by (induction xs arbitrary: s t) (auto intro!: same_result_bindR [OF assms])

lemma unclesLoop_sim:
  assumes "\<And>u s t. R s t \<Longrightarrow> same_result R (f u s) (g u t)"
  shows "R s t \<Longrightarrow> same_result (rel_prod R (=)) (unclesLoop get ids f s) (unclesLoop get ids g t)"
  by (induction ids arbitrary: s t) (auto split: option.splits intro!: same_result_bindR [OF assms])

lemma iteratorUncles_sim:
  assumes "\<And>u s t. R s t \<Longrightarrow> same_result R (f u s) (g u t)" "R s t"
  shows "same_result (rel_prod R (=)) (iteratorUncles get b f s) (iteratorUncles get b g t)"
  using assms(2) unclesLoop_sim [of R f g s t, OF assms(1)] foldR_sim [of R f g s t, OF assms(1)]
  by (auto simp: iteratorUncles_def split: option.splits intro!: same_result_bindR)

definition same_window :: "window \<Rightarrow> window \<Rightarrow> bool" where
  "same_window w w' \<longleftrightarrow> w_pplnsWeight w = w_pplnsWeight w' \<and> w_curWeight w = w_curWeight w' \<and> w_added w = w_added w'"

lemma addUncle_sim:
  "same_window w w' \<Longrightarrow> same_result same_window (addUncleSlot U h c tip maxW u w) (addUncle U h c tip maxW u w')"
  by (cases "ApplyUnclePenalty U c (sd_Difficulty (pb_Side (h u)))")
    (auto simp: addUncleSlot_def addUncle_def same_window_def Let_def)

lemma blocksStep_sim:
  assumes "same_window w w'"
  shows "same_result same_window (slotStep U h c get tip maxW cur w) (blocksStep U h c get tip maxW cur w')"
  unfolding slotStep_def blocksStep_def
  by (rule same_result_bindR [OF iteratorUncles_sim [OF addUncle_sim]])
    (use assms in \<open>auto simp: same_window_def addBlock_def split: option.splits\<close>)

text \<open>The results of the two loops, after the slots reported so far.\<close>

definition walk_rel :: "heap \<Rightarrow> Consensus \<Rightarrow> nat \<Rightarrow> (ref \<times> ref list) list \<Rightarrow>
    (ref \<times> ref list) list \<times> (ref \<times> Difficulty) list \<Rightarrow> u64 \<times> (ref \<times> Difficulty) list \<Rightarrow> bool" where
  "walk_rel h c d slots x y \<longleftrightarrow> snd x = snd y \<and>
    (\<exists>pre. fst x = slots @ pre \<and> pre \<noteq> [] \<and> fst y = sd_Height (pb_Side (h (fst (last pre)))) \<and>
      length pre + d \<le> max (d + 1) (unat (n_ChainWindowSize c)))"

lemma walk_rel_shift:
  "walk_rel h c (d + 1) (slots @ [s]) x y \<Longrightarrow> d + 1 < unat (n_ChainWindowSize c) \<Longrightarrow> walk_rel h c d slots x y"
  unfolding walk_rel_def by (elim conjE exE) (rule conjI, assumption, rule_tac x = "s # pre" in exI, auto)

lemma loops_sim:
  assumes "same_window w w'"
  shows "same_result (walk_rel h c d slots)
    (iterateLoop U h c get tip maxW d cur w slots) (blocksLoop U h c get tip maxW d cur w')"
  using assms
proof (induction U h c get tip maxW d cur w' arbitrary: w slots rule: blocksLoop.induct)
  case (1 U h c get tip maxW d cur w')
  note sim = blocksStep_sim [OF 1(2), of U h c get tip maxW cur]
  show ?case
  proof (cases "blocksStep U h c get tip maxW cur w'")
    case (Inl e)
    then show ?thesis using sim by (subst iterateLoop.simps, subst blocksLoop.simps) (auto split: sum.splits)
  next
    case (Inr v')
    then obtain v where v: "slotStep U h c get tip maxW cur w = Inr v" "same_window v v'" using sim by (auto elim: rel_sum.cases)
    show ?thesis
    proof (cases "\<not> Cmp (w_pplnsWeight v') maxW > 0 \<and> \<not> d + 1 \<ge> unat (n_ChainWindowSize c) \<and>
        sd_Height (pb_Side (h cur)) \<noteq> 0 \<and> iteratorGetParent get (h cur) \<noteq> None")
      case True
      then obtain parent where par: "iteratorGetParent get (h cur) = Some parent" by blast
      have "same_result (walk_rel h c (d + 1) (slots @ [(cur, w_curUncles v)]))
        (iterateLoop U h c get tip maxW (d + 1) parent v (slots @ [(cur, w_curUncles v)]))
        (blocksLoop U h c get tip maxW (d + 1) parent v')"
        by (rule 1(1) [OF Inr _ _ _ par v(2)]) (use True in auto)
      then have "same_result (walk_rel h c d slots)
        (iterateLoop U h c get tip maxW (d + 1) parent v (slots @ [(cur, w_curUncles v)]))
        (blocksLoop U h c get tip maxW (d + 1) parent v')"
        by (rule sum.rel_mono_strong) (use True in \<open>auto intro: walk_rel_shift\<close>)
      then show ?thesis using True par Inr v
        by (subst iterateLoop.simps, subst blocksLoop.simps) (simp add: same_window_def)
    next
      case False
      then show ?thesis using Inr v
        by (subst iterateLoop.simps, subst blocksLoop.simps)
          (auto simp: same_window_def walk_rel_def Let_def split: option.splits)
    qed
  qed
qed

text \<open>C3: the two window walks are the same walk.  \<^verbatim>\<open>IterateBlocksInPPLNSWindow\<close> fails exactly when
  \<^verbatim>\<open>BlocksInPPLNSWindow\<close> does, with the same error; otherwise both add the same weights in the same
  order, the slots are between one and \<^verbatim>\<open>ChainWindowSize\<close>, and the height of the last slot's share
  is the bottom height.\<close>

theorem window_walks_agree:
  "same_result (\<lambda>(slots, added) (bottom, added'). added = added' \<and> slots \<noteq> [] \<and>
      length slots \<le> max 1 (unat (n_ChainWindowSize c)) \<and> bottom = sd_Height (pb_Side (h (fst (last slots)))))
    (IterateBlocksInPPLNSWindow U h c difficultyByHeight get tip)
    (BlocksInPPLNSWindow U h c difficultyByHeight get tip)"
  unfolding IterateBlocksInPPLNSWindow_def BlocksInPPLNSWindow_def
proof (rule same_result_bindR [of "(=)"])
  show "same_result (=) (maxPplnsWeight difficultyByHeight (h tip)) (maxPplnsWeight difficultyByHeight (h tip))"
    by (simp add: sum.rel_eq)
  fix maxW maxW' :: Difficulty assume "maxW = maxW'"
  then show "same_result (\<lambda>(slots, added) (bottom, added'). added = added' \<and> slots \<noteq> [] \<and>
      length slots \<le> max 1 (unat (n_ChainWindowSize c)) \<and> bottom = sd_Height (pb_Side (h (fst (last slots)))))
    (iterateLoop U h c get (h tip) maxW 0 tip window_init []) (blocksLoop U h c get (h tip) maxW' 0 tip window_init)"
    using loops_sim [of window_init window_init h c 0 "[]" U get "h tip" maxW' tip]
    by (auto elim!: sum.rel_mono_strong simp: same_window_def walk_rel_def)
qed


subsection \<open>The weights of the window\<close>

definition total_weight :: "(ref \<times> Difficulty) list \<Rightarrow> nat" where
  "total_weight added = sum_list (map (\<lambda>(_, w). val w) added)"

definition total_difficulty :: "heap \<Rightarrow> (ref \<times> Difficulty) list \<Rightarrow> nat" where
  "total_difficulty h added = sum_list (map (\<lambda>(r, _). val (sd_Difficulty (pb_Side (h r)))) added)"

lemma totals_append [simp]:
  "total_weight (xs @ ys) = total_weight xs + total_weight ys"
  "total_difficulty h (xs @ ys) = total_difficulty h xs + total_difficulty h ys"
  by (simp_all add: total_weight_def total_difficulty_def)

lemma totals_one [simp]:
  "total_weight [(r, w)] = val w" "total_difficulty h [(r, w)] = val (sd_Difficulty (pb_Side (h r)))"
  "total_weight [] = 0" "total_difficulty h [] = 0"
  by (simp_all add: total_weight_def total_difficulty_def)

text \<open>The invariant of the walk between shares, and the one inside a share whose difficulty is \<open>d\<close>: what an
  uncle loses its nephew gains, and the running weight is the sum of the weights added.\<close>

definition share_inv :: "heap \<Rightarrow> Difficulty \<Rightarrow> nat \<Rightarrow> window \<Rightarrow> bool" where
  "share_inv h maxW d w \<longleftrightarrow> (total_weight (w_added w) + val (w_curWeight w)) mod 2 ^ 128 =
      (total_difficulty h (w_added w) + d) mod 2 ^ 128 \<and>
    val (w_pplnsWeight w) = total_weight (w_added w) mod 2 ^ 128 \<and> val (w_pplnsWeight w) \<le> val maxW"

definition window_inv :: "heap \<Rightarrow> window \<Rightarrow> bool" where
  "window_inv h w \<longleftrightarrow> total_weight (w_added w) mod 2 ^ 128 = total_difficulty h (w_added w) mod 2 ^ 128 \<and>
    val (w_pplnsWeight w) = total_weight (w_added w) mod 2 ^ 128"

lemma addUncle_inv:
  assumes "uint128_ok U" "n_UnclePenalty c \<le> 99" "addUncle U h c tip maxW u w = Inr w'" "share_inv h maxW d w"
  shows "share_inv h maxW d w'"
proof -
  obtain uw pen where s: "ApplyUnclePenalty U c (sd_Difficulty (pb_Side (h u))) = Inr (uw, pen)"
    and sum: "val uw + val pen = val (sd_Difficulty (pb_Side (h u)))"
    using ApplyUnclePenalty_split [OF assms(1,2)] by metis
  show ?thesis
  proof (cases "w' = w")
    case False
    let ?new = "Add (w_pplnsWeight w) uw"
    have w': "w' = w\<lparr>w_curWeight := Add (w_curWeight w) pen, w_added := w_added w @ [(u, uw)], w_pplnsWeight := ?new\<rparr>"
      and le: "?new \<le> maxW"
      using assms(3) s False by (auto simp: addUncle_def Let_def not_less split: if_splits)
    have "(total_weight (w_added w) + val uw + (val (w_curWeight w) + val pen) mod 2 ^ 128) mod 2 ^ 128 =
        (total_weight (w_added w) + val (w_curWeight w) + (val uw + val pen)) mod 2 ^ 128"
      by (subst mod_add_right_eq) (simp only: ac_simps)
    also have "\<dots> = (total_difficulty h (w_added w) + d + (val uw + val pen)) mod 2 ^ 128"
      using assms(4) unfolding share_inv_def by (metis mod_add_left_eq)
    also have "total_difficulty h (w_added w) + d + (val uw + val pen) =
        total_difficulty h (w_added w) + val (sd_Difficulty (pb_Side (h u))) + d" using sum by linarith
    finally have "(total_weight (w_added w') + val (w_curWeight w')) mod 2 ^ 128 =
        (total_difficulty h (w_added w') + d) mod 2 ^ 128"
      by (simp add: w' val_Add)
    moreover have "val ?new = (total_weight (w_added w) + val uw) mod 2 ^ 128"
      using assms(4) unfolding share_inv_def val_Add by (metis mod_add_left_eq)
    ultimately show ?thesis using le unfolding share_inv_def by (simp add: w' less_eq_Difficulty_def)
  qed (use assms(4) in simp)
qed

lemma blocksStep_inv:
  assumes "uint128_ok U" "n_UnclePenalty c \<le> 99" "blocksStep U h c get tip maxW cur w = Inr w'"
    and "window_inv h w" "val (w_pplnsWeight w) \<le> val maxW"
  shows "window_inv h w' \<and> (\<exists>pre cw. w_added w' = pre @ [(cur, cw)] \<and> total_weight pre mod 2 ^ 128 \<le> val maxW)"
proof -
  let ?d = "sd_Difficulty (pb_Side (h cur))"
  from assms(3) obtain v where v: "iteratorUncles get (h cur) (addUncle U h c tip maxW) (w\<lparr>w_curWeight := ?d\<rparr>) = Inr (v, None)"
    "w' = addBlock cur v"
    by (auto simp: blocksStep_def bindR_Inr_iff split: option.splits)
  have "share_inv h maxW (val ?d) (w\<lparr>w_curWeight := ?d\<rparr>)"
    using assms(4,5) by (auto simp: share_inv_def window_inv_def intro: mod_add_cong)
  then have inv: "share_inv h maxW (val ?d) v"
    using iteratorUncles_keeps [where P = "share_inv h maxW (val ?d)" and f = "addUncle U h c tip maxW", OF _ v(1)]
      addUncle_inv [OF assms(1,2)] by blast
  then have "window_inv h w'"
    by (simp add: v(2) window_inv_def share_inv_def addBlock_def val_Add mod_add_left_eq)
  moreover have "w_added w' = w_added v @ [(cur, w_curWeight v)]" by (simp add: v(2) addBlock_def)
  ultimately show ?thesis using inv by (auto simp: share_inv_def)
qed

lemma blocksLoop_inv:
  assumes "uint128_ok U" "n_UnclePenalty c \<le> 99" "window_inv h w" "val (w_pplnsWeight w) \<le> val maxW"
    and "blocksLoop U h c get tip maxW d cur w = Inr (bottom, added)"
  shows "total_weight added mod 2 ^ 128 = total_difficulty h added mod 2 ^ 128 \<and>
    (\<exists>pre r cw. added = pre @ [(r, cw)] \<and> bottom = sd_Height (pb_Side (h r)) \<and> total_weight pre mod 2 ^ 128 \<le> val maxW)"
  using assms
proof (induction U h c get tip maxW d cur w rule: blocksLoop.induct)
  case (1 U h c get tip maxW d cur w)
  obtain w' where w': "blocksStep U h c get tip maxW cur w = Inr w'"
    using 1(6) by (subst (asm) blocksLoop.simps) (auto split: sum.splits)
  note inv = blocksStep_inv [OF 1(2,3) w' 1(4,5)]
  show ?case
  proof (cases "added = w_added w' \<and> bottom = sd_Height (pb_Side (h cur))")
    case True
    then show ?thesis using inv unfolding window_inv_def by auto
  next
    case False
    then obtain parent where "iteratorGetParent get (h cur) = Some parent" "\<not> 0 < Cmp (w_pplnsWeight w') maxW"
      "\<not> unat (n_ChainWindowSize c) \<le> d + 1" "sd_Height (pb_Side (h cur)) \<noteq> 0"
      "blocksLoop U h c get tip maxW (d + 1) parent w' = Inr (bottom, added)"
      using 1(6) w' by (subst (asm) blocksLoop.simps) (auto split: if_splits option.splits)
    then show ?thesis
      using 1(1) [OF w' _ _ _ _ 1(2,3)] inv by (auto simp: less_Difficulty_def not_less)
  qed
qed


text \<open>What the walk needs below a share: its uncles are known, and so are, unless it is at height 0, its
  parent and what \<open>n\<close> further levels of parents need.\<close>

primrec known_window :: "heap \<Rightarrow> lookup \<Rightarrow> nat \<Rightarrow> ref \<Rightarrow> bool" where
  "known_window h get 0 cur \<longleftrightarrow> uncles_known get (h cur)"
| "known_window h get (Suc n) cur \<longleftrightarrow> uncles_known get (h cur) \<and>
     (sd_Height (pb_Side (h cur)) = 0 \<or>
      (case iteratorGetParent get (h cur) of None \<Rightarrow> False | Some p \<Rightarrow> known_window h get n p))"

lemma known_window_step:
  assumes "known_window h get n cur"
  shows "uncles_known get (h cur)"
    "n \<noteq> 0 \<Longrightarrow> sd_Height (pb_Side (h cur)) \<noteq> 0 \<Longrightarrow>
      \<exists>p. iteratorGetParent get (h cur) = Some p \<and> known_window h get (n - 1) p"
  using assms by (cases n; simp split: option.splits)+

lemma known_window_genesis:
  "uncles_known get (h cur) \<Longrightarrow> sd_Height (pb_Side (h cur)) = 0 \<Longrightarrow> known_window h get n cur"
  by (cases n) simp_all

abbreviation window_depth :: "Consensus \<Rightarrow> nat" where
  "window_depth c \<equiv> unat (n_ChainWindowSize c) - 1"

lemma addUncle_total:
  assumes "uint128_ok U" "n_UnclePenalty c \<le> 99"
  shows "\<exists>w'. addUncle U h c tip maxW u w = Inr w'"
proof -
  obtain uw pen where "ApplyUnclePenalty U c (sd_Difficulty (pb_Side (h u))) = Inr (uw, pen)"
    using ApplyUnclePenalty_split [OF assms] by metis
  then show ?thesis by (simp add: addUncle_def Let_def)
qed

lemma blocksStep_total:
  assumes "uint128_ok U" "n_UnclePenalty c \<le> 99" "uncles_known get (h cur)"
  shows "\<exists>w'. blocksStep U h c get tip maxW cur w = Inr w'"
  using iteratorUncles_total [where f = "addUncle U h c tip maxW", OF addUncle_total [OF assms(1,2)] assms(3)]
  by (metis (no_types, lifting) blocksStep_def bindR.simps(2) case_prod_conv option.case(1))

lemma blocksLoop_total:
  assumes "uint128_ok U" "n_UnclePenalty c \<le> 99" "known_window h get (window_depth c - d) cur"
  shows "\<exists>x. blocksLoop U h c get tip maxW d cur w = Inr x"
  using assms
proof (induction U h c get tip maxW d cur w rule: blocksLoop.induct)
  case (1 U h c get tip maxW d cur w)
  note known = known_window_step [OF 1(4)]
  obtain w' where w': "blocksStep U h c get tip maxW cur w = Inr w'"
    using blocksStep_total [where h = h and cur = cur, OF 1(2,3) known(1)] by blast
  show ?case
  proof (cases "\<not> Cmp (w_pplnsWeight w') maxW > 0 \<and> \<not> d + 1 \<ge> unat (n_ChainWindowSize c) \<and> sd_Height (pb_Side (h cur)) \<noteq> 0")
    case True
    then obtain p where p: "iteratorGetParent get (h cur) = Some p" "known_window h get (window_depth c - d - 1) p"
      using known(2) by auto
    then have k: "known_window h get (window_depth c - (d + 1)) p" by simp
    have "\<exists>x. blocksLoop U h c get tip maxW (d + 1) p w' = Inr x"
      by (rule 1(1) [OF w' _ _ _ p(1) 1(2,3) k]) (use True in auto)
    then show ?thesis using True w' p by (subst blocksLoop.simps) simp
  next
    case False
    then show ?thesis using w' by (subst blocksLoop.simps) auto
  qed
qed

lemma BlocksIn_spec:
  assumes "uint128_ok U" "n_UnclePenalty c \<le> 99" "maxPplnsWeight difficultyByHeight (h tip) = Inr maxW"
    and "BlocksInPPLNSWindow U h c difficultyByHeight get tip = Inr (bottom, added)"
  shows "total_weight added mod 2 ^ 128 = total_difficulty h added mod 2 ^ 128"
    "\<exists>pre r cw. added = pre @ [(r, cw)] \<and> bottom = sd_Height (pb_Side (h r)) \<and> total_weight pre mod 2 ^ 128 \<le> val maxW"
proof -
  have "window_inv h window_init" "val (w_pplnsWeight window_init) \<le> val maxW"
    by (simp_all add: window_inv_def window_init_def)
  from blocksLoop_inv [OF assms(1,2) this] assms(3,4)
  show "total_weight added mod 2 ^ 128 = total_difficulty h added mod 2 ^ 128"
    "\<exists>pre r cw. added = pre @ [(r, cw)] \<and> bottom = sd_Height (pb_Side (h r)) \<and> total_weight pre mod 2 ^ 128 \<le> val maxW"
    by (auto simp: BlocksInPPLNSWindow_def)
qed

text \<open>C2: the PPLNS window.  When the main-chain difficulty of the tip is known, and so are the parents and uncles of
  the last shares, as many as the chain window has (fewer when the genesis share comes first),
  the walk succeeds; the weights it hands out are, in total and modulo \<open>2^128\<close>,
  the difficulties of the shares and uncles it counts, so the uncle penalty only moves weight;
  and all but the last share stay within the weight limit, which one non-uncle share may pass.
  Nothing is asked of shares below the window.\<close>

theorem PPLNS_window_weights:
  assumes "uint128_ok U" and "n_UnclePenalty c \<le> 99" and "maxPplnsWeight difficultyByHeight (h tip) = Inr maxW"
    and "known_window h get (window_depth c) tip"
  shows "\<exists>bottom added pre r cw. BlocksInPPLNSWindow U h c difficultyByHeight get tip = Inr (bottom, added) \<and>
    total_weight added mod 2 ^ 128 = total_difficulty h added mod 2 ^ 128 \<and>
    added = pre @ [(r, cw)] \<and> bottom = sd_Height (pb_Side (h r)) \<and> total_weight pre mod 2 ^ 128 \<le> val maxW"
proof -
  obtain bottom added where "BlocksInPPLNSWindow U h c difficultyByHeight get tip = Inr (bottom, added)"
    using blocksLoop_total [where d = 0, OF assms(1,2)] assms(3,4) by (force simp: BlocksInPPLNSWindow_def)
  then show ?thesis using BlocksIn_spec [where h = h and tip = tip, OF assms(1-3)] by blast
qed

text \<open>A small chain: a genesis share, two shares at height 1, and a tip that includes one as an uncle.\<close>

definition ex_share :: "hash \<Rightarrow> u64 \<Rightarrow> hash \<Rightarrow> hash list \<Rightarrow> u64 \<Rightarrow> PoolBlock" where
  "ex_share owner height parent uncles cumulative = zeroPoolBlock\<lparr>pb_Main := example_block, pb_Side := zeroSideData\<lparr>
     sd_PublicKey := (owner, 7), sd_Parent := parent, sd_Uncles := uncles, sd_Height := height,
     sd_Difficulty := Difficulty 1000 0, sd_CumulativeDifficulty := Difficulty cumulative 0\<rparr>,
     pb_Verified := True, pb_ShareVersion := ShareVersion_V2\<rparr>"

definition ex_heap :: heap where
  "ex_heap r = (if r = 0 then ex_share 1 0 0 [] 1000 else if r = 5 then ex_share 1 1 100 [] 2000
     else if r = 2 then ex_share 2 1 100 [] 2000 else ex_share 3 2 101 [102] 4000)"

definition ex_get :: lookup where
  "ex_get i = (if i = 100 then Some 0 else if i = 101 then Some 5 else if i = 102 then Some 2
     else if i = 103 then Some 3 else None)"

lemma ex_limit: "maxPplnsWeight (\<lambda>_. Difficulty 1000000 0) (ex_heap 3) = Inr (MulBy64 (Difficulty 1000000 0) 2)"
  by (simp add: maxPplnsWeight_def ex_heap_def ex_share_def ZeroHash_def ZeroDifficulty_def version_consts)

lemma default_penalty: "n_UnclePenalty ConsensusDefault \<le> 99" "n_UnclePenalty ConsensusDefault = 20"
  by (simp_all add: ConsensusDefault_def)

lemma ex_known: "known_window ex_heap ex_get (window_depth ConsensusDefault) 3"
proof -
  have "ex_get 102 = Some 2" "ex_get 101 = Some 5" "ex_get 100 = Some 0" by (simp_all add: ex_get_def)
  moreover have "window_depth ConsensusDefault = Suc (Suc (Suc 2156))" by (simp add: ConsensusDefault_def)
  ultimately show ?thesis
    by (simp only: known_window.simps)
      (simp add: ex_heap_def ex_share_def uncles_known_def iteratorGetParent_def zeroPoolBlock_def)
qed

theorem PPLNS_window_weights_witness:
  "\<exists>bottom added. BlocksInPPLNSWindow uint128_ref ex_heap ConsensusDefault (\<lambda>_. Difficulty 1000000 0) ex_get 3 =
      Inr (bottom, added) \<and> total_weight added mod 2 ^ 128 = total_difficulty ex_heap added mod 2 ^ 128"
  using PPLNS_window_weights [OF uint128_ref_ok default_penalty(1) ex_limit ex_known] by auto


section \<open>Shares and outputs\<close>

text \<open>\<^verbatim>\<open>nil\<close> results are \<open>None\<close>.  An error of the walk gives nil; a panic is not caught here.\<close>

definition GetSharesOrdered ::
  "(Share list \<Rightarrow> Share list) \<Rightarrow> uint128_pkg \<Rightarrow> heap \<Rightarrow> Consensus \<Rightarrow> (u64 \<Rightarrow> Difficulty) \<Rightarrow> lookup \<Rightarrow> ref \<Rightarrow>
    (Share list option \<times> u64) result" where
  "GetSharesOrdered srt U h c difficultyByHeight get tip =
    (case BlocksInPPLNSWindow U h c difficultyByHeight get tip of
       Inl (Panic p) \<Rightarrow> Inl (Panic p)
     | Inl _ \<Rightarrow> Inr (None, 0)
     | Inr (bottomHeight, added) \<Rightarrow>
         Inr (Some (Compact srt (map (\<lambda>(b, weight). \<lparr>s_Address = sd_PublicKey (pb_Side (h b)), s_Weight = weight\<rparr>) added)),
              bottomHeight))"

definition GetShares ::
  "(Share list \<Rightarrow> Share list) \<Rightarrow> (byte list \<Rightarrow> hash) \<Rightarrow> uint128_pkg \<Rightarrow> heap \<Rightarrow> Consensus \<Rightarrow> (u64 \<Rightarrow> Difficulty) \<Rightarrow>
    lookup \<Rightarrow> ref \<Rightarrow> (Share list option \<times> u64) result" where
  "GetShares srt K U h c difficultyByHeight get tip =
    bindR (GetSharesOrdered srt U h c difficultyByHeight get tip) (\<lambda>(shares, bottomHeight).
      case shares of
        None \<Rightarrow> Inr (None, bottomHeight)
      | Some shares \<Rightarrow>
          bindR (ShuffleShares K shares (pb_ShareVersion (h tip)) (sd_CoinbasePrivateKeySeed (pb_Side (h tip))))
            (\<lambda>shares. Inr (Some shares, bottomHeight)))"

text \<open>\<^verbatim>\<open>CalculateOutputs\<close>; \<open>ephemeral\<close> is the derivation cache's \<^verbatim>\<open>GetEphemeralPublicKey\<close>: the output key and view
  tag of an address under the transaction key at an index.\<close>

definition CalculateOutputs ::
  "(Share list \<Rightarrow> Share list) \<Rightarrow> (byte list \<Rightarrow> hash) \<Rightarrow> uint128_pkg \<Rightarrow> (PackedAddress \<Rightarrow> hash \<Rightarrow> u64 \<Rightarrow> hash \<times> byte) \<Rightarrow>
    heap \<Rightarrow> Consensus \<Rightarrow> (u64 \<Rightarrow> Difficulty) \<Rightarrow> lookup \<Rightarrow> ref \<Rightarrow> (Output list option \<times> u64) result" where
  "CalculateOutputs srt K U ephemeral h c difficultyByHeight get block =
    bindR (GetShares srt K U h c difficultyByHeight get block) (\<lambda>(tmpShares, bottomHeight).
    bindR (SplitReward U (c_TotalReward (b_Coinbase (pb_Main (h block)))) (case tmpShares of None \<Rightarrow> [] | Some s \<Rightarrow> s)) (\<lambda>tmpRewards.
      case (tmpShares, tmpRewards) of
        (Some shares, Some rewards) \<Rightarrow>
          if length rewards \<noteq> length shares then Inr (None, 0)
          else Inr (Some (map (\<lambda>i.
             let (key, tag) = ephemeral (s_Address (shares ! i)) (sd_CoinbasePrivateKey (pb_Side (h block))) (of_nat i)
             in \<lparr>o_Index = of_nat i, o_Reward = rewards ! i, o_EphemeralPublicKey = key,
                 o_Type = GetTransactionOutputType (h block), o_ViewTag = tag\<rparr>) [0..<length shares]), bottomHeight)
      | _ \<Rightarrow> Inr (None, 0)))"

text \<open>The share of an address in the window, as a number.\<close>

definition owned_weight :: "heap \<Rightarrow> (ref \<times> Difficulty) list \<Rightarrow> PackedAddress \<Rightarrow> nat" where
  "owned_weight h added a = (\<Sum>(r, w) \<leftarrow> added. if sd_PublicKey (pb_Side (h r)) = a then val w else 0)"

definition owners :: "heap \<Rightarrow> (ref \<times> Difficulty) list \<Rightarrow> PackedAddress set" where
  "owners h added = (\<lambda>(r, _). sd_PublicKey (pb_Side (h r))) ` set added"

abbreviation window_shares :: "heap \<Rightarrow> (ref \<times> Difficulty) list \<Rightarrow> Share list" where
  "window_shares h added \<equiv> map (\<lambda>(b, weight). \<lparr>s_Address = sd_PublicKey (pb_Side (h b)), s_Weight = weight\<rparr>) added"

lemma owned_le_total: "owned_weight h added a \<le> total_weight added"
  unfolding owned_weight_def total_weight_def by (rule sum_list_mono) auto

lemma weight_of_window:
  "total_weight added < 2 ^ 128 \<Longrightarrow> weight_of a (window_shares h added) = owned_weight h added a"
  using owned_le_total [of h added a]
  by (simp add: weight_of_def owned_weight_def comp_def case_prod_unfold cong: if_cong)

lemma distinct_if_sorted_less: "sorted_wrt (\<lambda>a b. f a < (f b :: 'a::order)) xs \<Longrightarrow> distinct (map f xs)"
  by (induction xs) auto

lemma weight_of_distinct:
  assumes "distinct (map s_Address s)" "x \<in> set s"
  shows "weight_of (s_Address x) s = val (s_Weight x)"
proof -
  have "(\<Sum>y\<leftarrow>s. if s_Address y = s_Address x then val (s_Weight y) else 0) = val (s_Weight x)"
    using assms
  proof (induction s)
    case (Cons y s)
    have "a \<notin> s_Address ` set s \<Longrightarrow> (\<Sum>y\<leftarrow>s. if s_Address y = a then val (s_Weight y) else 0) = 0" for a
      by (induction s) auto
    from this [of "s_Address y"] show ?case using Cons by (cases "x = y") (auto simp del: sum_list_eq_0_iff)
  qed simp
  then show ?thesis using val_lt [of "s_Weight x"] by (simp add: weight_of_def)
qed


lemma GetShares_spec:
  assumes "share_sorter srt" "BlocksInPPLNSWindow U h c difficultyByHeight get tip = Inr (bottom, added)"
    and "total_weight added < 2 ^ 128" "length added < 2 ^ 63"
  obtains shares where "GetShares srt K U h c difficultyByHeight get tip = Inr (Some shares, bottom)"
    "distinct (map s_Address shares)" "s_Address ` set shares = owners h added"
    "\<forall>x \<in> set shares. val (s_Weight x) = owned_weight h added (s_Address x)"
proof -
  define cs where "cs = Compact srt (window_shares h added)"
  note spec = share_sorter.Compact_spec [OF assms(1), where s = "window_shares h added", folded cs_def]
  have dist: "distinct (map s_Address cs)" using spec(1) by (rule distinct_if_sorted_less)
  have set: "s_Address ` set cs = owners h added"
    unfolding spec(2) owners_def by (simp only: set_map image_image case_prod_unfold Share.simps)
  have w: "val (s_Weight x) = owned_weight h added (s_Address x)" if "x \<in> set cs" for x
    using weight_of_distinct [OF dist that] spec(3) [of "s_Address x"] weight_of_window [OF assms(3), of "s_Address x" h]
    by (simp only:)
  have "length cs = card (owners h added)" using distinct_card [OF dist] set by simp
  also have "\<dots> \<le> length added" unfolding owners_def by (meson card_image_le card_length finite_set order_trans)
  finally have "length cs < 2 ^ 63" using assms(4) by linarith
  from shuffle_ok [OF this] obtain ys where
    ys: "ShuffleShares K cs (pb_ShareVersion (h tip)) (sd_CoinbasePrivateKeySeed (pb_Side (h tip))) = Inr ys" "mset ys = mset cs"
    by blast
  have "distinct (map s_Address ys)" using dist ys(2) mset_eq_imp_distinct_iff [of "map s_Address ys" "map s_Address cs"] by simp
  moreover have "set ys = set cs" using ys(2) by (rule mset_eq_setD)
  moreover have "GetShares srt K U h c difficultyByHeight get tip = Inr (Some ys, bottom)"
    using ys(1) by (simp add: GetShares_def GetSharesOrdered_def assms(2) flip: cs_def)
  ultimately show thesis using that [of ys] set w by simp
qed

lemma sum_owned:
  assumes "finite A" "owners h added \<subseteq> A"
  shows "(\<Sum>a\<in>A. owned_weight h added a) = total_weight added"
  using assms(2)
proof (induction added)
  case (Cons x xs)
  obtain r w where x: "x = (r, w)" by (cases x)
  have "(\<Sum>a\<in>A. owned_weight h (x # xs) a) =
      (\<Sum>a\<in>A. (if sd_PublicKey (pb_Side (h r)) = a then val w else 0)) + (\<Sum>a\<in>A. owned_weight h xs a)"
    by (simp add: owned_weight_def x sum.distrib)
  also have "\<dots> = val w + total_weight xs"
    using Cons assms(1) by (simp add: owners_def x sum.delta)
  finally show ?case by (simp add: total_weight_def x)
qed (simp add: owned_weight_def total_weight_def)

lemma sum_shares:
  assumes "distinct (map s_Address s)" "s_Address ` set s = owners h added"
    and "\<forall>x \<in> set s. val (s_Weight x) = owned_weight h added (s_Address x)"
  shows "sum_list (weights s) = total_weight added"
proof -
  have "sum_list (weights s) = sum_list (map (owned_weight h added) (map s_Address s))"
    using assms(3) unfolding weights_def map_map by (intro arg_cong [of _ _ sum_list] map_cong) auto
  also have "\<dots> = (\<Sum>a \<in> owners h added. owned_weight h added a)"
    using sum_list_distinct_conv_sum_set [OF assms(1)] assms(2) by simp
  also have "\<dots> = total_weight added" by (rule sum_owned) (simp_all add: owners_def)
  finally show ?thesis .
qed

text \<open>C1: the miners are paid what the window owes them.  If the window of a share weighs something, and its
  weight times the block reward fits 128 bits, \<^verbatim>\<open>CalculateOutputs\<close> succeeds with one output per owner
  of a share or counted uncle in the window, no owner twice; the outputs are numbered in order,
  have the keys of their owners and the transaction type of the share, their amounts add up to
  exactly the block reward, and each is its owner's part of the total weight rounded down, or
  one more.\<close>

theorem CalculateOutputs_pays:
  assumes "share_sorter srt" and "uint128_ok U"
    and "BlocksInPPLNSWindow U h c difficultyByHeight get tip = Inr (bottom, added)"
    and "0 < total_weight added" and "total_weight added < 2 ^ 128" and "length added < 2 ^ 63"
    and "total_weight added * unat (c_TotalReward (b_Coinbase (pb_Main (h tip)))) < 2 ^ 128"
  shows "\<exists>outs payees. CalculateOutputs srt K U ephemeral h c difficultyByHeight get tip = Inr (Some outs, bottom) \<and>
    distinct payees \<and> set payees = owners h added \<and> length outs = length payees \<and>
    sum_list (map (\<lambda>out. unat (o_Reward out)) outs) = unat (c_TotalReward (b_Coinbase (pb_Main (h tip)))) \<and>
    (\<forall>i < length outs. o_Index (outs ! i) = of_nat i \<and> o_Type (outs ! i) = GetTransactionOutputType (h tip) \<and>
      (o_EphemeralPublicKey (outs ! i), o_ViewTag (outs ! i)) =
        ephemeral (payees ! i) (sd_CoinbasePrivateKey (pb_Side (h tip))) (of_nat i) \<and>
      (\<exists>e \<in> {0, 1}. unat (o_Reward (outs ! i)) =
        owned_weight h added (payees ! i) * unat (c_TotalReward (b_Coinbase (pb_Main (h tip)))) div total_weight added + e))"
proof -
  let ?R = "c_TotalReward (b_Coinbase (pb_Main (h tip)))"
  obtain shares where sh: "GetShares srt K U h c difficultyByHeight get tip = Inr (Some shares, bottom)"
    "distinct (map s_Address shares)" "s_Address ` set shares = owners h added"
    "\<forall>x \<in> set shares. val (s_Weight x) = owned_weight h added (s_Address x)"
    using GetShares_spec [OF assms(1,3,5,6)] by metis
  have sum: "sum_list (weights shares) = total_weight added" by (rule sum_shares [OF sh(2-4)])
  obtain rs where rs: "SplitReward U ?R shares = Inr (Some rs)" "length rs = length shares"
    "sum_list (map unat rs) = unat ?R"
    "\<forall>i < length shares. val (s_Weight (shares ! i)) * unat ?R div total_weight added \<le> unat (rs ! i) \<and>
      unat (rs ! i) \<le> val (s_Weight (shares ! i)) * unat ?R div total_weight added + 1"
    using split_exact [OF assms(2), of shares ?R] assms(4,5,7) unfolding sum by blast
  define outs where "outs = map (\<lambda>i.
     let (key, tag) = ephemeral (s_Address (shares ! i)) (sd_CoinbasePrivateKey (pb_Side (h tip))) (of_nat i)
     in \<lparr>o_Index = of_nat i, o_Reward = rs ! i, o_EphemeralPublicKey = key,
         o_Type = GetTransactionOutputType (h tip), o_ViewTag = tag\<rparr>) [0..<length shares]"
  have "CalculateOutputs srt K U ephemeral h c difficultyByHeight get tip = Inr (Some outs, bottom)"
    using sh(1) rs(1,2) by (simp add: CalculateOutputs_def outs_def)
  moreover have rew: "map (\<lambda>out. unat (o_Reward out)) outs = map unat rs"
    using rs(2) by (auto simp: outs_def case_prod_unfold Let_def intro!: nth_equalityI)
  moreover have "\<exists>e \<in> {0, 1}. unat (rs ! i) =
      owned_weight h added (s_Address (shares ! i)) * unat ?R div total_weight added + e" if "i < length shares" for i
    using rs(4) sh(4) that nth_mem [OF that] by (auto simp: le_Suc_eq)
  ultimately show ?thesis
    using sh(2,3) rs(3)
    by (intro exI [of _ outs] exI [of _ "map s_Address shares"]) (simp add: rew, simp add: outs_def case_prod_unfold Let_def)
qed


lemmas small_difficulties = Add_def Add64_def MulBy64_def Mul64_def Cmp_def

lemma ex_sides:
  "pb_iterationCache (ex_heap r) = None" "sd_Difficulty (pb_Side (ex_heap r)) = Difficulty 1000 0"
  "sd_Uncles (pb_Side (ex_heap 3)) = [102]" "sd_Height (pb_Side (ex_heap 3)) = 2" "sd_Parent (pb_Side (ex_heap 3)) = 101"
  "sd_Uncles (pb_Side (ex_heap 5)) = []" "sd_Height (pb_Side (ex_heap 5)) = 1" "sd_Parent (pb_Side (ex_heap 5)) = 100"
  "sd_Uncles (pb_Side (ex_heap 0)) = []" "sd_Height (pb_Side (ex_heap 0)) = 0" "sd_Height (pb_Side (ex_heap 2)) = 1"
  by (simp_all add: ex_heap_def ex_share_def zeroPoolBlock_def)

lemma ex_penalty:
  "ApplyUnclePenalty uint128_ref ConsensusDefault (Difficulty 1000 0) = Inr (Difficulty 800 0, Difficulty 200 0)"
proof -
  have "ApplyUnclePenalty uint128_ref ConsensusDefault (Difficulty 1000 0) = Inr (of_val 800, of_val 200)"
    by (simp add: ApplyUnclePenalty_def default_penalty Div64_def Sub_def uint128_ref_def val_MulBy64 val_of_val)
      (simp add: of_val_def)
  then show ?thesis by (simp add: of_val_def)
qed

lemma ex_window:
  "BlocksInPPLNSWindow uint128_ref ex_heap ConsensusDefault (\<lambda>_. Difficulty 1000000 0) ex_get 3 =
    Inr (0, [(2, Difficulty 800 0), (3, Difficulty 1200 0), (5, Difficulty 1000 0), (0, Difficulty 1000 0)])"
proof -
  let ?step = "blocksStep uint128_ref ex_heap ConsensusDefault ex_get (ex_heap 3) (Difficulty 2000000 0)"
  have uncle: "ex_get 102 = Some 2" by (simp add: ex_get_def)
  have window: "n_ChainWindowSize ConsensusDefault = 2160" by (simp add: ConsensusDefault_def)
  have "?step 3 window_init = Inr \<lparr>w_pplnsWeight = Difficulty 2000 0, w_curWeight = Difficulty 1200 0,
      w_added = [(2, Difficulty 800 0), (3, Difficulty 1200 0)], w_curUncles = []\<rparr>"
    by (simp add: blocksStep_def iteratorUncles_def ex_sides uncle addUncle_def window ex_penalty small_difficulties
        addBlock_def window_init_def ZeroDifficulty_def word_le_nat_alt Let_def)
  moreover have "?step r w = Inr (addBlock r (w\<lparr>w_curWeight := Difficulty 1000 0\<rparr>))" if "r = 0 \<or> r = 5" for r w
    using that by (auto simp: blocksStep_def iteratorUncles_def ex_sides)
  ultimately have "blocksLoop uint128_ref ex_heap ConsensusDefault ex_get (ex_heap 3) (Difficulty 2000000 0) 0 3 window_init =
    Inr (0, [(2, Difficulty 800 0), (3, Difficulty 1200 0), (5, Difficulty 1000 0), (0, Difficulty 1000 0)])"
    by (simp add: blocksLoop.simps [of _ _ _ _ _ _ _ 3] blocksLoop.simps [of _ _ _ _ _ _ _ 5] blocksLoop.simps [of _ _ _ _ _ _ _ 0]
        less_Difficulty_def val_def ex_sides window iteratorGetParent_def ex_get_def addBlock_def small_difficulties)
  moreover have "MulBy64 (Difficulty 1000000 0) 2 = Difficulty 2000000 0" by (simp add: small_difficulties)
  ultimately show ?thesis unfolding BlocksInPPLNSWindow_def ex_limit bindR.simps by simp
qed

theorem CalculateOutputs_pays_witness:
  "\<exists>outs (payees :: PackedAddress list). CalculateOutputs (sort_cmp share_cmp) (\<lambda>_. 5) uint128_ref (\<lambda>_ _ i. (ucast i, 9)) ex_heap ConsensusDefault
      (\<lambda>_. Difficulty 1000000 0) ex_get 3 = Inr (Some outs, 0) \<and> distinct payees \<and>
    set payees = {(1, 7), (2, 7), (3, 7)} \<and> sum_list (map (\<lambda>out. unat (o_Reward out)) outs) = 600000000000"
proof -
  let ?added = "[(2, Difficulty 800 0), (3, Difficulty 1200 0), (5, Difficulty 1000 0), (0, Difficulty 1000 0)]"
  have "total_weight ?added = 4000" by (simp add: total_weight_def val_def)
  moreover have "owners ex_heap ?added = {(1, 7), (2, 7), (3, 7)}" by (auto simp: owners_def ex_heap_def ex_share_def)
  moreover have "c_TotalReward (b_Coinbase (pb_Main (ex_heap 3))) = 600000000000"
    by (simp add: ex_heap_def ex_share_def example_block_def example_coinbase_def)
  ultimately show ?thesis
    using CalculateOutputs_pays [OF ins.share_sorter_axioms uint128_ref_ok ex_window, of "\<lambda>_. 5" "\<lambda>_ _ i. (ucast i, 9)"]
    by auto
qed


section \<open>The next difficulty\<close>

datatype DifficultyData = DifficultyData (cumulativeDifficulty: Difficulty) (timestamp: u64)

definition minMax :: "u64 \<Rightarrow> u64 \<Rightarrow> DifficultyData \<Rightarrow> Difficulty \<times> Difficulty \<Rightarrow> Difficulty \<times> Difficulty" where
  "minMax timestampLowerBound timestampUpperBound data = (\<lambda>(minDifficulty, maxDifficulty).
    if timestampLowerBound \<le> timestamp data \<and> timestamp data \<le> timestampUpperBound then
      (if Cmp minDifficulty (cumulativeDifficulty data) > 0 then cumulativeDifficulty data else minDifficulty,
       if Cmp maxDifficulty (cumulativeDifficulty data) < 0 then cumulativeDifficulty data else maxDifficulty)
    else (minDifficulty, maxDifficulty))"

text \<open>The last part of \<^verbatim>\<open>NextDifficulty\<close>, under its deferred \<^verbatim>\<open>recover\<close>: every panic becomes an error.\<close>

definition recover :: "'a result \<Rightarrow> 'a result" where
  "recover r = (case r of Inl (Panic _) \<Rightarrow> Inl (Err ''panic in NextDifficulty, wrap occured?'') | _ \<Rightarrow> r)"

definition scaledDifficulty :: "uint128_pkg \<Rightarrow> Consensus \<Rightarrow> Difficulty \<Rightarrow> Difficulty \<Rightarrow> u64 \<Rightarrow> Difficulty result" where
  "scaledDifficulty U c minDifficulty maxDifficulty deltaTimestamp =
    bindR (u_Sub U maxDifficulty minDifficulty) (\<lambda>deltaDifficulty.
    bindR (u_Mul64 U deltaDifficulty (n_TargetBlockTime c)) (\<lambda>scaled.
    bindR (u_Div64 U scaled deltaTimestamp) (\<lambda>curDifficulty.
      if u_Cmp64 U curDifficulty (n_MinimumDifficulty c) < 0 then Inr (DifficultyFrom64 (n_MinimumDifficulty c))
      else Inr curDifficulty)))"

text \<open>\<^verbatim>\<open>NextDifficulty\<close>; the outer option is that of \<^const>\<open>NthElementSlice\<close>, a loop not known to end by its
  definition.  With no timestamps the low index is negative and indexing panics.\<close>

definition NextDifficulty :: "uint128_pkg \<Rightarrow> Consensus \<Rightarrow> u64 list \<Rightarrow> DifficultyData list \<Rightarrow> Difficulty result option" where
  "NextDifficulty U c timestamps difficultyData =
    (if timestamps = [] then Some (Inl (Panic ''index out of range''))
     else
       let cutSize = (length timestamps + 9) div 10;
           lowIndex = cutSize - 1;
           upperIndex = length timestamps - cutSize
       in case NthElementSlice timestamps lowIndex of
            None \<Rightarrow> None
          | Some (Inl e) \<Rightarrow> Some (Inl e)
          | Some (Inr timestamps1) \<Rightarrow>
              (case NthElementSlice timestamps1 upperIndex of
                 None \<Rightarrow> None
               | Some (Inl e) \<Rightarrow> Some (Inl e)
               | Some (Inr timestamps2) \<Rightarrow>
                   let timestampLowerBound = timestamps1 ! lowIndex;
                       timestampUpperBound = timestamps2 ! upperIndex;
                       deltaIndex = (if upperIndex > lowIndex then of_nat (upperIndex - lowIndex) else 1);
                       deltaTimestamp = (if timestampUpperBound > timestampLowerBound + deltaIndex
                                         then timestampUpperBound - timestampLowerBound else deltaIndex);
                       (minDifficulty, maxDifficulty) =
                         fold (minMax timestampLowerBound timestampUpperBound) difficultyData (MaxDifficulty, ZeroDifficulty)
                   in Some (recover (scaledDifficulty U c minDifficulty maxDifficulty deltaTimestamp))))"

text \<open>\<^verbatim>\<open>GetDifficultyForNextBlock\<close> gathers the data of the window, then asks for the next difficulty: the
  difficulty, the verification error and the invalidity error.\<close>

definition blockData :: "PoolBlock \<Rightarrow> DifficultyData" where
  "blockData b = DifficultyData (sd_CumulativeDifficulty (pb_Side b)) (b_Timestamp (pb_Main b))"

definition gatherUncle :: "heap \<Rightarrow> Consensus \<Rightarrow> PoolBlock \<Rightarrow> ref \<Rightarrow> DifficultyData list \<Rightarrow> DifficultyData list result" where
  "gatherUncle h c tip uncle data =
    (if sd_Height (pb_Side tip) - sd_Height (pb_Side (h uncle)) \<ge> n_ChainWindowSize c then Inr data
     else Inr (data @ [blockData (h uncle)]))"

function gatherLoop ::
  "heap \<Rightarrow> Consensus \<Rightarrow> lookup \<Rightarrow> PoolBlock \<Rightarrow> nat \<Rightarrow> ref \<Rightarrow> DifficultyData list \<Rightarrow> DifficultyData list result" where
  "gatherLoop h c get tip blockDepth cur data =
    (case iteratorUncles get (h cur) (gatherUncle h c tip) (data @ [blockData (h cur)]) of
       Inl e \<Rightarrow> Inl e
     | Inr (_, Some e) \<Rightarrow> Inl e
     | Inr (data', None) \<Rightarrow>
         if blockDepth + 1 \<ge> unat (n_ChainWindowSize c) then Inr data'
         else if sd_Height (pb_Side (h cur)) = 0 then Inr data'
         else (case iteratorGetParent get (h cur) of
                 None \<Rightarrow> Inl (Err ''could not find parent'')
               | Some parent \<Rightarrow> gatherLoop h c get tip (blockDepth + 1) parent data'))"
  by pat_completeness auto
termination
  by (relation "measure (\<lambda>(h, c, get, tip, d, cur, data). unat (n_ChainWindowSize c) - d)") auto

declare gatherLoop.simps [simp del]

definition GetDifficultyForNextBlock ::
  "uint128_pkg \<Rightarrow> heap \<Rightarrow> Consensus \<Rightarrow> lookup \<Rightarrow> ref \<Rightarrow> (Difficulty \<times> error option \<times> error option) option" where
  "GetDifficultyForNextBlock U h c get tip =
    (case gatherLoop h c get (h tip) 0 tip [] of
       Inl e \<Rightarrow> Some (ZeroDifficulty, Some e, None)
     | Inr data \<Rightarrow>
         (case NextDifficulty U c (map timestamp data) data of
            None \<Rightarrow> None
          | Some (Inl e) \<Rightarrow> Some (ZeroDifficulty, None, Some e)
          | Some (Inr d) \<Rightarrow> Some (d, None, None)))"


definition in_bounds :: "u64 \<Rightarrow> u64 \<Rightarrow> DifficultyData list \<Rightarrow> Difficulty set" where
  "in_bounds lo up data = cumulativeDifficulty ` {x \<in> set data. lo \<le> timestamp x \<and> timestamp x \<le> up}"

lemma fold_minMax:
  "fold (minMax lo up) data (a, b) = (Min (insert a (in_bounds lo up data)), Max (insert b (in_bounds lo up data)))"
proof (induction data arbitrary: a b)
  case Nil
  show ?case by (simp add: in_bounds_def)
next
  case (Cons x data)
  let ?S = "in_bounds lo up data"
  have fin: "finite ?S" by (simp add: in_bounds_def)
  have cons: "in_bounds lo up (x # data) =
    (if lo \<le> timestamp x \<and> timestamp x \<le> up then insert (cumulativeDifficulty x) ?S else ?S)"
    by (auto simp: in_bounds_def)
  have "minMax lo up x (a, b) = (if lo \<le> timestamp x \<and> timestamp x \<le> up
    then (min a (cumulativeDifficulty x), max b (cumulativeDifficulty x)) else (a, b))"
    by (auto simp: minMax_def min_def max_def)
  then show ?case
    using fin by (auto simp: Cons.IH cons) (cases "?S = {}"; simp add: min.assoc max.assoc)+
qed

lemma Difficulty_bounds: "d \<le> MaxDifficulty" "ZeroDifficulty \<le> d"
  using val_lt [of d] by (simp_all add: less_eq_Difficulty_def)

lemma scaledDifficulty_spec:
  assumes "uint128_ok U" "mn \<le> mx"
  shows "recover (scaledDifficulty U c mn mx dt) =
    (if (val mx - val mn) * unat (n_TargetBlockTime c) < 2 ^ 128 \<and> dt \<noteq> 0
     then Inr (of_val (max (unat (n_MinimumDifficulty c)) ((val mx - val mn) * unat (n_TargetBlockTime c) div unat dt)))
     else Inl (Err ''panic in NextDifficulty, wrap occured?''))"
proof -
  let ?x = "(val mx - val mn) * unat (n_TargetBlockTime c)"
  have sub: "u_Sub U mx mn = Inr (of_val (val mx - val mn))" "val (of_val (val mx - val mn)) = val mx - val mn"
    using assms val_lt [of mx] by (simp_all add: uint128_okD less_eq_Difficulty_def val_of_val)
  have from64: "DifficultyFrom64 m = of_val (unat m)" for m
    by (simp add: DifficultyFrom64_def NewDifficulty_def of_val_def unat_lt_64 div_less)
  show ?thesis
  proof (cases "?x < 2 ^ 128")
    case True
    then have "?x div unat dt < 2 ^ 128" by (meson div_le_dividend le_less_trans)
    with True show ?thesis
      using assms sub by (simp add: scaledDifficulty_def uint128_okD val_of_val from64 recover_def max_def div_panic_def)
  next
    case False
    then show ?thesis using assms(1) sub by (simp add: scaledDifficulty_def uint128_okD recover_def)
  qed
qed

lemma nth_elements:
  assumes "lo < length ts" "up < length ts"
  obtains t1 t2 where "NthElementSlice ts lo = Some (Inr t1)" "t1 ! lo = sort ts ! lo"
    "NthElementSlice t1 up = Some (Inr t2)" "t2 ! up = sort (ts :: u64 list) ! up"
proof -
  obtain t1 where t1: "NthElementSlice ts lo = Some (Inr t1)" "mset t1 = mset ts" "t1 ! lo = sort ts ! lo"
    using nth_element_ok [OF assms(1)] by blast
  then have "up < length t1" "sort t1 = sort ts"
    using assms(2) by (metis size_mset, metis properties_for_sort mset_sort sorted_sort)
  then show thesis using that nth_element_ok [of up t1] t1 by metis
qed


text \<open>The bounds the next difficulty is computed from.\<close>

definition cut_size :: "'a list \<Rightarrow> nat" where
  "cut_size data = (length data + 9) div 10"

definition lower_time :: "DifficultyData list \<Rightarrow> u64" where
  "lower_time data = sort (map timestamp data) ! (cut_size data - 1)"

definition upper_time :: "DifficultyData list \<Rightarrow> u64" where
  "upper_time data = sort (map timestamp data) ! (length data - cut_size data)"

definition delta_time :: "DifficultyData list \<Rightarrow> u64" where
  "delta_time data =
    (let n = of_nat (max 1 (length data + 1 - 2 * cut_size data)) in
     if upper_time data > lower_time data + n then upper_time data - lower_time data else n)"

definition counted :: "DifficultyData list \<Rightarrow> Difficulty set" where
  "counted data = in_bounds (lower_time data) (upper_time data) data"

lemma cut_size_bounds:
  assumes "data \<noteq> []"
  shows "cut_size data - 1 < length data" "length data - cut_size data < length data" "0 < cut_size data"
    "cut_size data - 1 \<le> length data - cut_size data"
proof -
  have "0 < length data" using assms by simp
  then show "cut_size data - 1 < length data" "length data - cut_size data < length data" "0 < cut_size data"
    "cut_size data - 1 \<le> length data - cut_size data"
    unfolding cut_size_def by linarith+
qed

lemma lower_time_in: "data \<noteq> [] \<Longrightarrow> lower_time data \<in> set (map timestamp data)"
  using cut_size_bounds(1) [of data] unfolding lower_time_def by (metis length_map length_sort nth_mem set_sort)

lemma counted_props:
  assumes "data \<noteq> []"
  shows "finite (counted data)" "counted data \<noteq> {}" "lower_time data \<le> upper_time data"
proof -
  show le: "lower_time data \<le> upper_time data"
    using cut_size_bounds [OF assms] by (auto simp: lower_time_def upper_time_def intro: sorted_nth_mono)
  obtain x where "x \<in> set data" "timestamp x = lower_time data" using lower_time_in [OF assms] by auto
  then have "cumulativeDifficulty x \<in> counted data" using le by (auto simp: counted_def in_bounds_def)
  then show "counted data \<noteq> {}" by blast
  show "finite (counted data)" by (simp add: counted_def in_bounds_def)
qed

lemma delta_time_nonzero:
  assumes "data \<noteq> []" "unat (lower_time data) + length data < 2 ^ 64"
  shows "delta_time data \<noteq> 0"
proof -
  define n where "n = max 1 (length data + 1 - 2 * cut_size data)"
  have n: "n \<le> length data" "n \<noteq> 0" using cut_size_bounds [OF assms(1)] unfolding n_def by linarith+
  then have u: "unat (of_nat n :: u64) = n" using assms(2) by (intro unat_of_nat_small) simp
  then have nz: "(of_nat n :: u64) \<noteq> 0" using n(2) by (metis unat_0)
  have "unat (lower_time data + of_nat n) = unat (lower_time data) + n"
    using assms(2) n u by (simp add: unat_word_ariths)
  then have "\<not> lower_time data > lower_time data + of_nat n" by (simp only: word_less_nat_alt)
  then show ?thesis using nz unfolding delta_time_def Let_def n_def [symmetric] by auto
qed

lemma NextDifficulty_spec:
  assumes "uint128_ok U" "data \<noteq> []"
  shows "NextDifficulty U c (map timestamp data) data =
    Some (let scaled = (val (Max (counted data)) - val (Min (counted data))) * unat (n_TargetBlockTime c) in
      if scaled < 2 ^ 128 \<and> delta_time data \<noteq> 0 then Inr (of_val (max (unat (n_MinimumDifficulty c)) (scaled div unat (delta_time data))))
      else Inl (Err ''panic in NextDifficulty, wrap occured?''))"
proof -
  let ?ts = "map timestamp data" and ?lo = "cut_size data - 1" and ?up = "length data - cut_size data"
  note b = cut_size_bounds [OF assms(2)] and cp = counted_props [OF assms(2)]
  obtain t1 t2 where t: "NthElementSlice ?ts ?lo = Some (Inr t1)" "t1 ! ?lo = lower_time data"
    "NthElementSlice t1 ?up = Some (Inr t2)" "t2 ! ?up = upper_time data"
    using nth_elements [of ?lo ?ts ?up] b by (auto simp: lower_time_def upper_time_def)
  have di: "(if ?up > ?lo then of_nat (?up - ?lo) else 1 :: u64) = of_nat (max 1 (length data + 1 - 2 * cut_size data))"
  proof (cases "?up > ?lo")
    case True
    then have "?up - ?lo = max 1 (length data + 1 - 2 * cut_size data)" using b by linarith
    with True show ?thesis by (simp only: if_True)
  next
    case False
    then have "max 1 (length data + 1 - 2 * cut_size data) = 1" using b by linarith
    with False show ?thesis by (simp only: if_False of_nat_1)
  qed
  have "Min (counted data) \<le> Max (counted data)" using cp by simp
  note sc = scaledDifficulty_spec [OF assms(1) this, of c "delta_time data"]
  have "NextDifficulty U c ?ts data =
      Some (recover (scaledDifficulty U c (Min (counted data)) (Max (counted data)) (delta_time data)))"
    unfolding NextDifficulty_def length_map cut_size_def [symmetric] Let_def t di option.case sum.case fold_minMax
    using assms(2) cp by (simp add: t delta_time_def Let_def min_absorb2 max_absorb2 Difficulty_bounds flip: counted_def)
  then show ?thesis unfolding sc Let_def .
qed

text \<open>C4: the difficulty rule.  \<^verbatim>\<open>NextDifficulty\<close> returns on every non-empty window.  With the oldest and
  newest tenth of the timestamps cut off, it scales the spread of the cumulative difficulties
  that fall within the remaining times to the target block time, over the time between the
  bounds, or over the number of shares when timestamps are closer than that; the
  result is never below the minimum difficulty.  A product beyond 128 bits, or a time of zero, is an
  error; the time is not zero unless the timestamps reach the end of the 64-bit range.\<close>

theorem NextDifficulty_formula:
  assumes "uint128_ok U" and "data \<noteq> []"
  shows "counted data \<noteq> {} \<and> lower_time data \<le> upper_time data \<and>
    (unat (lower_time data) + length data < 2 ^ 64 \<longrightarrow> delta_time data \<noteq> 0) \<and>
    NextDifficulty U c (map timestamp data) data =
      Some (let scaled = (val (Max (counted data)) - val (Min (counted data))) * unat (n_TargetBlockTime c) in
        if scaled < 2 ^ 128 \<and> delta_time data \<noteq> 0
        then Inr (of_val (max (unat (n_MinimumDifficulty c)) (scaled div unat (delta_time data))))
        else Inl (Err ''panic in NextDifficulty, wrap occured?''))"
  using counted_props [OF assms(2)] delta_time_nonzero [OF assms(2)] NextDifficulty_spec [OF assms] by blast


definition ex_data :: "DifficultyData list" where
  "ex_data = [DifficultyData (Difficulty 5000000 0) 1030, DifficultyData (Difficulty 3000000 0) 1010,
     DifficultyData (Difficulty 1000000 0) 1000]"

lemma ex_data_bounds:
  "lower_time ex_data = 1000" "upper_time ex_data = 1030" "delta_time ex_data = 30"
  "counted ex_data = {Difficulty 5000000 0, Difficulty 3000000 0, Difficulty 1000000 0}"
proof -
  have "sort (map timestamp ex_data) = [1000, 1010, 1030]" "cut_size ex_data = 1" "length ex_data = 3"
    by (simp_all add: ex_data_def cut_size_def)
  then show b: "lower_time ex_data = 1000" "upper_time ex_data = 1030"
    by (simp_all add: lower_time_def upper_time_def)
  have "length ex_data + 1 - 2 * cut_size ex_data = 2" by (simp add: ex_data_def cut_size_def)
  then show "delta_time ex_data = 30" unfolding delta_time_def b by simp
  have "{x \<in> set ex_data. 1000 \<le> timestamp x \<and> timestamp x \<le> 1030} = set ex_data" by (auto simp: ex_data_def)
  then show "counted ex_data = {Difficulty 5000000 0, Difficulty 3000000 0, Difficulty 1000000 0}"
    unfolding counted_def in_bounds_def b by (simp add: ex_data_def)
qed

theorem NextDifficulty_formula_witness:
  "NextDifficulty uint128_ref ConsensusDefault (map timestamp ex_data) ex_data = Some (Inr (of_val 1333333))"
proof -
  have "Max (counted ex_data) = Difficulty 5000000 0" "Min (counted ex_data) = Difficulty 1000000 0"
    by (simp_all add: ex_data_bounds max_def min_def less_eq_Difficulty_def val_def)
  then show ?thesis
    using NextDifficulty_formula [OF uint128_ref_ok, of ex_data ConsensusDefault]
    by (simp add: ex_data_bounds val_def ConsensusDefault_def) (simp add: ex_data_def)
qed

lemma gatherLoop_ok:
  assumes "known_window h get (window_depth c - d) cur"
  shows "\<exists>data'. gatherLoop h c get tip d cur data = Inr data' \<and> data' \<noteq> []"
  using assms
proof (induction h c get tip d cur data rule: gatherLoop.induct)
  case (1 h c get tip d cur data)
  note known = known_window_step [OF 1(2)]
  have "\<exists>s'. gatherUncle h c tip u s = Inr s'" for u s by (simp add: gatherUncle_def)
  then obtain data' where d: "iteratorUncles get (h cur) (gatherUncle h c tip) (data @ [blockData (h cur)]) = Inr (data', None)"
    using known(1) iteratorUncles_total [where f = "gatherUncle h c tip"] by meson
  have inv: "data' \<noteq> []"
    by (rule iteratorUncles_keeps [where P = "\<lambda>s. s \<noteq> []", OF _ d]) (auto simp: gatherUncle_def split: if_splits)
  show ?case
  proof (cases "\<not> d + 1 \<ge> unat (n_ChainWindowSize c) \<and> sd_Height (pb_Side (h cur)) \<noteq> 0")
    case True
    then obtain p where p: "iteratorGetParent get (h cur) = Some p" "known_window h get (window_depth c - d - 1) p"
      using known(2) by auto
    then have k: "known_window h get (window_depth c - (d + 1)) p" by simp
    have "\<exists>data''. gatherLoop h c get tip (d + 1) p data' = Inr data'' \<and> data'' \<noteq> []"
      by (rule 1(1) [OF d refl refl _ _ p(1) k]) (use True in auto)
    then show ?thesis using True d p by (subst gatherLoop.simps) simp
  next
    case False
    then show ?thesis using d inv by (subst gatherLoop.simps) auto
  qed
qed

lemma next_difficulty_ok:
  assumes "uint128_ok U" and "known_window h get (window_depth c) tip" and "n_TargetBlockTime c \<le> 120"
    and "\<forall>data. gatherLoop h c get (h tip) 0 tip [] = Inr data \<longrightarrow> length data < 2 ^ 63 \<and>
      (\<forall>x \<in> set data. val (cumulativeDifficulty x) < 2 ^ 120 \<and> unat (timestamp x) < 2 ^ 63)"
  shows "\<exists>d. GetDifficultyForNextBlock U h c get tip = Some (d, None, None) \<and> unat (n_MinimumDifficulty c) \<le> val d"
proof -
  obtain data where g: "gatherLoop h c get (h tip) 0 tip [] = Inr data" and ne: "data \<noteq> []"
    using gatherLoop_ok [where d = 0, of h get c tip] assms(2) by auto
  then have P: "\<forall>x \<in> set data. val (cumulativeDifficulty x) < 2 ^ 120 \<and> unat (timestamp x) < 2 ^ 63"
    and len: "length data < 2 ^ 63" using assms(4) by blast+
  define scaled where "scaled = (val (Max (counted data)) - val (Min (counted data))) * unat (n_TargetBlockTime c)"
  have "Max (counted data) \<in> counted data" using counted_props [OF ne] by (intro Max_in)
  then obtain x where "x \<in> set data" "Max (counted data) = cumulativeDifficulty x" by (auto simp: counted_def in_bounds_def)
  then have "val (Max (counted data)) < 2 ^ 120" using P by simp
  then have "val (Max (counted data)) - val (Min (counted data)) < 2 ^ 120" by linarith
  then have "scaled < 2 ^ 120 * 2 ^ 7"
    unfolding scaled_def using assms(3) by (intro mult_strict_mono) (simp_all add: word_le_nat_alt)
  then have sc: "scaled < 2 ^ 128" by simp
  obtain y where "y \<in> set data" "lower_time data = timestamp y" using lower_time_in [OF ne] by auto
  then have "unat (lower_time data) < 2 ^ 63" using P by simp
  then have "unat (lower_time data) + length data < 2 ^ 64" using len by simp
  then have "delta_time data \<noteq> 0" by (rule delta_time_nonzero [OF ne])
  then have "GetDifficultyForNextBlock U h c get tip =
      Some (of_val (max (unat (n_MinimumDifficulty c)) (scaled div unat (delta_time data))), None, None)"
    using sc unfolding GetDifficultyForNextBlock_def g sum.case NextDifficulty_spec [OF assms(1) ne] Let_def scaled_def by simp
  moreover have "scaled div unat (delta_time data) < 2 ^ 128" using sc by (meson div_le_dividend le_less_trans)
  moreover have "unat (n_MinimumDifficulty c) < 2 ^ 128" using unat_lt_64 [of "n_MinimumDifficulty c"] by simp
  ultimately show ?thesis by (simp add: val_of_val max_def)
qed

text \<open>C5: the next difficulty is always available.  When the parents and uncles of the last shares, as many as the
  chain window has (fewer when the genesis share comes first), are known, the target block time is
  at most two minutes, and the shares of the window are fewer than \<open>2^63\<close> with cumulative
  difficulties below \<open>2^120\<close> and timestamps below \<open>2^63\<close>, \<^verbatim>\<open>GetDifficultyForNextBlock\<close> returns without error
  a difficulty of at least the minimum.  Nothing is asked of shares below the window.\<close>

theorem GetDifficultyForNextBlock_ok:
  assumes "uint128_ok U" and "known_window h get (window_depth c) tip" and "n_TargetBlockTime c \<le> 120"
    and "\<forall>data. gatherLoop h c get (h tip) 0 tip [] = Inr data \<longrightarrow> length data < 2 ^ 63 \<and>
      (\<forall>x \<in> set data. val (cumulativeDifficulty x) < 2 ^ 120 \<and> unat (timestamp x) < 2 ^ 63)"
  shows "\<exists>d. GetDifficultyForNextBlock U h c get tip = Some (d, None, None) \<and> unat (n_MinimumDifficulty c) \<le> val d"
  using assms by (rule next_difficulty_ok)

lemma ex_gather:
  "gatherLoop ex_heap ConsensusDefault ex_get (ex_heap 3) 0 3 [] =
    Inr [blockData (ex_heap 3), blockData (ex_heap 2), blockData (ex_heap 5), blockData (ex_heap 0)]"
proof -
  have "ex_get 102 = Some 2" "ex_get 101 = Some 5" "ex_get 100 = Some 0" by (simp_all add: ex_get_def)
  then show ?thesis
    by (simp add: gatherLoop.simps [of _ _ _ _ _ 3] gatherLoop.simps [of _ _ _ _ _ 5] gatherLoop.simps [of _ _ _ _ _ 0]
        iteratorUncles_def iteratorGetParent_def ex_sides gatherUncle_def ConsensusDefault_def word_le_nat_alt)
qed

theorem GetDifficultyForNextBlock_ok_witness:
  "\<exists>d. GetDifficultyForNextBlock uint128_ref ex_heap ConsensusDefault ex_get 3 = Some (d, None, None) \<and>
    unat (n_MinimumDifficulty ConsensusDefault) \<le> val d"
proof (rule GetDifficultyForNextBlock_ok [OF uint128_ref_ok ex_known])
  show "n_TargetBlockTime ConsensusDefault \<le> 120" by (simp add: ConsensusDefault_def)
  show "\<forall>data. gatherLoop ex_heap ConsensusDefault ex_get (ex_heap 3) 0 3 [] = Inr data \<longrightarrow> length data < 2 ^ 63 \<and>
      (\<forall>x \<in> set data. val (cumulativeDifficulty x) < 2 ^ 120 \<and> unat (timestamp x) < 2 ^ 63)"
    by (simp add: ex_gather) (simp add: blockData_def ex_heap_def ex_share_def example_block_def val_def)
qed

end
