(* ===== verification/ChainSelect.thy ===== *)
theory ChainSelect
  imports Window
begin

text \<open>
  p2pool/sidechain/utils.go \<^verbatim>\<open>IsLongerChain\<close>: which of two chain tips to follow.  Chains with a
  common ancestor are compared by cumulative difficulty; others by the difficulty of their last
  window, provided the candidate is mined on recent main-chain blocks.

  \<open>getMain\<close> is the caller's \<^verbatim>\<open>getChainMainByHash\<close>, which gives the tip for the zero hash.  The walks along
  parents end only if parent links do, so they are partial functions, with \<open>None\<close> for a walk that
  does not end.
\<close>

partial_function (option) walkDown :: "heap \<Rightarrow> lookup \<Rightarrow> u64 \<Rightarrow> ref option \<Rightarrow> ref option option" where
  "walkDown h get height a =
    (case a of
       None \<Rightarrow> Some None
     | Some r \<Rightarrow>
         if sd_Height (pb_Side (h r)) > height then walkDown h get height (iteratorGetParent get (h r))
         else Some a)"

partial_function (option) meet :: "heap \<Rightarrow> lookup \<Rightarrow> ref option \<Rightarrow> ref option \<Rightarrow> bool option" where
  "meet h get a b =
    (case (a, b) of
       (Some x, Some y) \<Rightarrow>
         if sd_Parent (pb_Side (h x)) = sd_Parent (pb_Side (h y)) then Some True
         else meet h get (iteratorGetParent get (h x)) (iteratorGetParent get (h y))
     | _ \<Rightarrow> Some False)"

text \<open>Whether the code finds a common ancestor of the block and the candidate.\<close>

definition sameChain :: "heap \<Rightarrow> lookup \<Rightarrow> ref \<Rightarrow> ref \<Rightarrow> bool option" where
  "sameChain h get block candidate =
    Option.bind (walkDown h get (sd_Height (pb_Side (h candidate))) (Some block)) (\<lambda>blockAncestor.
      case blockAncestor of
        None \<Rightarrow> Some False
      | Some a \<Rightarrow>
          Option.bind (walkDown h get (sd_Height (pb_Side (h a))) (Some candidate)) (\<lambda>candidateAncestor.
            meet h get blockAncestor candidateAncestor))"

record chainScan =
  cs_oldChain :: "ref option"
  cs_newChain :: "ref option"
  cs_blockTotalDiff :: Difficulty
  cs_candidateTotalDiff :: Difficulty
  cs_candidateMainchainHeight :: u64
  cs_candidateMainchainMinHeight :: u64
  cs_currentChainMoneroBlocks :: "hash list"
  cs_candidateChainMoneroBlocks :: "hash list"

text \<open>The difficulty of a share and the uncles found before the first missing one.\<close>

definition addDiff :: "heap \<Rightarrow> lookup \<Rightarrow> ref \<Rightarrow> Difficulty \<Rightarrow> Difficulty" where
  "addDiff h get r d =
    (let d' = Add d (sd_Difficulty (pb_Side (h r))) in
     case iteratorUncles get (h r) (\<lambda>u s. Inr (Add s (sd_Difficulty (pb_Side (h u))))) d' of
       Inr (d'', _) \<Rightarrow> d''
     | Inl _ \<Rightarrow> d')"

definition scanOld :: "heap \<Rightarrow> lookup \<Rightarrow> (hash \<Rightarrow> ChainMain option) \<Rightarrow> chainScan \<Rightarrow> chainScan" where
  "scanOld h get getMain s =
    (case cs_oldChain s of
       None \<Rightarrow> s
     | Some r \<Rightarrow>
         let prev = b_PreviousId (pb_Main (h r)) in
         s\<lparr>cs_blockTotalDiff := addDiff h get r (cs_blockTotalDiff s),
           cs_currentChainMoneroBlocks :=
             (if prev \<notin> set (cs_currentChainMoneroBlocks s) \<and> getMain prev \<noteq> None
              then cs_currentChainMoneroBlocks s @ [prev] else cs_currentChainMoneroBlocks s),
           cs_oldChain := iteratorGetParent get (h r)\<rparr>)"

definition scanNew :: "heap \<Rightarrow> lookup \<Rightarrow> (hash \<Rightarrow> ChainMain option) \<Rightarrow> chainScan \<Rightarrow> chainScan" where
  "scanNew h get getMain s =
    (case cs_newChain s of
       None \<Rightarrow> s
     | Some r \<Rightarrow>
         let gen = c_GenHeight (b_Coinbase (pb_Main (h r)));
             prev = b_PreviousId (pb_Main (h r));
             s = s\<lparr>cs_candidateMainchainMinHeight :=
                     (if cs_candidateMainchainMinHeight s \<noteq> 0 then min (cs_candidateMainchainMinHeight s) gen else gen),
                   cs_candidateTotalDiff := addDiff h get r (cs_candidateTotalDiff s)\<rparr>;
             s = (if prev \<notin> set (cs_candidateChainMoneroBlocks s) then
                    (case getMain prev of
                       None \<Rightarrow> s
                     | Some data \<Rightarrow> s\<lparr>cs_candidateChainMoneroBlocks := cs_candidateChainMoneroBlocks s @ [prev],
                         cs_candidateMainchainHeight := max (cs_candidateMainchainHeight s) (m_Height data)\<rparr>)
                  else s)
         in s\<lparr>cs_newChain := iteratorGetParent get (h r)\<rparr>)"

text \<open>The loop of at most \<open>n\<close> turns, until both chains end.\<close>

primrec scanChains :: "heap \<Rightarrow> lookup \<Rightarrow> (hash \<Rightarrow> ChainMain option) \<Rightarrow> nat \<Rightarrow> chainScan \<Rightarrow> chainScan" where
  "scanChains h get getMain 0 s = s"
| "scanChains h get getMain (Suc n) s =
    (if cs_oldChain s \<noteq> None \<or> cs_newChain s \<noteq> None
     then scanChains h get getMain n (scanNew h get getMain (scanOld h get getMain s)) else s)"

definition scan_init :: "ref \<Rightarrow> ref \<Rightarrow> chainScan" where
  "scan_init block candidate = \<lparr>cs_oldChain = Some block, cs_newChain = Some candidate,
     cs_blockTotalDiff = ZeroDifficulty, cs_candidateTotalDiff = ZeroDifficulty, cs_candidateMainchainHeight = 0,
     cs_candidateMainchainMinHeight = 0, cs_currentChainMoneroBlocks = [], cs_candidateChainMoneroBlocks = []\<rparr>"

definition compareWindows :: "heap \<Rightarrow> Consensus \<Rightarrow> lookup \<Rightarrow> (hash \<Rightarrow> ChainMain option) \<Rightarrow> ref \<Rightarrow> ref \<Rightarrow> bool" where
  "compareWindows h c get getMain block candidate =
    (let s = scanChains h get getMain (unat (n_ChainWindowSize c)) (scan_init block candidate) in
     if Cmp (cs_blockTotalDiff s) (cs_candidateTotalDiff s) \<ge> 0 then False
     else case getMain ZeroHash of
       None \<Rightarrow> False
     | Some headerTip \<Rightarrow>
         if cs_candidateMainchainHeight s + 10 < m_Height headerTip then False
         else
           let limit = n_ChainWindowSize c * 4 * n_TargetBlockTime c div BlockTime in
           if cs_candidateMainchainMinHeight s + limit < m_Height headerTip then False
           else if length (cs_candidateChainMoneroBlocks s) * 2 < length (cs_currentChainMoneroBlocks s) then False
           else True)"

text \<open>\<^verbatim>\<open>IsLongerChain\<close>: the pair of \<open>isLonger\<close> and \<open>isAlternative\<close>.\<close>

definition IsLongerChain ::
  "heap \<Rightarrow> Consensus \<Rightarrow> lookup \<Rightarrow> (hash \<Rightarrow> ChainMain option) \<Rightarrow> ref option \<Rightarrow> ref option \<Rightarrow> (bool \<times> bool) option" where
  "IsLongerChain h c get getMain block candidate =
    (case candidate of
       None \<Rightarrow> Some (False, False)
     | Some cand \<Rightarrow>
         if \<not> pb_Verified (h cand) \<or> pb_Invalid (h cand) then Some (False, False)
         else case block of
           None \<Rightarrow> Some (True, True)
         | Some b \<Rightarrow>
             Option.bind (sameChain h get b cand) (\<lambda>same.
               if same then
                 Some (Cmp (sd_CumulativeDifficulty (pb_Side (h b))) (sd_CumulativeDifficulty (pb_Side (h cand))) < 0, False)
               else Some (compareWindows h c get getMain b cand, True)))"

section \<open>The walks end\<close>

text \<open>Parents are one lower than their children, as the verification of shares demands.\<close>

definition chain_heights :: "heap \<Rightarrow> lookup \<Rightarrow> bool" where
  "chain_heights h get \<longleftrightarrow> (\<forall>r p. iteratorGetParent get (h r) = Some p \<longrightarrow>
     unat (sd_Height (pb_Side (h r))) = unat (sd_Height (pb_Side (h p))) + 1)"

text \<open>The walks need less: parents stay in a set and have a smaller rank.\<close>

definition ranked :: "(ref \<Rightarrow> nat) \<Rightarrow> ref set \<Rightarrow> heap \<Rightarrow> lookup \<Rightarrow> bool" where
  "ranked rk S h get \<longleftrightarrow> (\<forall>r p. r \<in> S \<longrightarrow> iteratorGetParent get (h r) = Some p \<longrightarrow> p \<in> S \<and> rk p < rk r)"

definition rank_of :: "(ref \<Rightarrow> nat) \<Rightarrow> ref option \<Rightarrow> nat" where
  "rank_of rk a = (case a of None \<Rightarrow> 0 | Some r \<Rightarrow> rk r + 1)"

lemma rank_of_parent:
  "ranked rk S h get \<Longrightarrow> r \<in> S \<Longrightarrow>
    set_option (iteratorGetParent get (h r)) \<subseteq> S \<and> rank_of rk (iteratorGetParent get (h r)) < rank_of rk (Some r)"
  by (auto simp: rank_of_def ranked_def split: option.splits)

lemma walkDown_ranked:
  assumes "ranked rk S h get" "set_option a \<subseteq> S"
  shows "\<exists>b. walkDown h get height a = Some b \<and> set_option b \<subseteq> S \<and> (\<forall>r. b = Some r \<longrightarrow> sd_Height (pb_Side (h r)) \<le> height)"
  using assms(2)
proof (induction "rank_of rk a" arbitrary: a rule: less_induct)
  case less
  show ?case
  proof (cases a)
    case None
    then show ?thesis by (simp add: walkDown.simps)
  next
    case (Some r)
    then show ?thesis
      using less.hyps [of "iteratorGetParent get (h r)"] rank_of_parent [OF assms(1), of r] less.prems
      by (subst walkDown.simps) (auto simp: not_less)
  qed
qed

lemma meet_ranked:
  assumes "ranked rk S h get" "set_option a \<subseteq> S"
  shows "\<exists>m. meet h get a b = Some m"
  using assms(2)
proof (induction "rank_of rk a" arbitrary: a b rule: less_induct)
  case less
  show ?case
  proof (cases "a = None \<or> b = None")
    case True
    then show ?thesis by (subst meet.simps) (auto split: option.splits)
  next
    case False
    then obtain x y where "a = Some x" "b = Some y" by auto
    then show ?thesis
      using less.hyps [of "iteratorGetParent get (h x)"] rank_of_parent [OF assms(1), of x] less.prems
      by (subst meet.simps) auto
  qed
qed

lemma sameChain_ranked:
  assumes "ranked rk S h get" "a \<in> S" "b \<in> S"
  shows "\<exists>s. sameChain h get a b = Some s"
proof -
  obtain a' where a': "walkDown h get (sd_Height (pb_Side (h b))) (Some a) = Some a'" "set_option a' \<subseteq> S"
    using walkDown_ranked [OF assms(1), of "Some a" "sd_Height (pb_Side (h b))"] assms(2) by auto
  show ?thesis
  proof (cases a')
    case (Some x)
    obtain b' where "walkDown h get (sd_Height (pb_Side (h x))) (Some b) = Some b'"
      using walkDown_ranked [OF assms(1), of "Some b" "sd_Height (pb_Side (h x))"] assms(3) by auto
    then show ?thesis using a' Some meet_ranked [OF assms(1)] by (simp add: sameChain_def)
  qed (use a' in \<open>auto simp: sameChain_def\<close>)
qed

lemma IsLongerChain_ranked:
  assumes "ranked rk S h get" "set_option block \<subseteq> S" "set_option candidate \<subseteq> S"
  shows "\<exists>longer alternative. IsLongerChain h c get getMain block candidate = Some (longer, alternative)"
proof (cases "block = None \<or> candidate = None")
  case False
  then obtain a b where ab: "block = Some a" "candidate = Some b" by auto
  then obtain same where "sameChain h get a b = Some same" using sameChain_ranked [OF assms(1), of a b] assms(2,3) by auto
  then show ?thesis by (simp add: IsLongerChain_def ab del: split_paired_Ex) blast
qed (auto simp: IsLongerChain_def split: option.splits)

section \<open>Related chains\<close>

text \<open>The share \<open>n\<close> levels below.\<close>

primrec ancestor :: "heap \<Rightarrow> lookup \<Rightarrow> nat \<Rightarrow> ref \<Rightarrow> ref option" where
  "ancestor h get 0 r = Some r"
| "ancestor h get (Suc n) r = Option.bind (iteratorGetParent get (h r)) (ancestor h get n)"

text \<open>Two shares are related when ancestors of theirs at one height name the same parent.\<close>

definition related :: "heap \<Rightarrow> lookup \<Rightarrow> ref \<Rightarrow> ref \<Rightarrow> bool" where
  "related h get a b \<longleftrightarrow> (\<exists>i j x y. ancestor h get i a = Some x \<and> ancestor h get j b = Some y \<and>
     sd_Height (pb_Side (h x)) = sd_Height (pb_Side (h y)) \<and> sd_Parent (pb_Side (h x)) = sd_Parent (pb_Side (h y)))"

lemma ancestor_height:
  "chain_heights h get \<Longrightarrow> ancestor h get n r = Some x \<Longrightarrow>
    unat (sd_Height (pb_Side (h r))) = unat (sd_Height (pb_Side (h x))) + n"
proof (induction n arbitrary: r)
  case (Suc n)
  then obtain p where "iteratorGetParent get (h r) = Some p" "ancestor h get n p = Some x"
    by (auto simp: Option.bind_eq_Some_conv)
  then show ?case using Suc.IH [of p] Suc.prems(1) by (simp add: chain_heights_def)
qed simp

lemma walkDown_stays: "sd_Height (pb_Side (h r)) \<le> height \<Longrightarrow> walkDown h get height (Some r) = Some (Some r)"
  by (subst walkDown.simps) (auto simp: not_less [symmetric])

lemma walkDown_ancestor:
  assumes "chain_heights h get"
  shows "walkDown h get height (Some r) =
    Some (ancestor h get (unat (sd_Height (pb_Side (h r))) - unat height) r)"
proof (induction "unat (sd_Height (pb_Side (h r))) - unat height" arbitrary: r)
  case 0
  then show ?case using walkDown_stays [of h r height get] by (simp add: word_le_nat_alt)
next
  case (Suc n)
  then have up: "height < sd_Height (pb_Side (h r))" by (simp add: word_less_nat_alt)
  show ?case
  proof (cases "iteratorGetParent get (h r)")
    case None
    then show ?thesis using up Suc(2) by (subst walkDown.simps) (simp add: walkDown.simps [of _ _ _ None] flip: Suc(2))
  next
    case (Some p)
    then have "n = unat (sd_Height (pb_Side (h p))) - unat height" using assms Suc(2) by (fastforce simp: chain_heights_def)
    then show ?thesis using up Some Suc by (subst walkDown.simps) (simp flip: Suc(2))
  qed
qed

lemma meet_None: "meet h get None b = Some False" "meet h get a None = Some False"
  by (subst meet.simps, simp split: option.splits)+

lemma meet_ancestor:
  assumes "chain_heights h get"
  shows "meet h get (Some a) (Some b) = Some (\<exists>k x y. ancestor h get k a = Some x \<and> ancestor h get k b = Some y \<and>
    sd_Parent (pb_Side (h x)) = sd_Parent (pb_Side (h y)))" (is "_ = Some (?P a b)")
proof (induction "unat (sd_Height (pb_Side (h a)))" arbitrary: a b rule: less_induct)
  case less
  show ?case
  proof (cases "sd_Parent (pb_Side (h a)) = sd_Parent (pb_Side (h b))")
    case True
    then have "?P a b" by (metis ancestor.simps(1))
    then show ?thesis using True by (subst meet.simps) simp
  next
    case False
    then have *: "?P a b \<longleftrightarrow> (\<exists>k x y. ancestor h get (Suc k) a = Some x \<and> ancestor h get (Suc k) b = Some y \<and>
        sd_Parent (pb_Side (h x)) = sd_Parent (pb_Side (h y)))"
      by (metis ancestor.simps(1) not0_implies_Suc option.inject)
    show ?thesis
    proof (cases "iteratorGetParent get (h a) = None \<or> iteratorGetParent get (h b) = None")
      case True
      then show ?thesis using False * by (subst meet.simps) (auto simp: meet_None)
    next
      case notnil: False
      then obtain p q where pq: "iteratorGetParent get (h a) = Some p" "iteratorGetParent get (h b) = Some q" by auto
      then have "unat (sd_Height (pb_Side (h p))) < unat (sd_Height (pb_Side (h a)))"
        using assms by (auto simp: chain_heights_def)
      from less [OF this, of q] show ?thesis using False * pq by (subst meet.simps) simp
    qed
  qed
qed

lemma ancestor_add: "ancestor h get (m + n) r = Option.bind (ancestor h get m r) (ancestor h get n)"
  by (induction m arbitrary: r) (auto split: bind_splits)

lemma sameChain_related:
  assumes "chain_heights h get"
  shows "sameChain h get a b = Some (related h get a b)"
proof -
  let ?ha = "unat (sd_Height (pb_Side (h a)))" and ?hb = "unat (sd_Height (pb_Side (h b)))"
  have rel: "related h get a b \<longleftrightarrow> (\<exists>k x y. ancestor h get (?ha - ?hb + k) a = Some x \<and> ancestor h get (?hb - ?ha + k) b = Some y \<and>
      sd_Parent (pb_Side (h x)) = sd_Parent (pb_Side (h y)))" (is "_ \<longleftrightarrow> ?R")
  proof
    assume "related h get a b"
    then obtain i j x y where r: "ancestor h get i a = Some x" "ancestor h get j b = Some y"
      "sd_Height (pb_Side (h x)) = sd_Height (pb_Side (h y))" "sd_Parent (pb_Side (h x)) = sd_Parent (pb_Side (h y))"
      by (auto simp: related_def)
    then have "?ha = unat (sd_Height (pb_Side (h x))) + i" "?hb = unat (sd_Height (pb_Side (h x))) + j"
      using ancestor_height [OF assms] by auto
    then have "i = ?ha - ?hb + min i j" "j = ?hb - ?ha + min i j" by auto
    then show ?R using r by metis
  next
    assume ?R
    then obtain k x y where r: "ancestor h get (?ha - ?hb + k) a = Some x" "ancestor h get (?hb - ?ha + k) b = Some y"
      "sd_Parent (pb_Side (h x)) = sd_Parent (pb_Side (h y))" by blast
    then have "unat (sd_Height (pb_Side (h x))) = unat (sd_Height (pb_Side (h y)))"
      using ancestor_height [OF assms r(1)] ancestor_height [OF assms r(2)] by linarith
    then show "related h get a b" unfolding related_def using r by (metis word_unat_eq_iff)
  qed
  show ?thesis
  proof (cases "ancestor h get (?ha - ?hb) a")
    case None
    then show ?thesis using rel by (simp add: sameChain_def walkDown_ancestor [OF assms] ancestor_add)
  next
    case (Some x)
    then have "unat (sd_Height (pb_Side (h x))) = min ?ha ?hb" using ancestor_height [OF assms Some] by linarith
    then have "?hb - unat (sd_Height (pb_Side (h x))) = ?hb - ?ha" by simp
    then show ?thesis using Some rel
      by (cases "ancestor h get (?hb - ?ha) b")
        (simp_all add: sameChain_def walkDown_ancestor [OF assms] ancestor_add meet_None meet_ancestor [OF assms])
  qed
qed

lemma walkDown_reaches:
  assumes "walkDown h get height a = Some y"
  shows "\<forall>t. y = Some t \<longrightarrow> sd_Height (pb_Side (h t)) \<le> height \<and> (\<exists>r k. a = Some r \<and> ancestor h get k r = Some t)"
proof (rule walkDown.raw_induct [OF _ assms], goal_cases)
  case (1 walk h get height a y)
  show ?case
  proof (cases a)
    case (Some r)
    show ?thesis
    proof (cases "sd_Height (pb_Side (h r)) > height")
      case True
      then have "walk h get height (iteratorGetParent get (h r)) = Some y" using 1(2) Some by simp
      from 1(1) [OF this] show ?thesis using Some by (metis ancestor.simps(2) Option.bind.bind_lunit)
    next
      case False
      then have "y = Some r" using 1(2) Some by simp
      then show ?thesis using False Some by (auto simp: not_less intro: exI [of _ 0])
    qed
  qed (use 1 in auto)
qed

section \<open>Windows of unrelated chains\<close>

text \<open>The total a chain is credited with does not depend on what it is compared to.\<close>

primrec chainTotal :: "heap \<Rightarrow> lookup \<Rightarrow> nat \<Rightarrow> ref option \<Rightarrow> Difficulty \<Rightarrow> Difficulty" where
  "chainTotal h get 0 a d = d"
| "chainTotal h get (Suc n) a d =
    (case a of None \<Rightarrow> d | Some r \<Rightarrow> chainTotal h get n (iteratorGetParent get (h r)) (addDiff h get r d))"

lemma chainTotal_None [simp]: "chainTotal h get n None d = d"
  by (cases n) auto

lemma scanOld_fields:
  "cs_newChain (scanOld h get gm s) = cs_newChain s" "cs_candidateTotalDiff (scanOld h get gm s) = cs_candidateTotalDiff s"
  "cs_oldChain (scanOld h get gm s) = (case cs_oldChain s of None \<Rightarrow> None | Some r \<Rightarrow> iteratorGetParent get (h r))"
  "cs_blockTotalDiff (scanOld h get gm s) =
     (case cs_oldChain s of None \<Rightarrow> cs_blockTotalDiff s | Some r \<Rightarrow> addDiff h get r (cs_blockTotalDiff s))"
  by (auto simp: scanOld_def Let_def split: option.splits)

lemma scanNew_fields:
  "cs_oldChain (scanNew h get gm s) = cs_oldChain s" "cs_blockTotalDiff (scanNew h get gm s) = cs_blockTotalDiff s"
  "cs_newChain (scanNew h get gm s) = (case cs_newChain s of None \<Rightarrow> None | Some r \<Rightarrow> iteratorGetParent get (h r))"
  "cs_candidateTotalDiff (scanNew h get gm s) =
     (case cs_newChain s of None \<Rightarrow> cs_candidateTotalDiff s | Some r \<Rightarrow> addDiff h get r (cs_candidateTotalDiff s))"
  by (auto simp: scanNew_def Let_def split: option.splits)

lemma scanChains_totals:
  "cs_blockTotalDiff (scanChains h get gm n s) = chainTotal h get n (cs_oldChain s) (cs_blockTotalDiff s) \<and>
   cs_candidateTotalDiff (scanChains h get gm n s) = chainTotal h get n (cs_newChain s) (cs_candidateTotalDiff s)"
  by (induction n arbitrary: s) (auto simp: scanOld_fields scanNew_fields split: option.splits)

text \<open>The last \<open>n\<close> shares of a chain, from its tip.\<close>

primrec chainRefs :: "heap \<Rightarrow> lookup \<Rightarrow> nat \<Rightarrow> ref option \<Rightarrow> ref list" where
  "chainRefs h get 0 a = []"
| "chainRefs h get (Suc n) a = (case a of None \<Rightarrow> [] | Some r \<Rightarrow> r # chainRefs h get n (iteratorGetParent get (h r)))"

lemma chainRefs_None [simp]: "chainRefs h get n None = []"
  by (cases n) auto

text \<open>The known main-chain blocks that shares of a list are mined on, the greatest of their heights, and the smallest
  height the shares themselves give, as the code computes it: a zero is forgotten.\<close>

definition minedOn :: "heap \<Rightarrow> (hash \<Rightarrow> ChainMain option) \<Rightarrow> ref list \<Rightarrow> hash set" where
  "minedOn h getMain rs = {i \<in> (\<lambda>r. b_PreviousId (pb_Main (h r))) ` set rs. getMain i \<noteq> None}"

definition newestMain :: "(hash \<Rightarrow> ChainMain option) \<Rightarrow> hash set \<Rightarrow> u64" where
  "newestMain getMain B = Max (insert 0 ((\<lambda>i. m_Height (the (getMain i))) ` B))"

definition oldestGen :: "heap \<Rightarrow> u64 \<Rightarrow> ref list \<Rightarrow> u64" where
  "oldestGen h = foldl (\<lambda>m r. let gen = c_GenHeight (b_Coinbase (pb_Main (h r))) in if m \<noteq> 0 then min m gen else gen)"

lemma minedOn_simps [simp]:
  "minedOn h getMain [] = {}"
  "minedOn h getMain (r # rs) = (if getMain (b_PreviousId (pb_Main (h r))) = None then {} else {b_PreviousId (pb_Main (h r))}) \<union> minedOn h getMain rs"
  by (auto simp: minedOn_def)

lemma newestMain_insert:
  "finite B \<Longrightarrow> newestMain getMain (insert i B) = max (m_Height (the (getMain i))) (newestMain getMain B)"
  unfolding newestMain_def image_insert insert_commute [of 0] by (rule Max.insert) auto

lemma oldestGen_simps [simp]:
  "oldestGen h m [] = m"
  "oldestGen h m (r # rs) = oldestGen h (let gen = c_GenHeight (b_Coinbase (pb_Main (h r))) in if m \<noteq> 0 then min m gen else gen) rs"
  by (simp_all add: oldestGen_def)

lemma scanOld_blocks:
  "cs_candidateChainMoneroBlocks (scanOld h get gm s) = cs_candidateChainMoneroBlocks s"
  "cs_candidateMainchainHeight (scanOld h get gm s) = cs_candidateMainchainHeight s"
  "cs_candidateMainchainMinHeight (scanOld h get gm s) = cs_candidateMainchainMinHeight s"
  "distinct (cs_currentChainMoneroBlocks s) \<Longrightarrow> distinct (cs_currentChainMoneroBlocks (scanOld h get gm s))"
  "set (cs_currentChainMoneroBlocks (scanOld h get gm s)) =
     set (cs_currentChainMoneroBlocks s) \<union> minedOn h gm (chainRefs h get 1 (cs_oldChain s))"
  by (auto simp: scanOld_def Let_def split: option.splits)

lemma scanNew_blocks:
  "cs_currentChainMoneroBlocks (scanNew h get gm s) = cs_currentChainMoneroBlocks s"
  "cs_candidateMainchainMinHeight (scanNew h get gm s) = oldestGen h (cs_candidateMainchainMinHeight s) (chainRefs h get 1 (cs_newChain s))"
  "distinct (cs_candidateChainMoneroBlocks s) \<Longrightarrow> distinct (cs_candidateChainMoneroBlocks (scanNew h get gm s))"
  "set (cs_candidateChainMoneroBlocks (scanNew h get gm s)) =
     set (cs_candidateChainMoneroBlocks s) \<union> minedOn h gm (chainRefs h get 1 (cs_newChain s))"
  "cs_candidateMainchainHeight s = newestMain gm (set (cs_candidateChainMoneroBlocks s)) \<Longrightarrow>
    cs_candidateMainchainHeight (scanNew h get gm s) = newestMain gm (set (cs_candidateChainMoneroBlocks (scanNew h get gm s)))"
  by (auto simp: scanNew_def Let_def newestMain_insert max.commute split: option.splits)

lemma chainRefs_Suc:
  "chainRefs h get (Suc n) a = chainRefs h get 1 a @ chainRefs h get n (case a of None \<Rightarrow> None | Some r \<Rightarrow> iteratorGetParent get (h r))"
  by (cases a) auto

lemma minedOn_append [simp]: "minedOn h gm (xs @ ys) = minedOn h gm xs \<union> minedOn h gm ys"
  by (auto simp: minedOn_def)

lemma oldestGen_append [simp]: "oldestGen h m (xs @ ys) = oldestGen h (oldestGen h m xs) ys"
  by (simp add: oldestGen_def)

lemma scanChains_blocks:
  assumes "distinct (cs_currentChainMoneroBlocks s)" "distinct (cs_candidateChainMoneroBlocks s)"
    "cs_candidateMainchainHeight s = newestMain gm (set (cs_candidateChainMoneroBlocks s))"
  shows "let t = scanChains h get gm n s in distinct (cs_currentChainMoneroBlocks t) \<and> distinct (cs_candidateChainMoneroBlocks t) \<and>
    set (cs_currentChainMoneroBlocks t) = set (cs_currentChainMoneroBlocks s) \<union> minedOn h gm (chainRefs h get n (cs_oldChain s)) \<and>
    set (cs_candidateChainMoneroBlocks t) = set (cs_candidateChainMoneroBlocks s) \<union> minedOn h gm (chainRefs h get n (cs_newChain s)) \<and>
    cs_candidateMainchainHeight t = newestMain gm (set (cs_candidateChainMoneroBlocks t)) \<and>
    cs_candidateMainchainMinHeight t = oldestGen h (cs_candidateMainchainMinHeight s) (chainRefs h get n (cs_newChain s))"
  using assms
proof (induction n arbitrary: s)
  case (Suc n)
  let ?s = "scanNew h get gm (scanOld h get gm s)"
  show ?case
  proof (cases "cs_oldChain s \<noteq> None \<or> cs_newChain s \<noteq> None")
    case True
    have "distinct (cs_currentChainMoneroBlocks ?s)" "distinct (cs_candidateChainMoneroBlocks ?s)"
      "cs_candidateMainchainHeight ?s = newestMain gm (set (cs_candidateChainMoneroBlocks ?s))"
      by (intro scanOld_blocks scanNew_blocks | simp add: scanOld_blocks scanNew_blocks(1) Suc.prems)+
    note IH = Suc.IH [OF this]
    have sc: "scanChains h get gm (Suc n) s = scanChains h get gm n ?s" using True by simp
    show ?thesis
      using IH unfolding sc chainRefs_Suc
      by (simp only: Let_def scanOld_fields scanNew_fields scanOld_blocks scanNew_blocks minedOn_append oldestGen_append Un_assoc)
  qed (use Suc.prems in simp)
qed simp

text \<open>What a candidate must satisfy to be preferred to an unrelated chain: more difficulty over the last window, a known
  main-chain tip, at least one share mined within ten blocks of it, none on too old a block, and at
  least half as many main-chain blocks as the other chain.\<close>

definition chainPreferred :: "heap \<Rightarrow> Consensus \<Rightarrow> lookup \<Rightarrow> (hash \<Rightarrow> ChainMain option) \<Rightarrow> ref \<Rightarrow> ref \<Rightarrow> bool" where
  "chainPreferred h c get getMain a b \<longleftrightarrow>
    (let n = unat (n_ChainWindowSize c); old = chainRefs h get n (Some a); new = chainRefs h get n (Some b) in
     chainTotal h get n (Some a) ZeroDifficulty < chainTotal h get n (Some b) ZeroDifficulty \<and>
     (\<exists>tip. getMain ZeroHash = Some tip \<and>
       m_Height tip \<le> newestMain getMain (minedOn h getMain new) + 10 \<and>
       m_Height tip \<le> oldestGen h 0 new + n_ChainWindowSize c * 4 * n_TargetBlockTime c div BlockTime) \<and>
     card (minedOn h getMain old) \<le> 2 * card (minedOn h getMain new))"

lemma compareWindows_spec: "compareWindows h c get getMain a b = chainPreferred h c get getMain a b"
proof -
  let ?n = "unat (n_ChainWindowSize c)"
  define t where "t = scanChains h get getMain ?n (scan_init a b)"
  have "cs_blockTotalDiff t = chainTotal h get ?n (Some a) ZeroDifficulty" "cs_candidateTotalDiff t = chainTotal h get ?n (Some b) ZeroDifficulty"
    using scanChains_totals [of h get getMain ?n "scan_init a b"] by (simp_all add: t_def scan_init_def)
  moreover have b: "distinct (cs_currentChainMoneroBlocks t)" "distinct (cs_candidateChainMoneroBlocks t)"
    "set (cs_currentChainMoneroBlocks t) = minedOn h getMain (chainRefs h get ?n (Some a))"
    "set (cs_candidateChainMoneroBlocks t) = minedOn h getMain (chainRefs h get ?n (Some b))"
    "cs_candidateMainchainHeight t = newestMain getMain (minedOn h getMain (chainRefs h get ?n (Some b)))"
    "cs_candidateMainchainMinHeight t = oldestGen h 0 (chainRefs h get ?n (Some b))"
    using scanChains_blocks [of "scan_init a b" getMain h get ?n] by (simp_all add: t_def scan_init_def newestMain_def Let_def)
  moreover have "length (cs_currentChainMoneroBlocks t) = card (minedOn h getMain (chainRefs h get ?n (Some a)))"
    "length (cs_candidateChainMoneroBlocks t) = card (minedOn h getMain (chainRefs h get ?n (Some b)))"
    using b by (metis distinct_card)+
  ultimately show ?thesis
    unfolding compareWindows_def chainPreferred_def t_def [symmetric] Let_def
    by (auto simp: not_less not_le split: option.splits)
qed

text \<open>C9: tip selection, exactly.  If parents are one lower than their children, \<^verbatim>\<open>IsLongerChain\<close> returns for
  every pair of shares.  An unverified, invalid or missing candidate is never preferred, and any
  other candidate is preferred to no chain.  If some ancestors of the two shares at one height name
  the same parent, the candidate is preferred when its cumulative difficulty is the greater, and the
  answer is not an alternative.  Otherwise the answer is an alternative, and the candidate is
  preferred just when its chain has the greater difficulty over the last window, the main-chain tip
  is known and not more than ten above the newest main-chain block the window is mined on nor more
  than the window limit above the oldest height in it, and the window is mined on at least half as
  many known main-chain blocks as the other.  A share is never preferred to itself, and the choice never
  flips: when \<open>b\<close> is preferred to \<open>a\<close>, \<open>a\<close> is not preferred to \<open>b\<close>.\<close>

theorem IsLongerChain_sound:
  assumes "chain_heights h get"
  shows "IsLongerChain h c get getMain (Some a) (Some b) =
      Some (if \<not> pb_Verified (h b) \<or> pb_Invalid (h b) then (False, False)
            else if related h get a b
            then (sd_CumulativeDifficulty (pb_Side (h a)) < sd_CumulativeDifficulty (pb_Side (h b)), False)
            else (chainPreferred h c get getMain a b, True)) \<and>
    IsLongerChain h c get getMain None (Some b) =
      Some (let ok = pb_Verified (h b) \<and> \<not> pb_Invalid (h b) in (ok, ok)) \<and>
    IsLongerChain h c get getMain block None = Some (False, False) \<and>
    (\<forall>alternative. IsLongerChain h c get getMain (Some a) (Some b) = Some (True, alternative) \<longrightarrow> a \<noteq> b \<and>
      (\<exists>alternative'. IsLongerChain h c get getMain (Some b) (Some a) = Some (False, alternative')))"
proof -
  have spec: "IsLongerChain h c get getMain (Some a) (Some b) =
      Some (if \<not> pb_Verified (h b) \<or> pb_Invalid (h b) then (False, False)
            else if related h get a b
            then (sd_CumulativeDifficulty (pb_Side (h a)) < sd_CumulativeDifficulty (pb_Side (h b)), False)
            else (chainPreferred h c get getMain a b, True))" for a b
    by (simp add: IsLongerChain_def sameChain_related [OF assms] compareWindows_spec)
  have asym: "chainPreferred h c get getMain a b \<Longrightarrow> \<not> chainPreferred h c get getMain b a" for a b
    by (auto simp: chainPreferred_def Let_def dest: less_asym)
  have sym: "related h get b a \<longleftrightarrow> related h get a b" unfolding related_def by metis
  have rest: "IsLongerChain h c get getMain None (Some b) = Some (let ok = pb_Verified (h b) \<and> \<not> pb_Invalid (h b) in (ok, ok))"
    "IsLongerChain h c get getMain block None = Some (False, False)"
    by (auto simp: IsLongerChain_def Let_def)
  show ?thesis unfolding rest spec using asym [of a b] sym by (auto dest: less_asym split: if_splits)
qed

lemma ex_chain_heights: "chain_heights ex_heap ex_get"
  by (auto simp: chain_heights_def ex_heap_def ex_share_def ex_get_def iteratorGetParent_def zeroPoolBlock_def
      split: if_splits)

theorem IsLongerChain_sound_witness:
  "IsLongerChain ex_heap ConsensusDefault ex_get (\<lambda>_. None) (Some 5) (Some 3) = Some (True, False) \<and>
   (\<exists>x. IsLongerChain ex_heap ConsensusDefault ex_get (\<lambda>_. None) (Some 3) (Some 5) = Some (False, x))"
proof -
  have "ancestor ex_heap ex_get 1 3 = Some 5" "ancestor ex_heap ex_get 0 5 = Some 5"
    by (simp_all add: ex_sides iteratorGetParent_def ex_get_def)
  then have "related ex_heap ex_get 5 3" unfolding related_def by blast
  moreover have "pb_Verified (ex_heap 3)" "\<not> pb_Invalid (ex_heap 3)"
    "sd_CumulativeDifficulty (pb_Side (ex_heap 5)) < sd_CumulativeDifficulty (pb_Side (ex_heap 3))"
    by (simp_all add: ex_heap_def ex_share_def zeroPoolBlock_def less_Difficulty_def val_def)
  ultimately show ?thesis
    using IsLongerChain_sound [OF ex_chain_heights, of ConsensusDefault "\<lambda>_. None" 5 3 None] by auto
qed

end
