(* ===== verification/Sidechain.thy ===== *)
theory Sidechain
  imports ChainSelect
begin

text \<open>
  p2pool/sidechain/sidechain.go: the state of the side chain.  Shares are kept by template id and by
  height; adding a share verifies it and those above it that waited for it, updates depths, may
  move the chain tip and prunes what has become too old.

  The state is a record with the heap of shares, since the code keeps pointers to shares it
  mutates.  What the server and the cryptographic packages provide is the record \<open>env\<close>, fixed during
  one operation; calls on the server are kept as a list.  Locks and logging have no counterpart;
  the memo of a template id is read but not written, as the data it hashes no longer
  change when it is first asked for.
\<close>

record env =
  e_consensus :: Consensus
  e_K :: "byte list \<Rightarrow> hash"
  e_U :: uint128_pkg
  e_Q :: uint256_pkg
  e_srt :: "Share list \<Rightarrow> Share list"
  e_hasher :: hasher
  e_detKey :: "hash \<Rightarrow> hash \<Rightarrow> hash"
  e_getKey :: "hash \<Rightarrow> hash \<Rightarrow> hash \<times> hash"
  e_ephemeral :: "PackedAddress \<Rightarrow> hash \<Rightarrow> u64 \<Rightarrow> hash \<times> byte"
  e_mainByHash :: "hash \<Rightarrow> ChainMain option"
  e_mainTip :: "ChainMain option"
  e_headerByHeight :: "u64 \<Rightarrow> Header option"
  e_difficultyByHeight :: "u64 \<Rightarrow> Difficulty"
  e_now :: u64

text \<open>A pointer to a \<^verbatim>\<open>ChainMain\<close> struct of the main chain, whose heap is in the theory Mainchain.\<close>

type_synonym mainRef = nat

datatype serverCall =
    UpdateTip ref | Broadcast ref | UpdateBlockFound "mainRef option" ref | StoreBlock ref | SubmitBlock Block

record SideChain =
  sc_heap :: heap
  sc_byId :: "hash \<Rightarrow> ref option"
  sc_byHeight :: "u64 \<Rightarrow> ref list option"
  sc_keysSorted :: bool
  sc_keys :: "u64 list"
  sc_syncTip :: "ref option"
  sc_chainTip :: "ref option"
  sc_difficulty :: Difficulty
  sc_precalcFinished :: bool
  sc_watchBlock :: "mainRef option"
  sc_watchId :: hash
  sc_seen :: "byte list set"
  sc_calls :: "serverCall list"

text \<open>\<^verbatim>\<open>NewSideChain\<close>, over any heap.\<close>

definition NewSideChain :: "env \<Rightarrow> heap \<Rightarrow> SideChain" where
  "NewSideChain E h = \<lparr>sc_heap = h, sc_byId = Map.empty, sc_byHeight = Map.empty, sc_keysSorted = False, sc_keys = [],
     sc_syncTip = None, sc_chainTip = None, sc_difficulty = DifficultyFrom64 (n_MinimumDifficulty (e_consensus E)),
     sc_precalcFinished = False, sc_watchBlock = None, sc_watchId = ZeroHash, sc_seen = {}, sc_calls = []\<rparr>"

text \<open>A computation that may not end (\<open>None\<close>) or panic.\<close>

type_synonym 'a run = "'a result option"

fun bindO :: "'a run \<Rightarrow> ('a \<Rightarrow> 'b run) \<Rightarrow> 'b run" where
  "bindO None f = None"
| "bindO (Some (Inl e)) f = Some (Inl e)"
| "bindO (Some (Inr x)) f = f x"

abbreviation retO :: "'a \<Rightarrow> 'a run" where
  "retO x \<equiv> Some (Inr x)"

lemma bindO_Inr_iff: "bindO m f = retO y \<longleftrightarrow> (\<exists>x. m = retO x \<and> f x = retO y)"
  by (cases m rule: bindO.cases [of "(m, f)" for m]) auto

section \<open>Access\<close>

definition blk :: "SideChain \<Rightarrow> ref \<Rightarrow> PoolBlock" where
  "blk s r = sc_heap s r"

definition modify :: "ref \<Rightarrow> (PoolBlock \<Rightarrow> PoolBlock) \<Rightarrow> SideChain \<Rightarrow> SideChain" where
  "modify r f s = s\<lparr>sc_heap := (sc_heap s)(r := f (sc_heap s r))\<rparr>"

definition call :: "serverCall \<Rightarrow> SideChain \<Rightarrow> SideChain" where
  "call x s = s\<lparr>sc_calls := sc_calls s @ [x]\<rparr>"

definition templateIdOf :: "env \<Rightarrow> PoolBlock \<Rightarrow> hash" where
  "templateIdOf E b = fst (SideTemplateId (e_K E) (e_consensus E) b)"

definition getParent :: "SideChain \<Rightarrow> ref \<Rightarrow> ref option" where
  "getParent s r = iteratorGetParent (sc_byId s) (blk s r)"

definition getPoolBlocksByHeight :: "SideChain \<Rightarrow> u64 \<Rightarrow> ref list" where
  "getPoolBlocksByHeight s height = (case sc_byHeight s height of None \<Rightarrow> [] | Some l \<Rightarrow> l)"

definition getSeedByHeight :: "env \<Rightarrow> u64 \<Rightarrow> hash" where
  "getSeedByHeight E height =
    (case e_headerByHeight E (SeedHeight height) of None \<Rightarrow> ZeroHash | Some header \<Rightarrow> h_Id header)"

definition getChainMain :: "env \<Rightarrow> hash \<Rightarrow> ChainMain option" where
  "getChainMain E h = (if h = ZeroHash then e_mainTip E else e_mainByHash E h)"

definition isLongerChain :: "env \<Rightarrow> SideChain \<Rightarrow> ref option \<Rightarrow> ref option \<Rightarrow> (bool \<times> bool) option" where
  "isLongerChain E s block candidate =
    IsLongerChain (sc_heap s) (e_consensus E) (sc_byId s) (getChainMain E) block candidate"

definition getDifficulty :: "env \<Rightarrow> SideChain \<Rightarrow> ref \<Rightarrow> (Difficulty \<times> error option \<times> error option) option" where
  "getDifficulty E s tip = GetDifficultyForNextBlock (e_U E) (sc_heap s) (e_consensus E) (sc_byId s) tip"

definition getShares :: "env \<Rightarrow> SideChain \<Rightarrow> ref \<Rightarrow> (Share list option \<times> u64) result" where
  "getShares E s tip =
    GetShares (e_srt E) (e_K E) (e_U E) (sc_heap s) (e_consensus E) (e_difficultyByHeight E) (sc_byId s) tip"

definition isPoolBlockTransactionKeyIsDeterministic :: "env \<Rightarrow> PoolBlock \<Rightarrow> bool" where
  "isPoolBlockTransactionKeyIsDeterministic E b =
    (let (priv, pub) = e_getKey E (GetPrivateKeySeed (e_detKey E) b) (b_PreviousId (pb_Main b)) in
     CoinbaseExtra b TxExtraTagPubKey = Some (le_bytes 32 pub) \<and> sd_CoinbasePrivateKey (pb_Side b) = priv)"

definition fillPoolBlockTransactionParentIndices :: "SideChain \<Rightarrow> ref \<Rightarrow> SideChain" where
  "fillPoolBlockTransactionParentIndices s r =
    modify r (\<lambda>b. snd (FillTransactionParentIndices b (map_option (blk s) (getParent s r)))) s"

section \<open>Seen blocks\<close>

definition BlockSeen :: "env \<Rightarrow> SideChain \<Rightarrow> PoolBlock \<Rightarrow> (bool \<times> SideChain) result" where
  "BlockSeen E s b =
    (let early = (case sc_chainTip s of
         None \<Rightarrow> False
       | Some t \<Rightarrow> sd_Height (pb_Side (blk s t)) > sd_Height (pb_Side b) + n_ChainWindowSize (e_consensus E) * 2 \<and>
           Cmp (sd_CumulativeDifficulty (pb_Side b)) (sd_CumulativeDifficulty (pb_Side (blk s t))) < 0)
     in if early then Inr (True, s)
        else bindR (FullId b) (\<lambda>fullId.
          if fullId \<in> sc_seen s then Inr (True, s)
          else Inr (False, s\<lparr>sc_seen := insert fullId (sc_seen s)\<rparr>)))"

definition BlockUnsee :: "SideChain \<Rightarrow> PoolBlock \<Rightarrow> SideChain result" where
  "BlockUnsee s b = bindR (FullId b) (\<lambda>fullId. Inr (s\<lparr>sc_seen := sc_seen s - {fullId}\<rparr>))"

section \<open>Verification of a share\<close>

definition genesisOk :: "env \<Rightarrow> PoolBlock \<Rightarrow> bool" where
  "genesisOk E b \<longleftrightarrow>
    \<not> (sd_Parent (pb_Side b) \<noteq> ZeroHash \<or> length (sd_Uncles (pb_Side b)) \<noteq> 0 \<or>
       Cmp64 (e_U E) (sd_Difficulty (pb_Side b)) (n_MinimumDifficulty (e_consensus E)) \<noteq> 0 \<or>
       Cmp64 (e_U E) (sd_CumulativeDifficulty (pb_Side b)) (n_MinimumDifficulty (e_consensus E)) \<noteq> 0 \<or>
       pb_ShareVersion b > ShareVersion_V1 \<and> sd_CoinbasePrivateKeySeed (pb_Side b) \<noteq> n_Id (e_consensus E))"

fun uncleOrder :: "hash list \<Rightarrow> bool" where
  "uncleOrder (a # b # ids) \<longleftrightarrow> Compare a b = - 1 \<and> uncleOrder (b # ids)"
| "uncleOrder _ \<longleftrightarrow> True"

primrec minedLoop :: "env \<Rightarrow> SideChain \<Rightarrow> nat \<Rightarrow> ref option \<Rightarrow> hash list \<Rightarrow> hash list" where
  "minedLoop E s 0 tmp minedBlocks = minedBlocks"
| "minedLoop E s (Suc n) tmp minedBlocks =
    (case tmp of
       None \<Rightarrow> minedBlocks
     | Some r \<Rightarrow> minedLoop E s n (getParent s r) (minedBlocks @ templateIdOf E (blk s r) # sd_Uncles (pb_Side (blk s r))))"

primrec sameAncestor :: "SideChain \<Rightarrow> u64 \<Rightarrow> nat \<Rightarrow> ref option \<Rightarrow> ref option \<Rightarrow> bool" where
  "sameAncestor s height 0 tmp tmp2 = False"
| "sameAncestor s height (Suc n) tmp tmp2 =
    (case (tmp, tmp2) of
       (Some a, Some b) \<Rightarrow>
         if sd_Height (pb_Side (blk s a)) + UncleBlockDepth \<ge> height then
           (if sd_Parent (pb_Side (blk s a)) = sd_Parent (pb_Side (blk s b)) then True
            else sameAncestor s height n (getParent s a) (getParent s b))
         else False
     | _ \<Rightarrow> False)"

text \<open>The two errors of the code, \<open>verification\<close> (try again later) and \<open>invalid\<close>; both nil is success.\<close>

type_synonym verdict = "error option \<times> error option"

abbreviation unverified :: "string \<Rightarrow> verdict" where "unverified m \<equiv> (Some (Err m), None)"
abbreviation invalid :: "string \<Rightarrow> verdict" where "invalid m \<equiv> (None, Some (Err m))"

definition checkUncle :: "env \<Rightarrow> SideChain \<Rightarrow> PoolBlock \<Rightarrow> ref \<Rightarrow> hash list \<Rightarrow> Difficulty \<Rightarrow> hash \<Rightarrow> (verdict + Difficulty) option" where
  "checkUncle E s block parent minedBlocks expected uncleId =
    (if uncleId = ZeroHash then Some (Inl (invalid ''empty uncle hash''))
     else if uncleId \<in> set minedBlocks then Some (Inl (invalid ''uncle has already been mined''))
     else case sc_byId s uncleId of
       None \<Rightarrow> Some (Inl (unverified ''uncle does not exist''))
     | Some u \<Rightarrow>
         let uncle = blk s u in
         if \<not> pb_Verified uncle then Some (Inl (unverified ''uncle is not verified''))
         else if pb_Invalid uncle then Some (Inl (invalid ''uncle is invalid''))
         else if sd_Height (pb_Side uncle) \<ge> sd_Height (pb_Side block) \<or>
                 sd_Height (pb_Side uncle) + UncleBlockDepth < sd_Height (pb_Side block)
         then Some (Inl (invalid ''uncle at the wrong height''))
         else
           Option.bind (walkDown (sc_heap s) (sc_byId s) (sd_Height (pb_Side uncle)) (Some parent)) (\<lambda>tmp.
             case tmp of
               None \<Rightarrow> Some (Inl (invalid ''uncle from different chain (check 1)''))
             | Some t \<Rightarrow>
                 if sd_Height (pb_Side (blk s t)) < sd_Height (pb_Side uncle)
                 then Some (Inl (invalid ''uncle from different chain (check 2)''))
                 else if \<not> sameAncestor s (sd_Height (pb_Side block)) (unat UncleBlockDepth) tmp (Some u)
                 then Some (Inl (invalid ''uncle from different chain (check 3)''))
                 else Some (Inr (Add expected (sd_Difficulty (pb_Side uncle))))))"

fun checkUncles :: "env \<Rightarrow> SideChain \<Rightarrow> PoolBlock \<Rightarrow> ref \<Rightarrow> hash list \<Rightarrow> Difficulty \<Rightarrow> hash list \<Rightarrow> (verdict + Difficulty) option" where
  "checkUncles E s block parent mined expected [] = Some (Inr expected)"
| "checkUncles E s block parent mined expected (uncleId # ids) =
    Option.bind (checkUncle E s block parent mined expected uncleId) (\<lambda>x.
      case x of Inl v \<Rightarrow> Some (Inl v) | Inr expected' \<Rightarrow> checkUncles E s block parent mined expected' ids)"

text \<open>The outputs of a share against the shares and rewards of its window.  The checks of single
  outputs run in parallel; the model reports the failure with the lowest index.\<close>

definition outputError :: "env \<Rightarrow> PoolBlock \<Rightarrow> Share list \<Rightarrow> u64 list \<Rightarrow> nat \<Rightarrow> error option" where
  "outputError E block shares rewards i =
    (let out = c_Outputs (b_Coinbase (pb_Main block)) ! i;
         (ephPublicKey, viewTag) = e_ephemeral E (s_Address (shares ! i)) (sd_CoinbasePrivateKey (pb_Side block)) (of_nat i)
     in if rewards ! i \<noteq> o_Reward out then Some (Err ''has invalid reward'')
        else if ephPublicKey \<noteq> o_EphemeralPublicKey out then Some (Err ''has incorrect eph_public_key'')
        else if o_Type out = TxOutToTaggedKey \<and> viewTag \<noteq> o_ViewTag out then Some (Err ''has incorrect view tag'')
        else None)"

fun firstError :: "(nat \<Rightarrow> error option) \<Rightarrow> nat list \<Rightarrow> error option" where
  "firstError f [] = None"
| "firstError f (i # is) = (case f i of None \<Rightarrow> firstError f is | Some e \<Rightarrow> Some e)"

definition verifyOutputs :: "env \<Rightarrow> SideChain \<Rightarrow> ref \<Rightarrow> error option result" where
  "verifyOutputs E s r =
    (let block = blk s r; outs = c_Outputs (b_Coinbase (pb_Main block)) in
     bindR (getShares E s r) (\<lambda>(sharesOpt, _).
       let shares = (case sharesOpt of None \<Rightarrow> [] | Some x \<Rightarrow> x) in
       if length shares = 0 then Inr (Some (Err ''could not get outputs''))
       else if length shares \<noteq> length outs then Inr (Some (Err ''invalid number of outputs''))
       else
         let totalReward = sum_list (map o_Reward outs) in
         if totalReward \<noteq> c_TotalReward (b_Coinbase (pb_Main block)) then Inr (Some (Err ''invalid total reward''))
         else bindR (SplitReward (e_U E) totalReward shares) (\<lambda>rewardsOpt.
           let rewards = (case rewardsOpt of None \<Rightarrow> [] | Some x \<Rightarrow> x) in
           if length rewards \<noteq> length outs then Inr (Some (Err ''invalid number of outputs''))
           else Inr (firstError (outputError E block shares rewards) [0..<length rewards]))))"

definition expectedSeed :: "env \<Rightarrow> PoolBlock \<Rightarrow> PoolBlock \<Rightarrow> hash" where
  "expectedSeed E parent block =
    (if b_PreviousId (pb_Main parent) \<noteq> b_PreviousId (pb_Main block)
     then PoolBlock_CalculateTransactionPrivateKeySeed (e_K E) parent
     else sd_CoinbasePrivateKeySeed (pb_Side parent))"

text \<open>The part of \<^verbatim>\<open>verifyBlock\<close> after the cumulative difficulty: difficulty and outputs, inside the window.\<close>

definition verifyWindow :: "env \<Rightarrow> SideChain \<Rightarrow> ref \<Rightarrow> ref \<Rightarrow> verdict run" where
  "verifyWindow E s r parent =
    (let block = blk s r;
         outputs = (\<lambda>diff. if diff \<noteq> sd_Difficulty (pb_Side block) then retO (invalid ''wrong difficulty'')
                           else Some (bindR (verifyOutputs E s r) (\<lambda>e. Inr (None, e))))
     in if Some parent = sc_chainTip s then outputs (sc_difficulty s)
        else (case getDifficulty E s parent of
                None \<Rightarrow> None
              | Some (diff, verErr, invErr) \<Rightarrow>
                  if verErr \<noteq> None \<or> invErr \<noteq> None then retO (verErr, invErr)
                  else if diff = ZeroDifficulty then retO (invalid ''could not get difficulty'')
                  else outputs diff))"

definition verifyBlock :: "env \<Rightarrow> SideChain \<Rightarrow> ref \<Rightarrow> verdict run" where
  "verifyBlock E s r =
    (let block = blk s r; side = pb_Side block; c = e_consensus E in
     if sd_Height side = 0 then
       (if genesisOk E block then retO (None, None) else retO (invalid ''genesis block has invalid parameters''))
     else if pb_Depth block > (n_ChainWindowSize c - 1) * 2 + UncleBlockDepth then retO (None, None)
     else if sd_Parent side = ZeroHash then retO (invalid ''block must have a parent'')
     else case getParent s r of
       None \<Rightarrow> retO (unverified ''parent does not exist'')
     | Some p \<Rightarrow>
         let parent = blk s p in
         if \<not> pb_Verified parent then retO (unverified ''parent is not verified'')
         else if pb_Invalid parent then retO (invalid ''parent is invalid'')
         else if pb_ShareVersion block > ShareVersion_V1 \<and> sd_CoinbasePrivateKeySeed side \<noteq> expectedSeed E parent block
         then retO (invalid ''invalid tx key seed'')
         else if sd_Height (pb_Side parent) + 1 \<noteq> sd_Height side then retO (invalid ''wrong height'')
         else if \<not> uncleOrder (sd_Uncles side) then retO (invalid ''invalid uncle order'')
         else
           let mined = minedLoop E s (unat (min UncleBlockDepth (sd_Height side + 1))) (Some p) [] in
           case checkUncles E s block p mined (Add (sd_CumulativeDifficulty (pb_Side parent)) (sd_Difficulty side)) (sd_Uncles side) of
             None \<Rightarrow> None
           | Some (Inl v) \<Rightarrow> retO v
           | Some (Inr expectedCumulativeDifficulty) \<Rightarrow>
               if \<not> Equals (e_U E) (sd_CumulativeDifficulty side) expectedCumulativeDifficulty
               then retO (invalid ''wrong cumulative difficulty'')
               else if pb_Depth block \<ge> n_ChainWindowSize c then retO (None, None)
               else verifyWindow E s r p)"

subsection \<open>What a verified share satisfies\<close>

lemma uncleOrder_sorted: "uncleOrder ids \<longleftrightarrow> sorted_wrt (<) ids"
proof (induction ids rule: uncleOrder.induct)
  case (1 a b ids)
  have "Compare a b = - 1 \<longleftrightarrow> a < b" by (simp add: Compare_spec)
  then show ?case using 1 by (auto intro: less_trans)
qed auto

text \<open>The difficulty of the uncles of a share, by the index.\<close>

definition uncle_sum :: "SideChain \<Rightarrow> hash list \<Rightarrow> nat" where
  "uncle_sum s ids = (\<Sum>i\<leftarrow>ids. case sc_byId s i of None \<Rightarrow> 0 | Some u \<Rightarrow> val (sd_Difficulty (pb_Side (blk s u))))"

abbreviation ancestorOf :: "SideChain \<Rightarrow> nat \<Rightarrow> ref \<Rightarrow> ref option" where
  "ancestorOf s \<equiv> ancestor (sc_heap s) (sc_byId s)"

text \<open>The ids of the last \<open>n\<close> shares up to \<open>p\<close> and of their uncles.\<close>

definition mined_before :: "env \<Rightarrow> SideChain \<Rightarrow> nat \<Rightarrow> ref \<Rightarrow> hash set" where
  "mined_before E s n p = (\<Union>k<n. case ancestorOf s k p of None \<Rightarrow> {}
     | Some a \<Rightarrow> insert (templateIdOf E (blk s a)) (set (sd_Uncles (pb_Side (blk s a)))))"

lemma minedLoop_set: "set (minedLoop E s n (Some p) acc) = set acc \<union> mined_before E s n p"
proof (induction n arbitrary: p acc)
  case (Suc n)
  have "mined_before E s (Suc n) p = insert (templateIdOf E (blk s p)) (set (sd_Uncles (pb_Side (blk s p)))) \<union>
      (case getParent s p of None \<Rightarrow> {} | Some q \<Rightarrow> mined_before E s n q)"
    unfolding mined_before_def lessThan_Suc_eq_insert_0 by (auto simp: getParent_def blk_def split: option.splits)
  moreover have "minedLoop E s n None acc = acc" for acc by (cases n) auto
  ultimately show ?case using Suc.IH by (cases "getParent s p") auto
qed (simp add: mined_before_def)

text \<open>The branch of \<open>u\<close> leaves the chain of \<open>p\<close> at most three levels below the share.\<close>

definition branches_off :: "SideChain \<Rightarrow> PoolBlock \<Rightarrow> ref \<Rightarrow> ref \<Rightarrow> bool" where
  "branches_off s block p u \<longleftrightarrow> (\<exists>k t n x y. ancestorOf s k p = Some t \<and>
     sd_Height (pb_Side (blk s t)) = sd_Height (pb_Side (blk s u)) \<and>
     n < unat UncleBlockDepth \<and> ancestorOf s n t = Some x \<and> ancestorOf s n u = Some y \<and>
     sd_Parent (pb_Side (blk s x)) = sd_Parent (pb_Side (blk s y)) \<and>
     sd_Height (pb_Side block) \<le> sd_Height (pb_Side (blk s x)) + UncleBlockDepth)"

lemma sameAncestor_spec:
  "sameAncestor s height n (Some a) (Some b) \<Longrightarrow> \<exists>k x y. k < n \<and> ancestorOf s k a = Some x \<and> ancestorOf s k b = Some y \<and>
    sd_Parent (pb_Side (blk s x)) = sd_Parent (pb_Side (blk s y)) \<and> height \<le> sd_Height (pb_Side (blk s x)) + UncleBlockDepth"
proof (induction n arbitrary: a b)
  case (Suc n)
  show ?case
  proof (cases "sd_Parent (pb_Side (blk s a)) = sd_Parent (pb_Side (blk s b))")
    case True
    then show ?thesis using Suc.prems by (intro exI [of _ 0] exI [of _ a] exI [of _ b]) (simp split: if_splits)
  next
    case False
    then obtain p q where "getParent s a = Some p" "getParent s b = Some q" "sameAncestor s height n (Some p) (Some q)"
      using Suc.prems by (cases "getParent s a"; cases "getParent s b"; cases n) (auto split: if_splits)
    moreover from this(3) Suc.IH obtain k x y where "k < n" "ancestorOf s k p = Some x" "ancestorOf s k q = Some y"
      "sd_Parent (pb_Side (blk s x)) = sd_Parent (pb_Side (blk s y))" "height \<le> sd_Height (pb_Side (blk s x)) + UncleBlockDepth"
      by blast
    ultimately show ?thesis
      by (intro exI [of _ "Suc k"] exI [of _ x] exI [of _ y]) (simp add: getParent_def blk_def)
  qed
qed simp

definition uncle_ok :: "env \<Rightarrow> SideChain \<Rightarrow> PoolBlock \<Rightarrow> ref \<Rightarrow> hash \<Rightarrow> bool" where
  "uncle_ok E s block p i \<longleftrightarrow> i \<noteq> ZeroHash \<and>
    (\<exists>u. sc_byId s i = Some u \<and> pb_Verified (blk s u) \<and> \<not> pb_Invalid (blk s u) \<and>
      sd_Height (pb_Side (blk s u)) < sd_Height (pb_Side block) \<and>
      sd_Height (pb_Side block) \<le> sd_Height (pb_Side (blk s u)) + UncleBlockDepth \<and> branches_off s block p u)"

lemma checkUncle_ok:
  assumes "checkUncle E s block p mined d i = Some (Inr d')"
  shows "uncle_ok E s block p i \<and> i \<notin> set mined \<and> val d' = (val d + uncle_sum s [i]) mod 2 ^ 128"
proof -
  from assms obtain u where u: "sc_byId s i = Some u"
    by (auto simp: checkUncle_def split: if_splits option.splits)
  from assms u obtain t where t: "walkDown (sc_heap s) (sc_byId s) (sd_Height (pb_Side (blk s u))) (Some p) = Some (Some t)"
    "\<not> sd_Height (pb_Side (blk s t)) < sd_Height (pb_Side (blk s u))"
    "sameAncestor s (sd_Height (pb_Side block)) (unat UncleBlockDepth) (Some t) (Some u)"
    by (auto simp: checkUncle_def Let_def Option.bind_eq_Some_conv split: if_splits option.splits)
  obtain k where "ancestorOf s k p = Some t" "sd_Height (pb_Side (blk s t)) = sd_Height (pb_Side (blk s u))"
    using walkDown_reaches [OF t(1)] t(2) by (fastforce simp: blk_def)
  then have "branches_off s block p u" using sameAncestor_spec [OF t(3)] unfolding branches_off_def by blast
  then show ?thesis
    using assms u
    by (auto simp: checkUncle_def Let_def uncle_ok_def uncle_sum_def val_Add not_less not_le Option.bind_eq_Some_conv
        split: if_splits option.splits)
qed

lemma checkUncles_ok:
  "checkUncles E s block p mined d ids = Some (Inr d') \<Longrightarrow>
    (\<forall>i \<in> set ids. uncle_ok E s block p i \<and> i \<notin> set mined) \<and> val d' = (val d + uncle_sum s ids) mod 2 ^ 128"
proof (induction ids arbitrary: d)
  case Nil
  then show ?case using val_lt [of d] by (simp add: uncle_sum_def)
next
  case (Cons i ids)
  then obtain x where "checkUncle E s block p mined d i = Some x"
    "(case x of Inl v \<Rightarrow> Some (Inl v) | Inr d1 \<Rightarrow> checkUncles E s block p mined d1 ids) = Some (Inr d')"
    by (auto simp: Option.bind_eq_Some_conv)
  then obtain d1 where d1: "checkUncle E s block p mined d i = Some (Inr d1)"
    "checkUncles E s block p mined d1 ids = Some (Inr d')" by (cases x) auto
  have "(val d1 + uncle_sum s ids) mod 2 ^ 128 = (val d + uncle_sum s (i # ids)) mod 2 ^ 128"
    using checkUncle_ok [OF d1(1)] by (simp add: uncle_sum_def mod_simps ac_simps)
  then show ?case using Cons.IH [OF d1(2)] checkUncle_ok [OF d1(1)] by simp
qed

lemma checkUncle_not_nil: "checkUncle E s block p mined d i \<noteq> Some (Inl (None, None))"
  by (auto simp: checkUncle_def Let_def Option.bind_eq_Some_conv split: if_splits option.splits)

lemma checkUncles_not_nil: "checkUncles E s block p mined d ids \<noteq> Some (Inl (None, None))"
proof (induction ids arbitrary: d)
  case (Cons i ids)
  then show ?case
    using checkUncle_not_nil [of E s block p mined d i]
    by (cases "checkUncle E s block p mined d i" rule: option.exhaust) (auto split: sum.splits)
qed simp

lemma firstError_None: "firstError f is = None \<longleftrightarrow> (\<forall>i \<in> set is. f i = None)"
  by (induction "is") (auto split: option.splits)

text \<open>The outputs pay the shares of the window.\<close>

definition outputs_pay :: "env \<Rightarrow> SideChain \<Rightarrow> ref \<Rightarrow> bool" where
  "outputs_pay E s r \<longleftrightarrow> (\<exists>shares bottom rewards.
    getShares E s r = Inr (Some shares, bottom) \<and> shares \<noteq> [] \<and>
    SplitReward (e_U E) (c_TotalReward (b_Coinbase (pb_Main (blk s r)))) shares = Inr (Some rewards) \<and>
    length rewards = length shares \<and>
    map o_Reward (c_Outputs (b_Coinbase (pb_Main (blk s r)))) = rewards \<and>
    (\<forall>i < length shares. o_EphemeralPublicKey (c_Outputs (b_Coinbase (pb_Main (blk s r))) ! i) =
       fst (e_ephemeral E (s_Address (shares ! i)) (sd_CoinbasePrivateKey (pb_Side (blk s r))) (of_nat i))))"

lemma outputError_None:
  "outputError E block shares rewards i = None \<Longrightarrow>
    o_Reward (c_Outputs (b_Coinbase (pb_Main block)) ! i) = rewards ! i \<and>
    o_EphemeralPublicKey (c_Outputs (b_Coinbase (pb_Main block)) ! i) =
      fst (e_ephemeral E (s_Address (shares ! i)) (sd_CoinbasePrivateKey (pb_Side block)) (of_nat i))"
  by (auto simp: outputError_def Let_def case_prod_unfold split: if_splits)

lemma verifyOutputs_ok:
  assumes "verifyOutputs E s r = Inr None"
  shows "outputs_pay E s r"
proof -
  let ?outs = "c_Outputs (b_Coinbase (pb_Main (blk s r)))" and ?R = "c_TotalReward (b_Coinbase (pb_Main (blk s r)))"
  from assms obtain sharesOpt bottom where sh: "getShares E s r = Inr (sharesOpt, bottom)"
    by (auto simp: verifyOutputs_def Let_def bindR_Inr_iff)
  with assms obtain shares where so: "sharesOpt = Some shares" "shares \<noteq> []"
    by (cases sharesOpt) (auto simp: verifyOutputs_def Let_def split: if_split_asm)
  from assms have len: "length shares = length ?outs" and tot: "sum_list (map o_Reward ?outs) = ?R"
    using sh so by (auto simp: verifyOutputs_def Let_def split: if_splits)
  from assms obtain rewardsOpt where sr: "SplitReward (e_U E) ?R shares = Inr rewardsOpt"
    using sh so len tot by (auto simp: verifyOutputs_def Let_def bindR_Inr_iff)
  with assms obtain rewards where ro: "rewardsOpt = Some rewards"
    using sh so len tot by (cases rewardsOpt) (auto simp: verifyOutputs_def Let_def split: if_split_asm)
  then have rl: "length rewards = length ?outs" and err: "\<forall>i < length rewards. outputError E (blk s r) shares rewards i = None"
    using assms sh so len tot sr by (auto simp: verifyOutputs_def Let_def firstError_None split: if_splits)
  have "map o_Reward ?outs = rewards"
    using err rl outputError_None [of E "blk s r" shares rewards] by (intro nth_equalityI) auto
  then show ?thesis
    using sh so len sr ro rl err outputError_None [of E "blk s r" shares rewards] unfolding outputs_pay_def by force
qed

text \<open>The difficulty a share built on \<open>p\<close> must have: the current one on the tip, else the computed one.\<close>

definition required_difficulty :: "env \<Rightarrow> SideChain \<Rightarrow> ref \<Rightarrow> Difficulty \<Rightarrow> bool" where
  "required_difficulty E s p d \<longleftrightarrow>
    (if Some p = sc_chainTip s then d = sc_difficulty s else getDifficulty E s p = Some (d, None, None))"

lemma verifyWindow_ok:
  assumes "verifyWindow E s r p = retO (None, None)"
  shows "required_difficulty E s p (sd_Difficulty (pb_Side (blk s r))) \<and> outputs_pay E s r"
proof -
  have "verifyOutputs E s r = Inr None"
    using assms by (auto simp: verifyWindow_def Let_def bindR_Inr_iff split: if_splits option.splits prod.splits)
  moreover have "required_difficulty E s p (sd_Difficulty (pb_Side (blk s r)))"
    using assms by (auto simp: verifyWindow_def Let_def required_difficulty_def split: if_splits option.splits prod.splits)
  ultimately show ?thesis using verifyOutputs_ok by blast
qed

text \<open>C6: what verification establishes.  A share that is not a genesis share and not deep, and that
  \<^verbatim>\<open>verifyBlock\<close> accepts, has a verified valid parent one below it.  Its uncles are strictly increasing
  ids of verified valid shares at most three below it, whose branches leave the chain of the
  parent at most three levels below the share, and none of them is the id or an uncle of one of the last three
  shares of that chain (fewer at its beginning), so none was mined before.  It has the key seed its parent
  demands, and as cumulative difficulty its parent's plus its own and its uncles'
  modulo \<open>2^128\<close>; inside the window it also has the required difficulty and its outputs pay
  the shares of the window exactly.\<close>

theorem verifyBlock_sound:
  assumes "verifyBlock E s r = retO (None, None)" and "uint128_ok (e_U E)"
    and "sd_Height (pb_Side (blk s r)) \<noteq> 0"
    and "pb_Depth (blk s r) \<le> (n_ChainWindowSize (e_consensus E) - 1) * 2 + UncleBlockDepth"
  shows "\<exists>p. getParent s r = Some p \<and> pb_Verified (blk s p) \<and> \<not> pb_Invalid (blk s p) \<and>
    sd_Height (pb_Side (blk s r)) = sd_Height (pb_Side (blk s p)) + 1 \<and>
    sorted_wrt (<) (sd_Uncles (pb_Side (blk s r))) \<and>
    (\<forall>i \<in> set (sd_Uncles (pb_Side (blk s r))). uncle_ok E s (blk s r) p i \<and>
      (sd_Height (pb_Side (blk s r)) + 1 \<noteq> 0 \<longrightarrow>
        i \<notin> mined_before E s (min 3 (unat (sd_Height (pb_Side (blk s r))) + 1)) p)) \<and>
    (pb_ShareVersion (blk s r) > ShareVersion_V1 \<longrightarrow>
      sd_CoinbasePrivateKeySeed (pb_Side (blk s r)) = expectedSeed E (blk s p) (blk s r)) \<and>
    val (sd_CumulativeDifficulty (pb_Side (blk s r))) =
      (val (sd_CumulativeDifficulty (pb_Side (blk s p))) + val (sd_Difficulty (pb_Side (blk s r))) +
       uncle_sum s (sd_Uncles (pb_Side (blk s r)))) mod 2 ^ 128 \<and>
    (pb_Depth (blk s r) < n_ChainWindowSize (e_consensus E) \<longrightarrow>
      required_difficulty E s p (sd_Difficulty (pb_Side (blk s r))) \<and> outputs_pay E s r)"
proof -
  let ?b = "blk s r" and ?c = "e_consensus E"
  have deep: "\<not> pb_Depth ?b > (n_ChainWindowSize ?c - 1) * 2 + UncleBlockDepth" using assms(4) by (simp add: not_less)
  note v = assms(1) [unfolded verifyBlock_def Let_def]
  from v assms(3) deep obtain p where p: "getParent s r = Some p" by (auto split: if_split_asm option.split_asm)
  define mined where "mined = minedLoop E s (unat (min UncleBlockDepth (sd_Height (pb_Side ?b) + 1))) (Some p) []"
  note v' = v [unfolded p option.case, folded mined_def]
  have pv: "pb_Verified (blk s p)" "\<not> pb_Invalid (blk s p)" "sd_Height (pb_Side (blk s p)) + 1 = sd_Height (pb_Side ?b)"
    "uncleOrder (sd_Uncles (pb_Side ?b))"
    "pb_ShareVersion ?b > ShareVersion_V1 \<longrightarrow> sd_CoinbasePrivateKeySeed (pb_Side ?b) = expectedSeed E (blk s p) ?b"
    using v' assms(3) deep by (auto split: if_split_asm)
  from v' assms(3) deep pv obtain d where
    u: "checkUncles E s ?b p mined (Add (sd_CumulativeDifficulty (pb_Side (blk s p))) (sd_Difficulty (pb_Side ?b)))
          (sd_Uncles (pb_Side ?b)) = Some (Inr d)"
    using checkUncles_not_nil [of E s ?b p mined] by (auto split: if_split_asm option.split_asm sum.split_asm)
  have eq: "val (sd_CumulativeDifficulty (pb_Side ?b)) = val d"
    and win: "pb_Depth ?b < n_ChainWindowSize ?c \<longrightarrow> verifyWindow E s r p = retO (None, None)"
    using v' assms(2,3) deep pv u by (auto simp: Equals_def uint128_okD split: if_split_asm)
  have "sd_Height (pb_Side ?b) + 1 \<noteq> 0 \<Longrightarrow>
      unat (min UncleBlockDepth (sd_Height (pb_Side ?b) + 1)) = min 3 (unat (sd_Height (pb_Side ?b)) + 1)"
    by (simp add: min_def UncleBlockDepth_def word_le_nat_alt unatSuc add.commute [of _ 1])
  then have mine: "i \<notin> mined_before E s (min 3 (unat (sd_Height (pb_Side ?b)) + 1)) p"
    if "i \<notin> set mined" "sd_Height (pb_Side ?b) + 1 \<noteq> 0" for i
    using minedLoop_set [of E s _ p "[]"] that by (metis mined_def list.set(1) Un_empty_left)
  show ?thesis
    using p pv mine checkUncles_ok [OF u] win verifyWindow_ok [of E s r p] eq
    by (intro exI [of _ p]) (simp add: uncleOrder_sorted val_Add mod_add_left_eq)
qed


end
