(* ===== verification/Chainstate.thy ===== *)
theory Chainstate
  imports Sidechain
begin

text \<open>
  The operations of p2pool/sidechain/sidechain.go that change the state: pruning, moving the chain tip,
  verifying the shares that waited, spreading depths, and adding a share, which combines them.

  Two loops work on stacks of shares and are partial functions; that they end is proved in the theory Chaininv.
\<close>

section \<open>Pruning\<close>

definition pruneDistance :: "Consensus \<Rightarrow> u64" where
  "pruneDistance c = n_ChainWindowSize c * 2 + BlockTime div n_TargetBlockTime c"

definition pruneDelay :: "Consensus \<Rightarrow> u64" where
  "pruneDelay c = n_ChainWindowSize c * 4 * n_TargetBlockTime c"

definition tooOld :: "env \<Rightarrow> PoolBlock \<Rightarrow> bool" where
  "tooOld E b \<longleftrightarrow> pb_Depth b \<ge> pruneDistance (e_consensus E) \<or> e_now E \<ge> pb_LocalTimestamp b + pruneDelay (e_consensus E)"

text \<open>One share of a height, from the last to the first: it is removed from the id index, if it is there, and
  its iteration cache is dropped.  The number counts the removals from the index.\<close>

definition pruneBlock :: "env \<Rightarrow> ref \<Rightarrow> SideChain \<times> nat \<Rightarrow> SideChain \<times> nat" where
  "pruneBlock E r = (\<lambda>(s, numBlocksPruned).
    if tooOld E (blk s r) then
      let templateId = templateIdOf E (blk s r);
          (s, numBlocksPruned) =
            (if sc_byId s templateId \<noteq> None then (s\<lparr>sc_byId := (sc_byId s)(templateId := None)\<rparr>, numBlocksPruned + 1)
             else (s, numBlocksPruned))
      in (modify r (\<lambda>b. b\<lparr>pb_iterationCache := None\<rparr>) s, numBlocksPruned)
    else (s, numBlocksPruned))"

text \<open>\<^verbatim>\<open>slices.Delete(keys, i, i+1)\<close> of Go 1.22 on the array \<open>arr\<close> of which the slice is the first \<open>n\<close> cells: the
  cells after \<open>i\<close> move down and the last one is cleared.\<close>

definition deleteKey :: "u64 list \<Rightarrow> nat \<Rightarrow> nat \<Rightarrow> u64 list" where
  "deleteKey arr n i = take i arr @ drop (i + 1) (take n arr) @ [0] @ drop n arr"

text \<open>The loop \<^verbatim>\<open>for keyIndex, height := range c.blocksByHeightKeys\<close> reads the cells of the array at the indices
  from 0 to the length at the start, while deletions shift the cells; \<open>k\<close> turns are left, the next
  at \<open>keyIndex\<close>.  Deleting past the end of the shortened slice panics.\<close>

primrec pruneLoop :: "env \<Rightarrow> u64 \<Rightarrow> nat \<Rightarrow> nat \<Rightarrow> u64 list \<Rightarrow> nat \<Rightarrow> SideChain \<times> nat \<Rightarrow> (SideChain \<times> nat) result" where
  "pruneLoop E h 0 keyIndex arr n sn = Inr (fst sn\<lparr>sc_keys := take n arr\<rparr>, snd sn)"
| "pruneLoop E h (Suc k) keyIndex arr n sn =
    (let height = arr ! keyIndex in
     if height > h then Inr (fst sn\<lparr>sc_keys := take n arr\<rparr>, snd sn)
     else
       let v = getPoolBlocksByHeight (fst sn) height;
           v' = [r \<leftarrow> v. \<not> tooOld E (blk (fst sn) r)];
           (s', num) = foldr (pruneBlock E) v sn
       in if v' = [] then
            (if keyIndex < n
             then pruneLoop E h k (keyIndex + 1) (deleteKey arr n keyIndex) (n - 1)
                    (s'\<lparr>sc_byHeight := (sc_byHeight s')(height := None)\<rparr>, num)
             else Inl (Panic ''slice bounds out of range''))
          else pruneLoop E h k (keyIndex + 1) arr n (s'\<lparr>sc_byHeight := (sc_byHeight s')(height \<mapsto> v')\<rparr>, num))"

definition cleanupSeenBlocks :: "SideChain \<Rightarrow> SideChain" where
  "cleanupSeenBlocks s = s\<lparr>sc_seen := {k \<in> sc_seen s. sc_byId s (FullId_TemplateId k) \<noteq> None}\<rparr>"

definition pruneOldBlocks :: "env \<Rightarrow> SideChain \<Rightarrow> SideChain result" where
  "pruneOldBlocks E s =
    (case sc_chainTip s of
       None \<Rightarrow> Inr s
     | Some t \<Rightarrow>
         if sd_Height (pb_Side (blk s t)) < pruneDistance (e_consensus E) then Inr s
         else
           let h = sd_Height (pb_Side (blk s t)) - pruneDistance (e_consensus E);
               s = (if \<not> sc_keysSorted s then s\<lparr>sc_keys := sort (sc_keys s), sc_keysSorted := True\<rparr> else s)
           in bindR (pruneLoop E h (length (sc_keys s)) 0 (sc_keys s) (length (sc_keys s)) (s, 0)) (\<lambda>(s, numBlocksPruned).
                if numBlocksPruned > 0 then Inr (cleanupSeenBlocks (s\<lparr>sc_precalcFinished := True\<rparr>)) else Inr s))"

section \<open>The chain tip\<close>

text \<open>\<^verbatim>\<open>if block.WantBroadcast.Load() && !block.Broadcasted.Swap(true)\<close>: the new state and whether to broadcast.\<close>

definition wantsBroadcast :: "ref \<Rightarrow> SideChain \<Rightarrow> bool \<times> SideChain" where
  "wantsBroadcast r s =
    (if pb_WantBroadcast (blk s r)
     then (\<not> pb_Broadcasted (blk s r), modify r (\<lambda>b. b\<lparr>pb_Broadcasted := True\<rparr>) s) else (False, s))"

definition moveTip :: "env \<Rightarrow> SideChain \<Rightarrow> ref \<Rightarrow> bool \<Rightarrow> SideChain run" where
  "moveTip E s r isAlternative =
    (case getDifficulty E s r of
       None \<Rightarrow> None
     | Some (diff, _, _) \<Rightarrow>
         if diff = ZeroDifficulty then retO s
         else
           let s = s\<lparr>sc_chainTip := Some r, sc_syncTip := Some r, sc_difficulty := diff\<rparr>;
               s = call (UpdateTip r) (modify r (\<lambda>b. b\<lparr>pb_WantBroadcast := True\<rparr>) s);
               s = (if isAlternative then s\<lparr>sc_precalcFinished := True\<rparr> else s)
           in Some (pruneOldBlocks E s))"

definition updateChainTip :: "env \<Rightarrow> SideChain \<Rightarrow> ref \<Rightarrow> SideChain run" where
  "updateChainTip E s r =
    (if \<not> pb_Verified (blk s r) \<or> pb_Invalid (blk s r) then retO s
     else if pb_Depth (blk s r) \<ge> n_ChainWindowSize (e_consensus E) then retO s
     else if Some r = sc_chainTip s then retO s
     else case isLongerChain E s (sc_chainTip s) (Some r) of
       None \<Rightarrow> None
     | Some (longer, alternative) \<Rightarrow>
         bindO (if longer then moveTip E s r alternative else retO s) (\<lambda>s.
           let (bc, s) = wantsBroadcast r s in retO (if bc then call (Broadcast r) s else s)))"

section \<open>Verification of waiting shares\<close>

text \<open>The iteration cache of a share that has just been verified.\<close>

fun unclesFound :: "lookup \<Rightarrow> hash list \<Rightarrow> ref list option" where
  "unclesFound get [] = Some []"
| "unclesFound get (i # is) =
    (case get i of None \<Rightarrow> None | Some u \<Rightarrow> map_option ((#) u) (unclesFound get is))"

definition fillCache :: "SideChain \<Rightarrow> ref \<Rightarrow> SideChain" where
  "fillCache s r =
    (case getParent s r of
       None \<Rightarrow> s
     | Some p \<Rightarrow>
         modify r (\<lambda>b. b\<lparr>pb_iterationCache :=
           map_option (\<lambda>us. (Some p, us)) (unclesFound (sc_byId s) (sd_Uncles (pb_Side b)))\<rparr>) s)"

definition setVerdict :: "ref \<Rightarrow> bool \<Rightarrow> bool \<Rightarrow> SideChain \<Rightarrow> SideChain" where
  "setVerdict r verified invalid' = modify r (\<lambda>b. b\<lparr>pb_Verified := verified, pb_Invalid := invalid'\<rparr>)"

text \<open>What follows a successful verification, up to the choice of the highest block.\<close>

definition verified_state :: "SideChain \<Rightarrow> ref \<Rightarrow> SideChain" where
  "verified_state s r = fillPoolBlockTransactionParentIndices (fillCache (setVerdict r True False s) r) r"

definition announce :: "SideChain \<Rightarrow> ref \<Rightarrow> SideChain" where
  "announce s r =
    (let (bc, s) = wantsBroadcast r s;
         s = (if bc \<and> pb_Depth (blk s r) < UncleBlockDepth then call (Broadcast r) s else s)
     in call (StoreBlock r) s)"

definition childrenAbove :: "SideChain \<Rightarrow> ref \<Rightarrow> ref list" where
  "childrenAbove s r = concat (map (\<lambda>i. getPoolBlocksByHeight s (sd_Height (pb_Side (blk s r)) + of_nat i)) [1..<4])"

text \<open>The loop of \<^verbatim>\<open>verifyLoop\<close>; the stack has its top first, \<open>first\<close> is the share whose error is returned.\<close>

partial_function (option) verifyStack ::
  "env \<Rightarrow> ref \<Rightarrow> ref list \<Rightarrow> ref option \<Rightarrow> error option \<Rightarrow> SideChain \<Rightarrow> (error option \<times> ref option \<times> SideChain) run" where
  "verifyStack E first stack highest err s =
    (case stack of
       [] \<Rightarrow> retO (err, highest, s)
     | r # rest \<Rightarrow>
         if pb_Verified (blk s r) then verifyStack E first rest highest err s
         else case verifyBlock E s r of
           None \<Rightarrow> None
         | Some (Inl e) \<Rightarrow> Some (Inl e)
         | Some (Inr (verification, Some e)) \<Rightarrow>
             verifyStack E first rest highest (if r = first then Some e else err) (setVerdict r (verification = None) True s)
         | Some (Inr (Some _, None)) \<Rightarrow> verifyStack E first rest highest err (setVerdict r False False s)
         | Some (Inr (None, None)) \<Rightarrow>
             (case isLongerChain E (verified_state s r) highest (Some r) of
                None \<Rightarrow> None
              | Some (longer, _) \<Rightarrow>
                  verifyStack E first (rev (childrenAbove s r) @ rest) (if longer then Some r else highest) err
                    (announce (verified_state s r) r)))"

definition verifyLoop :: "env \<Rightarrow> SideChain \<Rightarrow> ref \<Rightarrow> (error option \<times> SideChain) run" where
  "verifyLoop E s r =
    bindO (verifyStack E r [r] None None s) (\<lambda>(err, highest, s).
      case highest of
        None \<Rightarrow> retO (err, s)
      | Some hb \<Rightarrow> bindO (updateChainTip E s hb) (\<lambda>s. retO (err, s)))"


section \<open>Depths\<close>

definition updateDepth :: "ref \<Rightarrow> u64 \<Rightarrow> SideChain \<Rightarrow> SideChain" where
  "updateDepth r newDepth s =
    (if pb_Depth (blk s r) < newDepth then modify r (\<lambda>b. b\<lparr>pb_Depth := newDepth\<rparr>) s else s)"

text \<open>The first loop of \<^verbatim>\<open>updateDepths\<close> over the shares above, with their distance; the flag tells that the
  code has returned.  The test on the position of the uncle is \<^verbatim>\<open>ix != 1\<close> in the source.\<close>

definition depthFromChild :: "env \<Rightarrow> ref \<Rightarrow> nat \<times> ref \<Rightarrow> bool \<times> SideChain \<Rightarrow> bool \<times> SideChain" where
  "depthFromChild E r ic = (\<lambda>(returned, s).
    if returned then (True, s)
    else
      let (i, child) = ic; tid = templateIdOf E (blk s r) in
      if sd_Parent (pb_Side (blk s child)) = tid \<and> i \<noteq> 1 then (True, s)
      else
        let s = (if sd_Parent (pb_Side (blk s child)) = tid then updateDepth r (pb_Depth (blk s child) + 1) s else s);
            s = (if index_of (sd_Uncles (pb_Side (blk s child))) tid \<noteq> Some 1
                 then updateDepth r (pb_Depth (blk s child) + 1) s else s)
        in (False, s))"

definition above :: "SideChain \<Rightarrow> ref \<Rightarrow> (nat \<times> ref) list" where
  "above s r = concat (map (\<lambda>i. map (Pair i) (getPoolBlocksByHeight s (sd_Height (pb_Side (blk s r)) + of_nat i))) [1..<4])"

text \<open>The second loop, from a stack of shares whose depth has grown.  \<open>depthToChild\<close> is its inner loop over the shares
  above, with the shares to push and the flag of a return.\<close>

type_synonym depthState = "bool \<times> ref list \<times> SideChain"

definition depthToChild :: "env \<Rightarrow> ref \<Rightarrow> u64 \<Rightarrow> nat \<times> ref \<Rightarrow> depthState \<Rightarrow> depthState" where
  "depthToChild E r blockDepth ic = (\<lambda>(returned, push, s).
    if returned then (True, push, s)
    else
      let (i, child) = ic; tid = templateIdOf E (blk s r); oldDepth = pb_Depth (blk s child) in
      if sd_Parent (pb_Side (blk s child)) = tid \<and> i \<noteq> 1 then (True, push, s)
      else
        let s = (if sd_Parent (pb_Side (blk s child)) = tid \<and> blockDepth > 0 then updateDepth child (blockDepth - 1) s else s);
            s = (if tid \<in> set (sd_Uncles (pb_Side (blk s child))) \<and> blockDepth > of_nat i
                 then updateDepth child (blockDepth - of_nat i) s else s)
        in (False, if pb_Depth (blk s child) > oldDepth then push @ [child] else push, s))"

definition depthToParent :: "ref \<Rightarrow> u64 \<Rightarrow> depthState \<Rightarrow> depthState" where
  "depthToParent r blockDepth = (\<lambda>(returned, push, s).
    if returned then (True, push, s)
    else case getParent s r of
      None \<Rightarrow> (False, push, s)
    | Some p \<Rightarrow>
        if sd_Height (pb_Side (blk s p)) + 1 \<noteq> sd_Height (pb_Side (blk s r)) then (True, push, s)
        else if pb_Depth (blk s p) < blockDepth + 1 then (False, push @ [p], updateDepth p (blockDepth + 1) s)
        else (False, push, s))"

definition depthToUncle :: "ref \<Rightarrow> u64 \<Rightarrow> ref \<Rightarrow> depthState \<Rightarrow> depthState result" where
  "depthToUncle r blockDepth u = (\<lambda>(returned, push, s).
    let hu = sd_Height (pb_Side (blk s u)); hb = sd_Height (pb_Side (blk s r)) in
    if hu \<ge> hb \<or> hu + UncleBlockDepth < hb then Inr (True, push, s)
    else
      let d = hb - hu in
      if pb_Depth (blk s u) < blockDepth + d then Inr (returned, push @ [u], updateDepth u (blockDepth + d) s)
      else Inr (returned, push, s))"

definition depthRound :: "env \<Rightarrow> SideChain \<Rightarrow> ref \<Rightarrow> u64 \<Rightarrow> depthState" where
  "depthRound E s r blockDepth =
    (let st = depthToParent r blockDepth (fold (depthToChild E r blockDepth) (above s r) (False, [], s)) in
     if fst st then st
     else case iteratorUncles (sc_byId (snd (snd st))) (blk (snd (snd st)) r) (depthToUncle r blockDepth) st of
       Inr (st', _) \<Rightarrow> st'
     | Inl _ \<Rightarrow> st)"

partial_function (option) depthStack :: "env \<Rightarrow> ref list \<Rightarrow> SideChain \<Rightarrow> SideChain run" where
  "depthStack E stack s =
    (case stack of
       [] \<Rightarrow> retO s
     | r # rest \<Rightarrow>
         let blockDepth = pb_Depth (blk s r) in
         case (if \<not> pb_Verified (blk s r) \<and>
                  (blockDepth \<ge> n_ChainWindowSize (e_consensus E) * 2 \<or> sd_Height (pb_Side (blk s r)) = 0)
               then bindO (verifyLoop E s r) (\<lambda>(_, s). retO s) else retO s) of
           None \<Rightarrow> None
         | Some (Inl e) \<Rightarrow> Some (Inl e)
         | Some (Inr s1) \<Rightarrow>
             (case depthRound E s1 r blockDepth of
                (returned, push, s2) \<Rightarrow> if returned then retO s2 else depthStack E (rev push @ rest) s2))"

definition updateDepths :: "env \<Rightarrow> SideChain \<Rightarrow> ref \<Rightarrow> SideChain run" where
  "updateDepths E s r =
    (let (returned, s) = fold (depthFromChild E r) (above s r) (False, s) in
     if returned then retO s else depthStack E [r] s)"

section \<open>Adding a share\<close>

definition indexBlock :: "env \<Rightarrow> SideChain \<Rightarrow> ref \<Rightarrow> SideChain" where
  "indexBlock E s r =
    (let b = blk s r; tid = templateIdOf E b; height = sd_Height (pb_Side b);
         s = s\<lparr>sc_byId := (sc_byId s)(tid \<mapsto> r)\<rparr>;
         s = (if tid = sc_watchId s then (call (UpdateBlockFound (sc_watchBlock s) r) s)\<lparr>sc_watchId := ZeroHash\<rparr> else s)
     in case sc_byHeight s height of
          Some l \<Rightarrow> s\<lparr>sc_byHeight := (sc_byHeight s)(height \<mapsto> l @ [r])\<rparr>
        | None \<Rightarrow>
            s\<lparr>sc_byHeight := (sc_byHeight s)(height \<mapsto> [r]),
              sc_keysSorted := (sc_keysSorted s \<and> sc_keys s \<noteq> [] \<and> last (sc_keys s) + 1 = height),
              sc_keys := sc_keys s @ [height]\<rparr>)"

definition AddPoolBlock :: "env \<Rightarrow> SideChain \<Rightarrow> ref \<Rightarrow> (error option \<times> SideChain) run" where
  "AddPoolBlock E s r =
    (if sc_byId s (templateIdOf E (blk s r)) \<noteq> None then retO (None, s)
     else case PoolBlock_AppendBinaryFlags (blk s r) [] False False of
       Inl e \<Rightarrow> retO (Some e, s)
     | Inr _ \<Rightarrow>
         bindO (updateDepths E (indexBlock E s r) r) (\<lambda>s.
         bindO (if pb_Verified (blk s r) then
                  bindO (if \<not> pb_Invalid (blk s r) then updateChainTip E s r else retO s) (\<lambda>s. retO (None, s))
                else verifyLoop E s r) (\<lambda>(err, s).
           retO (err, if \<not> pb_Invalid (blk s r) \<and> pb_Depth (blk s r) = 0 then s\<lparr>sc_syncTip := Some r\<rparr> else s))))"

end
