(* ===== verification/Chaininv.thy ===== *)
theory Chaininv
  imports Chainstate
begin

text \<open>
  The invariant of the side chain and how the operations of the theory Chainstate keep it: the two indexes
  agree, the iteration caches point to parents, the tip is valid.  Every operation evolves the
  state: what a share contains stays, a verdict stays once given, depths only grow.  The loops
  over stacks end, so that adding a share always returns.
\<close>

section \<open>The invariant of the indexes\<close>

text \<open>The two indexes describe the same shares, under their template ids and heights; the keys are the heights in
  use.\<close>

definition index_inv :: "env \<Rightarrow> SideChain \<Rightarrow> bool" where
  "index_inv E s \<longleftrightarrow>
    (\<forall>i r. sc_byId s i = Some r \<longrightarrow> templateIdOf E (blk s r) = i \<and>
       r \<in> set (getPoolBlocksByHeight s (sd_Height (pb_Side (blk s r))))) \<and>
    (\<forall>h l. sc_byHeight s h = Some l \<longrightarrow> l \<noteq> [] \<and> distinct l \<and>
       (\<forall>r \<in> set l. sd_Height (pb_Side (blk s r)) = h \<and> sc_byId s (templateIdOf E (blk s r)) = Some r)) \<and>
    set (sc_keys s) = dom (sc_byHeight s) \<and> distinct (sc_keys s) \<and> (sc_keysSorted s \<longrightarrow> sorted (sc_keys s)) \<and>
    sc_byHeight s (- 1) = None"

text \<open>Iteration caches point to the share their owner names as parent.  All references stay inside a set \<open>S\<close>.\<close>

definition cache_inv :: "env \<Rightarrow> SideChain \<Rightarrow> bool" where
  "cache_inv E s \<longleftrightarrow> (\<forall>r p us. pb_iterationCache (blk s r) = Some (p, us) \<longrightarrow>
     (\<exists>p'. p = Some p' \<and> templateIdOf E (blk s p') = sd_Parent (pb_Side (blk s r))))"

definition refs_in :: "ref set \<Rightarrow> SideChain \<Rightarrow> bool" where
  "refs_in S s \<longleftrightarrow> (\<forall>i r. sc_byId s i = Some r \<longrightarrow> r \<in> S) \<and> (\<forall>h l. sc_byHeight s h = Some l \<longrightarrow> set l \<subseteq> S) \<and>
     (\<forall>r p us. pb_iterationCache (blk s r) = Some (p, us) \<longrightarrow> set_option p \<subseteq> S \<and> set us \<subseteq> S)"

text \<open>The chain tip is a share that was found valid.\<close>

definition tip_inv :: "ref set \<Rightarrow> SideChain \<Rightarrow> bool" where
  "tip_inv S s \<longleftrightarrow> (\<forall>t. sc_chainTip s = Some t \<longrightarrow> t \<in> S \<and> pb_Verified (blk s t) \<and> \<not> pb_Invalid (blk s t))"

definition chain_inv :: "env \<Rightarrow> ref set \<Rightarrow> SideChain \<Rightarrow> bool" where
  "chain_inv E S s \<longleftrightarrow> index_inv E s \<and> cache_inv E s \<and> refs_in S s \<and> tip_inv S s"

text \<open>What an operation keeps of a share: its id, its side data, its main-chain block up to the compact indices of
  its transactions, its version, its arrival time, a verdict once given; its depth may grow.\<close>

definition keeps :: "env \<Rightarrow> PoolBlock \<Rightarrow> PoolBlock \<Rightarrow> bool" where
  "keeps E b b' \<longleftrightarrow> templateIdOf E b' = templateIdOf E b \<and> pb_Side b' = pb_Side b \<and>
     (pb_Main b')\<lparr>b_TransactionParentIndices := []\<rparr> = (pb_Main b)\<lparr>b_TransactionParentIndices := []\<rparr> \<and>
     pb_ShareVersion b' = pb_ShareVersion b \<and> pb_LocalTimestamp b' = pb_LocalTimestamp b \<and>
     (pb_Verified b \<longrightarrow> pb_Verified b' \<and> pb_Invalid b' = pb_Invalid b) \<and> pb_Depth b \<le> pb_Depth b'"

text \<open>The shares pruning may remove: too old, and at least the prune distance below a share of \<open>S\<close> that was found valid.\<close>

definition prunable :: "env \<Rightarrow> ref set \<Rightarrow> SideChain \<Rightarrow> ref \<Rightarrow> bool" where
  "prunable E S s r \<longleftrightarrow> tooOld E (blk s r) \<and> (\<exists>t \<in> S. pb_Verified (blk s t) \<and> \<not> pb_Invalid (blk s t) \<and>
     unat (sd_Height (pb_Side (blk s r))) + unat (pruneDistance (e_consensus E)) \<le> unat (sd_Height (pb_Side (blk s t))))"

text \<open>How every operation below may change the state: shares are kept, the id index only loses entries, server
  calls are appended, the invariant is kept, and then the lost entries are of shares that may be
  pruned.  Inside the loop of pruning only the first four hold.\<close>

definition shrinks :: "env \<Rightarrow> ref set \<Rightarrow> SideChain \<Rightarrow> SideChain \<Rightarrow> bool" where
  "shrinks E S s s' \<longleftrightarrow>
    (\<forall>r. keeps E (blk s r) (blk s' r)) \<and>
    (\<forall>i. sc_byId s' i = sc_byId s i \<or> sc_byId s' i = None) \<and>
    (\<exists>calls. sc_calls s' = sc_calls s @ calls) \<and>
    sc_watchId s' = sc_watchId s \<and> sc_watchBlock s' = sc_watchBlock s \<and>
    (chain_inv E S s \<longrightarrow> chain_inv E S s')"

definition evolves :: "env \<Rightarrow> ref set \<Rightarrow> SideChain \<Rightarrow> SideChain \<Rightarrow> bool" where
  "evolves E S s s' \<longleftrightarrow>
    (\<forall>r. keeps E (blk s r) (blk s' r)) \<and>
    (\<forall>i. sc_byId s' i = sc_byId s i \<or> sc_byId s' i = None) \<and>
    (\<exists>calls. sc_calls s' = sc_calls s @ calls) \<and>
    sc_watchId s' = sc_watchId s \<and> sc_watchBlock s' = sc_watchBlock s \<and>
    (chain_inv E S s \<longrightarrow> chain_inv E S s') \<and>
    (chain_inv E S s \<longrightarrow> (\<forall>i r. sc_byId s i = Some r \<longrightarrow> sc_byId s' i = None \<longrightarrow> prunable E S s' r))"

lemma keeps_refl [simp, intro]: "keeps E b b"
  by (simp add: keeps_def)

lemma keeps_trans: "keeps E a b \<Longrightarrow> keeps E b c \<Longrightarrow> keeps E a c"
  by (auto simp: keeps_def intro: order_trans)

lemma tooOld_keeps: "keeps E b b' \<Longrightarrow> tooOld E b \<Longrightarrow> tooOld E b'"
  by (auto simp: keeps_def tooOld_def)

lemma prunable_keeps:
  assumes "\<And>r. keeps E (blk s r) (blk s' r)" "prunable E S s r"
  shows "prunable E S s' r"
proof -
  obtain t where t: "t \<in> S" "pb_Verified (blk s t)" "\<not> pb_Invalid (blk s t)"
    "unat (sd_Height (pb_Side (blk s r))) + unat (pruneDistance (e_consensus E)) \<le> unat (sd_Height (pb_Side (blk s t)))"
    using assms(2) by (auto simp: prunable_def)
  then show ?thesis
    using assms(1) [of t] assms(1) [of r] tooOld_keeps [OF assms(1) [of r]] assms(2)
    unfolding prunable_def by (intro conjI bexI [of _ t]) (simp_all add: keeps_def)
qed

lemma evolves_refl [simp, intro]: "evolves E S s s"
  by (simp add: evolves_def)

lemma shrinks_refl: "shrinks E S s s"
  by (simp add: shrinks_def)

lemma evolves_shrinks: "evolves E S s s' \<Longrightarrow> shrinks E S s s'"
  by (simp add: evolves_def shrinks_def)

lemma shrinks_trans:
  assumes "shrinks E S s s1" "shrinks E S s1 s2"
  shows "shrinks E S s s2"
  unfolding shrinks_def
proof (intro conjI allI)
  show "keeps E (blk s r) (blk s2 r)" for r using assms keeps_trans unfolding shrinks_def by blast
  show "sc_byId s2 i = sc_byId s i \<or> sc_byId s2 i = None" for i using assms unfolding shrinks_def by metis
  show "\<exists>calls. sc_calls s2 = sc_calls s @ calls" using assms unfolding shrinks_def by (metis append.assoc)
  show "chain_inv E S s \<longrightarrow> chain_inv E S s2" using assms unfolding shrinks_def by blast
qed (use assms in \<open>simp_all add: shrinks_def\<close>)

lemma evolves_trans [trans]:
  assumes "evolves E S s s1" "evolves E S s1 s2"
  shows "evolves E S s s2"
proof -
  have "prunable E S s2 r" if inv: "chain_inv E S s" and i: "sc_byId s i = Some r" "sc_byId s2 i = None" for i r
  proof (cases "sc_byId s1 i")
    case None
    then have "prunable E S s1 r" using assms(1) inv i(1) by (simp add: evolves_def)
    moreover have "keeps E (blk s1 x) (blk s2 x)" for x using assms(2) by (simp add: evolves_def)
    ultimately show ?thesis by (rule prunable_keeps [rotated])
  next
    case (Some x)
    then have "x = r" using assms(1) i(1) unfolding evolves_def by (metis option.distinct(1) option.inject)
    then show ?thesis using assms inv i(2) Some by (simp add: evolves_def)
  qed
  then show ?thesis
    using shrinks_trans [OF assms [THEN evolves_shrinks]] by (auto simp: evolves_def shrinks_def)
qed

lemma blk_modify: "blk (modify r f s) x = (if x = r then f (blk s r) else blk s x)"
  by (simp add: blk_def modify_def)

lemma modify_fields [simp]:
  "sc_byId (modify r f s) = sc_byId s" "sc_byHeight (modify r f s) = sc_byHeight s" "sc_keys (modify r f s) = sc_keys s"
  "sc_keysSorted (modify r f s) = sc_keysSorted s" "sc_calls (modify r f s) = sc_calls s"
  "sc_watchId (modify r f s) = sc_watchId s" "sc_watchBlock (modify r f s) = sc_watchBlock s"
  "sc_chainTip (modify r f s) = sc_chainTip s" "sc_difficulty (modify r f s) = sc_difficulty s"
  by (simp_all add: modify_def)

lemma call_fields [simp]:
  "blk (call x s) r = blk s r" "sc_byId (call x s) = sc_byId s" "sc_byHeight (call x s) = sc_byHeight s"
  "sc_keys (call x s) = sc_keys s" "sc_keysSorted (call x s) = sc_keysSorted s" "sc_calls (call x s) = sc_calls s @ [x]"
  "sc_watchId (call x s) = sc_watchId s" "sc_watchBlock (call x s) = sc_watchBlock s"
  "sc_chainTip (call x s) = sc_chainTip s" "sc_difficulty (call x s) = sc_difficulty s"
  by (simp_all add: call_def blk_def)

lemma blk_update [simp]:
  "blk (s\<lparr>sc_byId := a\<rparr>) r = blk s r" "blk (s\<lparr>sc_byHeight := b\<rparr>) r = blk s r" "blk (s\<lparr>sc_keys := k\<rparr>) r = blk s r"
  "blk (s\<lparr>sc_keysSorted := q\<rparr>) r = blk s r" "blk (s\<lparr>sc_syncTip := t\<rparr>) r = blk s r" "blk (s\<lparr>sc_chainTip := t\<rparr>) r = blk s r"
  "blk (s\<lparr>sc_difficulty := d\<rparr>) r = blk s r" "blk (s\<lparr>sc_precalcFinished := q\<rparr>) r = blk s r"
  "blk (s\<lparr>sc_seen := z\<rparr>) r = blk s r" "blk (s\<lparr>sc_watchId := i\<rparr>) r = blk s r"
  by (simp_all add: blk_def)

text \<open>The invariant depends only on these parts of the state.\<close>

definition same_index :: "SideChain \<Rightarrow> SideChain \<Rightarrow> bool" where
  "same_index s s' \<longleftrightarrow> sc_byId s' = sc_byId s \<and> sc_byHeight s' = sc_byHeight s \<and> sc_keys s' = sc_keys s \<and>
     sc_keysSorted s' = sc_keysSorted s \<and> sc_watchId s' = sc_watchId s \<and> sc_watchBlock s' = sc_watchBlock s"

lemma index_inv_cong:
  assumes "index_inv E s" "same_index s s'" "\<And>r. keeps E (blk s r) (blk s' r)"
  shows "index_inv E s'"
proof -
  have eqs: "templateIdOf E (blk s' r) = templateIdOf E (blk s r)" "pb_Side (blk s' r) = pb_Side (blk s r)"
    "sc_byId s' = sc_byId s" "sc_byHeight s' = sc_byHeight s" "sc_keys s' = sc_keys s" "sc_keysSorted s' = sc_keysSorted s" for r
    using assms(2,3) by (auto simp: same_index_def keeps_def)
  show ?thesis using assms(1) unfolding index_inv_def getPoolBlocksByHeight_def eqs by assumption
qed

lemma tip_inv_cong:
  "tip_inv S s \<Longrightarrow> (\<And>r. keeps E (blk s r) (blk s' r)) \<Longrightarrow> sc_chainTip s' = sc_chainTip s \<Longrightarrow> tip_inv S s'"
  by (fastforce simp: tip_inv_def keeps_def)

text \<open>Caches that are kept or dropped.\<close>

lemma caches_cong:
  assumes "cache_inv E s" "refs_in S s" "\<And>i r. sc_byId s' i = Some r \<Longrightarrow> sc_byId s i = Some r"
    "\<And>h l. sc_byHeight s' h = Some l \<Longrightarrow> \<exists>l'. sc_byHeight s h = Some l' \<and> set l \<subseteq> set l'"
    "\<And>r. keeps E (blk s r) (blk s' r)" "\<And>r. pb_iterationCache (blk s' r) \<in> {pb_iterationCache (blk s r), None}"
  shows "cache_inv E s' \<and> refs_in S s'"
proof -
  have eqs: "templateIdOf E (blk s' r) = templateIdOf E (blk s r)" "pb_Side (blk s' r) = pb_Side (blk s r)" for r
    using assms(5) by (auto simp: keeps_def)
  have c: "pb_iterationCache (blk s r) = Some x" if "pb_iterationCache (blk s' r) = Some x" for r x
    using assms(6) [of r] that by auto
  have "cache_inv E s'" using assms(1) unfolding cache_inv_def eqs by (auto dest!: c)
  moreover have "refs_in S s'" using assms(2) c assms(3,4) unfolding refs_in_def by (meson subset_trans)
  ultimately show ?thesis ..
qed

lemma evolvesI:
  assumes "same_index s s'" "\<And>r. keeps E (blk s r) (blk s' r)" "sc_calls s' = sc_calls s @ calls"
    "\<And>r. pb_iterationCache (blk s' r) \<in> {pb_iterationCache (blk s r), None}"
    "sc_chainTip s' = sc_chainTip s"
  shows "evolves E S s s'"
proof -
  have "chain_inv E S s'" if "chain_inv E S s"
    using that index_inv_cong [of E s s', OF _ assms(1,2)] tip_inv_cong [of S s E s', OF _ assms(2,5)]
      caches_cong [of E s S s', OF _ _ _ _ assms(2,4)] assms(1) by (simp add: chain_inv_def same_index_def)
  then show ?thesis using assms by (auto simp: evolves_def same_index_def)
qed

lemma templateIdOf_update [simp]:
  "templateIdOf E (b\<lparr>pb_Verified := v\<rparr>) = templateIdOf E b" "templateIdOf E (b\<lparr>pb_Invalid := v\<rparr>) = templateIdOf E b"
  "templateIdOf E (b\<lparr>pb_iterationCache := i\<rparr>) = templateIdOf E b" "templateIdOf E (b\<lparr>pb_Depth := d\<rparr>) = templateIdOf E b"
  "templateIdOf E (b\<lparr>pb_WantBroadcast := v\<rparr>) = templateIdOf E b" "templateIdOf E (b\<lparr>pb_Broadcasted := v\<rparr>) = templateIdOf E b"
  "templateIdOf E (b\<lparr>pb_Main := (pb_Main b)\<lparr>b_TransactionParentIndices := t\<rparr>\<rparr>) = templateIdOf E b"
  by (simp_all add: templateIdOf_def SideTemplateId_def CalculateSideTemplateId_def Block_SideChainHashingBlob_def
      HeaderBlob_def Let_def split: option.splits)

section \<open>Operations that change shares only\<close>

lemma evolves_modify:
  assumes "keeps E (blk s r) (f (blk s r))" "pb_iterationCache (f (blk s r)) \<in> {pb_iterationCache (blk s r), None}"
  shows "evolves E S s (modify r f s)"
  by (rule evolvesI [where calls = "[]"]) (use assms in \<open>auto simp: same_index_def blk_modify\<close>)

lemma evolves_call: "evolves E S s (call x s)"
  by (rule evolvesI [where calls = "[x]"]) (auto simp: same_index_def)

lemma evolves_fields:
  "evolves E S s (s\<lparr>sc_seen := z\<rparr>)" "evolves E S s (s\<lparr>sc_syncTip := t\<rparr>)" "evolves E S s (s\<lparr>sc_precalcFinished := q\<rparr>)"
  by (rule evolvesI [where calls = "[]"]; simp add: same_index_def)+

lemma wantsBroadcast_evolves: "evolves E S s (snd (wantsBroadcast r s))"
  by (auto simp: wantsBroadcast_def keeps_def intro!: evolves_modify)

lemma announce_evolves: "evolves E S s (announce s r)"
proof -
  obtain bc s1 where w: "wantsBroadcast r s = (bc, s1)" by fastforce
  then have "evolves E S s s1" using wantsBroadcast_evolves [of E S s r] by simp
  also have "evolves E S s1 (if bc \<and> pb_Depth (blk s1 r) < UncleBlockDepth then call (Broadcast r) s1 else s1)"
    by (simp add: evolves_call)
  also have "evolves E S \<dots> (call (StoreBlock r) \<dots>)" by (rule evolves_call)
  finally show ?thesis by (simp add: announce_def w Let_def)
qed

lemma setVerdict_evolves: "\<not> pb_Verified (blk s r) \<Longrightarrow> evolves E S s (setVerdict r v i s)"
  by (auto simp: setVerdict_def keeps_def intro!: evolves_modify)

lemma fillParentIndices_evolves: "evolves E S s (fillPoolBlockTransactionParentIndices s r)"
  unfolding fillPoolBlockTransactionParentIndices_def
  by (rule evolves_modify) (auto simp: FillTransactionParentIndices_def keeps_def split: option.splits)

lemma updateDepth_evolves: "evolves E S s (updateDepth r d s)"
  by (auto simp: updateDepth_def keeps_def intro!: evolves_modify)

subsection \<open>Parents\<close>

lemma getParent_in:
  assumes "chain_inv E S s" "getParent s r = Some p"
  shows "p \<in> S \<and> templateIdOf E (blk s p) = sd_Parent (pb_Side (blk s r))"
proof (cases "pb_iterationCache (blk s r)")
  case None
  then show ?thesis
    using assms by (auto simp: getParent_def iteratorGetParent_def chain_inv_def refs_in_def index_inv_def)
next
  case (Some x)
  then obtain us where us: "pb_iterationCache (blk s r) = Some (Some p, us)"
    using assms(2) by (cases x) (auto simp: getParent_def iteratorGetParent_def)
  have "set_option (Some p) \<subseteq> S" using assms(1) us unfolding chain_inv_def refs_in_def by blast
  moreover have "\<exists>p'. Some p = Some p' \<and> templateIdOf E (blk s p') = sd_Parent (pb_Side (blk s r))"
    using assms(1) us unfolding chain_inv_def cache_inv_def by blast
  ultimately show ?thesis by simp
qed

lemma unclesFound_in: "unclesFound get ids = Some us \<Longrightarrow> (\<And>i u. get i = Some u \<Longrightarrow> u \<in> S) \<Longrightarrow> set us \<subseteq> S"
  by (induction ids arbitrary: us) (auto split: option.splits)

lemma fillCache_evolves: "evolves E S s (fillCache s r)"
proof (cases "getParent s r")
  case (Some p)
  let ?us = "unclesFound (sc_byId s) (sd_Uncles (pb_Side (blk s r)))"
  let ?s = "fillCache s r"
  have s': "?s = modify r (\<lambda>b. b\<lparr>pb_iterationCache := map_option (Pair (Some p)) ?us\<rparr>) s"
    by (simp add: fillCache_def Some modify_def blk_def)
  have k: "keeps E (blk s x) (blk ?s x)" for x by (simp add: s' blk_modify keeps_def)
  have si: "same_index s ?s" by (simp add: s' same_index_def)
  have "chain_inv E S ?s" if inv: "chain_inv E S s"
  proof -
    have p: "p \<in> S" "templateIdOf E (blk s p) = sd_Parent (pb_Side (blk s r))" using getParent_in [OF inv Some] by auto
    have "set us \<subseteq> S" if "?us = Some us" for us
      using unclesFound_in [OF that] inv by (simp add: chain_inv_def refs_in_def)
    then have "refs_in S ?s" using inv p by (auto simp: chain_inv_def refs_in_def s' blk_modify split: if_splits)
    moreover have "cache_inv E ?s"
      using inv p by (auto simp: chain_inv_def cache_inv_def s' blk_modify split: if_splits)
    ultimately show ?thesis
      using index_inv_cong [OF _ si k] tip_inv_cong [OF _ k, of S] inv by (simp add: chain_inv_def s')
  qed
  then show ?thesis using k si by (auto simp: evolves_def same_index_def s')
qed (simp add: fillCache_def)

lemma verified_state_evolves:
  "\<not> pb_Verified (blk s r) \<Longrightarrow> evolves E S s (verified_state s r)"
  unfolding verified_state_def
  by (meson evolves_trans setVerdict_evolves fillCache_evolves fillParentIndices_evolves)

section \<open>Pruning\<close>

lemma tooOld_cache [simp]: "tooOld E (b\<lparr>pb_iterationCache := i\<rparr>) = tooOld E b"
  by (simp add: tooOld_def)

text \<open>What the pruning of a list of shares does: those that are too old leave the index and lose their cache.\<close>

definition pruned_of :: "env \<Rightarrow> ref list \<Rightarrow> SideChain \<Rightarrow> SideChain \<Rightarrow> bool" where
  "pruned_of E v s s' \<longleftrightarrow>
    (\<forall>r. blk s' r = (if r \<in> set v \<and> tooOld E (blk s r) then (blk s r)\<lparr>pb_iterationCache := None\<rparr> else blk s r)) \<and>
    (\<forall>i. sc_byId s' i = (if \<exists>r \<in> set v. tooOld E (blk s r) \<and> templateIdOf E (blk s r) = i then None else sc_byId s i)) \<and>
    sc_byHeight s' = sc_byHeight s \<and> sc_keysSorted s' = sc_keysSorted s \<and> sc_calls s' = sc_calls s \<and>
    sc_chainTip s' = sc_chainTip s \<and> sc_difficulty s' = sc_difficulty s \<and>
    sc_watchId s' = sc_watchId s \<and> sc_watchBlock s' = sc_watchBlock s"

lemma pruneBlock_step:
  "fst (pruneBlock E x (s, m)) =
    (if tooOld E (blk s x) then modify x (\<lambda>b. b\<lparr>pb_iterationCache := None\<rparr>) (s\<lparr>sc_byId := (sc_byId s)(templateIdOf E (blk s x) := None)\<rparr>)
     else s)"
proof -
  have "sc_byId s i = None \<Longrightarrow> s\<lparr>sc_byId := (sc_byId s)(i := None)\<rparr> = s" for i by (simp add: fun_upd_idem)
  then show ?thesis by (simp add: pruneBlock_def Let_def del: not_None_eq)
qed

lemma pruned_of_step:
  assumes "pruned_of E v s s1"
  shows "pruned_of E (x # v) s (fst (pruneBlock E x (s1, m)))"
proof -
  have eq: "tooOld E (blk s1 x) = tooOld E (blk s x)" "templateIdOf E (blk s1 x) = templateIdOf E (blk s x)"
    using assms by (simp_all add: pruned_of_def)
  show ?thesis
  proof (cases "tooOld E (blk s x)")
    case True
    then show ?thesis using assms unfolding pruneBlock_step eq pruned_of_def by (auto simp: blk_modify)
  next
    case False
    then show ?thesis using assms unfolding pruneBlock_step eq pruned_of_def by auto
  qed
qed

lemma foldr_pruneBlock: "pruned_of E v s (fst (foldr (pruneBlock E) v (s, m)))"
proof (induction v)
  case Nil
  show ?case by (simp add: pruned_of_def)
next
  case (Cons x v)
  obtain s1 m1 where f: "foldr (pruneBlock E) v (s, m) = (s1, m1)" by fastforce
  then show ?case using Cons pruned_of_step [of E v s s1 x m1] by (simp only: foldr.simps comp_def f fst_conv)
qed

lemma pruned_keeps: "pruned_of E v s s' \<Longrightarrow> keeps E (blk s r) (blk s' r)"
  by (simp add: pruned_of_def keeps_def)

text \<open>One height after its shares were pruned; \<open>ks'\<close> are the keys without the height, if nothing is left there.\<close>

definition dropHeight :: "u64 \<Rightarrow> ref list \<Rightarrow> u64 list \<Rightarrow> SideChain \<Rightarrow> SideChain" where
  "dropHeight height v' ks' s' =
    s'\<lparr>sc_byHeight := (sc_byHeight s')(height := if v' = [] then None else Some v'), sc_keys := ks'\<rparr>"

lemma dropHeight_index:
  assumes inv: "index_inv E (s\<lparr>sc_keys := ks\<rparr>)" and p: "pruned_of E (getPoolBlocksByHeight s height) s s'"
    and v': "v' = [r \<leftarrow> getPoolBlocksByHeight s height. \<not> tooOld E (blk s r)]"
    and ks: "ks' = (if v' = [] then filter ((\<noteq>) height) ks else ks)"
  shows "index_inv E (dropHeight height v' ks' s')"
proof -
  let ?v = "getPoolBlocksByHeight s height" and ?u = "dropHeight height v' ks' s'"
  let ?gone = "\<lambda>i. \<exists>r \<in> set ?v. tooOld E (blk s r) \<and> templateIdOf E (blk s r) = i"
  have blk: "templateIdOf E (blk ?u r) = templateIdOf E (blk s r)" "pb_Side (blk ?u r) = pb_Side (blk s r)" for r
    using p by (auto simp: dropHeight_def pruned_of_def)
  have ix: "sc_byId ?u i = (if ?gone i then None else sc_byId s i)" for i
    using p unfolding pruned_of_def dropHeight_def by simp
  have hx: "sc_byHeight ?u h = (if h = height then (if v' = [] then None else Some v') else sc_byHeight s h)" for h
    using p unfolding pruned_of_def dropHeight_def by simp
  have i1: "sc_byId s i = Some r \<Longrightarrow> templateIdOf E (blk s r) = i \<and> r \<in> set (getPoolBlocksByHeight s (sd_Height (pb_Side (blk s r))))" for i r
    using inv by (simp add: index_inv_def getPoolBlocksByHeight_def)
  have i2: "sc_byHeight s h = Some l \<Longrightarrow> l \<noteq> [] \<and> distinct l \<and>
       (\<forall>r \<in> set l. sd_Height (pb_Side (blk s r)) = h \<and> sc_byId s (templateIdOf E (blk s r)) = Some r)" for h l
    using inv by (simp add: index_inv_def)
  have i3: "set ks = dom (sc_byHeight s)" "distinct ks" "sc_keysSorted s \<longrightarrow> sorted ks" "sc_byHeight s (- 1) = None"
    using inv by (simp_all add: index_inv_def)
  have v: "r \<in> set ?v \<Longrightarrow> sd_Height (pb_Side (blk s r)) = height \<and> sc_byId s (templateIdOf E (blk s r)) = Some r" for r
    using i2 [of height] by (cases "sc_byHeight s height") (auto simp: getPoolBlocksByHeight_def)
  have vd: "v' \<noteq> [] \<Longrightarrow> height \<in> dom (sc_byHeight s)"
    by (cases "sc_byHeight s height") (auto simp: v' getPoolBlocksByHeight_def)
  show ?thesis
    unfolding index_inv_def
  proof (intro conjI allI impI)
    fix i r assume "sc_byId ?u i = Some r"
    then have r: "sc_byId s i = Some r" "\<not> ?gone i" by (auto simp: ix split: if_splits)
    then show "templateIdOf E (blk ?u r) = i" using i1 by (simp add: blk)
    show "r \<in> set (getPoolBlocksByHeight ?u (sd_Height (pb_Side (blk ?u r))))"
    proof (cases "sd_Height (pb_Side (blk s r)) = height")
      case True
      then have "r \<in> set v'" using i1 [OF r(1)] r(2) by (auto simp: v')
      then show ?thesis using True by (auto simp: getPoolBlocksByHeight_def hx blk)
    next
      case False
      then show ?thesis using i1 [OF r(1)] by (simp add: getPoolBlocksByHeight_def hx blk)
    qed
  next
    fix h l assume "sc_byHeight ?u h = Some l"
    then have l: "h = height \<and> v' \<noteq> [] \<and> l = v' \<or> h \<noteq> height \<and> sc_byHeight s h = Some l" by (auto simp: hx split: if_splits)
    have dv: "distinct ?v" using i2 [of height] by (cases "sc_byHeight s height") (auto simp: getPoolBlocksByHeight_def)
    show "l \<noteq> []" "distinct l" using l i2 [of h l] dv by (auto simp: v')
    show "\<forall>r \<in> set l. sd_Height (pb_Side (blk ?u r)) = h \<and> sc_byId ?u (templateIdOf E (blk ?u r)) = Some r"
    proof
      fix r assume r: "r \<in> set l"
      have hr: "sd_Height (pb_Side (blk s r)) = h" "sc_byId s (templateIdOf E (blk s r)) = Some r"
        using l r i2 [of h l] v [of r] by (auto simp: v')
      have "\<not> ?gone (templateIdOf E (blk s r))"
      proof
        assume "?gone (templateIdOf E (blk s r))"
        then obtain r' where r': "r' \<in> set ?v" "tooOld E (blk s r')" "templateIdOf E (blk s r') = templateIdOf E (blk s r)"
          by blast
        then have eq: "r' = r" using v [OF r'(1)] hr(2) by (metis option.inject)
        then show False using l r r'(2) v [OF r'(1)] hr(1) by (auto simp: v')
      qed
      then show "sd_Height (pb_Side (blk ?u r)) = h \<and> sc_byId ?u (templateIdOf E (blk ?u r)) = Some r"
        unfolding ix blk using hr by simp
    qed
  next
    have "dom (sc_byHeight ?u) = (if v' = [] then dom (sc_byHeight s) - {height} else insert height (dom (sc_byHeight s)))"
      using p by (simp add: dropHeight_def pruned_of_def)
    with vd show "set (sc_keys ?u) = dom (sc_byHeight ?u)"
      using i3(1) by (cases "v' = []") (auto simp: ks dropHeight_def simp del: fun_upd_apply)
  next
    show "sc_byHeight ?u (- 1) = None" unfolding hx using i3(4) vd by auto
  qed (use i3 p in \<open>auto simp: dropHeight_def ks pruned_of_def intro: sorted_wrt_filter\<close>)
qed

lemma dropHeight_shrinks:
  assumes p: "pruned_of E (getPoolBlocksByHeight s height) s s'"
    and v': "v' = [r \<leftarrow> getPoolBlocksByHeight s height. \<not> tooOld E (blk s r)]"
    and ks: "distinct ks \<Longrightarrow> ks' = (if v' = [] then filter ((\<noteq>) height) ks else ks)"
  shows "shrinks E S (s\<lparr>sc_keys := ks\<rparr>) (dropHeight height v' ks' s')"
proof -
  let ?s = "s\<lparr>sc_keys := ks\<rparr>" and ?u = "dropHeight height v' ks' s'"
  have k: "keeps E (blk ?s r) (blk ?u r)" for r using pruned_keeps [OF p] by (simp add: dropHeight_def)
  have ix: "sc_byId ?u i = sc_byId ?s i \<or> sc_byId ?u i = None" for i using p by (simp add: dropHeight_def pruned_of_def)
  have "chain_inv E S ?u" if inv: "chain_inv E S ?s"
  proof -
    have "distinct ks" using inv by (simp add: chain_inv_def index_inv_def)
    then have "index_inv E ?u" using dropHeight_index [OF _ p v' ks] inv by (simp add: chain_inv_def)
    moreover have "\<exists>l'. sc_byHeight ?s h = Some l' \<and> set l \<subseteq> set l'" if "sc_byHeight ?u h = Some l" for h l
      using that p by (cases "sc_byHeight s h") (auto simp: dropHeight_def pruned_of_def v' getPoolBlocksByHeight_def split: if_splits)
    then have "cache_inv E ?u \<and> refs_in S ?u"
      using inv p ix by (intro caches_cong [of E ?s S ?u, OF _ _ _ _ k])
        (auto simp: chain_inv_def dropHeight_def pruned_of_def split: if_splits)
    moreover have "tip_inv S ?u"
      using tip_inv_cong [of S ?s E ?u, OF _ k] inv p by (simp add: chain_inv_def dropHeight_def pruned_of_def)
    ultimately show ?thesis by (simp add: chain_inv_def)
  qed
  then show ?thesis using k ix p unfolding shrinks_def by (simp add: dropHeight_def pruned_of_def)
qed

lemma deleteKey_take:
  assumes "i < n" "n \<le> length arr"
  shows "take (n - 1) (deleteKey arr n i) = take i arr @ drop (i + 1) (take n arr)" "length (deleteKey arr n i) = length arr"
    "distinct (take n arr) \<Longrightarrow> take i arr @ drop (i + 1) (take n arr) = filter ((\<noteq>) (arr ! i)) (take n arr)"
proof -
  show "take (n - 1) (deleteKey arr n i) = take i arr @ drop (i + 1) (take n arr)" "length (deleteKey arr n i) = length arr"
    using assms by (simp_all add: deleteKey_def)
  define A B where "A = take i arr" and "B = drop (i + 1) (take n arr)"
  have "take n arr = A @ arr ! i # B"
    unfolding A_def B_def using assms by (subst id_take_nth_drop [of i "take n arr"]) (simp_all add: min_def)
  moreover have "filter ((\<noteq>) x) (A @ x # B) = A @ B" if "distinct (A @ x # B)" for x
  proof -
    have "filter ((\<noteq>) x) A = A" "filter ((\<noteq>) x) B = B" using that by (auto intro!: filter_True)
    then show ?thesis by simp
  qed
  ultimately have "distinct (take n arr) \<Longrightarrow> filter ((\<noteq>) (arr ! i)) (take n arr) = A @ B" by metis
  then show "distinct (take n arr) \<Longrightarrow> take i arr @ drop (i + 1) (take n arr) = filter ((\<noteq>) (arr ! i)) (take n arr)"
    by (simp only: A_def B_def)
qed

text \<open>What every emptied or thinned height satisfies, the whole loop satisfies.\<close>

lemma pruneLoop_rule:
  assumes refl: "\<And>s. R s s" and trans: "\<And>s t u. R s t \<Longrightarrow> R t u \<Longrightarrow> R s u"
    and step: "\<And>s s1 height v' ks ks'. pruned_of E (getPoolBlocksByHeight s height) s s1 \<Longrightarrow> height \<le> h \<Longrightarrow>
      v' = [r \<leftarrow> getPoolBlocksByHeight s height. \<not> tooOld E (blk s r)] \<Longrightarrow>
      (distinct ks \<Longrightarrow> ks' = (if v' = [] then filter ((\<noteq>) height) ks else ks)) \<Longrightarrow> R (s\<lparr>sc_keys := ks\<rparr>) (dropHeight height v' ks' s1)"
  shows "pruneLoop E h k i arr n (s, m) = Inr (s', m') \<Longrightarrow> n \<le> length arr \<Longrightarrow> R (s\<lparr>sc_keys := take n arr\<rparr>) s'"
proof (induction k arbitrary: i arr n s m)
  case (Suc k)
  let ?v = "getPoolBlocksByHeight s (arr ! i)"
  let ?v' = "[r \<leftarrow> ?v. \<not> tooOld E (blk s r)]"
  obtain s1 m1 where f: "foldr (pruneBlock E) ?v (s, m) = (s1, m1)" by fastforce
  then have p: "pruned_of E ?v s s1" using foldr_pruneBlock [of E ?v s m] by simp
  show ?case
  proof (cases "arr ! i > h")
    case False
    then have le: "arr ! i \<le> h" by (simp add: not_less)
    show ?thesis
    proof (cases "?v' = []")
      case True
      then have i: "i < n" and rec: "pruneLoop E h k (i + 1) (deleteKey arr n i) (n - 1)
          (s1\<lparr>sc_byHeight := (sc_byHeight s1)(arr ! i := None)\<rparr>, m1) = Inr (s', m')"
        using Suc.prems(1) False f by (auto simp: Let_def split: if_splits)
      let ?ks' = "take (n - 1) (deleteKey arr n i)"
      have "R (s\<lparr>sc_keys := take n arr\<rparr>) (dropHeight (arr ! i) ?v' ?ks' s1)"
        using deleteKey_take [OF i Suc.prems(2)] True by (intro step [OF p le HOL.refl]) auto
      moreover have "dropHeight (arr ! i) ?v' ?ks' s1 = s1\<lparr>sc_byHeight := (sc_byHeight s1)(arr ! i := None), sc_keys := ?ks'\<rparr>"
        by (simp add: dropHeight_def True)
      moreover have "R (s1\<lparr>sc_byHeight := (sc_byHeight s1)(arr ! i := None), sc_keys := ?ks'\<rparr>) s'"
        using Suc.IH [OF rec] deleteKey_take(2) [OF i Suc.prems(2)] Suc.prems(2) by simp
      ultimately show ?thesis by (simp only: trans)
    next
      case ne: False
      then have rec: "pruneLoop E h k (i + 1) arr n (s1\<lparr>sc_byHeight := (sc_byHeight s1)(arr ! i \<mapsto> ?v')\<rparr>, m1) = Inr (s', m')"
        using Suc.prems(1) False f by (simp add: Let_def)
      have "R (s\<lparr>sc_keys := take n arr\<rparr>) (dropHeight (arr ! i) ?v' (take n arr) s1)"
        using ne by (intro step [OF p le HOL.refl]) auto
      moreover have "dropHeight (arr ! i) ?v' (take n arr) s1 =
          s1\<lparr>sc_byHeight := (sc_byHeight s1)(arr ! i \<mapsto> ?v'), sc_keys := take n arr\<rparr>"
        using ne by (simp add: dropHeight_def)
      moreover have "R (s1\<lparr>sc_byHeight := (sc_byHeight s1)(arr ! i \<mapsto> ?v'), sc_keys := take n arr\<rparr>) s'"
        using Suc.IH [OF rec] Suc.prems(2) by simp
      ultimately show ?thesis by (simp only: trans)
    qed
  next
    case True
    then have "s' = s\<lparr>sc_keys := take n arr\<rparr>" using Suc.prems(1) by (simp add: Let_def)
    then show ?thesis using refl by simp
  qed
next
  case 0
  then have "s' = s\<lparr>sc_keys := take n arr\<rparr>" by simp
  then show ?case using refl by simp
qed

lemma evolves_sort: "evolves E S s (s\<lparr>sc_keys := sort (sc_keys s), sc_keysSorted := True\<rparr>)"
proof -
  let ?s = "s\<lparr>sc_keys := sort (sc_keys s), sc_keysSorted := True\<rparr>"
  have "index_inv E ?s" if "index_inv E s"
    using that by (simp add: index_inv_def getPoolBlocksByHeight_def)
  moreover have "cache_inv E ?s = cache_inv E s" "refs_in S ?s = refs_in S s" "tip_inv S ?s = tip_inv S s"
    by (simp_all add: cache_inv_def refs_in_def tip_inv_def)
  ultimately show ?thesis by (auto simp: evolves_def chain_inv_def)
qed

text \<open>The cases of \<^verbatim>\<open>pruneOldBlocks\<close>: nothing happens, or the loop runs on the sorted keys.\<close>

definition sortedKeys :: "SideChain \<Rightarrow> SideChain" where
  "sortedKeys s = (if \<not> sc_keysSorted s then s\<lparr>sc_keys := sort (sc_keys s), sc_keysSorted := True\<rparr> else s)"

lemma pruneOldBlocks_cases:
  assumes "pruneOldBlocks E s = Inr s'"
  obtains "s' = s"
  | t h s2 m where "sc_chainTip s = Some t" "h = sd_Height (pb_Side (blk s t)) - pruneDistance (e_consensus E)"
      "pruneDistance (e_consensus E) \<le> sd_Height (pb_Side (blk s t))"
      "pruneLoop E h (length (sc_keys (sortedKeys s))) 0 (sc_keys (sortedKeys s)) (length (sc_keys (sortedKeys s))) (sortedKeys s, 0) = Inr (s2, m)"
      "s' = (if m > 0 then cleanupSeenBlocks (s2\<lparr>sc_precalcFinished := True\<rparr>) else s2)"
proof (cases "sc_chainTip s = None \<or> (\<exists>t. sc_chainTip s = Some t \<and> sd_Height (pb_Side (blk s t)) < pruneDistance (e_consensus E))")
  case True
  then show ?thesis using assms that(1) by (auto simp: pruneOldBlocks_def)
next
  case False
  define s1 where "s1 = sortedKeys s"
  from False obtain t where t: "sc_chainTip s = Some t" "\<not> sd_Height (pb_Side (blk s t)) < pruneDistance (e_consensus E)" by auto
  define h where "h = sd_Height (pb_Side (blk s t)) - pruneDistance (e_consensus E)"
  have "pruneOldBlocks E s = bindR (pruneLoop E h (length (sc_keys s1)) 0 (sc_keys s1) (length (sc_keys s1)) (s1, 0)) (\<lambda>(s, m).
      if m > 0 then Inr (cleanupSeenBlocks (s\<lparr>sc_precalcFinished := True\<rparr>)) else Inr s)"
    unfolding pruneOldBlocks_def t option.case Let_def s1_def h_def sortedKeys_def using t(2) by simp
  from this [unfolded assms, symmetric] obtain s2 m where
    loop: "pruneLoop E h (length (sc_keys s1)) 0 (sc_keys s1) (length (sc_keys s1)) (s1, 0) = Inr (s2, m)"
    and s': "s' = (if m > 0 then cleanupSeenBlocks (s2\<lparr>sc_precalcFinished := True\<rparr>) else s2)"
    by (auto simp: bindR_Inr_iff split: if_splits)
  then show ?thesis using that(2) [OF t(1) h_def _ loop [unfolded s1_def] s'] t(2) by (simp add: not_less)
qed

lemma evolves_cleanup: "evolves E S s (if q then cleanupSeenBlocks (s\<lparr>sc_precalcFinished := True\<rparr>) else s)"
  unfolding cleanupSeenBlocks_def using evolves_trans [OF evolves_fields(3,1)] by simp

text \<open>Entries go only when their share is too old and at most at height \<open>h\<close>.\<close>

definition prunes :: "env \<Rightarrow> ref set \<Rightarrow> u64 \<Rightarrow> SideChain \<Rightarrow> SideChain \<Rightarrow> bool" where
  "prunes E S h s s' \<longleftrightarrow> shrinks E S s s' \<and> (\<forall>x. tooOld E (blk s' x) = tooOld E (blk s x)) \<and>
    sc_chainTip s' = sc_chainTip s \<and> sc_difficulty s' = sc_difficulty s \<and>
    (chain_inv E S s \<longrightarrow> (\<forall>i r. sc_byId s i = Some r \<longrightarrow>
       sc_byId s' i = Some r \<or> sc_byId s' i = None \<and> tooOld E (blk s r) \<and> sd_Height (pb_Side (blk s r)) \<le> h))"

lemma prunes_refl: "prunes E S h s s"
  by (simp add: prunes_def shrinks_refl)

lemma prunes_trans:
  assumes "prunes E S h s t" "prunes E S h t u"
  shows "prunes E S h s u"
proof -
  have ev: "shrinks E S s t" "shrinks E S t u" using assms by (auto simp: prunes_def)
  have side: "pb_Side (blk t r) = pb_Side (blk s r)" for r using ev(1) by (simp add: shrinks_def keeps_def)
  have none: "sc_byId t i = None \<Longrightarrow> sc_byId u i = None" for i using ev(2) unfolding shrinks_def by metis
  have "sc_byId u i = Some r \<or> sc_byId u i = None \<and> tooOld E (blk s r) \<and> sd_Height (pb_Side (blk s r)) \<le> h"
    if inv: "chain_inv E S s" and i: "sc_byId s i = Some r" for i r
  proof (cases "sc_byId t i")
    case None
    then show ?thesis using assms(1) none [of i] inv i unfolding prunes_def by fastforce
  next
    case (Some x)
    then have "sc_byId t i = Some r" using assms(1) inv i unfolding prunes_def by fastforce
    moreover have "chain_inv E S t" using ev(1) inv by (simp add: shrinks_def)
    ultimately show ?thesis using assms side by (auto simp: prunes_def)
  qed
  then show ?thesis using assms shrinks_trans [OF ev] by (simp add: prunes_def)
qed

lemma dropHeight_prunes:
  assumes p: "pruned_of E (getPoolBlocksByHeight s height) s s'" and h: "height \<le> h"
    and v': "v' = [r \<leftarrow> getPoolBlocksByHeight s height. \<not> tooOld E (blk s r)]"
    and ks: "distinct ks \<Longrightarrow> ks' = (if v' = [] then filter ((\<noteq>) height) ks else ks)"
  shows "prunes E S h (s\<lparr>sc_keys := ks\<rparr>) (dropHeight height v' ks' s')"
proof -
  let ?v = "getPoolBlocksByHeight s height"
  have "sc_byId s' i = Some r \<or> sc_byId s' i = None \<and> tooOld E (blk s r) \<and> sd_Height (pb_Side (blk s r)) \<le> h"
    if inv: "index_inv E (s\<lparr>sc_keys := ks\<rparr>)" and i: "sc_byId s i = Some r" for i r
  proof (cases "\<exists>x \<in> set ?v. tooOld E (blk s x) \<and> templateIdOf E (blk s x) = i")
    case True
    then obtain x where x: "x \<in> set ?v" "tooOld E (blk s x)" "templateIdOf E (blk s x) = i" by blast
    have "\<forall>l. sc_byHeight s height = Some l \<longrightarrow> (\<forall>r \<in> set l. sd_Height (pb_Side (blk s r)) = height \<and>
        sc_byId s (templateIdOf E (blk s r)) = Some r)"
      using inv by (simp add: index_inv_def)
    then have "sd_Height (pb_Side (blk s x)) = height" "sc_byId s i = Some x"
      using x by (cases "sc_byHeight s height"; auto simp: getPoolBlocksByHeight_def)+
    then show ?thesis using True x i p h by (simp add: pruned_of_def)
  next
    case False
    have "sc_byId s' i = (if \<exists>x \<in> set ?v. tooOld E (blk s x) \<and> templateIdOf E (blk s x) = i then None else sc_byId s i)"
      using p unfolding pruned_of_def by blast
    then show ?thesis using i False by (simp only: if_False simp_thms)
  qed
  then show ?thesis
    using dropHeight_shrinks [OF p v' ks, of S] p by (simp add: prunes_def chain_inv_def dropHeight_def pruned_of_def)
qed

lemma pruneOldBlocks_prunes:
  assumes "pruneOldBlocks E s = Inr s'"
  shows "s' = s \<or> (\<exists>t. sc_chainTip s = Some t \<and> pruneDistance (e_consensus E) \<le> sd_Height (pb_Side (blk s t)) \<and>
    prunes E S (sd_Height (pb_Side (blk s t)) - pruneDistance (e_consensus E)) s s')"
  using assms
proof (cases rule: pruneOldBlocks_cases)
  case (2 t h s2 m)
  have "prunes E S h s (sortedKeys s)"
    using evolves_shrinks [OF evolves_sort [of E S s]] shrinks_refl by (auto simp: prunes_def sortedKeys_def)
  moreover have "prunes E S h ((sortedKeys s)\<lparr>sc_keys := take (length (sc_keys (sortedKeys s))) (sc_keys (sortedKeys s))\<rparr>) s2"
    by (rule pruneLoop_rule [where R = "prunes E S h", OF prunes_refl prunes_trans _ 2(4)]) (auto intro: dropHeight_prunes)
  then have "prunes E S h (sortedKeys s) s2" by simp
  moreover have "prunes E S h s2 s'"
    using evolves_shrinks [OF evolves_cleanup [of E S s2 "m > 0"]] by (auto simp: 2(5) prunes_def cleanupSeenBlocks_def)
  ultimately have "prunes E S h s s'" using prunes_trans by blast
  then show ?thesis using 2 by blast
qed simp

lemma le_limit:
  assumes "x \<le> a - (d :: u64)" "d \<le> a"
  shows "unat x + unat d \<le> unat a"
  using assms unat_sub [OF assms(2)] by (simp add: word_le_nat_alt)

lemma pruneOldBlocks_evolves:
  assumes "pruneOldBlocks E s = Inr s'"
  shows "evolves E S s s'"
proof (cases "s' = s")
  case False
  then obtain t where t: "sc_chainTip s = Some t" "pruneDistance (e_consensus E) \<le> sd_Height (pb_Side (blk s t))"
    "prunes E S (sd_Height (pb_Side (blk s t)) - pruneDistance (e_consensus E)) s s'"
    using pruneOldBlocks_prunes [OF assms, of S] by blast
  have "prunable E S s' r" if inv: "chain_inv E S s" and i: "sc_byId s i = Some r" "sc_byId s' i = None" for i r
  proof -
    have "tooOld E (blk s r)" "sd_Height (pb_Side (blk s r)) \<le> sd_Height (pb_Side (blk s t)) - pruneDistance (e_consensus E)"
      using t(3) inv i unfolding prunes_def by force+
    moreover have "t \<in> S" "pb_Verified (blk s t)" "\<not> pb_Invalid (blk s t)"
      using inv t(1) by (simp_all add: chain_inv_def tip_inv_def)
    ultimately have "prunable E S s r" using le_limit [OF _ t(2)] unfolding prunable_def by blast
    moreover have "keeps E (blk s x) (blk s' x)" for x using t(3) by (simp add: prunes_def shrinks_def)
    ultimately show ?thesis by (rule prunable_keeps [rotated])
  qed
  then show ?thesis using t(3) by (auto simp: prunes_def shrinks_def evolves_def)
qed simp

section \<open>Computations that end\<close>

text \<open>The computation ends; if it does not panic, its result satisfies \<open>P\<close>.\<close>

definition ends_in :: "'a run \<Rightarrow> ('a \<Rightarrow> bool) \<Rightarrow> bool" where
  "ends_in m P \<longleftrightarrow> (\<exists>x. m = Some x \<and> (\<forall>y. x = Inr y \<longrightarrow> P y))"

lemma ends_in_ret [simp]: "ends_in (retO x) P = P x" "ends_in (Some (Inl e)) P" "\<not> ends_in None P"
  by (auto simp: ends_in_def)

lemma ends_in_Some: "(\<And>y. m = Inr y \<Longrightarrow> P y) \<Longrightarrow> ends_in (Some m) P"
  by (auto simp: ends_in_def)

lemma ends_in_bindO: "ends_in m P \<Longrightarrow> (\<And>x. P x \<Longrightarrow> ends_in (f x) Q) \<Longrightarrow> ends_in (bindO m f) Q"
  by (cases m rule: bindO.cases [of "(m, f)" for m]) auto

lemma ends_in_weaken: "ends_in m P \<Longrightarrow> (\<And>x. P x \<Longrightarrow> Q x) \<Longrightarrow> ends_in m Q"
  by (auto simp: ends_in_def)

text \<open>Parent links have no cycle: shares name their parents by hash.\<close>

definition linked :: "env \<Rightarrow> ref set \<Rightarrow> SideChain \<Rightarrow> bool" where
  "linked E S s \<longleftrightarrow> (\<exists>rk :: hash \<Rightarrow> nat. \<forall>r \<in> S. rk (sd_Parent (pb_Side (blk s r))) < rk (templateIdOf E (blk s r)))"

definition good :: "env \<Rightarrow> ref set \<Rightarrow> SideChain \<Rightarrow> bool" where
  "good E S s \<longleftrightarrow> finite S \<and> uint128_ok (e_U E) \<and> chain_inv E S s \<and> linked E S s"

lemma evolves_good: "good E S s \<Longrightarrow> evolves E S s s' \<Longrightarrow> good E S s'"
  unfolding good_def linked_def evolves_def keeps_def by metis

lemma good_ranked:
  assumes "good E S s"
  shows "\<exists>rk. ranked rk S (sc_heap s) (sc_byId s)"
proof -
  obtain rk :: "hash \<Rightarrow> nat" where rk: "\<forall>r \<in> S. rk (sd_Parent (pb_Side (blk s r))) < rk (templateIdOf E (blk s r))"
    using assms by (auto simp: good_def linked_def)
  have "ranked (\<lambda>r. rk (templateIdOf E (blk s r))) S (sc_heap s) (sc_byId s)"
    unfolding ranked_def
  proof (intro allI impI)
    fix r p assume r: "r \<in> S" "iteratorGetParent (sc_byId s) (sc_heap s r) = Some p"
    then have "p \<in> S \<and> templateIdOf E (blk s p) = sd_Parent (pb_Side (blk s r))"
      using assms getParent_in [of E S s r p] by (simp add: good_def getParent_def blk_def)
    then show "p \<in> S \<and> rk (templateIdOf E (blk s p)) < rk (templateIdOf E (blk s r))" using rk r(1) by simp
  qed
  then show ?thesis by blast
qed

lemma isLongerChain_ends:
  "good E S s \<Longrightarrow> set_option a \<subseteq> S \<Longrightarrow> set_option b \<subseteq> S \<Longrightarrow> \<exists>l alt. isLongerChain E s a b = Some (l, alt)"
  using good_ranked [of E S s] IsLongerChain_ranked unfolding isLongerChain_def by metis

lemma gatherLoop_nonempty: "gatherLoop h c get tip d cur data = Inr data' \<Longrightarrow> data' \<noteq> []"
proof (induction h c get tip d cur data rule: gatherLoop.induct)
  case (1 h c get tip d cur data)
  have keep: "data1 \<noteq> []" if "iteratorUncles get (h cur) (gatherUncle h c tip) (data @ [blockData (h cur)]) = Inr (data1, e)" for data1 e
    by (rule iteratorUncles_keeps [where P = "\<lambda>s. s \<noteq> []", OF _ that]) (auto simp: gatherUncle_def split: if_splits)
  show ?case
    using 1 keep by (subst (asm) (2) gatherLoop.simps) (fastforce split: sum.splits prod.splits option.splits if_splits)
qed

lemma getDifficulty_ends: "uint128_ok (e_U E) \<Longrightarrow> \<exists>d ver inv. getDifficulty E s r = Some (d, ver, inv)"
  using gatherLoop_nonempty [of "sc_heap s" "e_consensus E" "sc_byId s" "sc_heap s r" 0 r "[]"]
  by (auto simp: getDifficulty_def GetDifficultyForNextBlock_def NextDifficulty_spec Let_def split: sum.splits)

section \<open>The chain tip\<close>

lemma moveTip_ends:
  assumes "uint128_ok (e_U E)" "r \<in> S" "pb_Verified (blk s r)" "\<not> pb_Invalid (blk s r)"
  shows "ends_in (moveTip E s r alt) (evolves E S s)"
proof -
  obtain d ver inv where d: "getDifficulty E s r = Some (d, ver, inv)" using getDifficulty_ends [OF assms(1)] by blast
  let ?s1 = "s\<lparr>sc_chainTip := Some r, sc_syncTip := Some r, sc_difficulty := d\<rparr>"
  let ?s2 = "call (UpdateTip r) (modify r (\<lambda>b. b\<lparr>pb_WantBroadcast := True\<rparr>) ?s1)"
  let ?s3 = "if alt then ?s2\<lparr>sc_precalcFinished := True\<rparr> else ?s2"
  have "same_index s ?s1" "keeps E (blk s x) (blk ?s1 x)" for x by (simp_all add: same_index_def)
  then have "chain_inv E S ?s1" if "chain_inv E S s"
    using that assms index_inv_cong [of E s ?s1] caches_cong [of E s S ?s1] by (simp add: chain_inv_def tip_inv_def)
  then have "evolves E S s ?s1" by (simp add: evolves_def)
  also have "evolves E S ?s1 (modify r (\<lambda>b. b\<lparr>pb_WantBroadcast := True\<rparr>) ?s1)" by (rule evolves_modify) (auto simp: keeps_def)
  also have "evolves E S \<dots> ?s2" by (rule evolves_call)
  also have "evolves E S ?s2 ?s3" by (simp add: evolves_fields)
  finally have "evolves E S s ?s3" .
  then show ?thesis
    using pruneOldBlocks_evolves [of E ?s3 _ S] evolves_trans
    by (auto simp: moveTip_def d Let_def intro!: ends_in_Some)
qed

lemma updateChainTip_ends:
  assumes "good E S s" "r \<in> S"
  shows "ends_in (updateChainTip E s r) (evolves E S s)"
proof (cases "pb_Verified (blk s r) \<and> \<not> pb_Invalid (blk s r) \<and> pb_Depth (blk s r) < n_ChainWindowSize (e_consensus E) \<and> Some r \<noteq> sc_chainTip s")
  case True
  have tip: "set_option (sc_chainTip s) \<subseteq> S" using assms(1) by (auto simp: good_def chain_inv_def tip_inv_def)
  obtain l alt where l: "isLongerChain E s (sc_chainTip s) (Some r) = Some (l, alt)"
    using isLongerChain_ends [OF assms(1) tip, of "Some r"] assms(2) by auto
  have "ends_in (if l then moveTip E s r alt else retO s) (evolves E S s)"
    using moveTip_ends [of E r S s alt] assms True by (auto simp: good_def)
  moreover have "ends_in (let (bc, s2) = wantsBroadcast r s1 in retO (if bc then call (Broadcast r) s2 else s2)) (evolves E S s)"
    if "evolves E S s s1" for s1
    using wantsBroadcast_evolves [of E S s1 r] evolves_trans [OF that] evolves_call [of E S] evolves_trans
    by (auto simp: split_beta Let_def)
  ultimately show ?thesis
    using True by (auto simp: updateChainTip_def l not_le [symmetric] intro: ends_in_bindO)
qed (auto simp: updateChainTip_def not_less)

section \<open>The verification loop\<close>

lemma checkUncles_ends:
  assumes "good E S s" "p \<in> S"
  shows "\<exists>x. checkUncles E s block p mined d ids = Some x"
proof (induction ids arbitrary: d)
  case (Cons i ids)
  obtain rk where rk: "ranked rk S (sc_heap s) (sc_byId s)" using good_ranked [OF assms(1)] by blast
  have w: "\<exists>b. walkDown (sc_heap s) (sc_byId s) height (Some p) = Some b" for height
    using walkDown_ranked [OF rk, of "Some p" height] assms(2) by auto
  have "\<exists>x. checkUncle E s block p mined d i = Some x"
  proof (cases "sc_byId s i")
    case (Some u)
    obtain b where "walkDown (sc_heap s) (sc_byId s) (sd_Height (pb_Side (blk s u))) (Some p) = Some b" using w by blast
    then show ?thesis by (cases b) (simp_all add: checkUncle_def Let_def Some)
  qed (simp add: checkUncle_def)
  then obtain x where "checkUncle E s block p mined d i = Some x" by blast
  then show ?case using Cons by (cases x) simp_all
qed simp

lemma verifyBlock_ends:
  assumes "good E S s"
  shows "ends_in (verifyBlock E s r) (\<lambda>_. True)"
proof -
  have w: "ends_in (verifyWindow E s r p) (\<lambda>_. True)" for p
    using getDifficulty_ends [of E s p] assms by (auto simp: good_def verifyWindow_def Let_def intro!: ends_in_Some)
  have u: "\<exists>x. checkUncles E s block p mined d ids = Some x" if "getParent s r = Some p" for block p mined d ids
    using checkUncles_ends [OF assms] getParent_in [of E S s r p] that assms by (auto simp: good_def)
  show ?thesis
  proof (cases "getParent s r")
    case (Some p)
    then obtain x where "checkUncles E s (blk s r) p (minedLoop E s (unat (min UncleBlockDepth (sd_Height (pb_Side (blk s r)) + 1))) (Some p) [])
        (Add (sd_CumulativeDifficulty (pb_Side (blk s p))) (sd_Difficulty (pb_Side (blk s r)))) (sd_Uncles (pb_Side (blk s r))) = Some x"
      using u by blast
    then show ?thesis using w [of p] by (cases x) (simp_all add: verifyBlock_def Some Let_def)
  qed (simp add: verifyBlock_def Let_def)
qed

lemma getPoolBlocksByHeight_in: "chain_inv E S s \<Longrightarrow> set (getPoolBlocksByHeight s h) \<subseteq> S"
  by (cases "sc_byHeight s h") (auto simp: chain_inv_def refs_in_def getPoolBlocksByHeight_def)

lemma childrenAbove_in:
  assumes "chain_inv E S s"
  shows "set (childrenAbove s r) \<subseteq> S" "snd ` set (above s r) \<subseteq> S"
  by (auto simp: childrenAbove_def above_def dest!: subsetD [OF getPoolBlocksByHeight_in [OF assms]])

definition waiting :: "ref set \<Rightarrow> SideChain \<Rightarrow> ref set" where
  "waiting S s = {r \<in> S. \<not> pb_Verified (blk s r)}"

lemma waiting_evolves: "evolves E S s s' \<Longrightarrow> waiting S s' \<subseteq> waiting S s"
  by (auto simp: waiting_def evolves_def keeps_def)

lemma waiting_card: "good E S s \<Longrightarrow> evolves E S s s' \<Longrightarrow> card (waiting S s') \<le> card (waiting S s)"
  by (rule card_mono [OF _ waiting_evolves]) (simp_all add: good_def waiting_def)

lemma waiting_verified:
  assumes "good E S s" "evolves E S s s'" "r \<in> S" "\<not> pb_Verified (blk s r)" "pb_Verified (blk s' r)"
  shows "card (waiting S s') < card (waiting S s)"
proof (rule psubset_card_mono)
  show "finite (waiting S s)" using assms(1) by (simp add: good_def waiting_def)
  show "waiting S s' \<subset> waiting S s" using waiting_evolves [OF assms(2)] assms(3-5) by (auto simp: waiting_def)
qed

lemma verified_state_verified: "pb_Verified (blk (verified_state s r) r)"
proof -
  let ?s = "setVerdict r True False s"
  have "pb_Verified (blk ?s r)" by (simp add: setVerdict_def blk_modify)
  moreover have "evolves E S ?s (verified_state s r)" for E S
    unfolding verified_state_def by (meson evolves_trans fillCache_evolves fillParentIndices_evolves)
  ultimately show ?thesis unfolding evolves_def keeps_def by blast
qed

lemma verifyStack_ends:
  assumes "good E S s" "set stack \<subseteq> S" "set_option highest \<subseteq> S"
  shows "ends_in (verifyStack E first stack highest err s) (\<lambda>(err', highest', s'). evolves E S s s' \<and> set_option highest' \<subseteq> S)"
  using assms
proof (induction "(card (waiting S s), length stack)" arbitrary: s stack highest err
    rule: wf_induct_rule [OF wf_lex_prod [OF wf_less_than wf_less_than]])
  case 1
  note IH = 1(1) and good = 1(2) and stack = 1(3) and highest = 1(4)
  have rec: "ends_in (verifyStack E first stack' highest' err' s1) (\<lambda>(err', highest', s'). evolves E S s s' \<and> set_option highest' \<subseteq> S)"
    if "evolves E S s s1" "set stack' \<subseteq> S" "set_option highest' \<subseteq> S"
      "card (waiting S s1) < card (waiting S s) \<or> length stack' < length stack" for stack' highest' err' s1
  proof (rule ends_in_weaken [OF IH])
    show "((card (waiting S s1), length stack'), card (waiting S s), length stack) \<in> less_than <*lex*> less_than"
      using that(4) waiting_card [OF good that(1)] by auto
  qed (use that evolves_good [OF good] evolves_trans [OF that(1)] in auto)
  show ?case
  proof (cases stack)
    case Nil
    then show ?thesis using highest by (simp add: verifyStack.simps)
  next
    case (Cons r rest)
    then have r: "r \<in> S" "set rest \<subseteq> S" "length rest < length stack" using stack by auto
    show ?thesis
    proof (cases "pb_Verified (blk s r)")
      case True
      then show ?thesis using rec r highest by (subst verifyStack.simps) (simp add: Cons)
    next
      case False
      obtain v where v: "verifyBlock E s r = Some v" using verifyBlock_ends [OF good] by (auto simp: ends_in_def)
      note sv = setVerdict_evolves [of s r E S, OF False]
      have ev: "evolves E S s (verified_state s r)" by (rule verified_state_evolves [OF False])
      then obtain l alt where l: "isLongerChain E (verified_state s r) highest (Some r) = Some (l, alt)"
        using isLongerChain_ends [OF evolves_good [OF good], of "verified_state s r" highest "Some r"] highest r by auto
      have ea: "evolves E S s (announce (verified_state s r) r)" using ev announce_evolves evolves_trans by blast
      have "pb_Verified (blk (announce (verified_state s r) r) r)"
        using verified_state_verified [of s r] announce_evolves [of E S "verified_state s r" r] by (auto simp: evolves_def keeps_def)
      then have less: "card (waiting S (announce (verified_state s r) r)) < card (waiting S s)"
        using waiting_verified [OF good ea r(1) False] by blast
      have "set (rev (childrenAbove s r) @ rest) \<subseteq> S" using childrenAbove_in [of E S s r] good r by (auto simp: good_def)
      then show ?thesis
        using rec [OF sv] rec [OF ea] r highest less
        by (subst verifyStack.simps) (auto simp: Cons False v l split: sum.splits option.splits prod.splits)
    qed
  qed
qed

lemma verifyLoop_ends:
  assumes "good E S s" "r \<in> S"
  shows "ends_in (verifyLoop E s r) (\<lambda>(err, s'). evolves E S s s')"
  unfolding verifyLoop_def
proof (rule ends_in_bindO [OF verifyStack_ends [OF assms(1)]])
  fix x :: "error option \<times> ref option \<times> SideChain"
  assume x: "case x of (err', highest', s') \<Rightarrow> evolves E S s s' \<and> set_option highest' \<subseteq> S"
  obtain err hi s1 where x': "x = (err, hi, s1)" by (cases x)
  have "ends_in (bindO (updateChainTip E s1 hb) (\<lambda>s. retO (err, s))) (\<lambda>(err, s'). evolves E S s s')" if "hi = Some hb" for hb
    by (rule ends_in_bindO [OF updateChainTip_ends [OF evolves_good [OF assms(1)]]])
      (use x x' that evolves_trans in auto)
  then show "ends_in (case x of (err, highest, s) \<Rightarrow> case highest of None \<Rightarrow> retO (err, s)
      | Some hb \<Rightarrow> bindO (updateChainTip E s hb) (\<lambda>s. retO (err, s))) (\<lambda>(err, s'). evolves E S s s')"
    using x by (auto simp: x' split: option.splits)
qed (use assms in auto)

section \<open>Depths\<close>

text \<open>The room that is left for depths to grow.\<close>

definition room :: "ref set \<Rightarrow> SideChain \<Rightarrow> nat" where
  "room S s = (\<Sum>r\<in>S. 2 ^ 64 - unat (pb_Depth (blk s r)))"

lemma room_evolves:
  assumes "evolves E S s s'"
  shows "room S s' \<le> room S s"
  unfolding room_def
proof (rule sum_mono)
  fix r show "2 ^ 64 - unat (pb_Depth (blk s' r)) \<le> 2 ^ 64 - unat (pb_Depth (blk s r))"
    using assms by (intro diff_le_mono2) (simp add: evolves_def keeps_def word_le_nat_alt)
qed

lemma room_less:
  assumes "evolves E S s s'" "finite S" "r \<in> S" "pb_Depth (blk s r) < pb_Depth (blk s' r)"
  shows "room S s' < room S s"
  unfolding room_def
proof (rule sum_strict_mono_ex1 [OF assms(2)])
  show "\<forall>x\<in>S. 2 ^ 64 - unat (pb_Depth (blk s' x)) \<le> 2 ^ 64 - unat (pb_Depth (blk s x))"
    using assms(1) by (simp add: evolves_def keeps_def word_le_nat_alt diff_le_mono2)
  have "unat (pb_Depth (blk s r)) < unat (pb_Depth (blk s' r))" using assms(4) by (simp add: word_less_nat_alt)
  then have "2 ^ 64 - unat (pb_Depth (blk s' r)) < 2 ^ 64 - unat (pb_Depth (blk s r))"
    using unat_lt_64 [of "pb_Depth (blk s' r)"] by simp
  then show "\<exists>a\<in>S. 2 ^ 64 - unat (pb_Depth (blk s' a)) < 2 ^ 64 - unat (pb_Depth (blk s a))" using assms(3) by blast
qed

text \<open>What one round keeps: pushed shares have grown deeper.\<close>

definition depth_step :: "env \<Rightarrow> ref set \<Rightarrow> SideChain \<Rightarrow> depthState \<Rightarrow> bool" where
  "depth_step E S s st \<longleftrightarrow> (case st of (returned, push, s') \<Rightarrow> evolves E S s s' \<and> set push \<subseteq> S \<and>
     (\<forall>r \<in> set push. pb_Depth (blk s r) < pb_Depth (blk s' r)))"

lemma depth_step_more:
  assumes "depth_step E S s (ret, push, s1)" "evolves E S s1 s2" "set xs \<subseteq> S"
    "\<forall>r \<in> set xs. pb_Depth (blk s1 r) < pb_Depth (blk s2 r)"
  shows "depth_step E S s (ret', push @ xs, s2)"
proof -
  have "evolves E S s s2" using assms(1,2) evolves_trans by (auto simp: depth_step_def)
  moreover have "pb_Depth (blk s r) \<le> pb_Depth (blk s1 r)" "pb_Depth (blk s1 r) \<le> pb_Depth (blk s2 r)" for r
    using assms(1,2) by (auto simp: depth_step_def evolves_def keeps_def)
  ultimately show ?thesis
    using assms(1,3,4) unfolding depth_step_def by (auto simp: ball_Un intro: less_le_trans) (meson le_less_trans)
qed

lemma updateDepth_grows: "pb_Depth (blk s r) < d \<Longrightarrow> pb_Depth (blk s r) < pb_Depth (blk (updateDepth r d s) r)"
  by (simp add: updateDepth_def blk_modify)

lemma depthToChild_step:
  assumes "depth_step E S s (ret, push, s1)" "snd ic \<in> S"
  shows "depth_step E S s (depthToChild E r d ic (ret, push, s1))"
proof -
  obtain i child where ic: "ic = (i, child)" by fastforce
  let ?tid = "templateIdOf E (blk s1 r)"
  define s2 where "s2 = (if sd_Parent (pb_Side (blk s1 child)) = ?tid \<and> d > 0 then updateDepth child (d - 1) s1 else s1)"
  define s3 where "s3 = (if ?tid \<in> set (sd_Uncles (pb_Side (blk s2 child))) \<and> d > of_nat i then updateDepth child (d - of_nat i) s2 else s2)"
  have "evolves E S s1 s2" by (simp add: s2_def updateDepth_evolves)
  also have "evolves E S s2 s3" by (simp add: s3_def updateDepth_evolves)
  finally have ev: "evolves E S s1 s3" .
  have same: "depth_step E S s (True, push, s1)" using assms(1) by (simp add: depth_step_def)
  have "depthToChild E r d ic (ret, push, s1) =
    (if ret \<or> sd_Parent (pb_Side (blk s1 child)) = ?tid \<and> i \<noteq> 1 then (True, push, s1)
     else (False, if pb_Depth (blk s3 child) > pb_Depth (blk s1 child) then push @ [child] else push, s3))"
    unfolding depthToChild_def ic Let_def s3_def s2_def by (simp only: prod.case if_bool_eq_conj) auto
  then show ?thesis
    using depth_step_more [OF assms(1) ev, of "[child]" False] depth_step_more [OF assms(1) ev, of "[]" False] assms same ic
    by simp
qed

lemma depthToParent_step:
  assumes "depth_step E S s (ret, push, s1)" "chain_inv E S s"
  shows "depth_step E S s (depthToParent r d (ret, push, s1))"
proof (cases "getParent s1 r")
  case None
  then show ?thesis using assms(1) by (auto simp: depthToParent_def depth_step_def)
next
  case (Some p)
  have "chain_inv E S s1" using assms by (auto simp: depth_step_def evolves_def)
  then have p: "p \<in> S" using getParent_in [OF _ Some] by blast
  have same: "depth_step E S s (ret', push, s1)" for ret' using assms(1) by (simp add: depth_step_def)
  have "depth_step E S s (False, push @ [p], updateDepth p (d + 1) s1)" if "pb_Depth (blk s1 p) < d + 1"
    using depth_step_more [OF assms(1) updateDepth_evolves, of "[p]"] p updateDepth_grows [OF that] by simp
  then show ?thesis using Some same by (simp add: depthToParent_def)
qed

lemma depthToUncle_step:
  assumes "u \<in> S" "depthToUncle r d u st = Inr st'" "depth_step E S s st"
  shows "depth_step E S s st'"
proof -
  obtain ret push s1 where st: "st = (ret, push, s1)" by (cases st)
  let ?d = "d + (sd_Height (pb_Side (blk s1 r)) - sd_Height (pb_Side (blk s1 u)))"
  have same: "depth_step E S s (ret', push, s1)" for ret' using assms(3) by (simp add: depth_step_def st)
  have "depth_step E S s (ret, push @ [u], updateDepth u ?d s1)" if "pb_Depth (blk s1 u) < ?d"
    using depth_step_more [OF same updateDepth_evolves, of "[u]"] assms(1) updateDepth_grows [OF that] by simp
  then show ?thesis using assms(2) same by (auto simp: depthToUncle_def st Let_def split: if_splits)
qed

lemma iteratorUncles_keeps_in:
  assumes f: "\<And>u s s'. u \<in> S \<Longrightarrow> f u s = Inr s' \<Longrightarrow> P s \<Longrightarrow> P s'"
    and get: "\<And>i u. get i = Some u \<Longrightarrow> u \<in> S" and cache: "\<And>p us. pb_iterationCache b = Some (p, us) \<Longrightarrow> set us \<subseteq> S"
    and it: "iteratorUncles get b f s = Inr (s', e)" and "P s"
  shows "P s'"
proof -
  have loop: "unclesLoop get ids f s = Inr (s', e) \<Longrightarrow> P s \<Longrightarrow> P s'" for ids s s' e
    by (induction ids arbitrary: s) (auto simp: bindR_Inr_iff split: option.splits intro: f get)
  have cached: "foldR f us s = Inr s' \<Longrightarrow> set us \<subseteq> S \<Longrightarrow> P s \<Longrightarrow> P s'" for us s s'
    by (induction us arbitrary: s) (auto simp: bindR_Inr_iff intro: f)
  show ?thesis
    using it \<open>P s\<close> loop cached cache by (auto simp: iteratorUncles_def bindR_Inr_iff split: if_splits option.splits)
qed

lemma depthRound_step:
  assumes "chain_inv E S s"
  shows "depth_step E S s (depthRound E s r d)"
proof -
  have children: "depth_step E S s (fold (depthToChild E r d) ics st)" if "snd ` set ics \<subseteq> S" "depth_step E S s st" for ics st
    using that
  proof (induction ics arbitrary: st)
    case (Cons ic ics)
    obtain ret push s1 where st: "st = (ret, push, s1)" by (cases st)
    then have "depth_step E S s (depthToChild E r d ic st)" using depthToChild_step [of E S s ret push s1 ic r d] Cons.prems by simp
    then show ?case using Cons by simp
  qed simp
  define st1 where "st1 = fold (depthToChild E r d) (above s r) (False, [], s)"
  have s1: "depth_step E S s st1"
    unfolding st1_def by (rule children [OF childrenAbove_in(2) [OF assms]]) (simp add: depth_step_def)
  define st2 where "st2 = depthToParent r d st1"
  have s2: "depth_step E S s st2"
    unfolding st2_def using depthToParent_step [OF _ assms] s1 by (cases st1) blast
  obtain ret push s' where st2: "st2 = (ret, push, s')" by (cases st2)
  then have inv: "chain_inv E S s'" using s2 assms by (auto simp: depth_step_def evolves_def)
  have "depth_step E S s st3" if "iteratorUncles (sc_byId s') (blk s' r) (depthToUncle r d) st2 = Inr (st3, e)" for st3 e
  proof (rule iteratorUncles_keeps_in [where P = "depth_step E S s" and S = S, OF _ _ _ that])
    show "depth_step E S s y" if "u \<in> S" "depthToUncle r d u x = Inr y" "depth_step E S s x" for u x y
      by (rule depthToUncle_step [OF that])
    show "u \<in> S" if "sc_byId s' i = Some u" for i u using inv that by (auto simp: chain_inv_def refs_in_def)
    show "set us \<subseteq> S" if "pb_iterationCache (blk s' r) = Some (p, us)" for p us
      using inv that unfolding chain_inv_def refs_in_def by blast
  qed (rule s2)
  then show ?thesis
    using s2 unfolding depthRound_def st1_def [symmetric] st2_def [symmetric] Let_def
    by (auto simp: st2 split: sum.splits)
qed

lemma depthStack_ends:
  assumes "good E S s" "set stack \<subseteq> S"
  shows "ends_in (depthStack E stack s) (evolves E S s)"
  using assms
proof (induction "(room S s, length stack)" arbitrary: s stack
    rule: wf_induct_rule [OF wf_lex_prod [OF wf_less_than wf_less_than]])
  case 1
  note IH = 1(1) and good = 1(2) and stack = 1(3)
  show ?case
  proof (cases stack)
    case Nil
    then show ?thesis by (simp add: depthStack.simps)
  next
    case (Cons r rest)
    then have r: "r \<in> S" "set rest \<subseteq> S" using stack by auto
    let ?d = "pb_Depth (blk s r)"
    let ?verify = "if \<not> pb_Verified (blk s r) \<and> (?d \<ge> n_ChainWindowSize (e_consensus E) * 2 \<or> sd_Height (pb_Side (blk s r)) = 0)
        then bindO (verifyLoop E s r) (\<lambda>(_, s). retO s) else retO s"
    have "ends_in (bindO (verifyLoop E s r) (\<lambda>(_, s). retO s)) (evolves E S s)"
      by (rule ends_in_bindO [OF verifyLoop_ends [OF good r(1)]]) auto
    then have "ends_in ?verify (evolves E S s)" by simp
    then obtain x where x: "?verify = Some x" "\<And>s1. x = Inr s1 \<Longrightarrow> evolves E S s s1" by (auto simp: ends_in_def)
    show ?thesis
    proof (cases x)
      case (Inl e)
      then show ?thesis using x(1) by (subst depthStack.simps) (simp add: Cons)
    next
      case (Inr s1)
      have ev1: "evolves E S s s1" by (rule x(2) [OF Inr])
      obtain ret push s2 where rnd: "depthRound E s1 r ?d = (ret, push, s2)" by (cases "depthRound E s1 r ?d")
      have "chain_inv E S s1" using ev1 good by (auto simp: good_def evolves_def)
      then have st: "evolves E S s1 s2" "set push \<subseteq> S" "\<forall>r \<in> set push. pb_Depth (blk s1 r) < pb_Depth (blk s2 r)"
        using depthRound_step [of E S s1 r ?d] by (auto simp: rnd depth_step_def)
      have ev2: "evolves E S s s2" using ev1 st(1) evolves_trans by blast
      have "room S s2 < room S s \<or> room S s2 \<le> room S s \<and> push = []"
      proof (cases push)
        case (Cons y ys)
        then have "room S s2 < room S s1" using room_less [OF st(1), of y] good st(2,3) by (auto simp: good_def)
        then show ?thesis using room_evolves [OF ev1] by simp
      qed (use room_evolves [OF ev2] in simp)
      then have "ends_in (depthStack E (rev push @ rest) s2) (evolves E S s2)"
        by (intro IH evolves_good [OF good ev2]) (use r st(2) Cons in auto)
      then have "ends_in (if ret then retO s2 else depthStack E (rev push @ rest) s2) (evolves E S s)"
        using ev2 evolves_trans [OF ev2] ends_in_weaken by (metis (full_types) ends_in_ret(1))
      moreover have "depthStack E stack s = (if ret then retO s2 else depthStack E (rev push @ rest) s2)"
        unfolding Cons depthStack.simps [of E "r # rest"] list.case Let_def x(1) Inr option.case sum.case rnd prod.case ..
      ultimately show ?thesis by simp
    qed
  qed
qed

lemma evolves_updateDepth: "evolves E S s s1 \<Longrightarrow> evolves E S s (updateDepth r d s1)"
  using updateDepth_evolves evolves_trans by blast

lemma depthFromChild_evolves: "evolves E S s (snd st) \<Longrightarrow> evolves E S s (snd (depthFromChild E r ic st))"
  unfolding depthFromChild_def Let_def split_beta by (simp add: evolves_updateDepth)

lemma updateDepths_ends:
  assumes "good E S s" "r \<in> S"
  shows "ends_in (updateDepths E s r) (evolves E S s)"
proof -
  have "evolves E S s (snd (fold (depthFromChild E r) ics st))" if "evolves E S s (snd st)" for ics st
    using that by (induction ics arbitrary: st) (simp_all add: depthFromChild_evolves del: split_paired_All)
  then have ev: "evolves E S s (snd (fold (depthFromChild E r) (above s r) (False, s)))" by simp
  obtain ret s1 where f: "fold (depthFromChild E r) (above s r) (False, s) = (ret, s1)" by fastforce
  then have ev: "evolves E S s s1" using ev by simp
  have "ends_in (depthStack E [r] s1) (evolves E S s)"
    using depthStack_ends [OF evolves_good [OF assms(1) ev], of "[r]"] assms(2) evolves_trans [OF ev] by (auto intro: ends_in_weaken)
  then show ?thesis using ev by (simp add: updateDepths_def f)
qed

section \<open>Adding a share\<close>

lemma templateIdOf_index [simp]: "blk (indexBlock E s r) x = blk s x"
  by (simp add: indexBlock_def Let_def split: option.splits)

definition watched :: "env \<Rightarrow> SideChain \<Rightarrow> ref \<Rightarrow> bool" where
  "watched E s r \<longleftrightarrow> templateIdOf E (blk s r) = sc_watchId s"

lemma indexBlock_fields:
  defines "h \<equiv> (\<lambda>s r. sd_Height (pb_Side (blk s r)))"
  shows "sc_byId (indexBlock E s r) = (sc_byId s)(templateIdOf E (blk s r) \<mapsto> r)"
    "sc_byHeight (indexBlock E s r) = (sc_byHeight s)(h s r \<mapsto> getPoolBlocksByHeight s (h s r) @ [r])"
    "sc_keys (indexBlock E s r) = sc_keys s @ (if sc_byHeight s (h s r) = None then [h s r] else [])"
    "sc_keysSorted (indexBlock E s r) = (if sc_byHeight s (h s r) = None
      then sc_keysSorted s \<and> sc_keys s \<noteq> [] \<and> last (sc_keys s) + 1 = h s r else sc_keysSorted s)"
    "sc_chainTip (indexBlock E s r) = sc_chainTip s"
    "sc_calls (indexBlock E s r) = sc_calls s @ (if watched E s r then [UpdateBlockFound (sc_watchBlock s) r] else [])"
    "sc_watchId (indexBlock E s r) = (if watched E s r then ZeroHash else sc_watchId s)" "sc_watchBlock (indexBlock E s r) = sc_watchBlock s"
  by (auto simp: indexBlock_def Let_def getPoolBlocksByHeight_def watched_def h_def split: option.splits)

lemma sorted_le_last: "sorted xs \<Longrightarrow> (k :: 'a::linorder) \<in> set xs \<Longrightarrow> k \<le> last xs"
  by (induction xs) auto

lemma le_add_1_word: "x \<noteq> - 1 \<Longrightarrow> x \<le> x + (1 :: u64)"
proof -
  assume "x \<noteq> - 1"
  then have "unat x \<noteq> unat (- 1 :: u64)" by (simp only: word_unat_eq_iff not_False_eq_True)
  moreover have "unat (- 1 :: u64) = 2 ^ 64 - 1" by (simp add: unsigned_minus_1_eq_mask mask_eq_exp_minus_1)
  ultimately have "unat x + 1 < 2 ^ 64" using unat_lt_64 [of x] by simp
  then have "unat (x + 1) = unat x + 1" by (simp add: unat_word_ariths)
  then show ?thesis by (simp add: word_le_nat_alt)
qed

lemma indexBlock_index:
  assumes "index_inv E s" "sc_byId s (templateIdOf E (blk s r)) = None" "sd_Height (pb_Side (blk s r)) \<noteq> - 1"
  shows "index_inv E (indexBlock E s r)"
proof -
  let ?s = "indexBlock E s r" and ?h = "sd_Height (pb_Side (blk s r))" and ?i = "templateIdOf E (blk s r)"
  note f = indexBlock_fields [of E s r]
  have i1: "sc_byId s i = Some x \<Longrightarrow> templateIdOf E (blk s x) = i \<and> x \<in> set (getPoolBlocksByHeight s (sd_Height (pb_Side (blk s x))))" for i x
    using assms(1) by (simp add: index_inv_def)
  have i2: "sc_byHeight s h = Some l \<Longrightarrow> l \<noteq> [] \<and> distinct l \<and>
       (\<forall>x \<in> set l. sd_Height (pb_Side (blk s x)) = h \<and> sc_byId s (templateIdOf E (blk s x)) = Some x)" for h l
    using assms(1) by (simp add: index_inv_def)
  have i3: "set (sc_keys s) = dom (sc_byHeight s)" "distinct (sc_keys s)" "sc_keysSorted s \<longrightarrow> sorted (sc_keys s)" "sc_byHeight s (- 1) = None"
    using assms(1) by (simp_all add: index_inv_def)
  have g: "getPoolBlocksByHeight ?s h = (if h = ?h then getPoolBlocksByHeight s h @ [r] else getPoolBlocksByHeight s h)" for h
    by (simp add: getPoolBlocksByHeight_def f)
  have old: "distinct (getPoolBlocksByHeight s h)"
    "x \<in> set (getPoolBlocksByHeight s h) \<Longrightarrow> sd_Height (pb_Side (blk s x)) = h \<and> sc_byId s (templateIdOf E (blk s x)) = Some x" for h x
    using i2 [of h] by (cases "sc_byHeight s h"; auto simp: getPoolBlocksByHeight_def)+
  then have new: "r \<notin> set (getPoolBlocksByHeight s h)" for h using assms(2) by fastforce
  show ?thesis
    unfolding index_inv_def templateIdOf_index
  proof (intro conjI allI impI)
    fix i x assume x: "sc_byId ?s i = Some x"
    then show "templateIdOf E (blk s x) = i" using i1 by (auto simp: f split: if_splits)
    show "x \<in> set (getPoolBlocksByHeight ?s (sd_Height (pb_Side (blk s x))))" using x i1 [of i x] by (auto simp: f g split: if_splits)
  next
    fix h l assume "sc_byHeight ?s h = Some l"
    then have l: "h = ?h \<and> l = getPoolBlocksByHeight s h @ [r] \<or> h \<noteq> ?h \<and> sc_byHeight s h = Some l" by (auto simp: f split: if_splits)
    show "l \<noteq> []" using l i2 [of h l] by blast
    show "distinct l"
    proof (cases "h = ?h")
      case True
      then have "l = getPoolBlocksByHeight s h @ [r]" using l by blast
      then show ?thesis using old(1) [of h] new [of h] by simp
    qed (use l i2 [of h l] in blast)
    have "sd_Height (pb_Side (blk s x)) = h \<and> (x = r \<or> sc_byId s (templateIdOf E (blk s x)) = Some x)" if "x \<in> set l" for x
      using that l i2 [of h l] old(2) [of x h] by (metis UnE empty_iff empty_set set_ConsD set_append)
    then show "\<forall>x \<in> set l. sd_Height (pb_Side (blk s x)) = h \<and> sc_byId ?s (templateIdOf E (blk s x)) = Some x"
      using assms(2) by (simp add: f) (metis option.distinct(1))
  next
    show "set (sc_keys ?s) = dom (sc_byHeight ?s)" using i3(1) by (auto simp: f)
    show "distinct (sc_keys ?s)" using i3(1,2) by (auto simp: f dom_def)
    show "sc_byHeight ?s (- 1) = None" using i3(4) assms(3) by (simp add: f)
    have "k \<le> ?h" if "sorted (sc_keys s)" "k \<in> set (sc_keys s)" "last (sc_keys s) + 1 = ?h" for k
    proof -
      have "k \<le> last (sc_keys s)" using that(1,2) by (rule sorted_le_last)
      moreover have "last (sc_keys s) \<in> set (sc_keys s)" using that(2) by (intro last_in_set) auto
      then have "last (sc_keys s) \<noteq> - 1" using i3(1,4) by (auto simp: dom_def)
      then have "last (sc_keys s) \<le> last (sc_keys s) + 1" by (rule le_add_1_word)
      ultimately show ?thesis using that(3) by simp
    qed
    then show "sorted (sc_keys ?s)" if "sc_keysSorted ?s"
      using that i3(3) by (auto simp: f sorted_append split: if_splits)
  qed
qed

lemma indexBlock_good:
  assumes "good E S s" "r \<in> S" "sc_byId s (templateIdOf E (blk s r)) = None" "sd_Height (pb_Side (blk s r)) \<noteq> - 1"
  shows "good E S (indexBlock E s r)"
proof -
  note f = indexBlock_fields [of E s r]
  have inv: "chain_inv E S s" and lk: "linked E S s" using assms(1) by (simp_all add: good_def)
  have "refs_in S (indexBlock E s r)"
    using inv assms(2) getPoolBlocksByHeight_in [OF inv] by (auto simp: chain_inv_def refs_in_def f split: if_splits)
  moreover have "index_inv E (indexBlock E s r)" using indexBlock_index inv assms(3,4) by (simp add: chain_inv_def)
  moreover have "cache_inv E (indexBlock E s r)" "tip_inv S (indexBlock E s r)" "linked E S (indexBlock E s r)"
    using inv lk by (simp_all add: chain_inv_def cache_inv_def tip_inv_def linked_def f)
  ultimately show ?thesis using assms(1) by (simp add: good_def chain_inv_def)
qed

lemma AddPoolBlock_new:
  assumes "good E S s" "r \<in> S" "sc_byId s (templateIdOf E (blk s r)) = None" "sd_Height (pb_Side (blk s r)) \<noteq> - 1"
    and "PoolBlock_AppendBinaryFlags (blk s r) [] False False = Inr bytes"
  shows "ends_in (AddPoolBlock E s r) (\<lambda>(err, s'). evolves E S (indexBlock E s r) s')"
proof -
  let ?s = "indexBlock E s r" and ?ok = "\<lambda>(err, s'). evolves E S (indexBlock E s r) s'"
  have good: "good E S ?s" by (rule indexBlock_good [OF assms(1-4)])
  have verify: "ends_in (if pb_Verified (blk s1 r) then
       bindO (if \<not> pb_Invalid (blk s1 r) then updateChainTip E s1 r else retO s1) (\<lambda>s. retO (None, s)) else verifyLoop E s1 r) ?ok"
    if ev: "evolves E S ?s s1" for s1
  proof -
    have g: "good E S s1" by (rule evolves_good [OF good ev])
    have "ends_in (if \<not> pb_Invalid (blk s1 r) then updateChainTip E s1 r else retO s1) (evolves E S ?s)"
    proof (cases "pb_Invalid (blk s1 r)")
      case False
      have "ends_in (updateChainTip E s1 r) (evolves E S ?s)"
        by (rule ends_in_weaken [OF updateChainTip_ends [OF g assms(2)]]) (rule evolves_trans [OF ev])
      then show ?thesis using False by simp
    qed (use ev in simp)
    then have "ends_in (bindO (if \<not> pb_Invalid (blk s1 r) then updateChainTip E s1 r else retO s1) (\<lambda>s. retO (None, s))) ?ok"
      by (rule ends_in_bindO) simp
    moreover have "ends_in (verifyLoop E s1 r) ?ok"
      by (rule ends_in_weaken [OF verifyLoop_ends [OF g assms(2)]]) (use evolves_trans [OF ev] in auto)
    ultimately show ?thesis by (cases "pb_Verified (blk s1 r)") (simp_all only: if_True if_False)
  qed
  have "evolves E S ?s (if q then s2\<lparr>sc_syncTip := Some r\<rparr> else s2)" if "evolves E S ?s s2" for s2 q
    using that evolves_trans [OF that evolves_fields(2)] by simp
  then show ?thesis
    unfolding AddPoolBlock_def using assms(3,5)
    by (auto intro!: ends_in_bindO [OF updateDepths_ends [OF good assms(2)]] ends_in_bindO [OF verify])
qed

lemma evolves_parts:
  assumes "evolves E S s s'" "good E S s"
  shows "chain_inv E S s'" "keeps E (blk s x) (blk s' x)"
    "sc_byId s' i = sc_byId s i \<or> sc_byId s' i = None \<and> (\<exists>r. sc_byId s i = Some r \<and> prunable E S s' r)"
    "\<exists>calls. sc_calls s' = sc_calls s @ calls" "sc_watchId s' = sc_watchId s" "sc_watchBlock s' = sc_watchBlock s"
  using assms by (auto simp: evolves_def good_def) (metis option.exhaust)

text \<open>C7: adding a share.  Take any state whose indexes agree, whose caches and tip are sound and whose shares lie in
  a finite set without a cycle of parent links, and a share of the set.  A share whose id is
  already in the index changes nothing, and neither does one that cannot be encoded, whose error is
  returned.  Otherwise \<^verbatim>\<open>AddPoolBlock\<close> returns (its loops end), and unless it panics the index holds under
  the id of the share this very share and under every other id what it held before, except that
  shares may have been pruned: each of those is too old and lies the prune distance below a share
  found valid.  The indexes agree again, caches and tip are sound again.  Of no share do the side
  data, the id, the version, the arrival time or the main-chain block change (the compact indices
  of its transactions apart), no verdict once given is changed, no depth shrinks, and the server
  calls made before remain.\<close>

theorem AddPoolBlock_ok:
  assumes "good E S s" and "r \<in> S" and "sd_Height (pb_Side (blk s r)) \<noteq> - 1"
  shows "if sc_byId s (templateIdOf E (blk s r)) \<noteq> None then AddPoolBlock E s r = retO (None, s)
    else case PoolBlock_AppendBinaryFlags (blk s r) [] False False of
      Inl e \<Rightarrow> AddPoolBlock E s r = retO (Some e, s)
    | Inr _ \<Rightarrow> \<exists>res. AddPoolBlock E s r = Some res \<and> (\<forall>err s'. res = Inr (err, s') \<longrightarrow>
        (\<forall>i. sc_byId s' i = ((sc_byId s)(templateIdOf E (blk s r) \<mapsto> r)) i \<or>
          sc_byId s' i = None \<and> (\<exists>x. ((sc_byId s)(templateIdOf E (blk s r) \<mapsto> r)) i = Some x \<and> prunable E S s' x)) \<and>
        chain_inv E S s' \<and> (\<forall>x. keeps E (blk s x) (blk s' x)) \<and>
        (\<exists>calls. sc_calls s' = sc_calls s @ calls))"
proof (cases "sc_byId s (templateIdOf E (blk s r))")
  case (Some x)
  then show ?thesis by (simp add: AddPoolBlock_def)
next
  case None
  note f = indexBlock_fields [of E s r]
  show ?thesis
  proof (cases "PoolBlock_AppendBinaryFlags (blk s r) [] False False")
    case (Inl e)
    then show ?thesis using None by (simp add: AddPoolBlock_def)
  next
    case (Inr bytes)
    obtain res where res: "AddPoolBlock E s r = Some res" "\<And>err s'. res = Inr (err, s') \<Longrightarrow> evolves E S (indexBlock E s r) s'"
      using AddPoolBlock_new [OF assms(1,2) None assms(3) Inr] by (auto simp: ends_in_def)
    note p = evolves_parts [OF res(2) indexBlock_good [OF assms(1,2) None assms(3)]]
    have ix: "(sc_byId s)(templateIdOf E (blk s r) \<mapsto> r) = sc_byId (indexBlock E s r)" by (simp add: f)
    have "(\<forall>i. sc_byId s' i = sc_byId (indexBlock E s r) i \<or>
          sc_byId s' i = None \<and> (\<exists>x. sc_byId (indexBlock E s r) i = Some x \<and> prunable E S s' x)) \<and>
        chain_inv E S s' \<and> (\<forall>x. keeps E (blk s x) (blk s' x)) \<and> (\<exists>calls. sc_calls s' = sc_calls s @ calls)"
      if "res = Inr (err, s')" for err s'
    proof (intro conjI allI)
      show "keeps E (blk s x) (blk s' x)" for x using p(2) [OF that] by simp
      show "\<exists>calls. sc_calls s' = sc_calls s @ calls" using p(4) [OF that] by (auto simp: f)
    qed (rule p(1,3) [OF that])+
    then show ?thesis unfolding ix using res(1) None Inr by simp
  qed
qed

end
