(* ===== verification/Chaintip.thy ===== *)
theory Chaintip
  imports Chaininv
begin

text \<open>
  What the side chain promises about its tip, its pruning and the blocks it has seen, and a small
  chain on which the theorems are applied.
\<close>

section \<open>An example chain\<close>

definition ex_env :: env where
  "ex_env = \<lparr>e_consensus = ConsensusDefault, e_K = (\<lambda>_. 9), e_U = uint128_ref, e_Q = uint256_ref, e_srt = sort_cmp share_cmp,
     e_hasher = (\<lambda>_ _. Inr 0), e_detKey = (\<lambda>_ _. 1), e_getKey = (\<lambda>_ _. (2, 3)), e_ephemeral = (\<lambda>_ _ _. (5, 6)),
     e_mainByHash = Map.empty, e_mainTip = None, e_headerByHeight = Map.empty, e_difficultyByHeight = (\<lambda>_. Difficulty 1000000 0),
     e_now = 0\<rparr>"

text \<open>Share \<open>r\<close> has height \<open>r\<close>, id \<open>100 + r\<close> and the share below as its parent.\<close>

definition node :: "nat \<Rightarrow> PoolBlock" where
  "node r = (ex_share 1 (of_nat r) (if r = 0 then 0 else 99 + of_nat r) [] (1000 * of_nat r + 1000))
     \<lparr>pb_templateId := Some (100 + of_nat r)\<rparr>"

lemma node_simps [simp]:
  "templateIdOf E (node r) = 100 + of_nat r" "pb_iterationCache (node r) = None" "pb_Verified (node r)" "\<not> pb_Invalid (node r)"
  "pb_Depth (node r) = 0" "sd_Height (pb_Side (node r)) = of_nat r" "sd_Parent (pb_Side (node r)) = (if r = 0 then 0 else 99 + of_nat r)"
  "sd_Uncles (pb_Side (node r)) = []" "pb_LocalTimestamp (node r) = 0"
  by (simp_all add: node_def ex_share_def templateIdOf_def SideTemplateId_def zeroPoolBlock_def)

lemma new_good:
  assumes "finite S" "uint128_ok (e_U E)" "\<forall>r. pb_iterationCache (h r) = None" "linked E S (NewSideChain E h)"
  shows "good E S (NewSideChain E h)"
  using assms by (simp add: good_def chain_inv_def index_inv_def cache_inv_def refs_in_def tip_inv_def NewSideChain_def blk_def)

section \<open>Pruning\<close>

text \<open>C11: pruning is safe.  If the indexes agree and \<^verbatim>\<open>pruneOldBlocks\<close> returns (it can panic), it removes a share from the index only if it is deeper
  than the prune distance or has been kept longer than the prune delay, and is at least the
  prune distance below the tip; all other entries stay, the tip stays, and the indexes agree
  afterwards.\<close>

theorem pruneOldBlocks_safe:
  assumes "chain_inv E S s" and "pruneOldBlocks E s = Inr s'"
  shows "chain_inv E S s' \<and> sc_chainTip s' = sc_chainTip s \<and> (\<forall>i r. sc_byId s i = Some r \<longrightarrow> sc_byId s' i = Some r \<or>
    sc_byId s' i = None \<and> tooOld E (blk s r) \<and>
    (\<exists>t. sc_chainTip s = Some t \<and>
      unat (sd_Height (pb_Side (blk s r))) + unat (pruneDistance (e_consensus E)) \<le> unat (sd_Height (pb_Side (blk s t)))))"
proof -
  have inv: "chain_inv E S s'" using pruneOldBlocks_evolves [OF assms(2), of S] assms(1) by (simp add: evolves_def)
  from pruneOldBlocks_prunes [OF assms(2), of S] show ?thesis
  proof
    assume "s' = s"
    then show ?thesis using assms(1) by simp
  next
    assume "\<exists>t. sc_chainTip s = Some t \<and> pruneDistance (e_consensus E) \<le> sd_Height (pb_Side (blk s t)) \<and>
      prunes E S (sd_Height (pb_Side (blk s t)) - pruneDistance (e_consensus E)) s s'"
    then obtain t where t: "sc_chainTip s = Some t" "pruneDistance (e_consensus E) \<le> sd_Height (pb_Side (blk s t))"
      "prunes E S (sd_Height (pb_Side (blk s t)) - pruneDistance (e_consensus E)) s s'" by blast
    have le: "unat x + unat (pruneDistance (e_consensus E)) \<le> unat (sd_Height (pb_Side (blk s t)))"
      if "x \<le> sd_Height (pb_Side (blk s t)) - pruneDistance (e_consensus E)" for x
    proof -
      have "unat x \<le> unat (sd_Height (pb_Side (blk s t)) - pruneDistance (e_consensus E))" using that by (simp add: word_le_nat_alt)
      also have "\<dots> = unat (sd_Height (pb_Side (blk s t))) - unat (pruneDistance (e_consensus E))" by (rule unat_sub [OF t(2)])
      finally show ?thesis using t(2) by (simp add: word_le_nat_alt)
    qed
    show ?thesis using t(1,3) inv le assms(1) unfolding prunes_def by fastforce
  qed
qed

text \<open>A day later, with four heights in use.\<close>

definition late_env :: env where "late_env = ex_env\<lparr>e_now := 100000\<rparr>"

definition four_heights :: "nat list \<Rightarrow> SideChain" where
  "four_heights rs = (NewSideChain late_env node)\<lparr>
     sc_byId := (\<lambda>i. if i \<in> set (map (\<lambda>r. 100 + of_nat r) rs) then Some (unat (i - 100)) else None),
     sc_byHeight := (\<lambda>h. if h \<in> set (map of_nat rs) then Some [unat h] else None),
     sc_keys := map of_nat rs, sc_keysSorted := True, sc_chainTip := Some (last rs)\<rparr>"

lemma late_prune: "pruneDistance (e_consensus late_env) = 4332" "tooOld late_env (node r)"
  by (simp_all add: late_env_def ex_env_def pruneDistance_def pruneDelay_def tooOld_def ConsensusDefault_def BlockTime_def)

lemmas pruneLoop_numeral = pruneLoop.simps(2) [of E h "pred_numeral k" for E h k, folded numeral_eq_Suc]
lemmas prune_evaluate = pruneOldBlocks_def pruneLoop_numeral four_heights_def NewSideChain_def blk_def late_prune
  getPoolBlocksByHeight_def pruneBlock_def modify_def deleteKey_def cleanupSeenBlocks_def

text \<open>Every second of the old heights: those that the loop deletes, and those that a deletion makes it skip.\<close>

fun visited :: "'a list \<Rightarrow> 'a list" where
  "visited (a # b # xs) = a # visited xs"
| "visited xs = xs"

fun skipped :: "'a list \<Rightarrow> 'a list" where
  "skipped (a # b # xs) = b # skipped xs"
| "skipped xs = []"

definition old_below :: "env \<Rightarrow> u64 \<Rightarrow> SideChain \<Rightarrow> bool" where
  "old_below E h s \<longleftrightarrow> (\<forall>x \<le> h. \<forall>r \<in> set (getPoolBlocksByHeight s x). tooOld E (blk s r))"

lemma pruneLoop_delete:
  assumes "old_below E h s" "a \<le> h"
  obtains s1 num1 where "\<And>k. pruneLoop E h (Suc k) (length A) (A @ a # C @ replicate z 0) (length A + Suc (length C)) (s, num) =
      pruneLoop E h k (length A + 1) (A @ C @ replicate (Suc z) 0) (length A + length C) (s1, num1)"
    "sc_byHeight s1 = (sc_byHeight s)(a := None)" "old_below E h s1"
proof -
  let ?v = "getPoolBlocksByHeight s a"
  obtain s' num' where f: "foldr (pruneBlock E) ?v (s, num) = (s', num')" by fastforce
  then have p: "pruned_of E ?v s s'" using foldr_pruneBlock [of E ?v s num] by simp
  let ?s1 = "s'\<lparr>sc_byHeight := (sc_byHeight s')(a := None)\<rparr>"
  have none: "[r \<leftarrow> ?v. \<not> tooOld E (blk s r)] = []" using assms by (auto simp: old_below_def filter_empty_conv)
  have del: "deleteKey (A @ a # C @ replicate z 0) (length A + Suc (length C)) (length A) = A @ C @ replicate (Suc z) 0"
    by (simp add: deleteKey_def replicate_append_same [symmetric])
  have "pruneLoop E h (Suc k) (length A) (A @ a # C @ replicate z 0) (length A + Suc (length C)) (s, num) =
      pruneLoop E h k (length A + 1) (A @ C @ replicate (Suc z) 0) (length A + length C) (?s1, num')" for k
    using assms(2) none del by (simp add: Let_def f not_less [symmetric] del: replicate.simps)
  moreover have bh: "sc_byHeight ?s1 = (sc_byHeight s)(a := None)" using p by (simp add: pruned_of_def)
  moreover have "tooOld E (blk ?s1 r) = tooOld E (blk s r)" for r using p by (simp add: pruned_of_def)
  then have "old_below E h ?s1" using assms(1) bh by (auto simp: old_below_def getPoolBlocksByHeight_def split: if_splits)
  ultimately show thesis using that by blast
qed

lemmas skipped_pairs = skipped.induct [case_names Two None One]

lemma pruneLoop_skips:
  assumes "old_below E h s" "\<forall>a \<in> set old. a \<le> h" "\<forall>a \<in> set new. h < a" "new \<noteq> []"
  shows "if odd (length old) \<and> length new = 1
    then pruneLoop E h (length old + length new + z) (length A) (A @ old @ new @ replicate z 0) (length A + length old + length new) (s, num) =
      Inl (Panic ''slice bounds out of range'')
    else \<exists>s' num'. pruneLoop E h (length old + length new + z) (length A) (A @ old @ new @ replicate z 0) (length A + length old + length new) (s, num) =
      Inr (s', num') \<and> sc_keys s' = A @ skipped old @ new \<and> (\<forall>x. sc_byHeight s' x = (if x \<in> set (visited old) then None else sc_byHeight s x))"
  using assms
proof (induction old arbitrary: s num A z rule: skipped_pairs)
  case (Two a b xs)
  obtain s1 num1 where s1: "\<And>k. pruneLoop E h (Suc k) (length A) (A @ a # (b # xs @ new) @ replicate z 0) (length A + Suc (length (b # xs @ new))) (s, num) =
      pruneLoop E h k (length A + 1) (A @ (b # xs @ new) @ replicate (Suc z) 0) (length A + length (b # xs @ new)) (s1, num1)"
    "sc_byHeight s1 = (sc_byHeight s)(a := None)" "old_below E h s1"
    using pruneLoop_delete [OF Two(2), of a A "b # xs @ new" z num] Two(3) by auto
  have IH: "if odd (length xs) \<and> length new = 1
    then pruneLoop E h (length xs + length new + Suc z) (length (A @ [b])) ((A @ [b]) @ xs @ new @ replicate (Suc z) 0) (length (A @ [b]) + length xs + length new) (s1, num1) =
      Inl (Panic ''slice bounds out of range'')
    else \<exists>s' num'. pruneLoop E h (length xs + length new + Suc z) (length (A @ [b])) ((A @ [b]) @ xs @ new @ replicate (Suc z) 0) (length (A @ [b]) + length xs + length new) (s1, num1) =
      Inr (s', num') \<and> sc_keys s' = (A @ [b]) @ skipped xs @ new \<and> (\<forall>x. sc_byHeight s' x = (if x \<in> set (visited xs) then None else sc_byHeight s1 x))"
    by (rule Two(1) [OF s1(3) _ Two(4,5)]) (use Two(3) in simp)
  have step: "pruneLoop E h (length (a # b # xs) + length new + z) (length A) (A @ (a # b # xs) @ new @ replicate z 0) (length A + length (a # b # xs) + length new) (s, num) =
      pruneLoop E h (length xs + length new + Suc z) (length (A @ [b])) ((A @ [b]) @ xs @ new @ replicate (Suc z) 0) (length (A @ [b]) + length xs + length new) (s1, num1)"
    using s1(1) [of "length xs + length new + Suc z"] by (simp add: ac_simps del: pruneLoop.simps replicate.simps)
  show ?case using IH unfolding step s1(2) by (auto split: if_splits)
next
  case None
  then obtain c new' where "new = c # new'" "h < c" by (cases new) auto
  then show ?case by (simp add: nth_append Let_def)
next
  case (One a)
  then obtain c new' where n: "new = c # new'" "h < c" by (cases new) auto
  obtain s1 num1 where s1: "\<And>k. pruneLoop E h (Suc k) (length A) (A @ a # new @ replicate z 0) (length A + Suc (length new)) (s, num) =
      pruneLoop E h k (length A + 1) (A @ new @ replicate (Suc z) 0) (length A + length new) (s1, num1)"
    "sc_byHeight s1 = (sc_byHeight s)(a := None)" "old_below E h s1"
    using pruneLoop_delete [OF One(1), of a A new z num] One(2) by auto
  have step: "pruneLoop E h (length [a] + length new + z) (length A) (A @ [a] @ new @ replicate z 0) (length A + length [a] + length new) (s, num) =
      pruneLoop E h (Suc (length new' + z)) (length A + 1) (A @ new @ replicate (Suc z) 0) (length A + length new) (s1, num1)"
    using s1(1) [of "Suc (length new' + z)"] n by (simp add: ac_simps del: pruneLoop.simps replicate.simps)
  show ?case
  proof (cases new')
    case Nil
    have "[r \<leftarrow> getPoolBlocksByHeight s1 0. \<not> tooOld E (blk s1 r)] = []" 
      using s1(3) [unfolded old_below_def, rule_format, of 0] by (simp add: filter_empty_conv)
    moreover have "(A @ new @ replicate (Suc z) 0) ! (length A + 1) = (0 :: u64)" by (simp add: n Nil nth_append)
    ultimately have "pruneLoop E h (Suc (length new' + z)) (length A + 1) (A @ new @ replicate (Suc z) 0) (length A + length new) (s1, num1) =
        Inl (Panic ''slice bounds out of range'')"
      by (simp add: Let_def split_beta n Nil)
    then show ?thesis unfolding step by (simp add: n Nil)
  next
    case (Cons d new'')
    then have "(A @ new @ replicate (Suc z) 0) ! (length A + 1) = d" "h < d" using One(3) by (simp_all add: n nth_append)
    then have "pruneLoop E h (Suc (length new' + z)) (length A + 1) (A @ new @ replicate (Suc z) 0) (length A + length new) (s1, num1) =
        Inr (s1\<lparr>sc_keys := A @ new\<rparr>, num1)"
      by (simp add: Let_def)
    then show ?thesis unfolding step using s1(2) by (simp add: n Cons)
  qed
qed

lemma sorted_split_le: "sorted xs \<Longrightarrow> xs = filter (\<lambda>a. a \<le> h) xs @ filter (\<lambda>a. (h :: 'a::linorder) < a) xs"
proof (induction xs)
  case (Cons x xs)
  then show ?case
  proof (cases "x \<le> h")
    case False
    then have "\<forall>y \<in> set xs. h < y" using Cons.prems by auto
    then have "filter (\<lambda>a. a \<le> h) xs = []" "filter (\<lambda>a. h < a) xs = xs" by (auto simp: filter_empty_conv not_le)
    then show ?thesis using False by simp
  qed auto
qed simp

text \<open>C24: pruning while ranging.  When all shares up to the limit are too old, and some are above it, \<^verbatim>\<open>pruneOldBlocks\<close> removes
  only every second of the heights up to the limit, from the lowest on, because deleting a height from the keys while ranging over
  them makes the range skip the next one: exactly the shares of those heights go, all others stay in the index,
  although half of the heights have expired as well.  And when an odd number of heights is up to the limit and
  just one is above it, the range reaches the cells that deletions have cleared and deletes past the end
  of the keys, which panics.\<close>

theorem pruneOldBlocks_skips:
  fixes s :: SideChain
  assumes "chain_inv E S s" and "sc_chainTip s = Some t" and "pruneDistance (e_consensus E) \<le> sd_Height (pb_Side (blk s t))"
    and "limit = sd_Height (pb_Side (blk s t)) - pruneDistance (e_consensus E)"
    and "\<forall>i r. sc_byId s i = Some r \<and> sd_Height (pb_Side (blk s r)) \<le> limit \<longrightarrow> tooOld E (blk s r)"
    and "old = filter (\<lambda>a. a \<le> limit) (sort (sc_keys s))" and "new = filter (\<lambda>a. limit < a) (sort (sc_keys s))" and "new \<noteq> []"
  shows "if odd (length old) \<and> length new = 1
    then pruneOldBlocks E s = Inl (Panic ''slice bounds out of range'')
    else \<exists>s'. pruneOldBlocks E s = Inr s' \<and> sc_keys s' = skipped old @ new \<and>
      (\<forall>i r. sc_byId s' i = Some r \<longleftrightarrow> sc_byId s i = Some r \<and> sd_Height (pb_Side (blk s r)) \<notin> set (visited old))"
proof -
  let ?s = "sortedKeys s"
  have ix: "index_inv E s" using assms(1) by (simp add: chain_inv_def)
  have sorted: "sc_keys ?s = old @ new"
    using ix sorted_split_le [of "sort (sc_keys s)" limit] assms(6,7)
    by (auto simp: sortedKeys_def index_inv_def sorted_sort_id)
  have same: "sc_byHeight ?s = sc_byHeight s" "blk ?s = blk s" by (auto simp: sortedKeys_def fun_eq_iff)
  have "sd_Height (pb_Side (blk s r)) = x \<and> sc_byId s (templateIdOf E (blk s r)) = Some r" if "sc_byHeight s x = Some l" "r \<in> set l" for x l r
    using ix that by (simp add: index_inv_def)
  then have "tooOld E (blk s r)" if "x \<le> limit" "sc_byHeight s x = Some l" "r \<in> set l" for x l r
    using that assms(5) by blast
  then have "tooOld E (blk s r)" if "x \<le> limit" "r \<in> set (getPoolBlocksByHeight s x)" for x r
    using that by (cases "sc_byHeight s x") (auto simp: getPoolBlocksByHeight_def)
  then have below: "old_below E limit ?s" by (simp add: old_below_def getPoolBlocksByHeight_def same)
  have split: "\<forall>a \<in> set old. a \<le> limit" "\<forall>a \<in> set new. limit < a" using assms(6,7) by auto
  have loop: "if odd (length old) \<and> length new = 1
    then pruneLoop E limit (length (sc_keys ?s)) 0 (sc_keys ?s) (length (sc_keys ?s)) (?s, 0) = Inl (Panic ''slice bounds out of range'')
    else \<exists>s' num'. pruneLoop E limit (length (sc_keys ?s)) 0 (sc_keys ?s) (length (sc_keys ?s)) (?s, 0) = Inr (s', num') \<and>
      sc_keys s' = skipped old @ new \<and> (\<forall>x. sc_byHeight s' x = (if x \<in> set (visited old) then None else sc_byHeight s x))"
    using pruneLoop_skips [OF below split assms(8), of 0 "[]" 0]
    by (simp only: sorted same length_append list.size(3) append_Nil replicate_0 append_Nil2 add_0 add_0_right simp_thms)
  have run: "pruneOldBlocks E s = bindR (pruneLoop E limit (length (sc_keys ?s)) 0 (sc_keys ?s) (length (sc_keys ?s)) (?s, 0)) (\<lambda>(s, m).
      if m > 0 then Inr (cleanupSeenBlocks (s\<lparr>sc_precalcFinished := True\<rparr>)) else Inr s)"
    unfolding pruneOldBlocks_def assms(2) option.case Let_def assms(4) sortedKeys_def using assms(3) by (simp add: not_less [symmetric])
  show ?thesis
  proof (cases "odd (length old) \<and> length new = 1")
    case True
    then show ?thesis using loop run by simp
  next
    case False
    then obtain s1 num where s1: "pruneLoop E limit (length (sc_keys ?s)) 0 (sc_keys ?s) (length (sc_keys ?s)) (?s, 0) = Inr (s1, num)"
      "sc_keys s1 = skipped old @ new" "\<And>x. sc_byHeight s1 x = (if x \<in> set (visited old) then None else sc_byHeight s x)"
      using loop [unfolded if_not_P [OF False]] by blast
    define s' where "s' = (if num > 0 then cleanupSeenBlocks (s1\<lparr>sc_precalcFinished := True\<rparr>) else s1)"
    have p: "pruneOldBlocks E s = Inr s'" using run s1(1) by (simp add: s'_def)
    have f: "sc_keys s' = skipped old @ new" "sc_byHeight s' x = (if x \<in> set (visited old) then None else sc_byHeight s x)" for x
      using s1 by (simp_all add: s'_def cleanupSeenBlocks_def)
    have ev: "evolves E S s s'" by (rule pruneOldBlocks_evolves [OF p])
    have k: "templateIdOf E (blk s' r) = templateIdOf E (blk s r)" "pb_Side (blk s' r) = pb_Side (blk s r)" for r
      using ev by (simp_all add: evolves_def keeps_def)
    have ix': "index_inv E s'" using ev assms(1) by (simp add: evolves_def chain_inv_def)
    have "sc_byId s' i = Some r \<longleftrightarrow> sc_byId s i = Some r \<and> sd_Height (pb_Side (blk s r)) \<notin> set (visited old)" for i r
    proof
      assume r: "sc_byId s' i = Some r"
      then have "sc_byId s i = Some r" using ev by (metis evolves_def option.distinct(1))
      moreover have "r \<in> set (getPoolBlocksByHeight s' (sd_Height (pb_Side (blk s r))))" using ix' r by (simp add: index_inv_def k)
      ultimately show "sc_byId s i = Some r \<and> sd_Height (pb_Side (blk s r)) \<notin> set (visited old)"
        by (auto simp: getPoolBlocksByHeight_def f split: if_splits)
    next
      assume r: "sc_byId s i = Some r \<and> sd_Height (pb_Side (blk s r)) \<notin> set (visited old)"
      then have "templateIdOf E (blk s r) = i" "r \<in> set (getPoolBlocksByHeight s' (sd_Height (pb_Side (blk s r))))"
        using ix by (auto simp: index_inv_def getPoolBlocksByHeight_def f)
      then obtain l where "templateIdOf E (blk s r) = i" "sc_byHeight s' (sd_Height (pb_Side (blk s r))) = Some l" "r \<in> set l"
        by (cases "sc_byHeight s' (sd_Height (pb_Side (blk s r)))") (auto simp: getPoolBlocksByHeight_def)
      then show "sc_byId s' i = Some r" using ix' k(1) [of r] unfolding index_inv_def by metis
    qed
    then show ?thesis using False p f(1) by auto
  qed
qed

lemma four_inv: "chain_inv late_env {1, 2, 4336, 4337} (four_heights [1, 2, 4336, 4337])"
  unfolding chain_inv_def
proof (intro conjI)
  show "index_inv late_env (four_heights [1, 2, 4336, 4337])"
    by (auto simp: index_inv_def four_heights_def NewSideChain_def blk_def getPoolBlocksByHeight_def dom_def split: if_splits)
qed (auto simp: cache_inv_def refs_in_def tip_inv_def four_heights_def NewSideChain_def blk_def split: if_splits)

lemma three_inv: "chain_inv late_env {1, 2, 3, 4337} (four_heights [1, 2, 3, 4337])"
  unfolding chain_inv_def
proof (intro conjI)
  show "index_inv late_env (four_heights [1, 2, 3, 4337])"
    by (auto simp: index_inv_def four_heights_def NewSideChain_def blk_def getPoolBlocksByHeight_def dom_def split: if_splits)
qed (auto simp: cache_inv_def refs_in_def tip_inv_def four_heights_def NewSideChain_def blk_def split: if_splits)

theorem pruneOldBlocks_skips_witness:
  "(\<exists>s'. pruneOldBlocks late_env (four_heights [1, 2, 4336, 4337]) = Inr s' \<and> sc_keys s' = [2, 4336, 4337] \<and>
     sc_byId s' 101 = None \<and> sc_byId s' 102 = Some 2) \<and>
   pruneOldBlocks late_env (four_heights [1, 2, 3, 4337]) = Inl (Panic ''slice bounds out of range'')"
proof -
  have h: "sd_Height (pb_Side (blk (four_heights rs) r)) = of_nat r" "tooOld late_env (blk (four_heights rs) r)" for rs r
    by (simp_all add: four_heights_def NewSideChain_def blk_def late_prune)
  have t: "sc_chainTip (four_heights rs) = Some (last rs)" "sc_keys (four_heights rs) = map of_nat rs" for rs by (simp_all add: four_heights_def)
  have d: "pruneDistance (e_consensus late_env) \<le> sd_Height (pb_Side (blk (four_heights rs) 4337))"
    "5 = sd_Height (pb_Side (blk (four_heights rs) 4337)) - pruneDistance (e_consensus late_env)" for rs by (simp_all add: h late_prune)
  have o: "\<forall>i r. sc_byId (four_heights rs) i = Some r \<and> sd_Height (pb_Side (blk (four_heights rs) r)) \<le> 5 \<longrightarrow> tooOld late_env (blk (four_heights rs) r)" for rs
    by (simp add: h(2))
  let ?f = "four_heights [1, 2, 4336, 4337]" and ?g = "four_heights [1, 2, 3, 4337]"
  have f: "sc_chainTip ?f = Some 4337" "[1, 2] = filter (\<lambda>a. a \<le> 5) (sort (sc_keys ?f))" "[4336, 4337] = filter ((<) 5) (sort (sc_keys ?f))" "[4336, 4337 :: u64] \<noteq> []"
    and g: "sc_chainTip ?g = Some 4337" "[1, 2, 3] = filter (\<lambda>a. a \<le> 5) (sort (sc_keys ?g))" "[4337] = filter ((<) 5) (sort (sc_keys ?g))" "[4337 :: u64] \<noteq> []"
    by (simp_all add: t)
  have "\<exists>s'. pruneOldBlocks late_env ?f = Inr s' \<and> sc_keys s' = skipped [1, 2] @ [4336, 4337] \<and>
      (\<forall>i r. sc_byId s' i = Some r \<longleftrightarrow> sc_byId ?f i = Some r \<and> sd_Height (pb_Side (blk ?f r)) \<notin> set (visited [1, 2]))"
    using pruneOldBlocks_skips [OF four_inv f(1) d o f(2-4)] by (simp del: skipped.simps visited.simps)
  then obtain s' where s': "pruneOldBlocks late_env ?f = Inr s'" "sc_keys s' = [2, 4336, 4337]"
    "\<And>i r. sc_byId s' i = Some r \<longleftrightarrow> sc_byId ?f i = Some r \<and> sd_Height (pb_Side (blk ?f r)) \<noteq> 1"
    by auto
  have ids: "sc_byId ?f 102 = Some 2" "sc_byId ?f 101 = Some 1" by (simp_all add: four_heights_def)
  have "sc_byId s' 102 = Some 2" using s'(3) [of 102 2] ids by (simp add: h)
  moreover have "sc_byId s' 101 \<noteq> Some r" for r
  proof (cases "r = 1")
    case True
    then show ?thesis using s'(3) [of 101 1] h(1) [of _ 1] by simp
  qed (use s'(3) [of 101 r] ids in simp)
  then have "sc_byId s' 101 = None" by (metis option.exhaust)
  moreover have "pruneOldBlocks late_env ?g = Inl (Panic ''slice bounds out of range'')"
    using pruneOldBlocks_skips [OF three_inv g(1) d o g(2-4)] by simp
  ultimately show ?thesis using s'(1,2) by blast
qed

theorem pruneOldBlocks_safe_witness:
  "\<exists>s'. pruneOldBlocks late_env (four_heights [1, 2, 4336, 4337]) = Inr s' \<and> chain_inv late_env {1, 2, 4336, 4337} s' \<and>
    sc_chainTip s' = Some 4337"
proof -
  obtain s' where s': "pruneOldBlocks late_env (four_heights [1, 2, 4336, 4337]) = Inr s'"
    by (simp add: prune_evaluate Let_def)
  then show ?thesis
    using pruneOldBlocks_safe [OF four_inv s'] by (simp add: four_heights_def)
qed

section \<open>The chain tip\<close>

lemma wantsBroadcast_fields:
  "sc_chainTip (snd (wantsBroadcast r s)) = sc_chainTip s" "sc_difficulty (snd (wantsBroadcast r s)) = sc_difficulty s"
  "sc_calls (snd (wantsBroadcast r s)) = sc_calls s"
  by (simp_all add: wantsBroadcast_def)

lemma pruneOldBlocks_tip:
  assumes "pruneOldBlocks E s = Inr s'"
  shows "sc_chainTip s' = sc_chainTip s" "sc_difficulty s' = sc_difficulty s" "set (sc_calls s) \<subseteq> set (sc_calls s')"
  using pruneOldBlocks_prunes [OF assms, of UNIV] pruneOldBlocks_evolves [OF assms, of UNIV] by (auto simp: prunes_def evolves_def)

text \<open>C10: how the tip moves.  When \<^verbatim>\<open>updateChainTip\<close> returns, the tip and the current difficulty are unchanged, or the
  share is the new tip; then it is verified and valid, inside the window, preferred to the old tip by
  \<^verbatim>\<open>isLongerChain\<close>, the current difficulty is the one computed for the share after it and not
  zero, and the server was told of the new tip.\<close>

theorem updateChainTip_choice:
  assumes "updateChainTip E s r = retO s'"
  shows "sc_chainTip s' = sc_chainTip s \<and> sc_difficulty s' = sc_difficulty s \<or>
    sc_chainTip s' = Some r \<and> pb_Verified (blk s r) \<and> \<not> pb_Invalid (blk s r) \<and>
    pb_Depth (blk s r) < n_ChainWindowSize (e_consensus E) \<and> Some r \<noteq> sc_chainTip s \<and>
    (\<exists>alt. isLongerChain E s (sc_chainTip s) (Some r) = Some (True, alt)) \<and>
    (\<exists>ver inv. getDifficulty E s r = Some (sc_difficulty s', ver, inv)) \<and> sc_difficulty s' \<noteq> ZeroDifficulty \<and>
    UpdateTip r \<in> set (sc_calls s')"
proof (cases "pb_Verified (blk s r) \<and> \<not> pb_Invalid (blk s r) \<and> pb_Depth (blk s r) < n_ChainWindowSize (e_consensus E) \<and> Some r \<noteq> sc_chainTip s")
  case False
  then have "s' = s" using assms by (auto simp: updateChainTip_def not_less split: if_splits)
  then show ?thesis by simp
next
  case True
  then obtain longer alt where l: "isLongerChain E s (sc_chainTip s) (Some r) = Some (longer, alt)"
    using assms by (auto simp: updateChainTip_def not_le [symmetric] split: option.splits)
  with True assms obtain s1 where
    s1: "(if longer then moveTip E s r alt else retO s) = retO s1"
    and s': "(let (bc, t) = wantsBroadcast r s1 in retO (if bc then call (Broadcast r) t else t)) = retO s'"
    by (auto simp: updateChainTip_def not_le [symmetric] bindO_Inr_iff)
  have f: "sc_chainTip s' = sc_chainTip s1" "sc_difficulty s' = sc_difficulty s1" "set (sc_calls s1) \<subseteq> set (sc_calls s')"
    using s' wantsBroadcast_fields [of r s1] by (auto simp: split_beta Let_def split: if_splits)
  show ?thesis
  proof (cases longer)
    case True
    then obtain d ver inv where d: "getDifficulty E s r = Some (d, ver, inv)"
      using s1 by (auto simp: moveTip_def split: option.splits)
    show ?thesis
    proof (cases "d = ZeroDifficulty")
      case True
      then show ?thesis using s1 f d \<open>longer\<close> by (simp add: moveTip_def)
    next
      case False
      let ?s2 = "call (UpdateTip r) (modify r (\<lambda>b. b\<lparr>pb_WantBroadcast := True\<rparr>) (s\<lparr>sc_chainTip := Some r, sc_syncTip := Some r, sc_difficulty := d\<rparr>))"
      have "pruneOldBlocks E (if alt then ?s2\<lparr>sc_precalcFinished := True\<rparr> else ?s2) = Inr s1"
        using s1 \<open>longer\<close> False by (simp add: moveTip_def d Let_def)
      note p = pruneOldBlocks_tip [OF this]
      have "sc_chainTip s1 = Some r" "sc_difficulty s1 = d" using p(1,2) by (simp_all split: if_splits)
      moreover have "UpdateTip r \<in> set (sc_calls s1)" using p(3) by (cases alt) simp_all
      ultimately show ?thesis
        using f d False l \<open>longer\<close> True
          \<open>pb_Verified (blk s r) \<and> \<not> pb_Invalid (blk s r) \<and> pb_Depth (blk s r) < n_ChainWindowSize (e_consensus E) \<and> Some r \<noteq> sc_chainTip s\<close>
        by auto
    qed
  qed (use s1 f in simp)
qed

lemma node_numbers:
  "val (sd_CumulativeDifficulty (pb_Side (node r))) < 2 ^ 120 \<and> unat (b_Timestamp (pb_Main (node r))) < 2 ^ 63"
proof -
  have "unat (1000 * of_nat r + 1000 :: u64) < 2 ^ 64" using unat_lt_64 by simp
  then show ?thesis by (simp add: node_def ex_share_def val_def example_block_def)
qed

text \<open>The genesis share becomes the first tip.\<close>

definition genesis_state :: SideChain where
  "genesis_state = (NewSideChain ex_env node)\<lparr>sc_byId := [100 \<mapsto> 0], sc_byHeight := [0 \<mapsto> [0]], sc_keys := [0]\<rparr>"

lemma genesis_difficulty: "\<exists>d. getDifficulty ex_env genesis_state 0 = Some (d, None, None) \<and> d \<noteq> ZeroDifficulty"
proof -
  have g: "gatherLoop node ConsensusDefault [100 \<mapsto> 0] (node 0) 0 0 [] = Inr [blockData (node 0)]"
    by (subst gatherLoop.simps) (simp add: iteratorUncles_def)
  have "\<exists>d. GetDifficultyForNextBlock uint128_ref node ConsensusDefault [100 \<mapsto> 0] 0 = Some (d, None, None) \<and>
      unat (n_MinimumDifficulty ConsensusDefault) \<le> val d"
  proof (rule next_difficulty_ok)
    have "uncles_known [100 \<mapsto> 0] (node 0)" by (simp add: uncles_known_def)
    then show "known_window node [100 \<mapsto> 0] (window_depth ConsensusDefault) 0" by (rule known_window_genesis) simp
    show "n_TargetBlockTime ConsensusDefault \<le> 120" by (simp add: ConsensusDefault_def)
  qed (use node_numbers [of 0] in \<open>simp_all add: g blockData_def\<close>)
  then show ?thesis
    by (auto simp: getDifficulty_def ex_env_def genesis_state_def NewSideChain_def val_def ZeroDifficulty_def ConsensusDefault_def)
qed

theorem updateChainTip_choice_witness:
  "\<exists>s'. updateChainTip ex_env genesis_state 0 = retO s' \<and> sc_chainTip s' = Some 0 \<and> sc_difficulty s' \<noteq> ZeroDifficulty \<and>
    UpdateTip 0 \<in> set (sc_calls s')"
proof -
  obtain d where d: "getDifficulty ex_env genesis_state 0 = Some (d, None, None)" "d \<noteq> ZeroDifficulty" using genesis_difficulty by blast
  have l: "isLongerChain ex_env genesis_state None (Some 0) = Some (True, True)"
    by (simp add: isLongerChain_def IsLongerChain_def genesis_state_def NewSideChain_def)
  have b: "blk genesis_state r = node r" "sc_chainTip genesis_state = None" for r
    by (simp_all add: genesis_state_def NewSideChain_def blk_def)
  define t where "t = (call (UpdateTip 0) (modify 0 (\<lambda>b. b\<lparr>pb_WantBroadcast := True\<rparr>)
      (genesis_state\<lparr>sc_chainTip := Some 0, sc_syncTip := Some 0, sc_difficulty := d\<rparr>)))\<lparr>sc_precalcFinished := True\<rparr>"
  have "blk t 0 = (node 0)\<lparr>pb_WantBroadcast := True\<rparr>" "sc_chainTip t = Some 0" by (simp_all add: t_def blk_modify b)
  then have "pruneOldBlocks ex_env t = Inr t"
    by (simp add: pruneOldBlocks_def pruneDistance_def ex_env_def ConsensusDefault_def BlockTime_def)
  then have "moveTip ex_env genesis_state 0 True = retO t" by (simp add: moveTip_def d Let_def t_def)
  then obtain s' where s': "updateChainTip ex_env genesis_state 0 = retO s'" "sc_chainTip s' = Some 0"
    using wantsBroadcast_fields [of 0 t] \<open>sc_chainTip t = Some 0\<close> l b
    by (simp add: updateChainTip_def split_beta Let_def ex_env_def ConsensusDefault_def)
  then show ?thesis using updateChainTip_choice [OF s'(1)] b by auto
qed

section \<open>Seen blocks\<close>

text \<open>The record of seen blocks.  If \<^verbatim>\<open>BlockSeen\<close> says a block is new, it says so once: asked again it reports the block
  as seen, and \<^verbatim>\<open>BlockUnsee\<close> undoes the record exactly, so that the block is new again.\<close>

lemma BlockSeen_once:
  assumes "BlockSeen E s b = Inr (False, s1)"
  shows "BlockSeen E s1 b = Inr (True, s1) \<and> (\<exists>s2. BlockUnsee s1 b = Inr s2 \<and> s2 = s \<and> BlockSeen E s2 b = Inr (False, s1))"
proof -
  obtain fid where f: "FullId b = Inr fid" "fid \<notin> sc_seen s" "s1 = s\<lparr>sc_seen := insert fid (sc_seen s)\<rparr>"
    using assms by (auto simp: BlockSeen_def Let_def bindR_Inr_iff split: if_splits)
  then have "BlockSeen E s1 b = Inr (True, s1)" by (simp add: BlockSeen_def Let_def)
  then show ?thesis using f assms by (simp add: BlockUnsee_def)
qed

section \<open>A verified share\<close>

text \<open>A share above the genesis share, which pays its only miner, and the state in which it is verified.\<close>

definition paid_share :: PoolBlock where
  "paid_share = (node 1)\<lparr>pb_Main := example_block\<lparr>b_Coinbase := example_coinbase\<lparr>c_Outputs :=
     [\<lparr>o_Index = 0, o_Reward = 600000000000, o_EphemeralPublicKey = 5, o_Type = TxOutToTaggedKey, o_ViewTag = 6\<rparr>]\<rparr>\<rparr>\<rparr>"

definition paid_state :: SideChain where
  "paid_state = genesis_state\<lparr>sc_heap := node(1 := paid_share), sc_chainTip := Some 0, sc_difficulty := Difficulty 1000 0\<rparr>"

lemma paid_window:
  "BlocksInPPLNSWindow uint128_ref (node(1 := paid_share)) ConsensusDefault (\<lambda>_. Difficulty 1000000 0) [100 \<mapsto> 0] 1 =
    Inr (0, [(1, Difficulty 1000 0), (0, Difficulty 1000 0)])"
proof -
  let ?h = "node(1 := paid_share)"
  have step: "blocksStep uint128_ref ?h ConsensusDefault [100 \<mapsto> 0] (?h 1) d r w = Inr (addBlock r (w\<lparr>w_curWeight := Difficulty 1000 0\<rparr>))"
    if "r = 0 \<or> r = 1" for r w d
    using that by (auto simp: blocksStep_def iteratorUncles_def paid_share_def node_def ex_share_def)
  have limit: "maxPplnsWeight (\<lambda>_. Difficulty 1000000 0) (?h 1) = Inr (Difficulty 2000000 0)"
    by (simp add: maxPplnsWeight_def paid_share_def node_def ex_share_def ZeroHash_def ZeroDifficulty_def version_consts small_difficulties)
  have window: "n_ChainWindowSize ConsensusDefault = 2160" by (simp add: ConsensusDefault_def)
  have "sd_Height (pb_Side paid_share) = 1" "iteratorGetParent [100 \<mapsto> 0] paid_share = Some 0"
    by (simp_all add: paid_share_def node_def ex_share_def iteratorGetParent_def zeroPoolBlock_def)
  then show ?thesis
    unfolding BlocksInPPLNSWindow_def limit bindR.simps
    using step by (simp add: blocksLoop.simps [of _ _ _ _ _ _ _ "Suc 0"] blocksLoop.simps [of _ _ _ _ _ _ _ 0] addBlock_def window_init_def
        small_difficulties less_Difficulty_def val_def ZeroDifficulty_def window)
qed

lemma paid_shares: "getShares ex_env paid_state 1 = Inr (Some [\<lparr>s_Address = (1, 7), s_Weight = Difficulty 2000 0\<rparr>], 0)"
proof -
  have "Compact (sort_cmp share_cmp) [\<lparr>s_Address = (1, 7), s_Weight = Difficulty 1000 0\<rparr>, \<lparr>s_Address = (1, 7), s_Weight = Difficulty 1000 0\<rparr>] =
      [\<lparr>s_Address = (1, 7), s_Weight = Difficulty 2000 0\<rparr>]"
    by (subst Compact_eq_merge) (simp_all add: sort_cmp_def share_cmp_def ComparePacked_spec small_difficulties)
  then show ?thesis
    using paid_window
    by (simp add: getShares_def GetShares_def GetSharesOrdered_def paid_state_def genesis_state_def NewSideChain_def ex_env_def
        ShuffleShares_def ShuffleSequence_def)
      (simp add: paid_share_def node_def ex_share_def)
qed

lemma paid_blk: "blk paid_state 0 = node 0" "blk paid_state 1 = paid_share" "sc_byId paid_state = [100 \<mapsto> 0]"
  "sc_chainTip paid_state = Some 0" "sc_difficulty paid_state = Difficulty 1000 0"
  by (simp_all add: paid_state_def genesis_state_def NewSideChain_def blk_def)

lemma paid_side:
  "sd_Height (pb_Side paid_share) = 1" "sd_Parent (pb_Side paid_share) = 100" "sd_Uncles (pb_Side paid_share) = []"
  "sd_Difficulty (pb_Side paid_share) = Difficulty 1000 0" "sd_CumulativeDifficulty (pb_Side paid_share) = Difficulty 2000 0"
  "sd_CoinbasePrivateKeySeed (pb_Side paid_share) = sd_CoinbasePrivateKeySeed (pb_Side (node 0))"
  "b_PreviousId (pb_Main paid_share) = b_PreviousId (pb_Main (node 0))" "pb_iterationCache paid_share = None" "pb_Depth paid_share = 0"
  "sd_CumulativeDifficulty (pb_Side (node 0)) = Difficulty 1000 0"
  "c_Outputs (b_Coinbase (pb_Main paid_share)) =
    [\<lparr>o_Index = 0, o_Reward = 600000000000, o_EphemeralPublicKey = 5, o_Type = TxOutToTaggedKey, o_ViewTag = 6\<rparr>]"
  "c_TotalReward (b_Coinbase (pb_Main paid_share)) = 600000000000"
  by (simp_all add: paid_share_def node_def ex_share_def zeroPoolBlock_def example_coinbase_def)

lemma paid_outputs: "verifyOutputs ex_env paid_state 1 = Inr None"
proof -
  have "SplitReward uint128_ref 600000000000 [\<lparr>s_Address = (1, 7), s_Weight = Difficulty 2000 0\<rparr>] = Inr (Some [600000000000])"
  proof -
    let ?s = "[\<lparr>s_Address = (1, 7), s_Weight = Difficulty 2000 0\<rparr>]"
    obtain rs where rs: "SplitReward uint128_ref 600000000000 ?s = Inr (Some rs)" "length rs = 1" "sum_list (map unat rs) = 600000000000"
      using split_exact [OF uint128_ref_ok, of ?s 600000000000] by (auto simp: weights_def val_def)
    then obtain x where "rs = [x]" "unat x = unat (600000000000 :: u64)" by (cases rs) auto
    then show ?thesis using rs(1) by (simp only: word_unat_eq_iff [symmetric])
  qed
  moreover have "outputError ex_env paid_share [\<lparr>s_Address = (1, 7), s_Weight = Difficulty 2000 0\<rparr>] [600000000000] 0 = None"
    "e_U ex_env = uint128_ref"
    by (simp_all add: outputError_def ex_env_def paid_side)
  ultimately show ?thesis
    by (simp add: verifyOutputs_def paid_shares paid_blk paid_side Let_def del: One_nat_def)
qed

lemma paid_verified: "verifyBlock ex_env paid_state 1 = retO (None, None)"
proof -
  have p: "getParent paid_state 1 = Some 0" by (simp add: getParent_def iteratorGetParent_def paid_blk paid_side del: One_nat_def)
  have "expectedSeed ex_env (node 0) paid_share = sd_CoinbasePrivateKeySeed (pb_Side paid_share)"
    by (simp add: expectedSeed_def paid_side)
  moreover have "verifyWindow ex_env paid_state 1 0 = retO (None, None)"
    by (simp add: verifyWindow_def paid_blk paid_side paid_outputs Let_def del: One_nat_def)
  moreover have "Equals (e_U ex_env) (Difficulty 2000 0) (Add (Difficulty 1000 0) (Difficulty 1000 0))"
    by (simp add: Equals_def ex_env_def small_difficulties uint128_okD)
  moreover have "e_consensus ex_env = ConsensusDefault" "n_ChainWindowSize ConsensusDefault = 2160"
    by (simp_all add: ex_env_def ConsensusDefault_def)
  ultimately show ?thesis
    unfolding verifyBlock_def Let_def p by (simp add: paid_blk paid_side UncleBlockDepth_def ZeroHash_def del: One_nat_def)
qed

theorem verifyBlock_sound_witness:
  "getParent paid_state 1 = Some 0 \<and> required_difficulty ex_env paid_state 0 (Difficulty 1000 0) \<and> outputs_pay ex_env paid_state 1"
proof -
  have "uint128_ok (e_U ex_env)" "n_ChainWindowSize (e_consensus ex_env) = 2160" by (simp_all add: ex_env_def ConsensusDefault_def)
  then show ?thesis
    using verifyBlock_sound [OF paid_verified] by (auto simp: paid_blk paid_side getParent_def iteratorGetParent_def simp del: One_nat_def)
qed

end
