(* ===== verification/Chainapi.thy ===== *)
theory Chainapi
  imports Chaintip
begin

text \<open>
  The operations of p2pool/sidechain/sidechain.go that the rest of the program calls: candidates for uncles, missing
  shares, walks from a tip, the filling of compact and pruned shares (with p2pool/sidechain/poolblock.go
  \<^verbatim>\<open>PreProcessBlockWithOutputs\<close>) and the checks a share from outside has to pass.
\<close>

section \<open>Accessors\<close>

definition GetHighestKnownTip :: "SideChain \<Rightarrow> ref option" where
  "GetHighestKnownTip s = (case sc_chainTip s of Some t \<Rightarrow> Some t | None \<Rightarrow> sc_syncTip s)"

definition LastUpdated :: "SideChain \<Rightarrow> u64" where
  "LastUpdated s = (case sc_chainTip s of Some t \<Rightarrow> pb_LocalTimestamp (blk s t) | None \<Rightarrow> 0)"

definition WatchMainChainBlock :: "SideChain \<Rightarrow> mainRef option \<Rightarrow> hash \<Rightarrow> SideChain" where
  "WatchMainChainBlock s mainData possibleId = s\<lparr>sc_watchBlock := mainData, sc_watchId := possibleId\<rparr>"

section \<open>Candidates for uncles\<close>

definition possibleUncle :: "env \<Rightarrow> SideChain \<Rightarrow> ref \<Rightarrow> u64 \<Rightarrow> hash list \<Rightarrow> ref \<Rightarrow> bool option" where
  "possibleUncle E s tip forHeight minedBlocks uncle =
    (if \<not> pb_Verified (blk s uncle) \<or> pb_Invalid (blk s uncle) then Some False
     else if templateIdOf E (blk s uncle) \<in> set minedBlocks then Some False
     else Option.bind (walkDown (sc_heap s) (sc_byId s) (sd_Height (pb_Side (blk s uncle))) (Some tip)) (\<lambda>tmp.
       Some (case tmp of
         None \<Rightarrow> False
       | Some t \<Rightarrow> \<not> sd_Height (pb_Side (blk s t)) < sd_Height (pb_Side (blk s uncle)) \<and>
           sameAncestor s forHeight (unat UncleBlockDepth) tmp (Some uncle))))"

fun filterO :: "('a \<Rightarrow> bool option) \<Rightarrow> 'a list \<Rightarrow> 'a list option" where
  "filterO p [] = Some []"
| "filterO p (x # xs) =
    Option.bind (p x) (\<lambda>keep. map_option (\<lambda>ys. if keep then x # ys else ys) (filterO p xs))"

definition GetPossibleUncles :: "env \<Rightarrow> SideChain \<Rightarrow> ref \<Rightarrow> u64 \<Rightarrow> hash list option" where
  "GetPossibleUncles E s tip forHeight =
    (let n = unat (min UncleBlockDepth (sd_Height (pb_Side (blk s tip)) + 1));
         minedBlocks = minedLoop E s n (Some tip) [];
         candidates = concat (map (\<lambda>i. getPoolBlocksByHeight s (sd_Height (pb_Side (blk s tip)) - of_nat i)) [0..<n])
     in map_option (\<lambda>us. sort (map (\<lambda>u. templateIdOf E (blk s u)) us))
          (filterO (possibleUncle E s tip forHeight minedBlocks) candidates))"

section \<open>Missing shares and walks\<close>

text \<open>The iteration over the id index visits its shares in some order \<open>rs\<close>; the callback stops the whole
  iteration when it returns true.\<close>

definition isMissing :: "SideChain \<Rightarrow> hash \<Rightarrow> bool" where
  "isMissing s i \<longleftrightarrow> i \<noteq> ZeroHash \<and> sc_byId s i = None"

fun missingUncles :: "SideChain \<Rightarrow> nat \<Rightarrow> hash list \<Rightarrow> hash list \<times> bool" where
  "missingUncles s n [] = ([], False)"
| "missingUncles s n (i # is) =
    (if isMissing s i then
       (if n + 1 \<ge> 2 then ([i], True) else apfst ((#) i) (missingUncles s (n + 1) is))
     else missingUncles s n is)"

fun missingLoop :: "SideChain \<Rightarrow> ref list \<Rightarrow> hash list" where
  "missingLoop s [] = []"
| "missingLoop s (r # rs) =
    (let b = blk s r in
     if pb_Verified b then missingLoop s rs
     else
       let parent = (if isMissing s (sd_Parent (pb_Side b)) then [sd_Parent (pb_Side b)] else []);
           (uncles, stop) = missingUncles s 0 (sd_Uncles (pb_Side b))
       in parent @ uncles @ (if stop then [] else missingLoop s rs))"

definition GetMissingBlocks :: "SideChain \<Rightarrow> ref list \<Rightarrow> hash list" where
  "GetMissingBlocks s rs = missingLoop s rs"

text \<open>The walks from a tip; \<open>depth\<close> bounds the chain when it is given.  At a missing uncle the uncles of the
  share at hand are dropped again.\<close>

fun unclesOf :: "lookup \<Rightarrow> hash list \<Rightarrow> ref list \<Rightarrow> ref list option" where
  "unclesOf get [] us = Some us"
| "unclesOf get (i # is) us = (case get i of None \<Rightarrow> None | Some u \<Rightarrow> unclesOf get is (us @ [u]))"

partial_function (option) tipWalk ::
  "SideChain \<Rightarrow> nat option \<Rightarrow> ref option \<Rightarrow> ref list \<Rightarrow> ref list \<Rightarrow> (ref list \<times> ref list) option" where
  "tipWalk s depth cur chain uncles =
    (case cur of
       None \<Rightarrow> Some (chain, uncles)
     | Some r \<Rightarrow>
         if depth \<noteq> None \<and> length chain \<ge> the depth then Some (chain, uncles)
         else (case unclesOf (sc_byId s) (sd_Uncles (pb_Side (blk s r))) uncles of
                 None \<Rightarrow> Some (chain, uncles)
               | Some us \<Rightarrow> tipWalk s depth (sc_byId s (sd_Parent (pb_Side (blk s r)))) (chain @ [r]) us))"

definition GetPoolBlocksFromTip :: "SideChain \<Rightarrow> hash \<Rightarrow> (ref list \<times> ref list) option" where
  "GetPoolBlocksFromTip s i = tipWalk s None (sc_byId s i) [] []"

text \<open>The depth is converted to a signed number, so that none of the chain is given from \<open>2^63\<close> on.\<close>

definition GetPoolBlocksFromTipWithDepth :: "SideChain \<Rightarrow> hash \<Rightarrow> u64 \<Rightarrow> (ref list \<times> ref list) option" where
  "GetPoolBlocksFromTipWithDepth s i depth = tipWalk s (Some (nat (sint depth))) (sc_byId s i) [] []"

section \<open>Filling a share\<close>

text \<open>\<^verbatim>\<open>chain[i].FillTransactionsFromTransactionParentIndices(chain[j])\<close> on shares of the heap.\<close>

definition fillFrom :: "SideChain \<Rightarrow> ref \<Rightarrow> ref \<Rightarrow> (error option \<times> SideChain) run" where
  "fillFrom s r parent =
    (case FillTransactionsFromTransactionParentIndices (blk s r) (Some (blk s parent)) of
       (Some (Panic m), _) \<Rightarrow> Some (Inl (Panic m))
     | (e, b) \<Rightarrow> retO (e, modify r (\<lambda>_. b) s))"

text \<open>The first loop of \<^verbatim>\<open>getTemplateByIdFillingTx\<close>; the chain has its last entry first.\<close>

partial_function (option) fillWalk :: "SideChain \<Rightarrow> ref option \<Rightarrow> ref list \<Rightarrow> (ref list \<times> SideChain) run" where
  "fillWalk s cur chain =
    (case cur of
       None \<Rightarrow> retO (chain, s)
     | Some r \<Rightarrow>
         if \<not> NeedsCompactTransactionFilling (blk s r) then retO (r # chain, s)
         else (case chain of
                 [] \<Rightarrow> fillWalk s (sc_byId s (sd_Parent (pb_Side (blk s r)))) [r]
               | prev # rest \<Rightarrow>
                   (case fillFrom s prev r of
                      None \<Rightarrow> None
                    | Some (Inl e) \<Rightarrow> Some (Inl e)
                    | Some (Inr (e, s1)) \<Rightarrow>
                        if e = None \<and> \<not> NeedsCompactTransactionFilling (blk s1 prev) then retO (chain, s1)
                        else fillWalk s1 (sc_byId s1 (sd_Parent (pb_Side (blk s1 r)))) (r # chain))))"

fun fillBack :: "SideChain \<Rightarrow> ref list \<Rightarrow> (ref option \<times> SideChain) run" where
  "fillBack s [] = retO (None, s)"
| "fillBack s [r] = retO (Some r, s)"
| "fillBack s (parent # r # rs) =
    bindO (fillFrom s r parent) (\<lambda>(e, s). if e \<noteq> None then retO (None, s) else fillBack s (r # rs))"

definition getTemplateByIdFillingTx :: "SideChain \<Rightarrow> hash \<Rightarrow> (ref option \<times> SideChain) run" where
  "getTemplateByIdFillingTx s h = bindO (fillWalk s (sc_byId s h) []) (\<lambda>(chain, s). fillBack s chain)"

text \<open>\<^verbatim>\<open>PreProcessBlockWithOutputs\<close> in three parts, each with the missing shares and the error it returns; \<open>None\<close> goes on.
  The parent found by the first part is used by the second.\<close>

type_synonym preprocess = "(hash list \<times> error) option"

definition preTransactions :: "SideChain \<Rightarrow> ref \<Rightarrow> (preprocess \<times> ref option \<times> SideChain) run" where
  "preTransactions s r =
    (if NeedsCompactTransactionFilling (blk s r) then
       bindO (getTemplateByIdFillingTx s (sd_Parent (pb_Side (blk s r)))) (\<lambda>(parent, s).
         case parent of
           None \<Rightarrow> retO (Some ([sd_Parent (pb_Side (blk s r))], Err ''parent does not exist in compact block''), None, s)
         | Some p \<Rightarrow>
             bindO (fillFrom s r p) (\<lambda>(e, s).
               case e of
                 Some e \<Rightarrow> retO (Some ([], Err ''error filling transactions for block''), Some p, s)
               | None \<Rightarrow> retO (None, Some p, s)))
     else retO (None, None, s))"

definition preIndices :: "SideChain \<Rightarrow> ref \<Rightarrow> ref option \<Rightarrow> SideChain run" where
  "preIndices s r parent =
    (if length (b_Transactions (pb_Main (blk s r))) \<noteq> length (b_TransactionParentIndices (pb_Main (blk s r))) then
       bindO (if parent = None then getTemplateByIdFillingTx s (sd_Parent (pb_Side (blk s r))) else retO (parent, s)) (\<lambda>(parent, s).
         retO (modify r (\<lambda>b. snd (FillTransactionParentIndices b (map_option (blk s) parent))) s))
     else retO s)"

definition preOutputs :: "env \<Rightarrow> SideChain \<Rightarrow> ref \<Rightarrow> (preprocess \<times> SideChain) run" where
  "preOutputs E s r =
    (if length (c_Outputs (b_Coinbase (pb_Main (blk s r)))) = 0 then
       bindO (Some (CalculateOutputs (e_srt E) (e_K E) (e_U E) (e_ephemeral E) (sc_heap s) (e_consensus E) (e_difficultyByHeight E)
                 (sc_byId s) r)) (\<lambda>(outputs, _).
         case outputs of
           None \<Rightarrow> retO (Some ([], Err ''error filling outputs for block: nil outputs''), s)
         | Some outs \<Rightarrow>
             let s = modify r (\<lambda>b. b\<lparr>pb_Main := (pb_Main b)\<lparr>b_Coinbase := (b_Coinbase (pb_Main b))\<lparr>c_Outputs := outs\<rparr>\<rparr>\<rparr>) s in
             case Outputs_AppendBinary outs [] of
               Inl (Panic m) \<Rightarrow> Some (Inl (Panic m))
             | Inl e \<Rightarrow> retO (Some ([], Err ''error filling outputs for block''), s)
             | Inr outputBlob \<Rightarrow>
                 if of_nat (length outputBlob) \<noteq> c_OutputsBlobSize (b_Coinbase (pb_Main (blk s r)))
                 then retO (Some ([], Err ''error filling outputs for block: invalid output blob size''), s)
                 else retO (None, s))
     else retO (None, s))"

definition PreProcessBlock :: "env \<Rightarrow> SideChain \<Rightarrow> ref \<Rightarrow> (preprocess \<times> SideChain) run" where
  "PreProcessBlock E s r =
    bindO (preTransactions s r) (\<lambda>(e, parent, s).
      if e \<noteq> None then retO (e, s)
      else bindO (preIndices s r parent) (\<lambda>s. preOutputs E s r))"

definition PreprocessBlock :: "env \<Rightarrow> SideChain \<Rightarrow> ref \<Rightarrow> (preprocess \<times> SideChain) run" where
  "PreprocessBlock E s r =
    PreProcessBlock E
      (if length (c_Outputs (b_Coinbase (pb_Main (blk s r)))) = 0 then
         (case sc_byId s (template_tag (blk s r)) of
            None \<Rightarrow> s
          | Some known \<Rightarrow> modify r (\<lambda>b. b\<lparr>pb_Main := (pb_Main b)\<lparr>b_Coinbase := (b_Coinbase (pb_Main b))\<lparr>c_Outputs :=
              c_Outputs (b_Coinbase (pb_Main (blk s known)))\<rparr>\<rparr>\<rparr>) s)
       else s) r"

section \<open>Shares from outside\<close>

type_synonym reply = "hash list \<times> error option \<times> bool"

abbreviation reject :: "string \<Rightarrow> bool \<Rightarrow> SideChain \<Rightarrow> (reply \<times> SideChain) run" where
  "reject m ban s \<equiv> retO (([], Some (Err m), ban), s)"

text \<open>The memo of the PoW hash is written to the share.\<close>

definition powHash :: "env \<Rightarrow> SideChain \<Rightarrow> ref \<Rightarrow> hash result \<times> SideChain" where
  "powHash E s r =
    (let (res, b) = PoolBlock_PowHashWithError (e_K E) (e_hasher E) (getSeedByHeight E) (blk s r) in (res, modify r (\<lambda>_. b) s))"

definition higherThanMain :: "env \<Rightarrow> SideChain \<Rightarrow> ref \<Rightarrow> bool result \<times> SideChain" where
  "higherThanMain E s r =
    (let (res, b) = IsProofHigherThanMainDifficultyWithError (e_K E) (e_U E) (e_Q E) (e_hasher E) (e_difficultyByHeight E)
           (getSeedByHeight E) (blk s r)
     in (res, modify r (\<lambda>_. b) s))"

definition higherThanShare :: "env \<Rightarrow> SideChain \<Rightarrow> ref \<Rightarrow> bool result \<times> SideChain" where
  "higherThanShare E s r =
    (let (res, b) = IsProofHigherThanDifficultyWithError (e_K E) (e_U E) (e_Q E) (e_hasher E) (getSeedByHeight E) (blk s r)
     in (res, modify r (\<lambda>_. b) s))"

text \<open>An error of the hasher is returned as an error value, a panic of it is a panic.\<close>

definition asError :: "'a result \<Rightarrow> (error + 'a) run" where
  "asError x = (case x of Inl (Panic m) \<Rightarrow> Some (Inl (Panic m)) | _ \<Rightarrow> retO x)"

text \<open>The two proof-of-work tests and the submission to the main chain, common to new and to alternate shares.\<close>

definition proofOfWork :: "env \<Rightarrow> SideChain \<Rightarrow> ref \<Rightarrow> ((reply option) \<times> SideChain) run" where
  "proofOfWork E s r =
    (let (main, s) = higherThanMain E s r in
     bindO (asError main) (\<lambda>main.
       let s = (if main = Inr True then call (SubmitBlock (pb_Main (blk s r))) s else s);
           (higher, s) = higherThanShare E s r
       in bindO (asError higher) (\<lambda>higher.
            case higher of
              Inl e \<Rightarrow> retO (Some ([], Some e, True), s)
            | Inr h \<Rightarrow> if \<not> h then retO (Some ([], Some (Err ''not enough PoW''), True), s) else retO (None, s))))"

text \<open>A share whose template is known: a different main block of it would be checked and stored as an alternate.\<close>

definition alternateBlock :: "env \<Rightarrow> SideChain \<Rightarrow> ref \<Rightarrow> ref \<Rightarrow> (reply \<times> SideChain) run" where
  "alternateBlock E s r other =
    (let (pow, s) = powHash E s r in
     bindO (asError pow) (\<lambda>pow.
       case pow of
         Inl e \<Rightarrow> retO (([], Some e, False), s)
       | Inr _ \<Rightarrow>
           bindO (proofOfWork E s r) (\<lambda>(rep, s).
             case rep of
               Some rep \<Rightarrow> retO (rep, s)
             | None \<Rightarrow>
                 let s = setVerdict r True False s;
                     s = (if templateIdOf E (blk s r) = sc_watchId s
                          then (call (UpdateBlockFound (sc_watchBlock s) r) s)\<lparr>sc_watchId := ZeroHash\<rparr> else s);
                     s = modify r (\<lambda>b. b\<lparr>pb_Depth := pb_Depth (blk s other)\<rparr>) s;
                     (bc, s) = wantsBroadcast r s;
                     s = (if bc then call (Broadcast r) s else s)
                 in retO (([], None, False), call (StoreBlock r) s))))"

definition knownBlock :: "env \<Rightarrow> SideChain \<Rightarrow> ref \<Rightarrow> ref \<Rightarrow> (reply \<times> SideChain) run" where
  "knownBlock E s r other =
    bindO (Some (MainId (e_K E) (blk s r))) (\<lambda>newMainId.
    bindO (Some (MainId (e_K E) (blk s r))) (\<lambda>oldMainId.
      if newMainId \<noteq> oldMainId \<and> pb_Verified (blk s other) \<and> \<not> pb_Invalid (blk s other)
      then alternateBlock E s r other else retO (([], None, False), s)))"

text \<open>The anti-spam test: some share of the window has at most twice the difficulty.\<close>

partial_function (option) halfDifficulty :: "env \<Rightarrow> SideChain \<Rightarrow> Difficulty \<Rightarrow> ref \<Rightarrow> ref option \<Rightarrow> bool option" where
  "halfDifficulty E s diff2 tip tmp =
    (case tmp of
       None \<Rightarrow> Some False
     | Some r \<Rightarrow>
         if sd_Height (pb_Side (blk s r)) + n_ChainWindowSize (e_consensus E) > sd_Height (pb_Side (blk s tip)) then
           (if Cmp diff2 (sd_Difficulty (pb_Side (blk s r))) \<ge> 0 then Some True
            else halfDifficulty E s diff2 tip (getParent s r))
         else Some False)"

definition tooLowDifficulty :: "env \<Rightarrow> SideChain \<Rightarrow> ref \<Rightarrow> bool option" where
  "tooLowDifficulty E s r =
    (let d = sd_Difficulty (pb_Side (blk s r)) in
     if Cmp d (sc_difficulty s) < 0 then
       (case sc_chainTip s of
          None \<Rightarrow> Some True
        | Some tip \<Rightarrow> map_option Not (halfDifficulty E s (MulBy64 d 2) tip (Some tip)))
     else Some False)"

definition missingOf :: "SideChain \<Rightarrow> ref \<Rightarrow> hash list" where
  "missingOf s r =
    (let side = pb_Side (blk s r) in
     (if isMissing s (sd_Parent side) then [sd_Parent side] else []) @ [i \<leftarrow> sd_Uncles side. isMissing s i])"

text \<open>The end of \<^verbatim>\<open>AddPoolBlockExternal\<close>: proof of work, then the share is added.\<close>

definition addWithProof :: "env \<Rightarrow> SideChain \<Rightarrow> ref \<Rightarrow> (reply \<times> SideChain) run" where
  "addWithProof E s r =
    (let (pow, s) = powHash E s r in
     bindO (asError pow) (\<lambda>pow.
       case pow of
         Inl e \<Rightarrow> bindO (Some (BlockUnsee s (blk s r))) (\<lambda>s. retO (([], Some e, False), s))
       | Inr _ \<Rightarrow>
           bindO (proofOfWork E s r) (\<lambda>(rep, s).
             case rep of
               Some rep \<Rightarrow> retO (rep, s)
             | None \<Rightarrow> bindO (AddPoolBlock E s r) (\<lambda>(err, s'). retO ((missingOf s r, err, True), s')))))"

definition externalChecks :: "env \<Rightarrow> SideChain \<Rightarrow> ref \<Rightarrow> (reply \<times> SideChain) run" where
  "externalChecks E s r =
    (let b = blk s r; side = pb_Side b in
     if \<exists>o' \<in> set (c_Outputs (b_Coinbase (pb_Main b))). o_Type o' \<noteq> GetTransactionOutputType b
     then reject ''unexpected transaction type'' True s
     else if template_tag b \<noteq> templateIdOf E b then reject ''invalid template id'' True s
     else if Cmp64 (e_U E) (sd_Difficulty side) (n_MinimumDifficulty (e_consensus E)) < 0 then reject ''block has invalid difficulty'' True s
     else case sc_byId s (template_tag b) of
       Some other \<Rightarrow> knownBlock E s r other
     | None \<Rightarrow>
         (case tooLowDifficulty E s r of
            None \<Rightarrow> None
          | Some True \<Rightarrow> reject ''block has too low difficulty'' False s
          | Some False \<Rightarrow>
              if \<exists>data. e_mainByHash E (b_PreviousId (pb_Main b)) = Some data \<and> m_Height data + 1 \<noteq> c_GenHeight (b_Coinbase (pb_Main b))
              then reject ''wrong mainchain height'' True s
              else addWithProof E s r))"

definition externalBlock :: "env \<Rightarrow> SideChain \<Rightarrow> ref \<Rightarrow> (reply \<times> SideChain) run" where
  "externalBlock E s r =
    (let b = blk s r in
     if c_TotalReward (b_Coinbase (pb_Main b)) < TailEmissionReward then reject ''block reward too low'' True s
     else if b_MajorVersion (pb_Main b) \<ge> HardForkViewTagsVersion \<and> \<not> isPoolBlockTransactionKeyIsDeterministic E b
     then reject ''invalid deterministic transaction keys'' True s
     else bindO (PreprocessBlock E s r) (\<lambda>(e, s).
       case e of
         Some (missing, e) \<Rightarrow> retO ((missing, Some e, True), s)
       | None \<Rightarrow> externalChecks E s r))"

text \<open>The deferred \<^verbatim>\<open>recover\<close>: a panic becomes an error and a ban.  The state it leaves is not modelled (\<open>None\<close>).\<close>

definition AddPoolBlockExternal :: "env \<Rightarrow> SideChain \<Rightarrow> ref \<Rightarrow> (reply \<times> SideChain option) option" where
  "AddPoolBlockExternal E s r =
    (case externalBlock E s r of
       None \<Rightarrow> None
     | Some (Inl e) \<Rightarrow> Some (([], Some (Err ''panic''), True), None)
     | Some (Inr (rep, s')) \<Rightarrow> Some (rep, Some s'))"

subsection \<open>What an admitted share has passed\<close>

lemma bindO_Some_Inr: "bindO (Some m) f = retO y \<longleftrightarrow> (\<exists>x. m = Inr x \<and> f x = retO y)"
  by (cases m) auto

lemma fillFrom_index: "fillFrom s r p = retO (e, s') \<Longrightarrow> sc_byId s' = sc_byId s"
  by (auto simp: fillFrom_def split: prod.splits option.splits error.splits)

lemma fillWalk_index':
  assumes "fillWalk s cur chain = Some x"
  shows "\<forall>chain' s'. x = Inr (chain', s') \<longrightarrow> sc_byId s' = sc_byId s"
proof (rule fillWalk.raw_induct [OF _ assms], goal_cases)
  case (1 walk s cur chain x)
  show ?case
  proof (cases "cur = None \<or> \<not> NeedsCompactTransactionFilling (blk s (the cur))")
    case True
    then show ?thesis using 1(2) by (auto split: option.splits if_splits)
  next
    case False
    then obtain r where r: "cur = Some r" "NeedsCompactTransactionFilling (blk s r)" by auto
    show ?thesis
    proof (cases chain)
      case Nil
      then show ?thesis using 1 r by simp
    next
      case (Cons prev rest)
      have "fillFrom s prev r \<noteq> None" by (auto simp: fillFrom_def split: prod.splits option.splits error.splits)
      then obtain y where y: "fillFrom s prev r = Some y" by blast
      show ?thesis
      proof (cases y)
        case (Inl e)
        then show ?thesis using 1(2) r Cons y by auto
      next
        case (Inr es)
        then obtain e s1 where e: "y = Inr (e, s1)" by (cases es) auto
        then have s1: "sc_byId s1 = sc_byId s" using fillFrom_index y by blast
        show ?thesis
        proof (cases "e = None \<and> \<not> NeedsCompactTransactionFilling (blk s1 prev)")
          case True
          then show ?thesis using 1(2) r Cons y e s1 by auto
        next
          case False
          then have "walk s1 (sc_byId s1 (sd_Parent (pb_Side (blk s1 r)))) (r # chain) = Some x" using 1(2) r Cons y e by auto
          from 1(1) [OF this] show ?thesis using s1 by simp
        qed
      qed
    qed
  qed
qed

lemma fillWalk_index: "fillWalk s cur chain = retO (chain', s') \<Longrightarrow> sc_byId s' = sc_byId s"
  using fillWalk_index' by blast

lemma fillBack_index: "fillBack s chain = retO (p, s') \<Longrightarrow> sc_byId s' = sc_byId s"
  by (induction s chain rule: fillBack.induct) (auto simp: bindO_Inr_iff dest!: fillFrom_index split: if_splits)

lemma filling_index: "getTemplateByIdFillingTx s h = retO (p, s') \<Longrightarrow> sc_byId s' = sc_byId s"
  by (auto simp: getTemplateByIdFillingTx_def bindO_Inr_iff dest!: fillWalk_index fillBack_index)

lemma PreprocessBlock_index:
  assumes "PreprocessBlock E s r = retO (e, s')"
  shows "sc_byId s' = sc_byId s"
proof -
  have t: "sc_byId s2 = sc_byId s1" if "preTransactions s1 r = retO (e, p, s2)" for s1 e p s2
  proof (cases "NeedsCompactTransactionFilling (blk s1 r)")
    case True
    with that obtain q s3 where q: "getTemplateByIdFillingTx s1 (sd_Parent (pb_Side (blk s1 r))) = retO (q, s3)"
      by (auto simp: preTransactions_def bindO_Inr_iff)
    then have "sc_byId s3 = sc_byId s1" by (rule filling_index)
    moreover have "sc_byId s2 = sc_byId s3"
      using that True q fillFrom_index [of s3 r] by (cases q) (auto simp: preTransactions_def bindO_Inr_iff split: option.splits)
    ultimately show ?thesis by simp
  qed (use that in \<open>simp add: preTransactions_def\<close>)
  have i: "sc_byId s2 = sc_byId s1" if "preIndices s1 r p = retO s2" for s1 p s2
    using that by (auto simp: preIndices_def bindO_Inr_iff dest!: filling_index split: if_splits)
  have o: "sc_byId s2 = sc_byId s1" if "preOutputs E s1 r = retO (e, s2)" for s1 e s2
  proof (cases "length (c_Outputs (b_Coinbase (pb_Main (blk s1 r)))) = 0")
    case True
    with that obtain outputs bh where c: "CalculateOutputs (e_srt E) (e_K E) (e_U E) (e_ephemeral E) (sc_heap s1) (e_consensus E)
        (e_difficultyByHeight E) (sc_byId s1) r = Inr (outputs, bh)"
      by (auto simp: preOutputs_def bindO_Some_Inr)
    show ?thesis
    proof (cases outputs)
      case (Some outs)
      then show ?thesis
        using that True c by (cases "Outputs_AppendBinary outs []") (auto simp: preOutputs_def Let_def split: error.splits if_splits)
    qed (use that True c in \<open>auto simp: preOutputs_def\<close>)
  qed (use that in \<open>simp add: preOutputs_def\<close>)
  have "sc_byId s2 = sc_byId s1" if "PreProcessBlock E s1 r = retO (e, s2)" for s1 e s2
    using that by (auto simp: PreProcessBlock_def bindO_Inr_iff dest!: t i o split: if_splits)
  then show ?thesis using assms by (auto simp: PreprocessBlock_def split: if_splits option.splits)
qed

lemma powHash_again:
  "fst (PoolBlock_PowHashWithError K hasher f (snd (PoolBlock_PowHashWithError K hasher f b))) = fst (PoolBlock_PowHashWithError K hasher f b)"
  by (auto simp: PoolBlock_PowHashWithError_def split: option.splits sum.splits)

lemma powHash_side:
  "pb_Side (snd (PoolBlock_PowHashWithError K hasher f b)) = pb_Side b"
  by (auto simp: PoolBlock_PowHashWithError_def split: option.splits sum.splits)

text \<open>The PoW hash of a share, through its memo.\<close>

definition powOf :: "env \<Rightarrow> PoolBlock \<Rightarrow> hash result" where
  "powOf E b = fst (PoolBlock_PowHashWithError (e_K E) (e_hasher E) (getSeedByHeight E) b)"

lemma pow_steps:
  "sc_byId (snd (powHash E s r)) = sc_byId s" "sc_byId (snd (higherThanMain E s r)) = sc_byId s"
  "sc_byId (snd (higherThanShare E s r)) = sc_byId s"
  "powOf E (blk (snd (powHash E s r)) r) = powOf E (blk s r)" "powOf E (blk (snd (higherThanMain E s r)) r) = powOf E (blk s r)"
  "pb_Side (blk (snd (powHash E s r)) r) = pb_Side (blk s r)" "pb_Side (blk (snd (higherThanMain E s r)) r) = pb_Side (blk s r)"
  by (auto simp: powHash_def higherThanMain_def higherThanShare_def powOf_def split_beta Let_def blk_modify powHash_again powHash_side
      IsProofHigherThanMainDifficultyWithError_def split: prod.splits sum.splits)

lemma higherThanShare_True:
  "fst (higherThanShare E s r) = Inr True \<Longrightarrow> \<exists>h. powOf E (blk s r) = Inr h \<and> CheckPoW (e_U E) (e_Q E) (sd_Difficulty (pb_Side (blk s r))) h"
  by (auto simp: higherThanShare_def IsProofHigherThanDifficultyWithError_def powOf_def split_beta Let_def split: prod.splits sum.splits)

lemma proofOfWork_ok:
  assumes "proofOfWork E s r = retO (rep, s')"
  shows "sc_byId s' = sc_byId s \<and>
    (rep = None \<longrightarrow> (\<exists>h. powOf E (blk s r) = Inr h \<and> CheckPoW (e_U E) (e_Q E) (sd_Difficulty (pb_Side (blk s r))) h))"
proof -
  obtain main s1 where m: "higherThanMain E s r = (main, s1)" by fastforce
  define s2 where "s2 = (if main = Inr True then call (SubmitBlock (pb_Main (blk s1 r))) s1 else s1)"
  obtain higher s3 where h: "higherThanShare E s2 r = (higher, s3)" by fastforce
  have s2: "sc_byId s2 = sc_byId s" "powOf E (blk s2 r) = powOf E (blk s r)" "pb_Side (blk s2 r) = pb_Side (blk s r)"
    using pow_steps(2,5,7) [of E s r] by (simp_all add: s2_def m)
  have s3: "sc_byId s3 = sc_byId s2" using pow_steps(3) [of E s2 r] by (simp add: h)
  have "asError main = retO main" using assms by (cases main) (auto simp: proofOfWork_def m asError_def split: error.splits)
  then have rest: "bindO (asError higher) (\<lambda>higher. case higher of Inl e \<Rightarrow> retO (Some ([], Some e, True), s3)
      | Inr h \<Rightarrow> if \<not> h then retO (Some ([], Some (Err ''not enough PoW''), True), s3) else retO (None, s3)) = retO (rep, s')"
    using assms by (simp add: proofOfWork_def m h s2_def [symmetric] Let_def)
  have "s' = s3" using rest by (cases higher) (auto simp: asError_def split: error.splits if_splits)
  moreover have "higher = Inr True" if "rep = None" using rest that by (cases higher) (auto simp: asError_def split: error.splits if_splits)
  ultimately show ?thesis using s2 s3 higherThanShare_True [of E s2 r] h by auto
qed

lemma addWithProof_ok:
  assumes "addWithProof E s r = retO (rep, s')" "sc_byId s' \<noteq> sc_byId s"
  shows "\<exists>h. powOf E (blk s r) = Inr h \<and> CheckPoW (e_U E) (e_Q E) (sd_Difficulty (pb_Side (blk s r))) h"
proof -
  obtain pow s1 where p: "powHash E s r = (pow, s1)" by fastforce
  have s1: "sc_byId s1 = sc_byId s" "powOf E (blk s1 r) = powOf E (blk s r)" "pb_Side (blk s1 r) = pb_Side (blk s r)"
    using pow_steps(1,4,6) [of E s r] by (simp_all add: p)
  have err: "sc_byId s2 = sc_byId s1" if "BlockUnsee s1 (blk s1 r) = Inr s2" for s2
    using that by (auto simp: BlockUnsee_def bindR_Inr_iff)
  show ?thesis
  proof (cases pow)
    case (Inl e)
    then show ?thesis
      using assms err s1(1) by (cases e) (auto simp: addWithProof_def p asError_def bindO_Some_Inr)
  next
    case (Inr h)
    then obtain rep1 s2 where w: "proofOfWork E s1 r = retO (rep1, s2)"
      using assms by (auto simp: addWithProof_def p asError_def bindO_Inr_iff)
    note ok = proofOfWork_ok [OF w]
    have "rep1 = None"
    proof (rule ccontr)
      assume "rep1 \<noteq> None"
      then have "s' = s2" using assms(1) Inr w by (auto simp: addWithProof_def p asError_def)
      then show False using ok s1(1) assms(2) by simp
    qed
    then show ?thesis using ok s1 by simp
  qed
qed

lemma knownBlock_same: "knownBlock E s r other = retO (rep, s') \<Longrightarrow> s' = s \<and> rep = ([], None, False)"
  by (auto simp: knownBlock_def bindO_Some_Inr)

text \<open>C8: what a share from outside has passed.  If \<^verbatim>\<open>AddPoolBlockExternal\<close> changes the index, then the share pays at least
  the tail emission, has deterministic keys when its version demands them, could be filled, and
  once filled its outputs have the expected type, its id is the one in its extra data and new, its
  difficulty is at least the minimum and not too low for the window, its main-chain height fits the
  block below it, and its PoW hash reaches its difficulty.\<close>

theorem AddPoolBlockExternal_admits:
  assumes "AddPoolBlockExternal E s r = Some (rep, Some s')" and "sc_byId s' \<noteq> sc_byId s"
  shows "c_TotalReward (b_Coinbase (pb_Main (blk s r))) \<ge> TailEmissionReward \<and>
    (b_MajorVersion (pb_Main (blk s r)) \<ge> HardForkViewTagsVersion \<longrightarrow> isPoolBlockTransactionKeyIsDeterministic E (blk s r)) \<and>
    (\<exists>s1. PreprocessBlock E s r = retO (None, s1) \<and>
      (\<forall>o' \<in> set (c_Outputs (b_Coinbase (pb_Main (blk s1 r)))). o_Type o' = GetTransactionOutputType (blk s1 r)) \<and>
      template_tag (blk s1 r) = templateIdOf E (blk s1 r) \<and> sc_byId s (templateIdOf E (blk s1 r)) = None \<and>
      \<not> Cmp64 (e_U E) (sd_Difficulty (pb_Side (blk s1 r))) (n_MinimumDifficulty (e_consensus E)) < 0 \<and>
      tooLowDifficulty E s1 r = Some False \<and>
      (\<forall>data. e_mainByHash E (b_PreviousId (pb_Main (blk s1 r))) = Some data \<longrightarrow>
         m_Height data + 1 = c_GenHeight (b_Coinbase (pb_Main (blk s1 r)))) \<and>
      (\<exists>h. powOf E (blk s1 r) = Inr h \<and> CheckPoW (e_U E) (e_Q E) (sd_Difficulty (pb_Side (blk s1 r))) h))"
proof -
  from assms(1) have x: "externalBlock E s r = retO (rep, s')"
    by (auto simp: AddPoolBlockExternal_def split: option.splits sum.splits)
  have reward: "\<not> c_TotalReward (b_Coinbase (pb_Main (blk s r))) < TailEmissionReward"
    and keys: "\<not> (b_MajorVersion (pb_Main (blk s r)) \<ge> HardForkViewTagsVersion \<and> \<not> isPoolBlockTransactionKeyIsDeterministic E (blk s r))"
    using x assms(2) by (auto simp: externalBlock_def Let_def split: if_splits)
  then obtain e s1 where p: "PreprocessBlock E s r = retO (e, s1)"
    and rest: "(case e of Some (missing, e) \<Rightarrow> retO ((missing, Some e, True), s1) | None \<Rightarrow> externalChecks E s1 r) = retO (rep, s')"
    using x by (auto simp: externalBlock_def Let_def bindO_Inr_iff)
  have s1: "sc_byId s1 = sc_byId s" by (rule PreprocessBlock_index [OF p])
  have e: "e = None" using rest assms(2) s1 by (cases e) auto
  with rest have c: "externalChecks E s1 r = retO (rep, s')" by simp
  have ch: "\<not> (sc_byId s' = sc_byId s1)" using assms(2) s1 by simp
  have types: "\<not> (\<exists>o' \<in> set (c_Outputs (b_Coinbase (pb_Main (blk s1 r)))). o_Type o' \<noteq> GetTransactionOutputType (blk s1 r))"
    and tid: "template_tag (blk s1 r) = templateIdOf E (blk s1 r)"
    and minDiff: "\<not> Cmp64 (e_U E) (sd_Difficulty (pb_Side (blk s1 r))) (n_MinimumDifficulty (e_consensus E)) < 0"
    using c ch by (auto simp: externalChecks_def Let_def split: if_splits)
  have new: "sc_byId s1 (template_tag (blk s1 r)) = None"
  proof (rule ccontr)
    assume "\<not> ?thesis"
    then obtain other where "sc_byId s1 (template_tag (blk s1 r)) = Some other" by blast
    then have "knownBlock E s1 r other = retO (rep, s')" using c types tid minDiff by (simp add: externalChecks_def Let_def)
    then show False using knownBlock_same ch by blast
  qed
  have low: "tooLowDifficulty E s1 r = Some False"
    using c ch types tid minDiff new by (auto simp: externalChecks_def Let_def split: option.splits bool.splits)
  have main: "\<not> (\<exists>data. e_mainByHash E (b_PreviousId (pb_Main (blk s1 r))) = Some data \<and>
      m_Height data + 1 \<noteq> c_GenHeight (b_Coinbase (pb_Main (blk s1 r))))"
    using c ch types tid minDiff new low by (auto simp: externalChecks_def Let_def split: if_splits)
  then have "addWithProof E s1 r = retO (rep, s')"
    using c types tid minDiff new low by (auto simp: externalChecks_def Let_def split: if_splits)
  then show ?thesis
    using addWithProof_ok [OF _ ch] reward keys p e types tid minDiff new low main s1 by (auto simp: not_less)
qed

subsection \<open>A first share from outside\<close>

definition ext_share :: PoolBlock where
  "ext_share = example_share\<lparr>pb_Side := example_side\<lparr>sd_Height := 0, sd_Parent := 0, sd_Uncles := [], sd_CoinbasePrivateKey := 2\<rparr>,
     pb_Verified := True, pb_templateId := Some (le_word (replicate 32 9)), pb_powHash := Some (2 ^ 200)\<rparr>"

definition ext_env :: env where
  "ext_env = ex_env\<lparr>e_getKey := (\<lambda>_ _. (2, le_word (replicate 32 7)))\<rparr>"

definition ext_state :: SideChain where
  "ext_state = NewSideChain ext_env (\<lambda>_. ext_share)"

lemma modify_same: "f (blk s r) = blk s r \<Longrightarrow> modify r f s = s"
  by (simp add: modify_def blk_def)

lemma ext_env_simps: "e_consensus ext_env = ConsensusDefault" "e_U ext_env = uint128_ref" "e_Q ext_env = uint256_ref"
  "e_getKey ext_env x y = (2, le_word (replicate 32 7))" "e_difficultyByHeight ext_env h = Difficulty 1000000 0"
  "e_mainByHash ext_env i = None"
  by (simp_all add: ext_env_def ex_env_def)

lemma ext_share_simps:
  "sd_Height (pb_Side ext_share) = 0" "sd_Parent (pb_Side ext_share) = 0" "sd_Uncles (pb_Side ext_share) = []"
  "sd_CoinbasePrivateKey (pb_Side ext_share) = 2" "sd_Difficulty (pb_Side ext_share) = Difficulty 400000 0"
  "pb_Main ext_share = example_block" "pb_Verified ext_share" "\<not> pb_Invalid ext_share" "pb_Depth ext_share = 0"
  "pb_iterationCache ext_share = None" "pb_powHash ext_share = Some (2 ^ 200)" "templateIdOf E ext_share = le_word (replicate 32 9)"
  "pb_WantBroadcast ext_share = False"
  by (simp_all add: ext_share_def example_share_def example_side_def zeroPoolBlock_def templateIdOf_def SideTemplateId_def)

lemma ext_state_simps: "blk ext_state r = ext_share" "sc_byId ext_state i = None" "sc_chainTip ext_state = None"
  "sc_difficulty ext_state = Difficulty 100000 0" "sc_byHeight ext_state h = None" "sc_keys ext_state = []" "sc_keysSorted ext_state = False"
  "sc_watchId ext_state = ZeroHash" "sc_heap ext_state r = ext_share"
  by (simp_all add: ext_state_def NewSideChain_def blk_def ext_env_simps ConsensusDefault_def DifficultyFrom64_def NewDifficulty_def)

lemma ext_extra:
  "CoinbaseExtra ext_share TxExtraTagPubKey = Some (replicate 32 7)" "template_tag ext_share = le_word (replicate 32 9)"
  by (simp_all add: template_tag_def CoinbaseExtra_def ext_share_simps example_block_def example_coinbase_def example_tags_def
      GetTag_def extra_consts HashFromBytes_def)

lemma ext_preprocess: "PreprocessBlock ext_env ext_state r = retO (None, ext_state)"
proof -
  have out: "length (c_Outputs (b_Coinbase (pb_Main ext_share))) \<noteq> 0"
    "\<not> NeedsCompactTransactionFilling ext_share"
    by (simp_all add: ext_share_simps example_block_def example_coinbase_def NeedsCompactTransactionFilling_def)
  have "getTemplateByIdFillingTx ext_state 0 = retO (None, ext_state)"
    by (simp add: getTemplateByIdFillingTx_def fillWalk.simps ext_state_simps)
  then have "preIndices ext_state r None = retO ext_state"
    by (simp add: preIndices_def ext_state_simps ext_share_simps FillTransactionParentIndices_def modify_same)
  then show ?thesis
    using out by (simp add: PreprocessBlock_def PreProcessBlock_def preTransactions_def preOutputs_def ext_state_simps)
qed

lemma ext_proof:
  assumes "blk s r = ext_share"
  shows "powHash ext_env s r = (Inr (2 ^ 200), s)" "higherThanMain ext_env s r = (Inr True, s)" "higherThanShare ext_env s r = (Inr True, s)"
proof -
  have "unat (2 ^ 200 :: hash) = 2 ^ 200" by (intro unat_exp) simp
  moreover have "(2 ^ 200 :: hash) \<noteq> 0" by simp
  ultimately have "val (DifficultyFromPoW uint128_ref uint256_ref (2 ^ 200)) = 2 ^ 56 - 1"
    using val_DifficultyFromPoW [OF uint128_ref_ok uint256_ref_ok, of "2 ^ 200"] by (simp only:) simp
  then have c: "CheckPoW uint128_ref uint256_ref d (2 ^ 200)" if "val d < 2 ^ 56" for d
    using that by (simp only: CheckPoW_def Cmp_iffs less_eq_Difficulty_def)
  have "PoolBlock_PowHashWithError K hasher f ext_share = (Inr (2 ^ 200), ext_share)" for K hasher f
    by (simp add: PoolBlock_PowHashWithError_def ext_share_simps)
  then show "powHash ext_env s r = (Inr (2 ^ 200), s)" "higherThanMain ext_env s r = (Inr True, s)" "higherThanShare ext_env s r = (Inr True, s)"
    using assms c [of "Difficulty 1000000 0"] c [of "Difficulty 400000 0"]
    by (simp_all add: powHash_def higherThanMain_def higherThanShare_def IsProofHigherThanMainDifficultyWithError_def
        IsProofHigherThanDifficultyWithError_def modify_same ext_env_simps ext_share_simps Block_Difficulty_def ZeroDifficulty_def val_def Let_def)
qed

lemma ext_encodes: "\<exists>buf. PoolBlock_AppendBinaryFlags ext_share [] False False = Inr buf"
proof -
  have ok: "poolblock_ok ConsensusDefault ext_share"
    using example_share_ok by (simp add: poolblock_ok_def ext_share_def example_share_def CalculateShareVersion_def)
  have "PoolBlock_BufferLength ext_share \<le> PoolBlockMaxTemplateSize"
    by (simp add: PoolBlock_BufferLength_def Block_BufferLength_def SideData_BufferLength_def ext_share_def example_share_def
        example_side_def example_block_def example_coinbase_def example_output_def example_tags_def
        Coinbase_BufferLength_def Outputs_BufferLength.simps ExtraTag_BufferLength_def
        UVarInt64Size_def VarIntLen_def PoolBlockMaxTemplateSize_def zeroSideData_def)
  then have "length (poolblock_enc False False ext_share) \<le> PoolBlockMaxTemplateSize"
    using PoolBlock_BufferLength_ge [OF ok] by linarith
  then show ?thesis using PoolBlock_AppendBinaryFlags_eq [OF ok] by blast
qed

text \<open>The share in the index, before and after it has become the tip.\<close>

definition ext_submitted :: "mainRef option \<Rightarrow> hash \<Rightarrow> SideChain" where
  "ext_submitted w i = WatchMainChainBlock (call (SubmitBlock example_block) ext_state) w i"

lemma ext_submitted_none: "ext_submitted None ZeroHash = call (SubmitBlock example_block) ext_state"
  by (simp add: ext_submitted_def WatchMainChainBlock_def ext_state_def NewSideChain_def call_def)

lemma ext_submitted_simps:
  "blk (ext_submitted w i) r = ext_share" "sc_byId (ext_submitted w i) j = None" "sc_byHeight (ext_submitted w i) h = None"
  "sc_chainTip (ext_submitted w i) = None" "sc_watchId (ext_submitted w i) = i" "sc_watchBlock (ext_submitted w i) = w"
  by (simp_all add: ext_submitted_def WatchMainChainBlock_def ext_state_simps blk_def call_def)

definition ext_indexed :: "mainRef option \<Rightarrow> hash \<Rightarrow> SideChain" where
  "ext_indexed w i = indexBlock ext_env (ext_submitted w i) 0"

lemma ext_indexed_simps:
  "blk (ext_indexed w i) r = ext_share" "sc_heap (ext_indexed w i) r = ext_share" "sc_byId (ext_indexed w i) = [le_word (replicate 32 9) \<mapsto> 0]"
  "sc_byHeight (ext_indexed w i) = [0 \<mapsto> [0]]" "sc_chainTip (ext_indexed w i) = None"
proof -
  show b: "blk (ext_indexed w i) r = ext_share" for r by (simp add: ext_indexed_def ext_submitted_simps)
  show "sc_heap (ext_indexed w i) r = ext_share" using b [of r] by (simp add: blk_def)
qed (simp_all add: ext_indexed_def indexBlock_fields ext_submitted_simps ext_share_simps getPoolBlocksByHeight_def fun_eq_iff)

lemma ext_depths: "updateDepths ext_env (ext_indexed w i) 0 = retO (ext_indexed w i)"
proof -
  have z: "(le_word (replicate 32 9) :: hash) \<noteq> 0"
  proof
    assume "(le_word (replicate 32 9) :: hash) = 0"
    then have "\<not> bit (le_word (replicate 32 (9 :: byte)) :: hash) 0" by simp
    then show False by (simp add: bit_le_word)
  qed
  have above: "above (ext_indexed w i) 0 = []"
    by (simp add: above_def ext_indexed_simps ext_share_simps getPoolBlocksByHeight_def upt_rec)
  have parent: "getParent (ext_indexed w i) 0 = None"
    using z by (simp add: getParent_def iteratorGetParent_def ext_indexed_simps ext_share_simps)
  have "depthRound ext_env (ext_indexed w i) 0 0 = (False, [], (ext_indexed w i))"
    by (simp add: depthRound_def above depthToParent_def parent iteratorUncles_def ext_indexed_simps ext_share_simps)
  then show ?thesis
    by (simp add: updateDepths_def above depthStack.simps [of _ "[0]"] depthStack.simps [of _ "[]"] ext_indexed_simps ext_share_simps)
qed

lemma ext_tip: "\<exists>s'. updateChainTip ext_env (ext_indexed w i) 0 = retO s' \<and> sc_byId s' = sc_byId (ext_indexed w i) \<and> \<not> pb_Invalid (blk s' 0)"
proof -
  have g: "gatherLoop (sc_heap (ext_indexed w i)) ConsensusDefault (sc_byId (ext_indexed w i)) (sc_heap (ext_indexed w i) 0) 0 0 [] = Inr [blockData ext_share]"
    by (subst gatherLoop.simps) (simp add: iteratorUncles_def ext_indexed_simps ext_share_simps)
  have "\<exists>d. GetDifficultyForNextBlock uint128_ref (sc_heap (ext_indexed w i)) ConsensusDefault (sc_byId (ext_indexed w i)) 0 = Some (d, None, None) \<and>
      unat (n_MinimumDifficulty ConsensusDefault) \<le> val d"
  proof (rule next_difficulty_ok)
    have "uncles_known (sc_byId (ext_indexed w i)) (sc_heap (ext_indexed w i) 0)" by (simp add: uncles_known_def ext_indexed_simps ext_share_simps)
    then show "known_window (sc_heap (ext_indexed w i)) (sc_byId (ext_indexed w i)) (window_depth ConsensusDefault) 0"
      by (rule known_window_genesis) (simp add: ext_indexed_simps ext_share_simps)
    show "n_TargetBlockTime ConsensusDefault \<le> 120" by (simp add: ConsensusDefault_def)
  qed (simp_all add: g blockData_def ext_share_def example_share_def example_side_def example_block_def val_def)
  then obtain d where d: "getDifficulty ext_env (ext_indexed w i) 0 = Some (d, None, None)" "100000 \<le> val d"
    by (auto simp: getDifficulty_def ext_env_simps ConsensusDefault_def)
  then have nz: "d \<noteq> ZeroDifficulty" by (auto simp: ZeroDifficulty_def)
  have l: "isLongerChain ext_env (ext_indexed w i) None (Some 0) = Some (True, True)"
    by (simp add: isLongerChain_def IsLongerChain_def ext_indexed_simps ext_share_simps)
  define t where "t = (call (UpdateTip 0) (modify 0 (\<lambda>b. b\<lparr>pb_WantBroadcast := True\<rparr>)
      ((ext_indexed w i)\<lparr>sc_chainTip := Some 0, sc_syncTip := Some 0, sc_difficulty := d\<rparr>)))\<lparr>sc_precalcFinished := True\<rparr>"
  have t: "blk t 0 = ext_share\<lparr>pb_WantBroadcast := True\<rparr>" "sc_chainTip t = Some 0" "sc_byId t = sc_byId (ext_indexed w i)"
    by (simp_all add: t_def blk_modify ext_indexed_simps)
  then have "pruneOldBlocks ext_env t = Inr t"
    by (simp add: pruneOldBlocks_def pruneDistance_def ext_env_simps ConsensusDefault_def BlockTime_def ext_share_simps)
  then have m: "moveTip ext_env (ext_indexed w i) 0 True = retO t" using nz by (simp add: moveTip_def d(1) Let_def t_def)
  have w: "sc_byId (snd (wantsBroadcast 0 t)) = sc_byId t" "\<not> pb_Invalid (blk (snd (wantsBroadcast 0 t)) 0)"
    by (auto simp: wantsBroadcast_def blk_modify t ext_share_simps)
  have "ext_env = ext_env \<and> pb_Depth ext_share < n_ChainWindowSize (e_consensus ext_env)"
    by (simp add: ext_share_simps ext_env_simps ConsensusDefault_def)
  then show ?thesis
    using m l w t(3) by (simp add: updateChainTip_def split_beta Let_def ext_indexed_simps ext_share_simps not_le [symmetric])
qed

lemma ext_added: "\<exists>err s'. AddPoolBlock ext_env (ext_submitted w i) 0 = retO (err, s') \<and> sc_byId s' (le_word (replicate 32 9)) = Some 0"
proof -
  obtain s1 where s1: "updateChainTip ext_env (ext_indexed w i) 0 = retO s1" "sc_byId s1 = sc_byId (ext_indexed w i)" using ext_tip by blast
  obtain buf where "PoolBlock_AppendBinaryFlags ext_share [] False False = Inr buf" using ext_encodes by blast
  moreover have sub: "blk (ext_submitted w i) 0 = ext_share" "sc_byId (ext_submitted w i) (le_word (replicate 32 9)) = None"
    by (simp_all add: ext_submitted_simps)
  ultimately have "AddPoolBlock ext_env (ext_submitted w i) 0 =
      retO (None, if \<not> pb_Invalid (blk s1 0) \<and> pb_Depth (blk s1 0) = 0 then s1\<lparr>sc_syncTip := Some 0\<rparr> else s1)"
    using s1 ext_depths sub
    by (simp add: AddPoolBlock_def ext_indexed_def [symmetric] ext_indexed_simps ext_share_simps)
  then show ?thesis using s1(2) by (simp add: ext_indexed_simps)
qed

lemma ext_id_nonzero: "(le_word (replicate 32 (9 :: byte)) :: hash) \<noteq> 0"
proof
  assume "(le_word (replicate 32 9) :: hash) = 0"
  then have "\<not> bit (le_word (replicate 32 (9 :: byte)) :: hash) 0" by simp
  then show False by (simp add: bit_le_word)
qed

lemma ext_good: "good ext_env {0} ext_state"
proof -
  have "linked ext_env {0} ext_state"
    unfolding linked_def by (intro exI [of _ "\<lambda>i. if i = 0 then 0 else 1"]) (simp add: ext_state_simps ext_share_simps ext_id_nonzero)
  then show ?thesis unfolding ext_state_def by (intro new_good) (simp_all add: ext_env_simps ext_share_simps)
qed

theorem AddPoolBlock_ok_witness:
  "\<exists>err s'. AddPoolBlock ext_env (ext_submitted None ZeroHash) 0 = retO (err, s') \<and> chain_inv ext_env {0} s' \<and>
    sc_byId s' = [le_word (replicate 32 9) \<mapsto> 0] \<and> pb_Side (blk s' 0) = pb_Side ext_share"
proof -
  let ?i = "le_word (replicate 32 9) :: hash"
  obtain err s' where a: "AddPoolBlock ext_env (ext_submitted None ZeroHash) 0 = retO (err, s')" "sc_byId s' ?i = Some 0" using ext_added by blast
  obtain buf where "PoolBlock_AppendBinaryFlags ext_share [] False False = Inr buf" using ext_encodes by blast
  moreover have sub: "blk (ext_submitted None ZeroHash) x = ext_share" "sc_byId (ext_submitted None ZeroHash) i = None" for x i
    by (simp_all add: ext_submitted_simps)
  moreover have "good ext_env {0} (ext_submitted None ZeroHash)"
    unfolding ext_submitted_none by (rule evolves_good [OF ext_good evolves_call])
  ultimately have ok: "chain_inv ext_env {0} s'" "keeps ext_env ext_share (blk s' 0)"
    "\<And>i. sc_byId s' i = ((sc_byId (ext_submitted None ZeroHash))(?i \<mapsto> 0)) i \<or> sc_byId s' i = None"
    using AddPoolBlock_ok [of ext_env "{0}" "ext_submitted None ZeroHash" 0] a(1) by (auto simp: ext_share_simps simp del: fun_upd_apply)
  have "sc_byId s' i = [?i \<mapsto> 0] i" for i using ok(3) [of i] a(2) sub by (cases "i = ?i") auto
  then show ?thesis using a(1) ok(1,2) by (auto simp: keeps_def)
qed

theorem AddPoolBlockExternal_admits_witness:
  "\<exists>rep s'. AddPoolBlockExternal ext_env ext_state 0 = Some (rep, Some s') \<and> sc_byId s' \<noteq> sc_byId ext_state \<and>
    (\<exists>h. powOf ext_env ext_share = Inr h \<and> CheckPoW uint128_ref uint256_ref (Difficulty 400000 0) h)"
proof -
  obtain err s' where a: "AddPoolBlock ext_env (ext_submitted None ZeroHash) 0 = retO (err, s')" "sc_byId s' (le_word (replicate 32 9)) = Some 0"
    using ext_added by blast
  have sub: "blk (ext_submitted None ZeroHash) 0 = ext_share" by (simp add: ext_submitted_simps)
  have "proofOfWork ext_env ext_state 0 = retO (None, (ext_submitted None ZeroHash))"
    using ext_proof [of ext_state 0] ext_proof(3) [OF sub]
    by (simp add: proofOfWork_def ext_state_simps ext_share_simps asError_def ext_submitted_none Let_def)
  then obtain rep where w: "addWithProof ext_env ext_state 0 = retO (rep, s')"
    using a(1) ext_proof(1) [of ext_state 0] by (simp add: addWithProof_def ext_state_simps asError_def)
  have keys: "isPoolBlockTransactionKeyIsDeterministic ext_env ext_share"
    using le_bytes_le_word [of "replicate 32 7", where ?'a = 256]
    by (simp add: isPoolBlockTransactionKeyIsDeterministic_def ext_env_simps ext_extra ext_share_simps)
  have "tooLowDifficulty ext_env ext_state 0 = Some False"
    by (simp add: tooLowDifficulty_def ext_state_simps ext_share_simps less_Difficulty_def val_def)
  moreover have "\<not> Cmp64 uint128_ref (Difficulty 400000 0) 100000 < 0" by (simp add: Cmp64_def uint128_ref_def val_def)
  ultimately have "externalChecks ext_env ext_state 0 = retO (rep, s')"
    using w by (simp add: externalChecks_def ext_state_simps ext_extra ext_share_simps ext_env_simps ConsensusDefault_def Let_def)
      (simp add: example_block_def example_coinbase_def example_output_def GetTransactionOutputType_def ext_share_simps HardForkViewTagsVersion_def TxOutToTaggedKey_def)
  then have x: "AddPoolBlockExternal ext_env ext_state 0 = Some (rep, Some s')"
    using keys ext_preprocess [of 0]
    by (simp add: AddPoolBlockExternal_def externalBlock_def ext_state_simps ext_share_simps Let_def)
      (simp add: example_block_def example_coinbase_def TailEmissionReward_def)
  moreover have new: "sc_byId s' \<noteq> sc_byId ext_state" using a(2) by (metis ext_state_simps(2) option.distinct(1))
  moreover have "\<exists>h. powOf ext_env ext_share = Inr h \<and> CheckPoW uint128_ref uint256_ref (Difficulty 400000 0) h"
    using AddPoolBlockExternal_admits [OF x new] ext_preprocess [of 0] by (auto simp: ext_state_simps ext_share_simps ext_env_simps)
  ultimately show ?thesis by blast
qed

section \<open>Uncles offered and uncles accepted\<close>

lemma filterO_total: "(\<And>x. x \<in> set xs \<Longrightarrow> \<exists>b. p x = Some b) \<Longrightarrow> filterO p xs = Some [x \<leftarrow> xs. p x = Some True]"
proof (induction xs)
  case (Cons x xs)
  obtain b where "p x = Some b" using Cons.prems [of x] by auto
  then show ?case using Cons by (cases b) auto
qed simp

lemma minedLoop_stops: "minedLoop E s n None acc = acc"
  by (cases n) auto

text \<open>Below the genesis share there is nothing to mine.\<close>

lemma minedLoop_enough:
  assumes "chain_heights (sc_heap s) (sc_byId s)" "unat (sd_Height (pb_Side (blk s r))) + 1 \<le> n" "n \<le> m"
  shows "minedLoop E s m (Some r) acc = minedLoop E s n (Some r) acc"
  using assms(2,3)
proof (induction n arbitrary: m r acc)
  case (Suc n)
  then obtain m' where m: "m = Suc m'" "n \<le> m'" by (cases m) auto
  show ?case
  proof (cases "getParent s r")
    case None
    then show ?thesis by (simp add: m minedLoop_stops)
  next
    case (Some p)
    then have "unat (sd_Height (pb_Side (blk s r))) = unat (sd_Height (pb_Side (blk s p))) + 1"
      using assms(1) by (simp add: chain_heights_def getParent_def blk_def)
    then have "unat (sd_Height (pb_Side (blk s p))) + 1 \<le> n" using Suc.prems(1) by simp
    from Suc.IH [OF this m(2)] show ?thesis by (simp add: m(1) Some)
  qed
qed simp

lemma mined_same:
  assumes "chain_heights (sc_heap s) (sc_byId s)" "unat (sd_Height (pb_Side (blk s tip))) + 3 < 2 ^ 64"
  shows "minedLoop E s (unat (min UncleBlockDepth (sd_Height (pb_Side (blk s tip)) + 1 + 1))) (Some tip) [] =
    minedLoop E s (unat (min UncleBlockDepth (sd_Height (pb_Side (blk s tip)) + 1))) (Some tip) []"
proof -
  let ?h = "sd_Height (pb_Side (blk s tip))"
  have u: "unat (?h + 1) = unat ?h + 1" "unat (?h + 1 + 1) = unat ?h + 2" using assms(2) by (simp_all add: unat_word_ariths)
  have n: "unat (min UncleBlockDepth (?h + 1)) = min 3 (unat ?h + 1)" "unat (min UncleBlockDepth (?h + 1 + 1)) = min 3 (unat ?h + 2)"
    using u by (simp_all add: min_def word_le_nat_alt UncleBlockDepth_def)
  show ?thesis
  proof (cases "unat ?h + 1 \<le> 3")
    case True
    show ?thesis unfolding n by (rule minedLoop_enough [OF assms(1)]) (use True in simp_all)
  next
    case False
    then have "min 3 (unat ?h + 2) = min 3 (unat ?h + 1)" by simp
    then show ?thesis unfolding n by (rule arg_cong)
  qed
qed

text \<open>The candidates lie at most two below the tip, each once.\<close>

definition candidates :: "SideChain \<Rightarrow> ref \<Rightarrow> ref list" where
  "candidates s tip = concat (map (\<lambda>i. getPoolBlocksByHeight s (sd_Height (pb_Side (blk s tip)) - of_nat i))
     [0..<unat (min UncleBlockDepth (sd_Height (pb_Side (blk s tip)) + 1))])"

lemma indexed_at:
  assumes "index_inv E s" "u \<in> set (getPoolBlocksByHeight s h)"
  shows "sd_Height (pb_Side (blk s u)) = h" "sc_byId s (templateIdOf E (blk s u)) = Some u"
proof -
  obtain l where "sc_byHeight s h = Some l" "u \<in> set l" using assms(2) by (cases "sc_byHeight s h") (auto simp: getPoolBlocksByHeight_def)
  then show "sd_Height (pb_Side (blk s u)) = h" "sc_byId s (templateIdOf E (blk s u)) = Some u"
    using assms(1) unfolding index_inv_def by blast+
qed

lemma distinct_height: "index_inv E s \<Longrightarrow> distinct (getPoolBlocksByHeight s h)"
  by (cases "sc_byHeight s h") (auto simp: index_inv_def getPoolBlocksByHeight_def)

lemma candidates_props:
  assumes "index_inv E s" "unat (sd_Height (pb_Side (blk s tip))) + 3 < 2 ^ 64"
  shows "u \<in> set (candidates s tip) \<Longrightarrow> sc_byId s (templateIdOf E (blk s u)) = Some u \<and>
      unat (sd_Height (pb_Side (blk s u))) \<le> unat (sd_Height (pb_Side (blk s tip))) \<and>
      unat (sd_Height (pb_Side (blk s tip))) \<le> unat (sd_Height (pb_Side (blk s u))) + 2"
    and "distinct (candidates s tip)"
proof -
  let ?h = "sd_Height (pb_Side (blk s tip))"
  have "unat (?h + 1) = unat ?h + 1" using assms(2) by (simp add: unat_word_ariths)
  then have n: "unat (min UncleBlockDepth (?h + 1)) = min 3 (unat ?h + 1)"
    by (simp add: min_def word_le_nat_alt UncleBlockDepth_def)
  have sub: "unat (?h - of_nat i) = unat ?h - i" if "i < min 3 (unat ?h + 1)" for i
  proof -
    have i: "unat (of_nat i :: u64) = i" using that by (simp add: unat_of_nat)
    then have "(of_nat i :: u64) \<le> ?h" using that by (simp add: word_le_nat_alt)
    then show ?thesis using unat_sub i by metis
  qed
  show "sc_byId s (templateIdOf E (blk s u)) = Some u \<and> unat (sd_Height (pb_Side (blk s u))) \<le> unat ?h \<and>
      unat ?h \<le> unat (sd_Height (pb_Side (blk s u))) + 2" if u: "u \<in> set (candidates s tip)"
  proof -
    obtain i where "i \<in> {0..<min 3 (unat ?h + 1)}" and i2: "u \<in> set (getPoolBlocksByHeight s (?h - of_nat i))"
      using u unfolding candidates_def n set_concat set_map set_upt by blast
    then have i: "i < min 3 (unat ?h + 1)" "u \<in> set (getPoolBlocksByHeight s (?h - of_nat i))" by simp_all
    then show ?thesis using indexed_at [OF assms(1) i(2)] sub [OF i(1)] by auto
  qed
  have "distinct (concat (map (\<lambda>i. getPoolBlocksByHeight s (?h - of_nat i)) [0..<k]))" if "k \<le> min 3 (unat ?h + 1)" for k
    using that
  proof (induction k)
    case (Suc k)
    have "set (getPoolBlocksByHeight s (?h - of_nat k)) \<inter> set (getPoolBlocksByHeight s (?h - of_nat i)) = {}" if "i < k" for i
    proof (rule ccontr)
      assume "\<not> ?thesis"
      then obtain x where "x \<in> set (getPoolBlocksByHeight s (?h - of_nat k))" "x \<in> set (getPoolBlocksByHeight s (?h - of_nat i))" by blast
      then have "unat (?h - of_nat k) = unat (?h - of_nat i)" using indexed_at(1) [OF assms(1)] by metis
      moreover have k: "k < min 3 (unat ?h + 1)" using Suc.prems by (simp only: Suc_le_eq)
      ultimately have "unat ?h - k = unat ?h - i" using sub [of k] sub [of i] that by simp
      then show False using k that by linarith
    qed
    then show ?case using Suc distinct_height [OF assms(1)] by (auto simp: disjoint_iff)
  qed simp
  then show "distinct (candidates s tip)" unfolding candidates_def n by blast
qed

lemma possibleUncle_total:
  assumes "good E S s" "tip \<in> S"
  shows "\<exists>b. possibleUncle E s tip h mined u = Some b"
proof -
  obtain rk where rk: "ranked rk S (sc_heap s) (sc_byId s)" using good_ranked [OF assms(1)] by blast
  obtain b where "walkDown (sc_heap s) (sc_byId s) (sd_Height (pb_Side (blk s u))) (Some tip) = Some b"
    using walkDown_ranked [OF rk, of "Some tip" "sd_Height (pb_Side (blk s u))"] assms(2) by auto
  then show ?thesis by (simp add: possibleUncle_def) blast
qed

lemma possibleUncle_checked:
  assumes "possibleUncle E s tip (sd_Height (pb_Side block)) mined u = Some True"
    and "sc_byId s (templateIdOf E (blk s u)) = Some u" "templateIdOf E (blk s u) \<noteq> ZeroHash"
    and "sd_Height (pb_Side (blk s u)) < sd_Height (pb_Side block)"
    and "sd_Height (pb_Side block) \<le> sd_Height (pb_Side (blk s u)) + UncleBlockDepth"
  shows "\<exists>d'. checkUncle E s block tip mined d (templateIdOf E (blk s u)) = Some (Inr d')"
proof -
  have v: "pb_Verified (blk s u)" "\<not> pb_Invalid (blk s u)" "templateIdOf E (blk s u) \<notin> set mined"
    using assms(1) by (auto simp: possibleUncle_def split: if_splits)
  then obtain t where w: "walkDown (sc_heap s) (sc_byId s) (sd_Height (pb_Side (blk s u))) (Some tip) = Some (Some t)"
    and t: "\<not> sd_Height (pb_Side (blk s t)) < sd_Height (pb_Side (blk s u))"
      "sameAncestor s (sd_Height (pb_Side block)) (unat UncleBlockDepth) (Some t) (Some u)"
    using assms(1) by (auto simp: possibleUncle_def Option.bind_eq_Some_conv split: option.splits)
  moreover have "\<not> sd_Height (pb_Side (blk s u)) \<ge> sd_Height (pb_Side block)"
    "\<not> sd_Height (pb_Side (blk s u)) + UncleBlockDepth < sd_Height (pb_Side block)"
    using assms(4,5) by (simp_all add: not_le not_less)
  ultimately show ?thesis
    using assms(2,3) v by (simp add: checkUncle_def Let_def)
qed

lemma checkUncles_all:
  "(\<And>d i. i \<in> set ids \<Longrightarrow> \<exists>d'. checkUncle E s block p mined d i = Some (Inr d')) \<Longrightarrow> \<exists>d'. checkUncles E s block p mined d ids = Some (Inr d')"
proof (induction ids arbitrary: d)
  case (Cons i ids)
  obtain d1 where "checkUncle E s block p mined d i = Some (Inr d1)" using Cons.prems [of i] by auto
  then show ?case using Cons.IH [of d1] Cons.prems by simp
qed simp

text \<open>C12: uncles that are offered are accepted.  If the chain is sound and parents are one below their children, the
  uncles \<^verbatim>\<open>GetPossibleUncles\<close> offers for a share on top of \<open>tip\<close> are in the order \<^verbatim>\<open>verifyBlock\<close> demands, and
  none of its checks on uncles rejects them.\<close>

theorem GetPossibleUncles_accepted:
  assumes "good E S s" and "tip \<in> S" and "chain_heights (sc_heap s) (sc_byId s)" and "sc_byId s ZeroHash = None"
    and "unat (sd_Height (pb_Side (blk s tip))) + 3 < 2 ^ 64"
    and "sd_Height (pb_Side block) = sd_Height (pb_Side (blk s tip)) + 1"
  shows "\<exists>ids d'. GetPossibleUncles E s tip (sd_Height (pb_Side block)) = Some ids \<and> uncleOrder ids \<and>
    checkUncles E s block tip (minedLoop E s (unat (min UncleBlockDepth (sd_Height (pb_Side block) + 1))) (Some tip) []) d ids = Some (Inr d')"
proof -
  let ?h = "sd_Height (pb_Side (blk s tip))" and ?hb = "sd_Height (pb_Side block)"
  define mined where "mined = minedLoop E s (unat (min UncleBlockDepth (?h + 1))) (Some tip) []"
  have mined': "minedLoop E s (unat (min UncleBlockDepth (?hb + 1))) (Some tip) [] = mined"
    unfolding mined_def assms(6) by (rule mined_same [OF assms(3,5)])
  have ix: "index_inv E s" using assms(1) by (simp add: good_def chain_inv_def)
  note c = candidates_props [OF ix assms(5)]
  define us where "us = [u \<leftarrow> candidates s tip. possibleUncle E s tip ?hb mined u = Some True]"
  have "filterO (possibleUncle E s tip ?hb mined) (candidates s tip) = Some us"
    unfolding us_def by (rule filterO_total) (rule possibleUncle_total [OF assms(1,2)])
  then have g: "GetPossibleUncles E s tip ?hb = Some (sort (map (\<lambda>u. templateIdOf E (blk s u)) us))"
    unfolding GetPossibleUncles_def Let_def candidates_def [symmetric] mined_def [symmetric] by simp
  have hb: "unat ?hb = unat ?h + 1" using assms(5,6) by (simp add: unat_word_ariths)
  have u: "\<exists>d'. checkUncle E s block tip mined d (templateIdOf E (blk s u)) = Some (Inr d')" if "u \<in> set us" for d u
  proof (rule possibleUncle_checked)
    show "possibleUncle E s tip ?hb mined u = Some True" using that by (simp add: us_def)
    have cu: "sc_byId s (templateIdOf E (blk s u)) = Some u" "unat (sd_Height (pb_Side (blk s u))) \<le> unat ?h"
      "unat ?h \<le> unat (sd_Height (pb_Side (blk s u))) + 2" using c(1) [of u] that by (auto simp: us_def)
    show "sc_byId s (templateIdOf E (blk s u)) = Some u" by (rule cu(1))
    show "templateIdOf E (blk s u) \<noteq> ZeroHash" using cu(1) assms(4) by auto
    show "sd_Height (pb_Side (blk s u)) < ?hb" using cu(2) hb by (simp add: word_less_nat_alt)
    have "unat (sd_Height (pb_Side (blk s u)) + UncleBlockDepth) = unat (sd_Height (pb_Side (blk s u))) + 3"
      using cu(2) assms(5) by (simp add: unat_word_ariths UncleBlockDepth_def)
    then show "?hb \<le> sd_Height (pb_Side (blk s u)) + UncleBlockDepth" using cu(3) hb by (simp add: word_le_nat_alt)
  qed
  have "inj_on (\<lambda>u. templateIdOf E (blk s u)) (set us)"
    using c(1) by (intro inj_onI) (metis us_def filter_is_subset option.inject subsetD)
  then have "distinct (map (\<lambda>u. templateIdOf E (blk s u)) us)" using c(2) by (simp add: distinct_map us_def)
  then have "uncleOrder (sort (map (\<lambda>u. templateIdOf E (blk s u)) us))"
    by (simp add: uncleOrder_sorted strict_sorted_iff)
  moreover have "\<exists>d'. checkUncles E s block tip mined d (sort (map (\<lambda>u. templateIdOf E (blk s u)) us)) = Some (Inr d')"
    by (rule checkUncles_all) (use u in auto)
  ultimately show ?thesis unfolding mined' using g by blast
qed

text \<open>Two shares on the genesis share; the second may become an uncle.\<close>

definition fork_state :: SideChain where
  "fork_state = (NewSideChain ex_env (\<lambda>r. if r = 1 then node 1 else if r = 2 then (node 1)\<lparr>pb_templateId := Some 201\<rparr> else node 0))
     \<lparr>sc_byId := [100 \<mapsto> 0, 101 \<mapsto> 1, 201 \<mapsto> 2], sc_byHeight := [0 \<mapsto> [0], 1 \<mapsto> [1, 2]], sc_keys := [0, 1], sc_chainTip := Some 1\<rparr>"

lemma fork_uncle [simp]: "templateIdOf E ((node r)\<lparr>pb_templateId := Some i\<rparr>) = i"
  by (simp add: templateIdOf_def SideTemplateId_def)

lemma fork_good: "good ex_env {0, 1, 2} fork_state"
proof -
  have "linked ex_env {0, 1, 2} fork_state"
    unfolding linked_def by (intro exI [of _ "\<lambda>i. unat i"]) (simp add: fork_state_def NewSideChain_def blk_def)
  moreover have "index_inv ex_env fork_state"
    by (auto simp: index_inv_def fork_state_def NewSideChain_def blk_def getPoolBlocksByHeight_def dom_def split: if_splits)
  moreover have "cache_inv ex_env fork_state" "refs_in {0, 1, 2} fork_state" "tip_inv {0, 1, 2} fork_state"
    by (auto simp: cache_inv_def refs_in_def tip_inv_def fork_state_def NewSideChain_def blk_def split: if_splits)
  ultimately show ?thesis by (simp add: good_def chain_inv_def ex_env_def)
qed

theorem GetPossibleUncles_accepted_witness:
  "\<exists>ids d'. GetPossibleUncles ex_env fork_state 1 2 = Some ids \<and> uncleOrder ids \<and>
    checkUncles ex_env fork_state (node 2) 1 (minedLoop ex_env fork_state 3 (Some 1) []) (Difficulty 3000 0) ids = Some (Inr d')"
proof -
  have h: "chain_heights (sc_heap fork_state) (sc_byId fork_state)"
    by (auto simp: chain_heights_def iteratorGetParent_def fork_state_def NewSideChain_def split: if_splits)
  have "unat (min UncleBlockDepth (3 :: u64)) = 3" by (simp add: UncleBlockDepth_def)
  moreover have "sd_Height (pb_Side (blk fork_state 1)) = 1" "sc_byId fork_state ZeroHash = None"
    by (simp_all add: fork_state_def NewSideChain_def blk_def ZeroHash_def)
  ultimately show ?thesis
    using GetPossibleUncles_accepted [OF fork_good _ h, of 1 "node 2" "Difficulty 3000 0"] by (simp del: One_nat_def)
qed

section \<open>Missing shares\<close>

definition wanted :: "SideChain \<Rightarrow> ref list \<Rightarrow> hash set" where
  "wanted s rs = {i. isMissing s i \<and> (\<exists>r \<in> set rs. \<not> pb_Verified (blk s r) \<and>
     i \<in> insert (sd_Parent (pb_Side (blk s r))) (set (sd_Uncles (pb_Side (blk s r)))))}"

lemma missingUncles_spec:
  "set (fst (missingUncles s n ids)) \<subseteq> {i \<in> set ids. isMissing s i} \<and>
   (fst (missingUncles s n ids) = [] \<longleftrightarrow> {i \<in> set ids. isMissing s i} = {}) \<and>
   (snd (missingUncles s n ids) \<longrightarrow> fst (missingUncles s n ids) \<noteq> [])"
  by (induction s n ids rule: missingUncles.induct) auto

text \<open>C25: asking for missing shares.  Whatever the order in which the index is visited, \<^verbatim>\<open>GetMissingBlocks\<close> reports only ids that
  are missing and named by a share that waits for verification; and it reports something exactly when something
  is missing, although it stops at the first share that misses two uncles.\<close>

theorem GetMissingBlocks_progress:
  "set (GetMissingBlocks s rs) \<subseteq> wanted s rs \<and> (GetMissingBlocks s rs = [] \<longleftrightarrow> wanted s rs = {})"
  unfolding GetMissingBlocks_def
proof (induction rs)
  case Nil
  show ?case by (simp add: wanted_def)
next
  case (Cons r rs)
  let ?ids = "sd_Uncles (pb_Side (blk s r))" and ?p = "sd_Parent (pb_Side (blk s r))"
  note u = missingUncles_spec [of s 0 ?ids]
  have w: "wanted s (r # rs) = (if pb_Verified (blk s r) then {} else {i \<in> insert ?p (set ?ids). isMissing s i}) \<union> wanted s rs"
    by (auto simp: wanted_def)
  obtain us stop where m: "missingUncles s 0 ?ids = (us, stop)" by fastforce
  show ?case
  proof (cases "pb_Verified (blk s r)")
    case False
    have "missingLoop s (r # rs) = (if isMissing s ?p then [?p] else []) @ us @ (if stop then [] else missingLoop s rs)"
      by (simp add: False m Let_def)
    then show ?thesis using Cons u False unfolding w m by (auto split: if_splits)
  qed (use Cons w in auto)
qed

end
