(* ===== verification/Ring.thy ===== *)
theory Ring
  imports Prelude
begin

text \<open>
  utils/circular_buffer.go: the ring buffers in which a peer's recently broadcast and requested
  share ids and the pending outgoing connections are kept.

  The position of the next write is a 32-bit counter taken modulo the size, so a size that does
  not divide \<open>2^32\<close> makes the counter jump when it wraps.  The lock makes each operation atomic
  and has no counterpart.
\<close>

record 'a CircularBuffer =
  cb_buffer :: "'a list"
  cb_index :: u32

definition NewCircularBuffer :: "'a \<Rightarrow> nat \<Rightarrow> 'a CircularBuffer" where
  "NewCircularBuffer zero n = \<lparr>cb_buffer = replicate n zero, cb_index = 0\<rparr>"

text \<open>\<^verbatim>\<open>index % uint32(len(b.buffer))\<close>, the cell of an index.\<close>

definition cell :: "'a CircularBuffer \<Rightarrow> u32 \<Rightarrow> nat result" where
  "cell b index =
    (if of_nat (length (cb_buffer b)) = (0 :: u32) then Inl (Panic ''integer divide by zero'')
     else Inr (unat (index mod of_nat (length (cb_buffer b)))))"

definition Push :: "'a CircularBuffer \<Rightarrow> 'a \<Rightarrow> 'a CircularBuffer result" where
  "Push b value =
    (let b = b\<lparr>cb_index := cb_index b + 1\<rparr> in
     bindR (cell b (cb_index b)) (\<lambda>i. Inr (b\<lparr>cb_buffer := (cb_buffer b)[i := value]\<rparr>)))"

definition Current :: "'a CircularBuffer \<Rightarrow> 'a result" where
  "Current b = bindR (cell b (cb_index b)) (\<lambda>i. Inr (cb_buffer b ! i))"

definition Get :: "'a CircularBuffer \<Rightarrow> u32 \<Rightarrow> 'a result" where
  "Get b index = bindR (cell b index) (\<lambda>i. Inr (cb_buffer b ! i))"

definition Replace :: "'a CircularBuffer \<Rightarrow> 'a \<Rightarrow> 'a \<Rightarrow> 'a CircularBuffer" where
  "Replace b value repl = b\<lparr>cb_buffer := map (\<lambda>v. if value = v then repl else v) (cb_buffer b)\<rparr>"

definition PushUnique :: "'a CircularBuffer \<Rightarrow> 'a \<Rightarrow> (bool \<times> 'a CircularBuffer) result" where
  "PushUnique b value =
    (if length (cb_buffer b) = 0 \<or> value \<in> set (cb_buffer b) then Inr (False, b)
     else bindR (Push b value) (\<lambda>b. Inr (True, b)))"

function reverseLoop :: "'a list \<Rightarrow> nat \<Rightarrow> nat \<Rightarrow> 'a list" where
  "reverseLoop xs i j = (if i < j then reverseLoop (xs[i := xs ! j, j := xs ! i]) (i + 1) (j - 1) else xs)"
  by auto
termination by (relation "measure (\<lambda>(xs, i, j). j - i)") auto

declare reverseLoop.simps [simp del]

definition Reverse :: "'a CircularBuffer \<Rightarrow> 'a CircularBuffer" where
  "Reverse b = b\<lparr>cb_buffer := reverseLoop (cb_buffer b) 0 (length (cb_buffer b) - 1)\<rparr>"

definition Exists :: "'a CircularBuffer \<Rightarrow> 'a \<Rightarrow> bool" where
  "Exists b value \<longleftrightarrow> value \<in> set (cb_buffer b)"

definition Slice :: "'a CircularBuffer \<Rightarrow> 'a list" where
  "Slice b = cb_buffer b"

fun pushes :: "'a CircularBuffer \<Rightarrow> 'a list \<Rightarrow> 'a CircularBuffer result" where
  "pushes b [] = Inr b"
| "pushes b (v # vs) = bindR (Push b v) (\<lambda>b. pushes b vs)"

section \<open>The history a buffer holds\<close>

lemma pushes_append: "pushes b (vs @ ws) = bindR (pushes b vs) (\<lambda>b. pushes b ws)"
  by (induction vs arbitrary: b) (simp_all add: bindR_assoc)

text \<open>A size that is usable, and the number of writes for which the counter runs on without a jump.\<close>

definition steady :: "nat \<Rightarrow> nat \<Rightarrow> bool" where
  "steady n m \<longleftrightarrow> 0 < n \<and> n < 2 ^ 32 \<and> (n dvd 2 ^ 32 \<or> m < 2 ^ 32)"

lemma cell_of_nat:
  assumes "steady n m" and "length (cb_buffer b) = n" and "k \<le> m"
  shows "cell b (of_nat k) = Inr (k mod n)"
proof -
  have n: "0 < n" "n < 2 ^ 32" using assms(1) by (auto simp: steady_def)
  then have u: "unat (of_nat n :: u32) = n" by (simp add: unat_of_nat take_bit_eq_mod)
  then have "of_nat n \<noteq> (0 :: u32)" using n(1) by (metis unat_0 less_not_refl)
  moreover have "k mod 2 ^ 32 mod n = k mod n"
    using assms by (auto simp: steady_def mod_mod_cancel)
  ultimately show ?thesis
    using assms(2) n(2) by (simp add: cell_def unat_mod_distrib unat_of_nat take_bit_eq_mod)
qed

lemma cell_ne:
  fixes L n k :: nat
  assumes "0 < k" "k < n" "k \<le> L"
  shows "(L - k) mod n \<noteq> L mod n"
proof
  assume "(L - k) mod n = L mod n"
  then have "n dvd L - (L - k)" using assms(3) by (metis mod_eq_dvd_iff_nat diff_le_self)
  then show False using assms by (simp add: nat_dvd_not_less)
qed

text \<open>What the cells hold after writing \<open>vs\<close>: the last \<open>n\<close> values, and in the cells not yet reached the zero value.\<close>

definition holds :: "'a \<Rightarrow> nat \<Rightarrow> 'a list \<Rightarrow> 'a CircularBuffer \<Rightarrow> bool" where
  "holds zero n vs b \<longleftrightarrow> length (cb_buffer b) = n \<and> cb_index b = of_nat (length vs) \<and>
    (\<forall>k < n. k < length vs \<longrightarrow> cb_buffer b ! ((length vs - k) mod n) = vs ! (length vs - 1 - k)) \<and>
    (length vs < n \<longrightarrow> (\<forall>j < n. j = 0 \<or> length vs < j \<longrightarrow> cb_buffer b ! j = zero))"

lemma holds_Push:
  assumes "holds zero n vs b" and "steady n (length vs + 1)"
  obtains b' where "Push b v = Inr b'" and "holds zero n (vs @ [v]) b'"
proof -
  let ?L = "length vs"
  have n: "0 < n" using assms(2) by (simp add: steady_def)
  have b: "length (cb_buffer b) = n" "cb_index b = of_nat ?L"
    and recent: "\<And>k. k < n \<Longrightarrow> k < ?L \<Longrightarrow> cb_buffer b ! ((?L - k) mod n) = vs ! (?L - 1 - k)"
    and rest: "\<And>j. ?L < n \<Longrightarrow> j < n \<Longrightarrow> j = 0 \<or> ?L < j \<Longrightarrow> cb_buffer b ! j = zero"
    using assms(1) by (auto simp: holds_def)
  let ?b = "b\<lparr>cb_index := of_nat (?L + 1), cb_buffer := (cb_buffer b)[(?L + 1) mod n := v]\<rparr>"
  have c: "cell (b\<lparr>cb_index := x\<rparr>) (of_nat (?L + 1)) = Inr ((?L + 1) mod n)" for x
    by (rule cell_of_nat [OF assms(2)]) (simp_all add: b)
  have "Push b v = Inr ?b" using c [of "of_nat (?L + 1)"] by (simp add: Push_def b Let_def add.commute)
  moreover have "holds zero n (vs @ [v]) ?b"
    unfolding holds_def
  proof (intro conjI allI impI)
    fix k assume k: "k < n" "k < length (vs @ [v])"
    show "cb_buffer ?b ! ((length (vs @ [v]) - k) mod n) = (vs @ [v]) ! (length (vs @ [v]) - 1 - k)"
    proof (cases k)
      case 0
      then show ?thesis using n by (simp add: b)
    next
      case (Suc k')
      have "(?L + 1 - k) mod n \<noteq> (?L + 1) mod n" by (rule cell_ne) (use k Suc in auto)
      moreover have "?L - Suc k' < ?L" using k Suc by simp
      ultimately show ?thesis using recent [of k'] k Suc by (simp add: nth_append)
    qed
  next
    fix j assume j: "length (vs @ [v]) < n" "j < n" "j = 0 \<or> length (vs @ [v]) < j"
    then have "(?L + 1) mod n \<noteq> j" by auto
    moreover have "j = 0 \<or> ?L < j" "?L < n" using j by auto
    ultimately show "cb_buffer ?b ! j = zero" using rest [of j] j by simp
  qed (simp_all add: b)
  ultimately show thesis by (rule that)
qed

lemma pushes_holds:
  assumes "steady n (length vs)"
  shows "\<exists>b. pushes (NewCircularBuffer zero n) vs = Inr b \<and> holds zero n vs b"
  using assms
proof (induction vs rule: rev_induct)
  case Nil
  then show ?case by (simp add: holds_def NewCircularBuffer_def)
next
  case (snoc v vs)
  then have "steady n (length vs)" by (auto simp: steady_def)
  then obtain b where b: "pushes (NewCircularBuffer zero n) vs = Inr b" "holds zero n vs b" using snoc.IH by blast
  obtain b' where "Push b v = Inr b'" "holds zero n (vs @ [v]) b'"
    using holds_Push [OF b(2)] snoc.prems by auto
  then show ?case using b(1) by (simp add: pushes_append)
qed

lemma holds_Exists:
  assumes "holds zero n vs b" and "0 < n"
  shows "Exists b v \<longleftrightarrow> v \<in> set (take n (rev vs)) \<or> length vs < n \<and> v = zero"
proof -
  let ?L = "length vs"
  have b: "length (cb_buffer b) = n"
    and recent: "\<And>k. k < n \<Longrightarrow> k < ?L \<Longrightarrow> cb_buffer b ! ((?L - k) mod n) = vs ! (?L - 1 - k)"
    and rest: "\<And>j. ?L < n \<Longrightarrow> j < n \<Longrightarrow> j = 0 \<or> ?L < j \<Longrightarrow> cb_buffer b ! j = zero"
    using assms(1) by (auto simp: holds_def)
  have last: "x \<in> set (take n (rev vs)) \<longleftrightarrow> (\<exists>k < n. k < ?L \<and> x = vs ! (?L - 1 - k))" for x
    by (auto simp: in_set_conv_nth rev_nth)
  have "Exists b v" if "k < n" "k < ?L" "v = vs ! (?L - 1 - k)" for k
    using recent [OF that(1,2)] that(3) assms(2) b unfolding Exists_def by (metis mod_less_divisor nth_mem)
  moreover have "Exists b v" if "?L < n" "v = zero"
    using rest [of 0] that assms(2) b unfolding Exists_def by (metis nth_mem)
  moreover have "(\<exists>k < n. k < ?L \<and> cb_buffer b ! j = vs ! (?L - 1 - k)) \<or> ?L < n \<and> cb_buffer b ! j = zero" if j: "j < n" for j
  proof (cases "?L < n \<and> (j = 0 \<or> ?L < j)")
    case False
    define k where "k = (?L - j) mod n"
    have "j \<le> ?L" using False j by linarith
    moreover have k: "k < n" "k < ?L"
    proof -
      show "k < n" using assms(2) by (simp add: k_def)
      show "k < ?L"
      proof (cases "j = 0")
        case True
        then have "n \<le> ?L" using False by auto
        then show ?thesis using \<open>k < n\<close> by simp
      next
        case False
        then have "?L - j < ?L" using \<open>j \<le> ?L\<close> by simp
        then show ?thesis unfolding k_def by (meson le_less_trans mod_less_eq_dividend)
      qed
    qed
    ultimately have "(?L - k) mod n = j"
    proof -
      have "k \<le> ?L - j" unfolding k_def by (rule mod_less_eq_dividend)
      then have "?L - k = j + ((?L - j) - k)" using \<open>j \<le> ?L\<close> by linarith
      moreover have "n dvd (?L - j) - k" unfolding k_def by (rule dvd_minus_mod)
      ultimately show ?thesis using j by (metis mod_add_right_eq dvd_eq_mod_eq_0 add_0_right mod_less)
    qed
    then show ?thesis using recent [OF k] k by metis
  qed (use rest [of j] j in auto)
  ultimately show ?thesis unfolding last using b by (auto simp: Exists_def in_set_conv_nth)
qed

text \<open>C26: a ring buffer remembers exactly the recent past.  If its size divides \<open>2^32\<close>, or fewer than \<open>2^32\<close>
  values were pushed, then after pushing \<open>vs\<close> it reads them back newest first, \<^verbatim>\<open>Current\<close> is the last one,
  and a value is found in it exactly if it is among the last \<open>n\<close> (or the zero value of a buffer that is not yet full).\<close>

theorem CircularBuffer_remembers:
  assumes "0 < n" "n < 2 ^ 32" and "n dvd 2 ^ 32 \<or> length vs < 2 ^ 32"
  shows "\<exists>b. pushes (NewCircularBuffer zero n) vs = Inr b \<and>
    (\<forall>k < n. k < length vs \<longrightarrow> Get b (cb_index b - of_nat k) = Inr (rev vs ! k)) \<and>
    (vs \<noteq> [] \<longrightarrow> Current b = Inr (last vs)) \<and>
    (\<forall>v. Exists b v \<longleftrightarrow> v \<in> set (take n (rev vs)) \<or> length vs < n \<and> v = zero)"
proof -
  have s: "steady n (length vs)" using assms by (simp add: steady_def)
  obtain b where b: "pushes (NewCircularBuffer zero n) vs = Inr b" "holds zero n vs b"
    using pushes_holds [OF s] by blast
  then have len: "length (cb_buffer b) = n" and ix: "cb_index b = of_nat (length vs)" by (auto simp: holds_def)
  have g: "Get b (cb_index b - of_nat k) = Inr (rev vs ! k)" if "k < n" "k < length vs" for k
  proof -
    have "cb_index b - of_nat k = of_nat (length vs - k)" using ix that(2) by (simp add: of_nat_diff)
    then have "cell b (cb_index b - of_nat k) = Inr ((length vs - k) mod n)" using cell_of_nat [OF s len, of "length vs - k"] by simp
    then show ?thesis using b(2) that by (simp add: Get_def holds_def rev_nth)
  qed
  have "Current b = Inr (last vs)" if "vs \<noteq> []"
    using g [of 0] that assms(1) by (simp add: Current_def Get_def rev_nth last_conv_nth)
  then show ?thesis using b g holds_Exists [OF b(2) assms(1)] by blast
qed

theorem CircularBuffer_remembers_witness:
  "\<exists>b. pushes (NewCircularBuffer (0 :: nat) 2) [5, 6, 7] = Inr b \<and> Get b (cb_index b - of_nat 1) = Inr 6 \<and>
    Current b = Inr 7 \<and> \<not> Exists b 5"
proof -
  have "(2 :: nat) < 2 ^ 32" "length [5, 6, 7 :: nat] < 2 ^ 32" by simp_all
  from CircularBuffer_remembers [OF _ this(1) disjI2, OF _ this(2), of 0] obtain b where
    b: "pushes (NewCircularBuffer (0 :: nat) 2) [5, 6, 7] = Inr b"
    "\<And>k. k < 2 \<Longrightarrow> Get b (cb_index b - of_nat k) = Inr ([7, 6, 5] ! k)" "Current b = Inr 7"
    "\<And>v. Exists b v \<longleftrightarrow> v = 7 \<or> v = 6" by auto
  from b(2) [of 1] have "Get b (cb_index b - of_nat 1) = Inr 6" by simp
  with b show ?thesis by auto
qed

section \<open>The other operations\<close>

text \<open>A buffer of three cells whose counter wraps: the next push overwrites the value pushed last.\<close>

lemma Push_jumps_on_wrap:
  assumes "b = \<lparr>cb_buffer = [x, y, z], cb_index = - 1\<rparr>"
  shows "Current b = Inr x" and "Push b v = Inr \<lparr>cb_buffer = [v, y, z], cb_index = 0\<rparr>"
  unfolding assms by (simp_all add: Current_def Push_def cell_def)

lemma Push_empty: "Push (NewCircularBuffer zero 0) v = Inl (Panic ''integer divide by zero'')"
  by (simp add: Push_def cell_def NewCircularBuffer_def)

lemma PushUnique_fresh:
  assumes "PushUnique b v = Inr (new, b')" and "length (cb_buffer b) < 2 ^ 32"
  shows "new \<longleftrightarrow> cb_buffer b \<noteq> [] \<and> \<not> Exists b v" and "cb_buffer b \<noteq> [] \<Longrightarrow> Exists b' v"
proof -
  have i: "i < length (cb_buffer b)" if "cell (b\<lparr>cb_index := j\<rparr>) k = Inr i" for i j k
  proof -
    have "unat (k mod of_nat (length (cb_buffer b))) = unat k mod length (cb_buffer b)"
      using assms(2) by (simp add: unat_mod_distrib unat_of_nat take_bit_eq_mod)
    moreover have "length (cb_buffer b) \<noteq> 0" using that by (auto simp: cell_def split: if_splits)
    ultimately have "unat (k mod of_nat (length (cb_buffer b))) < length (cb_buffer b)" by simp
    then show ?thesis using that by (auto simp: cell_def split: if_splits)
  qed
  show "new \<longleftrightarrow> cb_buffer b \<noteq> [] \<and> \<not> Exists b v"
    using assms(1) by (auto simp: PushUnique_def Exists_def bindR_Inr_iff split: if_splits)
  show "cb_buffer b \<noteq> [] \<Longrightarrow> Exists b' v"
    using assms(1) i by (auto simp: PushUnique_def Push_def Exists_def Let_def bindR_Inr_iff set_update_memI split: if_splits)
qed

lemma reverseLoop_nth:
  assumes "i + j + 1 = length xs" and "k < length xs"
  shows "reverseLoop xs i j ! k = (if i \<le> k \<and> k \<le> j then xs ! (i + j - k) else xs ! k) \<and> length (reverseLoop xs i j) = length xs"
  using assms
proof (induction xs i j rule: reverseLoop.induct)
  case (1 xs i j)
  show ?case
  proof (cases "i < j")
    case True
    let ?ys = "xs[i := xs ! j, j := xs ! i]"
    have "i + 1 + (j - 1) + 1 = length ?ys" using True "1.prems"(1) by simp
    from "1.IH" [OF True this] "1.prems" True show ?thesis
      by (subst (1 2) reverseLoop.simps) (auto simp: nth_list_update)
  qed (use "1.prems" in \<open>auto simp: reverseLoop.simps [of xs i j] intro!: arg_cong [where f = "(!) xs"]\<close>)
qed

lemma Reverse_rev: "cb_buffer (Reverse b) = rev (cb_buffer b)"
proof (cases "cb_buffer b = []")
  case False
  then have "0 + (length (cb_buffer b) - 1) + 1 = length (cb_buffer b)" by (cases "cb_buffer b") simp_all
  note r = reverseLoop_nth [OF this]
  have "length (reverseLoop (cb_buffer b) 0 (length (cb_buffer b) - 1)) = length (cb_buffer b)" using r False by fastforce
  then show ?thesis unfolding Reverse_def using r by (auto intro!: nth_equalityI simp: rev_nth)
qed (simp add: Reverse_def reverseLoop.simps)

lemma Replace_Exists: "value \<noteq> repl \<Longrightarrow> \<not> Exists (Replace b value repl) value"
  by (auto simp: Replace_def Exists_def)

end
