(* ===== verification/Scalars.thy ===== *)
theory Scalars
  imports Wire
begin

text \<open>
  monero/crypto/edwards25519.go, hash.go and random.go: scalars of the curve, which are numbers modulo the order of
  its base point.  \<^verbatim>\<open>scReduce32\<close> reduces 32 bytes in place, on twelve limbs of 21 bits in
  \<^verbatim>\<open>int64\<close> variables with explicit carries; \<^verbatim>\<open>DeterministicScalar\<close> hashes with a counter until the hash is
  usable.

  The \<^verbatim>\<open>int64\<close> variables are integers that wrap after every operation (\<open>i64\<close>), the limbs \<open>s0\<close> to \<open>s12\<close>
  a list.  The callers pass arrays of 32 bytes, so that indexing never fails.
\<close>

section \<open>The code\<close>

definition limit :: "byte list" where
  "limit = [0xe3, 0x6a, 0x67, 0x72, 0x8b, 0xce, 0x13, 0x29, 0x8f, 0x30, 0x82, 0x8c, 0x0b, 0xa4, 0x10, 0x39,
    0x01, 0x00, 0x00, 0x00, 0x00, 0x00, 0x00, 0x00, 0x00, 0x00, 0x00, 0x00, 0x00, 0x00, 0x00, 0xf0]"

primrec less32Loop :: "byte list \<Rightarrow> byte list \<Rightarrow> nat \<Rightarrow> bool" where
  "less32Loop a b 0 = False"
| "less32Loop a b (Suc n) = (if a ! n < b ! n then True else if a ! n > b ! n then False else less32Loop a b n)"

definition less32 :: "byte list \<Rightarrow> byte list \<Rightarrow> bool" where
  "less32 a b = less32Loop a b 32"

definition load3 :: "byte list \<Rightarrow> int" where
  "load3 s = uint (s ! 0) OR push_bit 8 (uint (s ! 1)) OR push_bit 16 (uint (s ! 2))"

definition load4 :: "byte list \<Rightarrow> int" where
  "load4 s = uint (s ! 0) OR push_bit 8 (uint (s ! 1)) OR push_bit 16 (uint (s ! 2)) OR push_bit 24 (uint (s ! 3))"

definition i64 :: "int \<Rightarrow> int" where
  "i64 x = signed_take_bit 63 x"

definition limbs :: "byte list \<Rightarrow> int list" where
  "limbs s =
    [2097151 AND load3 s,
     2097151 AND drop_bit 5 (load4 (drop 2 s)),
     2097151 AND drop_bit 2 (load3 (drop 5 s)),
     2097151 AND drop_bit 7 (load4 (drop 7 s)),
     2097151 AND drop_bit 4 (load4 (drop 10 s)),
     2097151 AND drop_bit 1 (load3 (drop 13 s)),
     2097151 AND drop_bit 6 (load4 (drop 15 s)),
     2097151 AND drop_bit 3 (load3 (drop 18 s)),
     2097151 AND load3 (drop 21 s),
     2097151 AND drop_bit 5 (load4 (drop 23 s)),
     2097151 AND drop_bit 2 (load3 (drop 26 s)),
     drop_bit 7 (load4 (drop 28 s)), 0]"

text \<open>\<^verbatim>\<open>carry[i] = (si + (1 << 20)) >> 21\<close> and \<^verbatim>\<open>carry[i] = si >> 21\<close>, each with the two assignments that follow.\<close>

definition moveCarry :: "int \<Rightarrow> nat \<Rightarrow> int list \<Rightarrow> int list" where
  "moveCarry c i s = s[i + 1 := i64 (s ! (i + 1) + c), i := i64 (s ! i - i64 (push_bit 21 c))]"

definition carryRound :: "nat \<Rightarrow> int list \<Rightarrow> int list" where
  "carryRound i s = moveCarry (drop_bit 21 (i64 (s ! i + push_bit 20 1))) i s"

definition carry :: "nat \<Rightarrow> int list \<Rightarrow> int list" where
  "carry i s = moveCarry (drop_bit 21 (s ! i)) i s"

definition foldTop :: "int list \<Rightarrow> int list" where
  "foldTop s =
    s[0 := i64 (s ! 0 + i64 (s ! 12 * 666643)), 1 := i64 (s ! 1 + i64 (s ! 12 * 470296)),
      2 := i64 (s ! 2 + i64 (s ! 12 * 654183)), 3 := i64 (s ! 3 - i64 (s ! 12 * 997805)),
      4 := i64 (s ! 4 + i64 (s ! 12 * 136657)), 5 := i64 (s ! 5 - i64 (s ! 12 * 683901))]"

definition pack :: "int list \<Rightarrow> byte list" where
  "pack s = map word_of_int
    [s ! 0, drop_bit 8 (s ! 0), drop_bit 16 (s ! 0) OR push_bit 5 (s ! 1),
     drop_bit 3 (s ! 1), drop_bit 11 (s ! 1), drop_bit 19 (s ! 1) OR push_bit 2 (s ! 2),
     drop_bit 6 (s ! 2), drop_bit 14 (s ! 2) OR push_bit 7 (s ! 3),
     drop_bit 1 (s ! 3), drop_bit 9 (s ! 3), drop_bit 17 (s ! 3) OR push_bit 4 (s ! 4),
     drop_bit 4 (s ! 4), drop_bit 12 (s ! 4), drop_bit 20 (s ! 4) OR push_bit 1 (s ! 5),
     drop_bit 7 (s ! 5), drop_bit 15 (s ! 5) OR push_bit 6 (s ! 6),
     drop_bit 2 (s ! 6), drop_bit 10 (s ! 6), drop_bit 18 (s ! 6) OR push_bit 3 (s ! 7),
     drop_bit 5 (s ! 7), drop_bit 13 (s ! 7),
     s ! 8, drop_bit 8 (s ! 8), drop_bit 16 (s ! 8) OR push_bit 5 (s ! 9),
     drop_bit 3 (s ! 9), drop_bit 11 (s ! 9), drop_bit 19 (s ! 9) OR push_bit 2 (s ! 10),
     drop_bit 6 (s ! 10), drop_bit 14 (s ! 10) OR push_bit 7 (s ! 11),
     drop_bit 1 (s ! 11), drop_bit 9 (s ! 11), drop_bit 17 (s ! 11)]"

definition scReduce32 :: "byte list \<Rightarrow> byte list" where
  "scReduce32 s =
    (let l = limbs s;
         l = fold carryRound [0, 2, 4, 6, 8, 10, 1, 3, 5, 7, 9, 11] l;
         l = (foldTop l)[12 := 0];
         l = fold carry [0, 1, 2, 3, 4, 5, 6, 7, 8, 9, 10, 11] l;
         l = foldTop l;
         l = fold carry [0, 1, 2, 3, 4, 5, 6, 7, 8, 9, 10] l
     in pack l @ drop 32 s)"

section \<open>Numbers in base \<open>2^21\<close>\<close>

definition L :: int where
  "L = 2 ^ 252 + 27742317777372353535851937790883648493"

fun val21 :: "int list \<Rightarrow> int" where
  "val21 [] = 0"
| "val21 (x # xs) = x + 2 ^ 21 * val21 xs"

lemma val21_update: "i < length xs \<Longrightarrow> val21 (xs[i := v]) = val21 xs + (v - xs ! i) * 2 ^ (21 * i)"
proof (induction xs arbitrary: i)
  case (Cons x xs)
  show ?case
  proof (cases i)
    case (Suc n)
    then have "val21 (xs[n := v]) = val21 xs + (v - xs ! n) * 2 ^ (21 * n)" using Cons by simp
    then show ?thesis unfolding Suc by (simp only: list_update.simps nat.case val21.simps nth_Cons_Suc mult_Suc_right power_add) (simp add: algebra_simps)
  qed simp
qed simp

lemma val21_append: "val21 (xs @ ys) = val21 xs + 2 ^ (21 * length xs) * val21 ys"
  by (induction xs) (simp_all add: power_add algebra_simps)

lemma val21_bound:
  assumes "\<And>x. x \<in> set xs \<Longrightarrow> \<bar>x\<bar> \<le> B"
  shows "\<bar>val21 xs\<bar> \<le> B * val21 (replicate (length xs) 1)"
  using assms
proof (induction xs)
  case (Cons x xs)
  then have "\<bar>x\<bar> \<le> B" "\<bar>val21 xs\<bar> \<le> B * val21 (replicate (length xs) 1)" by simp_all
  then show ?case by (simp add: algebra_simps)
qed simp

lemma val21_digits:
  assumes "\<And>x. x \<in> set xs \<Longrightarrow> 0 \<le> x \<and> x < 2 ^ 21"
  shows "0 \<le> val21 xs \<and> val21 xs < 2 ^ (21 * length xs)"
  using assms
proof (induction xs)
  case (Cons x xs)
  then have "0 \<le> x" "x < 2 ^ 21" "0 \<le> val21 xs" "val21 xs < 2 ^ (21 * length xs)" by simp_all
  then show ?case by (simp add: power_add)
qed simp

lemma i64_id: "\<bar>x\<bar> < 2 ^ 62 \<Longrightarrow> i64 x = x"
  unfolding i64_def by (rule signed_take_bit_int_eq_self) auto


section \<open>Carries\<close>

lemma abs_sum_less: "\<bar>a\<bar> < 2 ^ 60 \<Longrightarrow> \<bar>b\<bar> < 2 ^ 60 \<Longrightarrow> \<bar>a + b\<bar> < 2 ^ 62" for a b :: int
  by simp

lemma div21_bounds:
  fixes x :: int
  assumes "\<bar>x\<bar> < 2 ^ 61"
  shows "\<bar>x div 2 ^ 21\<bar> < 2 ^ 60" and "\<bar>x div 2 ^ 21 * 2 ^ 21\<bar> < 2 ^ 62" and "\<bar>x mod 2 ^ 21\<bar> < 2 ^ 62"
proof -
  have m: "0 \<le> x mod 2 ^ 21" "x mod 2 ^ 21 < 2 ^ 21" by simp_all
  have e: "x div 2 ^ 21 * 2 ^ 21 = x - x mod 2 ^ 21" by (rule minus_mod_eq_div_mult [symmetric])
  show "\<bar>x mod 2 ^ 21\<bar> < 2 ^ 62" using m by simp
  have "\<bar>x div 2 ^ 21 * 2 ^ 21\<bar> < 2 ^ 61 + 2 ^ 21" unfolding e using assms m by (simp only: abs_less_iff) linarith
  then have "\<bar>x div 2 ^ 21\<bar> * 2 ^ 21 < 2 ^ 61 + 2 ^ 21" by (simp only: abs_mult) simp
  then show "\<bar>x div 2 ^ 21 * 2 ^ 21\<bar> < 2 ^ 62" "\<bar>x div 2 ^ 21\<bar> < 2 ^ 60" by (simp_all add: abs_mult)
qed

lemma moveCarry_exact:
  assumes "i + 1 < length s" "\<bar>s ! (i + 1)\<bar> < 2 ^ 60" "\<bar>c\<bar> < 2 ^ 60" "\<bar>c * 2 ^ 21\<bar> < 2 ^ 62" "\<bar>s ! i - c * 2 ^ 21\<bar> < 2 ^ 62"
  shows "moveCarry c i s = s[i + 1 := s ! (i + 1) + c, i := s ! i - c * 2 ^ 21]"
  unfolding moveCarry_def push_bit_eq_mult i64_id [OF assms(4)] i64_id [OF assms(5)] i64_id [OF abs_sum_less [OF assms(2,3)]] ..

lemma carry_exact:
  assumes "i + 1 < length s" "\<bar>s ! i\<bar> < 2 ^ 60" "\<bar>s ! (i + 1)\<bar> < 2 ^ 60"
  shows "carry i s = s[i + 1 := s ! (i + 1) + s ! i div 2 ^ 21, i := s ! i mod 2 ^ 21]"
proof -
  have "\<bar>s ! i\<bar> < 2 ^ 61" using assms(2) by simp
  note b = div21_bounds [OF this]
  show ?thesis unfolding carry_def drop_bit_eq_div
    by (subst moveCarry_exact) (use assms b in \<open>simp_all only: minus_div_mult_eq_mod\<close>)
qed

lemma carryRound_exact:
  assumes "i + 1 < length s" "\<bar>s ! i\<bar> < 2 ^ 60" "\<bar>s ! (i + 1)\<bar> < 2 ^ 60"
  shows "carryRound i s = s[i + 1 := s ! (i + 1) + (s ! i + 2 ^ 20) div 2 ^ 21, i := (s ! i + 2 ^ 20) mod 2 ^ 21 - 2 ^ 20]"
proof -
  have x: "\<bar>s ! i + 2 ^ 20\<bar> < 2 ^ 61" "\<bar>s ! i + 2 ^ 20\<bar> < 2 ^ 62" using assms(2) by simp_all
  note b = div21_bounds [OF x(1)]
  have e: "s ! i - (s ! i + 2 ^ 20) div 2 ^ 21 * 2 ^ 21 = (s ! i + 2 ^ 20) mod 2 ^ 21 - 2 ^ 20"
    unfolding minus_div_mult_eq_mod [symmetric] by simp
  have "\<bar>(s ! i + 2 ^ 20) mod 2 ^ 21 - 2 ^ 20\<bar> < 2 ^ 62" by simp
  then show ?thesis unfolding carryRound_def drop_bit_eq_div push_bit_eq_mult mult_1 i64_id [OF x(2)]
    by (subst moveCarry_exact) (use assms b in \<open>simp_all only: e\<close>)
qed

text \<open>A run of carries: lower limbs become digits, the value stays.\<close>

lemma val21_carry:
  assumes "i + 1 < length s" "\<bar>s ! i\<bar> < 2 ^ 60" "\<bar>s ! (i + 1)\<bar> < 2 ^ 60"
  shows "val21 (carry i s) = val21 s"
proof -
  let ?c = "s ! i div 2 ^ 21"
  have "val21 (carry i s) = val21 s + ?c * 2 ^ (21 * (i + 1)) + (s ! i mod 2 ^ 21 - s ! i) * 2 ^ (21 * i)"
    using assms(1) by (simp add: carry_exact [OF assms] val21_update)
  also have "s ! i mod 2 ^ 21 - s ! i = - (?c * 2 ^ 21)" using div_mult_mod_eq [of "s ! i" "2 ^ 21"] by linarith
  also have "(2 :: int) ^ (21 * (i + 1)) = 2 ^ 21 * 2 ^ (21 * i)" by (simp add: power_add)
  finally show ?thesis by (simp add: algebra_simps)
qed

lemma carries:
  assumes "k < length s" and "\<And>x. x \<in> set s \<Longrightarrow> \<bar>x\<bar> < 2 ^ 50"
  defines "t \<equiv> fold carry [0..<k] s"
  shows "length t = length s \<and> val21 t = val21 s \<and> (\<forall>j < k. 0 \<le> t ! j \<and> t ! j < 2 ^ 21) \<and>
    (\<forall>j > k. j < length s \<longrightarrow> t ! j = s ! j) \<and> \<bar>t ! k\<bar> < 2 ^ 51"
  unfolding t_def using assms(1)
proof (induction k)
  case 0
  have "\<bar>s ! 0\<bar> < 2 ^ 50" using 0 assms(2) by simp
  then show ?case by simp
next
  case (Suc k)
  let ?t = "fold carry [0..<k] s"
  have IH: "length ?t = length s" "val21 ?t = val21 s" "\<And>j. j < k \<Longrightarrow> 0 \<le> ?t ! j \<and> ?t ! j < 2 ^ 21"
    "\<And>j. j > k \<Longrightarrow> j < length s \<Longrightarrow> ?t ! j = s ! j" "\<bar>?t ! k\<bar> < 2 ^ 51" using Suc by auto
  have up: "?t ! (k + 1) = s ! (k + 1)" using IH(4) Suc.prems by simp
  have "\<bar>s ! (k + 1)\<bar> < 2 ^ 50" using Suc.prems assms(2) by simp
  then have b: "k + 1 < length ?t" "\<bar>?t ! k\<bar> < 2 ^ 60" "\<bar>?t ! (k + 1)\<bar> < 2 ^ 60" and
    "\<bar>s ! (k + 1) + ?t ! k div 2 ^ 21\<bar> < 2 ^ 51"
    using Suc.prems IH(1,5) up by simp_all
  moreover have "0 \<le> carry k ?t ! j \<and> carry k ?t ! j < 2 ^ 21" if "j < Suc k" for j
    using that b(1) IH(3) by (cases "j = k") (simp_all add: carry_exact [OF b])
  ultimately show ?case using b(1) IH(1,2,4) up val21_carry [OF b] by (simp add: carry_exact [OF b])
qed

lemma upt_list: "[0, 1, 2, 3, 4, 5, 6, 7, 8, 9, 10] = [0..<11]" "[0, 1, 2, 3, 4, 5, 6, 7, 8, 9, 10, 11] = [0..<12]"
  by (simp_all add: upt_rec)

lemma length_thirteen: "length s = 13 \<Longrightarrow> \<exists>a b c d e f g h i j k l m. s = [a, b, c, d, e, f, g, h, i, j, k, l, m]"
  by (auto simp: length_Suc_conv numeral_eq_Suc)

section \<open>The three passes\<close>

lemma foldTop_exact:
  assumes "length s = 13" "\<And>x. x \<in> set s \<Longrightarrow> \<bar>x\<bar> < 2 ^ 40" and "\<bar>s ! 12\<bar> \<le> 16"
  shows "length (foldTop s) = 13" and "foldTop s ! 12 = s ! 12" and "\<And>x. x \<in> set (foldTop s) \<Longrightarrow> \<bar>x\<bar> < 2 ^ 50"
    and "val21 (take 12 (foldTop s)) = val21 s - s ! 12 * L"
proof -
  obtain a b c d e f g h i j k l m where s: "s = [a, b, c, d, e, f, g, h, i, j, k, l, m]" using length_thirteen [OF assms(1)] by blast
  have m: "\<bar>m\<bar> \<le> 16" using assms(3) by (simp add: s)
  have bd: "\<bar>a\<bar> < 2 ^ 40" "\<bar>b\<bar> < 2 ^ 40" "\<bar>c\<bar> < 2 ^ 40" "\<bar>d\<bar> < 2 ^ 40" "\<bar>e\<bar> < 2 ^ 40" "\<bar>f\<bar> < 2 ^ 40" using assms(2) by (simp_all add: s)
  have w: "i64 (x + i64 (m * q)) = x + m * q" "i64 (x - i64 (m * q)) = x - m * q" "\<bar>x + m * q\<bar> < 2 ^ 50" "\<bar>x - m * q\<bar> < 2 ^ 50"
    if "\<bar>x\<bar> < 2 ^ 40" "0 \<le> q" "q < 2 ^ 20" for x q
  proof -
    have "\<bar>m * q\<bar> \<le> 16 * 2 ^ 20" unfolding abs_mult using m that by (intro mult_mono) auto
    then show "i64 (x + i64 (m * q)) = x + m * q" "i64 (x - i64 (m * q)) = x - m * q" "\<bar>x + m * q\<bar> < 2 ^ 50" "\<bar>x - m * q\<bar> < 2 ^ 50"
      using that(1) by (simp_all add: i64_id)
  qed
  have f: "foldTop s = [a + m * 666643, b + m * 470296, c + m * 654183, d - m * 997805, e + m * 136657, f - m * 683901, g, h, i, j, k, l, m]"
    using bd by (simp add: foldTop_def s w)
  note f' = f [unfolded s]
  show "length (foldTop s) = 13" "foldTop s ! 12 = s ! 12" unfolding s f' by simp_all
  show "\<bar>x\<bar> < 2 ^ 50" if "x \<in> set (foldTop s)" for x
  proof -
    have "\<bar>y\<bar> < 2 ^ 50" if "y \<in> set s" for y using assms(2) [OF that] by simp
    then show ?thesis using that w bd unfolding s f' by auto
  qed
  show "val21 (take 12 (foldTop s)) = val21 s - s ! 12 * L" unfolding s f' by (simp add: L_def)
qed


text \<open>The rounding pass: first the even limbs, then the odd ones.\<close>

definition up21 :: "int \<Rightarrow> int" where "up21 x = (x + 2 ^ 20) div 2 ^ 21"
definition rest21 :: "int \<Rightarrow> int" where "rest21 x = (x + 2 ^ 20) mod 2 ^ 21 - 2 ^ 20"

lemmas carryRound_step = carryRound_exact [folded up21_def rest21_def]

lemma rest21: "- (2 ^ 20) \<le> rest21 x" "rest21 x < 2 ^ 20" "rest21 x = x - 2 ^ 21 * up21 x"
proof -
  show "- (2 ^ 20) \<le> rest21 x" "rest21 x < 2 ^ 20" by (simp_all add: rest21_def)
  show "rest21 x = x - 2 ^ 21 * up21 x"
    unfolding rest21_def up21_def minus_mult_div_eq_mod [symmetric] by simp
qed

lemma rest21_up: "0 \<le> u \<Longrightarrow> u \<le> 1 \<Longrightarrow> \<bar>rest21 x + u\<bar> \<le> 2 ^ 20 + 1"
  using rest21(1,2) [of x] by simp

lemma even_pass:
  assumes "\<And>x. x \<in> {a, b, c, d, e, f, g, h, i, j, k, l, m} \<Longrightarrow> \<bar>x\<bar> < 2 ^ 40"
  shows "fold carryRound [0, 2, 4, 6, 8, 10] [a, b, c, d, e, f, g, h, i, j, k, l, m] =
    [rest21 a, b + up21 a, rest21 c, d + up21 c, rest21 e, f + up21 e, rest21 g, h + up21 g, rest21 i, j + up21 i, rest21 k, l + up21 k, m]"
proof -
  have "\<bar>x\<bar> < 2 ^ 60" if "x \<in> {a, b, c, d, e, f, g, h, i, j, k, l, m}" for x using assms [OF that] by simp
  then show ?thesis by (simp add: carryRound_step)
qed

lemma odd_pass:
  assumes "\<And>x. x \<in> {a, b, c, d, e, f, g, h, i, j, k, l, m} \<Longrightarrow> \<bar>x\<bar> < 2 ^ 40"
  shows "fold carryRound [1, 3, 5, 7, 9, 11] [a, b, c, d, e, f, g, h, i, j, k, l, m] =
    [a, rest21 b, c + up21 b, rest21 d, e + up21 d, rest21 f, g + up21 f, rest21 h, i + up21 h, rest21 j, k + up21 j, rest21 l, m + up21 l]"
proof -
  have "\<bar>x\<bar> < 2 ^ 60" if "x \<in> {a, b, c, d, e, f, g, h, i, j, k, l, m}" for x using assms [OF that] by simp
  then show ?thesis by (simp add: carryRound_step)
qed

lemma up21_bounds: "0 \<le> x \<Longrightarrow> x \<le> 2 ^ 21 \<Longrightarrow> 0 \<le> up21 x \<and> up21 x \<le> 1" "0 \<le> x \<Longrightarrow> x \<le> 2 ^ 25 \<Longrightarrow> 0 \<le> up21 x \<and> up21 x \<le> 16"
  unfolding up21_def by simp_all linarith+

lemma rounding_pass:
  assumes "\<And>x. x \<in> {a, b, c, d, e, f, g, h, i, j, k} \<Longrightarrow> 0 \<le> x \<and> x < 2 ^ 21" and "0 \<le> l" "l < 2 ^ 25"
  defines "t \<equiv> fold carryRound [0, 2, 4, 6, 8, 10, 1, 3, 5, 7, 9, 11] [a, b, c, d, e, f, g, h, i, j, k, l, 0]"
  shows "length t = 13" and "val21 t = val21 [a, b, c, d, e, f, g, h, i, j, k, l, 0]" and "0 \<le> t ! 12" and "t ! 12 \<le> 16"
    and "\<And>x. x \<in> set (take 12 t) \<Longrightarrow> \<bar>x\<bar> \<le> 2 ^ 20 + 1"
proof -
  have r: "0 \<le> up21 x \<and> up21 x \<le> 1" if "x \<in> {a, b, c, d, e, f, g, h, i, j, k}" for x
    using up21_bounds(1) [of x] assms(1) [OF that] by simp
  have l: "0 \<le> l + up21 k" "l + up21 k \<le> 2 ^ 25" using r [of k] assms(2,3) by auto
  have o: "0 \<le> x + up21 y \<and> x + up21 y \<le> 2 ^ 21" if "x \<in> {a, b, c, d, e, f, g, h, i, j, k}" "y \<in> {a, b, c, d, e, f, g, h, i, j, k}" for x y
    using r [OF that(2)] assms(1) [OF that(1)] by auto
  let ?s = "[rest21 a, b + up21 a, rest21 c, d + up21 c, rest21 e, f + up21 e, rest21 g, h + up21 g, rest21 i, j + up21 i, rest21 k, l + up21 k, 0]"
  let ?t = "[rest21 a, rest21 (b + up21 a), rest21 c + up21 (b + up21 a), rest21 (d + up21 c), rest21 e + up21 (d + up21 c),
    rest21 (f + up21 e), rest21 g + up21 (f + up21 e), rest21 (h + up21 g), rest21 i + up21 (h + up21 g),
    rest21 (j + up21 i), rest21 k + up21 (j + up21 i), rest21 (l + up21 k), 0 + up21 (l + up21 k)]"
  have "\<bar>x\<bar> < 2 ^ 40" if "x \<in> {a, b, c, d, e, f, g, h, i, j, k, l, 0}" for x using assms(1) [of x] assms(2,3) that by auto
  then have "fold carryRound [0, 2, 4, 6, 8, 10] [a, b, c, d, e, f, g, h, i, j, k, l, 0] = ?s" by (rule even_pass)
  moreover have "\<bar>x\<bar> < 2 ^ 40" if "x \<in> set ?s" for x
  proof -
    have "\<bar>rest21 y\<bar> < 2 ^ 40" for y using rest21(1,2) [of y] by simp
    moreover have "\<bar>y + up21 z\<bar> < 2 ^ 40" if "y \<in> {a, b, c, d, e, f, g, h, i, j, k}" "z \<in> {a, b, c, d, e, f, g, h, i, j, k}" for y z
      using o [OF that] by simp
    ultimately show ?thesis using that l by auto
  qed
  then have "fold carryRound [1, 3, 5, 7, 9, 11] ?s = ?t" by (intro odd_pass) auto
  ultimately have t: "t = ?t" unfolding t_def
    using fold_append [of carryRound "[0, 2, 4, 6, 8, 10]" "[1, 3, 5, 7, 9, 11]"] by simp
  show "length t = 13" unfolding t by simp
  show "0 \<le> t ! 12" "t ! 12 \<le> 16" unfolding t using up21_bounds(2) [OF l] by simp_all
  show "\<bar>x\<bar> \<le> 2 ^ 20 + 1" if "x \<in> set (take 12 t)" for x
  proof -
    have "\<bar>rest21 y\<bar> \<le> 2 ^ 20 + 1" for y using rest21(1,2) [of y] by simp
    moreover have "\<bar>rest21 w + up21 (y + up21 z)\<bar> \<le> 2 ^ 20 + 1" if "y \<in> {a, b, c, d, e, f, g, h, i, j, k}" "z \<in> {a, b, c, d, e, f, g, h, i, j, k}" for w y z
      using up21_bounds(1) [of "y + up21 z"] o [OF that] by (intro rest21_up) auto
    ultimately show ?thesis using that unfolding t by auto
  qed
  have "val21 t = val21 ?s" unfolding t by (simp add: rest21(3) [of "b + up21 a"] rest21(3) [of "d + up21 c"] rest21(3) [of "f + up21 e"]
    rest21(3) [of "h + up21 g"] rest21(3) [of "j + up21 i"] rest21(3) [of "l + up21 k"])
  also have "\<dots> = val21 [a, b, c, d, e, f, g, h, i, j, k, l, 0]" by (simp add: rest21(3))
  finally show "val21 t = val21 [a, b, c, d, e, f, g, h, i, j, k, l, 0]" .
qed


section \<open>Bytes and limbs\<close>

lemma take_bit_join: "take_bit a X OR push_bit a (take_bit b (drop_bit a X)) = take_bit (a + b) X" for X :: int
  by (rule bit_eqI) (auto simp: bit_simps not_less)

lemma le_bytes_nth_hash: "k < 32 \<Longrightarrow> uint (le_bytes 32 h ! k) = take_bit 8 (drop_bit (8 * k) (uint (h :: hash)))"
  by (rule bit_eqI) (auto simp: le_bytes_def bit_simps)

lemma load3_eq: "k + 3 \<le> 32 \<Longrightarrow> load3 (drop k (le_bytes 32 h)) = take_bit 24 (drop_bit (8 * k) (uint (h :: hash)))"
proof -
  assume k: "k + 3 \<le> 32"
  let ?X = "drop_bit (8 * k) (uint h)"
  have "load3 (drop k (le_bytes 32 h)) = (take_bit 8 ?X OR push_bit 8 (take_bit 8 (drop_bit 8 ?X))) OR push_bit 16 (take_bit 8 (drop_bit 16 ?X))"
    using k by (simp add: load3_def le_bytes_nth_hash or.assoc add.commute)
  then show ?thesis using take_bit_join [of 8 ?X 8] take_bit_join [of 16 ?X 8] by simp
qed

lemma load4_eq: "k + 4 \<le> 32 \<Longrightarrow> load4 (drop k (le_bytes 32 h)) = take_bit 32 (drop_bit (8 * k) (uint (h :: hash)))"
proof -
  assume k: "k + 4 \<le> 32"
  let ?X = "drop_bit (8 * k) (uint h)"
  have "load4 (drop k (le_bytes 32 h)) = load3 (drop k (le_bytes 32 h)) OR push_bit 24 (take_bit 8 (drop_bit 24 ?X))"
    using k by (simp add: load4_def load3_def le_bytes_nth_hash or.assoc add.commute)
  then show ?thesis using k load3_eq [of k h] take_bit_join [of 24 ?X 8] by simp
qed

lemma limb_eq: "sh + 21 \<le> w \<Longrightarrow> 2097151 AND drop_bit sh (take_bit w (drop_bit n X)) = take_bit 21 (drop_bit (sh + n) X)" for X :: int
proof -
  assume "sh + 21 \<le> w"
  moreover have "2097151 AND y = take_bit 21 y" for y :: int by (simp add: take_bit_eq_mask mask_eq_exp_minus_1 and.commute)
  ultimately show ?thesis by (auto simp: bit_simps add.assoc add.commute [of sh n] intro!: bit_eqI)
qed

lemma limbs_eq:
  fixes h :: hash
  defines "X \<equiv> uint h"
  shows "limbs (le_bytes 32 h) = map (\<lambda>i. take_bit 21 (drop_bit (21 * i) X)) [0..<11] @ [drop_bit 231 X, 0]"
proof -
  have a: "2097151 AND drop_bit sh (load3 (drop k (le_bytes 32 h))) = take_bit 21 (drop_bit (sh + 8 * k) X)" if "k + 3 \<le> 32" "sh \<le> 3" for k sh
    using that by (simp add: load3_eq X_def limb_eq)
  have b: "2097151 AND drop_bit sh (load4 (drop k (le_bytes 32 h))) = take_bit 21 (drop_bit (sh + 8 * k) X)" if "k + 4 \<le> 32" "sh \<le> 11" for k sh
    using that by (simp add: load4_eq X_def limb_eq)
  have c: "drop_bit 7 (load4 (drop 28 (le_bytes 32 h))) = drop_bit 231 X"
    by (simp add: load4_eq X_def bit_eq_iff bit_simps) (auto dest: bit_imp_le_length simp: bit_uint_iff)
  have "[0..<11] = [0, 1, 2, 3, 4, 5, 6, 7, 8, 9, 10 :: nat]" by (simp add: upt_rec)
  then show ?thesis unfolding limbs_def
    using a [of 0 0] b [of 2 5] a [of 5 2] b [of 7 7] b [of 10 4] a [of 13 1] b [of 15 6] a [of 18 3] a [of 21 0] b [of 23 5] a [of 26 2] c
    by simp
qed

lemma val21_take_drop: "val21 (map (\<lambda>i. take_bit 21 (drop_bit (21 * i) X)) [0..<n]) + 2 ^ (21 * n) * drop_bit (21 * n) X = X"
proof (induction n)
  case (Suc n)
  have "take_bit 21 (drop_bit (21 * n) X) + 2 ^ 21 * drop_bit (21 * Suc n) X = drop_bit (21 * n) X"
    using bits_ident [of 21 "drop_bit (21 * n) X"] by (simp add: push_bit_eq_mult mult.commute add.commute)
  then show ?case using Suc.IH by (simp add: val21_append power_add algebra_simps flip: distrib_left)
qed simp

lemma limbs_value: "val21 (limbs (le_bytes 32 h)) = uint (h :: hash)"
  using val21_take_drop [of "uint h" 11] by (simp add: limbs_eq val21_append del: upt.simps)

text \<open>Limbs that are digits are the digits of their value.\<close>

lemma digits_val21:
  assumes "\<And>j. j < n \<Longrightarrow> 0 \<le> s ! j \<and> s ! j < 2 ^ 21" and "n < length s"
  shows "(\<forall>j < n. s ! j = take_bit 21 (drop_bit (21 * j) (val21 s))) \<and> drop_bit (21 * n) (val21 s) = val21 (drop n s)"
  using assms
proof (induction n arbitrary: s)
  case (Suc n)
  obtain x xs where s: "s = x # xs" using Suc.prems(2) by (cases s) auto
  have x: "0 \<le> x" "x < 2 ^ 21" using Suc.prems(1) [of 0] s by auto
  have "\<And>j. j < n \<Longrightarrow> 0 \<le> xs ! j \<and> xs ! j < 2 ^ 21" "n < length xs" using Suc.prems s by force+
  note IH = Suc.IH [OF this, THEN conjunct1, rule_format] Suc.IH [OF this, THEN conjunct2]
  have d: "drop_bit 21 (val21 s) = val21 xs" "take_bit 21 (val21 s) = x" using x unfolding s by (simp_all add: drop_bit_eq_div take_bit_eq_mod)
  have dd: "drop_bit (21 * Suc j) (val21 s) = drop_bit (21 * j) (val21 xs)" for j by (simp only: d(1) [symmetric] drop_bit_drop_bit mult_Suc_right) (simp add: add.commute)
  have "s ! j = take_bit 21 (drop_bit (21 * j) (val21 s))" if "j < Suc n" for j
  proof (cases j)
    case (Suc i)
    then show ?thesis using IH(1) [of i] dd [of i] that unfolding s by simp
  qed (use d(2) s in simp)
  then show ?case using IH(2) dd [of n] unfolding s by simp
qed simp

lemma pack_eq:
  fixes N :: int
  assumes "\<And>j. j < 11 \<Longrightarrow> s ! j = take_bit 21 (drop_bit (21 * j) N)" and "s ! 11 = drop_bit 231 N"
  shows "pack s = le_bytes 32 (word_of_int N :: hash)"
proof -
  have y: "bit (s ! j) n \<longleftrightarrow> (j = 11 \<or> n < 21) \<and> bit N (21 * j + n)" if "j < 12" for j n
    using assms(1) [of j] assms(2) that by (cases "j = 11") (simp_all add: bit_simps)
  have one: "word_of_int (drop_bit a (s ! j)) = (ucast (drop_bit (a + 21 * j) (word_of_int N :: hash)) :: byte)"
    if "j < 12" "j = 11 \<or> a + 8 \<le> 21" "a + 21 * j + 8 \<le> 256" for a j
    using that by (intro bit_word_eqI) (auto simp: bit_simps y ac_simps)
  have two: "word_of_int (drop_bit a (s ! j) OR push_bit d (s ! k)) = (ucast (drop_bit (a + 21 * j) (word_of_int N :: hash)) :: byte)"
    if "k = j + 1" "j < 11" "a + d = 21" "a + 21 * j + 8 \<le> 256" for a j d k
  proof (rule bit_word_eqI)
    fix n assume "n < LENGTH(8)"
    then have n: "n < 8" by simp
    show "bit (word_of_int (drop_bit a (s ! j) OR push_bit d (s ! k)) :: byte) n \<longleftrightarrow>
      bit (ucast (drop_bit (a + 21 * j) (word_of_int N :: hash)) :: byte) n"
    proof (cases "n < d")
      case True
      then show ?thesis using n that y [of j] by (auto simp: bit_simps ac_simps)
    next
      case False
      then have e: "21 * k + (n - d) = a + 21 * j + n" using that by simp
      have "k < 12" "n - d < 21" using that n by auto
      then have "bit (s ! k) (n - d) \<longleftrightarrow> bit N (a + 21 * j + n)" using y [of k "n - d"] unfolding e by blast
      moreover have "\<not> bit (s ! j) (a + n)" using y [of j "a + n"] that False by simp
      ultimately show ?thesis using n False that(4) by (simp add: bit_simps)
    qed
  qed
  have "[0..<32] = [0, 1, 2, 3, 4, 5, 6, 7, 8, 9, 10, 11, 12, 13, 14, 15, 16, 17, 18, 19, 20, 21, 22, 23, 24, 25, 26, 27, 28, 29, 30, 31 :: nat]"
    by (simp add: upt_rec)
  then show ?thesis unfolding pack_def le_bytes_def using two [of 5 4 20 1]
    by (simp add: one two one [where a = 0, unfolded drop_bit_0 id_apply])
qed

section \<open>Reduction\<close>

lemma reduce_arith:
  fixes X q r :: int
  assumes "X = r + q * 2 ^ 252" and "\<bar>r\<bar> \<le> (2 ^ 20 + 1) * val21 (replicate 12 1)" and "0 \<le> q" "q \<le> 16"
  defines "V \<equiv> X - q * L"
  shows "- 1 \<le> V div 2 ^ 252 \<and> V div 2 ^ 252 \<le> 0 \<and> V - V div 2 ^ 252 * L = X mod L"
proof -
  have "\<bar>r\<bar> < 2 ^ 251 + 2 ^ 240" using assms(2) by (simp add: eval_nat_numeral)
  moreover have "V = r - q * 27742317777372353535851937790883648493" by (simp add: V_def assms(1) L_def)
  moreover have "q * 27742317777372353535851937790883648493 < 2 ^ 240" "0 \<le> q * 27742317777372353535851937790883648493" using assms(3,4) by simp_all
  ultimately have V: "- (2 ^ 251 + 2 ^ 241) < V" "V < 2 ^ 251 + 2 ^ 241" by simp_all
  have L: "2 ^ 252 < L" by (simp add: L_def)
  have pos: "(0 :: int) < 2 ^ 252" by simp
  have "V div 2 ^ 252 = (if V < 0 then - 1 else 0)"
  proof (cases "V < 0")
    case True
    have "V div 2 ^ 252 = - 1" by (rule int_div_pos_eq [of _ _ _ "V + 2 ^ 252"]) (use True V in simp_all)
    with True show ?thesis by simp
  next
    case False
    then show ?thesis using V by (simp add: div_pos_pos_trivial)
  qed
  moreover have "V = X + L * (- q)" by (simp add: V_def)
  then have "V mod L = X mod L" by (simp only: mod_mult_self2)
  moreover have "V mod L = (if V < 0 then V + L else V)"
  proof (cases "V < 0")
    case True
    have "0 \<le> V + L" "V + L < L" using True V L by simp_all
    then have "(V + L) mod L = V + L" by (rule mod_pos_pos_trivial)
    then show ?thesis using True by simp
  next
    case False
    then show ?thesis using V L by simp
  qed
  ultimately show ?thesis by auto
qed

lemma reduced_limbs:
  fixes h :: hash
  defines "t \<equiv> fold carryRound [0, 2, 4, 6, 8, 10, 1, 3, 5, 7, 9, 11] (limbs (le_bytes 32 h))"
  shows "length t = 13" and "val21 t = uint h" and "0 \<le> t ! 12" and "t ! 12 \<le> 16" and "\<And>x. x \<in> set (take 12 t) \<Longrightarrow> \<bar>x\<bar> \<le> 2 ^ 20 + 1"
proof -
  define d where "d i = take_bit 21 (drop_bit (21 * i) (uint h))" for i
  have l: "limbs (le_bytes 32 h) = [d 0, d 1, d 2, d 3, d 4, d 5, d 6, d 7, d 8, d 9, d 10, drop_bit 231 (uint h), 0]"
    unfolding limbs_eq d_def by (simp add: upt_rec)
  have d: "0 \<le> d i \<and> d i < 2 ^ 21" for i unfolding d_def by (simp only: take_bit_nonnegative take_bit_int_less_exp)
  have "uint h < 2 ^ 256" using uint_lt2p [of h] by simp
  then have "drop_bit 231 (uint h) < 2 ^ 25" by (simp add: drop_bit_eq_div)
  moreover have "0 \<le> drop_bit 231 (uint h)" by simp
  moreover have ds: "0 \<le> x \<and> x < 2 ^ 21" if "x \<in> {d 0, d 1, d 2, d 3, d 4, d 5, d 6, d 7, d 8, d 9, d 10}" for x using that d by auto
  note p = rounding_pass [of "d 0" "d 1" "d 2" "d 3" "d 4" "d 5" "d 6" "d 7" "d 8" "d 9" "d 10" "drop_bit 231 (uint h)", OF ds, folded l t_def]
  ultimately show "length t = 13" "val21 t = uint h" "0 \<le> t ! 12" "t ! 12 \<le> 16" "\<And>x. x \<in> set (take 12 t) \<Longrightarrow> \<bar>x\<bar> \<le> 2 ^ 20 + 1"
    by (simp_all only: p limbs_value)
qed

lemma nth_12: "length s = 13 \<Longrightarrow> s = take 12 s @ [s ! 12]"
  using take_Suc_conv_app_nth [of 12 s] by simp

lemma update_12: "length s = 13 \<Longrightarrow> s[12 := v] = take 12 s @ [v]"
  by (simp add: upd_conv_take_nth_drop)

lemma scReduce32_eq:
  fixes h :: hash
  shows "scReduce32 (le_bytes 32 h) = le_bytes 32 (word_of_int (uint h mod L) :: hash)"
proof -
  define t where "t = fold carryRound [0, 2, 4, 6, 8, 10, 1, 3, 5, 7, 9, 11] (limbs (le_bytes 32 h))"
  note t = reduced_limbs [where h = h, folded t_def]
  have "val21 t = val21 (take 12 t) + t ! 12 * 2 ^ 252" by (subst nth_12 [OF t(1)]) (simp add: val21_append t(1))
  then have r: "uint h = val21 (take 12 t) + t ! 12 * 2 ^ 252" using t(2) by simp
  have "\<bar>val21 (take 12 t)\<bar> \<le> (2 ^ 20 + 1) * val21 (replicate 12 1)" using val21_bound [of "take 12 t"] t(1,5) by simp
  note v = reduce_arith [OF r this t(3,4)]
  have small: "\<bar>x\<bar> < 2 ^ 40" if "x \<in> set t" for x
  proof -
    have "x \<in> set (take 12 t) \<or> x = t ! 12" using that nth_12 [OF t(1)] by (metis Un_iff empty_iff insert_iff list.set set_append)
    then show ?thesis using t(3,4) t(5) [of x] by auto
  qed
  have "\<bar>t ! 12\<bar> \<le> 16" using t(3,4) by simp
  note f = foldTop_exact [OF t(1) small this]
  define u where "u = (foldTop t)[12 := 0]"
  have u0: "u = take 12 (foldTop t) @ [0]" unfolding u_def by (rule update_12 [OF f(1)])
  have u: "length u = 13" "val21 u = uint h - t ! 12 * L" "\<And>x. x \<in> set u \<Longrightarrow> \<bar>x\<bar> < 2 ^ 50"
    using f(1,3,4) t(2) by (auto simp: u0 val21_append dest: in_set_takeD)
  define w where "w = fold carry [0..<12] u"
  have w: "length w = 13" "val21 w = uint h - t ! 12 * L" "\<And>j. j < 12 \<Longrightarrow> 0 \<le> w ! j \<and> w ! j < 2 ^ 21"
    using carries [of 12 u, OF _ u(3)] u(1,2) by (simp_all add: w_def)
  have "val21 (drop 12 w) = w ! 12" using w(1) nth_12 [OF w(1)] by (metis append_eq_conv_conj append_take_drop_id mult_zero_right val21.simps add.right_neutral)
  then have wtop: "w ! 12 = (uint h - t ! 12 * L) div 2 ^ 252"
    using digits_val21 [of 12 w, OF w(3)] w(1,2) by (simp add: drop_bit_eq_div)
  have "\<bar>w ! 12\<bar> \<le> 16" using v unfolding wtop by linarith
  moreover have "\<bar>x\<bar> < 2 ^ 40" if "x \<in> set w" for x
  proof -
    obtain i where i: "i < 13" "x = w ! i" using \<open>x \<in> set w\<close> w(1) by (auto simp: in_set_conv_nth)
    show ?thesis using w(3) [of i] i \<open>\<bar>w ! 12\<bar> \<le> 16\<close> by (cases "i = 12") simp_all
  qed
  ultimately have g: "length (foldTop w) = 13" "\<And>x. x \<in> set (foldTop w) \<Longrightarrow> \<bar>x\<bar> < 2 ^ 50" "val21 (take 12 (foldTop w)) = uint h mod L"
    using foldTop_exact [OF w(1)] w(2) v wtop by simp_all
  define y where "y = fold carry [0..<11] (foldTop w)"
  have y: "length y = 13" "val21 y = val21 (foldTop w)" "\<And>j. j < 11 \<Longrightarrow> 0 \<le> y ! j \<and> y ! j < 2 ^ 21" "y ! 12 = foldTop w ! 12"
    using carries [of 11 "foldTop w", OF _ g(2)] g(1) by (simp_all add: y_def)
  have split: "val21 z = val21 (take 12 z) + z ! 12 * 2 ^ 252" if "length z = 13" for z
    by (subst nth_12 [OF that]) (simp add: val21_append that)
  have N: "val21 (take 12 y) = uint h mod L" using split [OF y(1)] split [OF g(1)] y(2,4) g(3) by simp
  have "drop 11 (take 12 y) = [y ! 11]" using y(1) by (simp add: drop_take take_Suc_conv_app_nth [of 0, simplified] hd_drop_conv_nth)
  then have "y ! 11 = drop_bit 231 (uint h mod L)" "\<And>j. j < 11 \<Longrightarrow> y ! j = take_bit 21 (drop_bit (21 * j) (uint h mod L))"
    using digits_val21 [of 11 "take 12 y"] y(1,3) N by simp_all
  then have "pack y = le_bytes 32 (word_of_int (uint h mod L) :: hash)" by (intro pack_eq)
  then show ?thesis unfolding scReduce32_def Let_def upt_list t_def [symmetric] u_def [symmetric] w_def [symmetric] y_def [symmetric] by simp
qed

text \<open>C31: scalar reduction.  \<^verbatim>\<open>scReduce32\<close> replaces 32 bytes by the little-endian bytes of their value modulo the order \<open>L\<close> of
  the base point, the canonical form; the wrap-around of its \<^verbatim>\<open>int64\<close> variables never matters.\<close>

theorem scReduce32_correct:
  fixes h :: hash
  shows "scReduce32 (le_bytes 32 h) = le_bytes 32 (word_of_int (uint h mod L) :: hash)"
  by (rule scReduce32_eq)

section \<open>The test against the limit\<close>

lemma take_byte: "take_bit (8 * Suc n) (uint h) = take_bit (8 * n) (uint h) + 2 ^ (8 * n) * uint (le_bytes 32 (h :: hash) ! n)" if "n < 32"
proof -
  have "take_bit (8 * Suc n) (uint h) = take_bit (8 * n) (uint h) OR push_bit (8 * n) (take_bit 8 (drop_bit (8 * n) (uint h)))"
    using take_bit_join [of "8 * n" "uint h" 8] by (simp add: add.commute)
  also have "\<dots> = take_bit (8 * n) (uint h) + push_bit (8 * n) (take_bit 8 (drop_bit (8 * n) (uint h)))"
    by (rule disjunctive_add [symmetric]) (auto simp: bit_simps)
  finally show ?thesis using that by (simp add: le_bytes_nth_hash push_bit_eq_mult mult.commute)
qed

lemma less32Loop_iff: "n \<le> 32 \<Longrightarrow> less32Loop (le_bytes 32 x) (le_bytes 32 y) n \<longleftrightarrow> take_bit (8 * n) (uint (x :: hash)) < take_bit (8 * n) (uint (y :: hash))"
proof (induction n)
  case (Suc n)
  let ?x = "le_bytes 32 x ! n" and ?y = "le_bytes 32 y ! n"
  have b: "take_bit (8 * n) (uint z) < 2 ^ (8 * n)" "0 \<le> take_bit (8 * n) (uint z)" for z :: hash by simp_all
  have lt: "take_bit (8 * n) (uint u) + 2 ^ (8 * n) * a < take_bit (8 * n) (uint v) + 2 ^ (8 * n) * c" if "a < c" for u v :: hash and a c :: int
  proof -
    have "2 ^ (8 * n) * (a + 1) \<le> (2 ^ (8 * n) * c :: int)" using that by simp
    then have "2 ^ (8 * n) * a + 2 ^ (8 * n) \<le> (2 ^ (8 * n) * c :: int)" by (simp only: distrib_left mult_1_right)
    then show ?thesis using b(1) [of u] b(2) [of v] by linarith
  qed
  have n: "n < 32" using Suc.prems by simp
  consider "uint ?x < uint ?y" | "uint ?y < uint ?x" | "uint ?x = uint ?y" by linarith
  then show ?case
  proof cases
    case 1
    then show ?thesis unfolding take_byte [OF n, of x] take_byte [OF n, of y] using lt by (simp add: word_less_def)
  next
    case 2
    then have "\<not> take_bit (8 * n) (uint x) + 2 ^ (8 * n) * uint ?x < take_bit (8 * n) (uint y) + 2 ^ (8 * n) * uint ?y"
      using lt [of "uint ?y" "uint ?x" y x] by simp
    with 2 show ?thesis unfolding take_byte [OF n, of x] take_byte [OF n, of y] by (simp add: word_less_def)
  next
    case 3
    then show ?thesis unfolding take_byte [OF n, of x] take_byte [OF n, of y] using Suc by (simp add: word_less_def)
  qed
qed simp

lemma less32_iff: "less32 (le_bytes 32 x) (le_bytes 32 y) \<longleftrightarrow> x < (y :: hash)"
proof -
  have "take_bit 256 (uint z) = uint z" for z :: hash using uint_lt2p [of z] by (simp add: take_bit_int_eq_self)
  then show ?thesis using less32Loop_iff [of 32 x y] by (simp add: less32_def word_less_def)
qed

lemma limit_eq: "limit = le_bytes 32 (word_of_int (15 * L) :: hash)"
proof -
  have "le_word limit = (word_of_int (15 * L) :: hash)" by (simp add: limit_def L_def)
  moreover have "length limit = 32" by (simp add: limit_def)
  then have "le_bytes 32 (le_word limit :: hash) = limit" using le_bytes_le_word [of limit, where 'a = 256] by simp
  ultimately show ?thesis by simp
qed

lemma less32_limit: "less32 (le_bytes 32 h) limit \<longleftrightarrow> uint (h :: hash) < 15 * L"
proof -
  have "uint (word_of_int (15 * L) :: hash) = 15 * L" by (simp add: L_def)
  then show ?thesis unfolding limit_eq less32_iff by (simp add: word_less_def)
qed

end
