(* ===== verification/Keys.thy ===== *)
theory Keys
  imports Scalars Shares
begin

text \<open>
  Keys and what is computed with them: monero/crypto (private.go, public.go, keypair.go, hash.go, random.go, derivations.go, signature.go, comm.go),
  monero/address/crypto.go and p2pool/crypto/crypto.go.

  Arithmetic on points and scalars is the third-party package \<^verbatim>\<open>edwards25519\<close>, the record \<open>curve\<close> with the
  laws \<open>curve_ok\<close>; keccak is the parameter \<open>K\<close>.  The interfaces \<^verbatim>\<open>PublicKey\<close> and \<^verbatim>\<open>PrivateKey\<close> are datatypes with one
  constructor for each implementation.  A nil pointer is \<open>None\<close>; using one panics.  Pools of
  hashers, points and scalars only save allocations.
\<close>

section \<open>The curve\<close>

record ('p, 's) curve =
  k_SetCanonicalBytes :: "byte list \<Rightarrow> 's option"
  k_ScalarBytes :: "'s \<Rightarrow> byte list"
  k_NewScalar :: 's
  k_SMultiply :: "'s \<Rightarrow> 's \<Rightarrow> 's"
  k_SSubtract :: "'s \<Rightarrow> 's \<Rightarrow> 's"
  k_SetBytes :: "byte list \<Rightarrow> 'p option"
  k_PointBytes :: "'p \<Rightarrow> byte list"
  k_NewIdentityPoint :: 'p
  k_Add :: "'p \<Rightarrow> 'p \<Rightarrow> 'p"
  k_MultByCofactor :: "'p \<Rightarrow> 'p"
  k_ScalarBaseMult :: "'s \<Rightarrow> 'p"
  k_ScalarMult :: "'s \<Rightarrow> 'p \<Rightarrow> 'p"
  k_UnsafeVarTimeScalarMult :: "'s \<Rightarrow> 'p \<Rightarrow> 'p"
  k_VarTimeDoubleScalarBaseMult :: "'s \<Rightarrow> 'p \<Rightarrow> 's \<Rightarrow> 'p"

text \<open>What the package documents: scalars are the numbers below \<open>L\<close> and have canonical bytes; a point is
  decoded from its bytes; multiples of the base point add up as their scalars do.\<close>

definition curve_ok :: "('p, 's) curve \<Rightarrow> bool" where
  "curve_ok C \<longleftrightarrow>
    (\<forall>h :: hash. (\<exists>s. k_SetCanonicalBytes C (le_bytes 32 h) = Some s) \<longleftrightarrow> uint h < L) \<and>
    (\<forall>b s. k_SetCanonicalBytes C b = Some s \<longrightarrow> k_ScalarBytes C s = b) \<and>
    (\<forall>s. k_SetCanonicalBytes C (k_ScalarBytes C s) = Some s) \<and>
    k_ScalarBytes C (k_NewScalar C) = le_bytes 32 (0 :: hash) \<and>
    (\<forall>p. length (k_PointBytes C p) = 32 \<and> k_SetBytes C (k_PointBytes C p) = Some p) \<and>
    k_UnsafeVarTimeScalarMult C = k_ScalarMult C \<and>
    (\<forall>a p b. k_VarTimeDoubleScalarBaseMult C a p b = k_Add C (k_ScalarMult C a p) (k_ScalarBaseMult C b)) \<and>
    (\<forall>a b. k_ScalarMult C a (k_ScalarBaseMult C b) = k_ScalarBaseMult C (k_SMultiply C a b)) \<and>
    (\<forall>a b. k_Add C (k_ScalarBaseMult C b) (k_ScalarBaseMult C (k_SSubtract C a b)) = k_ScalarBaseMult C a) \<and>
    (\<forall>a. k_ScalarBaseMult C a = k_NewIdentityPoint C \<longleftrightarrow> a = k_NewScalar C) \<and>
    (\<forall>s. length (k_ScalarBytes C s) = 32)"

lemma curve_okD:
  assumes "curve_ok C"
  shows "uint h < L \<Longrightarrow> \<exists>s. k_SetCanonicalBytes C (le_bytes 32 (h :: hash)) = Some s"
    and "k_SetCanonicalBytes C b = Some s \<Longrightarrow> k_ScalarBytes C s = b"
    and "k_SetCanonicalBytes C (k_ScalarBytes C s) = Some s"
    and "k_ScalarBytes C (k_NewScalar C) = le_bytes 32 (0 :: hash)"
    and "length (k_PointBytes C p) = 32" and "k_SetBytes C (k_PointBytes C p) = Some p"
    and "k_UnsafeVarTimeScalarMult C = k_ScalarMult C"
    and "k_VarTimeDoubleScalarBaseMult C a p c = k_Add C (k_ScalarMult C a p) (k_ScalarBaseMult C c)"
    and "k_ScalarMult C a (k_ScalarBaseMult C c) = k_ScalarBaseMult C (k_SMultiply C a c)"
    and "k_Add C (k_ScalarBaseMult C c) (k_ScalarBaseMult C (k_SSubtract C a c)) = k_ScalarBaseMult C a"
    and "k_ScalarBaseMult C a = k_NewIdentityPoint C \<longleftrightarrow> a = k_NewScalar C"
    and "length (k_ScalarBytes C s) = 32"
  using assms unfolding curve_ok_def by auto

definition mod_L :: "int \<Rightarrow> hash" where
  "mod_L x = word_of_int (x mod L)"

lemma le_bytes_inject [simp]: "le_bytes 32 x = le_bytes 32 y \<longleftrightarrow> x = (y :: hash)"
proof -
  have "le_word (le_bytes 32 w) = (w :: hash)" for w by (rule le_word_le_bytes) simp
  then show ?thesis by metis
qed

lemma L_pos: "0 < L" "L < 2 ^ 256"
  by (simp_all add: L_def)

lemma uint_mod_L: "uint (mod_L x) = x mod L"
proof -
  have "0 \<le> x mod L" "x mod L < 2 ^ 256" using L_pos pos_mod_bound [of L x] pos_mod_sign [of L x] by linarith+
  then show ?thesis by (simp add: mod_L_def uint_word_of_int_eq take_bit_int_eq_self)
qed

text \<open>A curve that satisfies the laws: scalars are the numbers below \<open>L\<close>, and points are their discrete logarithms.\<close>

typedef residue = "{x :: int. 0 \<le> x \<and> x < L}"
  by (rule exI [of _ 0]) (simp add: L_pos)

definition residue_bytes :: "residue \<Rightarrow> byte list" where
  "residue_bytes x = le_bytes 32 (mod_L (Rep_residue x))"

definition residue_of :: "byte list \<Rightarrow> residue option" where
  "residue_of b = (if length b = 32 \<and> uint (le_word b :: hash) < L then Some (Abs_residue (uint (le_word b :: hash))) else None)"

definition residue_mod :: "int \<Rightarrow> residue" where
  "residue_mod x = Abs_residue (x mod L)"

definition ref_curve :: "(residue, residue) curve" where
  "ref_curve = \<lparr>k_SetCanonicalBytes = residue_of, k_ScalarBytes = residue_bytes, k_NewScalar = residue_mod 0,
     k_SMultiply = (\<lambda>a b. residue_mod (Rep_residue a * Rep_residue b)),
     k_SSubtract = (\<lambda>a b. residue_mod (Rep_residue a - Rep_residue b)),
     k_SetBytes = residue_of, k_PointBytes = residue_bytes, k_NewIdentityPoint = residue_mod 0,
     k_Add = (\<lambda>a b. residue_mod (Rep_residue a + Rep_residue b)),
     k_MultByCofactor = (\<lambda>a. residue_mod (8 * Rep_residue a)),
     k_ScalarBaseMult = id,
     k_ScalarMult = (\<lambda>a b. residue_mod (Rep_residue a * Rep_residue b)),
     k_UnsafeVarTimeScalarMult = (\<lambda>a b. residue_mod (Rep_residue a * Rep_residue b)),
     k_VarTimeDoubleScalarBaseMult = (\<lambda>a p b. residue_mod (Rep_residue (residue_mod (Rep_residue a * Rep_residue p)) + Rep_residue b))\<rparr>"

lemma Rep_residue_mod [simp]: "Rep_residue (residue_mod x) = x mod L"
  by (simp add: residue_mod_def Abs_residue_inverse L_pos)

lemma Rep_residue_range: "0 \<le> Rep_residue x" "Rep_residue x < L"
  using Rep_residue [of x] by simp_all

lemma residue_mod_Rep [simp]: "residue_mod (Rep_residue x) = x"
  using Rep_residue_range [of x] by (simp add: residue_mod_def Rep_residue_inverse)

lemma residue_of_bytes: "residue_of (residue_bytes x) = Some x"
  using Rep_residue_range [of x]
  by (simp add: residue_of_def residue_bytes_def le_word_le_bytes uint_mod_L Rep_residue_inverse)

lemma residue_bytes_of: "residue_of b = Some x \<Longrightarrow> residue_bytes x = b"
proof -
  assume a: "residue_of b = Some x"
  then have b: "length b = 32" "uint (le_word b :: hash) < L" "x = Abs_residue (uint (le_word b :: hash))"
    by (auto simp: residue_of_def split: if_splits)
  then have "mod_L (Rep_residue x) = le_word b" by (simp add: Abs_residue_inverse mod_L_def)
  then show ?thesis using b(1) le_bytes_le_word [of b, where 'a = 256] by (simp add: residue_bytes_def)
qed

lemma ref_curve_ok: "curve_ok ref_curve"
proof -
  have eq: "x = y \<longleftrightarrow> Rep_residue x = Rep_residue y" for x y by (simp add: Rep_residue_inject)
  have "(\<exists>s. residue_of (le_bytes 32 h) = Some s) \<longleftrightarrow> uint h < L" for h :: hash
    by (simp add: residue_of_def le_word_le_bytes)
  moreover have "residue_bytes (residue_mod 0) = le_bytes 32 (0 :: hash)" by (simp add: residue_bytes_def mod_L_def)
  moreover have "length (residue_bytes p) = 32" for p by (simp add: residue_bytes_def)
  moreover have "residue_mod (Rep_residue b + Rep_residue (residue_mod (Rep_residue a - Rep_residue b))) = a" for a b
    using Rep_residue_range [of a] by (simp add: eq mod_simps)
  ultimately show ?thesis
    unfolding curve_ok_def ref_curve_def by (simp add: residue_of_bytes residue_bytes_of)
qed

section \<open>Scalars from hashes\<close>

definition BytesToScalar :: "('p, 's) curve \<Rightarrow> byte list \<Rightarrow> 's option" where
  "BytesToScalar C buf = k_SetCanonicalBytes C (scReduce32 (take 32 buf))"

definition HashToScalar :: "('p, 's) curve \<Rightarrow> (byte list \<Rightarrow> hash) \<Rightarrow> byte list \<Rightarrow> 's option" where
  "HashToScalar C K data = k_SetCanonicalBytes C (scReduce32 (le_bytes 32 (K data)))"

text \<open>\<^verbatim>\<open>RandomScalar\<close> reads 32 bytes at a time; \<open>rand i\<close> is what the \<open>i\<close>-th read delivers, \<open>None\<close> for an error.
  The outer option is \<open>None\<close> if the loop does not end, the inner one is the pointer returned.\<close>

partial_function (option) randomLoop :: "('p, 's) curve \<Rightarrow> (nat \<Rightarrow> hash option) \<Rightarrow> nat \<Rightarrow> 's option result option" where
  "randomLoop C rand i =
    (case rand i of
       None \<Rightarrow> Some (Inr None)
     | Some buf \<Rightarrow>
         if \<not> less32 (le_bytes 32 buf) limit then randomLoop C rand (i + 1)
         else case BytesToScalar C (le_bytes 32 buf) of
           None \<Rightarrow> Some (Inl (Panic ''nil pointer dereference''))
         | Some scalar \<Rightarrow> if scalar \<noteq> k_NewScalar C then Some (Inr (Some scalar)) else randomLoop C rand (i + 1))"

definition RandomScalar :: "('p, 's) curve \<Rightarrow> (nat \<Rightarrow> hash option) \<Rightarrow> 's option result option" where
  "RandomScalar C rand = randomLoop C rand 0"

text \<open>\<^verbatim>\<open>DeterministicScalar\<close> appends a 32-bit counter to the entropy, which starts at one and wraps.\<close>

partial_function (option) deterministicLoop ::
  "('p, 's) curve \<Rightarrow> (byte list \<Rightarrow> hash) \<Rightarrow> byte list \<Rightarrow> u32 \<Rightarrow> 's result option" where
  "deterministicLoop C K entropy counter =
    (let counter = counter + 1; h = K (entropy @ le_bytes 4 counter) in
     if \<not> less32 (le_bytes 32 h) limit then deterministicLoop C K entropy counter
     else case k_SetCanonicalBytes C (scReduce32 (le_bytes 32 h)) of
       None \<Rightarrow> Some (Inl (Panic ''nil pointer dereference''))
     | Some scalar \<Rightarrow> if scalar \<noteq> k_NewScalar C then Some (Inr scalar) else deterministicLoop C K entropy counter)"

definition DeterministicScalar :: "('p, 's) curve \<Rightarrow> (byte list \<Rightarrow> hash) \<Rightarrow> byte list \<Rightarrow> 's result option" where
  "DeterministicScalar C K entropy = deterministicLoop C K entropy 0"

definition GetDeterministicTransactionPrivateKey ::
  "('p, 's) curve \<Rightarrow> (byte list \<Rightarrow> hash) \<Rightarrow> hash \<Rightarrow> hash \<Rightarrow> 's result option" where
  "GetDeterministicTransactionPrivateKey C K seed previousMoneroId =
    DeterministicScalar C K (ascii ''tx_secret_key'' @ le_bytes 32 seed @ le_bytes 32 previousMoneroId)"


lemma reduced_scalar:
  assumes "curve_ok C"
  obtains s where "k_SetCanonicalBytes C (scReduce32 (le_bytes 32 h)) = Some s" and "k_ScalarBytes C s = le_bytes 32 (mod_L (uint (h :: hash)))"
    and "s = k_NewScalar C \<longleftrightarrow> uint h mod L = 0"
proof -
  have "uint (mod_L (uint h)) < L" unfolding uint_mod_L using L_pos by simp
  then obtain s where s: "k_SetCanonicalBytes C (le_bytes 32 (mod_L (uint h))) = Some s" using curve_okD(1) [OF assms] by blast
  have b: "k_ScalarBytes C s = le_bytes 32 (mod_L (uint h))" by (rule curve_okD(2) [OF assms s])
  have "s = k_NewScalar C \<longleftrightarrow> k_ScalarBytes C s = k_ScalarBytes C (k_NewScalar C)"
    using curve_okD(3) [OF assms] by (metis option.inject)
  also have "\<dots> \<longleftrightarrow> mod_L (uint h) = 0"
    unfolding b curve_okD(4) [OF assms] by simp
  also have "\<dots> \<longleftrightarrow> uint h mod L = 0" using uint_mod_L [of "uint h"] by (metis uint_0_iff)
  finally show thesis using that [of s] s b unfolding scReduce32_eq mod_L_def by simp
qed


text \<open>A counter is usable if its hash is below the limit, a multiple of \<open>L\<close>, and not itself a multiple of \<open>L\<close>.\<close>

definition usable :: "(byte list \<Rightarrow> hash) \<Rightarrow> byte list \<Rightarrow> u32 \<Rightarrow> bool" where
  "usable K entropy c \<longleftrightarrow> uint (K (entropy @ le_bytes 4 c)) < 15 * L \<and> uint (K (entropy @ le_bytes 4 c)) mod L \<noteq> 0"

lemma deterministicLoop_step:
  assumes "curve_ok C"
  shows "\<not> usable K e (counter + 1) \<Longrightarrow> deterministicLoop C K e counter = deterministicLoop C K e (counter + 1)"
    and "usable K e (counter + 1) \<Longrightarrow> \<exists>s. deterministicLoop C K e counter = Some (Inr s) \<and> s \<noteq> k_NewScalar C \<and>
      k_ScalarBytes C s = le_bytes 32 (mod_L (uint (K (e @ le_bytes 4 (counter + 1)))))"
proof -
  let ?h = "K (e @ le_bytes 4 (counter + 1))"
  obtain s where s: "k_SetCanonicalBytes C (scReduce32 (le_bytes 32 ?h)) = Some s"
    "k_ScalarBytes C s = le_bytes 32 (mod_L (uint ?h))" "s = k_NewScalar C \<longleftrightarrow> uint ?h mod L = 0"
    by (rule reduced_scalar [OF assms])
  show "\<not> usable K e (counter + 1) \<Longrightarrow> deterministicLoop C K e counter = deterministicLoop C K e (counter + 1)"
    using s by (subst deterministicLoop.simps) (auto simp: usable_def less32_limit Let_def)
  show "usable K e (counter + 1) \<Longrightarrow> \<exists>s. deterministicLoop C K e counter = Some (Inr s) \<and> s \<noteq> k_NewScalar C \<and>
      k_ScalarBytes C s = le_bytes 32 (mod_L (uint ?h))"
    using s by (subst deterministicLoop.simps) (auto simp: usable_def less32_limit Let_def)
qed

lemma deterministicLoop_finds:
  assumes "curve_ok C" and "usable K e c" and "\<And>d. d - 1 < c - 1 \<Longrightarrow> \<not> usable K e d" and "k \<le> unat (c - 1)"
  shows "\<exists>s. deterministicLoop C K e (of_nat (unat (c - 1) - k)) = Some (Inr s) \<and> s \<noteq> k_NewScalar C \<and>
    k_ScalarBytes C s = le_bytes 32 (mod_L (uint (K (e @ le_bytes 4 c))))"
  using assms(4)
proof (induction k)
  case 0
  show ?case using deterministicLoop_step(2) [OF assms(1), of K e "c - 1"] assms(2) by simp
next
  case (Suc k)
  let ?d = "of_nat (unat (c - 1) - Suc k) :: u32"
  have "Suc (unat (c - 1) - Suc k) = unat (c - 1) - k" using Suc.prems by simp
  then have d: "?d + 1 = of_nat (unat (c - 1) - k)" by (metis of_nat_Suc add.commute)
  have "unat (c - 1) < 2 ^ 32" using unsigned_less [of "c - 1", where ?'a = nat] by simp
  then have "unat ?d = unat (c - 1) - Suc k" by (simp add: unat_of_nat take_bit_eq_mod)
  then have "?d < c - 1" using Suc.prems by (simp add: word_less_nat_alt)
  then have "\<not> usable K e (?d + 1)" by (intro assms(3)) simp
  then show ?case using Suc deterministicLoop_step(1) [OF assms(1), of K e ?d] unfolding d by simp
qed

text \<open>C32: deterministic keys.  If any counter is usable, the search for a deterministic scalar ends without panic, at the first
  usable counter in the order 1, 2, 3, \dots, with a non-zero scalar: the hash with that
  counter, modulo the order of the base point.  The hashes it accepts lie below a multiple of that order, so
  that the reduction favours no scalar.\<close>

theorem DeterministicScalar_correct:
  assumes "curve_ok C" and "usable K e c0"
  shows "\<exists>c s. usable K e c \<and> (\<forall>d. d - 1 < c - 1 \<longrightarrow> \<not> usable K e d) \<and> DeterministicScalar C K e = Some (Inr s) \<and>
    s \<noteq> k_NewScalar C \<and> k_ScalarBytes C s = le_bytes 32 (mod_L (uint (K (e @ le_bytes 4 c))))"
proof -
  obtain c where c: "usable K e c" "\<And>d. usable K e d \<Longrightarrow> unat (c - 1) \<le> unat (d - 1)"
    using ex_has_least_nat [of "usable K e" c0 "\<lambda>c. unat (c - 1)"] assms(2) by blast
  then have first: "\<not> usable K e d" if "d - 1 < c - 1" for d using that by (auto simp: word_less_nat_alt not_le [symmetric])
  show ?thesis using deterministicLoop_finds [OF assms(1) c(1) first, of "unat (c - 1)"] c(1) first by (auto simp: DeterministicScalar_def)
qed

theorem DeterministicScalar_correct_witness:
  "\<exists>s. DeterministicScalar ref_curve (\<lambda>_. 5) [] = Some (Inr s) \<and> k_ScalarBytes ref_curve s = le_bytes 32 (5 :: hash)"
proof -
  have "usable (\<lambda>_. 5) [] 1" by (simp add: usable_def L_def)
  from DeterministicScalar_correct [OF ref_curve_ok this] show ?thesis by (auto simp: mod_L_def L_def)
qed


section \<open>Public and private keys\<close>

datatype 'p PublicKey = PublicKeyPoint 'p | PublicKeyBytes hash | PublicKeySlice "byte list"
datatype 's PrivateKey = PrivateKeyScalar 's | PrivateKeyBytes hash | PrivateKeySlice "byte list"

fun PublicKey_AsSlice :: "('p, 's) curve \<Rightarrow> 'p PublicKey \<Rightarrow> byte list" where
  "PublicKey_AsSlice C (PublicKeyPoint p) = k_PointBytes C p"
| "PublicKey_AsSlice C (PublicKeyBytes h) = le_bytes 32 h"
| "PublicKey_AsSlice C (PublicKeySlice b) = b"

fun PublicKey_AsBytes :: "('p, 's) curve \<Rightarrow> 'p PublicKey \<Rightarrow> hash" where
  "PublicKey_AsBytes C (PublicKeyPoint p) = le_word (take 32 (k_PointBytes C p))"
| "PublicKey_AsBytes C (PublicKeyBytes h) = h"
| "PublicKey_AsBytes C (PublicKeySlice b) = le_word (take 32 b)"

fun AsPoint :: "('p, 's) curve \<Rightarrow> 'p PublicKey \<Rightarrow> 'p option" where
  "AsPoint C (PublicKeyPoint p) = Some p"
| "AsPoint C (PublicKeyBytes h) = k_SetBytes C (le_bytes 32 h)"
| "AsPoint C (PublicKeySlice b) = k_SetBytes C b"

fun PrivateKey_AsSlice :: "('p, 's) curve \<Rightarrow> 's PrivateKey \<Rightarrow> byte list" where
  "PrivateKey_AsSlice C (PrivateKeyScalar s) = k_ScalarBytes C s"
| "PrivateKey_AsSlice C (PrivateKeyBytes h) = le_bytes 32 h"
| "PrivateKey_AsSlice C (PrivateKeySlice b) = b"

fun PrivateKey_AsBytes :: "('p, 's) curve \<Rightarrow> 's PrivateKey \<Rightarrow> hash" where
  "PrivateKey_AsBytes C (PrivateKeyScalar s) = le_word (take 32 (k_ScalarBytes C s))"
| "PrivateKey_AsBytes C (PrivateKeyBytes h) = h"
| "PrivateKey_AsBytes C (PrivateKeySlice b) = le_word (take 32 b)"

fun AsScalar :: "('p, 's) curve \<Rightarrow> 's PrivateKey \<Rightarrow> 's option" where
  "AsScalar C (PrivateKeyScalar s) = Some s"
| "AsScalar C (PrivateKeyBytes h) = k_SetCanonicalBytes C (le_bytes 32 h)"
| "AsScalar C (PrivateKeySlice b) = k_SetCanonicalBytes C b"

text \<open>Using a pointer that may be nil.\<close>

definition deref :: "'a option \<Rightarrow> 'a result" where
  "deref p = (case p of None \<Rightarrow> Inl (Panic ''nil pointer dereference'') | Some x \<Rightarrow> Inr x)"

lemma deref_simps [simp]: "deref (Some x) = Inr x" "deref None = Inl (Panic ''nil pointer dereference'')" "deref p = Inr x \<longleftrightarrow> p = Some x"
  by (auto simp: deref_def split: option.splits)

definition PublicKey_of :: "('p, 's) curve \<Rightarrow> 's PrivateKey \<Rightarrow> 'p PublicKey result" where
  "PublicKey_of C priv = bindR (deref (AsScalar C priv)) (\<lambda>s. Inr (PublicKeyPoint (k_ScalarBaseMult C s)))"

definition Multiply :: "('p, 's) curve \<Rightarrow> 'p \<Rightarrow> 's \<Rightarrow> 'p" where
  "Multiply C p s = k_ScalarMult C s p"

definition GetDerivation :: "('p, 's) curve \<Rightarrow> 's PrivateKey \<Rightarrow> 'p PublicKey \<Rightarrow> 'p PublicKey result" where
  "GetDerivation C priv pub =
    bindR (deref (AsScalar C priv)) (\<lambda>s. bindR (deref (AsPoint C pub)) (\<lambda>p. Inr (PublicKeyPoint (Multiply C p s))))"

definition GetDerivationCofactor :: "('p, 's) curve \<Rightarrow> 's PrivateKey \<Rightarrow> 'p PublicKey \<Rightarrow> 'p PublicKey result" where
  "GetDerivationCofactor C priv pub =
    bindR (deref (AsScalar C priv)) (\<lambda>s. bindR (deref (AsPoint C pub)) (\<lambda>p.
      Inr (PublicKeyPoint (k_MultByCofactor C (Multiply C p s)))))"

record ('p, 's) KeyPair =
  kp_PrivateKey :: "'s PrivateKey"
  kp_PublicKey :: "'p PublicKey"

definition NewKeyPairFromPrivate :: "('p, 's) curve \<Rightarrow> 's PrivateKey \<Rightarrow> ('p, 's) KeyPair result" where
  "NewKeyPairFromPrivate C priv = bindR (PublicKey_of C priv) (\<lambda>pub. Inr \<lparr>kp_PrivateKey = priv, kp_PublicKey = pub\<rparr>)"

section \<open>Derivations\<close>

definition GetDerivationSharedDataForOutputIndex ::
  "('p, 's) curve \<Rightarrow> (byte list \<Rightarrow> hash) \<Rightarrow> 'p PublicKey \<Rightarrow> u64 \<Rightarrow> 's option" where
  "GetDerivationSharedDataForOutputIndex C K derivation outputIndex =
    HashToScalar C K (le_bytes 32 (PublicKey_AsBytes C derivation) @ AppendUvarint outputIndex)"

definition GetDerivationViewTagForOutputIndex ::
  "('p, 's) curve \<Rightarrow> (byte list \<Rightarrow> hash) \<Rightarrow> 'p PublicKey \<Rightarrow> u64 \<Rightarrow> byte" where
  "GetDerivationViewTagForOutputIndex C K derivation outputIndex =
    le_bytes 32 (K (ascii ''view_tag'' @ le_bytes 32 (PublicKey_AsBytes C derivation) @ AppendUvarint outputIndex)) ! 0"

definition GetDerivationSharedDataAndViewTagForOutputIndex ::
  "('p, 's) curve \<Rightarrow> (byte list \<Rightarrow> hash) \<Rightarrow> 'p PublicKey \<Rightarrow> u64 \<Rightarrow> 's option \<times> byte" where
  "GetDerivationSharedDataAndViewTagForOutputIndex C K derivation outputIndex =
    (let k = le_bytes 32 (PublicKey_AsBytes C derivation); n = AppendUvarint outputIndex
     in (HashToScalar C K (k @ n), le_bytes 32 (K (ascii ''view_tag'' @ k @ n)) ! 0))"

text \<open>The special version hashes in one buffer.  A scalar that cannot be set keeps its zero value, as the error is ignored.\<close>

definition GetDerivationSharedDataAndViewTagForOutputIndexNoAllocate ::
  "('p, 's) curve \<Rightarrow> (byte list \<Rightarrow> hash) \<Rightarrow> hash \<Rightarrow> u64 \<Rightarrow> 's \<times> byte" where
  "GetDerivationSharedDataAndViewTagForOutputIndexNoAllocate C K k outputIndex =
    (let buf = le_bytes 32 k @ AppendUvarint outputIndex;
         c = (case k_SetCanonicalBytes C (scReduce32 (le_bytes 32 (K buf))) of None \<Rightarrow> k_NewScalar C | Some s \<Rightarrow> s)
     in (c, le_bytes 32 (K (ascii ''view_tag'' @ buf)) ! 0))"

definition GetPublicKeyForSharedData :: "('p, 's) curve \<Rightarrow> 'p PublicKey \<Rightarrow> 's PrivateKey \<Rightarrow> 'p PublicKey result" where
  "GetPublicKeyForSharedData C spend sharedData =
    bindR (PublicKey_of C sharedData) (\<lambda>pub. bindR (deref (AsPoint C pub)) (\<lambda>p. bindR (deref (AsPoint C spend)) (\<lambda>q.
      Inr (PublicKeyPoint (k_Add C p q)))))"

definition GetEphemeralPublicKey ::
  "('p, 's) curve \<Rightarrow> (byte list \<Rightarrow> hash) \<Rightarrow> 'p PublicKey \<Rightarrow> 'p PublicKey \<Rightarrow> 's PrivateKey \<Rightarrow> u64 \<Rightarrow> 'p PublicKey result" where
  "GetEphemeralPublicKey C K spend view txKey outputIndex =
    bindR (GetDerivationCofactor C txKey view) (\<lambda>derivation.
    bindR (deref (GetDerivationSharedDataForOutputIndex C K derivation outputIndex)) (\<lambda>s.
      GetPublicKeyForSharedData C spend (PrivateKeyScalar s)))"

definition GetEphemeralPublicKeyAndViewTag ::
  "('p, 's) curve \<Rightarrow> (byte list \<Rightarrow> hash) \<Rightarrow> 'p PublicKey \<Rightarrow> 'p PublicKey \<Rightarrow> 's PrivateKey \<Rightarrow> u64 \<Rightarrow> ('p PublicKey \<times> byte) result" where
  "GetEphemeralPublicKeyAndViewTag C K spend view txKey outputIndex =
    bindR (GetDerivationCofactor C txKey view) (\<lambda>derivation.
      let (pK, viewTag) = GetDerivationSharedDataAndViewTagForOutputIndex C K derivation outputIndex
      in bindR (deref pK) (\<lambda>s. bindR (GetPublicKeyForSharedData C spend (PrivateKeyScalar s)) (\<lambda>pub. Inr (pub, viewTag))))"

definition GetDerivationNoAllocate :: "('p, 's) curve \<Rightarrow> 'p \<Rightarrow> 's \<Rightarrow> hash" where
  "GetDerivationNoAllocate C viewPublicKeyPoint txKey =
    le_word (k_PointBytes C (k_MultByCofactor C (k_UnsafeVarTimeScalarMult C txKey viewPublicKeyPoint)))"

definition GetEphemeralPublicKeyAndViewTagNoAllocate ::
  "('p, 's) curve \<Rightarrow> (byte list \<Rightarrow> hash) \<Rightarrow> 'p \<Rightarrow> hash \<Rightarrow> u64 \<Rightarrow> hash \<times> byte" where
  "GetEphemeralPublicKeyAndViewTagNoAllocate C K spendPublicKeyPoint derivation outputIndex =
    (let (derivationSharedData, viewTag) = GetDerivationSharedDataAndViewTagForOutputIndexNoAllocate C K derivation outputIndex;
         ephemeralPublicKey = k_Add C (k_ScalarBaseMult C derivationSharedData) spendPublicKeyPoint
     in (le_word (take 32 (k_PointBytes C ephemeralPublicKey)), viewTag))"

text \<open>The two ways to derive an output key are the same.  For a private key and an address whose
  keys decode, \<^verbatim>\<open>GetEphemeralPublicKeyAndViewTag\<close> through the key interfaces succeeds, and its key bytes and view tag are those of the version without
  allocations; without view tag the key is the same.\<close>

lemma ephemeral_variants_agree:
  assumes "curve_ok C" and "AsScalar C txKey = Some s" and "AsPoint C spend = Some p" and "AsPoint C view = Some q"
  shows "\<exists>pub tag. GetEphemeralPublicKeyAndViewTag C K spend view txKey i = Inr (pub, tag) \<and>
    GetEphemeralPublicKey C K spend view txKey i = Inr pub \<and>
    GetEphemeralPublicKeyAndViewTagNoAllocate C K p (GetDerivationNoAllocate C q s) i = (PublicKey_AsBytes C pub, tag)"
proof -
  define d where "d = k_MultByCofactor C (k_ScalarMult C s q)"
  have d: "GetDerivationCofactor C txKey view = Inr (PublicKeyPoint d)" by (simp add: GetDerivationCofactor_def assms Multiply_def d_def)
  have n: "GetDerivationNoAllocate C q s = PublicKey_AsBytes C (PublicKeyPoint d)"
    using curve_okD(5,7) [OF assms(1)] by (simp add: GetDerivationNoAllocate_def d_def)
  obtain c where "HashToScalar C K (le_bytes 32 (PublicKey_AsBytes C (PublicKeyPoint d)) @ AppendUvarint i) = Some c"
    using reduced_scalar [OF assms(1), of "K (le_bytes 32 (PublicKey_AsBytes C (PublicKeyPoint d)) @ AppendUvarint i)"]
    unfolding HashToScalar_def by metis
  then show ?thesis unfolding n
    by (simp add: GetEphemeralPublicKeyAndViewTag_def GetEphemeralPublicKey_def d GetDerivationSharedDataAndViewTagForOutputIndex_def
        GetDerivationSharedDataForOutputIndex_def GetPublicKeyForSharedData_def PublicKey_of_def assms
        GetEphemeralPublicKeyAndViewTagNoAllocate_def GetDerivationSharedDataAndViewTagForOutputIndexNoAllocate_def Let_def HashToScalar_def)
qed


section \<open>Signatures\<close>

record 's Signature =
  g_C :: 's
  g_R :: 's

definition NewSignatureFromBytes :: "('p, 's) curve \<Rightarrow> byte list \<Rightarrow> 's Signature option" where
  "NewSignatureFromBytes C buf =
    (if length buf \<noteq> 64 then None
     else case k_SetCanonicalBytes C (take 32 buf) of
       None \<Rightarrow> None
     | Some c \<Rightarrow> (case k_SetCanonicalBytes C (drop 32 buf) of None \<Rightarrow> None | Some r \<Rightarrow> Some \<lparr>g_C = c, g_R = r\<rparr>))"

definition Signature_Bytes :: "('p, 's) curve \<Rightarrow> 's Signature \<Rightarrow> byte list" where
  "Signature_Bytes C sig = k_ScalarBytes C (g_C sig) @ k_ScalarBytes C (g_R sig)"

definition Signature_Verify ::
  "('p, 's) curve \<Rightarrow> (byte list \<Rightarrow> hash) \<Rightarrow> 's Signature \<Rightarrow> ('p PublicKey \<Rightarrow> byte list) \<Rightarrow> 'p PublicKey \<Rightarrow> (bool \<times> 'p option) result" where
  "Signature_Verify C K sig handler publicKey =
    bindR (deref (AsPoint C publicKey)) (\<lambda>pk.
      let sp = k_VarTimeDoubleScalarBaseMult C (g_C sig) pk (g_R sig) in
      if sp = k_NewIdentityPoint C then Inr (False, None)
      else bindR (deref (HashToScalar C K (handler (PublicKeyPoint sp)))) (\<lambda>c. Inr (g_C sig = c, Some sp)))"

text \<open>\<open>k\<close> is the scalar \<^verbatim>\<open>RandomScalar\<close> has drawn.\<close>

definition CreateSignature ::
  "('p, 's) curve \<Rightarrow> (byte list \<Rightarrow> hash) \<Rightarrow> 's option \<Rightarrow> ('s PrivateKey \<Rightarrow> byte list result) \<Rightarrow> 's PrivateKey \<Rightarrow> 's Signature result" where
  "CreateSignature C K random handler privateKey =
    bindR (deref random) (\<lambda>k. bindR (handler (PrivateKeyScalar k)) (\<lambda>buf. bindR (deref (HashToScalar C K buf)) (\<lambda>c.
    bindR (deref (AsScalar C privateKey)) (\<lambda>x. Inr \<lparr>g_C = c, g_R = k_SSubtract C k (k_SMultiply C c x)\<rparr>))))"

definition SignatureComm_Bytes :: "('p, 's) curve \<Rightarrow> hash \<Rightarrow> 'p PublicKey \<Rightarrow> 'p PublicKey \<Rightarrow> byte list" where
  "SignatureComm_Bytes C h key comm = le_bytes 32 h @ PublicKey_AsSlice C key @ PublicKey_AsSlice C comm"

definition CreateMessageSignature ::
  "('p, 's) curve \<Rightarrow> (byte list \<Rightarrow> hash) \<Rightarrow> 's option \<Rightarrow> hash \<Rightarrow> 's PrivateKey \<Rightarrow> 's Signature result" where
  "CreateMessageSignature C K random prefixHash key =
    bindR (PublicKey_of C key) (\<lambda>pub.
      CreateSignature C K random (\<lambda>k. bindR (PublicKey_of C k) (\<lambda>comm. Inr (SignatureComm_Bytes C prefixHash pub comm))) key)"

definition VerifyMessageSignatureSplit ::
  "('p, 's) curve \<Rightarrow> (byte list \<Rightarrow> hash) \<Rightarrow> hash \<Rightarrow> 'p PublicKey \<Rightarrow> 'p PublicKey \<Rightarrow> 's Signature \<Rightarrow> bool result" where
  "VerifyMessageSignatureSplit C K prefixHash commPublicKey signPublicKey signature =
    bindR (Signature_Verify C K signature (\<lambda>r. SignatureComm_Bytes C prefixHash commPublicKey r) signPublicKey) (\<lambda>(ok, _). Inr ok)"

definition VerifyMessageSignature ::
  "('p, 's) curve \<Rightarrow> (byte list \<Rightarrow> hash) \<Rightarrow> hash \<Rightarrow> 'p PublicKey \<Rightarrow> 's Signature \<Rightarrow> bool result" where
  "VerifyMessageSignature C K prefixHash publicKey signature = VerifyMessageSignatureSplit C K prefixHash publicKey publicKey signature"

lemma HashToScalar_total: "curve_ok C \<Longrightarrow> \<exists>c. HashToScalar C K d = Some c"
  unfolding HashToScalar_def by (metis reduced_scalar)

lemma Signature_Verify_Create:
  assumes "curve_ok C" and "AsScalar C priv = Some x" and "k \<noteq> k_NewScalar C"
    and "hv (PublicKeyPoint (k_ScalarBaseMult C k)) = buf" and "HashToScalar C K buf = Some c"
    and "AsPoint C pub = Some (k_ScalarBaseMult C x)"
  shows "Signature_Verify C K \<lparr>g_C = c, g_R = k_SSubtract C k (k_SMultiply C c x)\<rparr> hv pub = Inr (True, Some (k_ScalarBaseMult C k))"
proof -
  have "k_VarTimeDoubleScalarBaseMult C c (k_ScalarBaseMult C x) (k_SSubtract C k (k_SMultiply C c x)) = k_ScalarBaseMult C k"
    using curve_okD(8,9,10) [OF assms(1)] by simp
  then show ?thesis using assms curve_okD(11) [OF assms(1)] by (simp add: Signature_Verify_def Let_def)
qed

lemma CreateMessageSignature_eq:
  assumes "curve_ok C" and "AsScalar C priv = Some x"
  obtains c where "HashToScalar C K (SignatureComm_Bytes C h (PublicKeyPoint (k_ScalarBaseMult C x)) (PublicKeyPoint (k_ScalarBaseMult C k))) = Some c"
    and "CreateMessageSignature C K (Some k) h priv = Inr \<lparr>g_C = c, g_R = k_SSubtract C k (k_SMultiply C c x)\<rparr>"
proof -
  obtain c where "HashToScalar C K (SignatureComm_Bytes C h (PublicKeyPoint (k_ScalarBaseMult C x)) (PublicKeyPoint (k_ScalarBaseMult C k))) = Some c"
    using HashToScalar_total [OF assms(1)] by blast
  then show thesis using that assms(2) by (simp add: CreateMessageSignature_def CreateSignature_def PublicKey_of_def)
qed

lemma Signature_bytes_round_trip:
  assumes "curve_ok C"
  shows "NewSignatureFromBytes C (Signature_Bytes C sig) = Some sig"
proof -
  have "length (Signature_Bytes C sig) = 64" "take 32 (Signature_Bytes C sig) = k_ScalarBytes C (g_C sig)"
    "drop 32 (Signature_Bytes C sig) = k_ScalarBytes C (g_R sig)" using curve_okD(12) [OF assms] by (simp_all add: Signature_Bytes_def)
  then show ?thesis using curve_okD(3) [OF assms] by (simp add: NewSignatureFromBytes_def)
qed

text \<open>Signatures verify.  A message signature made with a private key and a non-zero random scalar verifies under the public key of that key,
  for the same message hash, and survives its 64-byte form.\<close>

lemma message_signature_verifies:
  assumes "curve_ok C" and "AsScalar C priv = Some x" and "k \<noteq> k_NewScalar C"
  shows "\<exists>pub sig. PublicKey_of C priv = Inr pub \<and> CreateMessageSignature C K (Some k) h priv = Inr sig \<and>
    VerifyMessageSignature C K h pub sig = Inr True \<and> NewSignatureFromBytes C (Signature_Bytes C sig) = Some sig"
proof -
  let ?pub = "PublicKeyPoint (k_ScalarBaseMult C x)"
  obtain c where c: "HashToScalar C K (SignatureComm_Bytes C h ?pub (PublicKeyPoint (k_ScalarBaseMult C k))) = Some c"
    "CreateMessageSignature C K (Some k) h priv = Inr \<lparr>g_C = c, g_R = k_SSubtract C k (k_SMultiply C c x)\<rparr>"
    by (rule CreateMessageSignature_eq [OF assms(1,2)])
  have "VerifyMessageSignature C K h ?pub \<lparr>g_C = c, g_R = k_SSubtract C k (k_SMultiply C c x)\<rparr> = Inr True"
    unfolding VerifyMessageSignature_def VerifyMessageSignatureSplit_def
    by (subst Signature_Verify_Create [where hv = "SignatureComm_Bytes C h ?pub", OF assms(1,2,3) refl c(1)]) simp_all
  then show ?thesis using c(2) assms(2) Signature_bytes_round_trip [OF assms(1)] by (simp add: PublicKey_of_def)
qed

end
