(* ===== verification/Addresses.thy ===== *)
theory Addresses
  imports Keys
begin

text \<open>
  monero/address: addresses and their text form (address.go, packed.go) and the verification of messages signed by
  the owner of an address (crypto.go).

  The base-58 codec, the checksum function and the network bytes come from the third-party package \<^verbatim>\<open>moneroutil\<close>, the
  record \<open>moneroutil_pkg\<close>; decoding gives the empty slice for malformed text.
\<close>

record moneroutil_pkg =
  mu_DecodeMoneroBase58 :: "byte list \<Rightarrow> byte list"
  mu_EncodeMoneroBase58 :: "byte list \<Rightarrow> byte list"
  mu_GetChecksum :: "byte list \<Rightarrow> byte list"
  mu_MainNetwork :: byte
  mu_TestNetwork :: byte
  mu_StageNetwork :: byte

text \<open>Documented: decoding undoes encoding (of addresses and signatures), an address of 69 bytes has 95 characters, the checksum is the start of the keccak hash.\<close>

definition moneroutil_ok :: "(byte list \<Rightarrow> hash) \<Rightarrow> moneroutil_pkg \<Rightarrow> bool" where
  "moneroutil_ok K M \<longleftrightarrow>
    (\<forall>b. length b = 69 \<or> length b = 64 \<longrightarrow> mu_DecodeMoneroBase58 M (mu_EncodeMoneroBase58 M b) = b) \<and>
    (\<forall>b. length b = 69 \<longrightarrow> length (mu_EncodeMoneroBase58 M b) = 95) \<and>
    (\<forall>b. mu_GetChecksum M b = take 4 (le_bytes 32 (K b)))"

record Address =
  a_SpendPub :: hash
  a_ViewPub :: hash
  a_Network :: byte
  a_hasChecksum :: bool
  a_checksum :: "byte list"

definition Address_Compare :: "Address \<Rightarrow> hash \<Rightarrow> hash \<Rightarrow> int" where
  "Address_Compare a spend view =
    (let resultSpendKey = CompareConsensusPublicKeyBytes (a_SpendPub a) spend in
     if resultSpendKey \<noteq> 0 then resultSpendKey else CompareConsensusPublicKeyBytes (a_ViewPub a) view)"

definition ToAddress :: "Address \<Rightarrow> byte \<Rightarrow> error option \<Rightarrow> Address option" where
  "ToAddress a network err = (if a_Network a \<noteq> network \<or> err \<noteq> None then None else Some a)"

definition ToPackedAddress :: "Address \<Rightarrow> PackedAddress" where
  "ToPackedAddress a = (a_SpendPub a, a_ViewPub a)"

text \<open>The part that \<^verbatim>\<open>FromBase58\<close> and \<^verbatim>\<open>FromBase58NoChecksumCheck\<close> share: the raw bytes of a plain address.\<close>

definition decodeAddress :: "moneroutil_pkg \<Rightarrow> byte list \<Rightarrow> byte list option" where
  "decodeAddress M address =
    (let raw = mu_DecodeMoneroBase58 M address in
     if length raw \<noteq> 69 then None
     else if raw ! 0 = mu_MainNetwork M \<or> raw ! 0 = mu_TestNetwork M \<or> raw ! 0 = mu_StageNetwork M then Some raw
     else None)"

definition FromBase58 :: "moneroutil_pkg \<Rightarrow> byte list \<Rightarrow> Address option" where
  "FromBase58 M address =
    (case decodeAddress M address of
       None \<Rightarrow> None
     | Some raw \<Rightarrow>
         let checksum = mu_GetChecksum M (take 65 raw) in
         if checksum \<noteq> drop 65 raw then None
         else Some \<lparr>a_SpendPub = le_word (take 32 (drop 1 raw)), a_ViewPub = le_word (take 32 (drop 33 raw)),
                    a_Network = raw ! 0, a_hasChecksum = True, a_checksum = checksum\<rparr>)"

definition FromBase58NoChecksumCheck :: "moneroutil_pkg \<Rightarrow> byte list \<Rightarrow> Address option" where
  "FromBase58NoChecksumCheck M address =
    (case decodeAddress M address of
       None \<Rightarrow> None
     | Some raw \<Rightarrow>
         Some \<lparr>a_SpendPub = le_word (take 32 (drop 1 raw)), a_ViewPub = le_word (take 32 (drop 33 raw)),
               a_Network = raw ! 0, a_hasChecksum = True, a_checksum = drop 65 raw\<rparr>)"

text \<open>\<open>nice[:65]\<close>: the network byte and the two keys.\<close>

definition nice :: "byte \<Rightarrow> hash \<Rightarrow> hash \<Rightarrow> byte list" where
  "nice network spend view = [network] @ le_bytes 32 spend @ le_bytes 32 view"

definition FromRawAddress :: "(byte list \<Rightarrow> hash) \<Rightarrow> byte \<Rightarrow> hash \<Rightarrow> hash \<Rightarrow> Address" where
  "FromRawAddress K network spend view =
    \<lparr>a_SpendPub = spend, a_ViewPub = view, a_Network = network, a_hasChecksum = True,
     a_checksum = take 4 (le_bytes 32 (K (nice network spend view)))\<rparr>"

definition verifyChecksum :: "(byte list \<Rightarrow> hash) \<Rightarrow> Address \<Rightarrow> Address" where
  "verifyChecksum K a =
    (if \<not> a_hasChecksum a
     then a\<lparr>a_checksum := take 4 (le_bytes 32 (K (nice (a_Network a) (a_SpendPub a) (a_ViewPub a)))), a_hasChecksum := True\<rparr>
     else a)"

definition ToBase58 :: "(byte list \<Rightarrow> hash) \<Rightarrow> moneroutil_pkg \<Rightarrow> Address \<Rightarrow> byte list" where
  "ToBase58 K M a =
    (let a = verifyChecksum K a in mu_EncodeMoneroBase58 M (nice (a_Network a) (a_SpendPub a) (a_ViewPub a) @ a_checksum a))"

text \<open>The text goes into a buffer of 97 bytes whose last byte is then overwritten.\<close>

definition Address_MarshalJSON :: "(byte list \<Rightarrow> hash) \<Rightarrow> moneroutil_pkg \<Rightarrow> Address \<Rightarrow> byte list" where
  "Address_MarshalJSON K M a = take 96 ([34] @ ToBase58 K M a @ replicate 96 0) @ [34]"

definition Address_UnmarshalJSON :: "moneroutil_pkg \<Rightarrow> byte list \<Rightarrow> Address result" where
  "Address_UnmarshalJSON M b =
    (if length b < 2 then Inl (Err ''unsupported length'')
     else case FromBase58NoChecksumCheck M (take (length b - 2) (drop 1 b)) of
       None \<Rightarrow> Inl (Err ''invalid address'')
     | Some addr \<Rightarrow> Inr addr)"

definition PackedAddress_ToAddress :: "(byte list \<Rightarrow> hash) \<Rightarrow> PackedAddress \<Rightarrow> byte \<Rightarrow> error option \<Rightarrow> Address option" where
  "PackedAddress_ToAddress K p network err = (if err \<noteq> None then None else Some (FromRawAddress K network (fst p) (snd p)))"

definition PackedAddress_ToBase58 :: "(byte list \<Rightarrow> hash) \<Rightarrow> moneroutil_pkg \<Rightarrow> PackedAddress \<Rightarrow> byte \<Rightarrow> byte list" where
  "PackedAddress_ToBase58 K M p network =
    mu_EncodeMoneroBase58 M ([network] @ le_bytes 32 (fst p) @ le_bytes 32 (snd p) @ take 4 (le_bytes 32 (K (nice network (fst p) (snd p)))))"

section \<open>Text form\<close>

lemma length_nice [simp]: "length (nice n s v) = 65"
  by (simp add: nice_def)

lemma nice_parts:
  "(nice n s v @ c) ! 0 = n" "take 32 (drop 1 (nice n s v @ c)) = le_bytes 32 s" "take 32 (drop 33 (nice n s v @ c)) = le_bytes 32 v"
  "take 65 (nice n s v @ c) = nice n s v" "drop 65 (nice n s v @ c) = c"
  "take 32 (drop (Suc 0) (nice n s v)) = le_bytes 32 s" "drop 33 (nice n s v) = le_bytes 32 v"
  by (simp_all add: nice_def)

lemma le_word_hash [simp]: "le_word (le_bytes 32 w) = (w :: hash)"
  by (rule le_word_le_bytes) simp

lemma decodeAddress_encode:
  assumes "moneroutil_ok K M" and "length c = 4" and "n \<in> {mu_MainNetwork M, mu_TestNetwork M, mu_StageNetwork M}"
  shows "decodeAddress M (mu_EncodeMoneroBase58 M (nice n s v @ c)) = Some (nice n s v @ c)"
  using assms by (auto simp: decodeAddress_def moneroutil_ok_def nice_parts Let_def)

text \<open>Addresses survive their text form.  The base-58 text of a packed address on a known network has 95 characters, is that of the address made from it, and
  is read back to that address with its checksum; so is its JSON form.  Text with a wrong checksum is refused
  by \<^verbatim>\<open>FromBase58\<close>, and accepted with that checksum by the JSON decoder.\<close>

lemma Address_round_trip:
  fixes p :: PackedAddress
  assumes "moneroutil_ok K M" and "n \<in> {mu_MainNetwork M, mu_TestNetwork M, mu_StageNetwork M}"
  defines "a \<equiv> FromRawAddress K n (fst p) (snd p)"
  shows "PackedAddress_ToBase58 K M p n = ToBase58 K M a \<and> length (ToBase58 K M a) = 95 \<and> FromBase58 M (ToBase58 K M a) = Some a \<and>
    ToPackedAddress a = p \<and> Address_UnmarshalJSON M (Address_MarshalJSON K M a) = Inr a \<and>
    (\<forall>c. length c = 4 \<and> c \<noteq> a_checksum a \<longrightarrow>
      FromBase58 M (mu_EncodeMoneroBase58 M (nice n (fst p) (snd p) @ c)) = None \<and>
      FromBase58NoChecksumCheck M (mu_EncodeMoneroBase58 M (nice n (fst p) (snd p) @ c)) = Some (a\<lparr>a_checksum := c\<rparr>))"
proof -
  let ?e = "\<lambda>c. mu_EncodeMoneroBase58 M (nice n (fst p) (snd p) @ c)"
  let ?c = "take 4 (le_bytes 32 (K (nice n (fst p) (snd p))))"
  have a: "a = \<lparr>a_SpendPub = fst p, a_ViewPub = snd p, a_Network = n, a_hasChecksum = True, a_checksum = ?c\<rparr>"
    by (simp add: a_def FromRawAddress_def)
  have t: "ToBase58 K M a = ?e ?c" by (simp add: ToBase58_def a verifyChecksum_def)
  have len: "length (?e c) = 95" if "length c = 4" for c using assms(1) that by (simp add: moneroutil_ok_def)
  note d = decodeAddress_encode [OF assms(1) _ assms(2)]
  have sum: "mu_GetChecksum M (nice n (fst p) (snd p)) = ?c" using assms(1) by (simp add: moneroutil_ok_def)
  have dec: "FromBase58 M (?e c) = (if c = ?c then Some a else None)" "FromBase58NoChecksumCheck M (?e c) = Some (a\<lparr>a_checksum := c\<rparr>)"
    if "length c = 4" for c
    using that d [of c] by (simp_all add: FromBase58_def FromBase58NoChecksumCheck_def nice_parts sum a Let_def)
  have j: "Address_MarshalJSON K M a = [34] @ ?e ?c @ [34]" using len [of ?c] by (simp add: Address_MarshalJSON_def t)
  have "Address_UnmarshalJSON M (Address_MarshalJSON K M a) = Inr a"
    unfolding j using dec(2) [of ?c] len [of ?c] by (simp add: Address_UnmarshalJSON_def) (simp add: a)
  moreover have "PackedAddress_ToBase58 K M p n = ToBase58 K M a" by (simp add: PackedAddress_ToBase58_def t nice_def)
  moreover have "ToPackedAddress a = p" by (simp add: a ToPackedAddress_def)
  ultimately show ?thesis using dec len t a by simp
qed

definition ref_moneroutil :: "(byte list \<Rightarrow> hash) \<Rightarrow> moneroutil_pkg" where
  "ref_moneroutil K = \<lparr>mu_DecodeMoneroBase58 = (\<lambda>b. if length b = 95 then take 69 b else b),
     mu_EncodeMoneroBase58 = (\<lambda>b. if length b = 69 then b @ replicate 26 0 else b),
     mu_GetChecksum = (\<lambda>b. take 4 (le_bytes 32 (K b))), mu_MainNetwork = 18, mu_TestNetwork = 53, mu_StageNetwork = 24\<rparr>"


lemma ref_moneroutil_ok: "moneroutil_ok K (ref_moneroutil K)"
  by (simp add: moneroutil_ok_def ref_moneroutil_def)

section \<open>Signed messages\<close>

datatype SignatureVerifyResult = ResultFailZeroSpend | ResultFailZeroView | ResultFail | ResultSuccessSpend | ResultSuccessView

definition GetMessageHash :: "(byte list \<Rightarrow> hash) \<Rightarrow> PackedAddress \<Rightarrow> byte list \<Rightarrow> byte \<Rightarrow> hash" where
  "GetMessageHash K a message mode =
    K (ascii ''MoneroMessageSignature'' @ [0] @ le_bytes 32 (fst a) @ le_bytes 32 (snd a) @ [mode] @
       AppendUvarint (of_nat (length message)) @ message)"

text \<open>\<^verbatim>\<open>ZeroPrivateKeyAddress\<close> has the public key of the zero private key twice.\<close>

definition zeroPublicKey :: "('p, 's) curve \<Rightarrow> hash result" where
  "zeroPublicKey C = bindR (PublicKey_of C (PrivateKeyBytes 0)) (\<lambda>pub. Inr (PublicKey_AsBytes C pub))"

definition messageHash :: "(byte list \<Rightarrow> hash) \<Rightarrow> PackedAddress \<Rightarrow> byte list \<Rightarrow> byte list \<Rightarrow> hash option" where
  "messageHash K a message signature =
    (if take 5 signature = ascii ''SigV1'' then Some (K message)
     else if take 5 signature = ascii ''SigV2'' then Some (GetMessageHash K a message 0)
     else None)"

text \<open>The checks in order.  \<open>fallback\<close> tells \<^verbatim>\<open>VerifyMessageFallbackToZero\<close> from \<^verbatim>\<open>VerifyMessage\<close>.\<close>

definition verifyMessage ::
  "bool \<Rightarrow> ('p, 's) curve \<Rightarrow> (byte list \<Rightarrow> hash) \<Rightarrow> moneroutil_pkg \<Rightarrow> PackedAddress \<Rightarrow> byte list \<Rightarrow> byte list \<Rightarrow> SignatureVerifyResult result" where
  "verifyMessage fallback C K M a message signature =
    (case messageHash K a message signature of
       None \<Rightarrow> Inr ResultFail
     | Some h \<Rightarrow>
         (case NewSignatureFromBytes C (mu_DecodeMoneroBase58 M (drop 5 signature)) of
            None \<Rightarrow> Inr ResultFail
          | Some sig \<Rightarrow>
              bindR (VerifyMessageSignature C K h (PublicKeyBytes (fst a)) sig) (\<lambda>spend.
              if spend then Inr ResultSuccessSpend
              else bindR (zeroPublicKey C) (\<lambda>zero.
              bindR (VerifyMessageSignatureSplit C K h (PublicKeyBytes (fst a)) (PublicKeyBytes zero) sig) (\<lambda>zeroSpend.
              if zeroSpend then Inr ResultFailZeroSpend
              else
                let h = (if take 5 signature = ascii ''SigV2'' then GetMessageHash K a message 1 else h) in
                bindR (VerifyMessageSignature C K h (PublicKeyBytes (snd a)) sig) (\<lambda>view.
                if view then Inr ResultSuccessView
                else if \<not> fallback then Inr ResultFail
                else bindR (VerifyMessageSignatureSplit C K h (PublicKeyBytes (snd a)) (PublicKeyBytes zero) sig) (\<lambda>zeroView.
                  if zeroView then Inr ResultFailZeroView else Inr ResultFail)))))))"

definition VerifyMessage ::
  "('p, 's) curve \<Rightarrow> (byte list \<Rightarrow> hash) \<Rightarrow> moneroutil_pkg \<Rightarrow> PackedAddress \<Rightarrow> byte list \<Rightarrow> byte list \<Rightarrow> SignatureVerifyResult result" where
  "VerifyMessage = verifyMessage False"

definition VerifyMessageFallbackToZero ::
  "('p, 's) curve \<Rightarrow> (byte list \<Rightarrow> hash) \<Rightarrow> moneroutil_pkg \<Rightarrow> PackedAddress \<Rightarrow> byte list \<Rightarrow> byte list \<Rightarrow> SignatureVerifyResult result" where
  "VerifyMessageFallbackToZero = verifyMessage True"

text \<open>The address of a pair of private keys.\<close>

definition address_of :: "('p, 's) curve \<Rightarrow> 's \<Rightarrow> 's \<Rightarrow> PackedAddress" where
  "address_of C spend view = (PublicKey_AsBytes C (PublicKeyPoint (k_ScalarBaseMult C spend)), PublicKey_AsBytes C (PublicKeyPoint (k_ScalarBaseMult C view)))"

lemma point_bytes: "curve_ok C \<Longrightarrow> le_bytes 32 (PublicKey_AsBytes C (PublicKeyPoint p)) = k_PointBytes C p"
  using curve_okD(5) [of C p] le_bytes_le_word [of "k_PointBytes C p", where 'a = 256] by simp

lemma AsPoint_bytes: "curve_ok C \<Longrightarrow> AsPoint C (PublicKeyBytes (PublicKey_AsBytes C (PublicKeyPoint p))) = Some p"
  using point_bytes [of C p] curve_okD(6) [of C p] by simp

lemma comm_bytes: "curve_ok C \<Longrightarrow> SignatureComm_Bytes C h (PublicKeyBytes (PublicKey_AsBytes C (PublicKeyPoint p))) r = SignatureComm_Bytes C h (PublicKeyPoint p) r"
  using point_bytes [of C p] by (simp add: SignatureComm_Bytes_def)

text \<open>Signed messages are accepted.  What the owner of an address signs with the spend key over the message hash of version 1 or 2
  is verified as a spend signature, with and without the fallback; text
  with another prefix or a malformed signature is refused.\<close>

lemma VerifyMessage_accepts:
  assumes "curve_ok C" and "moneroutil_ok K M" and "k \<noteq> k_NewScalar C" and "prefix = ascii ''SigV1'' \<or> prefix = ascii ''SigV2''"
    and "messageHash K (address_of C spend view) message prefix = Some h"
    and "CreateMessageSignature C K (Some k) h (PrivateKeyScalar spend) = Inr sig"
  shows "VerifyMessage C K M (address_of C spend view) message (prefix @ mu_EncodeMoneroBase58 M (Signature_Bytes C sig)) = Inr ResultSuccessSpend \<and>
    VerifyMessageFallbackToZero C K M (address_of C spend view) message (prefix @ mu_EncodeMoneroBase58 M (Signature_Bytes C sig)) = Inr ResultSuccessSpend \<and>
    (\<forall>s. take 5 s \<noteq> ascii ''SigV1'' \<and> take 5 s \<noteq> ascii ''SigV2'' \<or> length (mu_DecodeMoneroBase58 M (drop 5 s)) \<noteq> 64 \<longrightarrow>
      VerifyMessage C K M (address_of C spend view) message s = Inr ResultFail)"
proof -
  have p: "length prefix = 5" using assms(4) by (auto simp: ascii_def)
  have len: "length (Signature_Bytes C sig) = 64" using curve_okD(12) [OF assms(1)] by (simp add: Signature_Bytes_def)
  then have d: "mu_DecodeMoneroBase58 M (mu_EncodeMoneroBase58 M (Signature_Bytes C sig)) = Signature_Bytes C sig"
    using assms(2) by (simp add: moneroutil_ok_def)
  have h: "messageHash K (address_of C spend view) message (prefix @ x) = Some h" for x
    using assms(5) p by (auto simp: messageHash_def split: if_splits)
  obtain c where c: "HashToScalar C K (SignatureComm_Bytes C h (PublicKeyPoint (k_ScalarBaseMult C spend)) (PublicKeyPoint (k_ScalarBaseMult C k))) = Some c"
    "CreateMessageSignature C K (Some k) h (PrivateKeyScalar spend) = Inr \<lparr>g_C = c, g_R = k_SSubtract C k (k_SMultiply C c spend)\<rparr>"
    by (rule CreateMessageSignature_eq [OF assms(1), of "PrivateKeyScalar spend" spend]) simp_all
  have sig: "sig = \<lparr>g_C = c, g_R = k_SSubtract C k (k_SMultiply C c spend)\<rparr>" using c(2) assms(6) by simp
  have "VerifyMessageSignature C K h (PublicKeyBytes (fst (address_of C spend view))) sig = Inr True"
    unfolding VerifyMessageSignature_def VerifyMessageSignatureSplit_def sig address_of_def fst_conv comm_bytes [OF assms(1)]
    by (subst Signature_Verify_Create [where hv = "SignatureComm_Bytes C h (PublicKeyPoint (k_ScalarBaseMult C spend))", OF assms(1) _ assms(3) refl c(1), of "PrivateKeyScalar spend"])
      (simp_all add: AsPoint_bytes [OF assms(1)] del: PublicKey_AsBytes.simps AsPoint.simps(2))
  then have "verifyMessage f C K M (address_of C spend view) message (prefix @ mu_EncodeMoneroBase58 M (Signature_Bytes C sig)) = Inr ResultSuccessSpend" for f
    using Signature_bytes_round_trip [OF assms(1)] by (simp add: verifyMessage_def h p d)
  then show ?thesis by (auto simp: VerifyMessage_def VerifyMessageFallbackToZero_def verifyMessage_def messageHash_def NewSignatureFromBytes_def)
qed

end
