(* ===== verification/Caches.thy ===== *)
theory Caches
  imports Keys
begin

text \<open>
  Memoisation of key derivations: the caches of utils/cache.go, the derivation cache of p2pool/sidechain/cache.go and the
  one of nilcache.go that computes everything again.

  The Go interface \<^verbatim>\<open>Cache\<close> is the record of its methods, \<open>Cache\<close>; the locale \<open>cache\<close> states what its users rely on: a cache only answers
  with what was stored under the key, and may forget.  The map cache satisfies it, and the LRU cache does because
  of what the third-party package \<^verbatim>\<open>floatdrop/lru\<close> documents (locale \<open>lru_laws\<close>).
\<close>

section \<open>Caches\<close>

record ('c, 'k, 'v) Cache =
  ca_Get :: "'c \<Rightarrow> 'k \<Rightarrow> 'v option \<times> 'c"
  ca_Set :: "'c \<Rightarrow> 'k \<Rightarrow> 'v \<Rightarrow> 'c"
  ca_Delete :: "'c \<Rightarrow> 'k \<Rightarrow> 'c"
  ca_Clear :: "'c \<Rightarrow> 'c"
  ca_Stats :: "'c \<Rightarrow> u64 \<times> u64"

record ('k, 'v) MapCache =
  mc_values :: "'k \<rightharpoonup> 'v"
  mc_hits :: u64
  mc_misses :: u64
  mc_size :: int

definition NewMapCache :: "int \<Rightarrow> ('k, 'v) MapCache" where
  "NewMapCache preAllocateSize = \<lparr>mc_values = Map.empty, mc_hits = 0, mc_misses = 0, mc_size = preAllocateSize\<rparr>"

definition MapCache_Get :: "('k, 'v) MapCache \<Rightarrow> 'k \<Rightarrow> 'v option \<times> ('k, 'v) MapCache" where
  "MapCache_Get m key =
    (case mc_values m key of
       Some v \<Rightarrow> (Some v, m\<lparr>mc_hits := mc_hits m + 1\<rparr>)
     | None \<Rightarrow> (None, m\<lparr>mc_misses := mc_misses m + 1\<rparr>))"

definition MapCache_Set :: "('k, 'v) MapCache \<Rightarrow> 'k \<Rightarrow> 'v \<Rightarrow> ('k, 'v) MapCache" where
  "MapCache_Set m key v = m\<lparr>mc_values := (mc_values m)(key \<mapsto> v)\<rparr>"

definition MapCache_Delete :: "('k, 'v) MapCache \<Rightarrow> 'k \<Rightarrow> ('k, 'v) MapCache" where
  "MapCache_Delete m key = m\<lparr>mc_values := (mc_values m)(key := None)\<rparr>"

definition MapCache_Clear :: "('k, 'v) MapCache \<Rightarrow> ('k, 'v) MapCache" where
  "MapCache_Clear m = m\<lparr>mc_values := Map.empty\<rparr>"

definition MapCache_Stats :: "('k, 'v) MapCache \<Rightarrow> u64 \<times> u64" where
  "MapCache_Stats m = (mc_hits m, mc_misses m)"

definition map_cache :: "(('k, 'v) MapCache, 'k, 'v) Cache" where
  "map_cache = \<lparr>ca_Get = MapCache_Get, ca_Set = MapCache_Set, ca_Delete = MapCache_Delete, ca_Clear = MapCache_Clear, ca_Stats = MapCache_Stats\<rparr>"

record ('l, 'k, 'v) lru_pkg =
  lru_New :: "int \<Rightarrow> 'l"
  lru_Get :: "'l \<Rightarrow> 'k \<Rightarrow> 'v option \<times> 'l"
  lru_Set :: "'l \<Rightarrow> 'k \<Rightarrow> 'v \<Rightarrow> 'l"
  lru_Remove :: "'l \<Rightarrow> 'k \<Rightarrow> 'l"

record 'l LRUCache =
  lc_values :: 'l
  lc_hits :: u64
  lc_misses :: u64
  lc_size :: int

definition LRUCache_Clear :: "('l, 'k, 'v) lru_pkg \<Rightarrow> 'l LRUCache \<Rightarrow> 'l LRUCache" where
  "LRUCache_Clear P c = c\<lparr>lc_values := lru_New P (lc_size c)\<rparr>"

definition NewLRUCache :: "('l, 'k, 'v) lru_pkg \<Rightarrow> int \<Rightarrow> 'l LRUCache" where
  "NewLRUCache P n = \<lparr>lc_values = lru_New P n, lc_hits = 0, lc_misses = 0, lc_size = n\<rparr>"

definition LRUCache_Get :: "('l, 'k, 'v) lru_pkg \<Rightarrow> 'l LRUCache \<Rightarrow> 'k \<Rightarrow> 'v option \<times> 'l LRUCache" where
  "LRUCache_Get P c key =
    (let (v, l) = lru_Get P (lc_values c) key; c = c\<lparr>lc_values := l\<rparr> in
     case v of Some v \<Rightarrow> (Some v, c\<lparr>lc_hits := lc_hits c + 1\<rparr>) | None \<Rightarrow> (None, c\<lparr>lc_misses := lc_misses c + 1\<rparr>))"

definition LRUCache_Set :: "('l, 'k, 'v) lru_pkg \<Rightarrow> 'l LRUCache \<Rightarrow> 'k \<Rightarrow> 'v \<Rightarrow> 'l LRUCache" where
  "LRUCache_Set P c key v = c\<lparr>lc_values := lru_Set P (lc_values c) key v\<rparr>"

definition LRUCache_Delete :: "('l, 'k, 'v) lru_pkg \<Rightarrow> 'l LRUCache \<Rightarrow> 'k \<Rightarrow> 'l LRUCache" where
  "LRUCache_Delete P c key = c\<lparr>lc_values := lru_Remove P (lc_values c) key\<rparr>"

definition LRUCache_Stats :: "'l LRUCache \<Rightarrow> u64 \<times> u64" where
  "LRUCache_Stats c = (lc_hits c, lc_misses c)"

definition lru_cache :: "('l, 'k, 'v) lru_pkg \<Rightarrow> ('l LRUCache, 'k, 'v) Cache" where
  "lru_cache P = \<lparr>ca_Get = LRUCache_Get P, ca_Set = LRUCache_Set P, ca_Delete = LRUCache_Delete P, ca_Clear = LRUCache_Clear P, ca_Stats = LRUCache_Stats\<rparr>"

section \<open>The contract\<close>

text \<open>\<open>contents\<close> is what a cache can still answer.\<close>

locale cache =
  fixes ops :: "('c, 'k, 'v) Cache" and contents :: "'c \<Rightarrow> 'k \<rightharpoonup> 'v"
  assumes Get_hit: "ca_Get ops c k = (Some v, c') \<Longrightarrow> contents c k = Some v"
    and Get_keeps: "ca_Get ops c k = (r, c') \<Longrightarrow> contents c' \<subseteq>\<^sub>m contents c"
    and Set_adds: "contents (ca_Set ops c k v) \<subseteq>\<^sub>m (contents c)(k \<mapsto> v)"
    and Delete_removes: "contents (ca_Delete ops c k) \<subseteq>\<^sub>m (contents c)(k := None)"
    and Clear_empties: "contents (ca_Clear ops c) = Map.empty"
begin

definition consistent :: "('x \<Rightarrow> 'k) \<Rightarrow> ('x \<Rightarrow> 'v \<Rightarrow> bool) \<Rightarrow> 'c \<Rightarrow> bool" where
  "consistent key right c \<longleftrightarrow> (\<forall>x v. contents c (key x) = Some v \<longrightarrow> right x v)"

lemma consistent_le: "consistent key right c \<Longrightarrow> contents c' \<subseteq>\<^sub>m contents c \<Longrightarrow> consistent key right c'"
  unfolding consistent_def map_le_def by (metis domI)

lemma consistent_hit:
  assumes "consistent key right c" and "ca_Get ops c (key x) = (Some v, c')"
  shows "right x v" and "consistent key right c'"
  using assms Get_hit [OF assms(2)] consistent_le [OF assms(1) Get_keeps [OF assms(2)]] by (auto simp: consistent_def)

lemma consistent_miss: "consistent key right c \<Longrightarrow> ca_Get ops c k = (None, c') \<Longrightarrow> consistent key right c'"
  using consistent_le Get_keeps by blast

lemma consistent_Set:
  assumes "consistent key right c" and "\<And>x'. key x' = k \<Longrightarrow> right x' v"
  shows "consistent key right (ca_Set ops c k v)"
  unfolding consistent_def
proof (intro allI impI)
  fix x w assume "contents (ca_Set ops c k v) (key x) = Some w"
  then have "((contents c)(k \<mapsto> v)) (key x) = Some w" using Set_adds [of c k v] unfolding map_le_def by (metis domI)
  then show "right x w" using assms by (auto simp: consistent_def split: if_splits)
qed

lemma consistent_empty: "contents c = Map.empty \<Longrightarrow> consistent key right c"
  by (simp add: consistent_def)

lemma consistent_Clear: "consistent key right (ca_Clear ops c)"
  by (simp add: consistent_def Clear_empties)

end

interpretation map_cache: cache map_cache mc_values
  by unfold_locales (auto simp: map_cache_def MapCache_Get_def MapCache_Set_def MapCache_Delete_def MapCache_Clear_def map_le_def split: option.splits)

text \<open>What the LRU package documents.\<close>

locale lru_laws =
  fixes P :: "('l, 'k, 'v) lru_pkg" and entries :: "'l \<Rightarrow> 'k \<rightharpoonup> 'v"
  assumes New_empty: "entries (lru_New P n) = Map.empty"
    and Get_finds: "lru_Get P l k = (r, l') \<Longrightarrow> r = entries l k \<and> entries l' \<subseteq>\<^sub>m entries l"
    and Set_stores: "entries (lru_Set P l k v) \<subseteq>\<^sub>m (entries l)(k \<mapsto> v)"
    and Remove_drops: "entries (lru_Remove P l k) \<subseteq>\<^sub>m (entries l)(k := None)"

sublocale lru_laws \<subseteq> lru: cache "lru_cache P" "\<lambda>c. entries (lc_values c)"
proof
  fix c k v c' assume "ca_Get (lru_cache P) c k = (Some v, c')"
  then show "entries (lc_values c) k = Some v"
    using Get_finds [of "lc_values c" k] by (auto simp: lru_cache_def LRUCache_Get_def Let_def split: prod.splits option.splits)
next
  fix c k r c' assume "ca_Get (lru_cache P) c k = (r, c')"
  then show "entries (lc_values c') \<subseteq>\<^sub>m entries (lc_values c)"
    using Get_finds [of "lc_values c" k] by (auto simp: lru_cache_def LRUCache_Get_def Let_def split: prod.splits option.splits)
qed (simp_all add: lru_cache_def LRUCache_Set_def LRUCache_Delete_def LRUCache_Clear_def Set_stores Remove_drops New_empty)

context lru_laws
begin

lemma lru_is_cache: "cache (lru_cache P) (\<lambda>c. entries (lc_values c))"
  by (rule lru.cache_axioms)

end

text \<open>A list of at most \<open>n\<close> entries, the last used in front, satisfies these laws.\<close>

definition ref_lru :: "(nat \<times> ('k \<times> 'v) list, 'k, 'v) lru_pkg" where
  "ref_lru = \<lparr>lru_New = (\<lambda>n. (nat n, [])),
     lru_Get = (\<lambda>(n, l) k. case map_of l k of None \<Rightarrow> (None, (n, l)) | Some v \<Rightarrow> (Some v, (n, (k, v) # filter (\<lambda>e. fst e \<noteq> k) l))),
     lru_Set = (\<lambda>(n, l) k v. (n, take n ((k, v) # filter (\<lambda>e. fst e \<noteq> k) l))),
     lru_Remove = (\<lambda>(n, l) k. (n, filter (\<lambda>e. fst e \<noteq> k) l))\<rparr>"

lemma map_of_filter_ne: "map_of (filter (\<lambda>e. fst e \<noteq> k) l) = (map_of l)(k := None)"
  by (induction l) (auto simp: fun_eq_iff)

lemma map_of_take_le: "map_of (take n l) \<subseteq>\<^sub>m map_of l"
  using map_le_map_add [of "map_of (take n l)" "map_of (drop n l)"] by (simp flip: map_of_append)

interpretation ref_lru: lru_laws ref_lru "\<lambda>(n, l). map_of l"
proof
  fix l :: "nat \<times> ('k \<times> 'v) list" and k v
  show "(case lru_Set ref_lru l k v of (n, l) \<Rightarrow> map_of l) \<subseteq>\<^sub>m (case l of (n, l) \<Rightarrow> map_of l)(k \<mapsto> v)"
    using map_of_take_le [of "fst l" "(k, v) # filter (\<lambda>e. fst e \<noteq> k) (snd l)"]
    by (auto simp: ref_lru_def map_of_filter_ne split: prod.splits)
qed (auto simp: ref_lru_def map_of_filter_ne map_le_def split: option.splits if_splits)


section \<open>The derivation cache\<close>

record ('d, 'r, 'e, 'q) DerivationCache =
  dc_deterministicKeyCache :: 'd
  dc_derivationCache :: 'r
  dc_ephemeralPublicKeyCache :: 'e
  dc_pubKeyToPointCache :: 'q

text \<open>The methods of the four caches; keys are byte arrays.\<close>

record ('d, 'r, 'e, 'q, 'p, 's) tables =
  t_deterministic :: "('d, byte list, ('p, 's) KeyPair) Cache"
  t_derivation :: "('r, byte list, hash) Cache"
  t_ephemeral :: "('e, byte list, hash \<times> byte) Cache"
  t_points :: "('q, hash, 'p option) Cache"

definition map_tables ::
  "((byte list, ('p, 's) KeyPair) MapCache, (byte list, hash) MapCache, (byte list, hash \<times> byte) MapCache, (hash, 'p option) MapCache, 'p, 's) tables" where
  "map_tables = \<lparr>t_deterministic = map_cache, t_derivation = map_cache, t_ephemeral = map_cache, t_points = map_cache\<rparr>"

definition NewDerivationMapCache ::
  "((byte list, ('p, 's) KeyPair) MapCache, (byte list, hash) MapCache, (byte list, hash \<times> byte) MapCache, (hash, 'p option) MapCache) DerivationCache" where
  "NewDerivationMapCache = \<lparr>dc_deterministicKeyCache = NewMapCache 32, dc_derivationCache = NewMapCache 2000,
     dc_ephemeralPublicKeyCache = NewMapCache 2000, dc_pubKeyToPointCache = NewMapCache 2000\<rparr>"

definition NewDerivationLRUCache ::
  "('d, byte list, ('p, 's) KeyPair) lru_pkg \<Rightarrow> ('r, byte list, hash) lru_pkg \<Rightarrow> ('e, byte list, hash \<times> byte) lru_pkg \<Rightarrow>
    ('q, hash, 'p option) lru_pkg \<Rightarrow> ('d LRUCache, 'r LRUCache, 'e LRUCache, 'q LRUCache) DerivationCache" where
  "NewDerivationLRUCache D R E Q = \<lparr>dc_deterministicKeyCache = NewLRUCache D 32, dc_derivationCache = NewLRUCache R 2000,
     dc_ephemeralPublicKeyCache = NewLRUCache E 2000, dc_pubKeyToPointCache = NewLRUCache Q 2000\<rparr>"

definition DerivationCache_Clear ::
  "('d, 'r, 'e, 'q, 'p, 's) tables \<Rightarrow> ('d, 'r, 'e, 'q) DerivationCache \<Rightarrow> ('d, 'r, 'e, 'q) DerivationCache" where
  "DerivationCache_Clear T d =
    \<lparr>dc_deterministicKeyCache = ca_Clear (t_deterministic T) (dc_deterministicKeyCache d),
     dc_derivationCache = ca_Clear (t_derivation T) (dc_derivationCache d),
     dc_ephemeralPublicKeyCache = ca_Clear (t_ephemeral T) (dc_ephemeralPublicKeyCache d),
     dc_pubKeyToPointCache = ca_Clear (t_points T) (dc_pubKeyToPointCache d)\<rparr>"

text \<open>\<^verbatim>\<open>copy\<close> of a slice into the 32 bytes of a key that belong to it.\<close>

definition copy32 :: "byte list \<Rightarrow> byte list" where
  "copy32 b = take 32 (b @ replicate 32 0)"

definition getPublicKeyPoint ::
  "('d, 'r, 'e, 'q, 'p, 's) tables \<Rightarrow> ('p, 's) curve \<Rightarrow> ('d, 'r, 'e, 'q) DerivationCache \<Rightarrow> hash \<Rightarrow>
    'p option \<times> ('d, 'r, 'e, 'q) DerivationCache" where
  "getPublicKeyPoint T C d publicKey =
    (case ca_Get (t_points T) (dc_pubKeyToPointCache d) publicKey of
       (Some point, c) \<Rightarrow> (point, d\<lparr>dc_pubKeyToPointCache := c\<rparr>)
     | (None, c) \<Rightarrow>
         let point = AsPoint C (PublicKeyBytes publicKey) in
         (point, d\<lparr>dc_pubKeyToPointCache := ca_Set (t_points T) c publicKey point\<rparr>))"

definition getDerivation ::
  "('d, 'r, 'e, 'q, 'p, 's) tables \<Rightarrow> ('p, 's) curve \<Rightarrow> ('d, 'r, 'e, 'q) DerivationCache \<Rightarrow> hash \<Rightarrow> byte list \<Rightarrow> 'p option \<Rightarrow> 's \<Rightarrow>
    (hash \<times> ('d, 'r, 'e, 'q) DerivationCache) result" where
  "getDerivation T C d viewPublicKeyBytes txKeySlice viewPublicKeyPoint txKey =
    (let key = le_bytes 32 viewPublicKeyBytes @ copy32 txKeySlice in
     case ca_Get (t_derivation T) (dc_derivationCache d) key of
       (Some derivation, c) \<Rightarrow> Inr (derivation, d\<lparr>dc_derivationCache := c\<rparr>)
     | (None, c) \<Rightarrow>
         bindR (deref viewPublicKeyPoint) (\<lambda>p.
           let derivation = GetDerivationNoAllocate C p txKey in
           Inr (derivation, d\<lparr>dc_derivationCache := ca_Set (t_derivation T) c key derivation\<rparr>)))"

definition DerivationCache_GetEphemeralPublicKey ::
  "('d, 'r, 'e, 'q, 'p, 's) tables \<Rightarrow> ('p, 's) curve \<Rightarrow> (byte list \<Rightarrow> hash) \<Rightarrow> ('d, 'r, 'e, 'q) DerivationCache \<Rightarrow> PackedAddress \<Rightarrow>
    byte list \<Rightarrow> 's \<Rightarrow> u64 \<Rightarrow> ((hash \<times> byte) \<times> ('d, 'r, 'e, 'q) DerivationCache) result" where
  "DerivationCache_GetEphemeralPublicKey T C K d a txKeySlice txKeyScalar outputIndex =
    (let key = copy32 txKeySlice @ le_bytes 32 (fst a) @ le_bytes 32 (snd a) @ le_bytes 8 outputIndex in
     case ca_Get (t_ephemeral T) (dc_ephemeralPublicKeyCache d) key of
       (Some e, c) \<Rightarrow> Inr (e, d\<lparr>dc_ephemeralPublicKeyCache := c\<rparr>)
     | (None, c) \<Rightarrow>
         let d = d\<lparr>dc_ephemeralPublicKeyCache := c\<rparr>;
             (viewPoint, d) = getPublicKeyPoint T C d (snd a);
             (spendPoint, d) = getPublicKeyPoint T C d (fst a)
         in bindR (getDerivation T C d (snd a) txKeySlice viewPoint txKeyScalar) (\<lambda>(derivation, d).
            bindR (deref spendPoint) (\<lambda>p.
              let e = GetEphemeralPublicKeyAndViewTagNoAllocate C K p derivation outputIndex in
              Inr (e, d\<lparr>dc_ephemeralPublicKeyCache := ca_Set (t_ephemeral T) (dc_ephemeralPublicKeyCache d) key e\<rparr>))))"

text \<open>The private key of a seed; the outer option is for the search, which may not end.\<close>

definition bindS :: "'a result option \<Rightarrow> ('a \<Rightarrow> 'b result) \<Rightarrow> 'b result option" where
  "bindS m f = map_option (\<lambda>r. bindR r f) m"

definition DerivationCache_GetDeterministicTransactionKey ::
  "('d, 'r, 'e, 'q, 'p, 's) tables \<Rightarrow> ('p, 's) curve \<Rightarrow> (byte list \<Rightarrow> hash) \<Rightarrow> ('d, 'r, 'e, 'q) DerivationCache \<Rightarrow> hash \<Rightarrow> hash \<Rightarrow>
    (('p, 's) KeyPair \<times> ('d, 'r, 'e, 'q) DerivationCache) result option" where
  "DerivationCache_GetDeterministicTransactionKey T C K d seed prevId =
    (let key = le_bytes 32 seed @ le_bytes 32 prevId in
     case ca_Get (t_deterministic T) (dc_deterministicKeyCache d) key of
       (Some kp, c) \<Rightarrow> Some (Inr (kp, d\<lparr>dc_deterministicKeyCache := c\<rparr>))
     | (None, c) \<Rightarrow>
         bindS (GetDeterministicTransactionPrivateKey C K seed prevId) (\<lambda>s.
           let priv = PrivateKeyBytes (PrivateKey_AsBytes C (PrivateKeyScalar s)) in
           bindR (PublicKey_of C priv) (\<lambda>pub.
             let kp = \<lparr>kp_PrivateKey = priv, kp_PublicKey = PublicKeyBytes (PublicKey_AsBytes C pub)\<rparr> in
             Inr (kp, d\<lparr>dc_deterministicKeyCache := ca_Set (t_deterministic T) c key kp\<rparr>))))"

definition Nil_GetEphemeralPublicKey ::
  "('p, 's) curve \<Rightarrow> (byte list \<Rightarrow> hash) \<Rightarrow> PackedAddress \<Rightarrow> 's \<Rightarrow> u64 \<Rightarrow> (hash \<times> byte) result" where
  "Nil_GetEphemeralPublicKey C K a txKeyScalar outputIndex =
    bindR (deref (AsPoint C (PublicKeyBytes (snd a)))) (\<lambda>viewPoint.
    bindR (deref (AsPoint C (PublicKeyBytes (fst a)))) (\<lambda>spendPoint.
      Inr (GetEphemeralPublicKeyAndViewTagNoAllocate C K spendPoint (GetDerivationNoAllocate C viewPoint txKeyScalar) outputIndex)))"

definition Nil_GetDeterministicTransactionKey ::
  "('p, 's) curve \<Rightarrow> (byte list \<Rightarrow> hash) \<Rightarrow> hash \<Rightarrow> hash \<Rightarrow> ('p, 's) KeyPair result option" where
  "Nil_GetDeterministicTransactionKey C K seed prevId =
    bindS (GetDeterministicTransactionPrivateKey C K seed prevId) (\<lambda>s. NewKeyPairFromPrivate C (PrivateKeyScalar s))"

section \<open>Caching changes no answer\<close>

text \<open>A sequence of requests, as the side chain makes them: the slice and the scalar of a request are of one key.\<close>

datatype 's request = ReqEphemeral PackedAddress 's u64 | ReqDeterministic hash hash | ReqClear
datatype answer = AnsKey hash byte | AnsPair hash hash | AnsDone

definition pair_bytes :: "('p, 's) curve \<Rightarrow> ('p, 's) KeyPair \<Rightarrow> answer" where
  "pair_bytes C kp = AnsPair (PrivateKey_AsBytes C (kp_PrivateKey kp)) (PublicKey_AsBytes C (kp_PublicKey kp))"

fun cached_answer ::
  "('d, 'r, 'e, 'q, 'p, 's) tables \<Rightarrow> ('p, 's) curve \<Rightarrow> (byte list \<Rightarrow> hash) \<Rightarrow> ('d, 'r, 'e, 'q) DerivationCache \<Rightarrow> 's request \<Rightarrow>
    (answer \<times> ('d, 'r, 'e, 'q) DerivationCache) result option" where
  "cached_answer T C K d (ReqEphemeral a s i) =
    Some (bindR (DerivationCache_GetEphemeralPublicKey T C K d a (k_ScalarBytes C s) s i) (\<lambda>((key, tag), d). Inr (AnsKey key tag, d)))"
| "cached_answer T C K d (ReqDeterministic seed prevId) =
    bindS (DerivationCache_GetDeterministicTransactionKey T C K d seed prevId) (\<lambda>(kp, d). Inr (pair_bytes C kp, d))"
| "cached_answer T C K d ReqClear = Some (Inr (AnsDone, DerivationCache_Clear T d))"

fun nil_answer :: "('p, 's) curve \<Rightarrow> (byte list \<Rightarrow> hash) \<Rightarrow> 's request \<Rightarrow> answer result option" where
  "nil_answer C K (ReqEphemeral a s i) = Some (bindR (Nil_GetEphemeralPublicKey C K a s i) (\<lambda>(key, tag). Inr (AnsKey key tag)))"
| "nil_answer C K (ReqDeterministic seed prevId) = bindS (Nil_GetDeterministicTransactionKey C K seed prevId) (\<lambda>kp. Inr (pair_bytes C kp))"
| "nil_answer C K ReqClear = Some (Inr AnsDone)"

fun cached_run ::
  "('d, 'r, 'e, 'q, 'p, 's) tables \<Rightarrow> ('p, 's) curve \<Rightarrow> (byte list \<Rightarrow> hash) \<Rightarrow> ('d, 'r, 'e, 'q) DerivationCache \<Rightarrow> 's request list \<Rightarrow>
    answer list result option" where
  "cached_run T C K d [] = Some (Inr [])"
| "cached_run T C K d (r # rs) =
    (case cached_answer T C K d r of
       None \<Rightarrow> None
     | Some (Inl e) \<Rightarrow> Some (Inl e)
     | Some (Inr (a, d)) \<Rightarrow> bindS (cached_run T C K d rs) (\<lambda>as. Inr (a # as)))"

fun nil_run :: "('p, 's) curve \<Rightarrow> (byte list \<Rightarrow> hash) \<Rightarrow> 's request list \<Rightarrow> answer list result option" where
  "nil_run C K [] = Some (Inr [])"
| "nil_run C K (r # rs) =
    (case nil_answer C K r of
       None \<Rightarrow> None
     | Some (Inl e) \<Rightarrow> Some (Inl e)
     | Some (Inr a) \<Rightarrow> bindS (nil_run C K rs) (\<lambda>as. Inr (a # as)))"

text \<open>The keys are injective.\<close>

definition eph_key :: "('p, 's) curve \<Rightarrow> 's \<times> PackedAddress \<times> u64 \<Rightarrow> byte list" where
  "eph_key C = (\<lambda>(s, a, i). copy32 (k_ScalarBytes C s) @ le_bytes 32 (fst a) @ le_bytes 32 (snd a) @ le_bytes 8 i)"

definition der_key :: "('p, 's) curve \<Rightarrow> hash \<times> 's \<Rightarrow> byte list" where
  "der_key C = (\<lambda>(v, s). le_bytes 32 v @ copy32 (k_ScalarBytes C s))"

definition det_key :: "hash \<times> hash \<Rightarrow> byte list" where
  "det_key = (\<lambda>(seed, prevId). le_bytes 32 seed @ le_bytes 32 prevId)"

lemma copy32_scalar:
  assumes "curve_ok C"
  shows "copy32 (k_ScalarBytes C s) = k_ScalarBytes C s" and "k_ScalarBytes C s = k_ScalarBytes C s' \<longleftrightarrow> s = s'"
proof -
  show "copy32 (k_ScalarBytes C s) = k_ScalarBytes C s" using curve_okD(12) [OF assms, of s] by (simp add: copy32_def)
  show "k_ScalarBytes C s = k_ScalarBytes C s' \<longleftrightarrow> s = s'" using curve_okD(3) [OF assms] by (metis option.inject)
qed

lemma le_bytes_8 [simp]: "le_bytes 8 i = le_bytes 8 j \<longleftrightarrow> i = (j :: u64)"
proof -
  have "le_word (le_bytes 8 w) = (w :: u64)" for w by (rule le_word_le_bytes) simp
  then show ?thesis by metis
qed

lemma eph_key_inject: "curve_ok C \<Longrightarrow> eph_key C x = eph_key C y \<longleftrightarrow> x = y"
  by (auto simp: eph_key_def copy32_scalar curve_okD(12) split: prod.splits)

lemma der_key_inject: "curve_ok C \<Longrightarrow> der_key C x = der_key C y \<longleftrightarrow> x = y"
  by (auto simp: der_key_def copy32_scalar curve_okD(12) split: prod.splits)

lemma det_key_inject: "det_key x = det_key y \<longleftrightarrow> x = y"
  by (auto simp: det_key_def split: prod.splits)

locale derivation_caches =
  det: cache "t_deterministic T" cd + der: cache "t_derivation T" cr + eph: cache "t_ephemeral T" ce + pts: cache "t_points T" cq
  for T :: "('d, 'r, 'e, 'q, 'p, 's) tables" and cd and cr and ce and cq +
  fixes C :: "('p, 's) curve" and K :: "byte list \<Rightarrow> hash"
  assumes curve: "curve_ok C"
begin

definition dc_ok :: "('d, 'r, 'e, 'q) DerivationCache \<Rightarrow> bool" where
  "dc_ok d \<longleftrightarrow>
    pts.consistent (\<lambda>h. h) (\<lambda>h p. p = AsPoint C (PublicKeyBytes h)) (dc_pubKeyToPointCache d) \<and>
    der.consistent (der_key C) (\<lambda>(v, s) r. \<exists>p. AsPoint C (PublicKeyBytes v) = Some p \<and> r = GetDerivationNoAllocate C p s) (dc_derivationCache d) \<and>
    eph.consistent (eph_key C) (\<lambda>(s, a, i) e. Nil_GetEphemeralPublicKey C K a s i = Inr e) (dc_ephemeralPublicKeyCache d) \<and>
    det.consistent det_key (\<lambda>(seed, prevId) kp. \<exists>kp'. Nil_GetDeterministicTransactionKey C K seed prevId = Some (Inr kp') \<and> pair_bytes C kp = pair_bytes C kp')
      (dc_deterministicKeyCache d)"

lemma point_ok:
  assumes "dc_ok d" and "getPublicKeyPoint T C d h = (p, d')"
  shows "p = AsPoint C (PublicKeyBytes h)" and "dc_ok d'" and "dc_ephemeralPublicKeyCache d' = dc_ephemeralPublicKeyCache d"
proof -
  have c: "pts.consistent (\<lambda>h. h) (\<lambda>h p. p = AsPoint C (PublicKeyBytes h)) (dc_pubKeyToPointCache d)" using assms(1) by (simp add: dc_ok_def)
  obtain r c' where g: "ca_Get (t_points T) (dc_pubKeyToPointCache d) h = (r, c')" by fastforce
  have "p = AsPoint C (PublicKeyBytes h) \<and> dc_ok d' \<and> dc_ephemeralPublicKeyCache d' = dc_ephemeralPublicKeyCache d"
  proof (cases r)
    case None
    have "pts.consistent (\<lambda>h. h) (\<lambda>h p. p = AsPoint C (PublicKeyBytes h)) (ca_Set (t_points T) c' h (AsPoint C (PublicKeyBytes h)))"
      using pts.consistent_miss [OF c] g None by (intro pts.consistent_Set) auto
    then show ?thesis using assms g None by (auto simp: getPublicKeyPoint_def Let_def dc_ok_def)
  next
    case (Some q)
    then show ?thesis using assms g pts.consistent_hit [OF c, of h q c'] by (auto simp: getPublicKeyPoint_def dc_ok_def)
  qed
  then show "p = AsPoint C (PublicKeyBytes h)" "dc_ok d'" "dc_ephemeralPublicKeyCache d' = dc_ephemeralPublicKeyCache d" by blast+
qed

lemma derivation_ok:
  assumes "dc_ok d"
  shows "case getDerivation T C d v (k_ScalarBytes C s) (AsPoint C (PublicKeyBytes v)) s of
      Inl e \<Rightarrow> deref (AsPoint C (PublicKeyBytes v)) = Inl e
    | Inr (r, d') \<Rightarrow> (\<exists>p. AsPoint C (PublicKeyBytes v) = Some p \<and> r = GetDerivationNoAllocate C p s) \<and> dc_ok d' \<and>
        dc_ephemeralPublicKeyCache d' = dc_ephemeralPublicKeyCache d"
proof -
  let ?R = "\<lambda>(v, s) r. \<exists>p. AsPoint C (PublicKeyBytes v) = Some p \<and> r = GetDerivationNoAllocate C p s"
  have c: "der.consistent (der_key C) ?R (dc_derivationCache d)" using assms by (simp add: dc_ok_def)
  have k: "le_bytes 32 v @ copy32 (k_ScalarBytes C s) = der_key C (v, s)" by (simp add: der_key_def)
  obtain r c' where g: "ca_Get (t_derivation T) (dc_derivationCache d) (der_key C (v, s)) = (r, c')" by fastforce
  show ?thesis
  proof (cases r)
    case None
    show ?thesis
    proof (cases "AsPoint C (PublicKeyBytes v)")
      case (Some p)
      have "der.consistent (der_key C) ?R (ca_Set (t_derivation T) c' (der_key C (v, s)) (GetDerivationNoAllocate C p s))"
        using der.consistent_miss [OF c] g None Some by (intro der.consistent_Set) (auto simp: der_key_inject [OF curve])
      then show ?thesis using assms None Some by (simp add: getDerivation_def k g dc_ok_def Let_def del: AsPoint.simps)
    qed (simp add: getDerivation_def k g None del: AsPoint.simps)
  next
    case (Some q)
    then show ?thesis using assms g der.consistent_hit [OF c, of "(v, s)" q c'] by (auto simp: getDerivation_def k dc_ok_def Let_def simp del: AsPoint.simps)
  qed
qed

lemma ephemeral_ok:
  assumes "dc_ok d"
  shows "case DerivationCache_GetEphemeralPublicKey T C K d a (k_ScalarBytes C s) s i of
      Inl e \<Rightarrow> Nil_GetEphemeralPublicKey C K a s i = Inl e
    | Inr (r, d') \<Rightarrow> Nil_GetEphemeralPublicKey C K a s i = Inr r \<and> dc_ok d'"
proof -
  let ?R = "\<lambda>(s, a, i) e. Nil_GetEphemeralPublicKey C K a s i = Inr e"
  have c: "eph.consistent (eph_key C) ?R (dc_ephemeralPublicKeyCache d)" using assms by (simp add: dc_ok_def)
  have k: "copy32 (k_ScalarBytes C s) @ le_bytes 32 (fst a) @ le_bytes 32 (snd a) @ le_bytes 8 i = eph_key C (s, a, i)" by (simp add: eph_key_def)
  obtain r c' where g: "ca_Get (t_ephemeral T) (dc_ephemeralPublicKeyCache d) (eph_key C (s, a, i)) = (r, c')" by fastforce
  show ?thesis
  proof (cases r)
    case None
    define d1 where "d1 = d\<lparr>dc_ephemeralPublicKeyCache := c'\<rparr>"
    have d1: "dc_ok d1" using assms eph.consistent_miss [OF c, of "eph_key C (s, a, i)" c'] g None by (simp add: d1_def dc_ok_def)
    obtain v d2 where v: "getPublicKeyPoint T C d1 (snd a) = (v, d2)" by fastforce
    note v' = point_ok [OF d1 v]
    obtain p d3 where p: "getPublicKeyPoint T C d2 (fst a) = (p, d3)" by fastforce
    note p' = point_ok [OF v'(2) p]
    note f = derivation_ok [OF p'(2), of "snd a" s]
    have e: "DerivationCache_GetEphemeralPublicKey T C K d a (k_ScalarBytes C s) s i =
      bindR (getDerivation T C d3 (snd a) (k_ScalarBytes C s) v s) (\<lambda>(derivation, d).
            bindR (deref p) (\<lambda>p.
              let e = GetEphemeralPublicKeyAndViewTagNoAllocate C K p derivation i in
              Inr (e, d\<lparr>dc_ephemeralPublicKeyCache := ca_Set (t_ephemeral T) (dc_ephemeralPublicKeyCache d) (eph_key C (s, a, i)) e\<rparr>)))"
      by (simp add: DerivationCache_GetEphemeralPublicKey_def k g None v p Let_def flip: d1_def)
    show ?thesis
    proof (cases "getDerivation T C d3 (snd a) (k_ScalarBytes C s) v s")
      case (Inl x)
      then show ?thesis using f unfolding e v'(1) by (simp add: Nil_GetEphemeralPublicKey_def del: AsPoint.simps)
    next
      case (Inr x)
      obtain w d4 where x: "x = (w, d4)" by fastforce
      obtain q where q: "AsPoint C (PublicKeyBytes (snd a)) = Some q" "w = GetDerivationNoAllocate C q s" "dc_ok d4"
        using f Inr unfolding v'(1) x by auto
      have "eph.consistent (eph_key C) ?R (dc_ephemeralPublicKeyCache d4)" using q(3) by (simp add: dc_ok_def)
      then have "eph.consistent (eph_key C) ?R (ca_Set (t_ephemeral T) (dc_ephemeralPublicKeyCache d4) (eph_key C (s, a, i)) y)"
        if "Nil_GetEphemeralPublicKey C K a s i = Inr y" for y
        using that by (intro eph.consistent_Set) (auto simp: eph_key_inject [OF curve])
      then have "dc_ok (d4\<lparr>dc_ephemeralPublicKeyCache := ca_Set (t_ephemeral T) (dc_ephemeralPublicKeyCache d4) (eph_key C (s, a, i)) y\<rparr>)"
        if "Nil_GetEphemeralPublicKey C K a s i = Inr y" for y
        using q(3) that by (simp add: dc_ok_def)
      then show ?thesis unfolding e Inr x p'(1) using q(1,2)
        by (cases "AsPoint C (PublicKeyBytes (fst a))") (simp_all add: Nil_GetEphemeralPublicKey_def Let_def del: AsPoint.simps)
    qed
  next
    case (Some q)
    then show ?thesis using assms g eph.consistent_hit [OF c, of "(s, a, i)" q c']
      by (auto simp: DerivationCache_GetEphemeralPublicKey_def k dc_ok_def Let_def)
  qed
qed

lemma deterministic_pair:
  assumes "GetDeterministicTransactionPrivateKey C K seed prevId = Some (Inr s)"
  shows "PublicKey_of C (PrivateKeyBytes (PrivateKey_AsBytes C (PrivateKeyScalar s))) = Inr (PublicKeyPoint (k_ScalarBaseMult C s))"
    and "Nil_GetDeterministicTransactionKey C K seed prevId =
      Some (Inr \<lparr>kp_PrivateKey = PrivateKeyScalar s, kp_PublicKey = PublicKeyPoint (k_ScalarBaseMult C s)\<rparr>)"
proof -
  have "le_bytes 32 (PrivateKey_AsBytes C (PrivateKeyScalar s)) = k_ScalarBytes C s"
    using curve_okD(12) [OF curve, of s] le_bytes_le_word [of "k_ScalarBytes C s", where 'a = 256] by simp
  then show "PublicKey_of C (PrivateKeyBytes (PrivateKey_AsBytes C (PrivateKeyScalar s))) = Inr (PublicKeyPoint (k_ScalarBaseMult C s))"
    using curve_okD(3) [OF curve] by (simp add: PublicKey_of_def)
  show "Nil_GetDeterministicTransactionKey C K seed prevId =
      Some (Inr \<lparr>kp_PrivateKey = PrivateKeyScalar s, kp_PublicKey = PublicKeyPoint (k_ScalarBaseMult C s)\<rparr>)"
    using assms by (simp add: Nil_GetDeterministicTransactionKey_def bindS_def NewKeyPairFromPrivate_def PublicKey_of_def)
qed

lemma deterministic_ok:
  assumes "dc_ok d"
  shows "case DerivationCache_GetDeterministicTransactionKey T C K d seed prevId of
      None \<Rightarrow> Nil_GetDeterministicTransactionKey C K seed prevId = None
    | Some (Inl e) \<Rightarrow> Nil_GetDeterministicTransactionKey C K seed prevId = Some (Inl e)
    | Some (Inr (kp, d')) \<Rightarrow> (\<exists>kp'. Nil_GetDeterministicTransactionKey C K seed prevId = Some (Inr kp') \<and> pair_bytes C kp = pair_bytes C kp') \<and> dc_ok d'"
proof -
  let ?R = "\<lambda>(seed, prevId) kp. \<exists>kp'. Nil_GetDeterministicTransactionKey C K seed prevId = Some (Inr kp') \<and> pair_bytes C kp = pair_bytes C kp'"
  have c: "det.consistent det_key ?R (dc_deterministicKeyCache d)" using assms by (simp add: dc_ok_def)
  have k: "le_bytes 32 seed @ le_bytes 32 prevId = det_key (seed, prevId)" by (simp add: det_key_def)
  obtain r c' where g: "ca_Get (t_deterministic T) (dc_deterministicKeyCache d) (det_key (seed, prevId)) = (r, c')" by fastforce
  show ?thesis
  proof (cases r)
    case None
    consider "GetDeterministicTransactionPrivateKey C K seed prevId = None"
      | e where "GetDeterministicTransactionPrivateKey C K seed prevId = Some (Inl e)"
      | s where "GetDeterministicTransactionPrivateKey C K seed prevId = Some (Inr s)" by (metis option.exhaust sum.exhaust)
    then show ?thesis
    proof cases
      case 3
      note n = deterministic_pair [OF 3]
      let ?kp = "\<lparr>kp_PrivateKey = PrivateKeyBytes (PrivateKey_AsBytes C (PrivateKeyScalar s)),
        kp_PublicKey = PublicKeyBytes (PublicKey_AsBytes C (PublicKeyPoint (k_ScalarBaseMult C s)))\<rparr> :: ('p, 's) KeyPair"
      have r: "?R (seed, prevId) ?kp" using n(2) by (simp add: pair_bytes_def)
      have "det.consistent det_key ?R (ca_Set (t_deterministic T) c' (det_key (seed, prevId)) ?kp)"
        using det.consistent_miss [OF c] g None r by (intro det.consistent_Set) (auto simp: det_key_inject)
      then have "dc_ok (d\<lparr>dc_deterministicKeyCache := ca_Set (t_deterministic T) c' (det_key (seed, prevId)) ?kp\<rparr>)" using assms by (simp add: dc_ok_def)
      then show ?thesis using r n(1) 3 None by (simp add: DerivationCache_GetDeterministicTransactionKey_def k g bindS_def Let_def)
    qed (simp_all add: DerivationCache_GetDeterministicTransactionKey_def Nil_GetDeterministicTransactionKey_def k g None bindS_def)
  next
    case (Some q)
    then show ?thesis using assms g det.consistent_hit [OF c, of "(seed, prevId)" q c']
      by (auto simp: DerivationCache_GetDeterministicTransactionKey_def k dc_ok_def Let_def)
  qed
qed

lemma clear_ok: "dc_ok (DerivationCache_Clear T d)"
  by (simp add: dc_ok_def DerivationCache_Clear_def pts.consistent_Clear der.consistent_Clear eph.consistent_Clear det.consistent_Clear)

lemma answer_ok:
  assumes "dc_ok d"
  shows "case cached_answer T C K d r of
      None \<Rightarrow> nil_answer C K r = None
    | Some (Inl e) \<Rightarrow> nil_answer C K r = Some (Inl e)
    | Some (Inr (a, d')) \<Rightarrow> nil_answer C K r = Some (Inr a) \<and> dc_ok d'"
proof (cases r)
  case (ReqEphemeral a s i)
  then show ?thesis using ephemeral_ok [OF assms, of a s i]
    by (cases "DerivationCache_GetEphemeralPublicKey T C K d a (k_ScalarBytes C s) s i") auto
next
  case (ReqDeterministic seed prevId)
  then show ?thesis using deterministic_ok [OF assms, of seed prevId]
    by (auto simp: bindS_def split: option.splits sum.splits)
next
  case ReqClear
  then show ?thesis by (simp add: clear_ok)
qed

lemma run_ok: "dc_ok d \<Longrightarrow> cached_run T C K d rs = nil_run C K rs"
proof (induction rs arbitrary: d)
  case (Cons r rs)
  then show ?case using answer_ok [OF Cons.prems, of r] by (auto split: option.splits sum.splits)
qed simp

lemma new_ok:
  "cd (dc_deterministicKeyCache d) = Map.empty \<Longrightarrow> cr (dc_derivationCache d) = Map.empty \<Longrightarrow> ce (dc_ephemeralPublicKeyCache d) = Map.empty \<Longrightarrow>
    cq (dc_pubKeyToPointCache d) = Map.empty \<Longrightarrow> dc_ok d"
  by (simp add: dc_ok_def pts.consistent_empty der.consistent_empty eph.consistent_empty det.consistent_empty)

end

definition lru_tables ::
  "('d, byte list, ('p, 's) KeyPair) lru_pkg \<Rightarrow> ('r, byte list, hash) lru_pkg \<Rightarrow> ('e, byte list, hash \<times> byte) lru_pkg \<Rightarrow> ('q, hash, 'p option) lru_pkg \<Rightarrow>
    ('d LRUCache, 'r LRUCache, 'e LRUCache, 'q LRUCache, 'p, 's) tables" where
  "lru_tables D R E Q = \<lparr>t_deterministic = lru_cache D, t_derivation = lru_cache R, t_ephemeral = lru_cache E, t_points = lru_cache Q\<rparr>"

lemma map_derivation_caches: "curve_ok C \<Longrightarrow> derivation_caches map_tables mc_values mc_values mc_values mc_values C"
  unfolding derivation_caches_def derivation_caches_axioms_def map_tables_def by (simp add: map_cache.cache_axioms)

lemma lru_derivation_caches:
  assumes "curve_ok C" "lru_laws D d" "lru_laws R r" "lru_laws E e" "lru_laws Q q"
  shows "derivation_caches (lru_tables D R E Q) (\<lambda>c. d (lc_values c)) (\<lambda>c. r (lc_values c)) (\<lambda>c. e (lc_values c)) (\<lambda>c. q (lc_values c)) C"
  unfolding derivation_caches_def derivation_caches_axioms_def lru_tables_def
  using assms by (simp add: lru_laws.lru_is_cache)

interpretation ref_caches: derivation_caches map_tables mc_values mc_values mc_values mc_values ref_curve K for K
  by (rule map_derivation_caches [OF ref_curve_ok])

text \<open>C33: caching changes no answer.  From a new derivation cache, with maps or with LRU caches whose package keeps to its contract, any sequence of requests for
  output keys and transaction keys, with the cache cleared at any point, gets the answers (also the panics) that the cache-less
  implementation gives.\<close>

theorem DerivationCache_transparent:
  assumes "curve_ok C" and "lru_laws D d" "lru_laws R r" "lru_laws E e" "lru_laws Q q"
  shows "cached_run map_tables C K NewDerivationMapCache rs = nil_run C K rs \<and>
    cached_run (lru_tables D R E Q) C K (NewDerivationLRUCache D R E Q) rs = nil_run C K rs"
proof
  show "cached_run map_tables C K NewDerivationMapCache rs = nil_run C K rs"
    by (rule derivation_caches.run_ok [OF map_derivation_caches [OF assms(1)] derivation_caches.new_ok [OF map_derivation_caches [OF assms(1)]]])
      (simp_all add: NewDerivationMapCache_def NewMapCache_def)
  note l = lru_derivation_caches [OF assms]
  show "cached_run (lru_tables D R E Q) C K (NewDerivationLRUCache D R E Q) rs = nil_run C K rs"
    by (rule derivation_caches.run_ok [OF l derivation_caches.new_ok [OF l]])
      (use assms(2-5) in \<open>simp_all add: NewDerivationLRUCache_def NewLRUCache_def lru_laws.New_empty\<close>)
qed

theorem DerivationCache_transparent_witness:
  "cached_run (lru_tables ref_lru ref_lru ref_lru ref_lru) ref_curve (\<lambda>_. 5) (NewDerivationLRUCache ref_lru ref_lru ref_lru ref_lru)
     [ReqDeterministic 1 2, ReqClear, ReqDeterministic 1 2] =
   nil_run ref_curve (\<lambda>_. 5) [ReqDeterministic 1 2, ReqClear, ReqDeterministic 1 2]"
  using DerivationCache_transparent [OF ref_curve_ok ref_lru.lru_laws_axioms ref_lru.lru_laws_axioms ref_lru.lru_laws_axioms ref_lru.lru_laws_axioms] by blast

end
