(* ===== verification/Parallel.thy ===== *)
theory Parallel
  imports Prelude
begin

text \<open>
  utils/concurrency.go: \<^verbatim>\<open>SplitWork\<close> hands the indices below \<^verbatim>\<open>workSize\<close> to goroutines, which draw them from a shared
  atomic counter.

  The calling goroutine starts the others and waits for them; every interleaving of their atomic actions is a sequence of steps.  \<open>doWork i r\<close> is the error, if
  any, of \<^verbatim>\<open>do(i, r)\<close>, \<open>init\<close> that of \<^verbatim>\<open>init\<close>, \<open>hasErrorFunc\<close> tells whether an error function was passed.  Calls of \<^verbatim>\<open>do\<close> are recorded in a list.
\<close>

definition SplitWork_routines :: "int \<Rightarrow> int \<Rightarrow> u64 \<Rightarrow> int" where
  "SplitWork_routines numCPU routines workSize =
    (let routines = (if routines \<le> 0 then max (numCPU - routines) 4 else routines) in
     if workSize < word_of_int routines then sint workSize else routines)"

datatype goroutine = NotStarted | Running | Doing u64 | Returned
datatype caller = Starting nat | Waiting | Result bool

record pool =
  p_caller :: caller
  p_routine :: "nat \<Rightarrow> goroutine"
  p_counter :: u64
  p_failed :: bool
  p_log :: "(u64 \<times> nat) list"

record work =
  k_routines :: nat
  k_workSize :: u64
  k_do :: "u64 \<Rightarrow> nat \<Rightarrow> error option"
  k_init :: "nat \<Rightarrow> error option"
  k_hasErrorFunc :: bool

definition start_pool :: pool where
  "start_pool = \<lparr>p_caller = Starting 0, p_routine = (\<lambda>_. NotStarted), p_counter = 0, p_failed = False, p_log = []\<rparr>"

inductive split_step :: "work \<Rightarrow> pool \<Rightarrow> pool \<Rightarrow> bool" for W where
  start: "p_caller s = Starting i \<Longrightarrow> i < k_routines W \<Longrightarrow> k_init W i = None \<Longrightarrow>
    split_step W s (s\<lparr>p_caller := Starting (i + 1), p_routine := (p_routine s)(i := Running)\<rparr>)"
| init_error: "p_caller s = Starting i \<Longrightarrow> i < k_routines W \<Longrightarrow> k_init W i \<noteq> None \<Longrightarrow>
    split_step W s (s\<lparr>p_caller := Starting (i + 1), p_failed := True\<rparr>)"
| started: "p_caller s = Starting (k_routines W) \<Longrightarrow> split_step W s (s\<lparr>p_caller := Waiting\<rparr>)"
| take_index: "p_routine s r = Running \<Longrightarrow> \<not> p_counter s + 1 > k_workSize W \<Longrightarrow>
    split_step W s (s\<lparr>p_counter := p_counter s + 1, p_routine := (p_routine s)(r := Doing (p_counter s))\<rparr>)"
| no_more: "p_routine s r = Running \<Longrightarrow> p_counter s + 1 > k_workSize W \<Longrightarrow>
    split_step W s (s\<lparr>p_counter := p_counter s + 1, p_routine := (p_routine s)(r := Returned)\<rparr>)"
| do_ok: "p_routine s r = Doing i \<Longrightarrow> k_do W i r = None \<Longrightarrow>
    split_step W s (s\<lparr>p_routine := (p_routine s)(r := Running), p_log := p_log s @ [(i, r)]\<rparr>)"
| do_error: "p_routine s r = Doing i \<Longrightarrow> k_do W i r \<noteq> None \<Longrightarrow>
    split_step W s (s\<lparr>p_routine := (p_routine s)(r := Returned), p_log := p_log s @ [(i, r)], p_failed := p_failed s \<or> k_hasErrorFunc W\<rparr>)"
| wait: "p_caller s = Waiting \<Longrightarrow> (\<forall>r < k_routines W. p_routine s r \<in> {NotStarted, Returned}) \<Longrightarrow>
    split_step W s (s\<lparr>p_caller := Result (\<not> p_failed s)\<rparr>)"

inductive_cases split_stepE: "split_step W s s'"

definition split_reachable :: "work \<Rightarrow> pool \<Rightarrow> bool" where
  "split_reachable W s \<longleftrightarrow> (split_step W)\<^sup>*\<^sup>* start_pool s"

section \<open>Invariant\<close>

definition work_ok :: "work \<Rightarrow> bool" where
  "work_ok W \<longleftrightarrow> unat (k_workSize W) + k_routines W < 2 ^ 64 \<and> (0 < k_workSize W \<longrightarrow> 0 < k_routines W)"

text \<open>How many goroutines have been started or skipped.\<close>

definition begun :: "work \<Rightarrow> pool \<Rightarrow> nat" where
  "begun W s = (case p_caller s of Starting i \<Rightarrow> i | _ \<Rightarrow> k_routines W)"

definition returned :: "work \<Rightarrow> pool \<Rightarrow> nat set" where
  "returned W s = {r. r < k_routines W \<and> p_routine s r = Returned}"

definition held :: "pool \<Rightarrow> u64 \<Rightarrow> bool" where
  "held s i \<longleftrightarrow> (\<exists>r. p_routine s r = Doing i)"

definition begun_inv :: "work \<Rightarrow> pool \<Rightarrow> bool" where
  "begun_inv W s \<longleftrightarrow> begun W s \<le> k_routines W \<and> (\<forall>r. p_routine s r = NotStarted \<longleftrightarrow> \<not> (r < begun W s \<and> k_init W r = None))"

definition counter_inv :: "work \<Rightarrow> pool \<Rightarrow> bool" where
  "counter_inv W s \<longleftrightarrow> unat (p_counter s) \<le> unat (k_workSize W) + card (returned W s)"

definition index_inv :: "work \<Rightarrow> pool \<Rightarrow> bool" where
  "index_inv W s \<longleftrightarrow>
    (\<forall>i. i < p_counter s \<and> i < k_workSize W \<longleftrightarrow> held s i \<or> i \<in> fst ` set (p_log s)) \<and>
    (\<forall>r r' i. p_routine s r = Doing i \<and> p_routine s r' = Doing i \<longrightarrow> r = r') \<and>
    (\<forall>i. held s i \<longrightarrow> i \<notin> fst ` set (p_log s)) \<and> distinct (map fst (p_log s))"

definition end_inv :: "work \<Rightarrow> pool \<Rightarrow> bool" where
  "end_inv W s \<longleftrightarrow>
    (\<forall>r. p_routine s r = Returned \<longrightarrow> k_workSize W < p_counter s \<or> (\<exists>i. (i, r) \<in> set (p_log s) \<and> k_do W i r \<noteq> None)) \<and>
    (p_failed s \<longleftrightarrow> (\<exists>r < begun W s. k_init W r \<noteq> None) \<or> k_hasErrorFunc W \<and> (\<exists>i r. (i, r) \<in> set (p_log s) \<and> k_do W i r \<noteq> None)) \<and>
    (\<forall>b. p_caller s = Result b \<longrightarrow> (\<forall>r < k_routines W. p_routine s r \<in> {NotStarted, Returned}) \<and> b = (\<not> p_failed s))"

definition split_inv :: "work \<Rightarrow> pool \<Rightarrow> bool" where
  "split_inv W s \<longleftrightarrow> begun_inv W s \<and> counter_inv W s \<and> index_inv W s \<and> end_inv W s"

lemma split_inv_start: "split_inv W start_pool"
  by (simp add: split_inv_def begun_inv_def counter_inv_def index_inv_def end_inv_def start_pool_def begun_def held_def)

lemma active_below: "begun_inv W s \<Longrightarrow> p_routine s r \<noteq> NotStarted \<Longrightarrow> r < k_routines W"
  unfolding begun_inv_def by (meson order_less_le_trans)

lemma finite_returned: "finite (returned W s)"
  by (simp add: returned_def)

lemma card_returned: "begun_inv W s \<Longrightarrow> p_routine s r \<noteq> NotStarted \<Longrightarrow> p_routine s r \<noteq> Returned \<Longrightarrow> card (returned W s) < k_routines W"
proof -
  assume a: "begun_inv W s" "p_routine s r \<noteq> NotStarted" "p_routine s r \<noteq> Returned"
  have "returned W s \<subseteq> {..<k_routines W} - {r}" using a(3) by (auto simp: returned_def)
  then have "card (returned W s) \<le> card ({..<k_routines W} - {r})" by (intro card_mono) auto
  then show ?thesis using active_below [OF a(1,2)] by simp
qed

text \<open>As long as a goroutine runs, the counter does not wrap.\<close>

lemma counter_next:
  assumes "work_ok W" "begun_inv W s" "counter_inv W s" "p_routine s r = Running"
  shows "unat (p_counter s + 1) = unat (p_counter s) + 1" and "unat (p_counter s) < unat (k_workSize W) + k_routines W"
proof -
  have "card (returned W s) < k_routines W" by (rule card_returned [OF assms(2), of r]) (simp_all add: assms(4))
  then show "unat (p_counter s) < unat (k_workSize W) + k_routines W" using assms(3) by (simp add: counter_inv_def)
  then show "unat (p_counter s + 1) = unat (p_counter s) + 1" using assms(1) by (simp add: work_ok_def unat_word_ariths)
qed

lemma begun_inv_update:
  assumes "begun_inv W s" and "p_routine s r \<noteq> NotStarted" and "x \<noteq> NotStarted"
    and "begun W s' = begun W s" and "p_routine s' = (p_routine s)(r := x)"
  shows "begun_inv W s'"
  using assms unfolding begun_inv_def by (metis fun_upd_apply)

lemma begun_caller: "begun W (s\<lparr>p_counter := c\<rparr>) = begun W s" "begun W (s\<lparr>p_routine := f\<rparr>) = begun W s" "begun W (s\<lparr>p_log := l\<rparr>) = begun W s"
  "begun W (s\<lparr>p_failed := b\<rparr>) = begun W s"
  by (simp_all add: begun_def)

lemma begun_inv_step: "split_step W s s' \<Longrightarrow> begun_inv W s \<Longrightarrow> begun_inv W s'"
proof (induction rule: split_step.induct)
  case (start s i)
  then show ?case by (auto simp: begun_inv_def begun_def less_Suc_eq)
next
  case (init_error s i)
  then show ?case by (auto simp: begun_inv_def begun_def less_Suc_eq)
next
  case (take_index s r)
  show ?case by (rule begun_inv_update [OF take_index(3), of r]) (simp_all add: take_index begun_caller)
next
  case (no_more s r)
  show ?case by (rule begun_inv_update [OF no_more(3), of r]) (simp_all add: no_more begun_caller)
next
  case (do_ok s r i)
  show ?case by (rule begun_inv_update [OF do_ok(3), of r]) (simp_all add: do_ok begun_caller)
next
  case (do_error s r i)
  show ?case by (rule begun_inv_update [OF do_error(3), of r]) (simp_all add: do_error begun_caller)
qed (auto simp: begun_inv_def begun_def)

lemma counter_inv_step:
  assumes "split_step W s s'" and "work_ok W" and "begun_inv W s" and "counter_inv W s"
  shows "counter_inv W s'"
  using assms
proof (induction rule: split_step.induct)
  case (start s i)
  then have "p_routine s i = NotStarted" by (simp add: begun_inv_def begun_def)
  then have "returned W (s\<lparr>p_caller := Starting (i + 1), p_routine := (p_routine s)(i := Running)\<rparr>) = returned W s" by (auto simp: returned_def)
  then show ?case using start by (simp add: counter_inv_def)
next
  case (take_index s r)
  have "returned W (s\<lparr>p_counter := p_counter s + 1, p_routine := (p_routine s)(r := Doing (p_counter s))\<rparr>) = returned W s"
    using take_index(1) by (auto simp: returned_def)
  moreover have "unat (p_counter s + 1) \<le> unat (k_workSize W)" using take_index(2) by (simp add: word_le_nat_alt not_less)
  ultimately show ?case by (simp add: counter_inv_def)
next
  case (no_more s r)
  have "returned W (s\<lparr>p_counter := p_counter s + 1, p_routine := (p_routine s)(r := Returned)\<rparr>) = insert r (returned W s)"
    using active_below [OF no_more(4), of r] no_more(1) by (auto simp: returned_def)
  moreover have "r \<notin> returned W s" using no_more(1) by (simp add: returned_def)
  ultimately show ?case using no_more(5) counter_next(1) [OF no_more(3,4,5,1)] by (simp add: counter_inv_def finite_returned)
next
  case (do_ok s r i)
  then have "returned W (s\<lparr>p_routine := (p_routine s)(r := Running), p_log := p_log s @ [(i, r)]\<rparr>) = returned W s" by (auto simp: returned_def)
  then show ?case using do_ok by (simp add: counter_inv_def)
next
  case (do_error s r i)
  have "returned W s \<subseteq> returned W (s\<lparr>p_routine := (p_routine s)(r := Returned), p_log := p_log s @ [(i, r)], p_failed := p_failed s \<or> k_hasErrorFunc W\<rparr>)"
    by (auto simp: returned_def)
  then have "card (returned W s) \<le> card (returned W (s\<lparr>p_routine := (p_routine s)(r := Returned), p_log := p_log s @ [(i, r)], p_failed := p_failed s \<or> k_hasErrorFunc W\<rparr>))"
    by (rule card_mono [OF finite_returned])
  then show ?case using do_error by (simp add: counter_inv_def)
qed (simp_all add: counter_inv_def returned_def)


lemma heldI: "p_routine s r = Doing i \<Longrightarrow> held s i"
  by (auto simp: held_def)

lemma held_same: "(\<And>r i. p_routine s' r = Doing i \<longleftrightarrow> p_routine s r = Doing i) \<Longrightarrow> held s' = held s"
  by (auto simp: held_def fun_eq_iff)

lemma index_inv_same:
  assumes "index_inv W s" and "\<And>r i. p_routine s' r = Doing i \<longleftrightarrow> p_routine s r = Doing i" and "p_log s' = p_log s"
    and "p_counter s' = p_counter s \<or> k_workSize W \<le> p_counter s \<and> k_workSize W \<le> p_counter s'"
  shows "index_inv W s'"
proof -
  have "i < p_counter s' \<and> i < k_workSize W \<longleftrightarrow> i < p_counter s \<and> i < k_workSize W" for i using assms(4) by auto
  then show ?thesis using assms(1) unfolding index_inv_def held_same [of s' s, OF assms(2)] assms(2,3) by simp
qed

lemma index_invD:
  assumes "index_inv W s"
  shows "i < p_counter s \<and> i < k_workSize W \<longleftrightarrow> held s i \<or> i \<in> fst ` set (p_log s)"
    and "p_routine s r = Doing i \<Longrightarrow> p_routine s r' = Doing i \<Longrightarrow> r = r'"
    and "held s i \<Longrightarrow> i \<notin> fst ` set (p_log s)" and "distinct (map fst (p_log s))"
  using assms unfolding index_inv_def by blast+

lemma held_done:
  assumes "index_inv W s" and "p_routine s r = Doing i" and "p_routine s' = (p_routine s)(r := x)" and "\<And>j. x \<noteq> Doing j"
  shows "held s' j \<longleftrightarrow> held s j \<and> j \<noteq> i"
proof
  assume "held s' j"
  then obtain r' where r': "p_routine s' r' = Doing j" by (auto simp: held_def)
  then have n: "r' \<noteq> r" using assms(3,4) by auto
  then have j: "p_routine s r' = Doing j" using r' assms(3) by simp
  moreover have "j \<noteq> i" using index_invD(2) [OF assms(1) assms(2), of r'] j n by auto
  ultimately show "held s j \<and> j \<noteq> i" by (auto intro: heldI)
next
  assume "held s j \<and> j \<noteq> i"
  then obtain r' where r': "p_routine s r' = Doing j" "j \<noteq> i" by (auto simp: held_def)
  then have "r' \<noteq> r" using assms(2) by auto
  then show "held s' j" using r' assms(3) by (intro heldI [of _ r']) simp
qed

lemma index_inv_log:
  assumes "index_inv W s" and "p_routine s r = Doing i" and "p_routine s' = (p_routine s)(r := x)" and "\<And>j. x \<noteq> Doing j"
    and "p_log s' = p_log s @ [(i, r)]" and "p_counter s' = p_counter s"
  shows "index_inv W s'"
proof -
  note h = held_done [OF assms(1-4)]
  note i = index_invD(3) [OF assms(1) heldI [OF assms(2)]]
  have log: "j \<in> fst ` set (p_log s') \<longleftrightarrow> j = i \<or> j \<in> fst ` set (p_log s)" for j by (simp add: assms(5))
  have "j < p_counter s' \<and> j < k_workSize W \<longleftrightarrow> held s' j \<or> j \<in> fst ` set (p_log s')" for j
    unfolding assms(6) index_invD(1) [OF assms(1)] h log using heldI [OF assms(2)] by blast
  moreover have "r1 = r2" if "p_routine s' r1 = Doing j" "p_routine s' r2 = Doing j" for r1 r2 j
    using that assms(4) [of j] index_invD(2) [OF assms(1), of r1 j r2] unfolding assms(3) by (simp split: if_splits)
  moreover have "held s' j \<Longrightarrow> j \<notin> fst ` set (p_log s')" for j using index_invD(3) [OF assms(1), of j] unfolding h log by blast
  moreover have "distinct (map fst (p_log s'))" using index_invD(4) [OF assms(1)] i by (simp add: assms(5))
  ultimately show ?thesis unfolding index_inv_def by blast
qed

lemma index_inv_step:
  assumes "split_step W s s'" and "work_ok W" and "begun_inv W s" and "counter_inv W s" and "index_inv W s"
  shows "index_inv W s'"
  using assms
proof (induction rule: split_step.induct)
  case (start s i)
  then have "p_routine s i = NotStarted" by (simp add: begun_inv_def begun_def)
  then show ?case by (intro index_inv_same [OF start(7)]) auto
next
  case (take_index s r)
  let ?s = "s\<lparr>p_counter := p_counter s + 1, p_routine := (p_routine s)(r := Doing (p_counter s))\<rparr>"
  note n = counter_next(1) [OF take_index(3,4,5,1)]
  have c: "p_counter s < k_workSize W" using take_index(2) n by (simp add: word_less_nat_alt)
  have i: "i < p_counter s + 1 \<longleftrightarrow> i < p_counter s \<or> i = p_counter s" for i
    using n by (auto simp: word_less_nat_alt less_Suc_eq word_unat_eq_iff)
  have fresh: "\<not> held s (p_counter s)" "p_counter s \<notin> fst ` set (p_log s)" using take_index(6) unfolding index_inv_def by (metis less_irrefl)+
  have h: "held ?s j \<longleftrightarrow> held s j \<or> j = p_counter s" for j
    using take_index(1) by (auto simp: held_def) (metis goroutine.distinct(7))
  have log: "p_log ?s = p_log s" by simp
  have "j < p_counter ?s \<and> j < k_workSize W \<longleftrightarrow> held ?s j \<or> j \<in> fst ` set (p_log ?s)" for j
  proof -
    have "j < p_counter ?s \<and> j < k_workSize W \<longleftrightarrow> (j < p_counter s \<and> j < k_workSize W) \<or> j = p_counter s" using c by (auto simp: i)
    then show ?thesis unfolding index_invD(1) [OF take_index(6)] h log by blast
  qed
  moreover have "r1 = r2" if "p_routine ?s r1 = Doing j" "p_routine ?s r2 = Doing j" for r1 r2 j
    using that index_invD(2) [OF take_index(6), of r1 j r2] heldI [of s _ "p_counter s"] fresh(1) by (auto split: if_splits)
  moreover have "held ?s j \<Longrightarrow> j \<notin> fst ` set (p_log ?s)" for j using index_invD(3) [OF take_index(6), of j] fresh(2) unfolding h log by (elim disjE) simp_all
  moreover have "distinct (map fst (p_log ?s))" using index_invD(4) [OF take_index(6)] unfolding log .
  ultimately show ?case unfolding index_inv_def by blast
next
  case (no_more s r)
  have "k_workSize W \<le> p_counter s" using no_more(2) counter_next(1) [OF no_more(3,4,5,1)] by (simp add: word_le_nat_alt word_less_nat_alt)
  moreover have "k_workSize W \<le> p_counter s + 1" using no_more(2) by simp
  ultimately show ?case using no_more(1) by (intro index_inv_same [OF no_more(6)]) auto
next
  case (do_ok s r i)
  show ?case by (rule index_inv_log [OF do_ok(6,1), where x = Running]) simp_all
next
  case (do_error s r i)
  show ?case by (rule index_inv_log [OF do_error(6,1), where x = Returned]) simp_all
qed (auto intro: index_inv_same)


text \<open>The clauses of the last invariant, one lemma each.\<close>

definition goroutine_result :: "work \<Rightarrow> pool \<Rightarrow> nat \<Rightarrow> bool" where
  "goroutine_result W s r \<longleftrightarrow> k_workSize W < p_counter s \<or> (\<exists>i. (i, r) \<in> set (p_log s) \<and> k_do W i r \<noteq> None)"

definition work_failed :: "work \<Rightarrow> pool \<Rightarrow> bool" where
  "work_failed W s \<longleftrightarrow> (\<exists>r < begun W s. k_init W r \<noteq> None) \<or> k_hasErrorFunc W \<and> (\<exists>i r. (i, r) \<in> set (p_log s) \<and> k_do W i r \<noteq> None)"

definition all_ended :: "work \<Rightarrow> pool \<Rightarrow> bool" where
  "all_ended W s \<longleftrightarrow> (\<forall>r < k_routines W. p_routine s r \<in> {NotStarted, Returned})"

lemma end_inv_iff:
  "end_inv W s \<longleftrightarrow> (\<forall>r. p_routine s r = Returned \<longrightarrow> goroutine_result W s r) \<and> (p_failed s \<longleftrightarrow> work_failed W s) \<and>
    (\<forall>b. p_caller s = Result b \<longrightarrow> all_ended W s \<and> b = (\<not> p_failed s))"
  by (simp only: end_inv_def goroutine_result_def work_failed_def all_ended_def)

lemma all_ended_idle: "begun_inv W s \<Longrightarrow> all_ended W s \<Longrightarrow> p_routine s r \<in> {NotStarted, Returned}"
  using active_below [of W s r] by (cases "r < k_routines W") (auto simp: all_ended_def)

text \<open>A result is final: every goroutine has ended.\<close>

lemma result_final: "split_step W s s' \<Longrightarrow> begun_inv W s \<Longrightarrow> end_inv W s \<Longrightarrow> p_caller s \<noteq> Result b"
proof
  assume step: "split_step W s s'" and inv: "begun_inv W s" "end_inv W s" and res: "p_caller s = Result b"
  have idle: "p_routine s r \<in> {NotStarted, Returned}" for r using inv(2) res by (intro all_ended_idle [OF inv(1)]) (simp add: end_inv_iff)
  have "p_routine s r \<noteq> Running" "p_routine s r \<noteq> Doing i" for r i using idle [of r] by auto
  with step res show False by (cases rule: split_step.cases) simp_all
qed

lemma goroutine_result_step:
  assumes "split_step W s s'" and "work_ok W" and "begun_inv W s" and "counter_inv W s" and "end_inv W s" and "p_routine s' r = Returned"
  shows "goroutine_result W s' r"
proof -
  have old: "p_routine s r = Returned \<Longrightarrow> goroutine_result W s r" using assms(5) by (simp add: end_inv_iff)
  show ?thesis using assms(1,2,3,4,6) old
  proof (cases rule: split_step.cases)
    case (take_index r')
    then have "\<not> k_workSize W < p_counter s" using counter_next(1) [OF assms(2,3,4), of r'] by (simp add: word_less_nat_alt)
    then show ?thesis using old take_index assms(6) by (auto simp: goroutine_result_def split: if_splits)
  qed (auto simp: goroutine_result_def split: if_splits)
qed

lemma work_failed_step:
  assumes "split_step W s s'" and "p_failed s \<longleftrightarrow> work_failed W s"
  shows "p_failed s' \<longleftrightarrow> work_failed W s'"
  using assms by (cases rule: split_step.cases) (auto simp: work_failed_def begun_def less_Suc_eq)

lemma end_inv_step:
  assumes "split_step W s s'" and "work_ok W" and "begun_inv W s" and "counter_inv W s" and "end_inv W s"
  shows "end_inv W s'"
proof -
  have "all_ended W s' \<and> b = (\<not> p_failed s')" if "p_caller s' = Result b" for b
    using assms(1) that result_final [OF assms(1,3,5)] by (cases rule: split_step.cases) (auto simp: all_ended_def)
  then show ?thesis
    using goroutine_result_step [OF assms] work_failed_step [OF assms(1)] assms(5) unfolding end_inv_iff by blast
qed

theorem split_inv_step: "split_step W s s' \<Longrightarrow> work_ok W \<Longrightarrow> split_inv W s \<Longrightarrow> split_inv W s'"
  unfolding split_inv_def by (blast intro: begun_inv_step counter_inv_step index_inv_step end_inv_step)

lemma split_inv_reachable: "work_ok W \<Longrightarrow> split_reachable W s \<Longrightarrow> split_inv W s"
  unfolding split_reachable_def by (erule rtranclp_induct) (auto intro: split_inv_start split_inv_step)

section \<open>The number of goroutines\<close>

lemma SplitWork_routines_bounds:
  assumes "0 \<le> numCPU" and "numCPU + \<bar>routines\<bar> < 2 ^ 63" and "workSize < 2 ^ 63"
  shows "0 \<le> SplitWork_routines numCPU routines workSize" and "SplitWork_routines numCPU routines workSize \<le> uint workSize"
    and "0 < workSize \<Longrightarrow> 0 < SplitWork_routines numCPU routines workSize"
proof -
  define q where "q = (if routines \<le> 0 then max (numCPU - routines) 4 else routines)"
  have q: "0 < q" "q < 2 ^ 63" using assms(1,2) by (auto simp: q_def)
  have u: "uint (word_of_int q :: u64) = q" using q by (simp add: uint_word_of_int)
  have w: "uint workSize < 2 ^ 63" using assms(3) by (simp add: word_less_def)
  have s: "sint workSize = uint workSize"
  proof -
    have "unat workSize < 2 ^ 63" using assms(3) by (simp add: word_less_nat_alt)
    then show ?thesis using sint_small [of workSize] by simp
  qed
  have e: "SplitWork_routines numCPU routines workSize = (if uint workSize < q then uint workSize else q)"
    unfolding SplitWork_routines_def q_def [symmetric] Let_def word_less_def u s ..
  show "0 \<le> SplitWork_routines numCPU routines workSize" "SplitWork_routines numCPU routines workSize \<le> uint workSize" using q unfolding e by auto
  show "0 < SplitWork_routines numCPU routines workSize" if "0 < workSize" using that q unfolding e by (auto simp: word_less_def)
qed

lemma SplitWork_work_ok:
  assumes "0 \<le> numCPU" and "numCPU + \<bar>routines\<bar> < 2 ^ 63" and "k_workSize W < 2 ^ 63"
    and "k_routines W = nat (SplitWork_routines numCPU routines (k_workSize W))"
  shows "work_ok W"
proof -
  note b = SplitWork_routines_bounds [OF assms(1-3)]
  have u: "unat (k_workSize W) < 2 ^ 63" using assms(3) by (simp add: word_less_nat_alt)
  have "k_routines W \<le> unat (k_workSize W)" unfolding assms(4) unat_eq_nat_uint by (rule nat_mono [OF b(2)])
  then have "unat (k_workSize W) + k_routines W < 2 ^ 64" using u by simp
  moreover have "0 < k_workSize W \<Longrightarrow> 0 < k_routines W" using b(3) unfolding assms(4) by simp
  ultimately show ?thesis by (simp add: work_ok_def)
qed

section \<open>Results\<close>

lemma all_taken:
  assumes "split_inv W s" and "work_ok W" and "p_caller s = Result True" and "k_hasErrorFunc W \<or> (\<forall>i r. k_do W i r = None)"
  shows "fst ` set (p_log s) = {i. i < k_workSize W}"
proof (cases "k_workSize W = 0")
  case True
  moreover have "index_inv W s" using assms(1) by (simp add: split_inv_def)
  ultimately have "i \<notin> fst ` set (p_log s)" for i using index_invD(1) [of W s i] by simp
  then have "fst ` set (p_log s) = {}" by (metis equals0I)
  then show ?thesis using True by simp
next
  case False
  have inv: "begun_inv W s" "index_inv W s" "end_inv W s" using assms(1) by (simp_all add: split_inv_def)
  have e: "all_ended W s" "\<not> work_failed W s" using inv(3) assms(3) unfolding end_inv_iff by blast+
  have n: "0 < k_routines W" using False assms(2) by (simp add: work_ok_def word_greater_zero_iff)
  then have "k_init W 0 = None" using e(2) assms(3) by (auto simp: work_failed_def begun_def)
  then have "p_routine s 0 \<noteq> NotStarted" using inv(1) n assms(3) by (simp add: begun_inv_def begun_def)
  then have "p_routine s 0 = Returned" using all_ended_idle [OF inv(1) e(1), of 0] by simp
  then have "goroutine_result W s 0" using inv(3) by (simp add: end_inv_iff)
  then have "k_workSize W < p_counter s" using e(2) assms(4) by (auto simp: goroutine_result_def work_failed_def)
  moreover have idle: "\<not> held s i" for i unfolding held_def
  proof
    assume "\<exists>r. p_routine s r = Doing i"
    then obtain r where "p_routine s r = Doing i" ..
    then show False using all_ended_idle [OF inv(1) e(1), of r] by simp
  qed
  ultimately have "i \<in> fst ` set (p_log s) \<longleftrightarrow> i < k_workSize W" for i using index_invD(1) [OF inv(2), of i] by (metis less_trans)
  then show ?thesis by (simp add: set_eq_iff del: image_iff)
qed

text \<open>C34: Whatever the interleaving of the goroutines, no work index is handed out twice or out of range, and the value SplitWork returns is true
exactly if every init call succeeded and, when an error function is given, no call of do that was made failed.  If it returns true and an error
function is given (or do cannot fail), every index below workSize has been worked on exactly once.\<close>

theorem SplitWork_result:
  assumes "0 \<le> numCPU" and "numCPU + \<bar>routines\<bar> < 2 ^ 63" and "k_workSize W < 2 ^ 63"
    and "k_routines W = nat (SplitWork_routines numCPU routines (k_workSize W))"
    and "split_reachable W s" and "p_caller s = Result b"
  shows "distinct (map fst (p_log s)) \<and> (\<forall>i \<in> fst ` set (p_log s). i < k_workSize W) \<and>
    (b \<longleftrightarrow> (\<forall>r < k_routines W. k_init W r = None) \<and> (k_hasErrorFunc W \<longrightarrow> (\<forall>(i, r) \<in> set (p_log s). k_do W i r = None))) \<and>
    (b \<and> (k_hasErrorFunc W \<or> (\<forall>i r. k_do W i r = None)) \<longrightarrow> fst ` set (p_log s) = {i. i < k_workSize W})"
proof -
  have ok: "work_ok W" by (rule SplitWork_work_ok [OF assms(1-4)])
  note inv = split_inv_reachable [OF ok assms(5)]
  have "b = (\<not> work_failed W s)" using inv assms(6) by (simp add: split_inv_def end_inv_iff)
  then have "b \<longleftrightarrow> (\<forall>r < k_routines W. k_init W r = None) \<and> (k_hasErrorFunc W \<longrightarrow> (\<forall>(i, r) \<in> set (p_log s). k_do W i r = None))"
    using assms(6) by (auto simp: work_failed_def begun_def)
  moreover have "distinct (map fst (p_log s))" "\<forall>i \<in> fst ` set (p_log s). i < k_workSize W"
    using index_invD(1,4) [of W s] inv by (auto simp: split_inv_def)
  moreover have "b \<and> (k_hasErrorFunc W \<or> (\<forall>i r. k_do W i r = None)) \<longrightarrow> fst ` set (p_log s) = {i. i < k_workSize W}"
    using all_taken [OF inv ok] assms(6) by simp
  ultimately show ?thesis by blast
qed

text \<open>A run with one index and one goroutine.\<close>

definition example_work :: work where
  "example_work = \<lparr>k_routines = 1, k_workSize = 1, k_do = (\<lambda>_ _. None), k_init = (\<lambda>_. None), k_hasErrorFunc = True\<rparr>"

definition example_state :: "caller \<Rightarrow> goroutine \<Rightarrow> u64 \<Rightarrow> (u64 \<times> nat) list \<Rightarrow> pool" where
  "example_state c g k l = \<lparr>p_caller = c, p_routine = (\<lambda>_. NotStarted)(0 := g), p_counter = k, p_failed = False, p_log = l\<rparr>"

lemmas example_defs = example_work_def example_state_def

lemma example_run:
  "start_pool = example_state (Starting 0) NotStarted 0 []"
  "split_step example_work (example_state (Starting 0) NotStarted 0 []) (example_state (Starting 1) Running 0 [])"
  "split_step example_work (example_state (Starting 1) Running 0 []) (example_state Waiting Running 0 [])"
  "split_step example_work (example_state Waiting Running 0 []) (example_state Waiting (Doing 0) 1 [])"
  "split_step example_work (example_state Waiting (Doing 0) 1 []) (example_state Waiting Running 1 [(0, 0)])"
  "split_step example_work (example_state Waiting Running 1 [(0, 0)]) (example_state Waiting Returned 2 [(0, 0)])"
  "split_step example_work (example_state Waiting Returned 2 [(0, 0)]) (example_state (Result True) Returned 2 [(0, 0)])"
  using split_step.start [of "example_state (Starting 0) NotStarted 0 []" 0 example_work]
    split_step.started [of "example_state (Starting 1) Running 0 []" example_work]
    split_step.take_index [of "example_state Waiting Running 0 []" 0 example_work]
    split_step.do_ok [of "example_state Waiting (Doing 0) 1 []" 0 0 example_work]
    split_step.no_more [of "example_state Waiting Running 1 [(0, 0)]" 0 example_work]
    split_step.wait [of "example_state Waiting Returned 2 [(0, 0)]" example_work]
  by (simp_all add: example_defs start_pool_def fun_eq_iff)

lemma example_reachable: "split_reachable example_work (example_state (Result True) Returned 2 [(0, 0)])"
  unfolding split_reachable_def example_run(1)
  by (meson example_run(2-7) converse_rtranclp_into_rtranclp rtranclp.rtrancl_refl)

theorem SplitWork_result_witness:
  "p_caller (example_state (Result True) Returned 2 [(0, 0)]) = Result True \<and>
   fst ` set (p_log (example_state (Result True) Returned 2 [(0, 0)])) = {i. i < k_workSize example_work}"
proof -
  have n: "k_routines example_work = nat (SplitWork_routines 4 0 (k_workSize example_work))" by (simp add: SplitWork_routines_def example_work_def)
  have r: "p_caller (example_state (Result True) Returned 2 [(0, 0)]) = Result True" by (simp add: example_state_def)
  have h: "k_hasErrorFunc example_work" by (simp add: example_work_def)
  have w: "k_workSize example_work < 2 ^ 63" by (simp add: example_work_def)
  show ?thesis using SplitWork_result [OF _ _ w n example_reachable r] r h by simp
qed

section \<open>Termination\<close>

definition doing :: "work \<Rightarrow> pool \<Rightarrow> nat set" where
  "doing W s = {r. r < k_routines W \<and> (\<exists>i. p_routine s r = Doing i)}"

definition caller_weight :: "caller \<Rightarrow> nat" where
  "caller_weight c = (case c of Starting _ \<Rightarrow> 2 | Waiting \<Rightarrow> 1 | Result _ \<Rightarrow> 0)"

definition split_measure :: "work \<Rightarrow> pool \<Rightarrow> nat" where
  "split_measure W s = (k_routines W - begun W s) + 2 * (unat (k_workSize W) + k_routines W - unat (p_counter s)) +
    card (doing W s) + caller_weight (p_caller s)"

lemma doing_insert: "r < k_routines W \<Longrightarrow> p_routine s' = (p_routine s)(r := Doing i) \<Longrightarrow> card (doing W s') \<le> card (doing W s) + 1"
proof -
  assume a: "r < k_routines W" "p_routine s' = (p_routine s)(r := Doing i)"
  have "doing W s' \<subseteq> insert r (doing W s)" using a by (auto simp: doing_def)
  then have "card (doing W s') \<le> card (insert r (doing W s))" by (intro card_mono) (auto simp: doing_def)
  also have "\<dots> \<le> card (doing W s) + 1" by (simp add: card_insert_le_m1 doing_def card_insert_if)
  finally show ?thesis .
qed

lemma doing_remove:
  assumes "r < k_routines W" "p_routine s r = Doing i" "p_routine s' = (p_routine s)(r := x)" "\<And>j. x \<noteq> Doing j"
  shows "card (doing W s') < card (doing W s)"
proof -
  have "doing W s' = doing W s - {r}" using assms by (auto simp: doing_def)
  moreover have "r \<in> doing W s" using assms by (simp add: doing_def)
  moreover have "finite (doing W s)" by (simp add: doing_def)
  ultimately show ?thesis by (metis card_Diff1_less)
qed

lemma doing_same: "(\<And>r i. p_routine s' r = Doing i \<longleftrightarrow> p_routine s r = Doing i) \<Longrightarrow> doing W s' = doing W s"
  by (simp add: doing_def)

lemma split_measure_step:
  assumes "split_step W s s'" and "work_ok W" and "split_inv W s"
  shows "split_measure W s' < split_measure W s"
  using assms
proof (induction rule: split_step.induct)
  case (start s i)
  then have "p_routine s i = NotStarted" by (simp add: split_inv_def begun_inv_def begun_def)
  then have "doing W (s\<lparr>p_caller := Starting (i + 1), p_routine := (p_routine s)(i := Running)\<rparr>) = doing W s" by (intro doing_same) auto
  then show ?case using start(1,2) by (simp add: split_measure_def begun_def caller_weight_def)
next
  case (init_error s i)
  have "doing W (s\<lparr>p_caller := Starting (i + 1), p_failed := True\<rparr>) = doing W s" by (intro doing_same) auto
  then show ?case using init_error(1,2) by (simp add: split_measure_def begun_def caller_weight_def)
next
  case (started s)
  have "doing W (s\<lparr>p_caller := Waiting\<rparr>) = doing W s" by (intro doing_same) auto
  then show ?case using started(1) by (simp add: split_measure_def begun_def caller_weight_def)
next
  case (take_index s r)
  have inv: "begun_inv W s" "counter_inv W s" using take_index(4) by (simp_all add: split_inv_def)
  note n = counter_next [OF take_index(3) inv take_index(1)]
  have "r < k_routines W" using active_below [OF inv(1)] take_index(1) by simp
  then have "card (doing W (s\<lparr>p_counter := p_counter s + 1, p_routine := (p_routine s)(r := Doing (p_counter s))\<rparr>)) \<le> card (doing W s) + 1"
    by (rule doing_insert) simp
  then show ?case using n by (simp add: split_measure_def begun_caller)
next
  case (no_more s r)
  have inv: "begun_inv W s" "counter_inv W s" using no_more(4) by (simp_all add: split_inv_def)
  note n = counter_next [OF no_more(3) inv no_more(1)]
  have "doing W (s\<lparr>p_counter := p_counter s + 1, p_routine := (p_routine s)(r := Returned)\<rparr>) = doing W s" using no_more(1) by (intro doing_same) auto
  then show ?case using n by (simp add: split_measure_def begun_caller)
next
  case (do_ok s r i)
  have "r < k_routines W" using active_below [of W s r] do_ok(1,4) by (simp add: split_inv_def)
  then have "card (doing W (s\<lparr>p_routine := (p_routine s)(r := Running), p_log := p_log s @ [(i, r)]\<rparr>)) < card (doing W s)"
    by (rule doing_remove [OF _ do_ok(1), where x = Running]) simp_all
  then show ?case by (simp add: split_measure_def begun_caller)
next
  case (do_error s r i)
  have "r < k_routines W" using active_below [of W s r] do_error(1,4) by (simp add: split_inv_def)
  then have "card (doing W (s\<lparr>p_routine := (p_routine s)(r := Returned), p_log := p_log s @ [(i, r)], p_failed := p_failed s \<or> k_hasErrorFunc W\<rparr>)) < card (doing W s)"
    by (rule doing_remove [OF _ do_error(1), where x = Returned]) simp_all
  then show ?case by (simp add: split_measure_def begun_caller)
next
  case (wait s)
  have "doing W (s\<lparr>p_caller := Result (\<not> p_failed s)\<rparr>) = doing W s" by (intro doing_same) auto
  then show ?case using wait(1) by (simp add: split_measure_def begun_def caller_weight_def)
qed

lemma split_progress: "split_inv W s \<Longrightarrow> (\<exists>b. p_caller s = Result b) \<or> (\<exists>s'. split_step W s s')"
proof (cases "p_caller s")
  case (Starting i)
  assume "split_inv W s"
  then consider "i < k_routines W" | "i = k_routines W" using Starting by (fastforce simp: split_inv_def begun_inv_def begun_def)
  then show ?thesis using Starting split_step.start [of s i W] split_step.init_error [of s i W] split_step.started [of s W] by cases blast+
next
  case Waiting
  show ?thesis
  proof (cases "\<forall>r < k_routines W. p_routine s r \<in> {NotStarted, Returned}")
    case True
    then show ?thesis using split_step.wait [OF Waiting] by blast
  next
    case False
    then obtain r where "p_routine s r = Running \<or> (\<exists>i. p_routine s r = Doing i)" by (metis goroutine.exhaust insertCI)
    then show ?thesis by (metis split_step.intros(4-7))
  qed
qed simp

lemma split_run_measure: "work_ok W \<Longrightarrow> (split_step W ^^ k) start_pool s \<Longrightarrow> split_inv W s \<and> k + split_measure W s \<le> split_measure W start_pool"
proof (induction k arbitrary: s)
  case 0
  then show ?case by (simp add: split_inv_start)
next
  case (Suc k)
  then obtain t where t: "(split_step W ^^ k) start_pool t" "split_step W t s" by auto
  then show ?case using Suc.IH [OF Suc.prems(1) t(1)] split_inv_step [OF t(2) Suc.prems(1)] split_measure_step [OF t(2) Suc.prems(1)] by fastforce
qed

text \<open>C35: SplitWork always returns: no run of its goroutines, however they interleave, has more than 2 * workSize + 3 * routines + 2 steps, and as
long as the caller has no result some goroutine can take a step (none waits for ever).\<close>

theorem SplitWork_terminates:
  assumes "0 \<le> numCPU" and "numCPU + \<bar>routines\<bar> < 2 ^ 63" and "k_workSize W < 2 ^ 63"
    and "k_routines W = nat (SplitWork_routines numCPU routines (k_workSize W))"
    and "(split_step W ^^ k) start_pool s"
  shows "k \<le> 2 * unat (k_workSize W) + 3 * k_routines W + 2 \<and> ((\<exists>b. p_caller s = Result b) \<or> (\<exists>s'. split_step W s s'))"
proof -
  have ok: "work_ok W" by (rule SplitWork_work_ok [OF assms(1-4)])
  have m: "split_measure W start_pool = 2 * unat (k_workSize W) + 3 * k_routines W + 2"
    by (simp add: split_measure_def begun_def start_pool_def doing_def caller_weight_def)
  have r: "split_inv W s" "k + split_measure W s \<le> 2 * unat (k_workSize W) + 3 * k_routines W + 2"
    using split_run_measure [OF ok assms(5)] unfolding m by simp_all
  show ?thesis using r(2) split_progress [OF r(1)] by simp
qed

theorem SplitWork_terminates_witness:
  "(split_step example_work ^^ 1) start_pool (example_state (Starting 1) Running 0 []) \<and> (\<exists>s'. split_step example_work (example_state (Starting 1) Running 0 []) s')"
proof -
  have n: "k_routines example_work = nat (SplitWork_routines 4 0 (k_workSize example_work))" by (simp add: SplitWork_routines_def example_work_def)
  have w: "k_workSize example_work < 2 ^ 63" by (simp add: example_work_def)
  have r: "(split_step example_work ^^ 1) start_pool (example_state (Starting 1) Running 0 [])" using example_run(2) unfolding example_run(1) by (simp add: eq_OO)
  have c: "p_caller (example_state (Starting 1) Running 0 []) = Starting 1" by (simp add: example_state_def)
  have "(\<exists>b. p_caller (example_state (Starting 1) Running 0 []) = Result b) \<or> (\<exists>s'. split_step example_work (example_state (Starting 1) Running 0 []) s')"
    using SplitWork_terminates [OF _ _ w n r] by simp
  then show ?thesis using r c by simp
qed

end
