(* ===== verification/Mempool.thy ===== *)
theory Mempool
  imports Shares
begin

text \<open>
  p2pool/mempool/mempool.go: entries of the transaction pool, their order by fee per byte, the choice of transactions for a
  template, the search for transactions with a given total fee, and the weight of a transaction from the daemon's data.
\<close>

record MempoolEntry =
  q_Id :: hash
  q_BlobSize :: u64
  q_Weight :: u64
  q_Fee :: u64

definition Mempool_Compare :: "MempoolEntry \<Rightarrow> MempoolEntry \<Rightarrow> int" where
  "Mempool_Compare t w =
    (let a = q_Fee t * q_Weight w; b = q_Fee w * q_Weight t in
     if a > b then - 1
     else if a < b then 1
     else if q_Weight t < q_Weight w then - 1
     else if q_Weight t > q_Weight w then 1
     else Compare (q_Id t) (q_Id w))"

definition WeightAndFees :: "MempoolEntry list \<Rightarrow> u64 \<times> u64" where
  "WeightAndFees m = foldl (\<lambda>(weight, fees) e. (weight + q_Weight e, fees + q_Fee e)) (0, 0) m"

definition Fees :: "MempoolEntry list \<Rightarrow> u64" where
  "Fees m = foldl (\<lambda>r e. r + q_Fee e) 0 m"

definition Weight :: "MempoolEntry list \<Rightarrow> u64" where
  "Weight m = foldl (\<lambda>r e. r + q_Weight e) 0 m"

definition Mempool_GetBlockReward :: "uint128_pkg \<Rightarrow> u64 \<Rightarrow> u64 \<Rightarrow> u64 \<Rightarrow> u64 \<Rightarrow> u64 result" where
  "Mempool_GetBlockReward U baseReward medianWeight fees weight =
    (if weight \<le> medianWeight then Inr (baseReward + fees)
     else if weight > medianWeight * 2 then Inr 0
     else bindR (u_Mul64 U (DifficultyFrom64 baseReward) (medianWeight * 2 - weight)) (\<lambda>product.
          bindR (u_Div64 U product medianWeight) (\<lambda>q.
          bindR (u_Div64 U q medianWeight) (\<lambda>reward. Inr (Lo reward + fees)))))"

section \<open>Picking transactions\<close>

record picked =
  c_reward :: u64
  c_fees :: u64
  c_weight :: u64
  c_txs :: "MempoolEntry list"

text \<open>The replacement candidates, from the last one picked, at most 100 deep; the result is the best reward and the index to replace.\<close>

fun replaceLoop :: "uint128_pkg \<Rightarrow> u64 \<Rightarrow> u64 \<Rightarrow> picked \<Rightarrow> nat list \<Rightarrow> u64 \<times> int \<Rightarrow> (u64 \<times> int) result" where
  "replaceLoop U baseReward medianWeight c [] best = Inr best"
| "replaceLoop U baseReward medianWeight c (j # js) (finalReward, k) =
    bindR (nth_go (c_txs c) j) (\<lambda>prevTx.
    bindR (Mempool_GetBlockReward U baseReward medianWeight (c_fees c + q_Fee prevTx) (c_weight c + q_Weight prevTx)) (\<lambda>reward2.
      replaceLoop U baseReward medianWeight c js (if reward2 > finalReward then (reward2, int j) else (finalReward, k))))"

definition pickStep :: "uint128_pkg \<Rightarrow> u64 \<Rightarrow> u64 \<Rightarrow> nat \<Rightarrow> MempoolEntry \<Rightarrow> picked \<Rightarrow> picked result" where
  "pickStep U baseReward medianWeight i tx c =
    bindR (Mempool_GetBlockReward U baseReward medianWeight (c_fees c + q_Fee tx) (c_weight c + q_Weight tx)) (\<lambda>reward.
    let best = (if reward > c_reward c then (reward, 1) else (c_reward c, - 1)); n = length (c_txs c) in
    bindR (if c_weight c + q_Weight tx > medianWeight then replaceLoop U baseReward medianWeight c (rev [n - 100 ..< n]) best else Inr best) (\<lambda>(finalReward, k).
    if k = int i then
      Inr \<lparr>c_reward = finalReward, c_fees = c_fees c + q_Fee tx, c_weight = c_weight c + q_Weight tx, c_txs = c_txs c @ [tx]\<rparr>
    else if k \<ge> 0 then
      bindR (nth_go (c_txs c) (nat k)) (\<lambda>prevTx.
      Inr \<lparr>c_reward = finalReward, c_fees = c_fees c + (q_Fee tx - q_Fee prevTx), c_weight = c_weight c + (q_Weight tx - q_Weight prevTx),
           c_txs = (c_txs c)[nat k := tx]\<rparr>)
    else Inr (c\<lparr>c_reward := finalReward\<rparr>)))"

fun pickLoop :: "uint128_pkg \<Rightarrow> u64 \<Rightarrow> u64 \<Rightarrow> nat \<Rightarrow> MempoolEntry list \<Rightarrow> picked \<Rightarrow> picked result" where
  "pickLoop U baseReward medianWeight i [] c = Inr c"
| "pickLoop U baseReward medianWeight i (tx # txs) c = bindR (pickStep U baseReward medianWeight i tx c) (pickLoop U baseReward medianWeight (i + 1) txs)"

definition Pick :: "uint128_pkg \<Rightarrow> (MempoolEntry list \<Rightarrow> MempoolEntry list) \<Rightarrow> u64 \<Rightarrow> u64 \<Rightarrow> u64 \<Rightarrow> MempoolEntry list \<Rightarrow> MempoolEntry list result" where
  "Pick U srt baseReward minerTxWeight medianWeight m =
    bindR (pickLoop U baseReward medianWeight 0 (srt m) \<lparr>c_reward = baseReward, c_fees = 0, c_weight = minerTxWeight, c_txs = []\<rparr>) (\<lambda>c. Inr (c_txs c))"

section \<open>Transactions with a given total fee\<close>

text \<open>What is sent on the channel, in order; the list argument is the part of the mempool from index \<^verbatim>\<open>i\<close> on.\<close>

fun perfectSumRecursion :: "u64 \<Rightarrow> MempoolEntry list \<Rightarrow> u64 \<Rightarrow> MempoolEntry list \<Rightarrow> MempoolEntry list list" where
  "perfectSumRecursion targetFee [] currentSum m2 = (if currentSum = targetFee then [m2] else [])"
| "perfectSumRecursion targetFee (x # xs) currentSum m2 =
    (if currentSum = targetFee then [m2]
     else if currentSum < targetFee then
       perfectSumRecursion targetFee xs (currentSum + q_Fee x) (m2 @ [x]) @ perfectSumRecursion targetFee xs currentSum m2
     else [])"

definition PerfectSum :: "u64 \<Rightarrow> MempoolEntry list \<Rightarrow> MempoolEntry list list" where
  "PerfectSum targetFee m = perfectSumRecursion targetFee m 0 []"

section \<open>Weight from the daemon's data\<close>

text \<open>The parts of the daemon's description of a transaction that are read: the signature type, the number of output keys, the length of
  \<^verbatim>\<open>L\<close> of each proof and the fee.\<close>

record TransactionJSON =
  j_Type :: int
  j_Outpk :: nat
  j_Bp :: "nat list"
  j_Bpp :: "nat list"
  j_Txnfee :: u64

definition isRctBulletproof :: "int \<Rightarrow> bool" where
  "isRctBulletproof t \<longleftrightarrow> t \<in> {3, 4, 5}"

definition isRctBulletproofPlus :: "int \<Rightarrow> bool" where
  "isRctBulletproofPlus t \<longleftrightarrow> t = 6"

text \<open>A shift by a negative count panics, one by 64 or more gives zero.\<close>

fun paddedLoop :: "nat list \<Rightarrow> u64 \<Rightarrow> u64 result" where
  "paddedLoop [] paddedOutputs = Inr paddedOutputs"
| "paddedLoop (l # ls) paddedOutputs =
    (let LSize = l div 2 in
     if LSize < 6 then Inl (Panic ''negative shift amount'')
     else let n2 = push_bit (LSize - 6) (1 :: u64) in
          if n2 = 0 then Inr 0 else paddedLoop ls (paddedOutputs + n2))"

text \<open>The search for the exponent does not end above \<open>2^63\<close>.\<close>

partial_function (option) nlrLoop :: "u64 \<Rightarrow> nat \<Rightarrow> nat option" where
  "nlrLoop paddedOutputs nlr = (if push_bit nlr (1 :: u64) < paddedOutputs then nlrLoop paddedOutputs (nlr + 1) else Some nlr)"

definition bpClawback :: "u64 \<Rightarrow> nat \<Rightarrow> u64 \<Rightarrow> u64 option" where
  "bpClawback keys outpk paddedOutputs =
    (let bpBase = (32 * keys + 7 * 2) div 2 in
     if outpk \<le> 2 then Some 0
     else map_option (\<lambda>nlr. (bpBase * paddedOutputs - (32 * keys + 2 * of_nat (nlr + 6))) * 4 div 5) (nlrLoop paddedOutputs 0))"

definition NewEntryFromRPCData :: "hash \<Rightarrow> byte list \<Rightarrow> TransactionJSON \<Rightarrow> MempoolEntry result option" where
  "NewEntryFromRPCData i buf json =
    (let size = of_nat (length buf) :: u64;
         entry = (\<lambda>weight. \<lparr>q_Id = i, q_BlobSize = size, q_Weight = weight, q_Fee = j_Txnfee json\<rparr>);
         clawed = (\<lambda>keys proofs. case paddedLoop proofs 0 of
             Inl e \<Rightarrow> Some (Inl e)
           | Inr padded \<Rightarrow> map_option (\<lambda>c. Inr (entry (size + c))) (bpClawback keys (j_Outpk json) padded))
     in if \<not> isRctBulletproof (j_Type json) \<and> \<not> isRctBulletproofPlus (j_Type json) then Some (Inr (entry size))
        else if isRctBulletproofPlus (j_Type json) then clawed 6 (j_Bpp json)
        else clawed 9 (j_Bp json))"

section \<open>Rewards\<close>

lemma Mempool_GetBlockReward_ok:
  assumes "uint128_ok U"
  shows "\<exists>r. Mempool_GetBlockReward U base median fees weight = Inr r \<and> (weight \<le> median \<longrightarrow> r = base + fees)"
proof (cases "weight \<le> median \<or> weight > median * 2")
  case True
  then show ?thesis by (auto simp: Mempool_GetBlockReward_def)
next
  case False
  then have m: "median \<noteq> 0" by (auto simp: word_greater_zero_iff)
  have "unat base * unat (median * 2 - weight) < 2 ^ 64 * 2 ^ 64" by (rule mult_strict_mono) (simp_all add: unat_lt_64 [simplified])
  then have "val (DifficultyFrom64 base) * unat (median * 2 - weight) < 2 ^ 128" by (simp add: val_def DifficultyFrom64_def NewDifficulty_def)
  then show ?thesis using False m by (auto simp: Mempool_GetBlockReward_def uint128_okD [OF assms])
qed

text \<open>An entry that improves the reward on its own is remembered as number 1, not as its own index.\<close>

lemma pickStep_first:
  assumes "uint128_ok U" and "c_txs c = []" and "c_weight c + q_Weight tx \<le> median" and "c_reward c < base + (c_fees c + q_Fee tx)"
  shows "pickStep U base median 0 tx c = Inl (Panic ''index out of range'')"
proof -
  obtain r where "Mempool_GetBlockReward U base median (c_fees c + q_Fee tx) (c_weight c + q_Weight tx) = Inr r" "r = base + (c_fees c + q_Fee tx)"
    using Mempool_GetBlockReward_ok [OF assms(1)] assms(3) by blast
  then show ?thesis using assms(2,3,4) by (simp add: pickStep_def nth_go_def Let_def not_less)
qed

text \<open>C30: Choice of transactions, an error of the code.  If every transaction of a non-empty mempool fits below the median weight and pays
a fee, Pick panics on the first one: the index it remembers for it is the constant 1, where the list it then replaces in is empty.\<close>

theorem Pick_panics:
  assumes "uint128_ok U" and "mset (srt m) = mset m" and "m \<noteq> []"
    and "\<And>e. e \<in> set m \<Longrightarrow> minerTxWeight + q_Weight e \<le> medianWeight \<and> baseReward < baseReward + q_Fee e"
  shows "Pick U srt baseReward minerTxWeight medianWeight m = Inl (Panic ''index out of range'')"
proof -
  obtain tx txs where s: "srt m = tx # txs" using assms(2,3) by (cases "srt m") auto
  then have "tx \<in> set m" using assms(2) by (metis list.set_intros(1) mset_eq_setD)
  then have "pickStep U baseReward medianWeight 0 tx \<lparr>c_reward = baseReward, c_fees = 0, c_weight = minerTxWeight, c_txs = []\<rparr> = Inl (Panic ''index out of range'')"
    using assms(4) by (intro pickStep_first [OF assms(1)]) simp_all
  then show ?thesis by (simp add: Pick_def s)
qed

theorem Pick_panics_witness:
  "Pick uint128_ref id 1000 80 300 [\<lparr>q_Id = 1, q_BlobSize = 2, q_Weight = 2, q_Fee = 7\<rparr>] = Inl (Panic ''index out of range'')"
  by (rule Pick_panics [OF uint128_ref_ok]) simp_all

section \<open>Order\<close>

definition products_fit :: "MempoolEntry set \<Rightarrow> bool" where
  "products_fit S \<longleftrightarrow> (\<forall>a \<in> S. \<forall>b \<in> S. 0 < unat (q_Weight b) \<and> unat (q_Fee a) * unat (q_Weight b) < 2 ^ 64)"

lemma unat_product: "products_fit S \<Longrightarrow> a \<in> S \<Longrightarrow> b \<in> S \<Longrightarrow> unat (q_Fee a * q_Weight b) = unat (q_Fee a) * unat (q_Weight b)"
  by (simp add: products_fit_def unat_word_ariths)

lemma Mempool_Compare_le:
  assumes "products_fit S" and "a \<in> S" and "b \<in> S"
  shows "Mempool_Compare a b \<le> 0 \<longleftrightarrow>
    (unat (q_Fee b) * unat (q_Weight a), unat (q_Weight a), unat (q_Id a)) = (unat (q_Fee a) * unat (q_Weight b), unat (q_Weight b), unat (q_Id b)) \<or>
    unat (q_Fee b) * unat (q_Weight a) < unat (q_Fee a) * unat (q_Weight b) \<or>
    unat (q_Fee b) * unat (q_Weight a) = unat (q_Fee a) * unat (q_Weight b) \<and>
      (unat (q_Weight a) < unat (q_Weight b) \<or> unat (q_Weight a) = unat (q_Weight b) \<and> unat (q_Id a) < unat (q_Id b))"
  by (auto simp: Mempool_Compare_def Let_def Compare_spec word_less_nat_alt word_unat_eq_iff unat_product [OF assms] unat_product [OF assms(1,3,2)])

lemma ratio_trans:
  assumes "fb * wa \<le> fa * wb" and "fc * wb \<le> fb * wc" and "0 < (wb :: nat)"
  shows "fc * wa \<le> fa * wc"
proof -
  have "wb * (fc * wa) \<le> fb * wc * wa" using mult_le_mono1 [OF assms(2), of wa] by (simp add: ac_simps)
  also have "\<dots> \<le> wb * (fa * wc)" using mult_le_mono1 [OF assms(1), of wc] by (simp add: ac_simps)
  finally show ?thesis using assms(3) by simp
qed

lemma ratio_eq_trans:
  assumes "fb * wa \<le> fa * wb" and "fc * wb \<le> fb * wc" and "0 < (wb :: nat)" and "0 < wa" and "0 < wc" and "fc * wa = fa * wc"
  shows "fb * wa = fa * wb" and "fc * wb = fb * wc"
proof -
  have "fa * wb \<le> fb * wa" by (rule ratio_trans [of fc wb fb wc fa wa, OF assms(2) _ assms(5)]) (simp add: assms(6))
  then show 1: "fb * wa = fa * wb" using assms(1) by simp
  have "fb * wc \<le> fc * wb" by (rule ratio_trans [of fa wc fc wa fb wb, OF _ assms(1) assms(4)]) (simp add: assms(6))
  then show "fc * wb = fb * wc" using assms(2) by simp
qed

text \<open>As long as no product wraps, the comparison is a total order by fee per weight, weight and id.\<close>

lemma Mempool_Compare_trans:
  assumes "products_fit S" and "a \<in> S" "b \<in> S" "c \<in> S" and "Mempool_Compare a b \<le> 0" and "Mempool_Compare b c \<le> 0"
  shows "Mempool_Compare a c \<le> 0"
proof -
  let ?f = "\<lambda>e. unat (q_Fee e)" and ?w = "\<lambda>e. unat (q_Weight e)"
  note le = Mempool_Compare_le [OF assms(1)]
  have pos: "0 < ?w a" "0 < ?w b" "0 < ?w c" using assms(1-4) by (auto simp: products_fit_def)
  have ab: "?f b * ?w a \<le> ?f a * ?w b" and bc: "?f c * ?w b \<le> ?f b * ?w c"
    using assms(5,6) by (auto simp: le assms(2,3,4))
  note ac = ratio_trans [OF ab bc pos(2)]
  show ?thesis
  proof (cases "?f c * ?w a = ?f a * ?w c")
    case True
    note e = ratio_eq_trans [OF ab bc pos(2,1,3) True]
    show ?thesis using assms(5,6) e True by (auto simp: le assms(2,3,4))
  next
    case False
    then show ?thesis using ac by (simp add: le assms(2,4))
  qed
qed

lemma Mempool_Compare_antisym: "products_fit S \<Longrightarrow> a \<in> S \<Longrightarrow> b \<in> S \<Longrightarrow> Mempool_Compare b a = - Mempool_Compare a b"
  by (auto simp: Mempool_Compare_def Let_def Compare_spec)

lemma Mempool_Compare_zero:
  assumes "products_fit S" and "a \<in> S" and "b \<in> S" and "Mempool_Compare a b = 0"
  shows "q_Fee a = q_Fee b \<and> q_Weight a = q_Weight b \<and> q_Id a = q_Id b"
proof -
  have e: "q_Fee a * q_Weight b = q_Fee b * q_Weight a" "q_Weight a = q_Weight b" "q_Id a = q_Id b"
    using assms(4) by (auto simp: Mempool_Compare_def Let_def Compare_spec split: if_splits)
  have "unat (q_Fee a) * unat (q_Weight b) = unat (q_Fee b) * unat (q_Weight b)"
    using unat_product [OF assms(1-3)] unat_product [OF assms(1,3,2)] e(1,2) by simp
  moreover have "0 < unat (q_Weight b)" using assms(1,3) by (auto simp: products_fit_def)
  ultimately show ?thesis using e(2,3) by (simp add: word_unat_eq_iff)
qed

section \<open>Perfect sums\<close>

definition fee_sum :: "MempoolEntry list \<Rightarrow> nat" where
  "fee_sum s = sum_list (map (\<lambda>e. unat (q_Fee e)) s)"

lemma fee_sum_simps [simp]: "fee_sum [] = 0" "fee_sum (x # xs) = unat (q_Fee x) + fee_sum xs"
  by (simp_all add: fee_sum_def)

definition ends_paying :: "MempoolEntry list \<Rightarrow> bool" where
  "ends_paying s \<longleftrightarrow> s = [] \<or> q_Fee (last s) \<noteq> 0"

lemma fee_sum_zero: "fee_sum s = 0 \<and> ends_paying s \<longleftrightarrow> s = []"
proof
  assume a: "fee_sum s = 0 \<and> ends_paying s"
  show "s = []"
  proof (rule ccontr)
    assume "s \<noteq> []"
    then have "unat (q_Fee (last s)) \<in> set (map (\<lambda>e. unat (q_Fee e)) s)" by (simp add: rev_image_eqI)
    then have "unat (q_Fee (last s)) = 0" using a by (auto simp: fee_sum_def)
    then show False using a \<open>s \<noteq> []\<close> by (simp add: ends_paying_def word_unat_eq_iff)
  qed
qed (simp add: ends_paying_def)

lemma filter_empty_subseqs: "filter (\<lambda>s. s = []) (subseqs xs) = [[]]"
  by (induction xs) (simp_all add: Let_def comp_def)

lemma ends_paying_Cons: "q_Fee x \<noteq> 0 \<or> s \<noteq> [] \<Longrightarrow> ends_paying (x # s) \<longleftrightarrow> ends_paying s"
  by (auto simp: ends_paying_def)

lemma perfectSumRecursion_eq:
  assumes "unat c + fee_sum xs < 2 ^ 64"
  shows "perfectSumRecursion t xs c m2 = map (\<lambda>s. m2 @ s) (filter (\<lambda>s. unat c + fee_sum s = unat t \<and> ends_paying s) (subseqs xs))"
  using assms
proof (induction xs arbitrary: c m2)
  case Nil
  then show ?case by (auto simp: ends_paying_def word_unat_eq_iff)
next
  case (Cons x xs)
  have n: "unat (c + q_Fee x) = unat c + unat (q_Fee x)" using Cons.prems by (simp add: unat_word_ariths)
  consider "c = t" | "c < t" | "t < c" by force
  then show ?case
  proof cases
    case 1
    have "(\<lambda>s. unat c + fee_sum s = unat t \<and> ends_paying s) = (\<lambda>s. s = [])" using fee_sum_zero 1 by (auto simp: fun_eq_iff)
    then show ?thesis using 1 filter_empty_subseqs [of "x # xs"] by simp
  next
    case 2
    have p: "unat c + fee_sum (x # s) = unat t \<and> ends_paying (x # s) \<longleftrightarrow> unat (c + q_Fee x) + fee_sum s = unat t \<and> ends_paying s" for s
    proof (cases "s = [] \<and> q_Fee x = 0")
      case True
      then show ?thesis using 2 by (auto simp: n word_less_nat_alt)
    next
      case False
      then show ?thesis using ends_paying_Cons [of x s] by (auto simp: n)
    qed
    have i: "perfectSumRecursion t xs (c + q_Fee x) (m2 @ [x]) = map (\<lambda>s. (m2 @ [x]) @ s) (filter (\<lambda>s. unat (c + q_Fee x) + fee_sum s = unat t \<and> ends_paying s) (subseqs xs))"
      by (rule Cons.IH) (use Cons.prems n in simp)
    have j: "perfectSumRecursion t xs c m2 = map (\<lambda>s. m2 @ s) (filter (\<lambda>s. unat c + fee_sum s = unat t \<and> ends_paying s) (subseqs xs))"
      by (rule Cons.IH) (use Cons.prems in simp)
    show ?thesis using 2 less_imp_neq [OF 2] by (simp add: i j Let_def filter_map comp_def p del: fee_sum_simps)
  next
    case 3
    then have "filter (\<lambda>s. unat c + fee_sum s = unat t \<and> ends_paying s) (subseqs (x # xs)) = []" by (auto simp: filter_empty_conv word_less_nat_alt)
    then show ?thesis using 3 by (simp add: order_less_not_sym)
  qed
qed

text \<open>Transactions with a given total fee.  As long as the fees of the whole mempool fit in 64 bits, PerfectSum sends, in order and
each once, exactly the sub-sequences of the mempool whose fees add up to the target and that do not end in transactions without a fee.\<close>

lemma PerfectSum_correct:
  assumes "fee_sum m < 2 ^ 64"
  shows "PerfectSum t m = filter (\<lambda>s. fee_sum s = unat t \<and> (s = [] \<or> q_Fee (last s) \<noteq> 0)) (subseqs m)"
  using perfectSumRecursion_eq [of 0 m t "[]"] assms by (simp add: PerfectSum_def ends_paying_def)

section \<open>Weights\<close>

lemma unat_shift_one: "n < 64 \<Longrightarrow> unat (push_bit n (1 :: u64)) = 2 ^ n"
  by (simp add: push_bit_eq_mult unat_exp)

text \<open>The exponent search ends for up to \<open>2^63\<close> outputs, at the least power of two that is not below them.\<close>

lemma nlrLoop_ends:
  assumes "unat p \<le> 2 ^ 63" and "n \<le> 63"
  shows "\<exists>k. nlrLoop p n = Some k \<and> k \<le> 63 \<and> unat p \<le> 2 ^ k \<and> n \<le> k \<and> (\<forall>i. n \<le> i \<and> i < k \<longrightarrow> 2 ^ i < unat p)"
  using assms
proof (induction "63 - n" arbitrary: n)
  case 0
  then have n: "n = 63" by simp
  have "\<not> push_bit 63 1 < p" unfolding word_less_nat_alt by (subst unat_shift_one) (use 0 in simp_all)
  then have "nlrLoop p 63 = Some 63" by (simp add: nlrLoop.simps [of p 63])
  then show ?case using 0 unfolding n by (intro exI [of _ 63]) simp
next
  case (Suc d)
  show ?case
  proof (cases "2 ^ n < unat p")
    case True
    have d: "d = 63 - (n + 1)" and le: "n + 1 \<le> 63" using Suc.hyps(2) by simp_all
    obtain k where k: "nlrLoop p (n + 1) = Some k" "k \<le> 63" "unat p \<le> 2 ^ k" "n + 1 \<le> k" "\<forall>i. n + 1 \<le> i \<and> i < k \<longrightarrow> 2 ^ i < unat p"
      using Suc.hyps(1) [OF d Suc.prems(1) le] by blast
    then have "\<forall>i. n \<le> i \<and> i < k \<longrightarrow> 2 ^ i < unat p" using True by (metis Suc_eq_plus1 Suc_leI le_neq_implies_less)
    then show ?thesis using k True Suc.prems le by (simp add: nlrLoop.simps [of p n] word_less_nat_alt unat_exp)
  next
    case False
    then show ?thesis using Suc.prems by (simp add: nlrLoop.simps [of p n] word_less_nat_alt unat_exp)
  qed
qed

lemma nlrLoop_power: "k \<le> 63 \<Longrightarrow> nlrLoop (push_bit k 1) 0 = Some k"
proof -
  assume k: "k \<le> 63"
  then have u: "unat (push_bit k (1 :: u64)) = 2 ^ k" by (intro unat_shift_one) simp
  have "(2 :: nat) ^ k \<le> 2 ^ 63" using k by (intro power_increasing) simp_all
  then obtain n where n: "nlrLoop (push_bit k 1) 0 = Some n" "2 ^ k \<le> (2 :: nat) ^ n" "\<forall>i < n. (2 :: nat) ^ i < 2 ^ k"
    using nlrLoop_ends [of "push_bit k 1" 0] u by auto
  have "k \<le> n" using n(2) by simp
  moreover have "\<not> k < n" using n(3) by auto
  ultimately show ?thesis using n(1) by simp
qed

lemma claw_ge: "1 \<le> k \<Longrightarrow> 204 + 2 * k \<le> 103 * 2 ^ k"
  by (induction k rule: nat_induct_at_least) simp_all

lemma rule_ge: "2 \<le> k \<Longrightarrow> 374 + 62 * k \<le> 217 * (2 :: nat) ^ k"
  by (induction k rule: nat_induct_at_least) simp_all

lemma claw_below_rule:
  assumes "2 \<le> k"
  shows "(103 * 2 ^ k - (204 + 2 * k)) * 4 div 5 < (320 * 2 ^ k - 32 * (18 + 2 * k)) * 4 div (5 :: nat)"
proof -
  have "103 * 2 ^ k - (204 + 2 * k) + 2 \<le> 320 * 2 ^ k - 32 * (18 + 2 * k)" using claw_ge [of k] rule_ge [OF assms] assms by simp
  then have "((103 * 2 ^ k - (204 + 2 * k)) * 4 + 5) div 5 \<le> (320 * 2 ^ k - 32 * (18 + 2 * k)) * 4 div 5" by (intro div_le_mono) simp
  then show ?thesis by simp
qed

lemma bpClawback_power:
  assumes "2 < outpk" and "1 \<le> k" and "k \<le> 32"
  shows "\<exists>c. bpClawback 6 outpk (push_bit k 1) = Some c \<and> unat c = (103 * 2 ^ k - (204 + 2 * k)) * 4 div 5"
proof -
  define p where "p = (push_bit k 1 :: u64)"
  have p: "unat p = 2 ^ k" unfolding p_def by (rule unat_shift_one) (use assms in simp)
  have k: "(2 :: nat) ^ k \<le> 2 ^ 32" using assms(3) by (intro power_increasing) simp_all
  have n: "nlrLoop p 0 = Some k" unfolding p_def by (rule nlrLoop_power) (use assms in simp)
  have a: "unat (103 * p) = 103 * 2 ^ k" using k p by (simp add: unat_word_ariths)
  have b: "unat (192 + 2 * of_nat (k + 6) :: u64) = 204 + 2 * k" using assms(3) by (simp add: unat_word_ariths unat_of_nat)
  have d: "unat (103 * p - (192 + 2 * of_nat (k + 6))) = 103 * 2 ^ k - (204 + 2 * k)"
    using claw_ge [OF assms(2)] unfolding unat_sub_if' a b by simp
  define w where "w = 103 * p - (192 + 2 * of_nat (k + 6))"
  have "unat (w * 4 div 5) = (103 * 2 ^ k - (204 + 2 * k)) * 4 div 5"
    using d k unfolding w_def [symmetric] by (simp add: unat_div unat_word_ariths)
  then show ?thesis using assms(1) n unfolding w_def bpClawback_def p_def [symmetric] by simp
qed

text \<open>Weight of a transaction with one range proof.  A Bulletproof+ transaction with more than two outputs, padded to \<open>2^k\<close> (k from 1 to 32),
gets without panic and without wrap-around the size plus \<open>(103 * 2^k - (204 + 2 k)) * 4 / 5\<close>.  The rule it implements adds
\<open>(320 * 2^k - 32 * (18 + 2 k)) * 4 / 5\<close>, so from four outputs on the weight is below the one the rule gives.\<close>

lemma NewEntryFromRPCData_weight:
  assumes "j_Type json = 6" and "2 < j_Outpk json" and "j_Bpp json = [l]" and "l div 2 = k + 6" and "1 \<le> k" and "k \<le> 32" and "length buf < 2 ^ 62"
  shows "\<exists>e. NewEntryFromRPCData i buf json = Some (Inr e) \<and> unat (q_Weight e) = length buf + (103 * 2 ^ k - (204 + 2 * k)) * 4 div 5 \<and>
    (2 \<le> k \<longrightarrow> unat (q_Weight e) < length buf + (320 * 2 ^ k - 32 * (18 + 2 * k)) * 4 div 5)"
proof -
  obtain c where c: "bpClawback 6 (j_Outpk json) (push_bit k 1) = Some c" "unat c = (103 * 2 ^ k - (204 + 2 * k)) * 4 div 5"
    using bpClawback_power [OF assms(2,5,6)] by blast
  have "unat (push_bit k (1 :: u64)) = 2 ^ k" by (rule unat_shift_one) (use assms(6) in simp)
  then have "push_bit k (1 :: u64) \<noteq> 0" by (metis power_not_zero unat_0 zero_neq_numeral)
  then have "paddedLoop (j_Bpp json) 0 = Inr (push_bit k 1)" using assms(3,4) by (simp add: Let_def)
  then have e: "NewEntryFromRPCData i buf json = Some (Inr \<lparr>q_Id = i, q_BlobSize = of_nat (length buf), q_Weight = of_nat (length buf) + c, q_Fee = j_Txnfee json\<rparr>)"
    using assms(1) c(1) by (simp add: NewEntryFromRPCData_def Let_def isRctBulletproof_def isRctBulletproofPlus_def)
  have "(2 :: nat) ^ k \<le> 2 ^ 32" using assms(6) by (intro power_increasing) simp_all
  then have "unat c < 2 ^ 62" unfolding c(2) by simp
  then have "unat (of_nat (length buf) + c) = length buf + unat c" using assms(7) by (simp add: unat_word_ariths unat_of_nat)
  then show ?thesis using claw_below_rule [of k] unfolding e c(2) by simp
qed

end
