(* ===== verification/Mainchain.thy ===== *)
theory Mainchain
  imports Chaintip Chainapi Mempool "HOL-Library.AList"
begin

text \<open>
  p2pool/mainchain/mainchain.go: what the node knows of the Monero chain.  Headers are kept by height and by id; miner data from the daemon names the
  next height, its difficulty and the block it builds on, which becomes the tip.

  The code keeps pointers to \<^verbatim>\<open>ChainMain\<close> structs, shares them between the two maps and changes them in place, so the state has a heap of them.
  The maps are association lists.  Calls on the node are kept as a list.  The side chain is a state of its own (\<open>SideChain\<close>), which
  is handed pointers to headers.  The daemon is the parameter \<open>rpc\<close> (and \<open>headersRange\<close>): the header it returns for a height, or an error.
\<close>

record MinerData =
  y_MajorVersion :: byte
  y_Height :: u64
  y_PrevId :: hash
  y_SeedHash :: hash
  y_Difficulty :: Difficulty
  y_MedianWeight :: u64
  y_AlreadyGeneratedCoins :: u64
  y_MedianTimestamp :: u64
  y_TimeReceived :: u64
  y_TxBacklog :: "MempoolEntry list"

datatype nodeCall = UpdateMinerData MinerData | MainBlockFound ChainMain ref | ClearDerivations | UpdateMempoolData "MempoolEntry list"

record MainChain =
  mc_heap :: "nat \<Rightarrow> ChainMain"
  mc_next :: nat
  mc_highest :: u64
  mc_byHeight :: "(u64 \<times> nat) list"
  mc_byHash :: "(hash \<times> nat) list"
  mc_tip :: "nat option"
  mc_tipMinerData :: "MinerData option"
  mc_medianTimestamp :: u64
  mc_calls :: "nodeCall list"

definition zeroChainMain :: ChainMain where
  "zeroChainMain = \<lparr>m_Difficulty = ZeroDifficulty, m_Height = 0, m_Timestamp = 0, m_Reward = 0, m_Id = ZeroHash\<rparr>"

definition NewMainChain :: MainChain where
  "NewMainChain = \<lparr>mc_heap = (\<lambda>_. zeroChainMain), mc_next = 0, mc_highest = 0, mc_byHeight = [], mc_byHash = [], mc_tip = None,
     mc_tipMinerData = None, mc_medianTimestamp = 0, mc_calls = []\<rparr>"

abbreviation heightGet :: "MainChain \<Rightarrow> u64 \<Rightarrow> nat option" where
  "heightGet c h \<equiv> map_of (mc_byHeight c) h"

abbreviation hashGet :: "MainChain \<Rightarrow> hash \<Rightarrow> nat option" where
  "hashGet c i \<equiv> map_of (mc_byHash c) i"

definition heightPut :: "u64 \<Rightarrow> nat \<Rightarrow> MainChain \<Rightarrow> MainChain" where
  "heightPut h r c = c\<lparr>mc_byHeight := AList.update h r (mc_byHeight c)\<rparr>"

definition hashPut :: "hash \<Rightarrow> nat \<Rightarrow> MainChain \<Rightarrow> MainChain" where
  "hashPut i r c = c\<lparr>mc_byHash := AList.update i r (mc_byHash c)\<rparr>"

text \<open>A new struct gets the next free reference.\<close>

definition newMain :: "ChainMain \<Rightarrow> MainChain \<Rightarrow> MainChain" where
  "newMain m c = c\<lparr>mc_heap := (mc_heap c)(mc_next c := m), mc_next := mc_next c + 1\<rparr>"

definition modifyMain :: "nat \<Rightarrow> (ChainMain \<Rightarrow> ChainMain) \<Rightarrow> MainChain \<Rightarrow> MainChain" where
  "modifyMain r f c = c\<lparr>mc_heap := (mc_heap c)(r := f (mc_heap c r))\<rparr>"

definition mainCall :: "nodeCall \<Rightarrow> MainChain \<Rightarrow> MainChain" where
  "mainCall x c = c\<lparr>mc_calls := mc_calls c @ [x]\<rparr>"

section \<open>Median timestamp\<close>

definition TimestampWindow :: nat where "TimestampWindow = 60"
definition BlockHeadersRequired :: u64 where "BlockHeadersRequired = 720"

text \<open>The loop over the window: the first height without a header leaves the rest of the array zero.\<close>

primrec timestampLoop :: "MainChain \<Rightarrow> nat \<Rightarrow> u64 \<Rightarrow> u64 list" where
  "timestampLoop c 0 h = []"
| "timestampLoop c (Suc n) h =
    (case heightGet c h of None \<Rightarrow> replicate (Suc n) 0 | Some r \<Rightarrow> m_Timestamp (mc_heap c r) # timestampLoop c n (h - 1))"

definition getTimestamps :: "MainChain \<Rightarrow> u64 list option" where
  "getTimestamps c = (if length (mc_byHeight c) \<le> TimestampWindow then None else Some (timestampLoop c TimestampWindow (mc_highest c)))"

definition updateMedianTimestamp :: "MainChain \<Rightarrow> MainChain" where
  "updateMedianTimestamp c = (case getTimestamps c of
      None \<Rightarrow> c\<lparr>mc_medianTimestamp := 0\<rparr>
    | Some timestamps \<Rightarrow> let timestamps = sort timestamps in
        c\<lparr>mc_medianTimestamp := (timestamps ! (TimestampWindow div 2) + timestamps ! (TimestampWindow div 2 + 1)) div 2\<rparr>)"

section \<open>Headers and blocks\<close>

definition raiseHighest :: "u64 \<Rightarrow> MainChain \<Rightarrow> MainChain" where
  "raiseHighest h c = (if h > mc_highest c then c\<lparr>mc_highest := h\<rparr> else c)"

definition HandleMainHeader :: "Header \<Rightarrow> MainChain \<Rightarrow> MainChain" where
  "HandleMainHeader mainHeader c =
    (let r = mc_next c;
         c = newMain \<lparr>m_Difficulty = h_Difficulty mainHeader, m_Height = h_Height mainHeader, m_Timestamp = h_Timestamp mainHeader,
               m_Reward = h_Reward mainHeader, m_Id = h_Id mainHeader\<rparr> c;
         c = heightPut (h_Height mainHeader) r c;
         c = hashPut (h_Id mainHeader) r c
     in updateMedianTimestamp (raiseHighest (h_Height mainHeader) c))"

definition GetChainMainByHeight :: "MainChain \<Rightarrow> u64 \<Rightarrow> ChainMain option" where
  "GetChainMainByHeight c height = map_option (mc_heap c) (heightGet c height)"

definition GetChainMainByHash :: "MainChain \<Rightarrow> hash \<Rightarrow> ChainMain option" where
  "GetChainMainByHash c i = map_option (mc_heap c) (hashGet c i)"

definition GetChainMainTip :: "MainChain \<Rightarrow> ChainMain option" where
  "GetChainMainTip c = map_option (mc_heap c) (mc_tip c)"

definition updateTip :: "MainChain \<Rightarrow> MainChain" where
  "updateTip c = (case mc_tipMinerData c of
      None \<Rightarrow> c
    | Some d \<Rightarrow> (case hashGet c (y_PrevId d) of None \<Rightarrow> c | Some r \<Rightarrow> c\<lparr>mc_tip := Some r\<rparr>))"

text \<open>\<^verbatim>\<open>HandleMainBlock\<close>: the part under the lock, and the search for the share that the block came from.\<close>

definition storeMainBlock :: "mainRef \<Rightarrow> MainChain \<Rightarrow> MainChain" where
  "storeMainBlock r c =
    (case heightGet c (m_Height (mc_heap c r)) of
      None \<Rightarrow> c
    | Some h \<Rightarrow>
        let c = modifyMain r (\<lambda>mainData. mainData\<lparr>m_Difficulty := m_Difficulty (mc_heap c h)\<rparr>) c;
            mainData = mc_heap c r;
            c = heightPut (m_Height mainData) r (hashPut (m_Id mainData) r c)
        in updateMedianTimestamp (raiseHighest (m_Height mainData) c))"

definition reportMainBlock :: "Block \<Rightarrow> mainRef \<Rightarrow> MainChain \<Rightarrow> SideChain \<Rightarrow> MainChain \<times> SideChain" where
  "reportMainBlock b mainData c s =
    (case GetTag (c_Extra (b_Coinbase b)) TxExtraTagMergeMining of
       None \<Rightarrow> (c, s)
     | Some t \<Rightarrow>
         if length (t_Data t) \<noteq> 32 then (c, s)
         else let sidechainId = HashFromBytes (t_Data t) in
           case sc_byId s sidechainId of
             Some r \<Rightarrow> (updateTip (mainCall (MainBlockFound (mc_heap c mainData) r) c), s)
           | None \<Rightarrow> (updateTip c, WatchMainChainBlock s (Some mainData) sidechainId))"

definition HandleMainBlock :: "(byte list \<Rightarrow> hash) \<Rightarrow> Block \<Rightarrow> MainChain \<times> SideChain \<Rightarrow> (MainChain \<times> SideChain) result" where
  "HandleMainBlock K b cs =
    bindR (Block_Id K b) (\<lambda>i.
    let mainData = mc_next (fst cs);
        c = newMain \<lparr>m_Difficulty = ZeroDifficulty, m_Height = c_GenHeight (b_Coinbase b), m_Timestamp = b_Timestamp b,
          m_Reward = c_TotalReward (b_Coinbase b), m_Id = i\<rparr> (fst cs)
    in Inr (reportMainBlock b mainData (storeMainBlock mainData c) (snd cs)))"

section \<open>Pruning\<close>

definition keptSeeds :: "u64 \<Rightarrow> u64 list" where
  "keptSeeds height = (let s = SeedHeight height in [s, s - SeedHashEpochBlocks, s - SeedHashEpochBlocks * 2])"

definition cleanupEntry :: "u64 \<Rightarrow> u64 \<times> nat \<Rightarrow> MainChain \<Rightarrow> MainChain" where
  "cleanupEntry height e c =
    (if fst e + BlockHeadersRequired \<ge> height then c
     else if fst e \<notin> set (keptSeeds height) then
       c\<lparr>mc_byHash := AList.delete (m_Id (mc_heap c (snd e))) (mc_byHash c), mc_byHeight := AList.delete (fst e) (mc_byHeight c)\<rparr>
     else c)"

definition cleanup :: "u64 \<Rightarrow> MainChain \<Rightarrow> MainChain" where
  "cleanup height c = fold (cleanupEntry height) (mc_byHeight c) c"

definition Cleanup :: "MainChain \<Rightarrow> MainChain" where
  "Cleanup c = (case GetChainMainTip c of None \<Rightarrow> c | Some tip \<Rightarrow> cleanup (m_Height tip) c)"

section \<open>Headers from the daemon\<close>

text \<open>The fields of the daemon's header that are read.\<close>

record rpcHeader =
  r_MajorVersion :: u64
  r_MinorVersion :: u64
  r_Timestamp :: u64
  r_PrevHash :: "byte list"
  r_Height :: u64
  r_Nonce :: u64
  r_Reward :: u64
  r_Hash :: "byte list"
  r_Difficulty :: u64

text \<open>The error of \<^verbatim>\<open>HashFromString\<close> is dropped; its hash is then zero.\<close>

definition hashOrZero :: "byte list \<Rightarrow> hash" where
  "hashOrZero s = (case HashFromString s of Inl _ \<Rightarrow> ZeroHash | Inr h \<Rightarrow> h)"

definition rpcToHeader :: "rpcHeader \<Rightarrow> Header" where
  "rpcToHeader h = \<lparr>h_MajorVersion = ucast (r_MajorVersion h), h_MinorVersion = ucast (r_MinorVersion h), h_Nonce = ucast (r_Nonce h),
     h_Timestamp = r_Timestamp h, h_PreviousId = hashOrZero (r_PrevHash h), h_Height = r_Height h, h_Reward = r_Reward h,
     h_Difficulty = DifficultyFrom64 (r_Difficulty h), h_Id = hashOrZero (r_Hash h)\<rparr>"

definition getBlockHeader :: "(u64 \<Rightarrow> rpcHeader option) \<Rightarrow> u64 \<Rightarrow> MainChain \<Rightarrow> error option \<times> MainChain" where
  "getBlockHeader rpc height c = (case rpc height of
      None \<Rightarrow> (Some (Err ''couldn't download block header''), c)
    | Some header \<Rightarrow> (None, HandleMainHeader (rpcToHeader header) c))"

fun getBlockHeaders :: "(u64 \<Rightarrow> rpcHeader option) \<Rightarrow> u64 list \<Rightarrow> MainChain \<Rightarrow> error option \<times> MainChain" where
  "getBlockHeaders rpc [] c = (None, c)"
| "getBlockHeaders rpc (h # hs) c = (case getBlockHeader rpc h c of (Some e, c) \<Rightarrow> (Some e, c) | (None, c) \<Rightarrow> getBlockHeaders rpc hs c)"

definition downloadRange :: "(u64 \<Rightarrow> u64 \<Rightarrow> rpcHeader list option) \<Rightarrow> u64 \<Rightarrow> MainChain \<Rightarrow> error option \<times> MainChain" where
  "downloadRange headersRange currentHeight c =
    (let startHeight = (if currentHeight > BlockHeadersRequired then currentHeight - BlockHeadersRequired else 0) in
     case headersRange startHeight (currentHeight - 1) of
       None \<Rightarrow> (Some (Err ''couldn't download block headers range''), c)
     | Some headers \<Rightarrow> (None, updateMedianTimestamp (fold (\<lambda>h. HandleMainHeader (rpcToHeader h)) headers c)))"

definition DownloadBlockHeaders ::
  "(u64 \<Rightarrow> rpcHeader option) \<Rightarrow> (u64 \<Rightarrow> u64 \<Rightarrow> rpcHeader list option) \<Rightarrow> u64 \<Rightarrow> MainChain \<Rightarrow> error option \<times> MainChain" where
  "DownloadBlockHeaders rpc headersRange currentHeight c =
    (let seedHeight = SeedHeight currentHeight;
         prevSeedHeight = (if seedHeight > SeedHashEpochBlocks then seedHeight - SeedHashEpochBlocks else 0)
     in case getBlockHeaders rpc [prevSeedHeight, seedHeight] c of
          (Some e, c) \<Rightarrow> (Some e, c)
        | (None, c) \<Rightarrow> downloadRange headersRange currentHeight c)"

section \<open>Miner data\<close>

definition storeCurrent :: "MinerData \<Rightarrow> MainChain \<Rightarrow> MainChain" where
  "storeCurrent d c = (case heightGet c (y_Height d) of
      None \<Rightarrow> heightPut (y_Height d) (mc_next c) (newMain (zeroChainMain\<lparr>m_Difficulty := y_Difficulty d, m_Height := y_Height d\<rparr>) c)
    | Some r \<Rightarrow> modifyMain r (\<lambda>m. m\<lparr>m_Difficulty := y_Difficulty d\<rparr>) c)"

definition storePrev :: "MinerData \<Rightarrow> MainChain \<Rightarrow> MainChain" where
  "storePrev d c = (case heightGet c (y_Height d - 1) of
      None \<Rightarrow> hashPut (y_PrevId d) (mc_next c) (heightPut (y_Height d - 1) (mc_next c) (newMain (zeroChainMain\<lparr>m_Height := y_Height d - 1, m_Id := y_PrevId d\<rparr>) c))
    | Some r \<Rightarrow> hashPut (y_PrevId d) r (modifyMain r (\<lambda>m. m\<lparr>m_Id := y_PrevId d\<rparr>) c))"

definition headerMissing :: "uint128_pkg \<Rightarrow> MainChain \<Rightarrow> u64 \<Rightarrow> bool" where
  "headerMissing U c h = (case heightGet c h of None \<Rightarrow> True | Some r \<Rightarrow> Equals U (m_Difficulty (mc_heap c r)) ZeroDifficulty)"

function missingHeights :: "uint128_pkg \<Rightarrow> MainChain \<Rightarrow> u64 \<Rightarrow> u64 \<Rightarrow> u64 list" where
  "missingHeights U c height h =
    (if h > 0 \<and> h + BlockHeadersRequired > height then
       (if headerMissing U c h then [h] else []) @ missingHeights U c height (h - 1)
     else [])"
  by auto

termination
  by (relation "measure (\<lambda>(U, c, height, h). unat h)") (auto simp: unat_minus_one word_greater_zero_iff unat_gt_0)

declare missingHeights.simps [simp del]

text \<open>The part of \<^verbatim>\<open>HandleMinerData\<close> before the downloads: the state and the heights to download.\<close>

definition storeMinerData :: "uint128_pkg \<Rightarrow> bool \<Rightarrow> bool \<Rightarrow> u64 \<Rightarrow> MinerData \<Rightarrow> MainChain \<Rightarrow> u64 list \<times> MainChain" where
  "storeMinerData U precalcFinished started now d c =
    (let c = cleanup (y_Height d) (storePrev d (storeCurrent d c));
         d = d\<lparr>y_TimeReceived := now\<rparr>;
         c = updateMedianTimestamp (c\<lparr>mc_tipMinerData := Some d\<rparr>);
         c = (if precalcFinished then mainCall ClearDerivations c else c)
     in (if started then missingHeights U c (y_Height d) (y_Height d) else [], mainCall (UpdateMinerData d) c))"

text \<open>The downloads run in goroutines that signal the wait group when they start, so the tip may be updated before, between or after them:
  \<open>order\<close> is the order in which they end and \<open>early\<close> how many have ended when the tip is updated.\<close>

definition fetchAll :: "(u64 \<Rightarrow> rpcHeader option) \<Rightarrow> u64 list \<Rightarrow> MainChain \<Rightarrow> MainChain" where
  "fetchAll rpc hs c = fold (\<lambda>h c. snd (getBlockHeader rpc h c)) hs c"

definition HandleMinerData ::
  "uint128_pkg \<Rightarrow> (u64 \<Rightarrow> rpcHeader option) \<Rightarrow> (u64 list \<Rightarrow> u64 list) \<Rightarrow> nat \<Rightarrow> bool \<Rightarrow> u64 \<Rightarrow> MinerData \<Rightarrow> MainChain \<times> SideChain \<Rightarrow> MainChain \<times> SideChain" where
  "HandleMinerData U rpc order early started now d cs =
    (let (c, s) = cs;
         (missing, c) = storeMinerData U (sc_precalcFinished s) started now d c;
         c = fetchAll rpc (take early (order missing)) c;
         c = updateTip c
     in (fetchAll rpc (drop early (order missing)) c, s))"

section \<open>Fields\<close>

lemma updateMedianTimestamp_only: "\<exists>x. updateMedianTimestamp c = c\<lparr>mc_medianTimestamp := x\<rparr>"
  by (auto simp: updateMedianTimestamp_def Let_def split: option.splits)

lemma updateMedianTimestamp_fields [simp]:
  "mc_heap (updateMedianTimestamp c) = mc_heap c" "mc_next (updateMedianTimestamp c) = mc_next c" "mc_highest (updateMedianTimestamp c) = mc_highest c"
  "mc_byHeight (updateMedianTimestamp c) = mc_byHeight c" "mc_byHash (updateMedianTimestamp c) = mc_byHash c" "mc_tip (updateMedianTimestamp c) = mc_tip c"
  "mc_tipMinerData (updateMedianTimestamp c) = mc_tipMinerData c" "mc_calls (updateMedianTimestamp c) = mc_calls c"
  using updateMedianTimestamp_only [of c] by auto

lemma raiseHighest_fields [simp]:
  "mc_heap (raiseHighest h c) = mc_heap c" "mc_next (raiseHighest h c) = mc_next c"
  "mc_byHeight (raiseHighest h c) = mc_byHeight c" "mc_byHash (raiseHighest h c) = mc_byHash c" "mc_tip (raiseHighest h c) = mc_tip c"
  "mc_tipMinerData (raiseHighest h c) = mc_tipMinerData c" "mc_calls (raiseHighest h c) = mc_calls c"
  by (simp_all add: raiseHighest_def)

lemmas main_update_defs = heightPut_def hashPut_def newMain_def modifyMain_def mainCall_def

section \<open>Invariant\<close>

text \<open>Keys are unique, references are allocated, and the header kept for a height has that height.\<close>

definition mc_ok :: "MainChain \<Rightarrow> bool" where
  "mc_ok c \<longleftrightarrow> distinct (map fst (mc_byHeight c)) \<and> distinct (map fst (mc_byHash c)) \<and>
    (\<forall>h r. heightGet c h = Some r \<longrightarrow> r < mc_next c \<and> m_Height (mc_heap c r) = h) \<and>
    (\<forall>i r. hashGet c i = Some r \<longrightarrow> r < mc_next c) \<and> (\<forall>r. mc_tip c = Some r \<longrightarrow> r < mc_next c)"

lemma mc_ok_fields:
  assumes "mc_ok c" "mc_heap c' = mc_heap c" "mc_next c' = mc_next c" "mc_byHeight c' = mc_byHeight c" "mc_byHash c' = mc_byHash c" "mc_tip c' = mc_tip c"
  shows "mc_ok c'"
  using assms by (simp add: mc_ok_def)

lemma mc_ok_new: "mc_ok c \<Longrightarrow> mc_ok (newMain m c)"
  by (fastforce simp: mc_ok_def newMain_def less_Suc_eq)

lemma mc_ok_height: "mc_ok c \<Longrightarrow> r < mc_next c \<Longrightarrow> m_Height (mc_heap c r) = h \<Longrightarrow> mc_ok (heightPut h r c)"
  by (auto simp: mc_ok_def heightPut_def update_conv' distinct_update split: if_splits)

lemma mc_ok_hash: "mc_ok c \<Longrightarrow> r < mc_next c \<Longrightarrow> mc_ok (hashPut i r c)"
  by (auto simp: mc_ok_def hashPut_def update_conv' distinct_update split: if_splits)

lemma mc_ok_modify: "mc_ok c \<Longrightarrow> (\<And>m. m_Height (f m) = m_Height m) \<Longrightarrow> mc_ok (modifyMain r f c)"
  by (auto simp: mc_ok_def modifyMain_def)

lemma HandleMainHeader_inv: "mc_ok c \<Longrightarrow> mc_ok (HandleMainHeader h c)"
proof -
  assume ok: "mc_ok c"
  let ?m = "\<lparr>m_Difficulty = h_Difficulty h, m_Height = h_Height h, m_Timestamp = h_Timestamp h, m_Reward = h_Reward h, m_Id = h_Id h\<rparr>"
  have "mc_ok (hashPut (h_Id h) (mc_next c) (heightPut (h_Height h) (mc_next c) (newMain ?m c)))"
    by (intro mc_ok_hash mc_ok_height mc_ok_new ok) (simp_all add: newMain_def heightPut_def)
  then show ?thesis unfolding HandleMainHeader_def Let_def by (rule mc_ok_fields) simp_all
qed

lemma storeMainBlock_inv:
  assumes "mc_ok c" "r < mc_next c"
  shows "mc_ok (storeMainBlock r c)"
proof (cases "heightGet c (m_Height (mc_heap c r))")
  case (Some h)
  let ?c = "modifyMain r (\<lambda>m. m\<lparr>m_Difficulty := m_Difficulty (mc_heap c h)\<rparr>) c"
  have "mc_ok ?c" by (rule mc_ok_modify [OF assms(1)]) simp
  then have "mc_ok (heightPut (m_Height (mc_heap ?c r)) r (hashPut (m_Id (mc_heap ?c r)) r ?c))"
    using assms(2) by (intro mc_ok_hash mc_ok_height) (simp_all add: hashPut_def modifyMain_def)
  then show ?thesis using Some unfolding storeMainBlock_def Let_def by (simp add: mc_ok_def)
qed (simp add: storeMainBlock_def assms(1))

lemma updateTip_inv: "mc_ok c \<Longrightarrow> mc_ok (updateTip c)"
  by (auto simp: updateTip_def mc_ok_def split: option.splits)

lemma mainCall_inv: "mc_ok (mainCall x c) = mc_ok c"
  by (simp add: mc_ok_def mainCall_def)

lemma reportMainBlock_inv: "mc_ok c \<Longrightarrow> mc_ok (fst (reportMainBlock b m c s))"
  by (auto simp: reportMainBlock_def Let_def mainCall_inv split: option.splits intro!: updateTip_inv)

lemma HandleMainBlock_inv: "mc_ok c \<Longrightarrow> HandleMainBlock K b (c, s) = Inr (c', s') \<Longrightarrow> mc_ok c'"
proof -
  assume ok: "mc_ok c" and h: "HandleMainBlock K b (c, s) = Inr (c', s')"
  obtain m where "reportMainBlock b (mc_next c) (storeMainBlock (mc_next c) (newMain m c)) s = (c', s')"
    using h by (auto simp: HandleMainBlock_def bindR_Inr_iff Let_def)
  moreover have "mc_ok (storeMainBlock (mc_next c) (newMain m c))"
    by (rule storeMainBlock_inv [OF mc_ok_new [OF ok]]) (simp add: newMain_def)
  ultimately show ?thesis using reportMainBlock_inv by (metis fst_conv)
qed

section \<open>Pruning\<close>

definition gone :: "u64 \<Rightarrow> u64 \<Rightarrow> bool" where
  "gone height h \<longleftrightarrow> \<not> h + BlockHeadersRequired \<ge> height \<and> h \<notin> set (keptSeeds height)"

lemma cleanupEntry_fields [simp]:
  "mc_heap (cleanupEntry H e c) = mc_heap c" "mc_next (cleanupEntry H e c) = mc_next c" "mc_tip (cleanupEntry H e c) = mc_tip c"
  "mc_tipMinerData (cleanupEntry H e c) = mc_tipMinerData c" "mc_calls (cleanupEntry H e c) = mc_calls c"
  by (simp_all add: cleanupEntry_def)

lemma cleanupEntry_maps:
  "heightGet (cleanupEntry H e c) h = (if h = fst e \<and> gone H h then None else heightGet c h)"
  "hashGet (cleanupEntry H e c) i = (if gone H (fst e) \<and> m_Id (mc_heap c (snd e)) = i then None else hashGet c i)"
  by (auto simp: cleanupEntry_def gone_def delete_conv')

lemma cleanup_fold_fields:
  "mc_heap (fold (cleanupEntry H) es c) = mc_heap c" "mc_next (fold (cleanupEntry H) es c) = mc_next c" "mc_tip (fold (cleanupEntry H) es c) = mc_tip c"
  "mc_tipMinerData (fold (cleanupEntry H) es c) = mc_tipMinerData c" "mc_calls (fold (cleanupEntry H) es c) = mc_calls c"
  by (induction es arbitrary: c) simp_all

lemma cleanup_fold_heights: "heightGet (fold (cleanupEntry H) es c) h = (if h \<in> fst ` set es \<and> gone H h then None else heightGet c h)"
  by (induction es arbitrary: c) (auto simp: cleanupEntry_maps)

lemma cleanup_fold_hashes:
  "hashGet (fold (cleanupEntry H) es c) i = (if \<exists>e \<in> set es. gone H (fst e) \<and> m_Id (mc_heap c (snd e)) = i then None else hashGet c i)"
  by (induction es arbitrary: c) (auto simp: cleanupEntry_maps)

lemmas cleanup_fold = cleanup_fold_fields cleanup_fold_heights cleanup_fold_hashes

lemma cleanup_fold_distinct:
  "distinct (map fst (mc_byHeight c)) \<Longrightarrow> distinct (map fst (mc_byHeight (fold (cleanupEntry H) es c)))"
  "distinct (map fst (mc_byHash c)) \<Longrightarrow> distinct (map fst (mc_byHash (fold (cleanupEntry H) es c)))"
  by (induction es arbitrary: c) (auto simp: cleanupEntry_def distinct_delete)

lemma cleanup_fields [simp]:
  "mc_heap (cleanup H c) = mc_heap c" "mc_next (cleanup H c) = mc_next c" "mc_tip (cleanup H c) = mc_tip c"
  "mc_tipMinerData (cleanup H c) = mc_tipMinerData c" "mc_calls (cleanup H c) = mc_calls c"
  by (simp_all add: cleanup_def cleanup_fold)

lemma cleanup_heights: "heightGet (cleanup H c) h = (if gone H h then None else heightGet c h)"
  by (auto simp: cleanup_def cleanup_fold map_of_eq_None_iff)

lemma cleanup_hashes:
  assumes "mc_ok c"
  shows "hashGet (cleanup H c) i = (if \<exists>h r. heightGet c h = Some r \<and> gone H h \<and> m_Id (mc_heap c r) = i then None else hashGet c i)"
proof -
  have e: "heightGet c h = Some r \<longleftrightarrow> (h, r) \<in> set (mc_byHeight c)" for h r using assms by (simp add: mc_ok_def)
  have "(\<exists>e \<in> set (mc_byHeight c). gone H (fst e) \<and> m_Id (mc_heap c (snd e)) = i) \<longleftrightarrow> (\<exists>h r. heightGet c h = Some r \<and> gone H h \<and> m_Id (mc_heap c r) = i)"
    unfolding e by (metis fst_conv prod.collapse snd_conv)
  then show ?thesis by (simp add: cleanup_def cleanup_fold)
qed

lemma cleanup_inv: "mc_ok c \<Longrightarrow> mc_ok (cleanup H c)"
proof -
  assume ok: "mc_ok c"
  have "distinct (map fst (mc_byHeight (cleanup H c)))" "distinct (map fst (mc_byHash (cleanup H c)))"
    using ok by (simp_all add: cleanup_def cleanup_fold_distinct mc_ok_def)
  then show ?thesis using ok unfolding mc_ok_def cleanup_heights cleanup_hashes [OF ok] cleanup_fields by (auto split: if_splits)
qed

lemma Cleanup_inv: "mc_ok c \<Longrightarrow> mc_ok (Cleanup c)"
  by (simp add: Cleanup_def cleanup_inv split: option.split)

lemma getBlockHeader_inv: "mc_ok c \<Longrightarrow> mc_ok (snd (getBlockHeader rpc h c))"
  by (simp add: getBlockHeader_def HandleMainHeader_inv split: option.split)

lemma fetchAll_inv: "mc_ok c \<Longrightarrow> mc_ok (fetchAll rpc hs c)"
  unfolding fetchAll_def by (induction hs arbitrary: c) (simp_all add: getBlockHeader_inv)

lemma getBlockHeaders_inv: "mc_ok c \<Longrightarrow> mc_ok (snd (getBlockHeaders rpc hs c))"
proof (induction hs arbitrary: c)
  case (Cons h hs)
  then show ?case using getBlockHeader_inv [OF Cons.prems, of rpc h] by (auto split: prod.splits option.splits)
qed simp

lemma headers_fold_inv: "mc_ok c \<Longrightarrow> mc_ok (fold (\<lambda>h. HandleMainHeader (rpcToHeader h)) hs c)"
  by (induction hs arbitrary: c) (simp_all add: HandleMainHeader_inv)

lemma median_inv: "mc_ok (updateMedianTimestamp c) = mc_ok c"
  by (simp add: mc_ok_def)

lemma downloadRange_inv: "mc_ok c \<Longrightarrow> mc_ok (snd (downloadRange headersRange h c))"
  by (simp add: downloadRange_def Let_def median_inv headers_fold_inv split: option.split)

lemma DownloadBlockHeaders_inv: "mc_ok c \<Longrightarrow> mc_ok (snd (DownloadBlockHeaders rpc headersRange h c))"
proof -
  assume ok: "mc_ok c"
  define hs where "hs = [if SeedHeight h > SeedHashEpochBlocks then SeedHeight h - SeedHashEpochBlocks else 0, SeedHeight h]"
  obtain e c' where g: "getBlockHeaders rpc hs c = (e, c')" by force
  have "mc_ok c'" using getBlockHeaders_inv [OF ok, of rpc hs] g by simp
  then show ?thesis unfolding DownloadBlockHeaders_def Let_def hs_def [symmetric] g by (cases e) (simp_all add: downloadRange_inv)
qed

lemma storeCurrent_inv:
  assumes ok: "mc_ok c"
  shows "mc_ok (storeCurrent d c)"
proof (cases "heightGet c (y_Height d)")
  case None
  have "mc_ok (heightPut (y_Height d) (mc_next c) (newMain (zeroChainMain\<lparr>m_Difficulty := y_Difficulty d, m_Height := y_Height d\<rparr>) c))"
    by (intro mc_ok_height mc_ok_new ok) (simp_all add: newMain_def)
  then show ?thesis using None by (simp add: storeCurrent_def)
next
  case (Some r)
  have "mc_ok (modifyMain r (\<lambda>m. m\<lparr>m_Difficulty := y_Difficulty d\<rparr>) c)" by (rule mc_ok_modify [OF ok]) simp
  then show ?thesis using Some by (simp add: storeCurrent_def)
qed

lemma storePrev_inv:
  assumes ok: "mc_ok c"
  shows "mc_ok (storePrev d c)"
proof (cases "heightGet c (y_Height d - 1)")
  case None
  have "mc_ok (heightPut (y_Height d - 1) (mc_next c) (newMain (zeroChainMain\<lparr>m_Height := y_Height d - 1, m_Id := y_PrevId d\<rparr>) c))"
    by (intro mc_ok_height mc_ok_new ok) (simp_all add: newMain_def)
  then show ?thesis using None by (auto simp: storePrev_def intro!: mc_ok_hash) (simp add: heightPut_def newMain_def)
next
  case (Some r)
  then have "r < mc_next c" using ok by (simp add: mc_ok_def)
  moreover have "mc_ok (modifyMain r (\<lambda>m. m\<lparr>m_Id := y_PrevId d\<rparr>) c)" by (rule mc_ok_modify [OF ok]) simp
  ultimately show ?thesis using Some by (auto simp: storePrev_def modifyMain_def intro!: mc_ok_hash)
qed

lemma storeMinerData_inv: "mc_ok c \<Longrightarrow> mc_ok (snd (storeMinerData U p st now d c))"
proof -
  assume "mc_ok c"
  then have "mc_ok (cleanup (y_Height d) (storePrev d (storeCurrent d c)))" by (intro cleanup_inv storePrev_inv storeCurrent_inv)
  then show ?thesis by (simp add: storeMinerData_def Let_def mainCall_inv median_inv) (simp add: mc_ok_def)
qed

lemma HandleMinerData_inv: "mc_ok c \<Longrightarrow> mc_ok (fst (HandleMinerData U rpc order early st now d (c, s)))"
  using storeMinerData_inv [of c U "sc_precalcFinished s" st now d]
  by (simp add: HandleMinerData_def split_beta Let_def fetchAll_inv updateTip_inv)

section \<open>Events\<close>

text \<open>The states the main chain can be in: any sequence of headers, blocks, miner data, downloads and clean-ups, with any answers of the
  daemon and any state of the side chain at each of them.\<close>

inductive main_reachable :: "MainChain \<Rightarrow> bool" where
  start: "main_reachable NewMainChain"
| header: "main_reachable c \<Longrightarrow> main_reachable (HandleMainHeader h c)"
| mainblock: "main_reachable c \<Longrightarrow> HandleMainBlock K b (c, s) = Inr (c', s') \<Longrightarrow> main_reachable c'"
| minerdata: "main_reachable c \<Longrightarrow> HandleMinerData U rpc order early st now d (c, s) = (c', s') \<Longrightarrow> main_reachable c'"
| download: "main_reachable c \<Longrightarrow> DownloadBlockHeaders rpc headersRange h c = (e, c') \<Longrightarrow> main_reachable c'"
| clean: "main_reachable c \<Longrightarrow> main_reachable (Cleanup c)"

lemma mc_ok_reachable: "main_reachable c \<Longrightarrow> mc_ok c"
proof (induction rule: main_reachable.induct)
  case start
  then show ?case by (simp add: mc_ok_def NewMainChain_def)
next
  case (header c h)
  then show ?case by (simp add: HandleMainHeader_inv)
next
  case (mainblock c K b s c' s')
  then show ?case using HandleMainBlock_inv by blast
next
  case (minerdata c U rpc order early st now d s c' s')
  then show ?case using HandleMinerData_inv [of c U rpc order early st now d s] by simp
next
  case (download c rpc headersRange h e c')
  then show ?case using DownloadBlockHeaders_inv [of c rpc headersRange h] by simp
next
  case (clean c)
  then show ?case by (simp add: Cleanup_inv)
qed

text \<open>C29: Well-formedness of the main chain state.  After any sequence of headers, blocks, miner data, downloads and clean-ups, whatever the
daemon answers, each height and each id is kept once, every pointer kept by height, by id or as tip is allocated, and the header kept
for a height has that height.\<close>

theorem MainChain_wellformed: "main_reachable c \<Longrightarrow> mc_ok c"
  by (rule mc_ok_reachable)

section \<open>Downloads\<close>

definition header_main :: "Header \<Rightarrow> ChainMain" where
  "header_main h = \<lparr>m_Difficulty = h_Difficulty h, m_Height = h_Height h, m_Timestamp = h_Timestamp h, m_Reward = h_Reward h, m_Id = h_Id h\<rparr>"

lemma HandleMainHeader_fields:
  "mc_heap (HandleMainHeader h c) = (mc_heap c)(mc_next c := header_main h)" "mc_next (HandleMainHeader h c) = mc_next c + 1"
  "mc_tip (HandleMainHeader h c) = mc_tip c" "mc_tipMinerData (HandleMainHeader h c) = mc_tipMinerData c"
  "heightGet (HandleMainHeader h c) = (heightGet c)(h_Height h \<mapsto> mc_next c)" "hashGet (HandleMainHeader h c) = (hashGet c)(h_Id h \<mapsto> mc_next c)"
  by (simp_all add: HandleMainHeader_def Let_def main_update_defs header_main_def update_conv' fun_eq_iff)

text \<open>Facts about a stored header that survive a download, given what the daemon says.\<close>

definition held_by :: "(MainChain \<Rightarrow> nat option) \<Rightarrow> (ChainMain \<Rightarrow> bool) \<Rightarrow> MainChain \<Rightarrow> bool" where
  "held_by get P c \<longleftrightarrow> (\<exists>r. get c = Some r \<and> r < mc_next c \<and> P (mc_heap c r))"

lemma held_by_header:
  assumes "held_by get P c" and "get (HandleMainHeader h c) = get c \<or> get (HandleMainHeader h c) = Some (mc_next c) \<and> P (header_main h)"
  shows "held_by get P (HandleMainHeader h c)"
proof -
  obtain r where r: "get c = Some r" "r < mc_next c" "P (mc_heap c r)" using assms(1) by (auto simp: held_by_def)
  from assms(2) show ?thesis
  proof
    assume "get (HandleMainHeader h c) = get c"
    then show ?thesis using r unfolding held_by_def by (intro exI [of _ r]) (simp add: HandleMainHeader_fields)
  qed (simp add: held_by_def HandleMainHeader_fields)
qed

lemma held_by_fetch:
  assumes "held_by get P c" and "\<And>h hd c. h \<in> set hs \<Longrightarrow> rpc h = Some hd \<Longrightarrow>
      get (HandleMainHeader (rpcToHeader hd) c) = get c \<or> get (HandleMainHeader (rpcToHeader hd) c) = Some (mc_next c) \<and> P (header_main (rpcToHeader hd))"
  shows "held_by get P (fetchAll rpc hs c)"
  using assms
proof (induction hs arbitrary: c)
  case (Cons h hs)
  have "held_by get P (snd (getBlockHeader rpc h c))"
  proof (cases "rpc h")
    case (Some hd)
    then show ?thesis using held_by_header [OF Cons.prems(1)] Cons.prems(2) [of h hd c] by (simp add: getBlockHeader_def)
  qed (use Cons.prems(1) in \<open>simp add: getBlockHeader_def\<close>)
  then have "held_by get P (fetchAll rpc hs (snd (getBlockHeader rpc h c)))" by (rule Cons.IH) (use Cons.prems(2) in auto)
  then show ?case by (simp add: fetchAll_def)
qed (simp add: fetchAll_def)

lemma fetchAll_fields [simp]: "mc_tip (fetchAll rpc hs c) = mc_tip c" "mc_tipMinerData (fetchAll rpc hs c) = mc_tipMinerData c"
proof -
  have "mc_tip (snd (getBlockHeader rpc h c)) = mc_tip c" "mc_tipMinerData (snd (getBlockHeader rpc h c)) = mc_tipMinerData c" for h c
    by (simp_all add: getBlockHeader_def HandleMainHeader_fields split: option.split)
  then show "mc_tip (fetchAll rpc hs c) = mc_tip c" "mc_tipMinerData (fetchAll rpc hs c) = mc_tipMinerData c"
    unfolding fetchAll_def by (induction hs arbitrary: c) simp_all
qed

lemma fetchAll_heap: "r < mc_next c \<Longrightarrow> mc_heap (fetchAll rpc hs c) r = mc_heap c r \<and> r < mc_next (fetchAll rpc hs c)"
proof (induction hs arbitrary: c)
  case (Cons h hs)
  have "r < mc_next (snd (getBlockHeader rpc h c)) \<and> mc_heap (snd (getBlockHeader rpc h c)) r = mc_heap c r"
    using Cons.prems by (simp add: getBlockHeader_def HandleMainHeader_fields split: option.split)
  then show ?case using Cons.IH [of "snd (getBlockHeader rpc h c)"] by (simp add: fetchAll_def)
qed (simp add: fetchAll_def)

section \<open>The tip\<close>

lemma not_gone_recent:
  assumes "0 < H" and "unat H + 720 < 2 ^ 64"
  shows "\<not> gone H H" and "\<not> gone H (H - 1)"
proof -
  have "unat (H - 1) = unat H - 1" "0 < unat H" using assms(1) by (simp_all add: unat_minus_one word_greater_zero_iff unat_gt_0)
  then show "\<not> gone H H" "\<not> gone H (H - 1)" using assms(2)
    by (simp_all add: gone_def BlockHeadersRequired_def word_le_nat_alt unat_word_ariths)
qed

lemma storeCurrent_facts:
  "heightGet (storeCurrent d c) h = (if h = y_Height d \<and> heightGet c h = None then Some (mc_next c) else heightGet c h)"
  "r < mc_next c \<Longrightarrow> m_Id (mc_heap (storeCurrent d c) r) = m_Id (mc_heap c r)" "mc_next c \<le> mc_next (storeCurrent d c)"
  by (auto simp: storeCurrent_def main_update_defs update_conv' split: option.split)

lemma storePrev_facts:
  "h \<noteq> y_Height d - 1 \<Longrightarrow> heightGet (storePrev d c) h = heightGet c h"
  "r < mc_next c \<Longrightarrow> heightGet c (y_Height d - 1) \<noteq> Some r \<Longrightarrow> mc_heap (storePrev d c) r = mc_heap c r"
  by (auto simp: storePrev_def main_update_defs update_conv' split: option.split)

lemma storePrev_held: "mc_ok c \<Longrightarrow> held_by (\<lambda>c. hashGet c (y_PrevId d)) (\<lambda>m. m_Id m = y_PrevId d \<and> m_Height m = y_Height d - 1) (storePrev d c)"
  by (auto simp: held_by_def storePrev_def main_update_defs update_conv' mc_ok_def split: option.split)

text \<open>No header at another height carries the id of the block that the miner data build on.\<close>

definition prev_unique :: "MinerData \<Rightarrow> MainChain \<Rightarrow> bool" where
  "prev_unique d c \<longleftrightarrow> (\<forall>h m. GetChainMainByHeight c h = Some m \<and> m_Id m = y_PrevId d \<longrightarrow> h = y_Height d - 1)"

lemma storeMinerData_held:
  assumes ok: "mc_ok c" and "0 < y_Height d" and "unat (y_Height d) + 720 < 2 ^ 64" and uniq: "prev_unique d c"
  shows "held_by (\<lambda>c. hashGet c (y_PrevId d)) (\<lambda>m. m_Id m = y_PrevId d \<and> m_Height m = y_Height d - 1) (snd (storeMinerData U p st now d c))"
proof -
  let ?H = "y_Height d" and ?c1 = "storeCurrent d c"
  let ?c2 = "storePrev d ?c1"
  have ok1: "mc_ok ?c1" by (rule storeCurrent_inv [OF ok])
  have ok2: "mc_ok ?c2" by (rule storePrev_inv [OF ok1])
  note recent = not_gone_recent [OF assms(2,3)]
  have "m_Id (mc_heap ?c2 r) \<noteq> y_PrevId d" if h: "heightGet ?c2 h = Some r" "gone ?H h" for h r
  proof -
    have ne: "h \<noteq> ?H" "h \<noteq> ?H - 1" using h(2) recent by auto
    then have "heightGet ?c1 h = Some r" using storePrev_facts(1) h(1) by simp
    then have c: "heightGet c h = Some r" and h1: "heightGet ?c1 h = Some r" using ne by (simp_all add: storeCurrent_facts)
    then have r: "r < mc_next c" "r < mc_next ?c1" "m_Height (mc_heap ?c1 r) = h" using ok ok1 unfolding mc_ok_def by blast+
    have "heightGet ?c1 (?H - 1) \<noteq> Some r" using r(3) ne(2) ok1 unfolding mc_ok_def by blast
    then have "m_Id (mc_heap ?c2 r) = m_Id (mc_heap c r)" using storePrev_facts(2) [OF r(2)] storeCurrent_facts(2) [OF r(1)] by simp
    then show ?thesis using uniq c ne(2) unfolding prev_unique_def GetChainMainByHeight_def by auto
  qed
  then have "hashGet (cleanup ?H ?c2) (y_PrevId d) = hashGet ?c2 (y_PrevId d)" using cleanup_hashes [OF ok2] by auto
  then show ?thesis using storePrev_held [OF ok1, of d]
    by (simp add: storeMinerData_def Let_def held_by_def mainCall_def)
qed

lemma storeMinerData_tipData: "mc_tipMinerData (snd (storeMinerData U p st now d c)) = Some (d\<lparr>y_TimeReceived := now\<rparr>)"
  by (simp add: storeMinerData_def Let_def mainCall_def)

lemma updateTip_held:
  assumes "held_by (\<lambda>c. hashGet c i) P c" and "mc_tipMinerData c = Some d" and "y_PrevId d = i"
  shows "held_by mc_tip P (updateTip c)"
  using assms by (auto simp: held_by_def updateTip_def)

text \<open>Miner data move the tip.  When the daemon names height, difficulty and parent of the next block, then afterwards, for every
interleaving of the header downloads with the update of the tip, the tip is the header with the parent's id and the height below,
provided that no header at another height has the parent's id and the daemon reports it at no other height either.\<close>

lemma HandleMinerData_tip:
  assumes "main_reachable c" and "0 < y_Height d" and "unat (y_Height d) + 720 < 2 ^ 64" and "prev_unique d c"
    and "\<And>h hd. rpc h = Some hd \<Longrightarrow> hashOrZero (r_Hash hd) = y_PrevId d \<Longrightarrow> r_Height hd = y_Height d - 1"
    and "HandleMinerData U rpc order early started now d (c, s) = (c', s')"
  shows "\<exists>m. GetChainMainTip c' = Some m \<and> m_Id m = y_PrevId d \<and> m_Height m = y_Height d - 1 \<and> s' = s"
proof -
  let ?P = "\<lambda>m. m_Id m = y_PrevId d \<and> m_Height m = y_Height d - 1"
  obtain missing c1 where s: "storeMinerData U (sc_precalcFinished s) started now d c = (missing, c1)" by force
  have h1: "held_by (\<lambda>c. hashGet c (y_PrevId d)) ?P c1"
    using storeMinerData_held [OF mc_ok_reachable [OF assms(1)] assms(2,3,4), of U "sc_precalcFinished s" started now] unfolding s snd_conv .
  have t1: "mc_tipMinerData c1 = Some (d\<lparr>y_TimeReceived := now\<rparr>)" using storeMinerData_tipData [of U "sc_precalcFinished s" started now d c] unfolding s snd_conv .
  define c2 where "c2 = fetchAll rpc (take early (order missing)) c1"
  have h2: "held_by (\<lambda>c. hashGet c (y_PrevId d)) ?P c2" unfolding c2_def
    by (rule held_by_fetch [OF h1]) (use assms(5) in \<open>auto simp: HandleMainHeader_fields rpcToHeader_def header_main_def\<close>)
  have t2: "mc_tipMinerData c2 = Some (d\<lparr>y_TimeReceived := now\<rparr>)" by (simp add: c2_def t1)
  have "held_by mc_tip ?P (updateTip c2)" by (rule updateTip_held [OF h2 t2]) simp
  then have "held_by mc_tip ?P (fetchAll rpc (drop early (order missing)) (updateTip c2))" by (rule held_by_fetch) (simp add: HandleMainHeader_fields)
  moreover have "c' = fetchAll rpc (drop early (order missing)) (updateTip c2)" "s' = s"
    using assms(6) s by (simp_all add: HandleMinerData_def c2_def Let_def)
  ultimately show ?thesis by (auto simp: held_by_def GetChainMainTip_def)
qed

text \<open>A fresh node with miner data for height 1000.\<close>

definition example_miner_data :: MinerData where
  "example_miner_data = \<lparr>y_MajorVersion = 16, y_Height = 1000, y_PrevId = 5, y_SeedHash = 6, y_Difficulty = Difficulty 300 0,
     y_MedianWeight = 300000, y_AlreadyGeneratedCoins = 0, y_MedianTimestamp = 0, y_TimeReceived = 0, y_TxBacklog = []\<rparr>"

theorem MainChain_wellformed_witness:
  "mc_ok (Cleanup (HandleMainHeader \<lparr>h_MajorVersion = 16, h_MinorVersion = 16, h_Nonce = 1, h_Timestamp = 2, h_PreviousId = 3, h_Height = 4,
     h_Reward = 5, h_Difficulty = Difficulty 6 0, h_Id = 7\<rparr> NewMainChain))"
  by (rule MainChain_wellformed, rule main_reachable.clean, rule main_reachable.header, rule main_reachable.start)

section \<open>Completeness of the header window\<close>

lemma unat_minus_one_u64: "0 < (h :: u64) \<Longrightarrow> unat (h - 1) = unat h - 1 \<and> 0 < unat h"
  by (simp add: unat_minus_one word_greater_zero_iff unat_gt_0)

lemma missingHeights_set:
  assumes "unat H + 720 < 2 ^ 64" and "h \<le> H"
  shows "set (missingHeights U c H h) = {k. 0 < k \<and> k \<le> h \<and> unat H < unat k + 720 \<and> headerMissing U c k}"
  using assms
proof (induction U c H h rule: missingHeights.induct)
  case (1 U c H h)
  have w: "unat (k + 720) = unat k + 720" if "k \<le> H" for k using that 1(2) by (simp add: unat_word_ariths word_le_nat_alt)
  show ?case
  proof (cases "0 < h \<and> H < h + BlockHeadersRequired")
    case True
    note m = unat_minus_one_u64 [of h]
    have "h - 1 \<le> H" using True 1(3) m by (simp add: word_le_nat_alt)
    then have ih: "set (missingHeights U c H (h - 1)) = {k. 0 < k \<and> k \<le> h - 1 \<and> unat H < unat k + 720 \<and> headerMissing U c k}"
      using 1(1,2) True by blast
    have le: "k \<le> h \<longleftrightarrow> k \<le> h - 1 \<or> k = h" for k using True m by (auto simp: word_le_nat_alt word_unat_eq_iff)
    have h: "unat H < unat h + 720" using True w [OF 1(3)] by (simp add: BlockHeadersRequired_def word_less_nat_alt)
    show ?thesis using True by (subst missingHeights.simps) (auto simp: ih le h)
  next
    case False
    then have "\<not> (0 < k \<and> k \<le> h \<and> unat H < unat k + 720)" for k
      using w [OF 1(3)] by (auto simp: BlockHeadersRequired_def word_less_nat_alt word_le_nat_alt)
    then show ?thesis using False by (subst missingHeights.simps) auto
  qed
qed

lemma headerMissing_iff:
  "uint128_ok U \<Longrightarrow> mc_ok c \<Longrightarrow> \<not> headerMissing U c h \<longleftrightarrow> held_by (\<lambda>c. heightGet c h) (\<lambda>m. m_Difficulty m \<noteq> ZeroDifficulty) c"
proof -
  assume U: "uint128_ok U" and ok: "mc_ok c"
  show ?thesis
  proof (cases "heightGet c h")
    case (Some r)
    then have "r < mc_next c" using ok unfolding mc_ok_def by blast
    then show ?thesis using Some val_inject [of "m_Difficulty (mc_heap c r)" ZeroDifficulty]
      unfolding headerMissing_def held_by_def by (simp add: Equals_def uint128_okD [OF U])
  qed (simp add: headerMissing_def held_by_def)
qed

lemma fetched_held:
  assumes "h \<in> set hs" and "\<And>h. h \<in> set hs \<Longrightarrow> \<exists>hd. rpc h = Some hd \<and> r_Height hd = h \<and> P (header_main (rpcToHeader hd))"
  shows "held_by (\<lambda>c. heightGet c h) P (fetchAll rpc hs c)"
  using assms
proof (induction hs arbitrary: c)
  case (Cons k hs)
  have keep: "held_by (\<lambda>c. heightGet c h) P (fetchAll rpc hs c)" if "held_by (\<lambda>c. heightGet c h) P c" for c
  proof (rule held_by_fetch [OF that])
    fix i hd c assume "i \<in> set hs" "rpc i = Some hd"
    then have "P (header_main (rpcToHeader hd))" using Cons.prems(2) [of i] by auto
    then show "heightGet (HandleMainHeader (rpcToHeader hd) c) h = heightGet c h \<or>
        heightGet (HandleMainHeader (rpcToHeader hd) c) h = Some (mc_next c) \<and> P (header_main (rpcToHeader hd))"
      unfolding HandleMainHeader_fields by simp
  qed
  show ?case
  proof (cases "h \<in> set hs")
    case True
    have "held_by (\<lambda>c. heightGet c h) P (fetchAll rpc hs (snd (getBlockHeader rpc k c)))"
      by (rule Cons.IH [OF True], rule Cons.prems(2)) simp
    then show ?thesis by (simp add: fetchAll_def)
  next
    case False
    then have k: "k = h" using Cons.prems(1) by simp
    obtain hd where hd: "rpc h = Some hd" "r_Height hd = h" "P (header_main (rpcToHeader hd))" using Cons.prems(2) [of h] k by auto
    then have "held_by (\<lambda>c. heightGet c h) P (snd (getBlockHeader rpc k c))"
      unfolding held_by_def k getBlockHeader_def hd(1) by (simp add: HandleMainHeader_fields) (simp add: rpcToHeader_def)
    then show ?thesis using keep by (simp add: fetchAll_def)
  qed
qed simp

lemma held_by_updateTip: "held_by (\<lambda>c. heightGet c h) P (updateTip c) = held_by (\<lambda>c. heightGet c h) P c"
  by (simp add: held_by_def updateTip_def split: option.split)

lemma storeMinerData_missing:
  assumes "uint128_ok U" "mc_ok c" "unat (y_Height d) + 720 < 2 ^ 64" "storeMinerData U p True now d c = (missing, c1)"
  shows "set missing = {h. 0 < h \<and> h \<le> y_Height d \<and> unat (y_Height d) < unat h + 720 \<and> \<not> held_by (\<lambda>c. heightGet c h) (\<lambda>m. m_Difficulty m \<noteq> ZeroDifficulty) c1}"
proof -
  have ok: "mc_ok c1" using storeMinerData_inv [OF assms(2), of U p True now d] unfolding assms(4) snd_conv .
  obtain c0 where c0: "missing = missingHeights U c0 (y_Height d) (y_Height d)" "c1 = mainCall (UpdateMinerData (d\<lparr>y_TimeReceived := now\<rparr>)) c0"
    using assms(4) by (auto simp: storeMinerData_def Let_def)
  have "headerMissing U c0 h = headerMissing U c1 h" for h by (simp add: c0(2) headerMissing_def mainCall_def split: option.split)
  then show ?thesis using missingHeights_set [OF assms(3) order_refl] headerMissing_iff [OF assms(1) ok] unfolding c0(1) by blast
qed

text \<open>C28: Completeness of the header window.  Once the node has started and the daemon answers for every height up to the new one
with a header of that height and a difficulty above zero, then after HandleMinerData and its downloads every height of the last 720
has a header with a difficulty, in whatever order and however early the downloads end.\<close>

theorem HandleMinerData_completes:
  assumes "uint128_ok U" and "main_reachable c" and "unat (y_Height d) + 720 < 2 ^ 64" and "\<And>hs. set (order hs) = set hs"
    and "\<And>h. 0 < h \<Longrightarrow> h \<le> y_Height d \<Longrightarrow> \<exists>hd. rpc h = Some hd \<and> r_Height hd = h \<and> r_Difficulty hd \<noteq> 0"
    and "HandleMinerData U rpc order early True now d (c, s) = (c', s')"
    and "0 < h" and "h \<le> y_Height d" and "unat (y_Height d) < unat h + 720"
  shows "\<exists>m. GetChainMainByHeight c' h = Some m \<and> m_Difficulty m \<noteq> ZeroDifficulty"
proof -
  let ?P = "\<lambda>m. m_Difficulty m \<noteq> ZeroDifficulty"
  obtain missing c1 where st: "storeMinerData U (sc_precalcFinished s) True now d c = (missing, c1)" by force
  note ms = storeMinerData_missing [OF assms(1) mc_ok_reachable [OF assms(2)] assms(3) st]
  have nz: "DifficultyFrom64 v \<noteq> ZeroDifficulty" if "v \<noteq> 0" for v using that by (simp add: DifficultyFrom64_def NewDifficulty_def ZeroDifficulty_def)
  have ok: "\<exists>hd. rpc k = Some hd \<and> r_Height hd = k \<and> ?P (header_main (rpcToHeader hd))" if "k \<in> set missing" for k
    using assms(5) [of k] that nz unfolding ms by (auto simp: header_main_def rpcToHeader_def)
  let ?a = "take early (order missing)" and ?b = "drop early (order missing)"
  have sub: "set ?a \<subseteq> set missing" "set ?b \<subseteq> set missing" using assms(4) set_take_subset set_drop_subset by metis+
  have all: "set ?a \<union> set ?b = set missing" by (metis append_take_drop_id assms(4) set_append)
  have keep: "held_by (\<lambda>c. heightGet c h) ?P (fetchAll rpc hs x)" if "held_by (\<lambda>c. heightGet c h) ?P x" "set hs \<subseteq> set missing" for hs x
  proof (rule held_by_fetch [OF that(1)])
    fix i hd c assume "i \<in> set hs" "rpc i = Some hd"
    then have "?P (header_main (rpcToHeader hd))" using ok [of i] that(2) by auto
    then show "heightGet (HandleMainHeader (rpcToHeader hd) c) h = heightGet c h \<or>
        heightGet (HandleMainHeader (rpcToHeader hd) c) h = Some (mc_next c) \<and> ?P (header_main (rpcToHeader hd))"
      unfolding HandleMainHeader_fields by simp
  qed
  have got: "held_by (\<lambda>c. heightGet c h) ?P (fetchAll rpc hs x)" if "h \<in> set hs" "set hs \<subseteq> set missing" for hs x
    by (rule fetched_held [OF that(1)], rule ok) (use that(2) in blast)
  have "held_by (\<lambda>c. heightGet c h) ?P c1 \<or> h \<in> set ?a \<or> h \<in> set ?b" using ms all assms(7-9) by blast
  then have "held_by (\<lambda>c. heightGet c h) ?P (fetchAll rpc ?b (updateTip (fetchAll rpc ?a c1)))"
    using keep [OF _ sub(1)] keep [OF _ sub(2)] got [OF _ sub(1)] got [OF _ sub(2)] by (metis held_by_updateTip)
  moreover have "c' = fetchAll rpc ?b (updateTip (fetchAll rpc ?a c1))" using assms(6) st by (simp add: HandleMinerData_def Let_def)
  ultimately show ?thesis by (auto simp: held_by_def GetChainMainByHeight_def)
qed

text \<open>A daemon that knows every header.\<close>

definition example_rpc :: "u64 \<Rightarrow> rpcHeader option" where
  "example_rpc h = Some \<lparr>r_MajorVersion = 16, r_MinorVersion = 16, r_Timestamp = h, r_PrevHash = [], r_Height = h, r_Nonce = 0, r_Reward = 1,
     r_Hash = [], r_Difficulty = 9\<rparr>"

theorem HandleMinerData_completes_witness:
  "\<exists>m. GetChainMainByHeight (fst (HandleMinerData uint128_ref example_rpc rev 3 True 7 example_miner_data (NewMainChain, ext_state))) 990 = Some m \<and>
    m_Difficulty m \<noteq> ZeroDifficulty"
proof -
  have d: "y_Height example_miner_data = 1000" by (simp add: example_miner_data_def)
  show ?thesis
    by (rule HandleMinerData_completes [OF uint128_ref_ok main_reachable.start _ _ _ prod.collapse [symmetric]]) (simp_all add: d example_rpc_def)
qed

section \<open>Seeds\<close>

lemma keptSeeds_cover:
  assumes "h \<le> H" and "unat H \<le> unat h + 4096"
  shows "SeedHeight h \<in> set (keptSeeds H)"
proof -
  let ?q = "unat (SeedHeight H)" and ?p = "unat (SeedHeight h)"
  have H: "unat h \<le> unat H" using assms(1) by (simp add: word_le_nat_alt)
  have "?p = ?q \<or> ?p + 2048 = ?q \<or> ?p + 4096 = ?q"
  proof (cases "unat h \<le> 2112")
    case True
    then have "unat H - 65 < 3 * 2048" using assms(2) by simp
    then have "(unat H - 65) div 2048 < 3" by (simp add: less_mult_imp_div_less)
    then have "(unat H - 65) div 2048 \<in> {0, 1, 2}" by auto
    then show ?thesis using True by (auto simp: SeedHeight_nat)
  next
    case False
    define a b where "a = (unat h - 65) div 2048" and "b = (unat H - 65) div 2048"
    have "a \<le> b" unfolding a_def b_def using H by (intro div_le_mono) simp
    moreover have "b \<le> a + 2"
    proof -
      have "b \<le> (unat h - 65 + 2 * 2048) div 2048" unfolding b_def using assms(2) False by (intro div_le_mono) simp
      also have "\<dots> = a + 2" by (simp add: a_def)
      finally show ?thesis .
    qed
    ultimately have "b = a \<or> b = a + 1 \<or> b = a + 2" by auto
    then show ?thesis using False H by (auto simp: SeedHeight_nat simp flip: a_def b_def)
  qed
  then have "SeedHeight h = SeedHeight H \<or> SeedHeight h = SeedHeight H - 2048 \<or> SeedHeight h = SeedHeight H - 4096"
    by (auto simp: word_unat_eq_iff unat_sub_if')
  then show ?thesis by (auto simp: keptSeeds_def Let_def SeedHashEpochBlocks_def)
qed

text \<open>Pruning of headers.  cleanup keeps every header of the last 720 heights and the RandomX seed header of every height from 4096 below up to
the given one, so seeds needed to verify recent shares stay known; headers that are older and no such seed are gone.\<close>

lemma cleanup_keeps_seeds:
  assumes "unat H + 720 < 2 ^ 64"
  shows "(\<forall>h. h \<le> H \<and> unat H \<le> unat h + 720 \<longrightarrow> GetChainMainByHeight (cleanup H c) h = GetChainMainByHeight c h) \<and>
    (\<forall>h. h \<le> H \<and> unat H \<le> unat h + 4096 \<longrightarrow> GetChainMainByHeight (cleanup H c) (SeedHeight h) = GetChainMainByHeight c (SeedHeight h)) \<and>
    (\<forall>h. unat h + 720 < unat H \<and> h \<notin> {SeedHeight H, SeedHeight H - 2048, SeedHeight H - 4096} \<longrightarrow> GetChainMainByHeight (cleanup H c) h = None)"
proof -
  have w: "unat (h + 720) = unat h + 720" if "h \<le> H" for h using that assms by (simp add: unat_word_ariths word_le_nat_alt)
  have "\<not> gone H h" if "h \<le> H" "unat H \<le> unat h + 720" for h
    using that w [of h] by (simp add: gone_def BlockHeadersRequired_def word_le_nat_alt)
  moreover have "\<not> gone H (SeedHeight h)" if "h \<le> H" "unat H \<le> unat h + 4096" for h using keptSeeds_cover [OF that] by (simp add: gone_def)
  moreover have "gone H h" if "unat h + 720 < unat H" "h \<notin> {SeedHeight H, SeedHeight H - 2048, SeedHeight H - 4096}" for h
    using that w [of h] by (auto simp: gone_def BlockHeadersRequired_def word_le_nat_alt keptSeeds_def Let_def SeedHashEpochBlocks_def)
  ultimately show ?thesis by (auto simp: GetChainMainByHeight_def cleanup_heights)
qed

section \<open>Reorganisations\<close>

text \<open>An error of the code.  When the daemon replaces the block below the new height by another one, HandleMinerData writes the new id into
the header that is still filed under the old id: a lookup of the old id afterwards returns a header that carries the new id.\<close>

lemma HandleMinerData_stale:
  assumes "main_reachable c" and "0 < y_Height d" and "unat (y_Height d) + 720 < 2 ^ 64"
    and "hashGet c old = Some r" and "heightGet c (y_Height d - 1) = Some r" and "old \<noteq> y_PrevId d"
    and "\<And>h m. GetChainMainByHeight c h = Some m \<Longrightarrow> m_Id m = old \<Longrightarrow> h = y_Height d - 1"
  shows "\<exists>m. GetChainMainByHash (fst (HandleMinerData U (\<lambda>_. None) order early started now d (c, s))) old = Some m \<and> m_Id m = y_PrevId d"
proof -
  let ?H = "y_Height d" and ?c1 = "storeCurrent d c"
  let ?c2 = "storePrev d ?c1"
  note ok = mc_ok_reachable [OF assms(1)]
  have ok1: "mc_ok ?c1" by (rule storeCurrent_inv [OF ok])
  have ok2: "mc_ok ?c2" by (rule storePrev_inv [OF ok1])
  have r: "r < mc_next c" using ok assms(5) unfolding mc_ok_def by blast
  have r1: "heightGet ?c1 (?H - 1) = Some r" using assms(5) by (simp add: storeCurrent_facts)
  have o1: "hashGet ?c1 old = Some r" using assms(4) by (simp add: storeCurrent_def main_update_defs split: option.split)
  have o2: "hashGet ?c2 old = Some r" "m_Id (mc_heap ?c2 r) = y_PrevId d"
    using r1 o1 assms(6) by (simp_all add: storePrev_def main_update_defs update_conv')
  have "m_Id (mc_heap ?c2 x) \<noteq> old" if h: "heightGet ?c2 h = Some x" "gone ?H h" for h x
  proof -
    have ne: "h \<noteq> ?H" "h \<noteq> ?H - 1" using h(2) not_gone_recent [OF assms(2,3)] by auto
    then have h1: "heightGet ?c1 h = Some x" using storePrev_facts(1) h(1) by simp
    then have c: "heightGet c h = Some x" using ne by (simp add: storeCurrent_facts)
    then have x: "x < mc_next c" "x < mc_next ?c1" "m_Height (mc_heap ?c1 x) = h" using h1 ok ok1 unfolding mc_ok_def by blast+
    have "heightGet ?c1 (?H - 1) \<noteq> Some x" using x(3) ne(2) ok1 unfolding mc_ok_def by blast
    then have "m_Id (mc_heap ?c2 x) = m_Id (mc_heap c x)" using storePrev_facts(2) [OF x(2)] storeCurrent_facts(2) [OF x(1)] by simp
    then show ?thesis using assms(7) [of h "mc_heap c x"] c ne(2) by (auto simp: GetChainMainByHeight_def)
  qed
  then have o3: "hashGet (cleanup ?H ?c2) old = Some r" using cleanup_hashes [OF ok2] o2(1) by auto
  have none: "fetchAll (\<lambda>_. None) hs x = x" for hs x by (simp add: fetchAll_def getBlockHeader_def fold_invariant [where P = "\<lambda>y. y = x" and Q = "\<lambda>_. True"])
  have tip: "mc_byHash (updateTip x) = mc_byHash x" "mc_heap (updateTip x) = mc_heap x" for x by (simp_all add: updateTip_def split: option.split)
  show ?thesis using o2(2) o3 by (simp add: HandleMinerData_def storeMinerData_def Let_def none GetChainMainByHash_def tip mainCall_def)
qed

text \<open>Header 999 with id 4 has been replaced by one with id 5.\<close>

definition example_header :: Header where
  "example_header = \<lparr>h_MajorVersion = 16, h_MinorVersion = 16, h_Nonce = 1, h_Timestamp = 2, h_PreviousId = 3, h_Height = 999,
     h_Reward = 5, h_Difficulty = Difficulty 6 0, h_Id = 4\<rparr>"

section \<open>Blocks that the pool found\<close>

lemma watch_good: "good E S s \<Longrightarrow> good E S (WatchMainChainBlock s m i)"
  unfolding WatchMainChainBlock_def good_def chain_inv_def index_inv_def cache_inv_def refs_in_def tip_inv_def linked_def getPoolBlocksByHeight_def blk_def
  by simp

text \<open>Shares added one after the other.\<close>

primrec addShares :: "env \<Rightarrow> SideChain \<Rightarrow> ref list \<Rightarrow> SideChain run" where
  "addShares E s [] = retO s"
| "addShares E s (x # xs) = bindO (AddPoolBlock E s x) (\<lambda>(_, s). addShares E s xs)"

text \<open>What waits for a share with the watched id.\<close>

definition waits :: "env \<Rightarrow> ref set \<Rightarrow> mainRef \<Rightarrow> hash \<Rightarrow> SideChain \<Rightarrow> bool" where
  "waits E S m i s \<longleftrightarrow> good E S s \<and> sc_watchBlock s = Some m \<and> sc_watchId s = i \<and> sc_byId s i = None"

lemma AddPoolBlock_waits:
  assumes "waits E S m i s" "x \<in> S" "sd_Height (pb_Side (blk s x)) \<noteq> - 1" "templateIdOf E (blk s x) \<noteq> i"
    and "AddPoolBlock E s x = retO (err, s')"
  shows "waits E S m i s' \<and> (\<forall>y. keeps E (blk s y) (blk s' y))"
proof (cases "s' = s")
  case False
  have g: "good E S s" and w: "sc_watchBlock s = Some m" "sc_watchId s = i" "sc_byId s i = None" using assms(1) by (simp_all add: waits_def)
  from False assms(5) have new: "sc_byId s (templateIdOf E (blk s x)) = None" by (auto simp: AddPoolBlock_def split: if_splits)
  with False assms(5) obtain bytes where e: "PoolBlock_AppendBinaryFlags (blk s x) [] False False = Inr bytes"
    by (cases "PoolBlock_AppendBinaryFlags (blk s x) [] False False") (auto simp: AddPoolBlock_def)
  have ev: "evolves E S (indexBlock E s x) s'"
    using AddPoolBlock_new [OF g assms(2) new assms(3) e] assms(5) by (simp add: ends_in_def)
  have gi: "good E S (indexBlock E s x)" by (rule indexBlock_good [OF g assms(2) new assms(3)])
  have "sc_byId s' i = None" using evolves_parts(3) [OF ev gi, of i] w(3) assms(4) by (auto simp: indexBlock_fields)
  moreover have "\<not> watched E s x" using assms(4) w(2) by (simp add: watched_def)
  ultimately show ?thesis
    using evolves_good [OF gi ev] evolves_parts(2,5,6) [OF ev gi] w by (simp add: waits_def indexBlock_fields)
qed (use assms(1) in simp)

lemma addShares_waits:
  "addShares E s xs = retO s' \<Longrightarrow> waits E S m i s \<Longrightarrow>
    \<forall>x \<in> set xs. x \<in> S \<and> sd_Height (pb_Side (blk s x)) \<noteq> - 1 \<and> templateIdOf E (blk s x) \<noteq> i \<Longrightarrow>
    waits E S m i s' \<and> (\<forall>y. keeps E (blk s y) (blk s' y))"
proof (induction xs arbitrary: s)
  case (Cons x xs)
  then obtain err s1 where s1: "AddPoolBlock E s x = retO (err, s1)" "addShares E s1 xs = retO s'"
    by (auto simp: bindO_Inr_iff)
  have w: "waits E S m i s1 \<and> (\<forall>y. keeps E (blk s y) (blk s1 y))"
    using AddPoolBlock_waits [OF Cons.prems(2) _ _ _ s1(1)] Cons.prems(3) by auto
  moreover have "\<forall>y \<in> set xs. y \<in> S \<and> sd_Height (pb_Side (blk s1 y)) \<noteq> - 1 \<and> templateIdOf E (blk s1 y) \<noteq> i"
    using w Cons.prems(3) by (auto simp: keeps_def)
  ultimately have "waits E S m i s' \<and> (\<forall>y. keeps E (blk s1 y) (blk s' y))" using Cons.IH [OF s1(2)] by blast
  then show ?case using w keeps_trans by blast
qed auto

lemma AddPoolBlock_watched:
  assumes "waits E S m (templateIdOf E (blk s r)) s" "r \<in> S" "sd_Height (pb_Side (blk s r)) \<noteq> - 1"
    and "PoolBlock_AppendBinaryFlags (blk s r) [] False False = Inr bytes"
  shows "\<exists>res. AddPoolBlock E s r = Some res \<and>
    (\<forall>err s'. res = Inr (err, s') \<longrightarrow> UpdateBlockFound (Some m) r \<in> set (sc_calls s') \<and> sc_watchId s' = ZeroHash)"
proof -
  have g: "good E S s" and w: "sc_watchBlock s = Some m" "watched E s r" "sc_byId s (templateIdOf E (blk s r)) = None"
    using assms(1) by (simp_all add: waits_def watched_def)
  obtain res where res: "AddPoolBlock E s r = Some res" "\<And>err s'. res = Inr (err, s') \<Longrightarrow> evolves E S (indexBlock E s r) s'"
    using AddPoolBlock_new [OF g assms(2) w(3) assms(3,4)] by (auto simp: ends_in_def)
  note p = evolves_parts(4,5) [OF res(2) indexBlock_good [OF g assms(2) w(3) assms(3)]]
  have "UpdateBlockFound (Some m) r \<in> set (sc_calls (indexBlock E s r))" "sc_watchId (indexBlock E s r) = ZeroHash"
    using w(1,2) by (simp_all add: indexBlock_fields)
  then show ?thesis using res(1) p by fastforce
qed

lemma storeMainBlock_fields:
  "mc_calls (storeMainBlock r c) = mc_calls c" "m_Id (mc_heap (storeMainBlock r c) r) = m_Id (mc_heap c r)"
  "m_Height (mc_heap (storeMainBlock r c) r) = m_Height (mc_heap c r)"
  by (simp_all add: storeMainBlock_def Let_def main_update_defs split: option.split)

lemma updateTip_fields: "mc_calls (updateTip c) = mc_calls c" "mc_heap (updateTip c) = mc_heap c"
  by (simp_all add: updateTip_def split: option.split)

text \<open>C27: Blocks found by the pool are announced in either order.  Let a main-chain block carry in its merge mining tag the template id of a share.
HandleMainBlock keeps a new header with the id and the height of the block.  If the side chain has the share, that header is announced with it, once.  If it does
not, the side chain watches for the share: when other shares, any number of them with other ids, have been added and then the share itself, and no call has
panicked, the server is told of the header and the share, and the watch is over.  The watch has one slot and keeps a pointer: a further main-chain block
with the tag of a missing share takes its place, and later miner data may change the id in the header; neither is between the two calls here.\<close>

theorem found_block_announced:
  assumes "Block_Id K b = Inr i" and "GetTag (c_Extra (b_Coinbase b)) TxExtraTagMergeMining = Some t" and "length (t_Data t) = 32"
    and "HashFromBytes (t_Data t) = templateIdOf E (blk s r)" and "good E S s" and "r \<in> S" and "sd_Height (pb_Side (blk s r)) \<noteq> - 1"
  shows "\<exists>c' s' m. HandleMainBlock K b (c, s) = Inr (c', s') \<and> m_Id (mc_heap c' m) = i \<and> m_Height (mc_heap c' m) = c_GenHeight (b_Coinbase b) \<and>
    (case sc_byId s (templateIdOf E (blk s r)) of
       Some x \<Rightarrow> mc_calls c' = mc_calls c @ [MainBlockFound (mc_heap c' m) x]
     | None \<Rightarrow> \<forall>xs s1 bytes. addShares E s' xs = retO s1 \<longrightarrow>
         (\<forall>x \<in> set xs. x \<in> S \<and> sd_Height (pb_Side (blk s x)) \<noteq> - 1 \<and> templateIdOf E (blk s x) \<noteq> templateIdOf E (blk s r)) \<longrightarrow>
         PoolBlock_AppendBinaryFlags (blk s1 r) [] False False = Inr bytes \<longrightarrow>
         (\<exists>res. AddPoolBlock E s1 r = Some res \<and>
           (\<forall>err s2. res = Inr (err, s2) \<longrightarrow> UpdateBlockFound (Some m) r \<in> set (sc_calls s2) \<and> sc_watchId s2 = ZeroHash)))"
proof -
  let ?d = "\<lparr>m_Difficulty = ZeroDifficulty, m_Height = c_GenHeight (b_Coinbase b), m_Timestamp = b_Timestamp b, m_Reward = c_TotalReward (b_Coinbase b), m_Id = i\<rparr>"
  let ?m = "mc_next c" and ?i = "templateIdOf E (blk s r)"
  define c1 where "c1 = storeMainBlock ?m (newMain ?d c)"
  have m: "m_Id (mc_heap c1 ?m) = i" "m_Height (mc_heap c1 ?m) = c_GenHeight (b_Coinbase b)" "mc_calls c1 = mc_calls c"
    by (simp_all add: c1_def storeMainBlock_fields newMain_def)
  have run: "HandleMainBlock K b (c, s) = Inr (reportMainBlock b ?m c1 s)" using assms(1) by (simp add: HandleMainBlock_def c1_def Let_def)
  show ?thesis
  proof (cases "sc_byId s ?i")
    case (Some x)
    then have "reportMainBlock b ?m c1 s = (updateTip (mainCall (MainBlockFound (mc_heap c1 ?m) x) c1), s)" using assms(2,3,4) by (simp add: reportMainBlock_def)
    then show ?thesis using m run Some
      by (intro exI [of _ "updateTip (mainCall (MainBlockFound (mc_heap c1 ?m) x) c1)"] exI [of _ s] exI [of _ ?m]) (simp add: updateTip_fields mainCall_def)
  next
    case None
    let ?s = "WatchMainChainBlock s (Some ?m) ?i"
    have rep: "reportMainBlock b ?m c1 s = (updateTip c1, ?s)" using assms(2,3,4) None by (simp add: reportMainBlock_def)
    have b: "blk ?s x = blk s x" for x by (simp add: WatchMainChainBlock_def blk_def)
    have w: "waits E S ?m ?i ?s" using watch_good [OF assms(5)] None by (simp add: waits_def WatchMainChainBlock_def)
    have "\<exists>res. AddPoolBlock E s1 r = Some res \<and>
        (\<forall>err s2. res = Inr (err, s2) \<longrightarrow> UpdateBlockFound (Some ?m) r \<in> set (sc_calls s2) \<and> sc_watchId s2 = ZeroHash)"
      if a: "addShares E ?s xs = retO s1" "\<forall>x \<in> set xs. x \<in> S \<and> sd_Height (pb_Side (blk s x)) \<noteq> - 1 \<and> templateIdOf E (blk s x) \<noteq> ?i"
        and e: "PoolBlock_AppendBinaryFlags (blk s1 r) [] False False = Inr bytes" for xs s1 bytes
    proof -
      have w1: "waits E S ?m ?i s1" "keeps E (blk s r) (blk s1 r)" using addShares_waits [OF a(1) w] a(2) b by auto
      then have "waits E S ?m (templateIdOf E (blk s1 r)) s1" "sd_Height (pb_Side (blk s1 r)) \<noteq> - 1" using assms(7) by (simp_all add: keeps_def)
      then show ?thesis by (rule AddPoolBlock_watched [OF _ assms(6) _ e])
    qed
    then show ?thesis using m run rep None
      by (intro exI [of _ "updateTip c1"] exI [of _ ?s] exI [of _ ?m]) (simp add: updateTip_fields)
  qed
qed

text \<open>The side chain has no share yet when the block arrives, and the share is added next; and the block arrives when the share is there.\<close>

theorem found_block_announced_witness:
  "\<exists>c' s' m err s2. HandleMainBlock (\<lambda>_. 7) (example_block\<lparr>b_Transactions := []\<rparr>) (NewMainChain, ext_submitted None ZeroHash) = Inr (c', s') \<and>
     m_Id (mc_heap c' m) = 7 \<and> AddPoolBlock ext_env s' 0 = retO (err, s2) \<and> UpdateBlockFound (Some m) 0 \<in> set (sc_calls s2) \<and>
     (\<exists>c3 s3. HandleMainBlock (\<lambda>_. 7) (example_block\<lparr>b_Transactions := []\<rparr>) (NewMainChain, ext_indexed None ZeroHash) = Inr (c3, s3) \<and>
       (\<exists>h. m_Id h = 7 \<and> MainBlockFound h 0 \<in> set (mc_calls c3)))"
proof -
  let ?b = "example_block\<lparr>b_Transactions := []\<rparr>" and ?i = "le_word (replicate 32 9) :: hash"
  obtain bytes where e: "PoolBlock_AppendBinaryFlags ext_share [] False False = Inr bytes" using ext_encodes by blast
  have t: "GetTag (c_Extra (b_Coinbase ?b)) TxExtraTagMergeMining = Some \<lparr>t_VarInt = 32, t_Tag = 3, t_HasVarInt = True, t_Data = replicate 32 9\<rparr>"
    by (simp add: example_block_def example_coinbase_def example_tags_def GetTag_def extra_consts)
  have i: "Block_Id (\<lambda>_. 7) ?b = Inr 7" by (simp add: Block_Id_def HashingBlob_def RootHash_def Let_def)
  have g: "good ext_env {0} (ext_submitted None ZeroHash)" unfolding ext_submitted_none by (rule evolves_good [OF ext_good evolves_call])
  then have gi: "good ext_env {0} (ext_indexed None ZeroHash)"
    unfolding ext_indexed_def by (rule indexBlock_good) (simp_all add: ext_submitted_simps ext_share_simps)
  have "HandleMainBlock (\<lambda>_. 7) ?b (NewMainChain, ext_submitted None ZeroHash) =
      Inr (updateTip (storeMainBlock 0 (newMain \<lparr>m_Difficulty = ZeroDifficulty, m_Height = c_GenHeight (b_Coinbase ?b), m_Timestamp = b_Timestamp ?b,
        m_Reward = c_TotalReward (b_Coinbase ?b), m_Id = 7\<rparr> NewMainChain)), ext_submitted (Some 0) ?i)" (is "_ = Inr (?c, ?s)")
    using i t by (simp add: HandleMainBlock_def reportMainBlock_def ext_submitted_simps HashFromBytes_def Let_def)
      (simp add: NewMainChain_def ext_submitted_def WatchMainChainBlock_def)
  moreover obtain err s2 where a: "AddPoolBlock ext_env (ext_submitted (Some 0) ?i) 0 = retO (err, s2)" using ext_added by blast
  moreover have "addShares ext_env (ext_submitted (Some 0) ?i) [] = retO (ext_submitted (Some 0) ?i)" by simp
  ultimately have "\<exists>m. m_Id (mc_heap ?c m) = 7 \<and> UpdateBlockFound (Some m) 0 \<in> set (sc_calls s2)"
    using found_block_announced [OF i t, of ext_env "ext_submitted None ZeroHash" 0 "{0}" NewMainChain] e g
    by (force simp: ext_submitted_simps ext_share_simps HashFromBytes_def simp del: addShares.simps)
  moreover have "\<exists>c3 s3 m. HandleMainBlock (\<lambda>_. 7) ?b (NewMainChain, ext_indexed None ZeroHash) = Inr (c3, s3) \<and>
      m_Id (mc_heap c3 m) = 7 \<and> mc_calls c3 = mc_calls NewMainChain @ [MainBlockFound (mc_heap c3 m) 0]"
    using found_block_announced [OF i t, of ext_env "ext_indexed None ZeroHash" 0 "{0}" NewMainChain] gi
    by (auto simp: ext_indexed_simps ext_share_simps HashFromBytes_def)
  then have "\<exists>c3 s3. HandleMainBlock (\<lambda>_. 7) ?b (NewMainChain, ext_indexed None ZeroHash) = Inr (c3, s3) \<and>
       (\<exists>h. m_Id h = 7 \<and> MainBlockFound h 0 \<in> set (mc_calls c3))" by fastforce
  ultimately show ?thesis using \<open>HandleMainBlock _ _ (NewMainChain, ext_submitted None ZeroHash) = _\<close> a by blast
qed

end
