(* ===== verification/Events.thy ===== *)
theory Events
  imports Mainchain
begin

text \<open>
  monero/client/zmq: messages from the daemon, and \<^verbatim>\<open>Listen\<close> of p2pool/mainchain/mainchain.go, which turns them into events of the main
  chain.  Decoding of JSON is the parameter \<open>json\<close>; signed fields are the 64-bit words that hold them.
\<close>

datatype Topic = TopicUnknown | TopicMinimalTxPoolAdd | TopicFullTxPoolAdd | TopicMinimalChainMain | TopicFullChainMain | TopicFullMinerData

record zmqOutput =
  zo_Amount :: u64
  zo_ToKey :: "hash option"
  zo_ToTaggedKey :: "(hash \<times> byte list) option"

record FullChainMain =
  fc_MajorVersion :: u64
  fc_MinorVersion :: u64
  fc_Timestamp :: u64
  fc_PrevID :: hash
  fc_Nonce :: u64
  fc_TxVersion :: u64
  fc_UnlockTime :: u64
  fc_Inputs :: "u64 list"
  fc_Outputs :: "zmqOutput list"
  fc_Extra :: "byte list"
  fc_TxHashes :: "hash list"

text \<open>\<^verbatim>\<open>FullMinerData\<close> has the fields of \<open>MinerData\<close> but the time; pool entries have those of \<open>MempoolEntry\<close>.\<close>

record json_pkg =
  js_FullChainMain :: "byte list \<Rightarrow> FullChainMain option list result"
  js_FullTxPoolAdd :: "byte list \<Rightarrow> unit result"
  js_FullMinerData :: "byte list \<Rightarrow> MinerData result"
  js_MinimalChainMain :: "byte list \<Rightarrow> unit result"
  js_MinimalTxPoolAdd :: "byte list \<Rightarrow> MempoolEntry list result"

section \<open>Frames\<close>

definition ascii :: "string \<Rightarrow> byte list" where
  "ascii s = map (\<lambda>c. of_nat (of_char c)) s"

fun Topic_text :: "Topic \<Rightarrow> byte list" where
  "Topic_text TopicUnknown = ascii ''unknown''"
| "Topic_text TopicMinimalTxPoolAdd = ascii ''json-minimal-txpool_add''"
| "Topic_text TopicFullTxPoolAdd = ascii ''json-full-txpool_add''"
| "Topic_text TopicMinimalChainMain = ascii ''json-minimal-chain_main''"
| "Topic_text TopicFullChainMain = ascii ''json-full-chain_main''"
| "Topic_text TopicFullMinerData = ascii ''json-full-miner_data''"

definition colon :: byte where "colon = 58"

text \<open>\<^verbatim>\<open>bytes.SplitN\<close> with two parts: the bytes before and after the first separator, if there is one.\<close>

definition splitColon :: "byte list \<Rightarrow> (byte list \<times> byte list) option" where
  "splitColon frame = (case dropWhile (\<lambda>b. b \<noteq> colon) frame of [] \<Rightarrow> None | _ # rest \<Rightarrow> Some (takeWhile (\<lambda>b. b \<noteq> colon) frame, rest))"

definition jsonFromFrame :: "byte list \<Rightarrow> (Topic \<times> byte list) result" where
  "jsonFromFrame frame =
    (case splitColon frame of
       None \<Rightarrow> Inl (Err ''malformed: expected 2 parts'')
     | Some (topic, gson) \<Rightarrow>
         if topic = Topic_text TopicMinimalChainMain then Inr (TopicMinimalChainMain, gson)
         else if topic = Topic_text TopicFullChainMain then Inr (TopicFullChainMain, gson)
         else if topic = Topic_text TopicFullMinerData then Inr (TopicFullMinerData, gson)
         else if topic = Topic_text TopicFullTxPoolAdd then Inr (TopicFullTxPoolAdd, gson)
         else if topic = Topic_text TopicMinimalTxPoolAdd then Inr (TopicMinimalTxPoolAdd, gson)
         else Inl (Err ''unknown topic''))"

section \<open>Blocks\<close>

text \<open>\<^verbatim>\<open>hex.DecodeString\<close> with its error dropped: the bytes decoded before the error.\<close>

fun hexDecodePrefix :: "byte list \<Rightarrow> byte list" where
  "hexDecodePrefix (p # q # r) =
    (case (hexVal p, hexVal q) of (Some a, Some b) \<Rightarrow> ((push_bit 4 a) OR b) # hexDecodePrefix r | _ \<Rightarrow> [])"
| "hexDecodePrefix _ = []"

text \<open>The loop over outputs: the outputs up to the first one with neither kind of key, and their total.\<close>

fun zmqOutputs :: "nat \<Rightarrow> zmqOutput list \<Rightarrow> (Output list \<times> u64) \<Rightarrow> (Output list \<times> u64) result" where
  "zmqOutputs i [] acc = Inr acc"
| "zmqOutputs i (z # zs) (outputs, totalReward) =
    (case zo_ToKey z of
       Some key \<Rightarrow> zmqOutputs (i + 1) zs
         (outputs @ [\<lparr>o_Index = of_nat i, o_Reward = zo_Amount z, o_EphemeralPublicKey = key, o_Type = TxOutToKey, o_ViewTag = 0\<rparr>], totalReward + zo_Amount z)
     | None \<Rightarrow> (case zo_ToTaggedKey z of
           Some (key, tag) \<Rightarrow> bindR (nth_go (hexDecodePrefix tag) 0) (\<lambda>tk. zmqOutputs (i + 1) zs
             (outputs @ [\<lparr>o_Index = of_nat i, o_Reward = zo_Amount z, o_EphemeralPublicKey = key, o_Type = TxOutToTaggedKey, o_ViewTag = tk\<rparr>], totalReward + zo_Amount z))
         | None \<Rightarrow> Inr (outputs, totalReward)))"

text \<open>A failed decoding of the extra field leaves no tags; a panic inside it ends the handler.\<close>

definition zmqExtra :: "byte list \<Rightarrow> ExtraTag list result" where
  "zmqExtra extra = (case fst (ExtraTags_FromReader [] (BytesReader (hexDecodePrefix extra))) of
      Inr tags \<Rightarrow> Inr tags
    | Inl (Panic p) \<Rightarrow> Inl (Panic p)
    | Inl _ \<Rightarrow> Inr [])"

text \<open>The block that the handler builds; \<open>None\<close> where it returns without one.\<close>

definition zmqBlock :: "FullChainMain \<Rightarrow> Block option result" where
  "zmqBlock m =
    (if fc_Inputs m = [] then Inr None
     else bindR (zmqOutputs 0 (fc_Outputs m) ([], 0)) (\<lambda>(outputs, totalReward).
       if length outputs \<noteq> length (fc_Outputs m) then Inr None
       else bindR (zmqExtra (fc_Extra m)) (\<lambda>extraTags. Inr (Some
         \<lparr>b_MajorVersion = ucast (fc_MajorVersion m), b_MinorVersion = ucast (fc_MinorVersion m), b_Nonce = ucast (fc_Nonce m),
          b_Timestamp = fc_Timestamp m, b_PreviousId = fc_PrevID m,
          b_Coinbase = \<lparr>c_Version = ucast (fc_TxVersion m), c_InputCount = of_nat (length (fc_Inputs m)), c_InputType = TxInGen,
            c_UnlockTime = fc_UnlockTime m, c_GenHeight = hd (fc_Inputs m), c_Outputs = outputs, c_OutputsBlobSize = 0,
            c_TotalReward = totalReward, c_Extra = extraTags, c_ExtraBaseRCT = 0\<rparr>,
          b_Transactions = fc_TxHashes m, b_TransactionParentIndices = []\<rparr>))))"

definition onFullChainMain :: "(byte list \<Rightarrow> hash) \<Rightarrow> FullChainMain option \<Rightarrow> MainChain \<times> SideChain \<Rightarrow> (MainChain \<times> SideChain) result" where
  "onFullChainMain K m cs = (case m of
      None \<Rightarrow> Inl (Panic ''nil pointer dereference'')
    | Some m \<Rightarrow> bindR (zmqBlock m) (\<lambda>b. case b of None \<Rightarrow> Inr cs | Some b \<Rightarrow> HandleMainBlock K b cs))"

fun onFullChainMains :: "(byte list \<Rightarrow> hash) \<Rightarrow> FullChainMain option list \<Rightarrow> MainChain \<times> SideChain \<Rightarrow> (MainChain \<times> SideChain) result" where
  "onFullChainMains K [] cs = Inr cs"
| "onFullChainMains K (m # ms) cs = bindR (onFullChainMain K m cs) (onFullChainMains K ms)"

section \<open>Dispatch\<close>

text \<open>What the handlers need: keccak, and for miner data the daemon's headers, the course of the downloads and the clock.\<close>

record event_env =
  ee_K :: "byte list \<Rightarrow> hash"
  ee_U :: uint128_pkg
  ee_rpc :: "u64 \<Rightarrow> rpcHeader option"
  ee_order :: "u64 list \<Rightarrow> u64 list"
  ee_early :: nat
  ee_started :: bool
  ee_now :: u64

definition onFullMinerData :: "event_env \<Rightarrow> MinerData \<Rightarrow> MainChain \<times> SideChain \<Rightarrow> MainChain \<times> SideChain" where
  "onFullMinerData V d cs = HandleMinerData (ee_U V) (ee_rpc V) (ee_order V) (ee_early V) (ee_started V) (ee_now V) (d\<lparr>y_TimeReceived := ee_now V\<rparr>) cs"

definition onMinimalTxPoolAdd :: "MempoolEntry list \<Rightarrow> MainChain \<times> SideChain \<Rightarrow> MainChain \<times> SideChain" where
  "onMinimalTxPoolAdd txs cs = (mainCall (UpdateMempoolData txs) (fst cs), snd cs)"

definition ingestFrameArray :: "event_env \<Rightarrow> json_pkg \<Rightarrow> Topic list \<Rightarrow> byte list \<Rightarrow> MainChain \<times> SideChain \<Rightarrow> (MainChain \<times> SideChain) result" where
  "ingestFrameArray V json topics frame cs =
    bindR (jsonFromFrame frame) (\<lambda>(topic, gson).
    if topic \<notin> set topics then Inl (Err ''topic doesn't match'')
    else case topic of
      TopicFullChainMain \<Rightarrow> bindR (js_FullChainMain json gson) (\<lambda>arr. onFullChainMains (ee_K V) arr cs)
    | TopicFullTxPoolAdd \<Rightarrow> bindR (js_FullTxPoolAdd json gson) (\<lambda>_. Inr cs)
    | TopicFullMinerData \<Rightarrow> bindR (js_FullMinerData json gson) (\<lambda>d. Inr (onFullMinerData V d cs))
    | TopicMinimalChainMain \<Rightarrow> bindR (js_MinimalChainMain json gson) (\<lambda>_. Inr cs)
    | TopicMinimalTxPoolAdd \<Rightarrow> bindR (js_MinimalTxPoolAdd json gson) (\<lambda>txs. Inr (onMinimalTxPoolAdd txs cs))
    | TopicUnknown \<Rightarrow> Inl (Err ''unhandled topic''))"

section \<open>Reading back a block\<close>

text \<open>The message that describes a block, as the daemon publishes it.\<close>

definition describe_output :: "Output \<Rightarrow> zmqOutput" where
  "describe_output o' = \<lparr>zo_Amount = o_Reward o', zo_ToKey = (if o_Type o' = TxOutToKey then Some (o_EphemeralPublicKey o') else None),
     zo_ToTaggedKey = (if o_Type o' = TxOutToKey then None else Some (o_EphemeralPublicKey o', hexEncode [o_ViewTag o']))\<rparr>"

definition describe_block :: "Block \<Rightarrow> FullChainMain" where
  "describe_block b = (let c = b_Coinbase b in
     \<lparr>fc_MajorVersion = ucast (b_MajorVersion b), fc_MinorVersion = ucast (b_MinorVersion b), fc_Timestamp = b_Timestamp b, fc_PrevID = b_PreviousId b,
      fc_Nonce = ucast (b_Nonce b), fc_TxVersion = ucast (c_Version c), fc_UnlockTime = c_UnlockTime c, fc_Inputs = [c_GenHeight c],
      fc_Outputs = map describe_output (c_Outputs c), fc_Extra = hexEncode (ExtraTags_AppendBinary (c_Extra c) []), fc_TxHashes = b_Transactions b\<rparr>)"

lemma hexDecodePrefix_Inr: "hexDecode s = Inr bs \<Longrightarrow> hexDecodePrefix s = bs"
  by (induction s arbitrary: bs rule: hexDecode.induct) (auto simp: bindR_Inr_iff split: option.splits if_splits)

lemma hexDecodePrefix_hexEncode [simp]: "hexDecodePrefix (hexEncode bs) = bs"
  by (rule hexDecodePrefix_Inr) simp

lemma zmqOutputs_step:
  assumes "output_ok n o'"
  shows "zmqOutputs n (describe_output o' # zs) (acc, tot) = zmqOutputs (n + 1) zs (acc @ [o'], tot + o_Reward o')"
proof (cases o')
  case (fields i r k ty tag)
  then show ?thesis using assms by (auto simp: describe_output_def output_ok_def tx_consts nth_go_def)
qed

lemma zmqOutputs_describe:
  assumes "\<forall>i < length os. output_ok (n + i) (os ! i)"
  shows "zmqOutputs n (map describe_output os) (acc, tot) = Inr (acc @ os, tot + sum_list (map o_Reward os))"
  using assms
proof (induction os arbitrary: n acc tot)
  case (Cons o' os)
  have o: "output_ok n o'" using Cons.prems by force
  have "\<forall>i < length os. output_ok (n + 1 + i) (os ! i)" using Cons.prems by force
  note ih = Cons.IH [OF this]
  show ?case using zmqOutputs_step [OF o] ih [of "acc @ [o']" "tot + o_Reward o'"] by (simp add: add.assoc)
qed simp

lemma outputTotals_reward: "outputTotals os blob tot = Inr (x, y) \<Longrightarrow> y = tot + sum_list (map o_Reward os)"
proof (induction os arbitrary: blob tot)
  case (Cons a os)
  then obtain b where "outputTotals os b (tot + o_Reward a) = Inr (x, y)" by (auto split: if_splits)
  then have "y = tot + o_Reward a + sum_list (map o_Reward os)" by (rule Cons.IH)
  then show ?case by (simp add: add.assoc)
qed simp

lemma zmqExtra_describe: "tags_ok ts \<Longrightarrow> zmqExtra (hexEncode (ExtraTags_AppendBinary ts [])) = Inr ts"
  using ExtraTags_decodes_all [of ts "BytesReader (tags_enc ts)"] by (simp add: zmqExtra_def ExtraTags_AppendBinary_eq)

lemma zmqBlock_describe:
  assumes "coinbase_ok (b_Coinbase b)"
  shows "zmqBlock (describe_block b) =
    Inr (Some (b\<lparr>b_Coinbase := (b_Coinbase b)\<lparr>c_OutputsBlobSize := 0\<rparr>, b_TransactionParentIndices := []\<rparr>))"
proof -
  let ?c = "b_Coinbase b"
  have ok: "outputs_ok (c_Outputs ?c)" "tags_ok (c_Extra ?c)" "c_InputCount ?c = 1" "c_InputType ?c = TxInGen" "c_ExtraBaseRCT ?c = 0"
    using assms by (simp_all add: coinbase_ok_def coinbase_base_ok_def)
  have "outputTotals (c_Outputs ?c) 0 0 = Inr (c_OutputsBlobSize ?c, c_TotalReward ?c)" using assms by (simp add: coinbase_ok_def)
  then have tot: "sum_list (map o_Reward (c_Outputs ?c)) = c_TotalReward ?c" using outputTotals_reward by fastforce
  have out: "zmqOutputs 0 (map describe_output (c_Outputs ?c)) ([], 0) = Inr (c_Outputs ?c, c_TotalReward ?c)"
    using zmqOutputs_describe [of "c_Outputs ?c" 0 "[]" 0] ok(1) tot by (simp add: outputs_ok_def)
  have u: "ucast (ucast x :: u64) = (x :: byte)" "ucast (ucast y :: u64) = (y :: u32)" for x y
    by (rule bit_word_eqI, simp add: bit_unsigned_iff)+
  show ?thesis
    using out zmqExtra_describe [OF ok(2)] ok(3,4,5) by (simp add: zmqBlock_def describe_block_def Let_def u)
qed

text \<open>What the id of a block and the handler depend on.\<close>

lemma HandleMainBlock_blob:
  "HandleMainBlock K (b\<lparr>b_Coinbase := (b_Coinbase b)\<lparr>c_OutputsBlobSize := n\<rparr>, b_TransactionParentIndices := ps\<rparr>) cs = HandleMainBlock K b cs"
proof -
  have c: "Coinbase_AppendBinaryFlags (c\<lparr>c_OutputsBlobSize := n\<rparr>) buf p = Coinbase_AppendBinaryFlags c buf p" for c buf p
    by (simp add: Coinbase_AppendBinaryFlags_def Coinbase_prefix_def Let_def)
  have "Block_Id K (b\<lparr>b_Coinbase := (b_Coinbase b)\<lparr>c_OutputsBlobSize := n\<rparr>, b_TransactionParentIndices := ps\<rparr>) = Block_Id K b"
    by (simp add: Block_Id_def HashingBlob_def CalculateId_def c HeaderBlob_def)
  then show ?thesis by (simp add: HandleMainBlock_def reportMainBlock_def)
qed

text \<open>Blocks from the daemon.  For every block with a well-formed coinbase transaction, the message that describes it is turned back into that block:
handling the message has exactly the effect of handling the block itself on the main chain, the side chain and the announcements.\<close>

lemma FullChainMain_rebuilds:
  assumes "coinbase_ok (b_Coinbase b)"
  shows "onFullChainMain K (Some (describe_block b)) cs = HandleMainBlock K b cs"
  by (simp add: onFullChainMain_def zmqBlock_describe [OF assms] HandleMainBlock_blob)

text \<open>Frames: each topic is recognised, its payload may contain colons, and nothing else is accepted.\<close>

lemma splitColon_append: "colon \<notin> set t \<Longrightarrow> splitColon (t @ colon # g) = Some (t, g)"
  by (auto simp: splitColon_def dropWhile_append takeWhile_append)

lemma Topic_text_no_colon: "colon \<notin> set (Topic_text t)"
  by (cases t) (simp_all add: colon_def ascii_def)

lemma Topic_text_inject: "Topic_text a = Topic_text b \<longleftrightarrow> a = b"
  by (cases a; cases b) (simp_all add: ascii_def)

lemma jsonFromFrame_topic: "t \<noteq> TopicUnknown \<Longrightarrow> jsonFromFrame (Topic_text t @ colon # g) = Inr (t, g)"
  unfolding jsonFromFrame_def splitColon_append [OF Topic_text_no_colon] by (cases t) (simp_all add: Topic_text_inject del: Topic_text.simps)

lemma jsonFromFrame_only: "jsonFromFrame frame = Inr (t, g) \<Longrightarrow> t \<noteq> TopicUnknown \<and> frame = Topic_text t @ colon # g"
proof -
  assume a: "jsonFromFrame frame = Inr (t, g)"
  then obtain p where s: "splitColon frame = Some (p, g)" and p: "p = Topic_text t" "t \<noteq> TopicUnknown"
    by (auto simp: jsonFromFrame_def simp del: Topic_text.simps split: option.splits if_splits)
  obtain x where "dropWhile (\<lambda>b. b \<noteq> colon) frame = x # g" "takeWhile (\<lambda>b. b \<noteq> colon) frame = p"
    using s by (auto simp: splitColon_def split: list.splits)
  moreover from this have "x = colon" using hd_dropWhile [of "\<lambda>b. b \<noteq> colon" frame] by auto
  ultimately have "frame = p @ colon # g" by (metis takeWhile_dropWhile_id)
  then show ?thesis using p by simp
qed

end
