(* ===== verification/Peers.thy ===== *)
theory Peers
  imports Ring Wire
begin

text \<open>
  The addresses, version information, peer list and bans of p2pool/p2p/server.go and p2pool/types (protocol.go, version.go), and the message that
  carries a list of peers (client.go).

  An address of \<^verbatim>\<open>net/netip\<close> is a 32- or a 128-bit number in network order; zones of IPv6 addresses have no model.  Entries of
  the peer list are values, as addresses in the list are unique.  Operations that read the clock take the time as argument.
\<close>

type_synonym u16 = "16 word"
type_synonym u128 = "128 word"

section \<open>Addresses\<close>

datatype Addr = Addr4 u32 | Addr6 u128

type_synonym AddrPort = "Addr \<times> u16"

definition mapped :: "u32 \<Rightarrow> u128" where
  "mapped x = push_bit 32 0xFFFF OR ucast x"

fun Is4 :: "Addr \<Rightarrow> bool" where
  "Is4 (Addr4 _) = True"
| "Is4 (Addr6 _) = False"

fun Is6 :: "Addr \<Rightarrow> bool" where
  "Is6 (Addr4 _) = False"
| "Is6 (Addr6 _) = True"

fun Is4In6 :: "Addr \<Rightarrow> bool" where
  "Is4In6 (Addr4 _) = False"
| "Is4In6 (Addr6 x) = (drop_bit 32 x = 0xFFFF)"

definition Unmap :: "Addr \<Rightarrow> Addr" where
  "Unmap a = (case a of Addr4 _ \<Rightarrow> a | Addr6 x \<Rightarrow> if Is4In6 a then Addr4 (ucast x) else a)"

definition IsLoopback :: "Addr \<Rightarrow> bool" where
  "IsLoopback a = (case Unmap a of Addr4 x \<Rightarrow> drop_bit 24 x = 127 | Addr6 x \<Rightarrow> x = 1)"

definition IsPrivate :: "Addr \<Rightarrow> bool" where
  "IsPrivate a = (case Unmap a of
      Addr4 x \<Rightarrow> drop_bit 24 x = 10 \<or> drop_bit 20 x = 0xAC1 \<or> drop_bit 16 x = 0xC0A8
    | Addr6 x \<Rightarrow> drop_bit 121 x = 0x7E)"

fun As16 :: "Addr \<Rightarrow> u128" where
  "As16 (Addr4 x) = mapped x"
| "As16 (Addr6 x) = x"

text \<open>The 16 bytes in network order.\<close>

definition addrBytes :: "u128 \<Rightarrow> byte list" where
  "addrBytes x = rev (le_bytes 16 x)"

definition AddrFrom16 :: "byte list \<Rightarrow> Addr" where
  "AddrFrom16 bs = Addr6 (le_word (rev bs))"

section \<open>Versions\<close>

definition Major :: "u32 \<Rightarrow> u16" where "Major v = ucast (drop_bit 16 v)"
definition Minor :: "u32 \<Rightarrow> u16" where "Minor v = ucast (v AND 0xFFFF)"

datatype ProtocolFeature = FeaturePeerInformationReceive | FeaturePeerInformationExchange | FeaturePrunedBroadcast | FeatureCompactBroadcast | FeatureBlockNotify

definition ProtocolVersion_1_0 :: u32 where "ProtocolVersion_1_0 = push_bit 16 1"
definition ProtocolVersion_1_1 :: u32 where "ProtocolVersion_1_1 = push_bit 16 1 OR 1"
definition ProtocolVersion_1_2 :: u32 where "ProtocolVersion_1_2 = push_bit 16 1 OR 2"

record PeerVersionInformation =
  v_Protocol :: u32
  v_SoftwareVersion :: u32
  v_SoftwareId :: u32

fun SupportsFeature :: "PeerVersionInformation \<Rightarrow> ProtocolFeature \<Rightarrow> bool" where
  "SupportsFeature i FeaturePeerInformationReceive = (v_Protocol i = 0 \<or> v_Protocol i \<ge> ProtocolVersion_1_0)"
| "SupportsFeature i FeaturePeerInformationExchange = (v_Protocol i \<ge> ProtocolVersion_1_0)"
| "SupportsFeature i FeaturePrunedBroadcast = (v_Protocol i = 0 \<or> v_Protocol i \<ge> ProtocolVersion_1_0)"
| "SupportsFeature i FeatureCompactBroadcast = (v_Protocol i \<ge> ProtocolVersion_1_1)"
| "SupportsFeature i FeatureBlockNotify = (v_Protocol i \<ge> ProtocolVersion_1_2)"

definition ToAddrPort :: "PeerVersionInformation \<Rightarrow> AddrPort" where
  "ToAddrPort i = (AddrFrom16 (le_bytes 4 (v_Protocol i) @ le_bytes 4 (v_SoftwareVersion i) @ le_bytes 4 (v_SoftwareId i) @ le_bytes 4 (0xFFFFFFFF :: u32)), 0xFFFF)"

definition IsPeerVersionInformation :: "AddrPort \<Rightarrow> bool" where
  "IsPeerVersionInformation a \<longleftrightarrow> snd a = 0xFFFF \<and> drop 12 (addrBytes (As16 (fst a))) = [0xFF, 0xFF, 0xFF, 0xFF]"

section \<open>Peer list\<close>

record PeerListEntry =
  pe_Addr :: Addr
  pe_Port :: u16
  pe_FailedConnections :: u32
  pe_LastSeen :: u64

definition PeerList_Get :: "PeerListEntry list \<Rightarrow> Addr \<Rightarrow> PeerListEntry option" where
  "PeerList_Get l a = find (\<lambda>e. pe_Addr e = a) l"

text \<open>\<^verbatim>\<open>Delete\<close> removes one match after the other until none is left.\<close>

definition PeerList_Delete :: "PeerListEntry list \<Rightarrow> Addr \<Rightarrow> PeerListEntry list" where
  "PeerList_Delete l a = filter (\<lambda>e. pe_Addr e \<noteq> a) l"

text \<open>A change of the entry that \<^verbatim>\<open>Get\<close> finds.\<close>

fun updateEntry :: "Addr \<Rightarrow> (PeerListEntry \<Rightarrow> PeerListEntry) \<Rightarrow> PeerListEntry list \<Rightarrow> PeerListEntry list" where
  "updateEntry a f [] = []"
| "updateEntry a f (e # l) = (if pe_Addr e = a then f e # l else e # updateEntry a f l)"

record BanEntry =
  bn_Expiration :: u64
  bn_Error :: error

record Server =
  sv_peerId :: u64
  sv_version :: PeerVersionInformation
  sv_useIPv4 :: bool
  sv_useIPv6 :: bool
  sv_listenPort :: u16
  sv_externalListenPort :: u16
  sv_maxOutgoing :: u32
  sv_maxIncoming :: u32
  sv_numOutgoing :: int
  sv_numIncoming :: int
  sv_pending :: "Addr option CircularBuffer"
  sv_peerList :: "PeerListEntry list"
  sv_moneroPeerList :: "PeerListEntry list"
  sv_bans :: "u128 \<rightharpoonup> BanEntry"
  sv_clients :: "nat list"
  sv_fastestPeer :: "nat option"

definition CurrentSoftwareVersion :: u32 where "CurrentSoftwareVersion = push_bit 16 3"
definition CurrentSoftwareId :: u32 where "CurrentSoftwareId = 0x624F6F47"

text \<open>\<^verbatim>\<open>NewServer\<close>, for a listen address that has been parsed and the random id of the node.\<close>

definition NewServer :: "u64 \<Rightarrow> u16 \<Rightarrow> u16 \<Rightarrow> u32 \<Rightarrow> u32 \<Rightarrow> bool \<Rightarrow> bool \<Rightarrow> Server" where
  "NewServer peerId listenPort externalListenPort maxOutgoingPeers maxIncomingPeers useIPv4 useIPv6 =
    \<lparr>sv_peerId = peerId,
     sv_version = \<lparr>v_Protocol = ProtocolVersion_1_2, v_SoftwareVersion = CurrentSoftwareVersion, v_SoftwareId = CurrentSoftwareId\<rparr>,
     sv_useIPv4 = useIPv4, sv_useIPv6 = useIPv6, sv_listenPort = listenPort, sv_externalListenPort = externalListenPort,
     sv_maxOutgoing = min maxOutgoingPeers 450, sv_maxIncoming = min maxIncomingPeers 450, sv_numOutgoing = 0, sv_numIncoming = 0,
     sv_pending = NewCircularBuffer None (unat (min maxOutgoingPeers 450)), sv_peerList = [], sv_moneroPeerList = [],
     sv_bans = Map.empty, sv_clients = [], sv_fastestPeer = None\<rparr>"

definition familyAllowed :: "Server \<Rightarrow> Addr \<Rightarrow> bool" where
  "familyAllowed s a \<longleftrightarrow> \<not> (\<not> sv_useIPv4 s \<and> Is4 a) \<and> \<not> (\<not> sv_useIPv6 s \<and> Is6 a)"

definition ExternalListenPort :: "Server \<Rightarrow> u16" where
  "ExternalListenPort s = (if sv_externalListenPort s \<noteq> 0 then sv_externalListenPort s else sv_listenPort s)"

section \<open>Bans\<close>

text \<open>The key of a ban: an IPv4 address itself, the /64 of an IPv6 address.\<close>

definition banKey :: "Addr \<Rightarrow> u128" where
  "banKey ip = (case Unmap ip of Addr6 x \<Rightarrow> push_bit 64 (drop_bit 64 x) | Addr4 x \<Rightarrow> mapped x)"

definition IsBanned :: "Server \<Rightarrow> u64 \<Rightarrow> Addr \<Rightarrow> BanEntry option" where
  "IsBanned s now ip =
    (if IsLoopback ip then None
     else case sv_bans s (banKey ip) of
       None \<Rightarrow> None
     | Some b \<Rightarrow> if now \<ge> bn_Expiration b then None else Some b)"

text \<open>The entry that \<^verbatim>\<open>Server.Ban\<close> makes; connections in the banned range are closed by the caller of this.\<close>

definition addBan :: "Server \<Rightarrow> u64 \<Rightarrow> Addr \<Rightarrow> u64 \<Rightarrow> error \<Rightarrow> Server" where
  "addBan s now ip seconds err = s\<lparr>sv_bans := (sv_bans s)(banKey ip \<mapsto> \<lparr>bn_Expiration = now + seconds, bn_Error = err\<rparr>)\<rparr>"

definition CleanupBanList :: "Server \<Rightarrow> u64 \<Rightarrow> Server" where
  "CleanupBanList s now = s\<lparr>sv_bans := (\<lambda>k. case sv_bans s k of None \<Rightarrow> None | Some b \<Rightarrow> if now \<ge> bn_Expiration b then None else Some b)\<rparr>"

section \<open>Changes of the peer list\<close>

definition newEntry :: "Addr \<Rightarrow> u16 \<Rightarrow> u64 \<Rightarrow> PeerListEntry" where
  "newEntry a port now = \<lparr>pe_Addr = a, pe_Port = port, pe_FailedConnections = 0, pe_LastSeen = now\<rparr>"

text \<open>\<^verbatim>\<open>AddToPeerList\<close> and \<^verbatim>\<open>UpdateInPeerList\<close> differ in what they change of a known entry.\<close>

definition putPeer :: "(PeerListEntry \<Rightarrow> PeerListEntry) \<Rightarrow> Server \<Rightarrow> u64 \<Rightarrow> AddrPort \<Rightarrow> Server" where
  "putPeer known s now ap =
    (if IsLoopback (fst ap) then s
     else let a = Unmap (fst ap) in
       if \<not> familyAllowed s a then s
       else case PeerList_Get (sv_peerList s) a of
         None \<Rightarrow> if IsBanned s now a \<noteq> None then s else s\<lparr>sv_peerList := sv_peerList s @ [newEntry a (snd ap) now]\<rparr>
       | Some _ \<Rightarrow> s\<lparr>sv_peerList := updateEntry a known (sv_peerList s)\<rparr>)"

definition AddToPeerList :: "Server \<Rightarrow> u64 \<Rightarrow> AddrPort \<Rightarrow> Server" where
  "AddToPeerList s now ap = putPeer (\<lambda>e. e\<lparr>pe_LastSeen := now\<rparr>) s now ap"

definition UpdateInPeerList :: "Server \<Rightarrow> u64 \<Rightarrow> AddrPort \<Rightarrow> Server" where
  "UpdateInPeerList s now ap = putPeer (\<lambda>e. e\<lparr>pe_FailedConnections := 0, pe_LastSeen := now\<rparr>) s now ap"

text \<open>\<^verbatim>\<open>RemoveFromPeerList\<close> deletes the last match.\<close>

fun removeFirst :: "Addr \<Rightarrow> PeerListEntry list \<Rightarrow> PeerListEntry list" where
  "removeFirst a [] = []"
| "removeFirst a (e # l) = (if pe_Addr e = a then l else e # removeFirst a l)"

definition RemoveFromPeerList :: "Server \<Rightarrow> Addr \<Rightarrow> Server" where
  "RemoveFromPeerList s ip = s\<lparr>sv_peerList := rev (removeFirst (Unmap ip) (rev (sv_peerList s)))\<rparr>"

text \<open>The failed attempt of an outgoing connection.\<close>

definition connectionFailed :: "Server \<Rightarrow> Addr \<Rightarrow> Server" where
  "connectionFailed s a =
    (let s = s\<lparr>sv_numOutgoing := sv_numOutgoing s - 1, sv_pending := Replace (sv_pending s) (Some a) None\<rparr> in
     case PeerList_Get (sv_peerList s) a of
       None \<Rightarrow> s
     | Some p \<Rightarrow>
         let s = s\<lparr>sv_peerList := updateEntry a (\<lambda>e. e\<lparr>pe_FailedConnections := pe_FailedConnections e + 1\<rparr>) (sv_peerList s)\<rparr> in
         if pe_FailedConnections p + 1 \<ge> 10 then RemoveFromPeerList s a else s)"

text \<open>The part of \<^verbatim>\<open>UpdateClientConnections\<close> that refreshes connected peers and forgets those not seen for an hour.\<close>

definition refreshSeen :: "Addr list \<Rightarrow> u64 \<Rightarrow> PeerListEntry \<Rightarrow> PeerListEntry" where
  "refreshSeen connected now p = (if pe_Addr p \<in> set connected then p\<lparr>pe_LastSeen := now\<rparr> else p)"

definition forgetOldPeers :: "Server \<Rightarrow> Addr list \<Rightarrow> u64 \<Rightarrow> Server" where
  "forgetOldPeers s connected now =
    (let l = map (refreshSeen connected now) (sv_peerList s);
         old = filter (\<lambda>p. pe_LastSeen p + 3600 < now) l
     in s\<lparr>sv_peerList := (if old = [] then l else fold (\<lambda>p l. PeerList_Delete l (pe_Addr p)) old l)\<rparr>)"

section \<open>Lists of peers on the wire\<close>

definition PeerListResponseMaxPeers :: nat where "PeerListResponseMaxPeers = 16"

definition peerBytes :: "AddrPort \<Rightarrow> byte list" where
  "peerBytes ap =
    (if Is6 (fst ap) \<and> \<not> IsPeerVersionInformation ap then 1 else 0) # addrBytes (As16 (fst ap)) @ le_bytes 2 (snd ap)"

text \<open>The payload of \<^verbatim>\<open>SendPeerListResponse\<close>; nothing is sent for a list that is too long.\<close>

definition peerListPayload :: "AddrPort list \<Rightarrow> byte list option" where
  "peerListPayload l =
    (if length l > PeerListResponseMaxPeers then None else Some (of_nat (length l) # concat (map peerBytes l)))"

text \<open>What one entry of a received list says: a peer, the version of the sender, or nothing.\<close>

datatype peerItem = PeerAddress AddrPort | PeerVersion PeerVersionInformation | PeerIgnored

definition peerItem_of :: "byte \<Rightarrow> byte list \<Rightarrow> u16 \<Rightarrow> peerItem" where
  "peerItem_of isV6 raw port =
    (if isV6 = 0 then
       (if raw ! 12 = 0 \<or> raw ! 12 \<ge> 224 then
          (if le_word (drop 12 raw) = (0xFFFFFFFF :: u32) \<and> port = 0xFFFF then
             PeerVersion \<lparr>v_Protocol = le_word (take 4 raw), v_SoftwareVersion = le_word (take 4 (drop 4 raw)),
               v_SoftwareId = le_word (take 4 (drop 8 raw))\<rparr>
           else PeerIgnored)
        else PeerAddress (Unmap (AddrFrom16 (replicate 10 0 @ [0xFF, 0xFF] @ drop 12 raw)), port))
     else PeerAddress (Unmap (AddrFrom16 raw), port))"

text \<open>One round of the loop of \<^verbatim>\<open>PEER_LIST_RESPONSE\<close>; the buffer for the address keeps its old bytes where a read is short, and the prefix written for an
  IPv4 address.\<close>

definition rawAfter :: "byte \<Rightarrow> byte list \<Rightarrow> byte list" where
  "rawAfter isV6 raw = (if isV6 = 0 \<and> \<not> (raw ! 12 = 0 \<or> raw ! 12 \<ge> 224) then replicate 10 0 @ [0xFF, 0xFF] @ drop 12 raw else raw)"

definition readAddr :: "byte list \<Rightarrow> byte list rd" where
  "readAddr raw r = (case Read 16 r of (got, eof, r') \<Rightarrow> (if eof then Inl EOF else Inr (got @ drop (length got) raw), r'))"

definition readPeer :: "byte list \<Rightarrow> (byte list \<times> peerItem) rd" where
  "readPeer raw =
    andThen ReadByte (\<lambda>isV6.
    andThen (readAddr raw) (\<lambda>raw.
    andThen (ReadLE 2) (\<lambda>port. giveR (rawAfter isV6 raw, peerItem_of isV6 raw port))))"

fun readPeers :: "nat \<Rightarrow> byte list \<Rightarrow> peerItem list rd" where
  "readPeers 0 raw = giveR []"
| "readPeers (Suc n) raw = andThen (readPeer raw) (\<lambda>(raw, i). andThen (readPeers n raw) (\<lambda>is. giveR (i # is)))"

section \<open>Addresses and ranges\<close>

lemma bit_low16: "bit (0xFFFF :: u128) k \<longleftrightarrow> k < 16"
  using bit_mask_iff [of 16 k, where ?'a = u128] by (auto simp: mask_eq_exp_minus_1)

lemma bit_mapped: "bit (mapped x) n \<longleftrightarrow> n < 128 \<and> (32 \<le> n \<and> n < 48 \<or> n < 32 \<and> bit x n)"
proof -
  have "bit (push_bit 32 (0xFFFF :: u128)) n \<longleftrightarrow> n < 128 \<and> 32 \<le> n \<and> n < 48"
    using bit_low16 [of "n - 32"] by (simp only: bit_push_bit_iff) auto
  moreover have "bit (ucast x :: u128) n \<longleftrightarrow> n < 32 \<and> bit x n"
    using bit_imp_le_length [of x n] by (auto simp: bit_unsigned_iff)
  ultimately show ?thesis by (auto simp: mapped_def bit_or_iff simp del: push_bit_numeral)
qed

lemma mapped_inject [simp]: "mapped x = mapped y \<longleftrightarrow> x = y"
proof
  assume "mapped x = mapped y"
  then have "bit x n = bit y n" if "n < 32" for n using that bit_mapped [of x n] bit_mapped [of y n] by simp
  then show "x = y" by (intro bit_word_eqI) simp
qed simp

lemma drop_mapped: "drop_bit 32 (mapped x) = 0xFFFF"
proof (rule bit_word_eqI)
  fix n assume "n < LENGTH(128)"
  show "bit (drop_bit 32 (mapped x)) n = bit (0xFFFF :: u128) n" unfolding bit_low16 by (auto simp: bit_drop_bit_eq bit_mapped)
qed

lemma ucast_mapped: "ucast (mapped x) = x"
  by (rule bit_word_eqI) (simp add: bit_unsigned_iff bit_mapped)

lemma mapped_of_4in6: "drop_bit 32 x = 0xFFFF \<Longrightarrow> mapped (ucast x) = x"
proof (rule bit_word_eqI)
  fix n assume x: "drop_bit 32 x = (0xFFFF :: u128)" and n: "n < LENGTH(128)"
  have "bit (drop_bit 32 x) k \<longleftrightarrow> k < 16" for k unfolding x by (rule bit_low16)
  then have "bit x (32 + k) \<longleftrightarrow> k < 16" for k by (simp add: bit_drop_bit_eq)
  from this [of "n - 32"] show "bit (mapped (ucast x)) n = bit x n" using n by (auto simp: bit_mapped bit_unsigned_iff)
qed

lemma Unmap_Unmap [simp]: "Unmap (Unmap a) = Unmap a"
  by (cases a) (auto simp: Unmap_def)

lemma Unmap_not_4in6 [simp]: "\<not> Is4In6 (Unmap a)"
  by (cases a) (auto simp: Unmap_def)

lemma Unmap_id: "\<not> Is4In6 a \<Longrightarrow> Unmap a = a"
  by (cases a) (auto simp: Unmap_def)

lemma Unmap_facts [simp]: "IsLoopback (Unmap a) = IsLoopback a" "banKey (Unmap a) = banKey a"
  by (simp_all add: IsLoopback_def banKey_def)

lemma Unmap_As16: "Unmap (Addr6 (As16 a)) = Unmap a"
  by (cases a) (simp_all add: Unmap_def drop_mapped ucast_mapped)

text \<open>The range of a ban: the same IPv4 address, or IPv6 addresses with the same first 64 bits.\<close>

definition same_range :: "Addr \<Rightarrow> Addr \<Rightarrow> bool" where
  "same_range a b = (case (Unmap a, Unmap b) of
      (Addr4 x, Addr4 y) \<Rightarrow> x = y
    | (Addr6 x, Addr6 y) \<Rightarrow> drop_bit 64 x = drop_bit 64 y
    | _ \<Rightarrow> False)"

lemma top_bits_inject: "push_bit 64 (drop_bit 64 x) = push_bit 64 (drop_bit 64 (y :: u128)) \<longleftrightarrow> drop_bit 64 x = drop_bit 64 y"
proof
  assume a: "push_bit 64 (drop_bit 64 x) = push_bit 64 (drop_bit 64 y)"
  show "drop_bit 64 x = drop_bit 64 y"
  proof (rule bit_word_eqI)
    fix n assume "n < LENGTH(128)"
    have "bit (push_bit 64 (drop_bit 64 x)) (n + 64) = bit (push_bit 64 (drop_bit 64 y)) (n + 64)" using a by simp
    moreover have "bit z (n + 64) \<Longrightarrow> n + 64 < 128" for z :: u128 using bit_imp_le_length [of z "n + 64"] by simp
    ultimately show "bit (drop_bit 64 x) n = bit (drop_bit 64 y) n" by (auto simp: bit_push_bit_iff bit_drop_bit_eq add.commute)
  qed
qed simp

lemma range_keys_differ: "push_bit 64 (drop_bit 64 y) \<noteq> mapped x"
proof
  assume "push_bit 64 (drop_bit 64 y) = mapped x"
  then have "bit (push_bit 64 (drop_bit 64 y)) 32 = bit (mapped x) 32" by simp
  then show False by (simp add: bit_push_bit_iff bit_mapped)
qed

lemma banKey_iff: "banKey a = banKey b \<longleftrightarrow> same_range a b"
  using range_keys_differ by (auto simp: banKey_def same_range_def top_bits_inject dest: sym split: Addr.split)

section \<open>Bans\<close>

text \<open>\<^verbatim>\<open>Server.Ban\<close> without the closing of connections.\<close>

definition banServer :: "Server \<Rightarrow> u64 \<Rightarrow> Addr \<Rightarrow> u64 \<Rightarrow> error \<Rightarrow> Server" where
  "banServer s now ip seconds err = (if IsBanned s now ip \<noteq> None \<or> IsLoopback ip then s else addBan s now ip seconds err)"

text \<open>Bans.  Banning an address that is not banned bans exactly the addresses of its range (the IPv4 address or the IPv6 /64) until the
time of expiry, and changes nothing for others; loopback addresses are never banned, an existing ban is never shortened, and cleaning the ban list
changes no answer from then on.\<close>

lemma bans_exact:
  "IsBanned (banServer s now ip seconds err) t a =
     (if IsLoopback a then None
      else if same_range a ip \<and> \<not> IsLoopback ip \<and> IsBanned s now ip = None then
        (if t \<ge> now + seconds then None else Some \<lparr>bn_Expiration = now + seconds, bn_Error = err\<rparr>)
      else IsBanned s t a) \<and>
   (now \<le> t \<longrightarrow> IsBanned (CleanupBanList s now) t a = IsBanned s t a)"
  by (auto simp: banServer_def IsBanned_def addBan_def CleanupBanList_def banKey_iff [symmetric] split: option.splits)

section \<open>The peer list\<close>

text \<open>Addresses in the list are unique, not loopback, not IPv4 in the guise of IPv6, and of an allowed family.\<close>

definition peer_ok :: "Server \<Rightarrow> Addr \<Rightarrow> bool" where
  "peer_ok s a \<longleftrightarrow> \<not> IsLoopback a \<and> Unmap a = a \<and> familyAllowed s a"

definition peers_ok :: "Server \<Rightarrow> bool" where
  "peers_ok s \<longleftrightarrow> distinct (map pe_Addr (sv_peerList s)) \<and> (\<forall>e \<in> set (sv_peerList s). peer_ok s (pe_Addr e))"

lemma map_updateEntry: "(\<And>e. pe_Addr (f e) = pe_Addr e) \<Longrightarrow> map pe_Addr (updateEntry a f l) = map pe_Addr l"
  by (induction l) auto

lemma peers_ok_iff: "peers_ok s \<longleftrightarrow> distinct (map pe_Addr (sv_peerList s)) \<and> (\<forall>a \<in> set (map pe_Addr (sv_peerList s)). peer_ok s a)"
  by (simp add: peers_ok_def)

lemma peer_ok_same: "sv_useIPv4 s' = sv_useIPv4 s \<Longrightarrow> sv_useIPv6 s' = sv_useIPv6 s \<Longrightarrow> peer_ok s' a = peer_ok s a"
  by (simp add: peer_ok_def familyAllowed_def)

lemma peer_ok_list [simp]: "peer_ok (s\<lparr>sv_peerList := l\<rparr>) a = peer_ok s a"
  by (rule peer_ok_same) simp_all

lemma Get_None: "PeerList_Get l a = None \<longleftrightarrow> a \<notin> pe_Addr ` set l"
  by (auto simp: PeerList_Get_def find_None_iff)

lemma putPeer_ok:
  assumes "peers_ok s" and "\<And>e. pe_Addr (f e) = pe_Addr e"
  shows "peers_ok (putPeer f s now ap)"
proof (cases "IsLoopback (fst ap) \<or> \<not> familyAllowed s (Unmap (fst ap))")
  case False
  let ?a = "Unmap (fst ap)"
  have ok: "peer_ok s ?a" using False by (simp add: peer_ok_def)
  show ?thesis
  proof (cases "PeerList_Get (sv_peerList s) ?a")
    case None
    then have "?a \<notin> pe_Addr ` set (sv_peerList s)" by (simp add: Get_None)
    then show ?thesis using assms(1) False ok None by (simp add: putPeer_def Let_def peers_ok_def newEntry_def)
  next
    case (Some e)
    then show ?thesis using assms(1) False
      by (simp add: putPeer_def Let_def peers_ok_iff map_updateEntry [OF assms(2)] del: set_map)
  qed
qed (use assms(1) in \<open>auto simp: putPeer_def Let_def\<close>)

lemma removeFirst_distinct: "distinct (map pe_Addr l) \<Longrightarrow> removeFirst a l = filter (\<lambda>e. pe_Addr e \<noteq> a) l"
  by (induction l) (auto simp: filter_True rev_image_eqI intro!: filter_True [symmetric])

lemma RemoveFromPeerList_eq:
  "peers_ok s \<Longrightarrow> sv_peerList (RemoveFromPeerList s ip) = filter (\<lambda>e. pe_Addr e \<noteq> Unmap ip) (sv_peerList s)"
  using removeFirst_distinct [of "rev (sv_peerList s)" "Unmap ip"] by (simp add: RemoveFromPeerList_def peers_ok_def rev_map [symmetric] rev_filter [symmetric])

lemma peers_ok_filter: "peers_ok s \<Longrightarrow> peers_ok (s\<lparr>sv_peerList := filter p (sv_peerList s)\<rparr>)"
  by (auto simp: peers_ok_def distinct_map_filter)

lemma RemoveFromPeerList_ok: "peers_ok s \<Longrightarrow> peers_ok (RemoveFromPeerList s ip)"
  using peers_ok_filter [of s] RemoveFromPeerList_eq [of s ip] by (simp add: RemoveFromPeerList_def)

lemma peers_ok_updateEntry: "peers_ok s \<Longrightarrow> (\<And>e. pe_Addr (f e) = pe_Addr e) \<Longrightarrow> peers_ok (s\<lparr>sv_peerList := updateEntry a f (sv_peerList s)\<rparr>)"
  by (simp add: peers_ok_iff map_updateEntry del: set_map)

lemma peers_ok_fields:
  "peers_ok s \<Longrightarrow> sv_peerList s' = sv_peerList s \<Longrightarrow> sv_useIPv4 s' = sv_useIPv4 s \<Longrightarrow> sv_useIPv6 s' = sv_useIPv6 s \<Longrightarrow> peers_ok s'"
  by (simp add: peers_ok_def peer_ok_same [of s' s])

lemma connectionFailed_ok:
  assumes "peers_ok s"
  shows "peers_ok (connectionFailed s a)"
proof -
  let ?s = "s\<lparr>sv_numOutgoing := sv_numOutgoing s - 1, sv_pending := Replace (sv_pending s) (Some a) None\<rparr>"
  have ok: "peers_ok ?s" by (rule peers_ok_fields [OF assms]) simp_all
  have up: "peers_ok (?s\<lparr>sv_peerList := updateEntry a (\<lambda>e. e\<lparr>pe_FailedConnections := pe_FailedConnections e + 1\<rparr>) (sv_peerList ?s)\<rparr>)"
    by (rule peers_ok_updateEntry [OF ok]) simp
  show ?thesis using ok up RemoveFromPeerList_ok [OF up] by (simp add: connectionFailed_def Let_def split: option.split)
qed

lemma forgetOldPeers_ok:
  assumes "peers_ok s"
  shows "peers_ok (forgetOldPeers s connected now)"
proof -
  let ?l = "map (refreshSeen connected now) (sv_peerList s)"
  have "map pe_Addr ?l = map pe_Addr (sv_peerList s)" by (simp add: refreshSeen_def)
  then have ok: "peers_ok (s\<lparr>sv_peerList := ?l\<rparr>)" using assms unfolding peers_ok_iff by (simp add: del: set_map map_map)
  have "\<exists>p. fold (\<lambda>p l. PeerList_Delete l (pe_Addr p)) old l = filter p l" for old l
  proof (induction old arbitrary: l)
    case Nil
    show ?case by (intro exI [of _ "\<lambda>_. True"]) simp
  next
    case (Cons e old)
    obtain p where "fold (\<lambda>p l. PeerList_Delete l (pe_Addr p)) old (PeerList_Delete l (pe_Addr e)) = filter p (PeerList_Delete l (pe_Addr e))"
      using Cons by blast
    then show ?case by (auto simp: PeerList_Delete_def)
  qed
  then obtain p where "fold (\<lambda>p l. PeerList_Delete l (pe_Addr p)) (filter (\<lambda>p. pe_LastSeen p + 3600 < now) ?l) ?l = filter p ?l" by blast
  then show ?thesis using ok peers_ok_filter [OF ok, of p] by (simp add: forgetOldPeers_def Let_def)
qed

section \<open>Lists of peers on the wire\<close>

lemma length_addrBytes [simp]: "length (addrBytes x) = 16"
  by (simp add: addrBytes_def)

lemma AddrFrom16_addrBytes [simp]: "AddrFrom16 (addrBytes x) = Addr6 x"
  by (simp add: AddrFrom16_def addrBytes_def le_word_le_bytes)

lemma le_bytes_bit: "i < n \<Longrightarrow> k < 8 \<Longrightarrow> bit (le_bytes n w ! i) k \<longleftrightarrow> bit w (8 * i + k)"
  by (simp add: bit_le_bytes_nth)

lemma low_bytes_mapped: "take 4 (le_bytes 16 (mapped x)) = le_bytes 4 x"
proof (rule nth_equalityI)
  fix i assume "i < length (take 4 (le_bytes 16 (mapped x)))"
  then have i: "i < 4" by simp
  show "take 4 (le_bytes 16 (mapped x)) ! i = le_bytes 4 x ! i"
  proof (rule bit_word_eqI)
    fix k assume "k < LENGTH(8)"
    then show "bit (take 4 (le_bytes 16 (mapped x)) ! i) k = bit (le_bytes 4 x ! i) k"
      using i by (simp add: le_bytes_bit bit_mapped)
  qed
qed simp

lemma addrBytes_drop: "drop 12 (addrBytes x) = rev (take 4 (le_bytes 16 x))"
  by (simp add: addrBytes_def drop_rev)

lemma mapped_tail: "replicate 10 0 @ [0xFF, 0xFF] @ rev (le_bytes 4 x) = addrBytes (mapped x)"
proof -
  have "rev (addrBytes (mapped x)) = le_bytes 4 x @ drop 4 (le_bytes 16 (mapped x))"
    using low_bytes_mapped [of x] by (metis addrBytes_def append_take_drop_id rev_rev_ident)
  moreover have "drop 4 (le_bytes 16 (mapped x)) = [0xFF, 0xFF] @ replicate 10 0"
  proof (rule nth_equalityI)
    fix i assume "i < length (drop 4 (le_bytes 16 (mapped x)))"
    then have i: "i < 12" by simp
    have ff: "bit (0xFF :: byte) k" if "k < 8" for k
      using bit_mask_iff [of 8 k, where ?'a = byte] that by (simp add: mask_eq_exp_minus_1)
    have tail: "([0xFF, 0xFF] @ replicate 10 0) ! i = (if i < 2 then 0xFF else (0 :: byte))"
      using i by (auto simp: nth_append less_Suc_eq numeral_2_eq_2)
    show "drop 4 (le_bytes 16 (mapped x)) ! i = ([0xFF, 0xFF] @ replicate 10 0) ! i"
      unfolding tail
    proof (rule bit_word_eqI)
      fix k assume "k < LENGTH(8)"
      then have k: "k < 8" by simp
      have "bit (drop 4 (le_bytes 16 (mapped x)) ! i) k \<longleftrightarrow> i < 2"
        using i k by (auto simp: le_bytes_bit bit_mapped)
      then show "bit (drop 4 (le_bytes 16 (mapped x)) ! i) k = bit (if i < 2 then 0xFF else (0 :: byte)) k"
        using ff [OF k] by (cases "i < 2") simp_all
    qed
  qed simp
  ultimately have "rev (addrBytes (mapped x)) = rev (replicate 10 0 @ [0xFF, 0xFF] @ rev (le_bytes 4 x))" by simp
  then show ?thesis by (metis rev_rev_ident)
qed

lemma raw_12: "addrBytes (mapped x) ! 12 = ucast (drop_bit 24 x)"
  by (simp add: mapped_tail [symmetric] nth_append rev_nth le_bytes_def)

lemma drop_12: "drop 12 (addrBytes (mapped x)) = rev (le_bytes 4 x)"
  by (simp add: addrBytes_drop low_bytes_mapped)

text \<open>Four bytes that are all ones, as a word and as a list.\<close>

lemma ones_iff:
  assumes "length bs = 4"
  shows "le_word bs = (0xFFFFFFFF :: u32) \<longleftrightarrow> bs = [0xFF, 0xFF, 0xFF, 0xFF]"
proof
  have ones: "le_bytes 4 (0xFFFFFFFF :: u32) = [0xFF, 0xFF, 0xFF, 0xFF]" by code_simp
  show "bs = [0xFF, 0xFF, 0xFF, 0xFF]" if "le_word bs = (0xFFFFFFFF :: u32)"
    using le_bytes_le_word [of bs, where ?'a = 32] assms that ones by simp
  show "le_word bs = (0xFFFFFFFF :: u32)" if "bs = [0xFF, 0xFF, 0xFF, 0xFF]"
    unfolding that ones [symmetric] by (rule le_word_le_bytes) simp
qed

definition versionOf :: "byte list \<Rightarrow> PeerVersionInformation" where
  "versionOf raw = \<lparr>v_Protocol = le_word (take 4 raw), v_SoftwareVersion = le_word (take 4 (drop 4 raw)),
     v_SoftwareId = le_word (take 4 (drop 8 raw))\<rparr>"

text \<open>What a receiver makes of an entry.\<close>

definition received_as :: "AddrPort \<Rightarrow> peerItem" where
  "received_as ap =
    (if IsPeerVersionInformation ap then PeerVersion (versionOf (addrBytes (As16 (fst ap))))
     else case fst ap of
       Addr4 x \<Rightarrow> if drop_bit 24 x = 0 \<or> drop_bit 24 x \<ge> 224 then PeerIgnored else PeerAddress ap
     | Addr6 _ \<Rightarrow> PeerAddress (Unmap (fst ap), snd ap))"

lemma octet_iff: "(ucast (drop_bit 24 (x :: u32)) :: byte) = 0 \<longleftrightarrow> drop_bit 24 x = 0"
  "(ucast (drop_bit 24 x) :: byte) \<ge> 224 \<longleftrightarrow> drop_bit 24 x \<ge> 224"
proof -
  have "unat x < 2 ^ 32" using unsigned_less [of x] by simp
  then have "unat (drop_bit 24 x) < 2 ^ 8" by (subst unat_drop_bit_div) (simp add: div_less_iff_less_mult)
  then have "unat (ucast (drop_bit 24 x) :: byte) = unat (drop_bit 24 x)" by (simp add: unsigned_ucast_eq take_bit_eq_mod)
  then show "(ucast (drop_bit 24 x) :: byte) = 0 \<longleftrightarrow> drop_bit 24 x = 0"
    "(ucast (drop_bit 24 x) :: byte) \<ge> 224 \<longleftrightarrow> drop_bit 24 x \<ge> 224"
    by (simp_all add: word_unat_eq_iff word_le_nat_alt)
qed

lemma peerItem_received:
  "peerItem_of (if Is6 (fst ap) \<and> \<not> IsPeerVersionInformation ap then 1 else 0) (addrBytes (As16 (fst ap))) (snd ap) = received_as ap"
proof (cases "IsPeerVersionInformation ap")
  case True
  then have "drop 12 (addrBytes (As16 (fst ap))) = [0xFF, 0xFF, 0xFF, 0xFF]" "snd ap = 0xFFFF" by (auto simp: IsPeerVersionInformation_def)
  moreover from this(1) have "addrBytes (As16 (fst ap)) ! 12 = 0xFF" by (metis nth_Cons_0 hd_drop_conv_nth length_addrBytes list.sel(1) less_numeral_extra(3) numeral_less_iff semiring_norm(76) semiring_norm(78) semiring_norm(81))
  ultimately show ?thesis using True ones_iff [of "drop 12 (addrBytes (As16 (fst ap)))"]
    by (simp add: peerItem_of_def received_as_def versionOf_def)
next
  case False
  show ?thesis
  proof (cases "fst ap")
    case (Addr4 x)
    have "\<not> (le_word (drop 12 (addrBytes (mapped x))) = (0xFFFFFFFF :: u32) \<and> snd ap = 0xFFFF)"
      using False ones_iff [of "drop 12 (addrBytes (mapped x))"] Addr4 by (auto simp: IsPeerVersionInformation_def)
    then show ?thesis using False Addr4
      by (auto simp: peerItem_of_def received_as_def raw_12 octet_iff drop_12 mapped_tail [simplified] Unmap_def drop_mapped ucast_mapped prod_eq_iff)
  next
    case (Addr6 y)
    then show ?thesis using False by (simp add: peerItem_of_def received_as_def)
  qed
qed

lemma decodes_readAddr:
  assumes "length raw = 16"
  shows "decodes (readAddr raw) (addrBytes x) (addrBytes x)"
  unfolding decodes_def
proof (intro allI impI)
  fix r rest assume "avail r = addrBytes x @ rest"
  then show "readAddr raw r = (Inr (addrBytes x), advance (length (addrBytes x)) r)"
    using assms length_addrBytes [of x] by (auto simp: readAddr_def Read_spec simp del: length_addrBytes)
qed

lemma decodes_readPeer:
  assumes "length raw = 16"
  shows "\<exists>raw'. length raw' = 16 \<and> decodes (readPeer raw) (peerBytes ap) (raw', received_as ap)"
proof -
  let ?f = "if Is6 (fst ap) \<and> \<not> IsPeerVersionInformation ap then 1 else 0 :: byte"
  let ?raw = "addrBytes (As16 (fst ap))"
  have "decodes (andThen (ReadLE 2) (\<lambda>port. giveR (rawAfter ?f ?raw, peerItem_of ?f ?raw port))) (le_bytes 2 (snd ap)) (rawAfter ?f ?raw, peerItem_of ?f ?raw (snd ap))"
    by (rule decodes_andThen_give) auto
  then have "decodes (andThen (readAddr raw) (\<lambda>raw. andThen (ReadLE 2) (\<lambda>port. giveR (rawAfter ?f raw, peerItem_of ?f raw port))))
      (?raw @ le_bytes 2 (snd ap)) (rawAfter ?f ?raw, received_as ap)"
    unfolding peerItem_received [symmetric] by (rule decodes_andThen [OF decodes_readAddr [OF assms]])
  then have "decodes (readPeer raw) (peerBytes ap) (rawAfter ?f ?raw, received_as ap)"
    unfolding readPeer_def peerBytes_def using decodes_andThen [OF decodes_ReadByte [of ?f], where f = "\<lambda>isV6. andThen (readAddr raw) (\<lambda>raw. andThen (ReadLE 2) (\<lambda>port. giveR (rawAfter isV6 raw, peerItem_of isV6 raw port)))"]
    by fastforce
  moreover have "length (rawAfter ?f ?raw) = 16" by (simp add: rawAfter_def)
  ultimately show ?thesis by blast
qed

lemma decodes_readPeers:
  "length raw = 16 \<Longrightarrow> decodes (readPeers (length l) raw) (concat (map peerBytes l)) (map received_as l)"
proof (induction l arbitrary: raw)
  case (Cons ap l)
  obtain raw' where raw': "length raw' = 16" "decodes (readPeer raw) (peerBytes ap) (raw', received_as ap)"
    using decodes_readPeer [OF Cons.prems] by blast
  have "decodes (andThen (readPeers (length l) raw') (\<lambda>is. giveR (received_as ap # is)))
      (concat (map peerBytes l)) (received_as ap # map received_as l)"
    by (rule decodes_andThen_give) (simp add: Cons.IH raw'(1))
  then show ?case
    using decodes_andThen [OF raw'(2),
        where f = "\<lambda>(raw, i). andThen (readPeers (length l) raw) (\<lambda>is. giveR (i # is))"] by simp
qed simp

lemma received_version: "received_as (ToAddrPort v) = PeerVersion v"
proof -
  let ?raw = "le_bytes 4 (v_Protocol v) @ le_bytes 4 (v_SoftwareVersion v) @ le_bytes 4 (v_SoftwareId v) @ le_bytes 4 (0xFFFFFFFF :: u32)"
  have ones: "le_bytes 4 (0xFFFFFFFF :: u32) = [0xFF, 0xFF, 0xFF, 0xFF]" by code_simp
  have raw: "addrBytes (As16 (fst (ToAddrPort v))) = ?raw"
    using le_bytes_le_word [of "rev ?raw", where ?'a = 128] by (simp add: ToAddrPort_def AddrFrom16_def addrBytes_def)
  then have "IsPeerVersionInformation (ToAddrPort v)" using ones by (simp add: IsPeerVersionInformation_def ToAddrPort_def)
  moreover have "versionOf ?raw = v" by (simp add: versionOf_def le_word_le_bytes)
  ultimately show ?thesis using raw by (simp add: received_as_def)
qed

text \<open>Lists of peers.  A list of at most 16 peers is sent, and the receiver's loop reads from any stream that starts with it one
item for each entry and nothing else: the peer in its plain form (an IPv4 address also when it was given as IPv6), nothing for IPv4 addresses
below 1.0.0.0 and from 224.0.0.0 on, and the version of the sender for the entry that carries it.  A longer list is not sent.\<close>

lemma peer_list_round_trip:
  "(length l \<le> PeerListResponseMaxPeers \<longrightarrow>
     (\<exists>bs. peerListPayload l = Some bs \<and>
       andThen ReadByte (\<lambda>n. readPeers (unat n) (replicate 16 0)) (BytesReader (bs @ rest)) = (Inr (map received_as l), BytesReader rest))) \<and>
   (PeerListResponseMaxPeers < length l \<longrightarrow> peerListPayload l = None) \<and>
   received_as (ToAddrPort v) = PeerVersion v"
proof (intro conjI impI)
  assume len: "length l \<le> PeerListResponseMaxPeers"
  then have n: "unat (of_nat (length l) :: byte) = length l" by (simp add: PeerListResponseMaxPeers_def unat_of_nat take_bit_eq_mod)
  have "decodes (andThen ReadByte (\<lambda>n. readPeers (unat n) (replicate 16 0))) ([of_nat (length l)] @ concat (map peerBytes l)) (map received_as l)"
    by (rule decodes_andThen [OF decodes_ReadByte]) (use decodes_readPeers [of "replicate 16 0" l] in \<open>simp add: n\<close>)
  from decodesD [OF this, of "BytesReader (([of_nat (length l)] @ concat (map peerBytes l)) @ rest)" rest]
  show "\<exists>bs. peerListPayload l = Some bs \<and>
      andThen ReadByte (\<lambda>n. readPeers (unat n) (replicate 16 0)) (BytesReader (bs @ rest)) = (Inr (map received_as l), BytesReader rest)"
    using len by (intro exI [of _ "of_nat (length l) # concat (map peerBytes l)"]) (simp add: peerListPayload_def not_less)
qed (simp_all add: peerListPayload_def received_version)

end
