(* ===== verification/Clients.thy ===== *)
theory Clients
  imports Peers Types
begin

text \<open>
  The connections of p2pool/p2p/server.go and client.go: how they come about, what closing and banning does to them and to the counters of the
  server, and the sending of messages.

  A client is an index into the list of all clients ever made (\<open>nd_clients\<close>); \<open>sv_clients\<close> holds the connected ones.  A write to a
  connection succeeds as long as it is \<open>cl_writable\<close>, and \<open>cl_sent\<close> is what has been written.  Dials under way are \<open>nd_dialing\<close>.  Operations
  that read the clock take the time as argument.  The record of the node is extended by the theories that need more of it.
  \<^verbatim>\<open>Close\<close> and \<^verbatim>\<open>Ban\<close> call each other: closing a client that has not finished its handshake bans its range, and banning closes all clients of
  the range.  That this ends is a theorem.
\<close>

section \<open>State\<close>

type_synonym challenge = "byte list"

record Client =
  cl_PeerId :: u64
  cl_Version :: PeerVersionInformation
  cl_ListenPort :: u32
  cl_AddressPort :: AddrPort
  cl_BroadcastMaxHeight :: u64
  cl_PingDuration :: u64
  cl_banError :: "error option"
  cl_LastBroadcast :: u64
  cl_LastBlockRequest :: u64
  cl_LastIncomingPeerListRequest :: "u64 option"
  cl_LastActive :: u64
  cl_LastPeerListRequest :: u64
  cl_NextPeerListRequest :: u64
  cl_expected :: byte
  cl_Incoming :: bool
  cl_Closed :: bool
  cl_HandshakeComplete :: bool
  cl_SentSolution :: bool
  cl_LastKnownTip :: "nat option"
  cl_Broadcasted :: "hash CircularBuffer"
  cl_Requested :: "hash CircularBuffer"
  cl_blockPending :: "hash list"
  cl_challenge :: challenge
  cl_writable :: bool
  cl_sent :: "(byte \<times> byte list) list"

record Node =
  nd_server :: Server
  nd_clients :: "Client list"
  nd_dialing :: "AddrPort list"

definition client :: "'a Node_scheme \<Rightarrow> nat \<Rightarrow> Client" where
  "client n c = nd_clients n ! c"

definition updClient :: "nat \<Rightarrow> (Client \<Rightarrow> Client) \<Rightarrow> 'a Node_scheme \<Rightarrow> 'a Node_scheme" where
  "updClient c f n = n\<lparr>nd_clients := (nd_clients n)[c := f (client n c)]\<rparr>"

definition updServer :: "(Server \<Rightarrow> Server) \<Rightarrow> 'a Node_scheme \<Rightarrow> 'a Node_scheme" where
  "updServer f n = n\<lparr>nd_server := f (nd_server n)\<rparr>"

abbreviation addrOf :: "'a Node_scheme \<Rightarrow> nat \<Rightarrow> Addr" where
  "addrOf n c \<equiv> fst (cl_AddressPort (client n c))"

definition DefaultBanTime :: u64 where "DefaultBanTime = 600"
definition MaxBufferSize :: nat where "MaxBufferSize = 128 * 1024"

definition NewClient :: "u64 \<Rightarrow> AddrPort \<Rightarrow> bool \<Rightarrow> Client" where
  "NewClient now ap incoming = \<lparr>cl_PeerId = 0, cl_Version = \<lparr>v_Protocol = 0, v_SoftwareVersion = 0, v_SoftwareId = 0\<rparr>, cl_ListenPort = 0,
     cl_AddressPort = ap, cl_BroadcastMaxHeight = 0, cl_PingDuration = 0, cl_banError = None, cl_LastBroadcast = 0, cl_LastBlockRequest = 0,
     cl_LastIncomingPeerListRequest = None, cl_LastActive = now, cl_LastPeerListRequest = 0, cl_NextPeerListRequest = 0, cl_expected = 0,
     cl_Incoming = incoming, cl_Closed = False, cl_HandshakeComplete = False, cl_SentSolution = False, cl_LastKnownTip = None,
     cl_Broadcasted = NewCircularBuffer 0 8, cl_Requested = NewCircularBuffer 0 16, cl_blockPending = [], cl_challenge = replicate 8 0,
     cl_writable = True, cl_sent = []\<rparr>"

definition IsGood :: "Client \<Rightarrow> bool" where
  "IsGood c \<longleftrightarrow> cl_HandshakeComplete c \<and> cl_ListenPort c > 0"

definition SetError :: "nat \<Rightarrow> error \<Rightarrow> 'a Node_scheme \<Rightarrow> 'a Node_scheme" where
  "SetError c err = updClient c (\<lambda>cl. if cl_banError cl = None then cl\<lparr>cl_banError := Some err\<rparr> else cl)"

section \<open>Closing and banning\<close>

text \<open>\<^verbatim>\<open>netip.Prefix.Contains\<close> for the range of a ban: an IPv4 range has no IPv6 address in it, also none that maps an IPv4 address.\<close>

definition inRange :: "Addr \<Rightarrow> Addr \<Rightarrow> bool" where
  "inRange ip a = (case (Unmap ip, a) of
      (Addr4 x, Addr4 y) \<Rightarrow> x = y
    | (Addr6 x, Addr6 y) \<Rightarrow> drop_bit 64 x = drop_bit 64 y
    | _ \<Rightarrow> False)"

definition GetAddressConnectedPrefix :: "'a Node_scheme \<Rightarrow> Addr \<Rightarrow> nat list" where
  "GetAddressConnectedPrefix n ip = filter (\<lambda>c. inRange ip (addrOf n c)) (sv_clients (nd_server n))"

definition GetAddressConnected :: "'a Node_scheme \<Rightarrow> Addr \<Rightarrow> nat list" where
  "GetAddressConnected n a = filter (\<lambda>c. addrOf n c = a) (sv_clients (nd_server n))"

text \<open>The end of \<^verbatim>\<open>Close\<close>: the client leaves the list of the server and the counters.\<close>

definition detach :: "nat \<Rightarrow> 'a Node_scheme \<Rightarrow> 'a Node_scheme" where
  "detach c n =
    updServer (\<lambda>s.
      let s = (if sv_fastestPeer s = Some c then s\<lparr>sv_fastestPeer := None\<rparr> else s) in
      if c \<in> set (sv_clients s) then
        let s = s\<lparr>sv_clients := remove1 c (sv_clients s)\<rparr> in
        if cl_Incoming (client n c) then s\<lparr>sv_numIncoming := sv_numIncoming s - 1\<rparr>
        else s\<lparr>sv_numOutgoing := sv_numOutgoing s - 1, sv_pending := Replace (sv_pending s) (Some (addrOf n c)) None\<rparr>
      else s) n"

text \<open>One operation after the other on a list of clients; \<open>None\<close> when one does not return.\<close>

fun foldO :: "('b \<Rightarrow> 's \<Rightarrow> 's option) \<Rightarrow> 'b list \<Rightarrow> 's \<Rightarrow> 's option" where
  "foldO f [] n = Some n"
| "foldO f (c # cs) n = Option.bind (f c n) (foldO f cs)"

lemma foldO_mono [partial_function_mono]:
  assumes "\<And>x n. mono_option (\<lambda>f. g f x n)"
  shows "mono_option (\<lambda>f. foldO (g f) xs n)"
proof (induction xs arbitrary: n)
  case (Cons x xs)
  show ?case unfolding foldO.simps by (intro bind_mono assms Cons)
qed (simp add: monotone_def option.leq_refl)

text \<open>\<^verbatim>\<open>Server.Ban\<close> and \<^verbatim>\<open>Client.Ban\<close>, over the operation that closes a client.\<close>

definition serverBanWith :: "(nat \<Rightarrow> 'a Node_scheme \<Rightarrow> 'a Node_scheme option) \<Rightarrow> u64 \<Rightarrow> Addr \<Rightarrow> u64 \<Rightarrow> error \<Rightarrow> 'a Node_scheme \<Rightarrow> 'a Node_scheme option" where
  "serverBanWith close now ip seconds err n =
    (if IsBanned (nd_server n) now ip \<noteq> None then Some n
     else if IsLoopback ip then Some n
     else let n = updServer (\<lambda>s. addBan s now ip seconds err) n in foldO close (GetAddressConnectedPrefix n ip) n)"

definition banWith :: "(nat \<Rightarrow> 'a Node_scheme \<Rightarrow> 'a Node_scheme option) \<Rightarrow> u64 \<Rightarrow> nat \<Rightarrow> u64 \<Rightarrow> error \<Rightarrow> 'a Node_scheme \<Rightarrow> 'a Node_scheme option" where
  "banWith close now c seconds err n =
    Option.bind (serverBanWith close now (addrOf n c) seconds err (SetError c err n)) (\<lambda>n.
      close c (updServer (\<lambda>s. RemoveFromPeerList s (addrOf n c)) n))"

text \<open>The three operations together; \<open>addrOf\<close> does not change.\<close>

lemma banWith_mono [partial_function_mono]:
  assumes "\<And>x n. mono_option (\<lambda>f. g f x n)"
  shows "mono_option (\<lambda>f. banWith (g f) now c seconds err n)"
  unfolding banWith_def serverBanWith_def Let_def by (intro bind_mono partial_function_mono assms)

partial_function (option) closeO :: "u64 \<Rightarrow> nat \<Rightarrow> 'a Node_scheme \<Rightarrow> 'a Node_scheme option" where
  "closeO now c n =
    (if cl_Closed (client n c) then Some n
     else let n = updClient c (\<lambda>cl. cl\<lparr>cl_Closed := True\<rparr>) n in
       Option.bind
         (if cl_HandshakeComplete (client n c) then Some n
          else banWith (closeO now) now c DefaultBanTime (Err ''disconnected before finishing handshake'') n)
         (\<lambda>n. Some (detach c n)))"

section \<open>Closing ends\<close>

lemma client_updClient: "d < length (nd_clients n) \<Longrightarrow> client (updClient c f n) d = (if d = c then f (client n c) else client n d)"
  by (cases "d = c") (simp_all add: client_def updClient_def)

lemma client_updClient_field: "(\<And>cl. P (f cl) = P cl) \<Longrightarrow> P (client (updClient c f n) d) = P (client n d)"
  by (cases "d = c"; cases "c < length (nd_clients n)") (simp_all add: client_def updClient_def list_update_beyond)

lemma updClient_fields [simp]:
  "length (nd_clients (updClient c f n)) = length (nd_clients n)" "nd_server (updClient c f n) = nd_server n"
  "nd_dialing (updClient c f n) = nd_dialing n" "Node.more (updClient c f n) = Node.more n"
  by (simp_all add: updClient_def)

lemma updServer_fields [simp]:
  "nd_clients (updServer g n) = nd_clients n" "nd_server (updServer g n) = g (nd_server n)"
  "nd_dialing (updServer g n) = nd_dialing n" "Node.more (updServer g n) = Node.more n" "client (updServer g n) d = client n d"
  by (simp_all add: updServer_def client_def)

lemma detach_fields [simp]:
  "nd_clients (detach c n) = nd_clients n" "nd_dialing (detach c n) = nd_dialing n" "Node.more (detach c n) = Node.more n"
  "client (detach c n) d = client n d" "sv_clients (nd_server (detach c n)) = remove1 c (sv_clients (nd_server n))"
  by (simp_all add: detach_def Let_def remove1_idem)

text \<open>The counters of the server agree with its list of clients and the dials under way.\<close>

definition conn_inv :: "'a Node_scheme \<Rightarrow> bool" where
  "conn_inv n \<longleftrightarrow>
    distinct (sv_clients (nd_server n)) \<and> (\<forall>c \<in> set (sv_clients (nd_server n)). c < length (nd_clients n)) \<and>
    sv_numIncoming (nd_server n) = int (length (filter (\<lambda>c. cl_Incoming (client n c)) (sv_clients (nd_server n)))) \<and>
    sv_numOutgoing (nd_server n) = int (length (filter (\<lambda>c. \<not> cl_Incoming (client n c)) (sv_clients (nd_server n)))) + int (length (nd_dialing n))"

text \<open>Clients that are closed and still listed, and those not yet closed.\<close>

definition stale :: "'a Node_scheme \<Rightarrow> nat set" where
  "stale n = {c \<in> set (sv_clients (nd_server n)). cl_Closed (client n c)}"

definition openSet :: "'a Node_scheme \<Rightarrow> nat set" where
  "openSet n = {c. c < length (nd_clients n) \<and> \<not> cl_Closed (client n c)}"

definition same_peer :: "Client \<Rightarrow> Client \<Rightarrow> bool" where
  "same_peer a b \<longleftrightarrow> a\<lparr>cl_Closed := True, cl_banError := None\<rparr> = b\<lparr>cl_Closed := True, cl_banError := None\<rparr>"

lemma same_peer_fields:
  "same_peer a b \<Longrightarrow> cl_AddressPort b = cl_AddressPort a \<and> cl_Incoming b = cl_Incoming a \<and> cl_HandshakeComplete b = cl_HandshakeComplete a"
  unfolding same_peer_def by (drule arg_cong [where f = "\<lambda>c. (cl_AddressPort c, cl_Incoming c, cl_HandshakeComplete c)"]) simp

text \<open>The settings of a server, which no operation changes.\<close>

definition config :: "Server \<Rightarrow> u64 \<times> PeerVersionInformation \<times> bool \<times> bool \<times> u16 \<times> u16 \<times> u32 \<times> u32" where
  "config s = (sv_peerId s, sv_version s, sv_useIPv4 s, sv_useIPv6 s, sv_listenPort s, sv_externalListenPort s, sv_maxOutgoing s, sv_maxIncoming s)"

text \<open>What closing changes: more clients are closed, fewer are listed, and nothing else of the clients changes.\<close>

definition shuts :: "u64 \<Rightarrow> 'a Node_scheme \<Rightarrow> 'a Node_scheme \<Rightarrow> bool" where
  "shuts now n n' \<longleftrightarrow>
    length (nd_clients n') = length (nd_clients n) \<and>
    (\<forall>d < length (nd_clients n). same_peer (client n d) (client n' d) \<and> (cl_Closed (client n d) \<longrightarrow> cl_Closed (client n' d))) \<and>
    set (sv_clients (nd_server n')) \<subseteq> set (sv_clients (nd_server n)) \<and> nd_dialing n' = nd_dialing n \<and> Node.more n' = Node.more n \<and>
    (\<forall>a b. IsBanned (nd_server n) now a = Some b \<longrightarrow> IsBanned (nd_server n') now a = Some b) \<and>
    (peers_ok (nd_server n) \<longrightarrow> peers_ok (nd_server n')) \<and> config (nd_server n') = config (nd_server n)"

lemma shuts_refl [simp, intro]: "shuts now n n"
  by (simp add: shuts_def same_peer_def)

lemma shuts_trans: "shuts now a b \<Longrightarrow> shuts now b c \<Longrightarrow> shuts now a c"
  unfolding shuts_def same_peer_def by (smt (verit) subset_trans)

lemma shuts_open: "shuts now n n' \<Longrightarrow> card (openSet n') \<le> card (openSet n)"
  by (rule card_mono) (auto simp: shuts_def openSet_def)

lemma shuts_server:
  "sv_clients (g (nd_server n)) = sv_clients (nd_server n) \<Longrightarrow> (\<And>a b. IsBanned (nd_server n) now a = Some b \<Longrightarrow> IsBanned (g (nd_server n)) now a = Some b) \<Longrightarrow>
   (peers_ok (nd_server n) \<Longrightarrow> peers_ok (g (nd_server n))) \<Longrightarrow> config (g (nd_server n)) = config (nd_server n) \<Longrightarrow> shuts now n (updServer g n)"
  by (simp add: shuts_def same_peer_def)

lemma conn_inv_server:
  "sv_clients (g (nd_server n)) = sv_clients (nd_server n) \<Longrightarrow> sv_numIncoming (g (nd_server n)) = sv_numIncoming (nd_server n) \<Longrightarrow>
   sv_numOutgoing (g (nd_server n)) = sv_numOutgoing (nd_server n) \<Longrightarrow> conn_inv n \<Longrightarrow> conn_inv (updServer g n)"
  by (simp add: conn_inv_def)

lemma conn_inv_client: "(\<And>cl. cl_Incoming (f cl) = cl_Incoming cl) \<Longrightarrow> conn_inv n \<Longrightarrow> conn_inv (updClient c f n)"
proof -
  assume f: "\<And>cl. cl_Incoming (f cl) = cl_Incoming cl" and inv: "conn_inv n"
  have "cl_Incoming (client (updClient c f n) d) = cl_Incoming (client n d)" if "d \<in> set (sv_clients (nd_server n))" for d
    using that inv f by (auto simp: client_updClient conn_inv_def)
  then have "filter (\<lambda>d. cl_Incoming (client (updClient c f n) d)) (sv_clients (nd_server n)) = filter (\<lambda>d. cl_Incoming (client n d)) (sv_clients (nd_server n))"
    "filter (\<lambda>d. \<not> cl_Incoming (client (updClient c f n) d)) (sv_clients (nd_server n)) = filter (\<lambda>d. \<not> cl_Incoming (client n d)) (sv_clients (nd_server n))"
    by (auto intro: filter_cong)
  then show "conn_inv (updClient c f n)" using inv by (simp add: conn_inv_def)
qed

lemma shuts_client: "(\<And>cl. same_peer cl (f cl) \<and> (cl_Closed cl \<longrightarrow> cl_Closed (f cl))) \<Longrightarrow> shuts now n (updClient c f n)"
  by (auto simp: shuts_def client_updClient same_peer_def)

lemma length_filter_remove1:
  "c \<in> set xs \<Longrightarrow> P c \<Longrightarrow> int (length (filter P (remove1 c xs))) = int (length (filter P xs)) - 1"
  "\<not> P c \<Longrightarrow> filter P (remove1 c xs) = filter P xs"
  by (induction xs) auto

lemma detach_inv: "conn_inv n \<Longrightarrow> conn_inv (detach c n)"
proof (cases "c \<in> set (sv_clients (nd_server n))")
  case True
  assume "conn_inv n"
  then show ?thesis using True set_remove1_subset [of c "sv_clients (nd_server n)"]
    by (cases "cl_Incoming (client n c)") (auto simp: conn_inv_def detach_def Let_def client_def [symmetric] length_filter_remove1)
next
  case False
  assume "conn_inv n"
  then show ?thesis unfolding detach_def by (rule conn_inv_server [rotated 3]) (use False in \<open>simp_all add: Let_def\<close>)
qed

lemma detach_shuts: "shuts now n (detach c n)"
proof -
  have "sv_bans (nd_server (detach c n)) = sv_bans (nd_server n)" "sv_peerList (nd_server (detach c n)) = sv_peerList (nd_server n)"
    "sv_useIPv4 (nd_server (detach c n)) = sv_useIPv4 (nd_server n)" "sv_useIPv6 (nd_server (detach c n)) = sv_useIPv6 (nd_server n)"
    "config (nd_server (detach c n)) = config (nd_server n)"
    by (simp_all add: detach_def Let_def config_def)
  then show ?thesis using set_remove1_subset [of c "sv_clients (nd_server n)"] peers_ok_fields [of "nd_server n" "nd_server (detach c n)"]
    by (auto simp: shuts_def same_peer_def IsBanned_def)
qed

lemma addBan_keeps: "IsBanned s now ip = None \<Longrightarrow> \<not> IsLoopback ip \<Longrightarrow> IsBanned s now a = Some b \<Longrightarrow> IsBanned (addBan s now ip seconds err) now a = Some b"
  by (auto simp: IsBanned_def addBan_def banKey_def same_range_def split: option.splits if_splits)

text \<open>The contract of an operation that closes a client, for nodes with at most \<open>k\<close> open ones.\<close>

definition closes :: "u64 \<Rightarrow> nat \<Rightarrow> (nat \<Rightarrow> 'a Node_scheme \<Rightarrow> 'a Node_scheme option) \<Rightarrow> bool" where
  "closes now k close \<longleftrightarrow> (\<forall>c n. conn_inv n \<and> c < length (nd_clients n) \<and> card (openSet n) \<le> k \<longrightarrow>
     (\<exists>n'. close c n = Some n' \<and> conn_inv n' \<and> shuts now n n' \<and> stale n' \<subseteq> stale n \<and> cl_Closed (client n' c)))"

lemma closesD:
  "closes now k close \<Longrightarrow> conn_inv n \<Longrightarrow> c < length (nd_clients n) \<Longrightarrow> card (openSet n) \<le> k \<Longrightarrow>
     \<exists>n'. close c n = Some n' \<and> conn_inv n' \<and> shuts now n n' \<and> stale n' \<subseteq> stale n \<and> cl_Closed (client n' c)"
  by (simp add: closes_def)

lemma foldO_closes:
  assumes "closes now k close" "conn_inv n" "\<forall>c \<in> set cs. c < length (nd_clients n)" "card (openSet n) \<le> k"
  shows "\<exists>n'. foldO close cs n = Some n' \<and> conn_inv n' \<and> shuts now n n' \<and> stale n' \<subseteq> stale n \<and> (\<forall>c \<in> set cs. cl_Closed (client n' c))"
  using assms(2-4)
proof (induction cs arbitrary: n)
  case (Cons c cs)
  then obtain n1 where n1: "close c n = Some n1" "conn_inv n1" "shuts now n n1" "stale n1 \<subseteq> stale n" "cl_Closed (client n1 c)"
    using closesD [OF assms(1), of n c] by auto
  have len: "length (nd_clients n1) = length (nd_clients n)" using n1(3) by (simp add: shuts_def)
  obtain n2 where n2: "foldO close cs n1 = Some n2" "conn_inv n2" "shuts now n1 n2" "stale n2 \<subseteq> stale n1" "\<forall>c \<in> set cs. cl_Closed (client n2 c)"
    using Cons.IH [of n1] n1 Cons.prems len shuts_open [OF n1(3)] by auto
  have "cl_Closed (client n2 c)" using n1(5) n2(3) Cons.prems(2) len by (simp add: shuts_def)
  then show ?case using n1 n2 shuts_trans [OF n1(3) n2(3)] by auto
qed simp

lemma addBan_clients [simp]: "sv_clients (addBan s now ip seconds err) = sv_clients s" "sv_numIncoming (addBan s now ip seconds err) = sv_numIncoming s"
  "sv_numOutgoing (addBan s now ip seconds err) = sv_numOutgoing s"
  by (simp_all add: addBan_def)

lemma Remove_clients [simp]: "IsBanned (RemoveFromPeerList s a) = IsBanned s" "sv_clients (RemoveFromPeerList s a) = sv_clients s" "sv_numIncoming (RemoveFromPeerList s a) = sv_numIncoming s" "config (RemoveFromPeerList s a) = config s"
  "sv_numOutgoing (RemoveFromPeerList s a) = sv_numOutgoing s"
  by (auto simp: RemoveFromPeerList_def IsBanned_def fun_eq_iff config_def)

lemma stale_server: "sv_clients (g (nd_server n)) = sv_clients (nd_server n) \<Longrightarrow> stale (updServer g n) = stale n"
  by (simp add: stale_def)

lemma openSet_server [simp]: "openSet (updServer g n) = openSet n"
  by (simp add: openSet_def)

text \<open>The ban of an address after banning it: a ban in force stays as it is.\<close>

definition ban_after :: "Server \<Rightarrow> u64 \<Rightarrow> Addr \<Rightarrow> u64 \<Rightarrow> error \<Rightarrow> BanEntry" where
  "ban_after s now ip seconds err = (case IsBanned s now ip of None \<Rightarrow> \<lparr>bn_Expiration = now + seconds, bn_Error = err\<rparr> | Some b \<Rightarrow> b)"

lemma serverBanWith_ok:
  assumes "closes now k close" "conn_inv n" "card (openSet n) \<le> k"
  shows "\<exists>n'. serverBanWith close now ip seconds err n = Some n' \<and> conn_inv n' \<and> shuts now n n' \<and> stale n' \<subseteq> stale n \<and>
    (IsBanned (nd_server n) now ip = None \<and> \<not> IsLoopback ip \<longrightarrow> (\<forall>c \<in> set (GetAddressConnectedPrefix n ip). cl_Closed (client n' c))) \<and>
    (\<not> IsLoopback ip \<and> now < now + seconds \<longrightarrow> IsBanned (nd_server n') now ip = Some (ban_after (nd_server n) now ip seconds err))"
proof (cases "IsBanned (nd_server n) now ip = None \<and> \<not> IsLoopback ip")
  case True
  let ?n = "updServer (\<lambda>s. addBan s now ip seconds err) n"
  have inv: "conn_inv ?n" "stale ?n = stale n" using assms(2) by (simp_all add: conn_inv_server stale_server)
  have same: "GetAddressConnectedPrefix ?n ip = GetAddressConnectedPrefix n ip" by (simp add: GetAddressConnectedPrefix_def)
  have "\<forall>c \<in> set (GetAddressConnectedPrefix ?n ip). c < length (nd_clients ?n)" using assms(2) by (auto simp: GetAddressConnectedPrefix_def conn_inv_def)
  from foldO_closes [OF assms(1) inv(1) this] assms(3) obtain n' where
    fold: "foldO close (GetAddressConnectedPrefix ?n ip) ?n = Some n'" and "conn_inv n'" "shuts now ?n n'" "stale n' \<subseteq> stale n"
    and all: "\<forall>c \<in> set (GetAddressConnectedPrefix n ip). cl_Closed (client n' c)"
    by (auto simp: inv same)
  moreover have "shuts now n ?n" using True
    by (intro shuts_server addBan_keeps) (auto simp: addBan_def config_def intro: peers_ok_fields)
  moreover have "now < now + seconds \<Longrightarrow> IsBanned (nd_server ?n) now ip = Some (ban_after (nd_server n) now ip seconds err)"
    using True by (simp add: ban_after_def) (simp add: IsBanned_def addBan_def)
  ultimately have "now < now + seconds \<Longrightarrow> IsBanned (nd_server n') now ip = Some (ban_after (nd_server n) now ip seconds err)" unfolding shuts_def by metis
  moreover have "shuts now n n'" using \<open>shuts now n ?n\<close> \<open>shuts now ?n n'\<close> by (rule shuts_trans)
  ultimately show ?thesis using True fold \<open>conn_inv n'\<close> \<open>stale n' \<subseteq> stale n\<close> all by (auto simp: serverBanWith_def Let_def)
qed (auto simp: serverBanWith_def ban_after_def assms(2))

lemma banWith_ok:
  assumes "closes now k close" "conn_inv n" "c < length (nd_clients n)" "card (openSet n) \<le> k"
  shows "\<exists>n'. banWith close now c seconds err n = Some n' \<and> conn_inv n' \<and> shuts now n n' \<and> stale n' \<subseteq> stale n \<and> cl_Closed (client n' c) \<and>
    (IsBanned (nd_server n) now (addrOf n c) = None \<and> \<not> IsLoopback (addrOf n c) \<longrightarrow>
       (\<forall>d \<in> set (GetAddressConnectedPrefix n (addrOf n c)). cl_Closed (client n' d))) \<and>
    (\<not> IsLoopback (addrOf n c) \<and> now < now + seconds \<longrightarrow>
       IsBanned (nd_server n') now (addrOf n c) = Some (ban_after (nd_server n) now (addrOf n c) seconds err))"
proof -
  let ?n = "SetError c err n"
  have e: "shuts now n ?n" unfolding SetError_def by (rule shuts_client) (simp add: same_peer_def)
  have inv: "conn_inv ?n" unfolding SetError_def by (rule conn_inv_client) (simp_all add: assms(2))
  have st: "stale ?n = stale n" and srv: "nd_server ?n = nd_server n"
    using assms(2) by (auto simp: stale_def SetError_def client_updClient conn_inv_def split: if_splits)
  have pre: "GetAddressConnectedPrefix ?n a = GetAddressConnectedPrefix n a" for a
    using e assms(2) by (auto simp: GetAddressConnectedPrefix_def srv shuts_def conn_inv_def dest!: same_peer_fields intro!: filter_cong)
  obtain n1 where n1: "serverBanWith close now (addrOf n c) seconds err ?n = Some n1" "conn_inv n1" "shuts now ?n n1" "stale n1 \<subseteq> stale n"
    "IsBanned (nd_server n) now (addrOf n c) = None \<and> \<not> IsLoopback (addrOf n c) \<longrightarrow> (\<forall>d \<in> set (GetAddressConnectedPrefix n (addrOf n c)). cl_Closed (client n1 d))"
    "\<not> IsLoopback (addrOf n c) \<and> now < now + seconds \<longrightarrow> IsBanned (nd_server n1) now (addrOf n c) = Some (ban_after (nd_server n) now (addrOf n c) seconds err)"
    using serverBanWith_ok [OF assms(1) inv order_trans [OF shuts_open [OF e] assms(4)], of "addrOf n c" seconds err]
    unfolding st srv pre by blast
  let ?n1 = "updServer (\<lambda>s. RemoveFromPeerList s (addrOf n1 c)) n1"
  have to1: "shuts now n n1" "shuts now n1 ?n1" using shuts_trans [OF e n1(3)] by (auto intro!: shuts_server RemoveFromPeerList_ok)
  have len: "length (nd_clients n1) = length (nd_clients n)" using to1(1) by (simp add: shuts_def)
  have "conn_inv ?n1" "stale ?n1 = stale n1" using n1(2) by (simp_all add: conn_inv_server stale_server)
  then obtain n2 where n2: "close c ?n1 = Some n2" "conn_inv n2" "shuts now ?n1 n2" "stale n2 \<subseteq> stale n1" "cl_Closed (client n2 c)"
    using closesD [OF assms(1), of ?n1 c] assms(3,4) len shuts_open [OF to1(1)] by auto
  have "shuts now n1 n2" by (rule shuts_trans [OF to1(2) n2(3)])
  moreover have "d < length (nd_clients n)" if "d \<in> set (GetAddressConnectedPrefix n a)" for a d
    using that assms(2) by (auto simp: GetAddressConnectedPrefix_def conn_inv_def)
  ultimately have "cl_Closed (client n1 d) \<Longrightarrow> cl_Closed (client n2 d)" if "d \<in> set (GetAddressConnectedPrefix n a)" for a d
    using that len by (simp add: shuts_def)
  moreover have "IsBanned (nd_server n1) now a = Some b \<Longrightarrow> IsBanned (nd_server n2) now a = Some b" for a b
    using \<open>shuts now n1 n2\<close> unfolding shuts_def by blast
  ultimately show ?thesis using n1 n2 shuts_trans [OF to1(1) \<open>shuts now n1 n2\<close>] by (fastforce simp: banWith_def)
qed

lemma closeO_closes: "closes now k (closeO now)"
proof (induction k)
  case 0
  have "cl_Closed (client n c)" if "c < length (nd_clients n)" "card (openSet n) \<le> 0" for n :: "'a Node_scheme" and c
  proof -
    have "finite (openSet n)" by (simp add: openSet_def)
    then show ?thesis using that by (auto simp: openSet_def)
  qed
  then show ?case by (subst closes_def, subst closeO.simps) auto
next
  case (Suc k)
  show ?case unfolding closes_def
  proof (intro allI impI, elim conjE)
    fix c and n :: "'a Node_scheme"
    assume inv: "conn_inv n" and c: "c < length (nd_clients n)" and k: "card (openSet n) \<le> Suc k"
    show "\<exists>n'. closeO now c n = Some n' \<and> conn_inv n' \<and> shuts now n n' \<and> stale n' \<subseteq> stale n \<and> cl_Closed (client n' c)"
    proof (cases "cl_Closed (client n c)")
      case True
      then show ?thesis using inv by (subst closeO.simps) auto
    next
      case False
      let ?n = "updClient c (\<lambda>cl. cl\<lparr>cl_Closed := True\<rparr>) n"
      have s1: "shuts now n ?n" by (rule shuts_client) (simp add: same_peer_def)
      have i1: "conn_inv ?n" by (rule conn_inv_client) (simp_all add: inv)
      have st: "stale ?n \<subseteq> insert c (stale n)" using inv by (auto simp: stale_def client_updClient conn_inv_def split: if_splits)
      have "openSet ?n = openSet n - {c}" by (auto simp: openSet_def client_updClient split: if_splits)
      then have k1: "card (openSet ?n) \<le> k" using k False c by (simp add: openSet_def card_Diff_singleton)
      obtain n1 where n1: "(if cl_HandshakeComplete (client ?n c) then Some ?n
            else banWith (closeO now) now c DefaultBanTime (Err ''disconnected before finishing handshake'') ?n) = Some n1"
          "conn_inv n1" "shuts now ?n n1" "stale n1 \<subseteq> stale ?n" "cl_Closed (client n1 c)"
        using banWith_ok [OF Suc i1 _ k1, of c DefaultBanTime "Err ''disconnected before finishing handshake''"] i1 c by (cases "cl_HandshakeComplete (client ?n c)") (auto simp: client_updClient)
      have "closeO now c n = Some (detach c n1)" using False n1(1) by (subst closeO.simps) (simp add: Let_def)
      moreover have "shuts now n (detach c n1)" using shuts_trans [OF shuts_trans [OF s1 n1(3)] detach_shuts] .
      moreover have "stale (detach c n1) \<subseteq> stale n" using st n1(2,4) by (auto simp: stale_def conn_inv_def)
      ultimately show ?thesis using n1 detach_inv by auto
    qed
  qed
qed

section \<open>The operations\<close>

text \<open>\<^verbatim>\<open>Client.Close\<close>, \<^verbatim>\<open>Client.Ban\<close> and \<^verbatim>\<open>Server.Ban\<close>; the default is not met.\<close>

definition orSame :: "'a \<Rightarrow> 'a option \<Rightarrow> 'a" where
  "orSame n r = (case r of Some n' \<Rightarrow> n' | None \<Rightarrow> n)"

definition Close :: "u64 \<Rightarrow> nat \<Rightarrow> 'a Node_scheme \<Rightarrow> 'a Node_scheme" where
  "Close now c n = orSame n (closeO now c n)"

definition Ban :: "u64 \<Rightarrow> nat \<Rightarrow> u64 \<Rightarrow> error \<Rightarrow> 'a Node_scheme \<Rightarrow> 'a Node_scheme" where
  "Ban now c seconds err n = orSame n (banWith (closeO now) now c seconds err n)"

definition Server_Ban :: "u64 \<Rightarrow> Addr \<Rightarrow> u64 \<Rightarrow> error \<Rightarrow> 'a Node_scheme \<Rightarrow> 'a Node_scheme" where
  "Server_Ban now ip seconds err n = orSame n (serverBanWith (closeO now) now ip seconds err n)"

definition SendMessage :: "u64 \<Rightarrow> nat \<Rightarrow> byte \<Rightarrow> byte list \<Rightarrow> 'a Node_scheme \<Rightarrow> 'a Node_scheme" where
  "SendMessage now c messageId buffer n =
    (if cl_Closed (client n c) then n
     else if length buffer + 1 > MaxBufferSize then Close now c n
     else if cl_writable (client n c) then updClient c (\<lambda>cl. cl\<lparr>cl_sent := cl_sent cl @ [(messageId, buffer)]\<rparr>) n
     else Close now c n)"

text \<open>A connection that \<^verbatim>\<open>Listen\<close> has accepted: rejected, or a new client.\<close>

definition rejectIncoming :: "'a Node_scheme \<Rightarrow> u64 \<Rightarrow> AddrPort \<Rightarrow> error option" where
  "rejectIncoming n now ap =
    (let s = nd_server n in
     if word_of_int (sv_numIncoming s) > sv_maxIncoming s then Some (Err ''incoming connections limit was reached'')
     else if IsLoopback (fst ap) then None
     else if GetAddressConnected n (fst ap) \<noteq> [] then Some (Err ''peer is already connected'')
     else if \<not> sv_useIPv4 s \<and> Is4 (Unmap (fst ap)) then Some (Err ''peer is IPv4 but we do not allow it'')
     else if \<not> sv_useIPv6 s \<and> Is6 (Unmap (fst ap)) then Some (Err ''peer is IPv6 but we do not allow it'')
     else if IsBanned s now (Unmap (fst ap)) \<noteq> None then Some (Err ''peer is banned'')
     else None)"

definition attach :: "u64 \<Rightarrow> AddrPort \<Rightarrow> bool \<Rightarrow> 'a Node_scheme \<Rightarrow> 'a Node_scheme" where
  "attach now ap incoming n =
    updServer (\<lambda>s. s\<lparr>sv_clients := sv_clients s @ [length (nd_clients n)]\<rparr>) (n\<lparr>nd_clients := nd_clients n @ [NewClient now ap incoming]\<rparr>)"

definition accept :: "u64 \<Rightarrow> AddrPort \<Rightarrow> 'a Node_scheme \<Rightarrow> 'a Node_scheme" where
  "accept now ap n =
    (if rejectIncoming n now ap \<noteq> None then n
     else updServer (\<lambda>s. s\<lparr>sv_numIncoming := sv_numIncoming s + 1\<rparr>) (attach now ap True n))"

text \<open>\<^verbatim>\<open>DirectConnect\<close> up to the dial, and after it failed or succeeded.  The remote address of a connection is in its plain form.\<close>

definition startDial :: "'a Node_scheme \<Rightarrow> AddrPort \<Rightarrow> (error + 'a Node_scheme) result" where
  "startDial n ap =
    (let s = nd_server n; a = Unmap (fst ap) in
     if \<not> sv_useIPv4 s \<and> Is4 a then Inr (Inl (Err ''peer is IPv4 but we do not allow it''))
     else if \<not> sv_useIPv6 s \<and> Is6 a then Inr (Inl (Err ''peer is IPv6 but we do not allow it''))
     else if \<not> IsLoopback (fst ap) \<and> GetAddressConnected n (fst ap) \<noteq> [] then Inr (Inl (Err ''peer is already connected''))
     else bindR (PushUnique (sv_pending s) (Some (fst ap))) (\<lambda>(fresh, pending).
       if \<not> fresh then Inr (Inl (Err ''peer is already attempting connection''))
       else Inr (Inr (updServer (\<lambda>s. s\<lparr>sv_pending := pending, sv_numOutgoing := sv_numOutgoing s + 1\<rparr>) (n\<lparr>nd_dialing := ap # nd_dialing n\<rparr>)))))"

definition dialFailed :: "AddrPort \<Rightarrow> 'a Node_scheme \<Rightarrow> 'a Node_scheme" where
  "dialFailed ap n = updServer (\<lambda>s. connectionFailed s (fst ap)) (n\<lparr>nd_dialing := remove1 ap (nd_dialing n)\<rparr>)"

definition dialDone :: "u64 \<Rightarrow> AddrPort \<Rightarrow> 'a Node_scheme \<Rightarrow> 'a Node_scheme" where
  "dialDone now ap n = attach now (Unmap (fst ap), snd ap) False (n\<lparr>nd_dialing := remove1 ap (nd_dialing n)\<rparr>)"

definition Connect :: "u64 \<Rightarrow> 'a Node_scheme \<Rightarrow> AddrPort \<Rightarrow> (error + 'a Node_scheme) result" where
  "Connect now n ap = (if IsBanned (nd_server n) now (fst ap) \<noteq> None then Inr (Inl (Err ''peer is banned'')) else startDial n ap)"

subsection \<open>Closing and banning always return\<close>

lemma closes_all: "closes now (card (openSet n)) (closeO now)"
  by (rule closeO_closes)

lemma Close_ok:
  assumes "conn_inv n" "c < length (nd_clients n)"
  shows "closeO now c n = Some (Close now c n) \<and> conn_inv (Close now c n) \<and> shuts now n (Close now c n) \<and> stale (Close now c n) \<subseteq> stale n \<and>
    cl_Closed (client (Close now c n) c)"
  using closesD [OF closes_all assms order_refl, of now] by (auto simp: Close_def orSame_def)

lemma Ban_ok:
  assumes "conn_inv n" "c < length (nd_clients n)"
  shows "banWith (closeO now) now c seconds err n = Some (Ban now c seconds err n) \<and> conn_inv (Ban now c seconds err n) \<and>
    shuts now n (Ban now c seconds err n) \<and> stale (Ban now c seconds err n) \<subseteq> stale n \<and> cl_Closed (client (Ban now c seconds err n) c)"
  using banWith_ok [OF closes_all assms order_refl, of now seconds err] by (auto simp: Ban_def orSame_def)

lemma Server_Ban_ok:
  assumes "conn_inv n"
  shows "serverBanWith (closeO now) now ip seconds err n = Some (Server_Ban now ip seconds err n) \<and> conn_inv (Server_Ban now ip seconds err n) \<and>
    shuts now n (Server_Ban now ip seconds err n) \<and> stale (Server_Ban now ip seconds err n) \<subseteq> stale n"
  using serverBanWith_ok [OF closes_all assms order_refl, of now ip seconds err] by (auto simp: Server_Ban_def orSame_def)

lemma foldO_Close:
  assumes "conn_inv n" "\<forall>c \<in> set cs. c < length (nd_clients n)"
  shows "foldO (closeO now) cs n = Some (fold (Close now) cs n)"
  using assms
proof (induction cs arbitrary: n)
  case (Cons c cs)
  have ok: "closeO now c n = Some (Close now c n)" "conn_inv (Close now c n)" "length (nd_clients (Close now c n)) = length (nd_clients n)"
    using Close_ok [of n c now] Cons.prems by (auto simp: shuts_def)
  then show ?case using Cons.IH [of "Close now c n"] Cons.prems by simp
qed simp

lemma range_valid: "conn_inv n \<Longrightarrow> \<forall>c \<in> set (GetAddressConnectedPrefix n ip). c < length (nd_clients n)"
  by (auto simp: GetAddressConnectedPrefix_def conn_inv_def)

lemma SetError_ok: "conn_inv n \<Longrightarrow> conn_inv (SetError c err n)" "length (nd_clients (SetError c err n)) = length (nd_clients n)"
  by (auto simp: SetError_def split: if_splits intro!: conn_inv_client)

text \<open>Closing and banning end.  On every state in which the counters agree with the list of clients, \<^verbatim>\<open>Client.Close\<close>,
\<^verbatim>\<open>Client.Ban\<close> and \<^verbatim>\<open>Server.Ban\<close>, which call each other, return, and what they return satisfies the equations the code gives:
a client is marked closed first, is banned when it had not finished the handshake, and leaves the list last; a ban records the error, bans the range
of the address and closes all its clients one after the other, forgets the peer and closes the client.\<close>

lemma Close_Ban_equations:
  assumes "conn_inv n" and "c < length (nd_clients n)"
  shows "closeO now c n = Some (Close now c n) \<and>
    Close now c n =
      (if cl_Closed (client n c) then n
       else let n1 = updClient c (\<lambda>cl. cl\<lparr>cl_Closed := True\<rparr>) n in
         detach c (if cl_HandshakeComplete (client n c) then n1
                   else Ban now c DefaultBanTime (Err ''disconnected before finishing handshake'') n1)) \<and>
    Ban now c seconds err n =
      (let n1 = Server_Ban now (addrOf n c) seconds err (SetError c err n) in
       Close now c (updServer (\<lambda>s. RemoveFromPeerList s (addrOf n1 c)) n1)) \<and>
    Server_Ban now ip seconds err n =
      (if IsBanned (nd_server n) now ip \<noteq> None \<or> IsLoopback ip then n
       else let n1 = updServer (\<lambda>s. addBan s now ip seconds err) n in fold (Close now) (GetAddressConnectedPrefix n1 ip) n1)"
proof (intro conjI)
  show c: "closeO now c n = Some (Close now c n)" using Close_ok [OF assms] by simp
  let ?n = "updClient c (\<lambda>cl. cl\<lparr>cl_Closed := True\<rparr>) n"
  have inv: "conn_inv ?n" by (rule conn_inv_client) (simp_all add: assms(1))
  have b: "banWith (closeO now) now c DefaultBanTime (Err ''disconnected before finishing handshake'') ?n =
      Some (Ban now c DefaultBanTime (Err ''disconnected before finishing handshake'') ?n)"
    using Ban_ok [OF inv, of c] assms(2) by simp
  show "Close now c n = (if cl_Closed (client n c) then n
       else let n1 = ?n in detach c (if cl_HandshakeComplete (client n c) then n1
                   else Ban now c DefaultBanTime (Err ''disconnected before finishing handshake'') n1))"
    using c b assms(2) closeO.simps [of now c n] by (simp add: Let_def client_updClient split: if_splits)
next
  let ?n = "SetError c err n" let ?n1 = "Server_Ban now (addrOf n c) seconds err ?n"
  have ok: "serverBanWith (closeO now) now (addrOf n c) seconds err ?n = Some ?n1" "conn_inv ?n1" "length (nd_clients ?n1) = length (nd_clients n)"
    using Server_Ban_ok [OF SetError_ok(1) [OF assms(1)], of now "addrOf n c" seconds err c err] SetError_ok(2) [of c err n] by (auto simp: shuts_def)
  have "conn_inv (updServer (\<lambda>s. RemoveFromPeerList s (addrOf ?n1 c)) ?n1)" using ok(2) by (simp add: conn_inv_server)
  then show "Ban now c seconds err n = (let n1 = ?n1 in Close now c (updServer (\<lambda>s. RemoveFromPeerList s (addrOf n1 c)) n1))"
    using ok assms(2) Close_ok [of "updServer (\<lambda>s. RemoveFromPeerList s (addrOf ?n1 c)) ?n1" c now] by (simp add: Ban_def banWith_def Let_def orSame_def)
next
  let ?n = "updServer (\<lambda>s. addBan s now ip seconds err) n"
  have inv: "conn_inv ?n" using assms(1) by (simp add: conn_inv_server)
  show "Server_Ban now ip seconds err n =
      (if IsBanned (nd_server n) now ip \<noteq> None \<or> IsLoopback ip then n else let n1 = ?n in fold (Close now) (GetAddressConnectedPrefix n1 ip) n1)"
    using foldO_Close [OF inv range_valid [OF inv], of now ip] by (auto simp: Server_Ban_def serverBanWith_def Let_def orSame_def)
qed

section \<open>All histories of connections\<close>

definition NewNode :: "Server \<Rightarrow> Node" where
  "NewNode s = \<lparr>nd_server = s, nd_clients = [], nd_dialing = []\<rparr>"

text \<open>What can happen to the connections of a server, in any order: connections come in, dials start and end, clients are closed or banned and are
  sent messages, the peer list changes, and a client changes in other fields than those that place it.\<close>

inductive conn_step :: "Node \<Rightarrow> Node \<Rightarrow> bool" where
  accepted: "conn_step n (accept now ap n)"
| dialing: "Connect now n ap = Inr (Inr n') \<Longrightarrow> conn_step n n'"
| directly: "startDial n ap = Inr (Inr n') \<Longrightarrow> conn_step n n'"
| failed: "ap \<in> set (nd_dialing n) \<Longrightarrow> conn_step n (dialFailed ap n)"
| connected: "ap \<in> set (nd_dialing n) \<Longrightarrow> conn_step n (dialDone now ap n)"
| closed: "c < length (nd_clients n) \<Longrightarrow> conn_step n (Close now c n)"
| banned: "c < length (nd_clients n) \<Longrightarrow> conn_step n (Ban now c seconds err n)"
| banned_range: "conn_step n (Server_Ban now ip seconds err n)"
| sent: "c < length (nd_clients n) \<Longrightarrow> conn_step n (SendMessage now c i bs n)"
| peer_added: "conn_step n (updServer (\<lambda>s. AddToPeerList s now ap) n)"
| peer_updated: "conn_step n (updServer (\<lambda>s. UpdateInPeerList s now ap) n)"
| peers_forgotten: "conn_step n (updServer (\<lambda>s. forgetOldPeers s connected now) n)"
| bans_cleaned: "conn_step n (updServer (\<lambda>s. CleanupBanList s now) n)"
| changed: "(\<And>cl. cl_Incoming (f cl) = cl_Incoming cl \<and> cl_Closed (f cl) = cl_Closed cl \<and> cl_AddressPort (f cl) = cl_AddressPort cl) \<Longrightarrow>
    conn_step n (updClient c f n)"

inductive conn_reach :: "Server \<Rightarrow> Node \<Rightarrow> bool" for s where
  start: "conn_reach s (NewNode s)"
| step: "conn_reach s n \<Longrightarrow> conn_step n n' \<Longrightarrow> conn_reach s n'"

definition server_new :: "Server \<Rightarrow> bool" where
  "server_new s \<longleftrightarrow> (\<exists>peerId listenPort ext maxOut maxIn use4 use6. s = NewServer peerId listenPort ext maxOut maxIn use4 use6)"

definition node_inv :: "Node \<Rightarrow> bool" where
  "node_inv n \<longleftrightarrow> conn_inv n \<and> stale n = {} \<and> peers_ok (nd_server n) \<and>
    sv_maxIncoming (nd_server n) \<le> 450 \<and> sv_numIncoming (nd_server n) \<le> int (unat (sv_maxIncoming (nd_server n))) + 1"

lemma attach_fields [simp]:
  "nd_server (attach now ap inc n) = (nd_server n)\<lparr>sv_clients := sv_clients (nd_server n) @ [length (nd_clients n)]\<rparr>"
  "nd_clients (attach now ap inc n) = nd_clients n @ [NewClient now ap inc]" "nd_dialing (attach now ap inc n) = nd_dialing n"
  by (simp_all add: attach_def)

lemma attach_client:
  "d < length (nd_clients n) \<Longrightarrow> client (attach now ap inc n) d = client n d"
  "client (attach now ap inc n) (length (nd_clients n)) = NewClient now ap inc"
  by (simp_all add: client_def nth_append)

lemma attach_filter:
  assumes "\<forall>c \<in> set (sv_clients (nd_server n)). c < length (nd_clients n)"
  shows "filter (\<lambda>c. P (client (attach now ap inc n) c)) (sv_clients (nd_server n)) = filter (\<lambda>c. P (client n c)) (sv_clients (nd_server n))"
  using assms by (intro filter_cong) (auto simp: attach_client)

lemma attach_inv:
  assumes "conn_inv n"
  shows "conn_inv (updServer (\<lambda>s. if inc then s\<lparr>sv_numIncoming := sv_numIncoming s + 1\<rparr> else s\<lparr>sv_numOutgoing := sv_numOutgoing s + 1\<rparr>) (attach now ap inc n))"
  using assms attach_filter [of n cl_Incoming now ap inc] attach_filter [of n "\<lambda>c. \<not> cl_Incoming c" now ap inc]
  by (auto simp: conn_inv_def attach_client NewClient_def intro: less_SucI)

lemma shuts_incoming:
  assumes "shuts now n n'" "conn_inv n" "conn_inv n'"
  shows "sv_numIncoming (nd_server n') \<le> sv_numIncoming (nd_server n)"
proof -
  have same: "cl_Incoming (client n' c) = cl_Incoming (client n c)" if "c \<in> set (sv_clients (nd_server n))" for c
    using that assms(1,2) same_peer_fields by (fastforce simp: shuts_def conn_inv_def)
  have "set (filter (\<lambda>c. cl_Incoming (client n' c)) (sv_clients (nd_server n'))) \<subseteq> set (filter (\<lambda>c. cl_Incoming (client n c)) (sv_clients (nd_server n)))"
    using same assms(1) by (auto simp: shuts_def)
  then have "card (set (filter (\<lambda>c. cl_Incoming (client n' c)) (sv_clients (nd_server n')))) \<le> card (set (filter (\<lambda>c. cl_Incoming (client n c)) (sv_clients (nd_server n))))"
    by (rule card_mono [rotated]) simp
  moreover have "card (set (filter P (sv_clients (nd_server n)))) = length (filter P (sv_clients (nd_server n)))"
    "card (set (filter P (sv_clients (nd_server n')))) = length (filter P (sv_clients (nd_server n')))" for P
    using assms(2,3) by (simp_all add: conn_inv_def distinct_card del: set_filter)
  ultimately show ?thesis using assms(2,3) by (simp add: conn_inv_def del: set_filter)
qed

lemma shuts_node_inv: "node_inv n \<Longrightarrow> shuts now n n' \<Longrightarrow> conn_inv n' \<Longrightarrow> stale n' \<subseteq> stale n \<Longrightarrow> node_inv n'"
  using shuts_incoming [of now n n'] by (auto simp: node_inv_def shuts_def config_def)

lemma node_inv_client:
  assumes "node_inv n" "\<And>cl. cl_Incoming (f cl) = cl_Incoming cl \<and> cl_Closed (f cl) = cl_Closed cl"
  shows "node_inv (updClient c f n)"
proof -
  have "conn_inv (updClient c f n)" by (rule conn_inv_client) (use assms in \<open>auto simp: node_inv_def\<close>)
  moreover have "stale (updClient c f n) = stale n" using assms by (auto simp: stale_def client_updClient node_inv_def conn_inv_def split: if_splits)
  ultimately show ?thesis using assms(1) by (simp add: node_inv_def)
qed

lemma node_inv_server:
  assumes "node_inv n" "sv_clients (g (nd_server n)) = sv_clients (nd_server n)" "sv_numIncoming (g (nd_server n)) = sv_numIncoming (nd_server n)"
    "sv_numOutgoing (g (nd_server n)) = sv_numOutgoing (nd_server n)" "sv_maxIncoming (g (nd_server n)) = sv_maxIncoming (nd_server n)"
    "peers_ok (nd_server n) \<Longrightarrow> peers_ok (g (nd_server n))"
  shows "node_inv (updServer g n)"
  using assms by (simp add: node_inv_def conn_inv_server stale_server)

lemma accept_inv: "node_inv n \<Longrightarrow> node_inv (accept now ap n)"
proof (cases "rejectIncoming n now ap")
  case None
  assume inv: "node_inv n"
  let ?s = "nd_server n"
  have c: "conn_inv n" "\<forall>c \<in> set (sv_clients ?s). c < length (nd_clients n)" using inv by (auto simp: node_inv_def conn_inv_def)
  have max: "sv_maxIncoming ?s \<le> 450" using inv by (simp add: node_inv_def)
  then have m: "uint (sv_maxIncoming ?s) \<le> 450" by (simp add: word_le_def)
  have bounds: "0 \<le> sv_numIncoming ?s" "sv_numIncoming ?s \<le> 451" "int (unat (sv_maxIncoming ?s)) \<le> 450"
    using inv m by (simp_all add: node_inv_def conn_inv_def)
  have u: "uint (word_of_int (sv_numIncoming ?s) :: u32) = sv_numIncoming ?s"
    using bounds by (simp add: uint_word_of_int mod_pos_pos_trivial)
  have "\<not> word_of_int (sv_numIncoming ?s) > sv_maxIncoming ?s" using None by (rule contrapos_pn) (simp add: rejectIncoming_def Let_def)
  then have "sv_numIncoming ?s \<le> int (unat (sv_maxIncoming ?s))" unfolding word_less_def u by simp
  moreover have "conn_inv (accept now ap n)" using attach_inv [OF c(1), of True now ap] None by (simp add: accept_def)
  moreover have "stale (accept now ap n) = {}"
    using inv c(2) None by (auto simp: stale_def node_inv_def accept_def attach_client NewClient_def)
  moreover have "peers_ok (nd_server (accept now ap n))"
    using inv None by (auto simp: node_inv_def accept_def intro: peers_ok_fields)
  ultimately show ?thesis using max None by (simp add: node_inv_def accept_def)
qed (simp add: accept_def)

lemma putPeer_fields [simp]:
  "sv_clients (putPeer f s now ap) = sv_clients s" "sv_numIncoming (putPeer f s now ap) = sv_numIncoming s"
  "sv_numOutgoing (putPeer f s now ap) = sv_numOutgoing s" "sv_maxIncoming (putPeer f s now ap) = sv_maxIncoming s"
  by (simp_all add: putPeer_def Let_def split: option.split)

lemma connectionFailed_fields [simp]:
  "sv_clients (connectionFailed s a) = sv_clients s" "sv_numIncoming (connectionFailed s a) = sv_numIncoming s"
  "sv_numOutgoing (connectionFailed s a) = sv_numOutgoing s - 1" "sv_maxIncoming (connectionFailed s a) = sv_maxIncoming s"
  by (simp_all add: connectionFailed_def Let_def RemoveFromPeerList_def split: option.split)

lemma startDial_state:
  assumes "startDial n ap = Inr (Inr n')"
  obtains pending where "PushUnique (sv_pending (nd_server n)) (Some (fst ap)) = Inr (True, pending)"
    "n' = updServer (\<lambda>s. s\<lparr>sv_pending := pending, sv_numOutgoing := sv_numOutgoing s + 1\<rparr>) (n\<lparr>nd_dialing := ap # nd_dialing n\<rparr>)"
  using assms unfolding startDial_def Let_def by (cases "PushUnique (sv_pending (nd_server n)) (Some (fst ap))") (auto split: if_splits)

lemma startDial_inv:
  assumes "node_inv n" "startDial n ap = Inr (Inr n')"
  shows "node_inv n'"
proof -
  obtain pending where n': "n' = updServer (\<lambda>s. s\<lparr>sv_pending := pending, sv_numOutgoing := sv_numOutgoing s + 1\<rparr>) (n\<lparr>nd_dialing := ap # nd_dialing n\<rparr>)"
    using assms(2) by (rule startDial_state)
  have "peers_ok (nd_server n')" using assms(1) unfolding n' by (auto simp: node_inv_def intro: peers_ok_fields)
  then show ?thesis using assms(1) unfolding n' by (simp add: node_inv_def conn_inv_def stale_def client_def)
qed

lemma length_remove1_int: "x \<in> set xs \<Longrightarrow> int (length (remove1 x xs)) = int (length xs) - 1"
  by (induction xs) auto

lemma dialFailed_inv: "node_inv n \<Longrightarrow> ap \<in> set (nd_dialing n) \<Longrightarrow> node_inv (dialFailed ap n)"
  by (auto simp: node_inv_def dialFailed_def conn_inv_def stale_def client_def length_remove1_int
      intro: connectionFailed_ok)

lemma dialDone_inv:
  assumes "node_inv n" "ap \<in> set (nd_dialing n)"
  shows "node_inv (dialDone now ap n)"
proof -
  let ?n = "updServer (\<lambda>s. s\<lparr>sv_numOutgoing := sv_numOutgoing s - 1\<rparr>) (n\<lparr>nd_dialing := remove1 ap (nd_dialing n)\<rparr>)"
  have "conn_inv ?n" using assms by (auto simp: node_inv_def conn_inv_def client_def length_remove1_int)
  from attach_inv [OF this, of False now "(Unmap (fst ap), snd ap)"] have "conn_inv (dialDone now ap n)"
    by (simp add: conn_inv_def dialDone_def client_def)
  moreover have "stale (dialDone now ap n) = {}"
    using assms(1) by (auto simp: stale_def node_inv_def conn_inv_def dialDone_def client_def nth_append NewClient_def split: if_splits)
  moreover have "peers_ok (nd_server (dialDone now ap n))"
    using assms(1) by (auto simp: node_inv_def dialDone_def intro: peers_ok_fields)
  ultimately show ?thesis using assms(1) by (simp add: node_inv_def dialDone_def)
qed

lemma SendMessage_inv: "node_inv n \<Longrightarrow> c < length (nd_clients n) \<Longrightarrow> node_inv (SendMessage now c i bs n)"
  using Close_ok [of n c now] shuts_node_inv [of n now "Close now c n"] node_inv_client [of n]
  by (simp add: SendMessage_def node_inv_def)

lemma node_conn: "node_inv n \<Longrightarrow> conn_inv n"
  by (simp add: node_inv_def)

lemma conn_step_inv: "conn_step n n' \<Longrightarrow> node_inv n \<Longrightarrow> node_inv n'"
proof (induction rule: conn_step.induct)
  case (accepted n now ap)
  then show ?case by (rule accept_inv)
next
  case (dialing now n ap n')
  then show ?case by (auto simp: Connect_def split: if_splits intro: startDial_inv)
next
  case (directly n ap n')
  then show ?case by (auto intro: startDial_inv)
next
  case (failed ap n)
  then show ?case by (auto intro: dialFailed_inv)
next
  case (connected ap n now)
  then show ?case by (auto intro: dialDone_inv)
next
  case (closed c n now)
  show ?case by (rule shuts_node_inv [OF closed(2)]) (use Close_ok [OF node_conn [OF closed(2)] closed(1), of now] in auto)
next
  case (banned c n now seconds err)
  show ?case by (rule shuts_node_inv [OF banned(2)]) (use Ban_ok [OF node_conn [OF banned(2)] banned(1), of now seconds err] in auto)
next
  case (banned_range n now ip seconds err)
  show ?case by (rule shuts_node_inv [OF banned_range]) (use Server_Ban_ok [OF node_conn [OF banned_range], of now ip seconds err] in auto)
next
  case (sent c n now i bs)
  then show ?case by (auto intro: SendMessage_inv)
next
  case (peer_added n now ap)
  then show ?case by (rule node_inv_server) (auto simp: AddToPeerList_def intro: putPeer_ok)
next
  case (peer_updated n now ap)
  then show ?case by (rule node_inv_server) (auto simp: UpdateInPeerList_def intro: putPeer_ok)
next
  case (peers_forgotten n connected now)
  then show ?case using forgetOldPeers_ok by (intro node_inv_server) (auto simp: forgetOldPeers_def Let_def)
next
  case (bans_cleaned n now)
  then show ?case by (rule node_inv_server) (auto simp: CleanupBanList_def intro: peers_ok_fields)
next
  case (changed f n c)
  then show ?case by (auto intro: node_inv_client)
qed

lemma NewNode_inv: "server_new s \<Longrightarrow> node_inv (NewNode s)"
  by (auto simp: server_new_def node_inv_def NewNode_def conn_inv_def stale_def peers_ok_def NewServer_def)

lemma conn_reach_inv: "conn_reach s n \<Longrightarrow> server_new s \<Longrightarrow> node_inv n"
  by (induction rule: conn_reach.induct) (auto intro: NewNode_inv conn_step_inv)

lemma conn_step_max: "conn_step n n' \<Longrightarrow> node_inv n \<Longrightarrow> sv_maxIncoming (nd_server n') = sv_maxIncoming (nd_server n)"
proof (induction rule: conn_step.induct)
  case (dialing now n ap n')
  then have "startDial n ap = Inr (Inr n')" by (simp add: Connect_def split: if_splits)
  then show ?case by (rule startDial_state) simp
next
  case (directly n ap n')
  from directly(1) show ?case by (rule startDial_state) simp
next
  case (closed c n now)
  then show ?case using Close_ok [of n c now] by (simp add: node_inv_def shuts_def config_def)
next
  case (banned c n now seconds err)
  then show ?case using Ban_ok [of n c now seconds err] by (simp add: node_inv_def shuts_def config_def)
next
  case (banned_range n now ip seconds err)
  then show ?case using Server_Ban_ok [of n now ip seconds err] by (simp add: node_inv_def shuts_def config_def)
next
  case (sent c n now i bs)
  then show ?case using Close_ok [of n c now] by (simp add: SendMessage_def node_inv_def shuts_def config_def)
next
  case (peers_forgotten n connected now)
  then show ?case by (simp add: forgetOldPeers_def Let_def)
qed (simp_all add: accept_def dialFailed_def dialDone_def AddToPeerList_def UpdateInPeerList_def CleanupBanList_def)

lemma conn_reach_max: "conn_reach s n \<Longrightarrow> server_new s \<Longrightarrow> sv_maxIncoming (nd_server n) = sv_maxIncoming s"
proof (induction rule: conn_reach.induct)
  case (step n n')
  then show ?case using conn_step_max [of n n'] conn_reach_inv [of s n] by simp
qed (simp add: NewNode_def)

text \<open>C21: The connections of a server.  After any history of connections coming in, dials starting, failing and succeeding, clients being closed, banned
and written to and the peer list changing, the counters of incoming and outgoing connections are the numbers of listed clients of each kind and of dials under
way, no client is listed twice, none that is closed is listed, and the peer list has each address once, in plain form, without loopback
addresses and only of the families in use.\<close>

theorem connections_invariant:
  assumes "server_new s" and "conn_reach s n"
  shows "sv_numIncoming (nd_server n) = int (length (filter (\<lambda>c. cl_Incoming (client n c)) (sv_clients (nd_server n)))) \<and>
    sv_numOutgoing (nd_server n) =
      int (length (filter (\<lambda>c. \<not> cl_Incoming (client n c)) (sv_clients (nd_server n)))) + int (length (nd_dialing n)) \<and>
    distinct (sv_clients (nd_server n)) \<and> (\<forall>c. c \<in> set (sv_clients (nd_server n)) \<longrightarrow> \<not> cl_Closed (client n c)) \<and> peers_ok (nd_server n)"
  using conn_reach_inv [OF assms(2,1)] by (auto simp: node_inv_def conn_inv_def stale_def)

text \<open>The limit on incoming connections.  At every moment the number of incoming connections is at most one more than \<^verbatim>\<open>MaxIncomingPeers\<close>, which
\<^verbatim>\<open>NewServer\<close> keeps at 450 or below; since the accept loop compares with \<open>>\<close>, the limit can be exceeded by one.\<close>

lemma incoming_bound:
  assumes "server_new s" and "conn_reach s n"
  shows "0 \<le> sv_numIncoming (nd_server n) \<and> sv_numIncoming (nd_server n) \<le> uint (sv_maxIncoming s) + 1 \<and> sv_maxIncoming s \<le> 450"
  using conn_reach_inv [OF assms(2,1)] conn_reach_max [OF assms(2,1)] by (auto simp: node_inv_def conn_inv_def)

definition fullNode :: Node where
  "fullNode = accept 1000 (Addr4 0x01020304, 5000) (NewNode (NewServer 1 37889 0 10 0 True True))"

lemma fullNode_reach: "server_new (NewServer 1 37889 0 10 0 True True)" "conn_reach (NewServer 1 37889 0 10 0 True True) fullNode"
  unfolding server_new_def fullNode_def by (blast, blast intro: conn_reach.intros conn_step.intros)

lemma fullNode_incoming: "sv_numIncoming (nd_server fullNode) = 1" "sv_clients (nd_server fullNode) = [0]"
  by (simp_all add: fullNode_def accept_def rejectIncoming_def NewNode_def NewServer_def Let_def GetAddressConnected_def IsLoopback_def IsBanned_def Unmap_def)

theorem connections_invariant_witness:
  "1 = int (length (filter (\<lambda>c. cl_Incoming (client fullNode c)) [0])) \<and> peers_ok (nd_server fullNode)"
  using connections_invariant [OF fullNode_reach] by (simp add: fullNode_incoming)

lemma banned_entry:
  assumes "IsBanned s now a = Some b"
  shows "sv_bans s (banKey a) = Some b" "\<not> IsLoopback a"
  using assms by (auto simp: IsBanned_def split: if_splits option.splits)

lemma banned_refused:
  assumes "sv_bans (nd_server m) (banKey a) = Some b" "\<not> IsLoopback a" "t < bn_Expiration b"
  shows "accept t (a, port) m = m \<and> Connect t m (a, port) = Inr (Inl (Err ''peer is banned''))"
proof -
  have "IsBanned (nd_server m) t a = Some b" "IsBanned (nd_server m) t (Unmap a) = Some b"
    using assms by (auto simp: IsBanned_def banKey_def IsLoopback_def Unmap_Unmap)
  then show ?thesis using assms(2) by (simp add: accept_def rejectIncoming_def Connect_def Let_def)
qed

text \<open>C22: Bans disconnect.  Banning a client closes it and takes it off the list of clients; unless its address is a loopback address or was banned already, no client of
the banned range stays connected.  Unless the address is a loopback address or the clock overflows, the address is then banned just until the ban in force ends or, if there was none, until the default time has passed; and as long as the
table of bans keeps the entry, no connection from the address is accepted before that end and none to it is made.\<close>

theorem Ban_disconnects:
  assumes "server_new s" and "conn_reach s n" and "c < length (nd_clients n)" and "\<not> cl_Closed (client n c)"
  shows "let a = addrOf n c; n' = Ban now c DefaultBanTime err n;
      end_of_ban = (case IsBanned (nd_server n) now a of None \<Rightarrow> now + DefaultBanTime | Some b \<Rightarrow> bn_Expiration b) in
    cl_Closed (client n' c) \<and> c \<notin> set (sv_clients (nd_server n')) \<and>
    (\<not> IsLoopback a \<and> IsBanned (nd_server n) now a = None \<longrightarrow> (\<forall>d \<in> set (sv_clients (nd_server n')). \<not> inRange a (addrOf n' d))) \<and>
    (\<not> IsLoopback a \<and> now < now + DefaultBanTime \<longrightarrow>
      (\<forall>t. IsBanned (nd_server n') t a \<noteq> None \<longleftrightarrow> t < end_of_ban) \<and>
      (\<forall>m t. sv_bans (nd_server m) (banKey a) = sv_bans (nd_server n') (banKey a) \<and> t < end_of_ban \<longrightarrow>
        accept t (a, port) m = m \<and> Connect t m (a, port) = Inr (Inl (Err ''peer is banned''))))"
proof -
  define a n' where "a = addrOf n c" and "n' = Ban now c DefaultBanTime err n"
  define e where "e = (case IsBanned (nd_server n) now a of None \<Rightarrow> now + DefaultBanTime | Some b \<Rightarrow> bn_Expiration b)"
  let ?b = "ban_after (nd_server n) now a DefaultBanTime err"
  have end_e: "bn_Expiration ?b = e" by (simp add: ban_after_def e_def split: option.split)
  have inv: "node_inv n" by (rule conn_reach_inv [OF assms(2,1)])
  then have conn: "conn_inv n" and fresh: "stale n = {}" by (simp_all add: node_inv_def)
  have "banWith (closeO now) now c DefaultBanTime err n = Some n'" using Ban_ok [OF conn assms(3)] by (simp add: n'_def)
  with banWith_ok [OF closes_all conn assms(3) order_refl, of now DefaultBanTime err]
  have ok: "conn_inv n'" "shuts now n n'" "stale n' = {}" "cl_Closed (client n' c)"
    and all: "\<not> IsLoopback a \<and> IsBanned (nd_server n) now a = None \<Longrightarrow> \<forall>d \<in> set (GetAddressConnectedPrefix n a). cl_Closed (client n' d)"
    and ban: "\<not> IsLoopback a \<and> now < now + DefaultBanTime \<Longrightarrow> IsBanned (nd_server n') now a = Some ?b"
    using fresh by (auto simp: a_def)
  have out: "cl_Closed (client n' d) \<Longrightarrow> d \<notin> set (sv_clients (nd_server n'))" for d using ok(3) by (auto simp: stale_def)
  have "\<not> inRange a (addrOf n' d)" if d: "d \<in> set (sv_clients (nd_server n'))" and "\<not> IsLoopback a \<and> IsBanned (nd_server n) now a = None" for d
  proof -
    have "d \<in> set (sv_clients (nd_server n))" "d < length (nd_clients n)" using d ok(1,2) by (auto simp: shuts_def conn_inv_def)
    moreover from this have "addrOf n' d = addrOf n d" using ok(2) same_peer_fields by (metis shuts_def)
    ultimately show ?thesis using all that out by (auto simp: GetAddressConnectedPrefix_def)
  qed
  moreover have "(IsBanned (nd_server n') t a \<noteq> None \<longleftrightarrow> t < e) \<and>
      (sv_bans (nd_server m) (banKey a) = sv_bans (nd_server n') (banKey a) \<and> t < e \<longrightarrow>
        accept t (a, port) m = m \<and> Connect t m (a, port) = Inr (Inl (Err ''peer is banned'')))"
    if "\<not> IsLoopback a \<and> now < now + DefaultBanTime" for m :: "'a Node_scheme" and t
  proof -
    note entry = banned_entry [OF ban [OF that]]
    then have "IsBanned (nd_server n') t a = (if t \<ge> e then None else Some ?b)" using end_e by (simp add: IsBanned_def)
    then show ?thesis using entry end_e banned_refused [of m a ?b t port] by (auto simp: not_le)
  qed
  ultimately show ?thesis unfolding Let_def a_def [symmetric] n'_def [symmetric] e_def [symmetric] using ok(4) out by blast
qed

theorem Ban_disconnects_witness:
  "cl_Closed (client (Ban 1000 0 DefaultBanTime EOF fullNode) 0) \<and> sv_clients (nd_server (Ban 1000 0 DefaultBanTime EOF fullNode)) = [] \<and>
   accept 1599 (Addr4 0x01020304, 5001) (Ban 1000 0 DefaultBanTime EOF fullNode) = Ban 1000 0 DefaultBanTime EOF fullNode \<and>
   IsBanned (nd_server (Ban 1000 0 DefaultBanTime EOF fullNode)) 1600 (Addr4 0x01020304) = None"
proof -
  let ?n = "Ban 1000 0 DefaultBanTime EOF fullNode" and ?a = "Addr4 0x01020304"
  have c: "client fullNode 0 = NewClient 1000 (?a, 5000) True" "nd_clients fullNode = [NewClient 1000 (?a, 5000) True]"
    "IsBanned (nd_server fullNode) 1000 ?a = None"
    by (simp_all add: fullNode_def accept_def rejectIncoming_def NewNode_def NewServer_def Let_def GetAddressConnected_def IsLoopback_def IsBanned_def Unmap_def client_def)
  have sub: "set (sv_clients (nd_server ?n)) \<subseteq> {0}" using Ban_ok [of fullNode 0 1000 DefaultBanTime EOF] conn_reach_inv [OF fullNode_reach(2,1)]
    by (auto simp: node_inv_def shuts_def fullNode_incoming c)
  have a: "addrOf fullNode 0 = ?a" "\<not> IsLoopback ?a" "DefaultBanTime = 600"
    by (simp_all add: c NewClient_def IsLoopback_def Unmap_def DefaultBanTime_def)
  have "(1000 :: u64) < 1000 + DefaultBanTime" "(1599 :: u64) < 1000 + DefaultBanTime" "\<not> (1600 :: u64) < 1000 + DefaultBanTime" by (simp_all add: a(3))
  then show ?thesis
    using sub subset_singletonD [OF sub] Ban_disconnects [OF fullNode_reach, of 0 1000 EOF 5001] c(3) a(1,2) by (auto simp: Let_def c NewClient_def)
qed

end
