(* ===== verification/Handshake.thy ===== *)
theory Handshake
  imports Clients
begin

text \<open>
  The handshake of p2pool/p2p: challenge.go, and the messages HANDSHAKE_CHALLENGE, HANDSHAKE_SOLUTION and LISTEN_PORT of client.go with the loop that reads messages.

  Each side sends a random challenge and answers that of the other with a number whose keccak hash over challenge, consensus id and number
  is small enough; the side that was called waives the work for its own answer.  Keccak is the parameter \<open>K\<close>.  The search for a solution may not end, so what
  calls it has the value \<open>None\<close> for not returning.  A message is handled in one step: what other goroutines do happens before or after it.
  The handlers of the messages after the handshake are the parameter \<open>other\<close> of the loop.
\<close>

section \<open>Challenges\<close>

definition HandshakeChallengeDifficulty :: u64 where "HandshakeChallengeDifficulty = 10000"

text \<open>The test of the last eight bytes of a hash.\<close>

definition solves :: "hash \<Rightarrow> bool" where
  "solves h \<longleftrightarrow> Hi (MulBy64 (DifficultyFrom64 (ucast (drop_bit 192 h))) HandshakeChallengeDifficulty) = 0"

partial_function (option) findLoop :: "(byte list \<Rightarrow> hash) \<Rightarrow> byte list \<Rightarrow> bool \<Rightarrow> u64 \<Rightarrow> (u64 \<times> hash \<times> bool) option" where
  "findLoop K buf stop salt =
    (let h = K (buf @ le_bytes 8 salt) in
     if stop then Some (salt, h, False)
     else if solves h then Some (salt, h, True)
     else findLoop K buf stop (salt + 1))"

definition FindChallengeSolution :: "(byte list \<Rightarrow> hash) \<Rightarrow> challenge \<Rightarrow> hash \<Rightarrow> bool \<Rightarrow> u64 \<Rightarrow> (u64 \<times> hash \<times> bool) option" where
  "FindChallengeSolution K challenge consensusId stop salt = findLoop K (challenge @ le_bytes 32 consensusId) stop salt"

definition CalculateChallengeHash :: "(byte list \<Rightarrow> hash) \<Rightarrow> challenge \<Rightarrow> hash \<Rightarrow> u64 \<Rightarrow> hash \<times> bool" where
  "CalculateChallengeHash K challenge consensusId solution =
    (let h = K (challenge @ le_bytes 32 consensusId @ le_bytes 8 solution) in (h, solves h))"

section \<open>Sending\<close>

definition MessageHandshakeChallenge :: byte where "MessageHandshakeChallenge = 0"
definition MessageHandshakeSolution :: byte where "MessageHandshakeSolution = 1"
definition MessageListenPort :: byte where "MessageListenPort = 2"
definition MessageBlockRequest :: byte where "MessageBlockRequest = 3"

definition sendHandshakeChallenge :: "u64 \<Rightarrow> nat \<Rightarrow> challenge \<Rightarrow> 'a Node_scheme \<Rightarrow> 'a Node_scheme" where
  "sendHandshakeChallenge now c random n =
    SendMessage now c MessageHandshakeChallenge (random @ le_bytes 8 (sv_peerId (nd_server n))) (updClient c (\<lambda>cl. cl\<lparr>cl_challenge := random\<rparr>) n)"

definition sendHandshakeSolution ::
    "(byte list \<Rightarrow> hash) \<Rightarrow> hash \<Rightarrow> u64 \<Rightarrow> u64 \<Rightarrow> nat \<Rightarrow> challenge \<Rightarrow> 'a Node_scheme \<Rightarrow> 'a Node_scheme option" where
  "sendHandshakeSolution K consensusId now salt c challenge n =
    Option.bind (FindChallengeSolution K challenge consensusId (cl_Incoming (client n c) \<or> cl_Closed (client n c)) salt) (\<lambda>(solution, hash, ok).
      if ok \<or> cl_Incoming (client n c) then
        Some (updClient c (\<lambda>cl. cl\<lparr>cl_SentSolution := True\<rparr>)
          (SendMessage now c MessageHandshakeSolution (le_bytes 32 hash @ le_bytes 8 solution) n))
      else Some n)"

definition SendListenPort :: "u64 \<Rightarrow> nat \<Rightarrow> 'a Node_scheme \<Rightarrow> 'a Node_scheme" where
  "SendListenPort now c n = SendMessage now c MessageListenPort (le_bytes 4 (ucast (ExternalListenPort (nd_server n)) :: u32)) n"

text \<open>The queue of pending requests is a channel of 100 places.\<close>

definition SendBlockRequestWithBound :: "u64 \<Rightarrow> nat \<Rightarrow> hash \<Rightarrow> nat \<Rightarrow> 'a Node_scheme \<Rightarrow> bool \<times> 'a Node_scheme" where
  "SendBlockRequestWithBound now c i bound n =
    (if length (cl_blockPending (client n c)) < bound then
       (True, SendMessage now c MessageBlockRequest (le_bytes 32 i) (updClient c (\<lambda>cl. cl\<lparr>cl_blockPending := cl_blockPending cl @ [i]\<rparr>) n))
     else (False, n))"

definition SendBlockRequest :: "u64 \<Rightarrow> nat \<Rightarrow> hash \<Rightarrow> 'a Node_scheme \<Rightarrow> 'a Node_scheme" where
  "SendBlockRequest now c i n = snd (SendBlockRequestWithBound now c i 80 n)"

definition OnAfterHandshake :: "u64 \<Rightarrow> nat \<Rightarrow> 'a Node_scheme \<Rightarrow> 'a Node_scheme" where
  "OnAfterHandshake now c n =
    updClient c (\<lambda>cl. cl\<lparr>cl_LastBroadcast := now\<rparr>) (SendBlockRequest now c 0 (SendListenPort now c n))"

section \<open>Receiving\<close>

text \<open>After a message the loop goes on, the goroutine of the client ends, or a panic ends the process.\<close>

datatype after = GoOn | Stop | Crash error

type_synonym 'n handled = "(after \<times> 'n \<times> reader) option"

abbreviation banned_with :: "u64 \<Rightarrow> nat \<Rightarrow> error \<Rightarrow> reader \<Rightarrow> 'a Node_scheme \<Rightarrow> 'a Node_scheme handled" where
  "banned_with now c e r n \<equiv> Some (Stop, Ban now c DefaultBanTime e n, r)"

text \<open>A field of a message; when the stream ends \<^verbatim>\<open>Client.Read\<close> closes the client, then the handler bans it.\<close>

definition reading ::
    "u64 \<Rightarrow> nat \<Rightarrow> 'v rd \<Rightarrow> ('v \<Rightarrow> reader \<Rightarrow> 'a Node_scheme \<Rightarrow> 'a Node_scheme handled) \<Rightarrow> reader \<Rightarrow> 'a Node_scheme \<Rightarrow> 'a Node_scheme handled" where
  "reading now c p f r n =
    (case p r of (Inl e, r') \<Rightarrow> banned_with now c e r' (Close now c n) | (Inr v, r') \<Rightarrow> f v r' n)"

definition isComplete :: "'a Node_scheme \<Rightarrow> nat \<Rightarrow> bool" where
  "isComplete n c = cl_HandshakeComplete (client n c)"

definition samePeer :: "'a Node_scheme \<Rightarrow> nat \<Rightarrow> u64 \<Rightarrow> bool" where
  "samePeer n c peerId \<longleftrightarrow> (\<exists>d \<in> set (sv_clients (nd_server n)). d \<noteq> c \<and> cl_PeerId (client n d) = peerId)"

definition setComplete :: "nat \<Rightarrow> 'a Node_scheme \<Rightarrow> 'a Node_scheme" where
  "setComplete c = updClient c (\<lambda>cl. cl\<lparr>cl_HandshakeComplete := True\<rparr>)"

definition finishHandshake :: "u64 \<Rightarrow> nat \<Rightarrow> reader \<Rightarrow> 'a Node_scheme \<Rightarrow> 'a Node_scheme handled" where
  "finishHandshake now c r n =
    Some (GoOn, if isComplete n c \<and> cl_SentSolution (client n c) then OnAfterHandshake now c n else n, r)"

definition onHandshakeChallenge ::
    "(byte list \<Rightarrow> hash) \<Rightarrow> hash \<Rightarrow> u64 \<Rightarrow> u64 \<Rightarrow> nat \<Rightarrow> reader \<Rightarrow> 'a Node_scheme \<Rightarrow> 'a Node_scheme handled" where
  "onHandshakeChallenge K consensusId now salt c r n =
    (if isComplete n c then banned_with now c (Err ''got HANDSHAKE_CHALLENGE but handshake is complete'') r n
     else reading now c (ReadFull 8) (\<lambda>challenge. reading now c (ReadLE 8) (\<lambda>peerId r n.
       if peerId = sv_peerId (nd_server n) then
         Some (Stop, Close now c (SetError c (Err ''connected to self'') (setComplete c n)), r)
       else
         let n = updClient c (\<lambda>cl. cl\<lparr>cl_PeerId := peerId\<rparr>) n in
         if samePeer n c peerId then Some (Stop, Close now c (SetError c (Err ''already connected'') (setComplete c n)), r)
         else Option.bind (sendHandshakeSolution K consensusId now salt c challenge n) (\<lambda>n.
           finishHandshake now c r (updClient c (\<lambda>cl. cl\<lparr>cl_expected := MessageHandshakeSolution\<rparr>) n)))) r n)"

definition onHandshakeSolution :: "(byte list \<Rightarrow> hash) \<Rightarrow> hash \<Rightarrow> u64 \<Rightarrow> nat \<Rightarrow> reader \<Rightarrow> 'a Node_scheme \<Rightarrow> 'a Node_scheme handled" where
  "onHandshakeSolution K consensusId now c r n =
    (if isComplete n c then banned_with now c (Err ''got HANDSHAKE_SOLUTION but handshake is complete'') r n
     else reading now c (ReadLE 32) (\<lambda>challengeHash. reading now c (ReadLE 8) (\<lambda>solution r n.
       let (hash, ok) = CalculateChallengeHash K (cl_challenge (client n c)) consensusId solution in
       if cl_Incoming (client n c) \<and> \<not> ok then banned_with now c (Err ''not enough PoW on HANDSHAKE_SOLUTION'') r n
       else if hash \<noteq> challengeHash then banned_with now c (Err ''wrong hash HANDSHAKE_SOLUTION'') r n
       else finishHandshake now c r (setComplete c n))) r n)"

definition onListenPort :: "u64 \<Rightarrow> nat \<Rightarrow> reader \<Rightarrow> 'a Node_scheme \<Rightarrow> 'a Node_scheme handled" where
  "onListenPort now c r n =
    (if cl_ListenPort (client n c) \<noteq> 0 then banned_with now c (Err ''got LISTEN_PORT but we already received it'') r n
     else reading now c (ReadLE 4) (\<lambda>listenPort r n.
       if listenPort = 0 \<or> listenPort \<ge> 65536 then banned_with now c (Err ''listen port out of range'') r n
       else
         let n = updClient c (\<lambda>cl. cl\<lparr>cl_ListenPort := listenPort\<rparr>) n in
         Some (GoOn, updServer (\<lambda>s. UpdateInPeerList s now (addrOf n c, ucast listenPort)) n, r)) r n)"

text \<open>One round of the loop of \<^verbatim>\<open>OnConnection\<close>.\<close>

definition onMessage ::
    "(byte list \<Rightarrow> hash) \<Rightarrow> hash \<Rightarrow> (byte \<Rightarrow> reader \<Rightarrow> 'a Node_scheme \<Rightarrow> 'a Node_scheme handled) \<Rightarrow> u64 \<Rightarrow> u64 \<Rightarrow> nat \<Rightarrow> reader \<Rightarrow>
     'a Node_scheme \<Rightarrow> 'a Node_scheme handled" where
  "onMessage K consensusId other now salt c r n =
    (case ReadFull 1 r of
       (Inl e, r) \<Rightarrow> Some (Stop, Close now c n, r)
     | (Inr bs, r) \<Rightarrow>
         let messageId = hd bs in
         if \<not> isComplete n c \<and> messageId \<noteq> cl_expected (client n c) then banned_with now c (Err ''unexpected pre-handshake message'') r n
         else Option.bind
           (if messageId = MessageHandshakeChallenge then onHandshakeChallenge K consensusId now salt c r n
            else if messageId = MessageHandshakeSolution then onHandshakeSolution K consensusId now c r n
            else if messageId = MessageListenPort then onListenPort now c r n
            else other messageId r n)
           (\<lambda>(out, n, r). Some (out, if out = GoOn then updClient c (\<lambda>cl. cl\<lparr>cl_LastActive := now\<rparr>) n else n, r)))"

section \<open>The search for a solution\<close>

lemma solves_iff: "solves h \<longleftrightarrow> unat (ucast (drop_bit 192 h) :: u64) * 10000 < 2 ^ 64"
proof -
  let ?d = "DifficultyFrom64 (ucast (drop_bit 192 h))"
  let ?m = "MulBy64 ?d HandshakeChallengeDifficulty"
  have "unat (ucast (drop_bit 192 h) :: u64) < 2 ^ 64" using unsigned_less [of "ucast (drop_bit 192 h) :: u64"] by simp
  moreover have "val ?d = unat (ucast (drop_bit 192 h) :: u64)" by (simp add: val_def DifficultyFrom64_def NewDifficulty_def)
  ultimately have "val ?m = unat (ucast (drop_bit 192 h) :: u64) * 10000" by (simp add: val_MulBy64 HandshakeChallengeDifficulty_def)
  moreover have "Hi ?m = 0 \<longleftrightarrow> val ?m < 2 ^ 64"
    using unsigned_less [of "Lo ?m"] by (auto simp: val_def word_unat_eq_iff)
  ultimately show ?thesis by (simp add: solves_def)
qed

lemma findLoop_first:
  "(\<And>j. j < k \<Longrightarrow> \<not> solves (K (buf @ le_bytes 8 (salt + of_nat j)))) \<Longrightarrow> solves (K (buf @ le_bytes 8 (salt + of_nat k))) \<Longrightarrow>
   findLoop K buf False salt = Some (salt + of_nat k, K (buf @ le_bytes 8 (salt + of_nat k)), True)"
proof (induction k arbitrary: salt)
  case 0
  then show ?case by (subst findLoop.simps) simp
next
  case (Suc k)
  have "\<not> solves (K (buf @ le_bytes 8 salt))" using Suc.prems(1) [of 0] by simp
  moreover have "findLoop K buf False (salt + 1) = Some (salt + 1 + of_nat k, K (buf @ le_bytes 8 (salt + 1 + of_nat k)), True)"
  proof (rule Suc.IH)
    show "\<not> solves (K (buf @ le_bytes 8 (salt + 1 + of_nat j)))" if "j < k" for j using Suc.prems(1) [of "Suc j"] that by (simp add: ac_simps)
    show "solves (K (buf @ le_bytes 8 (salt + 1 + of_nat k)))" using Suc.prems(2) by (simp add: ac_simps)
  qed
  ultimately show ?case by (subst findLoop.simps) (simp add: ac_simps)
qed

lemma findLoop_finds:
  assumes "solves (K (buf @ le_bytes 8 (x :: u64)))"
  shows "\<exists>y. findLoop K buf False salt = Some (y, K (buf @ le_bytes 8 y), True) \<and> solves (K (buf @ le_bytes 8 y))"
proof -
  let ?P = "\<lambda>k. solves (K (buf @ le_bytes 8 (salt + of_nat k)))"
  have "salt + of_nat (unat (x - salt)) = x" by simp
  then have "?P (unat (x - salt))" using assms by (simp only:)
  then have "?P (LEAST k. ?P k)" by (rule LeastI)
  then show ?thesis using findLoop_first [of "LEAST k. ?P k" K buf salt] not_less_Least [of _ ?P] by blast
qed

lemma findLoop_sound':
  assumes "findLoop K buf stop salt = Some r"
  shows "fst (snd r) = K (buf @ le_bytes 8 (fst r)) \<and> (snd (snd r) \<longleftrightarrow> \<not> stop) \<and> (snd (snd r) \<longrightarrow> solves (fst (snd r)))"
proof (rule findLoop.raw_induct [OF _ assms], goal_cases)
  case (1 loop K buf stop salt r)
  show ?case
  proof (cases "stop \<or> solves (K (buf @ le_bytes 8 salt))")
    case True
    then show ?thesis using 1(2) by (auto simp: Let_def split: if_splits)
  next
    case False
    then have "loop K buf stop (salt + 1) = Some r" using 1(2) by (simp add: Let_def)
    then show ?thesis by (rule 1(1))
  qed
qed

lemma findLoop_sound: "findLoop K buf stop salt = Some (y, h, b) \<Longrightarrow> h = K (buf @ le_bytes 8 y) \<and> (b \<longleftrightarrow> \<not> stop) \<and> (b \<longrightarrow> solves h)"
  by (drule findLoop_sound') (unfold fst_conv snd_conv, assumption)

text \<open>Challenges.  The search for a solution returns from every starting number if and only if there is a solution; what it returns passes the check of the
other side with the hash that was sent.  A hash passes when its last eight bytes as a number, times 10000, are below \<open>2^64\<close>.  A search that was asked to stop returns the
starting number with its hash at once.\<close>

lemma FindChallengeSolution_search:
  "((\<exists>x. snd (CalculateChallengeHash K challenge consensusId x)) \<longleftrightarrow> FindChallengeSolution K challenge consensusId False salt \<noteq> None) \<and>
   (FindChallengeSolution K challenge consensusId False salt = Some (solution, h, ok) \<longrightarrow>
     ok \<and> CalculateChallengeHash K challenge consensusId solution = (h, True) \<and> unat (ucast (drop_bit 192 h) :: u64) * 10000 < 2 ^ 64) \<and>
   FindChallengeSolution K challenge consensusId True salt = Some (salt, fst (CalculateChallengeHash K challenge consensusId salt), False)"
proof -
  let ?buf = "challenge @ le_bytes 32 consensusId"
  have calc: "CalculateChallengeHash K challenge consensusId x = (K (?buf @ le_bytes 8 x), solves (K (?buf @ le_bytes 8 x)))" for x
    by (simp add: CalculateChallengeHash_def Let_def)
  have "FindChallengeSolution K challenge consensusId True salt = Some (salt, fst (CalculateChallengeHash K challenge consensusId salt), False)"
    by (subst FindChallengeSolution_def, subst findLoop.simps) (simp add: calc)
  moreover have "(\<exists>x. snd (CalculateChallengeHash K challenge consensusId x)) \<longleftrightarrow> FindChallengeSolution K challenge consensusId False salt \<noteq> None"
    using findLoop_finds [of K ?buf _ salt] findLoop_sound [of K ?buf False salt] by (fastforce simp: calc FindChallengeSolution_def)
  moreover have "ok \<and> CalculateChallengeHash K challenge consensusId solution = (h, True) \<and> unat (ucast (drop_bit 192 h) :: u64) * 10000 < 2 ^ 64"
    if "FindChallengeSolution K challenge consensusId False salt = Some (solution, h, ok)"
    using findLoop_sound [of K ?buf False salt solution h ok] that solves_iff [of h] unfolding calc FindChallengeSolution_def by blast
  ultimately show ?thesis by blast
qed

section \<open>What a message does to a connection\<close>

text \<open>Connections stay in order, the client keeps its place, and it is not completed by sending.\<close>

definition calm :: "nat \<Rightarrow> 'a Node_scheme \<Rightarrow> 'a Node_scheme \<Rightarrow> bool" where
  "calm c n n' \<longleftrightarrow> conn_inv n' \<and> length (nd_clients n') = length (nd_clients n) \<and> (isComplete n' c \<longrightarrow> isComplete n c)"

lemma calm_trans: "calm c a b \<Longrightarrow> calm c b d \<Longrightarrow> calm c a d"
  by (simp add: calm_def)

lemma calm_client:
  "conn_inv n \<Longrightarrow> c < length (nd_clients n) \<Longrightarrow> (\<And>cl. cl_Incoming (f cl) = cl_Incoming cl \<and> cl_HandshakeComplete (f cl) = cl_HandshakeComplete cl) \<Longrightarrow>
   calm c n (updClient c f n)"
  by (simp add: calm_def conn_inv_client isComplete_def client_updClient)

lemma calm_refl: "conn_inv n \<Longrightarrow> calm c n n"
  by (simp add: calm_def)

lemma calm_then_client:
  "calm c n m \<Longrightarrow> c < length (nd_clients n) \<Longrightarrow> (\<And>cl. cl_Incoming (f cl) = cl_Incoming cl \<and> cl_HandshakeComplete (f cl) = cl_HandshakeComplete cl) \<Longrightarrow>
   calm c n (updClient c f m)"
  by (rule calm_trans, assumption, rule calm_client) (auto simp: calm_def)

lemma calm_Close: "conn_inv n \<Longrightarrow> c < length (nd_clients n) \<Longrightarrow> calm c n (Close now c n)"
  using Close_ok [of n c now] same_peer_fields by (fastforce simp: calm_def shuts_def isComplete_def)

lemma calm_SendMessage: "conn_inv n \<Longrightarrow> c < length (nd_clients n) \<Longrightarrow> calm c n (SendMessage now c i bs n)"
  by (simp add: SendMessage_def calm_refl calm_Close calm_client)

lemma calm_request: "conn_inv n \<Longrightarrow> c < length (nd_clients n) \<Longrightarrow> calm c n (SendBlockRequest now c i n)"
proof -
  assume n: "conn_inv n" "c < length (nd_clients n)"
  let ?n = "updClient c (\<lambda>cl. cl\<lparr>cl_blockPending := cl_blockPending cl @ [i]\<rparr>) n"
  have "calm c n ?n" by (rule calm_client [OF n]) simp
  moreover from this have "calm c ?n (SendMessage now c j bs ?n)" for j bs by (intro calm_SendMessage) (use n in \<open>simp_all add: calm_def\<close>)
  ultimately show ?thesis using n by (auto simp: SendBlockRequest_def SendBlockRequestWithBound_def calm_def)
qed

lemma calm_after: "conn_inv n \<Longrightarrow> c < length (nd_clients n) \<Longrightarrow> calm c n (OnAfterHandshake now c n)"
proof -
  assume n: "conn_inv n" "c < length (nd_clients n)"
  have 1: "calm c n (SendListenPort now c n)" unfolding SendListenPort_def by (rule calm_SendMessage [OF n])
  then have 2: "calm c (SendListenPort now c n) (SendBlockRequest now c 0 (SendListenPort now c n))"
    by (intro calm_request) (use n in \<open>simp_all add: calm_def\<close>)
  then have 3: "calm c (SendBlockRequest now c 0 (SendListenPort now c n)) (OnAfterHandshake now c n)"
    unfolding OnAfterHandshake_def using n 1 by (intro calm_client) (simp_all add: calm_def)
  from 1 2 3 show ?thesis by (blast intro: calm_trans)
qed

lemma calm_solution:
  assumes n: "conn_inv n" "c < length (nd_clients n)" and "sendHandshakeSolution K cid now salt c challenge n = Some n'"
  shows "calm c n n'"
proof -
  have 1: "calm c n (SendMessage now c i bs n)" for i bs by (rule calm_SendMessage [OF n])
  then have "calm c n (updClient c (\<lambda>cl. cl\<lparr>cl_SentSolution := True\<rparr>) (SendMessage now c i bs n))" for i bs
    by (rule calm_then_client) (simp_all add: n(2))
  then show ?thesis using assms(3) calm_refl [OF n(1)] by (auto simp: sendHandshakeSolution_def split: Option.bind_splits if_splits)
qed

text \<open>Handlers that end the goroutine leave the client closed.\<close>

lemma Ban_closed: "conn_inv n \<Longrightarrow> c < length (nd_clients n) \<Longrightarrow> cl_Closed (client (Ban now c seconds e n) c)"
  using Ban_ok by blast

lemma Close_closed: "conn_inv n \<Longrightarrow> c < length (nd_clients n) \<Longrightarrow> cl_Closed (client (Close now c n) c)"
  using Close_ok by blast

lemma reading_cases:
  assumes "reading now c p f r n = Some (out, n', r')" "conn_inv n" "c < length (nd_clients n)"
  obtains (failed) "out = Stop" "cl_Closed (client n' c)" | (ok) v r1 where "p r = (Inr v, r1)" "f v r1 n = Some (out, n', r')"
proof (cases "fst (p r)")
  case (Inl e)
  have "conn_inv (Close now c n)" "length (nd_clients (Close now c n)) = length (nd_clients n)" using calm_Close [OF assms(2,3), of now] by (simp_all add: calm_def)
  then show ?thesis using Inl assms failed Ban_closed [of "Close now c n" c now DefaultBanTime e] by (cases "p r") (auto simp: reading_def)
next
  case (Inr v)
  then show ?thesis using assms(1) ok by (cases "p r") (auto simp: reading_def)
qed

lemma SetError_complete: "conn_inv n \<Longrightarrow> c < length (nd_clients n) \<Longrightarrow>
   conn_inv (SetError c e (setComplete c n)) \<and> c < length (nd_clients (SetError c e (setComplete c n)))"
  by (auto simp: SetError_def setComplete_def intro!: conn_inv_client split: if_splits)

lemma challenge_not_complete:
  assumes "onHandshakeChallenge K cid now salt c r n = Some (out, n', r')" "conn_inv n" "c < length (nd_clients n)" "\<not> isComplete n c"
  shows "cl_Closed (client n' c) \<or> \<not> isComplete n' c"
proof -
  have "reading now c (ReadFull 8) (\<lambda>challenge. reading now c (ReadLE 8) (\<lambda>peerId r n.
       if peerId = sv_peerId (nd_server n) then Some (Stop, Close now c (SetError c (Err ''connected to self'') (setComplete c n)), r)
       else let n = updClient c (\<lambda>cl. cl\<lparr>cl_PeerId := peerId\<rparr>) n in
         if samePeer n c peerId then Some (Stop, Close now c (SetError c (Err ''already connected'') (setComplete c n)), r)
         else Option.bind (sendHandshakeSolution K cid now salt c challenge n) (\<lambda>n.
           finishHandshake now c r (updClient c (\<lambda>cl. cl\<lparr>cl_expected := MessageHandshakeSolution\<rparr>) n)))) r n = Some (out, n', r')"
    using assms(1,4) by (simp add: onHandshakeChallenge_def)
  then show ?thesis
  proof (rule reading_cases [OF _ assms(2,3)], goal_cases)
    case (2 challenge r1)
    from 2(2) show ?case
    proof (rule reading_cases [OF _ assms(2,3)], goal_cases)
      case (2 peerId r2)
      let ?n = "updClient c (\<lambda>cl. cl\<lparr>cl_PeerId := peerId\<rparr>) n"
      have calm: "calm c n ?n" by (rule calm_client [OF assms(2,3)]) simp
      then have ok: "conn_inv ?n" "c < length (nd_clients ?n)" using assms(3) by (simp_all add: calm_def)
      have gone: "cl_Closed (client (Close now c (SetError c e (setComplete c m))) c)" if "conn_inv m" "c < length (nd_clients m)" for e and m :: "'a Node_scheme"
        using SetError_complete [OF that, of e] by (blast intro: Close_closed)
      show ?case
      proof (cases "peerId = sv_peerId (nd_server n) \<or> samePeer ?n c peerId")
        case True
        then show ?thesis using 2(2) gone [OF assms(2,3)] gone [OF ok] by (auto simp: Let_def split: if_splits)
      next
        case False
        then obtain m where m: "sendHandshakeSolution K cid now salt c challenge ?n = Some m"
          and fin: "finishHandshake now c r2 (updClient c (\<lambda>cl. cl\<lparr>cl_expected := MessageHandshakeSolution\<rparr>) m) = Some (out, n', r')"
          using 2(2) by (auto simp: Let_def split: Option.bind_splits)
        let ?m = "updClient c (\<lambda>cl. cl\<lparr>cl_expected := MessageHandshakeSolution\<rparr>) m"
        have "calm c n ?m" by (rule calm_then_client [OF calm_trans [OF calm calm_solution [OF ok m]] assms(3)]) simp
        then show ?thesis using fin assms(3,4) calm_after [of ?m c now] by (auto simp: finishHandshake_def calm_def split: if_splits)
      qed
    qed simp
  qed simp
qed

lemma solution_complete:
  assumes "onHandshakeSolution K cid now c r n = Some (out, n', r')" "conn_inv n" "c < length (nd_clients n)" "\<not> cl_Closed (client n' c)"
  shows "\<exists>solution r1 r2 h. (ReadLE 32 r :: hash result \<times> reader) = (Inr h, r1) \<and> ReadLE 8 r1 = (Inr solution, r2) \<and>
    fst (CalculateChallengeHash K (cl_challenge (client n c)) cid solution) = h \<and>
    (cl_Incoming (client n c) \<longrightarrow> snd (CalculateChallengeHash K (cl_challenge (client n c)) cid solution))"
proof (cases "isComplete n c")
  case True
  then show ?thesis using assms Ban_closed [OF assms(2,3)] by (auto simp: onHandshakeSolution_def)
next
  case False
  with assms(1) have "reading now c (ReadLE 32) (\<lambda>challengeHash. reading now c (ReadLE 8) (\<lambda>solution r n.
       let (hash, ok) = CalculateChallengeHash K (cl_challenge (client n c)) cid solution in
       if cl_Incoming (client n c) \<and> \<not> ok then banned_with now c (Err ''not enough PoW on HANDSHAKE_SOLUTION'') r n
       else if hash \<noteq> challengeHash then banned_with now c (Err ''wrong hash HANDSHAKE_SOLUTION'') r n
       else finishHandshake now c r (setComplete c n))) r n = Some (out, n', r')"
    by (simp add: onHandshakeSolution_def)
  then show ?thesis
  proof (rule reading_cases [OF _ assms(2,3)], goal_cases)
    case (2 h r1)
    from 2(2) show ?case
    proof (rule reading_cases [OF _ assms(2,3)], goal_cases)
      case (2 solution r2)
      then show ?case using Ban_closed [OF assms(2,3)] assms(4) \<open>ReadLE 32 r = (Inr h, r1)\<close>
        by (auto simp: Let_def split: prod.splits if_splits)
    qed (simp add: assms(4))
  qed (simp add: assms(4))
qed

lemma ReadLE_taken:
  fixes w :: "'a::len word"
  assumes "ReadLE k r = (Inr w, r')" "LENGTH('a) = 8 * k"
  shows "take k (avail r) = le_bytes k w \<and> avail r' = drop k (avail r)"
proof (cases "k \<le> length (avail r)")
  case True
  then have "w = le_word (take k (avail r))" "r' = advance k r" using assms(1) by (auto simp: ReadLE_def andThen_def ReadFull_ok giveR_def)
  then show ?thesis using le_bytes_le_word [of "take k (avail r)", where ?'a = 'a] True assms(2) by (simp add: min_absorb2)
next
  case False
  then show ?thesis using assms(1) by (simp add: ReadLE_def andThen_def ReadFull_short)
qed

text \<open>C16: The handshake is authentic.  While a client waits for one of the two handshake messages, a message after which its handshake counts as complete and the client is still
open is a HANDSHAKE_SOLUTION that came after the HANDSHAKE_CHALLENGE, and its hash is the keccak hash of the challenge we sent to that client, our consensus id and the number sent; when the
other side called us the hash has the required proof of work.  Any other message at that point, also one cut short, leaves the client closed or the handshake incomplete.\<close>

theorem handshake_authentic:
  assumes "conn_inv n" and "c < length (nd_clients n)"
    and "\<not> cl_HandshakeComplete (client n c)" and "cl_expected (client n c) \<in> {MessageHandshakeChallenge, MessageHandshakeSolution}"
    and "onMessage K consensusId other now salt c r n = Some (out, n', r')"
    and "cl_HandshakeComplete (client n' c)" and "\<not> cl_Closed (client n' c)"
  shows "cl_expected (client n c) = MessageHandshakeSolution \<and>
    (\<exists>solution. take 41 (avail r) = MessageHandshakeSolution # le_bytes 32 (fst (CalculateChallengeHash K (cl_challenge (client n c)) consensusId solution)) @ le_bytes 8 solution \<and>
      (cl_Incoming (client n c) \<longrightarrow> snd (CalculateChallengeHash K (cl_challenge (client n c)) consensusId solution)))"
proof (cases "ReadFull 1 r")
  case (Pair v r1)
  show ?thesis
  proof (cases v)
    case (Inl e)
    then have "n' = Close now c n" using assms(5) Pair by (simp add: onMessage_def)
    then show ?thesis using Close_closed [OF assms(1,2)] assms(7) by simp
  next
    case (Inr bs)
    have id: "hd bs = cl_expected (client n c)"
      using assms(3,5,7) Pair Inr Ban_closed [OF assms(1,2)] by (auto simp: onMessage_def Let_def isComplete_def split: if_splits)
    let ?h = "if cl_expected (client n c) = MessageHandshakeChallenge then onHandshakeChallenge K consensusId now salt c r1 n
      else onHandshakeSolution K consensusId now c r1 n"
    have "Option.bind ?h (\<lambda>(out, n, r). Some (out, if out = GoOn then updClient c (\<lambda>cl. cl\<lparr>cl_LastActive := now\<rparr>) n else n, r)) = Some (out, n', r')"
      using assms(3,4,5) Pair Inr id by (auto simp: onMessage_def Let_def isComplete_def)
    then obtain m r2 where h: "?h = Some (out, m, r2)" and n': "n' = (if out = GoOn then updClient c (\<lambda>cl. cl\<lparr>cl_LastActive := now\<rparr>) m else m)"
      by (auto split: Option.bind_splits)
    have m: "cl_HandshakeComplete (client m c) = cl_HandshakeComplete (client n' c)" "cl_Closed (client m c) = cl_Closed (client n' c)"
      using n' client_updClient_field [of cl_HandshakeComplete "\<lambda>cl. cl\<lparr>cl_LastActive := now\<rparr>" c m c]
        client_updClient_field [of cl_Closed "\<lambda>cl. cl\<lparr>cl_LastActive := now\<rparr>" c m c] by simp_all
    show ?thesis
    proof (cases "cl_expected (client n c) = MessageHandshakeChallenge")
      case True
      then have "onHandshakeChallenge K consensusId now salt c r1 n = Some (out, m, r2)" using h by simp
      from challenge_not_complete [OF this assms(1,2)] show ?thesis using assms(3,6,7) m by (simp add: isComplete_def)
    next
      case False
      then have "onHandshakeSolution K consensusId now c r1 n = Some (out, m, r2)" using h by simp
      from solution_complete [OF this assms(1,2)] obtain solution r2 r3 where
        read: "ReadLE 32 r1 = (Inr (fst (CalculateChallengeHash K (cl_challenge (client n c)) consensusId solution)), r2)" "ReadLE 8 r2 = (Inr solution, r3)"
        and pow: "cl_Incoming (client n c) \<longrightarrow> snd (CalculateChallengeHash K (cl_challenge (client n c)) consensusId solution)"
        using assms(7) m by auto
      have id': "hd bs = MessageHandshakeSolution" using False assms(4) id by simp
      have "1 \<le> length (avail r)" using Pair Inr ReadFull_short [of r 1] by (cases "avail r") (auto simp: not_le)
      then have r1: "bs = take 1 (avail r)" "avail r1 = drop 1 (avail r)" using Pair Inr by (auto simp: ReadFull_ok)
      then have "take 1 (avail r) = [MessageHandshakeSolution]" using id' \<open>1 \<le> length (avail r)\<close> by (cases "avail r") auto
      then have "take 41 (avail r) = MessageHandshakeSolution # take 40 (avail r1)" using r1(2) by (cases "avail r") auto
      moreover have "take 40 (avail r1) = take 32 (avail r1) @ take 8 (drop 32 (avail r1))" using take_add [of 32 8 "avail r1"] by simp
      ultimately show ?thesis
        using False assms(4) pow ReadLE_taken [OF read(1)] ReadLE_taken [OF read(2)] by auto
    qed
  qed
qed

section \<open>Two nodes that follow the protocol\<close>

definition live :: "'a Node_scheme \<Rightarrow> nat \<Rightarrow> bool" where
  "live n c \<longleftrightarrow> c < length (nd_clients n) \<and> \<not> cl_Closed (client n c) \<and> cl_writable (client n c)"

lemma SendMessage_live:
  "live n c \<Longrightarrow> length bs + 1 \<le> MaxBufferSize \<Longrightarrow> SendMessage now c i bs n = updClient c (\<lambda>cl. cl\<lparr>cl_sent := cl_sent cl @ [(i, bs)]\<rparr>) n"
  by (simp add: SendMessage_def live_def)

lemma updClient_twice: "updClient c f (updClient c g n) = updClient c (\<lambda>cl. f (g cl)) n"
  by (cases "c < length (nd_clients n)") (simp_all add: updClient_def client_def list_update_beyond)

lemma live_client: "live n c \<Longrightarrow> client (updClient c f n) c = f (client n c)"
  by (simp add: live_def client_updClient)

lemma live_updClient: "live n c \<Longrightarrow> \<not> cl_Closed (f (client n c)) \<and> cl_writable (f (client n c)) \<Longrightarrow> live (updClient c f n) c"
  by (simp add: live_def client_updClient)

lemma samePeer_own: "samePeer (updClient c f n) c p = samePeer n c p"
  by (auto simp: samePeer_def client_def updClient_def)

lemma challenge_answered:
  assumes "live n c" "\<not> isComplete n c" "cl_expected (client n c) = MessageHandshakeChallenge"
    and r: "avail r = MessageHandshakeChallenge # challenge @ le_bytes 8 peerId @ rest" "length challenge = 8"
    and "peerId \<noteq> sv_peerId (nd_server n)" "\<not> samePeer n c peerId"
    and find: "FindChallengeSolution K challenge cid (cl_Incoming (client n c)) salt = Some (solution, h, ok)" "ok \<or> cl_Incoming (client n c)"
  shows "onMessage K cid other now salt c r n =
    Some (GoOn, updClient c (\<lambda>cl. cl\<lparr>cl_PeerId := peerId, cl_sent := cl_sent cl @ [(MessageHandshakeSolution, le_bytes 32 h @ le_bytes 8 solution)],
      cl_SentSolution := True, cl_expected := MessageHandshakeSolution, cl_LastActive := now\<rparr>) n, advance 17 r)"
proof -
  let ?p = "\<lambda>cl. cl\<lparr>cl_PeerId := peerId\<rparr>"
  have l: "live (updClient c ?p n) c" by (rule live_updClient) (use assms(1) in \<open>simp_all add: live_def\<close>)
  have read: "ReadFull (Suc 0) r = (Inr [MessageHandshakeChallenge], advance (Suc 0) r)" "ReadFull 8 (advance (Suc 0) r) = (Inr challenge, advance 9 r)"
    "ReadLE 8 (advance 9 r) = (Inr peerId, advance 17 r)"
    using ReadFull_ok [of 1 r] ReadFull_ok [of 8 "advance (Suc 0) r"] decodesD [OF decodes_ReadLE, of 8 "advance 9 r" peerId rest] r by simp_all
  have "onHandshakeChallenge K cid now salt c (advance (Suc 0) r) n = finishHandshake now c (advance 17 r)
      (updClient c (\<lambda>cl. cl\<lparr>cl_PeerId := peerId, cl_sent := cl_sent cl @ [(MessageHandshakeSolution, le_bytes 32 h @ le_bytes 8 solution)],
        cl_SentSolution := True, cl_expected := MessageHandshakeSolution\<rparr>) n)"
    using assms(1,2,6,7) find l assms(1) [unfolded live_def]
    by (simp add: onHandshakeChallenge_def reading_def read Let_def samePeer_own sendHandshakeSolution_def live_client SendMessage_live MaxBufferSize_def updClient_twice)
  then show ?thesis using assms(1,2,3) read
    by (simp add: onMessage_def Let_def finishHandshake_def isComplete_def live_client updClient_twice)
qed

lemma solution_accepted:
  assumes "live n c" "\<not> isComplete n c" "cl_SentSolution (client n c)" "cl_expected (client n c) = MessageHandshakeSolution"
    and r: "avail r = MessageHandshakeSolution # le_bytes 32 h @ le_bytes 8 solution @ rest"
    and calc: "CalculateChallengeHash K (cl_challenge (client n c)) cid solution = (h, ok)" "cl_Incoming (client n c) \<longrightarrow> ok"
    and "length (cl_blockPending (client n c)) < 80"
  shows "onMessage K cid other now salt c r n =
    Some (GoOn, updClient c (\<lambda>cl. cl\<lparr>cl_HandshakeComplete := True,
      cl_blockPending := cl_blockPending cl @ [0],
      cl_sent := cl_sent cl @ [(MessageListenPort, le_bytes 4 (ucast (ExternalListenPort (nd_server n)) :: u32)), (MessageBlockRequest, le_bytes 32 (0 :: hash))],
      cl_LastBroadcast := now, cl_LastActive := now\<rparr>) n, advance 41 r)"
proof -
  have read: "ReadFull (Suc 0) r = (Inr [MessageHandshakeSolution], advance (Suc 0) r)" "ReadLE 32 (advance (Suc 0) r) = (Inr h, advance 33 r)"
    "ReadLE 8 (advance 33 r) = (Inr solution, advance 41 r)"
    using ReadFull_ok [of 1 r] decodesD [OF decodes_ReadLE, of 32 "advance (Suc 0) r" h "le_bytes 8 solution @ rest"]
      decodesD [OF decodes_ReadLE, of 8 "advance 33 r" solution rest] r by simp_all
  have port: "ExternalListenPort (nd_server (updClient c f n)) = ExternalListenPort (nd_server n)" for f by simp
  have l: "live (updClient c f n) c" if "\<not> cl_Closed (f (client n c)) \<and> cl_writable (f (client n c))" for f
    using assms(1) that by (rule live_updClient)
  have o: "\<not> cl_Closed (client n c)" "cl_writable (client n c)" using assms(1) by (simp_all add: live_def)
  have "onHandshakeSolution K cid now c (advance (Suc 0) r) n = Some (GoOn, OnAfterHandshake now c (setComplete c n), advance 41 r)"
    using assms(1,2,3) calc by (auto simp: onHandshakeSolution_def reading_def read finishHandshake_def isComplete_def setComplete_def live_client)
  moreover have "OnAfterHandshake now c (setComplete c n) =
      updClient c (\<lambda>cl. cl\<lparr>cl_HandshakeComplete := True,
      cl_blockPending := cl_blockPending cl @ [0],
      cl_sent := cl_sent cl @ [(MessageListenPort, le_bytes 4 (ucast (ExternalListenPort (nd_server n)) :: u32)), (MessageBlockRequest, le_bytes 32 (0 :: hash))],
      cl_LastBroadcast := now\<rparr>) n"
    using assms(1,8) o
    by (simp add: OnAfterHandshake_def SendListenPort_def SendBlockRequest_def SendBlockRequestWithBound_def setComplete_def SendMessage_live l updClient_twice
        live_client MaxBufferSize_def port)
  ultimately show ?thesis using assms(2,4) read by (simp add: onMessage_def Let_def MessageHandshakeSolution_def MessageHandshakeChallenge_def updClient_twice)
qed

text \<open>A connection at its start, with our challenge sent.\<close>

definition fresh :: "'a Node_scheme \<Rightarrow> nat \<Rightarrow> bool" where
  "fresh n c \<longleftrightarrow> live n c \<and> \<not> isComplete n c \<and> cl_expected (client n c) = MessageHandshakeChallenge \<and> cl_blockPending (client n c) = [] \<and>
    length (cl_challenge (client n c)) = 8"

lemma start_fresh:
  assumes "c < length (nd_clients n)" "client n c = NewClient t ap inc" "length random = 8"
  shows "fresh (sendHandshakeChallenge now c random n) c \<and>
    cl_sent (client (sendHandshakeChallenge now c random n) c) = [(MessageHandshakeChallenge, random @ le_bytes 8 (sv_peerId (nd_server n)))]"
proof -
  let ?n = "updClient c (\<lambda>cl. cl\<lparr>cl_challenge := random\<rparr>) n"
  have l: "live ?n c" using assms by (simp add: live_def client_updClient NewClient_def)
  show ?thesis using assms l live_client [OF l] live_updClient [OF l, of "\<lambda>cl. cl\<lparr>cl_sent := cl_sent cl @ [(MessageHandshakeChallenge, random @ le_bytes 8 (sv_peerId (nd_server n)))]\<rparr>"]
    by (simp add: sendHandshakeChallenge_def SendMessage_live MaxBufferSize_def fresh_def isComplete_def client_updClient NewClient_def
        MessageHandshakeChallenge_def updClient_twice)
qed

text \<open>C17: Honest nodes complete the handshake.  When node \<open>A\<close> has called node \<open>B\<close>, both have sent their challenges, neither is connected to the other yet, and the challenge of \<open>B\<close> has a
solution, then handing each side the two messages the other has sent completes the handshake on both sides: all four messages are taken whole, both clients stay
open, and both sides go on to send their listen port and the request for the tip.\<close>

theorem handshake_completes:
  assumes "fresh A a" and "\<not> cl_Incoming (client A a)" and "fresh B b" and "cl_Incoming (client B b)"
    and "sv_peerId (nd_server A) \<noteq> sv_peerId (nd_server B)"
    and "\<not> samePeer A a (sv_peerId (nd_server B))" and "\<not> samePeer B b (sv_peerId (nd_server A))"
    and "\<exists>x. snd (CalculateChallengeHash K (cl_challenge (client B b)) consensusId x)"
  shows "\<exists>A1 A2 B1 B2 mA mB.
    onMessage K consensusId other now saltA a
      (BytesReader (MessageHandshakeChallenge # cl_challenge (client B b) @ le_bytes 8 (sv_peerId (nd_server B)))) A = Some (GoOn, A1, BytesReader []) \<and>
    onMessage K consensusId other now saltB b
      (BytesReader (MessageHandshakeChallenge # cl_challenge (client A a) @ le_bytes 8 (sv_peerId (nd_server A)))) B = Some (GoOn, B1, BytesReader []) \<and>
    last (cl_sent (client A1 a)) = (MessageHandshakeSolution, mA) \<and> last (cl_sent (client B1 b)) = (MessageHandshakeSolution, mB) \<and>
    onMessage K consensusId other now saltA a (BytesReader (MessageHandshakeSolution # mB)) A1 = Some (GoOn, A2, BytesReader []) \<and>
    onMessage K consensusId other now saltB b (BytesReader (MessageHandshakeSolution # mA)) B1 = Some (GoOn, B2, BytesReader []) \<and>
    cl_HandshakeComplete (client A2 a) \<and> \<not> cl_Closed (client A2 a) \<and> cl_HandshakeComplete (client B2 b) \<and> \<not> cl_Closed (client B2 b) \<and>
    map fst (cl_sent (client A2 a)) = map fst (cl_sent (client A1 a)) @ [MessageListenPort, MessageBlockRequest] \<and>
    map fst (cl_sent (client B2 b)) = map fst (cl_sent (client B1 b)) @ [MessageListenPort, MessageBlockRequest]"
proof -
  let ?chA = "cl_challenge (client A a)" and ?chB = "cl_challenge (client B b)"
  obtain sA hA where sA: "FindChallengeSolution K ?chB consensusId (cl_Incoming (client A a)) saltA = Some (sA, hA, True)"
    and calcB: "CalculateChallengeHash K ?chB consensusId sA = (hA, True)"
    using assms(2,8) findLoop_finds [of K "?chB @ le_bytes 32 consensusId" _ saltA] by (auto simp: FindChallengeSolution_def CalculateChallengeHash_def Let_def)
  obtain hB okB where calcA: "CalculateChallengeHash K ?chA consensusId saltB = (hB, okB)" by fastforce
  then have sB: "FindChallengeSolution K ?chA consensusId (cl_Incoming (client B b)) saltB = Some (saltB, hB, False)"
    using assms(4) by (subst FindChallengeSolution_def, subst findLoop.simps) (auto simp: CalculateChallengeHash_def Let_def)
  let ?step = "\<lambda>p h s. \<lambda>cl. cl\<lparr>cl_PeerId := p, cl_sent := cl_sent cl @ [(MessageHandshakeSolution, le_bytes 32 h @ le_bytes 8 s)],
      cl_SentSolution := True, cl_expected := MessageHandshakeSolution, cl_LastActive := now\<rparr>"
  let ?A1 = "updClient a (?step (sv_peerId (nd_server B)) hA sA) A" and ?B1 = "updClient b (?step (sv_peerId (nd_server A)) hB saltB) B"
  have f: "live A a" "\<not> isComplete A a" "cl_expected (client A a) = MessageHandshakeChallenge" "length ?chA = 8" "cl_blockPending (client A a) = []"
    "live B b" "\<not> isComplete B b" "cl_expected (client B b) = MessageHandshakeChallenge" "length ?chB = 8" "cl_blockPending (client B b) = []"
    using assms(1,3) by (simp_all add: fresh_def)
  have l: "live ?A1 a" "live ?B1 b" by (rule live_updClient; use f in \<open>simp add: live_def\<close>)+
  have c1: "client ?A1 a = ?step (sv_peerId (nd_server B)) hA sA (client A a)" "client ?B1 b = ?step (sv_peerId (nd_server A)) hB saltB (client B b)"
    using f by (simp_all add: live_client)
  have 1: "onMessage K consensusId other now saltA a (BytesReader (MessageHandshakeChallenge # ?chB @ le_bytes 8 (sv_peerId (nd_server B)))) A = Some (GoOn, ?A1, BytesReader [])"
    using challenge_answered [OF f(1,2,3) _ f(9) assms(5) [symmetric] assms(6) sA, of "BytesReader (MessageHandshakeChallenge # ?chB @ le_bytes 8 (sv_peerId (nd_server B)))" "[]"] f(9) by simp
  have 2: "onMessage K consensusId other now saltB b (BytesReader (MessageHandshakeChallenge # ?chA @ le_bytes 8 (sv_peerId (nd_server A)))) B = Some (GoOn, ?B1, BytesReader [])"
    using challenge_answered [OF f(6,7,8) _ f(4) assms(5) assms(7) sB, of "BytesReader (MessageHandshakeChallenge # ?chA @ le_bytes 8 (sv_peerId (nd_server A)))" "[]"] f(4) assms(4) by simp
  let ?done = "\<lambda>n. \<lambda>cl. cl\<lparr>cl_HandshakeComplete := True, cl_blockPending := cl_blockPending cl @ [0],
      cl_sent := cl_sent cl @ [(MessageListenPort, le_bytes 4 (ucast (ExternalListenPort (nd_server n)) :: u32)), (MessageBlockRequest, le_bytes 32 (0 :: hash))],
      cl_LastBroadcast := now, cl_LastActive := now\<rparr>"
  let ?A2 = "updClient a (?done A) ?A1" and ?B2 = "updClient b (?done B) ?B1"
  have pre: "\<not> isComplete ?A1 a" "\<not> isComplete ?B1 b" using f c1 by (simp_all add: isComplete_def)
  have 3: "onMessage K consensusId other now saltA a (BytesReader (MessageHandshakeSolution # le_bytes 32 hB @ le_bytes 8 saltB)) ?A1 = Some (GoOn, ?A2, BytesReader [])"
    using solution_accepted [OF l(1), of "BytesReader (MessageHandshakeSolution # le_bytes 32 hB @ le_bytes 8 saltB)" hB saltB "[]" K consensusId okB other now saltA]
      pre c1 f assms(2) calcA by simp
  have 4: "onMessage K consensusId other now saltB b (BytesReader (MessageHandshakeSolution # le_bytes 32 hA @ le_bytes 8 sA)) ?B1 = Some (GoOn, ?B2, BytesReader [])"
    using solution_accepted [OF l(2), of "BytesReader (MessageHandshakeSolution # le_bytes 32 hA @ le_bytes 8 sA)" hA sA "[]" K consensusId True other now saltB]
      pre c1 f calcB by simp
  have c2: "client ?A2 a = ?done A (client ?A1 a)" "client ?B2 b = ?done B (client ?B1 b)" using l by (simp_all add: live_client)
  have open': "\<not> cl_Closed (client A a)" "\<not> cl_Closed (client B b)" using f by (simp_all add: live_def)
  have e: "last (cl_sent (client ?A1 a)) = (MessageHandshakeSolution, le_bytes 32 hA @ le_bytes 8 sA)"
    "last (cl_sent (client ?B1 b)) = (MessageHandshakeSolution, le_bytes 32 hB @ le_bytes 8 saltB)"
    "cl_HandshakeComplete (client ?A2 a)" "\<not> cl_Closed (client ?A2 a)" "cl_HandshakeComplete (client ?B2 b)" "\<not> cl_Closed (client ?B2 b)"
    "map fst (cl_sent (client ?A2 a)) = map fst (cl_sent (client ?A1 a)) @ [MessageListenPort, MessageBlockRequest]"
    "map fst (cl_sent (client ?B2 b)) = map fst (cl_sent (client ?B1 b)) @ [MessageListenPort, MessageBlockRequest]"
    unfolding c2 unfolding c1 by (simp_all add: open')
  show ?thesis
    by (intro exI conjI, rule 1, rule 2, rule e(1), rule e(2), rule 3, rule 4, rule e(3), rule e(4), rule e(5), rule e(6), rule e(7), rule e(8))
qed

section \<open>Examples\<close>

definition callerNode :: Node where
  "callerNode = dialDone 1000 (Addr4 0x05060708, 37889) (NewNode (NewServer 2 37889 0 10 10 True True))"

lemma example_nodes:
  "0 < length (nd_clients callerNode)" "client callerNode 0 = NewClient 1000 (Addr4 0x05060708, 37889) False" "nd_server callerNode = (NewServer 2 37889 0 10 10 True True)\<lparr>sv_clients := [0]\<rparr>"
  "0 < length (nd_clients fullNode)" "client fullNode 0 = NewClient 1000 (Addr4 0x01020304, 5000) True"
  "sv_clients (nd_server fullNode) = [0]" "sv_peerId (nd_server fullNode) = 1"
  by (simp_all add: callerNode_def dialDone_def fullNode_def accept_def rejectIncoming_def NewNode_def NewServer_def Let_def GetAddressConnected_def
      IsLoopback_def IsBanned_def Unmap_def client_def)

lemma zero_solves: "CalculateChallengeHash (\<lambda>_. 0) ch cid x = (0, True)"
  by (simp add: CalculateChallengeHash_def solves_iff)

theorem handshake_completes_witness:
  "\<exists>A1 B1 A2 B2 mA mB.
     onMessage (\<lambda>_. 0) 1 (\<lambda>_ _ _. None) 1000 0 0 (BytesReader (MessageHandshakeSolution # mB)) A1 = Some (GoOn, A2, BytesReader []) \<and>
     onMessage (\<lambda>_. 0) 1 (\<lambda>_ _ _. None) 1000 0 0 (BytesReader (MessageHandshakeSolution # mA)) B1 = Some (GoOn, B2, BytesReader []) \<and>
     cl_HandshakeComplete (client (A2 :: Node) 0) \<and> cl_HandshakeComplete (client (B2 :: Node) 0)"
proof -
  let ?A = "sendHandshakeChallenge 1000 0 (replicate 8 1) callerNode" and ?B = "sendHandshakeChallenge 1000 0 (replicate 8 2) fullNode"
  have f: "fresh ?A 0" "fresh ?B 0" using start_fresh [OF example_nodes(1,2), of "replicate 8 1" 1000] start_fresh [OF example_nodes(4,5), of "replicate 8 2" 1000] by simp_all
  have s: "client ?A 0 = (NewClient 1000 (Addr4 0x05060708, 37889) False)\<lparr>cl_challenge := replicate 8 1, cl_sent := [(MessageHandshakeChallenge, replicate 8 1 @ le_bytes 8 (2 :: u64))]\<rparr>"
    "client ?B 0 = (NewClient 1000 (Addr4 0x01020304, 5000) True)\<lparr>cl_challenge := replicate 8 2, cl_sent := [(MessageHandshakeChallenge, replicate 8 2 @ le_bytes 8 (1 :: u64))]\<rparr>"
    "nd_server ?A = nd_server callerNode" "nd_server ?B = nd_server fullNode"
    using example_nodes by (simp_all add: sendHandshakeChallenge_def SendMessage_def client_updClient NewClient_def MaxBufferSize_def updClient_twice NewServer_def)
  then have no: "\<not> samePeer ?A 0 (sv_peerId (nd_server ?B))" "\<not> samePeer ?B 0 (sv_peerId (nd_server ?A))" using example_nodes by (simp_all add: samePeer_def)
  have ids: "sv_peerId (nd_server ?A) \<noteq> sv_peerId (nd_server ?B)" using s example_nodes by (simp add: NewServer_def)
  have "\<exists>x. snd (CalculateChallengeHash (\<lambda>_. 0) (cl_challenge (client ?B 0)) 1 x)" by (simp add: zero_solves)
  from handshake_completes [OF f(1) _ f(2) _ ids no this, of "\<lambda>_ _ _. None" 1000 0 0]
  show ?thesis using s by (simp add: NewClient_def) blast
qed

theorem handshake_authentic_witness:
  "\<exists>n n' :: Node. onMessage (\<lambda>_. 0) 1 (\<lambda>_ _ _. None) 1000 0 0 (BytesReader (MessageHandshakeSolution # le_bytes 32 (0 :: hash) @ le_bytes 8 (7 :: u64))) n = Some (GoOn, n', BytesReader []) \<and>
     cl_HandshakeComplete (client n' 0) \<and> cl_expected (client n 0) = MessageHandshakeSolution"
proof -
  let ?f = "\<lambda>cl. cl\<lparr>cl_expected := MessageHandshakeSolution, cl_SentSolution := True\<rparr>"
  let ?n = "updClient 0 ?f fullNode"
  let ?r = "BytesReader (MessageHandshakeSolution # le_bytes 32 (0 :: hash) @ le_bytes 8 (7 :: u64))"
  have c: "client ?n 0 = ?f (NewClient 1000 (Addr4 0x01020304, 5000) True)" using example_nodes by (simp add: client_updClient)
  have l: "live ?n 0" using example_nodes(4) by (simp only: live_def c) (simp add: NewClient_def)
  have inv: "conn_inv ?n" by (rule conn_inv_client) (use conn_reach_inv [OF fullNode_reach(2,1)] in \<open>simp_all add: node_inv_def\<close>)
  note acc = solution_accepted [OF l, of ?r 0 7 "[]" "\<lambda>_. 0" 1 True "\<lambda>_ _ _. None" 1000 0]
  obtain n' where n': "onMessage (\<lambda>_. 0) 1 (\<lambda>_ _ _. None) 1000 0 0 ?r ?n = Some (GoOn, n', BytesReader [])"
    and "cl_HandshakeComplete (client n' 0)" "\<not> cl_Closed (client n' 0)"
    using acc zero_solves c live_client [OF l] by (simp add: isComplete_def NewClient_def)
  then show ?thesis
    using handshake_authentic [OF inv _ _ _ n'] c l by (intro exI [of _ ?n] exI [of _ n']) (simp add: NewClient_def live_def)
qed

end
