(* ===== verification/Messages.thy ===== *)
theory Messages
  imports Handshake Mainchain
begin

text \<open>
  The messages after the handshake (p2pool/p2p/client.go), broadcasts and the upkeep of connections (server.go), over the side chain of Chainapi.

  The node is extended by the side chain, the miner data of the main chain tip, the cached shares and the next free reference of the heap of shares.  A share that is read
  is put at a fresh reference.  Clock, random numbers and the measured ping are inputs of each step.  A panic is the outcome \<open>Crash\<close>: the message loop has no
  \<^verbatim>\<open>recover\<close>.  The value \<open>None\<close> stands for not returning, and for the state after a panic that \<^verbatim>\<open>AddPoolBlockExternal\<close> has recovered from.
\<close>

section \<open>State and inputs\<close>

record P2PNode = Node +
  pn_chain :: SideChain
  pn_minerData :: "MinerData option"
  pn_cached :: "(hash \<Rightarrow> ref option) option"
  pn_next :: ref

record inputs =
  in_now :: u64
  in_micros :: u64
  in_ping :: u64
  in_delay :: u64
  in_pick :: "nat \<Rightarrow> nat \<Rightarrow> nat"

definition MessageBlockResponse :: byte where "MessageBlockResponse = 4"
definition MessageBlockBroadcast :: byte where "MessageBlockBroadcast = 5"
definition MessagePeerListRequest :: byte where "MessagePeerListRequest = 6"
definition MessagePeerListResponse :: byte where "MessagePeerListResponse = 7"
definition MessageBlockBroadcastCompact :: byte where "MessageBlockBroadcastCompact = 8"
definition MessageBlockNotify :: byte where "MessageBlockNotify = 9"
definition MessageInternal :: byte where "MessageInternal = 0xFF"

text \<open>A step of the side chain: the rest of the handler runs on its result, a panic ends the process.\<close>

definition onChain :: "P2PNode \<Rightarrow> reader \<Rightarrow> 'v run \<Rightarrow> ('v \<Rightarrow> P2PNode handled) \<Rightarrow> P2PNode handled" where
  "onChain n r x f = (case x of None \<Rightarrow> None | Some (Inl e) \<Rightarrow> Some (Crash e, n, r) | Some (Inr v) \<Rightarrow> f v)"

section \<open>Sending\<close>

definition SendBlockNotify :: "u64 \<Rightarrow> nat \<Rightarrow> hash \<Rightarrow> 'a Node_scheme \<Rightarrow> 'a Node_scheme" where
  "SendBlockNotify now c i = SendMessage now c MessageBlockNotify (le_bytes 32 i)"

definition SendBlockResponse :: "u64 \<Rightarrow> nat \<Rightarrow> PoolBlock option \<Rightarrow> 'a Node_scheme \<Rightarrow> 'a Node_scheme result" where
  "SendBlockResponse now c block n =
    (case block of
       None \<Rightarrow> Inr (SendMessage now c MessageBlockResponse (le_bytes 4 (0 :: u32)) n)
     | Some b \<Rightarrow>
         (case PoolBlock_AppendBinaryFlags b [] False False of
            Inl (Panic m) \<Rightarrow> Inl (Panic m)
          | Inl _ \<Rightarrow> Inr (Close now c n)
          | Inr bytes \<Rightarrow> Inr (SendMessage now c MessageBlockResponse (le_bytes 4 (of_nat (length bytes) :: u32) @ bytes) n)))"

definition PeerRequestDelay :: u64 where "PeerRequestDelay = 60"

definition SendPeerListRequest :: "inputs \<Rightarrow> nat \<Rightarrow> 'a Node_scheme \<Rightarrow> 'a Node_scheme" where
  "SendPeerListRequest i c n =
    updClient c (\<lambda>cl. cl\<lparr>cl_LastPeerListRequest := in_micros i\<rparr>)
      (SendMessage (in_now i) c MessagePeerListRequest []
        (updClient c (\<lambda>cl. cl\<lparr>cl_NextPeerListRequest := in_now i + PeerRequestDelay + in_delay i mod (PeerRequestDelay + 1)\<rparr>) n))"

definition SendPeerListResponse :: "u64 \<Rightarrow> nat \<Rightarrow> AddrPort list \<Rightarrow> 'a Node_scheme \<Rightarrow> 'a Node_scheme" where
  "SendPeerListResponse now c l n =
    (case peerListPayload l of None \<Rightarrow> n | Some buf \<Rightarrow> SendMessage now c MessagePeerListResponse buf n)"

text \<open>\<^verbatim>\<open>time.Now().Unix() >= int64(c.NextOutgoingPeerListRequestTimestamp)\<close>\<close>

definition peerListDue :: "inputs \<Rightarrow> 'a Node_scheme \<Rightarrow> nat \<Rightarrow> bool" where
  "peerListDue i n c \<longleftrightarrow> sint (cl_NextPeerListRequest (client n c)) \<le> sint (in_now i)"

section \<open>Cached shares and missing shares\<close>

definition AddCachedBlock :: "env \<Rightarrow> ref \<Rightarrow> P2PNode \<Rightarrow> P2PNode" where
  "AddCachedBlock E b n =
    (case pn_cached n of None \<Rightarrow> n | Some m \<Rightarrow> n\<lparr>pn_cached := Some (m(templateIdOf E (blk (pn_chain n) b) \<mapsto> b))\<rparr>)"

definition ClearCachedBlocks :: "P2PNode \<Rightarrow> P2PNode" where
  "ClearCachedBlocks n = n\<lparr>pn_cached := None\<rparr>"

definition GetCachedBlock :: "P2PNode \<Rightarrow> hash \<Rightarrow> ref option" where
  "GetCachedBlock n h = (case pn_cached n of None \<Rightarrow> None | Some m \<Rightarrow> m h)"

text \<open>\<^verbatim>\<open>GetFastestClient\<close>: the good client with the smallest ping that is known.\<close>

fun fastestLoop :: "P2PNode \<Rightarrow> nat list \<Rightarrow> nat option \<Rightarrow> u64 \<Rightarrow> nat option" where
  "fastestLoop n [] best ping = best"
| "fastestLoop n (c # cs) best ping =
    (let p = cl_PingDuration (client n c) in
     if IsGood (client n c) \<and> p \<noteq> 0 \<and> (ping = 0 \<or> p < ping) then fastestLoop n cs (Some c) p else fastestLoop n cs best ping)"

definition GetFastestClient :: "P2PNode \<Rightarrow> nat option" where
  "GetFastestClient n = fastestLoop n (sv_clients (nd_server n)) None 0"

text \<open>The part of \<^verbatim>\<open>AddPoolBlockExternal\<close> a caller sees.\<close>

definition addExternal :: "env \<Rightarrow> ref \<Rightarrow> P2PNode \<Rightarrow> (reply \<times> P2PNode) option" where
  "addExternal E b n =
    (case AddPoolBlockExternal E (pn_chain n) b of
       Some (rep, Some s) \<Rightarrow> Some (rep, n\<lparr>pn_chain := s\<rparr>)
     | _ \<Rightarrow> None)"

definition requestUnique :: "u64 \<Rightarrow> nat \<Rightarrow> hash \<Rightarrow> P2PNode \<Rightarrow> (bool \<times> P2PNode) result" where
  "requestUnique now c h n =
    bindR (PushUnique (cl_Requested (client n c)) h) (\<lambda>(new, ring). Inr (new, updClient c (\<lambda>cl. cl\<lparr>cl_Requested := ring\<rparr>) n))"

definition SendUniqueBlockRequest :: "u64 \<Rightarrow> nat \<Rightarrow> hash \<Rightarrow> P2PNode \<Rightarrow> P2PNode result" where
  "SendUniqueBlockRequest now c h n =
    (if h = ZeroHash then Inr n
     else bindR (requestUnique now c h n) (\<lambda>(new, n). Inr (if new then SendBlockRequest now c h n else n)))"

lemma bindO_bind: "bindO m g = Option.bind m (\<lambda>x. case x of Inl e \<Rightarrow> Some (Inl e) | Inr y \<Rightarrow> g y)"
  by (cases m rule: bindO.cases [of "(m, g)" for m]) auto

lemma sum_case_mono: "(\<And>y. mono_option (\<lambda>f. C y f)) \<Longrightarrow> mono_option (\<lambda>f. case x of Inl e \<Rightarrow> Some (Inl e) | Inr y \<Rightarrow> C y f)"
  by (cases x) (simp_all add: option.const_mono)

lemma bindO_mono [partial_function_mono]:
  assumes "mono_option B" "\<And>y. mono_option (\<lambda>f. C y f)"
  shows "mono_option (\<lambda>f. bindO (B f) (\<lambda>y. C y f))"
  unfolding bindO_bind by (intro bind_mono assms sum_case_mono)

text \<open>One operation after the other; a panic or not returning ends the sequence.\<close>

fun foldRun :: "('b \<Rightarrow> 's \<Rightarrow> 's run) \<Rightarrow> 'b list \<Rightarrow> 's \<Rightarrow> 's run" where
  "foldRun f [] n = retO n"
| "foldRun f (x # xs) n = bindO (f x n) (foldRun f xs)"

lemma foldRun_mono [partial_function_mono]:
  assumes "\<And>x n. mono_option (\<lambda>f. g f x n)"
  shows "mono_option (\<lambda>f. foldRun (g f) xs n)"
proof (induction xs arbitrary: n)
  case (Cons x xs)
  show ?case unfolding foldRun.simps by (intro bindO_mono assms Cons)
qed (simp add: option.const_mono)

definition fromCache :: "env \<Rightarrow> hash \<Rightarrow> P2PNode \<Rightarrow> (hash list option \<times> P2PNode) run" where
  "fromCache E h n =
    (case GetCachedBlock n h of
       None \<Rightarrow> retO (None, n)
     | Some b \<Rightarrow> map_option (\<lambda>((missing, err, ban), n). Inr (if err = None then Some missing else None, n)) (addExternal E b n))"

partial_function (option) SendMissingBlockRequest :: "env \<Rightarrow> u64 \<Rightarrow> nat \<Rightarrow> hash \<Rightarrow> P2PNode \<Rightarrow> P2PNode run" where
  "SendMissingBlockRequest E now c h n =
    (if h = ZeroHash \<or> sc_byId (pn_chain n) h \<noteq> None then retO n
     else bindO (fromCache E h n) (\<lambda>(missing, n).
       case missing of
         Some ids \<Rightarrow> foldRun (SendMissingBlockRequest E now c) ids n
       | None \<Rightarrow>
           bindO (Some (requestUnique now c h n)) (\<lambda>(new, n).
             if \<not> new then retO n
             else
               bindO
                 (case GetFastestClient n of
                    Some fastest \<Rightarrow> if \<not> sc_precalcFinished (pn_chain n) \<and> fastest \<noteq> c then SendMissingBlockRequest E now fastest h n else retO n
                  | None \<Rightarrow> retO n)
                 (\<lambda>n. retO (SendBlockRequest now c h n)))))"

text \<open>\<^verbatim>\<open>SendMissingBlockRequestAtRandom\<close>: clients are drawn until one can take the request; those that cannot are dropped from the list.\<close>

fun drop_nth :: "nat \<Rightarrow> 'b list \<Rightarrow> 'b list" where
  "drop_nth k xs = take k xs @ drop (Suc k) xs"

function askAtRandom :: "inputs \<Rightarrow> nat \<Rightarrow> hash \<Rightarrow> nat list \<Rightarrow> P2PNode \<Rightarrow> nat list \<times> P2PNode" where
  "askAtRandom i j h allowed n =
    (if allowed = [] then ([], n)
     else let k = in_pick i j (length allowed) mod length allowed; c = allowed ! k in
       if IsGood (client n c) \<and> length (cl_blockPending (client n c)) < 20 then (allowed, SendBlockRequest (in_now i) c h n)
       else askAtRandom i (j + 1) h (drop_nth k allowed) n)"
  by pat_completeness auto
termination
proof (relation "measure (\<lambda>(i, j, h, allowed, n). length allowed)", goal_cases)
  case (2 i j h allowed n k c)
  then have "k < length allowed" by simp
  then show ?case by simp
qed simp

definition SendMissingBlockRequestAtRandom :: "env \<Rightarrow> inputs \<Rightarrow> nat \<Rightarrow> hash \<Rightarrow> nat list \<Rightarrow> P2PNode \<Rightarrow> (nat list \<times> P2PNode) option" where
  "SendMissingBlockRequestAtRandom E i c h allowed n =
    (if h = ZeroHash \<or> sc_byId (pn_chain n) h \<noteq> None then Some (allowed, n)
     else case fromCache E h n of
       Some (Inr (Some _, n)) \<Rightarrow> Some (allowed, n)
     | Some (Inr (None, n)) \<Rightarrow> Some (askAtRandom i 0 h (if allowed = [] then [c] else allowed) n)
     | _ \<Rightarrow> None)"

section \<open>Requests for shares\<close>

text \<open>The share that answers a request; the tip is withheld when it is stale.\<close>

definition requestedBlock :: "P2PNode \<Rightarrow> hash \<Rightarrow> ref option result" where
  "requestedBlock n templateId =
    (if templateId = ZeroHash then
       (case sc_chainTip (pn_chain n) of
          None \<Rightarrow> Inr None
        | Some tip \<Rightarrow>
            (case pn_minerData n of
               None \<Rightarrow> Inl (Panic ''nil pointer dereference'')
             | Some d \<Rightarrow> Inr (if c_GenHeight (b_Coinbase (pb_Main (blk (pn_chain n) tip))) + 2 < y_Height d then None else Some tip)))
     else Inr (sc_byId (pn_chain n) templateId))"

definition bothNotify :: "P2PNode \<Rightarrow> nat \<Rightarrow> bool" where
  "bothNotify n c \<longleftrightarrow> SupportsFeature (sv_version (nd_server n)) FeatureBlockNotify \<and> SupportsFeature (cl_Version (client n c)) FeatureBlockNotify"

text \<open>Ids the peer will need next are announced ahead of the share.\<close>

definition announceAncestors :: "u64 \<Rightarrow> nat \<Rightarrow> ref \<Rightarrow> P2PNode \<Rightarrow> P2PNode" where
  "announceAncestors now c b n =
    (let side = pb_Side (blk (pn_chain n) b);
         n' = fold (SendBlockNotify now c) (sd_Parent side # sd_Uncles side) n
     in case getParent (pn_chain n) b of
          None \<Rightarrow> n'
        | Some p \<Rightarrow> SendBlockNotify now c (sd_Parent (pb_Side (blk (pn_chain n) p))) n')"

definition onBlockRequest :: "u64 \<Rightarrow> nat \<Rightarrow> reader \<Rightarrow> P2PNode \<Rightarrow> P2PNode handled" where
  "onBlockRequest now c r n =
    reading now c (ReadLE 32) (\<lambda>templateId r n.
      onChain n r (Some (requestedBlock n templateId)) (\<lambda>block.
        let n' = (case block of Some b \<Rightarrow> if bothNotify n c then announceAncestors now c b n else n | None \<Rightarrow> n) in
        onChain n' r (Some (SendBlockResponse now c (map_option (blk (pn_chain n')) block) n')) (\<lambda>n. Some (GoOn, n, r))))
      r (updClient c (\<lambda>cl. cl\<lparr>cl_LastBlockRequest := now\<rparr>) n)"

section \<open>Shares that arrive\<close>

text \<open>A share in the next \<open>len\<close> bytes of the connection, which the buffered reader of that size is taken to fetch whole.  When the stream ends inside it \<^verbatim>\<open>Client.Read\<close> closes the client before the handler bans it.\<close>

definition readBlock :: "env \<Rightarrow> u64 \<Rightarrow> nat \<Rightarrow> bool \<Rightarrow> nat \<Rightarrow> (ref \<Rightarrow> reader \<Rightarrow> P2PNode \<Rightarrow> P2PNode handled) \<Rightarrow> reader \<Rightarrow> P2PNode \<Rightarrow> P2PNode handled" where
  "readBlock E now c compact len f r n =
    (let bytes = take len (avail r); r' = advance (length bytes) r in
     case fst (PoolBlock_FromReaderFlags (e_detKey E) (\<lambda>a b. fst (e_getKey E a b)) (e_consensus E)
            (zeroPoolBlock\<lparr>pb_LocalTimestamp := now\<rparr>) compact (BytesReader bytes)) of
       Inl (Panic m) \<Rightarrow> Some (Crash (Panic m), n, r')
     | Inl e \<Rightarrow> banned_with now c e r' (if length bytes < len \<and> (e = EOF \<or> e = UnexpectedEOF) then Close now c n else n)
     | Inr b \<Rightarrow> f (pn_next n) r' (n\<lparr>pn_chain := modify (pn_next n) (\<lambda>_. b) (pn_chain n), pn_next := pn_next n + 1\<rparr>))"

definition raiseTip :: "nat \<Rightarrow> ref \<Rightarrow> P2PNode \<Rightarrow> P2PNode" where
  "raiseTip c b n = updClient c (\<lambda>cl. cl\<lparr>cl_LastKnownTip := Some b\<rparr>) n"

definition tipBelow :: "P2PNode \<Rightarrow> nat \<Rightarrow> ref \<Rightarrow> bool" where
  "tipBelow n c b =
    (case cl_LastKnownTip (client n c) of
       None \<Rightarrow> True
     | Some t \<Rightarrow> sd_Height (pb_Side (blk (pn_chain n) t)) \<le> sd_Height (pb_Side (blk (pn_chain n) b)))"

text \<open>The loop of swaps stores the larger of the two heights.\<close>

definition raiseHeight :: "nat \<Rightarrow> ref \<Rightarrow> P2PNode \<Rightarrow> P2PNode" where
  "raiseHeight c b n =
    updClient c (\<lambda>cl. cl\<lparr>cl_BroadcastMaxHeight := max (cl_BroadcastMaxHeight cl) (sd_Height (pb_Side (blk (pn_chain n) b)))\<rparr>) n"

definition genHeight :: "P2PNode \<Rightarrow> ref \<Rightarrow> u64" where
  "genHeight n b = c_GenHeight (b_Coinbase (pb_Main (blk (pn_chain n) b)))"

text \<open>What is done with the answer to a request for the tip.\<close>

definition tipAnswer :: "env \<Rightarrow> inputs \<Rightarrow> nat \<Rightarrow> ref \<Rightarrow> reader \<Rightarrow> P2PNode \<Rightarrow> (P2PNode \<Rightarrow> P2PNode handled) \<Rightarrow> P2PNode handled" where
  "tipAnswer E i c b r n f =
    onChain n r
      (if tipBelow n c b then bindO (PreprocessBlock E (pn_chain n) b) (\<lambda>(err, s). retO (err = None, s)) else retO (False, pn_chain n))
      (\<lambda>(higher, s).
      let n = n\<lparr>pn_chain := s\<rparr>; n = (if higher then raiseTip c b n else n) in
      case pn_minerData n of
        None \<Rightarrow> Some (Crash (Panic ''nil pointer dereference''), n, r)
      | Some d \<Rightarrow>
          if genHeight n b + 2 < y_Height d then banned_with (in_now i) c (Err ''mining on top of a stale block'') r n
          else let n = raiseHeight c b n in f (if peerListDue i n c then SendPeerListRequest i c n else n))"

text \<open>\<^verbatim>\<open>BlockSeen\<close> and \<^verbatim>\<open>AddPoolBlockExternal\<close>, with what follows an error of the latter.\<close>

definition admitBlock ::
    "env \<Rightarrow> inputs \<Rightarrow> nat \<Rightarrow> ref \<Rightarrow> reader \<Rightarrow> after \<Rightarrow> bool \<Rightarrow> P2PNode \<Rightarrow> (hash list \<Rightarrow> P2PNode \<Rightarrow> P2PNode handled) \<Rightarrow> P2PNode handled" where
  "admitBlock E i c b r failed want n f =
    onChain n r (Some (BlockSeen E (pn_chain n) (blk (pn_chain n) b))) (\<lambda>(seen, s).
      let n = n\<lparr>pn_chain := s\<rparr> in
      if seen then Some (GoOn, n, r)
      else Option.bind
        (addExternal E b (if want then n\<lparr>pn_chain := modify b (\<lambda>x. x\<lparr>pb_WantBroadcast := True\<rparr>) (pn_chain n)\<rparr> else n))
        (\<lambda>((missing, err, ban), n).
          case err of
            Some e \<Rightarrow> if ban then banned_with (in_now i) c e r n else Some (failed, n, r)
          | None \<Rightarrow> f missing n))"

definition askForMissing :: "env \<Rightarrow> u64 \<Rightarrow> nat \<Rightarrow> hash list \<Rightarrow> reader \<Rightarrow> P2PNode \<Rightarrow> P2PNode handled" where
  "askForMissing E now c ids r n = onChain n r (foldRun (SendMissingBlockRequest E now c) ids n) (\<lambda>n. Some (GoOn, n, r))"

definition onBlockResponse :: "env \<Rightarrow> inputs \<Rightarrow> nat \<Rightarrow> reader \<Rightarrow> P2PNode \<Rightarrow> P2PNode handled" where
  "onBlockResponse E i c r n =
    (case cl_blockPending (client n c) of
       [] \<Rightarrow> banned_with (in_now i) c (Err ''unexpected BLOCK_RESPONSE'') r n
     | expected # pending \<Rightarrow>
         let n = updClient c (\<lambda>cl. cl\<lparr>cl_blockPending := pending\<rparr>) n; forTip = (expected = ZeroHash) in
         reading (in_now i) c (ReadLE 4) (\<lambda>blockSize r n.
           if blockSize = (0 :: u32) then
             Some (GoOn, if forTip \<and> peerListDue i n c then SendPeerListRequest i c n else n, r)
           else readBlock E (in_now i) c False (unat blockSize) (\<lambda>b r n.
             let rest = (\<lambda>n. admitBlock E i c b r GoOn False n (\<lambda>missing n.
                   if \<not> forTip \<and> expected \<noteq> templateIdOf E (blk (pn_chain n) b)
                   then banned_with (in_now i) c (Err ''expected another block id'') r n
                   else askForMissing E (in_now i) c missing r n))
             in if forTip then tipAnswer E i c b r n rest else rest n) r n) r n)"

text \<open>A broadcast whose main-chain parent is not ours is a reason to ban only when it is five or more heights behind.\<close>

definition unreasonablyStale :: "MinerData \<Rightarrow> PoolBlock \<Rightarrow> bool" where
  "unreasonablyStale d b \<longleftrightarrow> b_PreviousId (pb_Main b) \<noteq> y_PrevId d \<and>
    c_GenHeight (b_Coinbase (pb_Main b)) < y_Height d \<and> \<not> y_Height d - c_GenHeight (b_Coinbase (pb_Main b)) < 5"

definition onBlockBroadcast :: "env \<Rightarrow> inputs \<Rightarrow> nat \<Rightarrow> bool \<Rightarrow> reader \<Rightarrow> P2PNode \<Rightarrow> P2PNode handled" where
  "onBlockBroadcast E i c compact r n =
    reading (in_now i) c (ReadLE 4) (\<lambda>blockSize r n.
      if blockSize = (0 :: u32) then Some (GoOn, n, r)
      else readBlock E (in_now i) c compact (unat blockSize) (\<lambda>b r n.
        let n = raiseHeight c b n in
        onChain n r (Some (Push (cl_Broadcasted (client n c)) (template_tag (blk (pn_chain n) b)))) (\<lambda>ring.
          let n = updClient c (\<lambda>cl. cl\<lparr>cl_Broadcasted := ring, cl_LastBroadcast := in_now i\<rparr>) n in
          onChain n r (PreprocessBlock E (pn_chain n) b) (\<lambda>(err, s).
            let n = n\<lparr>pn_chain := s\<rparr> in
            case err of
              Some (missing, _) \<Rightarrow> askForMissing E (in_now i) c missing r n
            | None \<Rightarrow>
                let n = (if tipBelow n c b then raiseTip c b n else n) in
                case pn_minerData n of
                  None \<Rightarrow> Some (Crash (Panic ''nil pointer dereference''), n, r)
                | Some d \<Rightarrow>
                    if unreasonablyStale d (blk (pn_chain n) b) then banned_with (in_now i) c (Err ''broadcasted an unreasonably stale block'') r n
                    else admitBlock E i c b r Stop True n (\<lambda>missing n. askForMissing E (in_now i) c missing r n)))) r n) r n"

definition onBlockNotify :: "inputs \<Rightarrow> nat \<Rightarrow> reader \<Rightarrow> P2PNode \<Rightarrow> P2PNode handled" where
  "onBlockNotify i c r n =
    reading (in_now i) c (ReadLE 32) (\<lambda>templateId r n.
      onChain n r (Some (Push (cl_Broadcasted (client n c)) templateId)) (\<lambda>ring.
        let n = updClient c (\<lambda>cl. cl\<lparr>cl_Broadcasted := ring\<rparr>) n in
        case sc_byId (pn_chain n) templateId of
          None \<Rightarrow> Some (GoOn, snd (SendBlockRequestWithBound (in_now i) c templateId 25 n), r)
        | Some tip \<Rightarrow> Some (GoOn, if tipBelow n c tip then raiseTip c tip n else n, r)))
      r (updClient c (\<lambda>cl. cl\<lparr>cl_LastBlockRequest := in_now i\<rparr>) n)"

section \<open>Lists of peers\<close>

text \<open>\<^verbatim>\<open>unsafeRandom.IntN\<close>: any number below the bound; the bound zero panics.\<close>

definition IntN :: "inputs \<Rightarrow> nat \<Rightarrow> nat \<Rightarrow> nat result" where
  "IntN i j m = (if m = 0 then Inl (Panic ''invalid argument to IntN'') else Inr (in_pick i j m mod m))"

definition notOffered :: "P2PNode \<Rightarrow> nat \<Rightarrow> nat \<Rightarrow> bool" where
  "notOffered n c d \<longleftrightarrow> IsLoopback (addrOf n d) \<or> IsPrivate (addrOf n d) \<or> \<not> IsGood (client n d) \<or> addrOf n d = addrOf n c"

text \<open>The reservoir of connected peers.\<close>

fun reservoir :: "inputs \<Rightarrow> P2PNode \<Rightarrow> nat \<Rightarrow> nat \<Rightarrow> nat list \<Rightarrow> nat \<Rightarrow> AddrPort list \<Rightarrow> AddrPort list result" where
  "reservoir i n c target [] m entries = Inr entries"
| "reservoir i n c target (d # ds) m entries =
    (if notOffered n c d then reservoir i n c target ds m entries
     else
       let m = m + 1; ap = cl_AddressPort (client n d);
           entries = (if length entries < target then entries @ [ap] else entries) in
       bindR (IntN i m m) (\<lambda>k.
         if k < target then
           (if k < length entries then reservoir i n c target ds m (entries[k := ap]) else Inl (Panic ''index out of range''))
         else reservoir i n c target ds m entries))"

definition withVersion :: "P2PNode \<Rightarrow> nat \<Rightarrow> AddrPort list \<Rightarrow> AddrPort list" where
  "withVersion n c entries =
    (if cl_LastIncomingPeerListRequest (client n c) = None \<and> SupportsFeature (sv_version (nd_server n)) FeaturePeerInformationExchange \<and>
        SupportsFeature (cl_Version (client n c)) FeaturePeerInformationReceive
     then (if entries = [] then [ToAddrPort (sv_version (nd_server n))] else entries[0 := ToAddrPort (sv_version (nd_server n))])
     else entries)"

text \<open>The response is padded with peers from the peer list, with \<open>k\<close> draws left.\<close>

fun padPeers :: "inputs \<Rightarrow> PeerListEntry list \<Rightarrow> nat \<Rightarrow> AddrPort list \<Rightarrow> AddrPort list result" where
  "padPeers i l 0 entries = Inr entries"
| "padPeers i l (Suc k) entries =
    bindR (IntN i (1000 + k) (length l)) (\<lambda>j.
      let p = l ! j in
      padPeers i l k (if \<exists>e \<in> set entries. fst e = pe_Addr p then entries else entries @ [(pe_Addr p, pe_Port p)]))"

definition withIPv6 :: "PeerListEntry list \<Rightarrow> AddrPort list \<Rightarrow> AddrPort list" where
  "withIPv6 l entries =
    (if \<exists>e \<in> set entries. Is6 (fst e) then entries
     else case find (\<lambda>p. Is4In6 (pe_Addr p) \<or> Is6 (pe_Addr p)) l of
       None \<Rightarrow> entries
     | Some p \<Rightarrow>
         if length entries < PeerListResponseMaxPeers then entries @ [(pe_Addr p, pe_Port p)]
         else entries[length entries - 1 := (pe_Addr p, pe_Port p)])"

definition peersToSend :: "inputs \<Rightarrow> nat \<Rightarrow> P2PNode \<Rightarrow> AddrPort list result" where
  "peersToSend i c n =
    (let clients = sv_clients (nd_server n);
         target = min PeerListResponseMaxPeers (max (length clients div 4) 1) in
     bindR (reservoir i n c target clients 0 []) (\<lambda>entries.
       let entries = withVersion n c entries in
       bindR (if length entries < PeerListResponseMaxPeers
              then padPeers i (sv_peerList (nd_server n)) (PeerListResponseMaxPeers - length entries) entries else Inr entries)
         (\<lambda>entries. Inr (withIPv6 (sv_peerList (nd_server n)) entries))))"

definition onPeerListRequest :: "inputs \<Rightarrow> nat \<Rightarrow> reader \<Rightarrow> P2PNode \<Rightarrow> P2PNode handled" where
  "onPeerListRequest i c r n =
    onChain n r (Some (peersToSend i c n)) (\<lambda>entries.
      Some (GoOn, SendPeerListResponse (in_now i) c entries (updClient c (\<lambda>cl. cl\<lparr>cl_LastIncomingPeerListRequest := Some (in_now i)\<rparr>) n), r))"

definition takePeer :: "u64 \<Rightarrow> nat \<Rightarrow> peerItem \<Rightarrow> P2PNode \<Rightarrow> P2PNode" where
  "takePeer now c item n =
    (case item of
       PeerAddress ap \<Rightarrow> updServer (\<lambda>s. AddToPeerList s now ap) n
     | PeerVersion v \<Rightarrow> updClient c (\<lambda>cl. cl\<lparr>cl_Version := v\<rparr>) n
     | PeerIgnored \<Rightarrow> n)"

text \<open>\<^verbatim>\<open>Client.ReadByte\<close> does not close the client at the end of the stream, \<^verbatim>\<open>Client.Read\<close> does.\<close>

fun takePeers :: "u64 \<Rightarrow> nat \<Rightarrow> nat \<Rightarrow> byte list \<Rightarrow> reader \<Rightarrow> P2PNode \<Rightarrow> P2PNode handled" where
  "takePeers now c 0 raw r n = Some (GoOn, n, r)"
| "takePeers now c (Suc k) raw r n =
    (case readPeer raw r of
       (Inl e, r') \<Rightarrow> banned_with now c e r' (if avail r = [] then n else Close now c n)
     | (Inr (raw, item), r') \<Rightarrow> takePeers now c k raw r' (takePeer now c item n))"

definition onPeerListResponse :: "inputs \<Rightarrow> nat \<Rightarrow> reader \<Rightarrow> P2PNode \<Rightarrow> P2PNode handled" where
  "onPeerListResponse i c r n =
    (case ReadByte r of
       (Inl e, r') \<Rightarrow> banned_with (in_now i) c e r' n
     | (Inr numPeers, r') \<Rightarrow>
         if unat numPeers > PeerListResponseMaxPeers then banned_with (in_now i) c (Err ''too many peers on PEER_LIST_RESPONSE'') r' n
         else takePeers (in_now i) c (unat numPeers) (replicate 16 0) r' (updClient c (\<lambda>cl. cl\<lparr>cl_PingDuration := in_ping i\<rparr>) n))"

section \<open>The message loop\<close>

definition onInternal :: "u64 \<Rightarrow> nat \<Rightarrow> reader \<Rightarrow> P2PNode \<Rightarrow> P2PNode handled" where
  "onInternal now c r n =
    (case ReadUvarint r of
       (Inl e, r) \<Rightarrow> banned_with now c e r n
     | (Inr internalMessageId, r) \<Rightarrow>
         (case ReadUvarint r of
            (Inl e, r) \<Rightarrow> banned_with now c e r n
          | (Inr messageSize, r) \<Rightarrow> banned_with now c (Err ''unknown InternalMessageId'') r n))"

definition afterHandshake :: "env \<Rightarrow> inputs \<Rightarrow> nat \<Rightarrow> byte \<Rightarrow> reader \<Rightarrow> P2PNode \<Rightarrow> P2PNode handled" where
  "afterHandshake E i c messageId r n =
    (if messageId = MessageBlockRequest then onBlockRequest (in_now i) c r n
     else if messageId = MessageBlockResponse then onBlockResponse E i c r n
     else if messageId = MessageBlockBroadcast then onBlockBroadcast E i c False r n
     else if messageId = MessageBlockBroadcastCompact then onBlockBroadcast E i c True r n
     else if messageId = MessagePeerListRequest then onPeerListRequest i c r n
     else if messageId = MessagePeerListResponse then onPeerListResponse i c r n
     else if messageId = MessageBlockNotify then onBlockNotify i c r n
     else if messageId = MessageInternal then onInternal (in_now i) c r n
     else banned_with (in_now i) c (Err ''unknown MessageId'') r n)"

definition receive :: "env \<Rightarrow> inputs \<Rightarrow> u64 \<Rightarrow> nat \<Rightarrow> reader \<Rightarrow> P2PNode \<Rightarrow> P2PNode handled" where
  "receive E i salt c r n = onMessage (e_K E) (n_Id (e_consensus E)) (afterHandshake E i c) (in_now i) salt c r n"

section \<open>Broadcasts\<close>

text \<open>The payload of a share behind its length; the writer fills in the length in place of four zero bytes.\<close>

definition lengthPrefixed :: "PoolBlock \<Rightarrow> bool \<Rightarrow> bool \<Rightarrow> byte list result" where
  "lengthPrefixed b pruned compact =
    bindR (PoolBlock_AppendBinaryFlags b (replicate 4 0) pruned compact) (\<lambda>buf.
      Inr (le_bytes 4 (of_nat (length buf - 4) :: u32) @ drop 4 buf))"

type_synonym message = "byte \<times> byte list"

text \<open>The full, pruned and compact message.  An error of the full form panics; of the other forms the error is dropped and writing the length into the missing buffer panics.\<close>

definition broadcastMessages :: "PeerVersionInformation \<Rightarrow> PoolBlock \<Rightarrow> (message \<times> message \<times> message) result" where
  "broadcastMessages own b =
    (case (lengthPrefixed b False False, lengthPrefixed b True False, lengthPrefixed b True True) of
       (Inr full, Inr pruned, Inr compact) \<Rightarrow>
         let message = (MessageBlockBroadcast, full);
             prunedMessage = (MessageBlockBroadcast, pruned);
             compactMessage = (if length compact \<ge> length pruned then prunedMessage else (MessageBlockBroadcastCompact, compact));
             prunedMessage = (if SupportsFeature own FeaturePrunedBroadcast then prunedMessage else message);
             compactMessage = (if SupportsFeature own FeatureCompactBroadcast then compactMessage else prunedMessage)
         in Inr (message, prunedMessage, compactMessage)
     | _ \<Rightarrow> Inl (Panic ''broadcast''))"

definition broadcastChoice :: "PeerVersionInformation \<Rightarrow> message \<times> message \<times> message \<Rightarrow> hash \<Rightarrow> SideData \<Rightarrow> Client \<Rightarrow> message" where
  "broadcastChoice own ms templateId side cl =
    (let (message, prunedMessage, compactMessage) = ms; known = set (Slice (cl_Broadcasted cl)) in
     if sd_Parent side \<notin> known then message
     else if \<not> set (sd_Uncles side) \<subseteq> known then message
     else if templateId \<in> known \<and> SupportsFeature own FeatureBlockNotify \<and> SupportsFeature (cl_Version cl) FeatureBlockNotify
     then (MessageBlockNotify, le_bytes 32 templateId)
     else if SupportsFeature (cl_Version cl) FeatureCompactBroadcast then compactMessage
     else if SupportsFeature (cl_Version cl) FeaturePrunedBroadcast then prunedMessage
     else message)"

text \<open>\<^verbatim>\<open>Broadcast\<close>; without a share it dereferences nil when it asks for the template id.\<close>

definition Server_Broadcast :: "env \<Rightarrow> u64 \<Rightarrow> ref option \<Rightarrow> P2PNode \<Rightarrow> P2PNode result" where
  "Server_Broadcast E now block n =
    (case block of
       None \<Rightarrow> Inl (Panic ''nil pointer dereference'')
     | Some b \<Rightarrow>
         let own = sv_version (nd_server n); pb = blk (pn_chain n) b in
         bindR (broadcastMessages own pb) (\<lambda>ms.
           Inr (fold (\<lambda>c n. if IsGood (client n c)
               then let (messageId, buf) = broadcastChoice own ms (templateIdOf E pb) (pb_Side pb) (client n c) in SendMessage now c messageId buf n
               else n) (sv_clients (nd_server n)) n)))"

section \<open>Upkeep\<close>

definition UpdatePeerList :: "inputs \<Rightarrow> P2PNode \<Rightarrow> P2PNode" where
  "UpdatePeerList i n =
    fold (\<lambda>c n. if IsGood (client n c) \<and> in_now i \<ge> cl_NextPeerListRequest (client n c) then SendPeerListRequest i c n else n)
      (sv_clients (nd_server n)) n"

text \<open>Why a client is dropped: idle for too long, or silent although the side chain has moved on.\<close>

definition isIdle :: "u64 \<Rightarrow> Client \<Rightarrow> bool" where
  "isIdle now cl \<longleftrightarrow> now \<ge> cl_LastActive cl + (if cl_HandshakeComplete cl then 300 else 10)"

definition isSilent :: "u64 \<Rightarrow> u64 \<Rightarrow> Client \<Rightarrow> bool" where
  "isSilent now lastUpdated cl \<longleftrightarrow> cl_HandshakeComplete cl \<and> cl_LastBroadcast cl > 0 \<and>
    lastUpdated > 0 \<and> now \<ge> max lastUpdated (cl_LastBlockRequest cl) + 10 \<and> lastUpdated \<ge> cl_LastBroadcast cl + 900"

fun checkClients :: "u64 \<Rightarrow> u64 \<Rightarrow> nat list \<Rightarrow> P2PNode \<Rightarrow> P2PNode \<times> Addr list \<times> bool" where
  "checkClients now lastUpdated [] n = (n, [], False)"
| "checkClients now lastUpdated (c # cs) n =
    (if isIdle now (client n c) then checkClients now lastUpdated cs (Close now c n)
     else if isSilent now lastUpdated (client n c)
     then checkClients now lastUpdated cs (Close now c (Ban now c DefaultBanTime (Err ''not broadcasting blocks'') n))
     else case checkClients now lastUpdated cs n of
       (n', connected, hasGood) \<Rightarrow> (n', Unmap (addrOf n c) # connected, hasGood \<or> IsGood (client n c)))"

text \<open>Up to 25 of the daemon's peers are tried when there is no good peer.\<close>

definition scanMonero :: "bool \<Rightarrow> nat \<Rightarrow> PeerListEntry list \<Rightarrow> PeerListEntry list \<Rightarrow> nat \<times> PeerListEntry list \<times> PeerListEntry list" where
  "scanMonero hasGood maxOutgoing l monero =
    (if \<not> hasGood \<and> monero \<noteq> [] then
       let l' = l @ take 25 (rev monero) in (length l', l', rev (drop 25 (rev monero)))
     else (maxOutgoing, l, monero))"

text \<open>The peers to call, drawn without repetition; \<open>k\<close> counts the connections.\<close>

function dialTargets :: "inputs \<Rightarrow> nat \<Rightarrow> Addr list \<Rightarrow> int \<Rightarrow> nat \<Rightarrow> PeerListEntry list \<Rightarrow> AddrPort list" where
  "dialTargets i j connected k N l =
    (if k < int N \<and> l \<noteq> [] then
       let p = in_pick i j (length l) mod length l; peer = l ! p in
       if pe_Addr peer \<in> set connected then dialTargets i (j + 1) connected k N (drop_nth p l)
       else (pe_Addr peer, pe_Port peer) # dialTargets i (j + 1) connected (k + 1) N (drop_nth p l)
     else [])"
  by pat_completeness auto
termination
proof (relation "measure (\<lambda>(i, j, connected, k, N, l). length l)", goal_cases)
  case (2 i j connected k N l p peer)
  then have "p < length l" by simp
  then show ?case by simp
next
  case (3 i j connected k N l p peer)
  then have "p < length l" by simp
  then show ?case by simp
qed simp

text \<open>What one of the goroutines that call does before it dials.\<close>

definition tryConnect :: "u64 \<Rightarrow> AddrPort \<Rightarrow> P2PNode \<Rightarrow> P2PNode result" where
  "tryConnect now ap n =
    (if sv_numOutgoing (nd_server n) \<ge> sint (sv_maxOutgoing (nd_server n)) then Inr n
     else bindR (Connect now n ap) (\<lambda>res. Inr (case res of Inl _ \<Rightarrow> n | Inr n' \<Rightarrow> n')))"

text \<open>The daemon's peers, as far as their addresses parse (\<open>white\<close>): those that are not banned and of a family in use, sorted by when they were last seen (\<open>srt\<close>).\<close>

definition loadMoneroPeers :: "(PeerListEntry list \<Rightarrow> PeerListEntry list) \<Rightarrow> u64 \<Rightarrow> u16 \<Rightarrow> (Addr \<times> u64) list \<Rightarrow> Server \<Rightarrow> PeerListEntry list" where
  "loadMoneroPeers srt now port white s =
    srt [\<lparr>pe_Addr = a, pe_Port = port, pe_FailedConnections = 0, pe_LastSeen = seen\<rparr>. (a, seen) \<leftarrow> white, IsBanned s now a = None \<and> familyAllowed s a]"

text \<open>\<^verbatim>\<open>UpdateClientConnections\<close> up to the calls; the result has the peers to call.  The daemon's answer is \<open>white\<close>, \<open>None\<close> for an error.\<close>

definition UpdateClientConnections ::
    "(PeerListEntry list \<Rightarrow> PeerListEntry list) \<Rightarrow> inputs \<Rightarrow> u16 \<Rightarrow> (Addr \<times> u64) list option \<Rightarrow> P2PNode \<Rightarrow> AddrPort list \<times> P2PNode" where
  "UpdateClientConnections srt i port white n =
    (let now = in_now i;
         (n, connected, hasGood) = checkClients now (LastUpdated (pn_chain n)) (sv_clients (nd_server n)) n;
         n = updServer (\<lambda>s. forgetOldPeers s connected now) n;
         s = nd_server n;
         (N, l, monero) = scanMonero hasGood (unat (sv_maxOutgoing s)) (sv_peerList s) (sv_moneroPeerList s);
         targets = dialTargets i 0 connected (sv_numOutgoing s - sv_numIncoming s) N l;
         monero = (if targets = [] \<and> \<not> hasGood \<and> monero = [] then (case white of None \<Rightarrow> monero | Some w \<Rightarrow> loadMoneroPeers srt now port w s) else monero)
     in (targets, updServer (\<lambda>s. s\<lparr>sv_moneroPeerList := monero\<rparr>) n))"

text \<open>One round of the loop of \<^verbatim>\<open>DownloadMissingBlocks\<close>, over the missing ids in the order of the index; the result tells whether a cached share was added.\<close>

fun downloadRound :: "env \<Rightarrow> inputs \<Rightarrow> nat list \<Rightarrow> nat \<Rightarrow> hash list \<Rightarrow> P2PNode \<Rightarrow> (bool \<times> P2PNode) run" where
  "downloadRound E i clients j [] n = retO (False, n)"
| "downloadRound E i clients j (h # hs) n =
    bindO (fromCache E h n) (\<lambda>(added, n).
      if added \<noteq> None then map_option (map_sum id (\<lambda>(_, n). (True, n))) (downloadRound E i clients (j + 1) hs n)
      else bindO (Some (IntN i j (length clients))) (\<lambda>k.
        bindO (Some (SendUniqueBlockRequest (in_now i) (clients ! k) h n)) (downloadRound E i clients (j + 1) hs)))"

partial_function (option) downloadLoop :: "env \<Rightarrow> inputs \<Rightarrow> (SideChain \<Rightarrow> ref list) \<Rightarrow> nat list \<Rightarrow> P2PNode \<Rightarrow> P2PNode run" where
  "downloadLoop E i order clients n =
    bindO (downloadRound E i clients 0 (GetMissingBlocks (pn_chain n) (order (pn_chain n))) n) (\<lambda>(obtained, n).
      if obtained then downloadLoop E i order clients n else retO n)"

definition DownloadMissingBlocks :: "env \<Rightarrow> inputs \<Rightarrow> (SideChain \<Rightarrow> ref list) \<Rightarrow> P2PNode \<Rightarrow> P2PNode run" where
  "DownloadMissingBlocks E i order n =
    (let clients = sv_clients (nd_server n) in if clients = [] then retO n else downloadLoop E i order clients n)"

end
