(* ===== verification/Exchange.thy ===== *)
theory Exchange
  imports Messages
begin

text \<open>
  What messages can do: which of them reach the side chain, how a share gets from one node to another, what a broadcast sends to each peer, and two
  messages that end the process.
\<close>

section \<open>Steps that leave the side chain alone\<close>

text \<open>From \<open>n\<close> to \<open>n'\<close> only connections and the peer list have changed.\<close>

definition apart :: "nat \<Rightarrow> 'a Node_scheme \<Rightarrow> 'a Node_scheme \<Rightarrow> bool" where
  "apart c n n' \<longleftrightarrow> conn_inv n' \<and> c < length (nd_clients n') \<and> Node.more n' = Node.more n"

definition quiet :: "nat \<Rightarrow> 'a Node_scheme \<Rightarrow> 'a Node_scheme handled \<Rightarrow> bool" where
  "quiet c n x \<longleftrightarrow> (\<forall>out n' r'. x = Some (out, n', r') \<longrightarrow> apart c n n')"

named_theorems apart_intros

lemma apart_client [apart_intros]: "(\<And>cl. cl_Incoming (f cl) = cl_Incoming cl) \<Longrightarrow> apart c n m \<Longrightarrow> apart c n (updClient d f m)"
  by (simp add: apart_def conn_inv_client)

lemma apart_server:
  "sv_clients (g (nd_server m)) = sv_clients (nd_server m) \<Longrightarrow> sv_numIncoming (g (nd_server m)) = sv_numIncoming (nd_server m) \<Longrightarrow>
   sv_numOutgoing (g (nd_server m)) = sv_numOutgoing (nd_server m) \<Longrightarrow> apart c n m \<Longrightarrow> apart c n (updServer g m)"
  by (simp add: apart_def conn_inv_server)

lemma apart_Close [apart_intros]: "apart c n m \<Longrightarrow> apart c n (Close now c m)"
  using Close_ok [of m c now] by (simp add: apart_def shuts_def)

lemma apart_Ban [apart_intros]: "apart c n m \<Longrightarrow> apart c n (Ban now c seconds e m)"
  using Ban_ok [of m c now seconds e] by (simp add: apart_def shuts_def)

lemma apart_SendMessage [apart_intros]: "apart c n m \<Longrightarrow> apart c n (SendMessage now c i bs m)"
  by (simp add: SendMessage_def apart_Close apart_client)

lemma apart_request [apart_intros]: "apart c n m \<Longrightarrow> apart c n (snd (SendBlockRequestWithBound now c i b m))"
  by (auto simp: SendBlockRequestWithBound_def intro!: apart_intros)

lemma apart_peers [apart_intros]:
  "apart c n m \<Longrightarrow> apart c n (updServer (\<lambda>s. AddToPeerList s now ap) m)" "apart c n m \<Longrightarrow> apart c n (updServer (\<lambda>s. UpdateInPeerList s now ap) m)"
  by (simp_all add: apart_server AddToPeerList_def UpdateInPeerList_def)

lemma apart_if [apart_intros]: "(b \<Longrightarrow> apart c n m) \<Longrightarrow> (\<not> b \<Longrightarrow> apart c n m') \<Longrightarrow> apart c n (if b then m else m')"
  by simp

lemma apart_fold: "(\<And>x m. apart c n m \<Longrightarrow> apart c n (f x m)) \<Longrightarrow> apart c n m \<Longrightarrow> apart c n (fold f xs m)"
  by (induction xs arbitrary: m) simp_all

lemma quiet_Some [apart_intros]: "apart c n m \<Longrightarrow> quiet c n (Some (out, m, r))"
  by (simp add: quiet_def)

lemma quiet_reading [apart_intros]:
  "(\<And>v r k. apart c n k \<Longrightarrow> quiet c n (f v r k)) \<Longrightarrow> apart c n m \<Longrightarrow> quiet c n (reading now c p f r m)"
  by (auto simp: reading_def intro!: apart_intros split: prod.splits sum.splits)

lemma quiet_onChain [apart_intros]: "(\<And>v. quiet c n (f v)) \<Longrightarrow> apart c n m \<Longrightarrow> quiet c n (onChain m r x f)"
  by (auto simp: onChain_def quiet_def split: option.splits sum.splits)

lemma quiet_if [apart_intros]: "(b \<Longrightarrow> quiet c n x) \<Longrightarrow> (\<not> b \<Longrightarrow> quiet c n y) \<Longrightarrow> quiet c n (if b then x else y)"
  by simp

lemma quiet_bind [apart_intros]: "(\<And>k. m = Some k \<Longrightarrow> quiet c n (f k)) \<Longrightarrow> quiet c n (Option.bind m f)"
  by (cases m) (simp_all add: quiet_def)

lemma quiet_after: "quiet c n x \<Longrightarrow> quiet c n (Option.bind x (\<lambda>(out, n, r). Some (out, if out = GoOn then updClient c (\<lambda>cl. cl\<lparr>cl_LastActive := now\<rparr>) n else n, r)))"
  by (rule quiet_bind) (auto simp: quiet_def split: prod.splits intro!: apart_intros)

lemma apart_after [apart_intros]: "apart c n m \<Longrightarrow> apart c n (OnAfterHandshake now c m)"
  by (auto simp: OnAfterHandshake_def SendBlockRequest_def SendListenPort_def intro!: apart_intros)

lemma apart_solution: "sendHandshakeSolution K cid now salt c ch m = Some k \<Longrightarrow> apart c n m \<Longrightarrow> apart c n k"
  by (auto simp: sendHandshakeSolution_def split: Option.bind_splits if_splits intro!: apart_intros)

lemma apart_SetError [apart_intros]: "apart c n m \<Longrightarrow> apart c n (SetError c e m)" "apart c n m \<Longrightarrow> apart c n (setComplete c m)"
  by (auto simp: SetError_def setComplete_def intro!: apart_intros split: if_splits)

lemma quiet_finish [apart_intros]: "apart c n m \<Longrightarrow> quiet c n (finishHandshake now c r m)"
  by (auto simp: finishHandshake_def intro!: apart_intros)

lemma quiet_challenge [apart_intros]: "apart c n m \<Longrightarrow> quiet c n (onHandshakeChallenge K cid now salt c r m)"
  unfolding onHandshakeChallenge_def Let_def by (intro apart_intros) (auto intro!: apart_intros elim: apart_solution)

lemma quiet_solution [apart_intros]: "apart c n m \<Longrightarrow> quiet c n (onHandshakeSolution K cid now c r m)"
  unfolding onHandshakeSolution_def Let_def by (intro apart_intros) (auto split: prod.splits intro!: apart_intros)

lemma quiet_port [apart_intros]: "apart c n m \<Longrightarrow> quiet c n (onListenPort now c r m)"
  unfolding onListenPort_def Let_def by (intro apart_intros) auto

lemma apart_response: "SendBlockResponse now c b m = Inr k \<Longrightarrow> apart c n m \<Longrightarrow> apart c n k"
  by (auto simp: SendBlockResponse_def split: option.splits sum.splits error.splits intro!: apart_intros)

lemma apart_announce [apart_intros]: "apart c n m \<Longrightarrow> apart c n (announceAncestors now c b m)"
  by (auto simp: announceAncestors_def Let_def SendBlockNotify_def split: option.splits intro!: apart_intros apart_fold)

lemma quiet_response: "apart c n k \<Longrightarrow> quiet c n (onChain k r (Some (SendBlockResponse now c b k)) (\<lambda>n. Some (GoOn, n, r)))"
  by (cases "SendBlockResponse now c b k") (auto simp: onChain_def quiet_def elim: apart_response)

lemma quiet_blockRequest [apart_intros]: "apart c n m \<Longrightarrow> quiet c n (onBlockRequest now c r m)"
  unfolding onBlockRequest_def Let_def
  by (rule quiet_reading, rule quiet_onChain, rule quiet_response) (auto split: option.splits intro!: apart_intros)

lemma quiet_notify [apart_intros]: "apart c n m \<Longrightarrow> quiet c n (onBlockNotify i c r m)"
  unfolding onBlockNotify_def Let_def raiseTip_def by (intro quiet_reading quiet_onChain) (auto split: option.splits intro!: apart_intros)

lemma quiet_peerRequest [apart_intros]: "apart c n m \<Longrightarrow> quiet c n (onPeerListRequest i c r m)"
  unfolding onPeerListRequest_def SendPeerListResponse_def by (intro quiet_onChain) (auto split: option.splits intro!: apart_intros)

lemma apart_takePeer [apart_intros]: "apart c n m \<Longrightarrow> apart c n (takePeer now c item m)"
  by (auto simp: takePeer_def split: peerItem.splits intro!: apart_intros)

lemma quiet_takePeers [apart_intros]: "apart c n m \<Longrightarrow> quiet c n (takePeers now c k raw r m)"
proof (induction k arbitrary: raw r m)
  case (Suc k)
  show ?case by (auto split: prod.splits sum.splits intro!: Suc.IH Suc.prems apart_intros)
qed (auto intro: apart_intros)

lemma quiet_peerResponse [apart_intros]: "apart c n m \<Longrightarrow> quiet c n (onPeerListResponse i c r m)"
  by (auto simp: onPeerListResponse_def split: prod.splits sum.splits intro!: apart_intros)

lemma quiet_internal [apart_intros]: "apart c n m \<Longrightarrow> quiet c n (onInternal now c r m)"
  by (auto simp: onInternal_def split: prod.splits sum.splits intro!: apart_intros)

lemma quiet_other: "messageId \<notin> {MessageBlockResponse, MessageBlockBroadcast, MessageBlockBroadcastCompact} \<Longrightarrow> apart c n m \<Longrightarrow> quiet c n (afterHandshake E i c messageId r m)"
  unfolding afterHandshake_def by (intro quiet_if) (auto intro!: apart_intros)

lemma more_fields:
  "Node.more n' = Node.more n \<Longrightarrow> pn_chain n' = pn_chain n \<and> pn_minerData n' = pn_minerData n \<and> pn_cached n' = pn_cached n \<and> pn_next n' = pn_next n"
  by (cases n; cases n') simp

text \<open>C18: Which messages reach the side chain.  Whatever a peer sends, the side chain, the cached shares and the heap of shares change only by a
BLOCK_RESPONSE or a broadcast, and only once the handshake with that peer is complete; every other message, also one cut short or of an unknown kind, changes connections and the peer list at most, and keeps the counters of
connections right.\<close>

theorem side_chain_isolated:
  assumes "conn_inv n" and "c < length (nd_clients n)"
    and "cl_HandshakeComplete (client n c) \<or> cl_expected (client n c) \<in> {MessageHandshakeChallenge, MessageHandshakeSolution}"
    and "\<not> cl_HandshakeComplete (client n c) \<or> take 1 (avail r) \<notin> {[MessageBlockResponse], [MessageBlockBroadcast], [MessageBlockBroadcastCompact]}"
    and "receive E i salt c r n = Some (out, n', r')"
  shows "pn_chain n' = pn_chain n \<and> pn_minerData n' = pn_minerData n \<and> pn_cached n' = pn_cached n \<and> pn_next n' = pn_next n \<and> conn_inv n'"
proof -
  have n: "apart c n n" using assms by (simp add: apart_def)
  have "quiet c n (receive E i salt c r n)"
  proof (cases "avail r")
    case Nil
    then show ?thesis using n ReadFull_short [of r 1] by (auto simp: receive_def onMessage_def intro!: apart_intros split: prod.splits)
  next
    case (Cons b bs)
    then have r: "ReadFull 1 r = (Inr [b], advance 1 r)" using ReadFull_ok [of 1 r] by simp
    have "quiet c n (afterHandshake E i c b (advance 1 r) n)"
      if "\<not> (\<not> isComplete n c \<and> b \<noteq> cl_expected (client n c))" "b \<noteq> MessageHandshakeChallenge" "b \<noteq> MessageHandshakeSolution"
      using that assms(3,4) Cons by (intro quiet_other n) (auto simp: isComplete_def)
    then show ?thesis unfolding receive_def onMessage_def r prod.case sum.case Let_def list.sel
      by (intro quiet_if quiet_after quiet_Some quiet_challenge quiet_solution quiet_port apart_Ban n)
  qed
  then have "apart c n n'" using assms(5) by (simp add: quiet_def)
  then show ?thesis using more_fields [of n' n] by (simp add: apart_def)
qed

section \<open>From one node to another\<close>

lemma updClient_more [simp]: "pn_chain (updClient c f n) = pn_chain n" "pn_next (updClient c f n) = pn_next n"
  "pn_minerData (updClient c f n) = pn_minerData n" "pn_cached (updClient c f n) = pn_cached n"
  using more_fields [of "updClient c f n" n] by simp_all

text \<open>A step that only writes messages to a connection.\<close>

definition writes :: "nat \<Rightarrow> 'a Node_scheme \<Rightarrow> (byte \<times> byte list) list \<Rightarrow> 'a Node_scheme" where
  "writes c n ms = updClient c (\<lambda>cl. cl\<lparr>cl_sent := cl_sent cl @ ms\<rparr>) n"

lemma writes_live: "live n c \<Longrightarrow> live (writes c n ms) c"
  unfolding writes_def by (rule live_updClient) (simp_all add: live_def)

lemma writes_writes: "writes c (writes c n ms) ms' = writes c n (ms @ ms')"
  by (simp add: writes_def updClient_twice)

lemma writes_none: "live n c \<Longrightarrow> writes c n [] = n"
  by (simp add: writes_def updClient_def client_def)

lemma writes_send: "live n c \<Longrightarrow> length bs + 1 \<le> MaxBufferSize \<Longrightarrow> SendMessage now c i bs n = writes c n [(i, bs)]"
  by (simp add: SendMessage_live writes_def)

lemma writes_notify: "live n c \<Longrightarrow> SendBlockNotify now c h n = writes c n [(MessageBlockNotify, le_bytes 32 h)]"
  by (simp add: SendBlockNotify_def writes_send MaxBufferSize_def)

lemma writes_notifies: "live n c \<Longrightarrow> fold (SendBlockNotify now c) hs n = writes c n (map (\<lambda>h. (MessageBlockNotify, le_bytes 32 h)) hs)"
  by (induction hs arbitrary: n) (simp_all add: writes_none writes_notify writes_live writes_writes)

text \<open>The ids that are announced ahead of a share: its parent, its uncles and the parent of its parent, if that is known.\<close>

definition announcedIds :: "SideChain \<Rightarrow> ref \<Rightarrow> hash list" where
  "announcedIds s b = sd_Parent (pb_Side (blk s b)) # sd_Uncles (pb_Side (blk s b)) @
    (case getParent s b of None \<Rightarrow> [] | Some p \<Rightarrow> [sd_Parent (pb_Side (blk s p))])"

abbreviation notices :: "hash list \<Rightarrow> (byte \<times> byte list) list" where
  "notices hs \<equiv> map (\<lambda>h. (MessageBlockNotify, le_bytes 32 h)) hs"

lemma writes_announce: "live n c \<Longrightarrow> announceAncestors now c b n = writes c n (notices (announcedIds (pn_chain n) b))"
  unfolding announceAncestors_def announcedIds_def Let_def
  by (simp only: writes_notifies) (cases "getParent (pn_chain n) b"; simp add: writes_live writes_notify writes_writes)

lemma decodes_received:
  assumes "poolblock_ok c b"
  shows "decodes (PoolBlock_FromReaderFlags detKey getKey c (zeroPoolBlock\<lparr>pb_LocalTimestamp := t\<rparr>) compact) (poolblock_enc pruned compact b)
    ((decoded_poolblock detKey getKey pruned compact b)\<lparr>pb_LocalTimestamp := t\<rparr>)"
proof -
  let ?t = "\<lambda>b. b\<lparr>pb_LocalTimestamp := t\<rparr>"
  have "PoolBlock_FromReaderFlags detKey getKey c (?t zeroPoolBlock) compact r =
      map_prod (map_sum id ?t) id (PoolBlock_FromReaderFlags detKey getKey c zeroPoolBlock compact r)" for r
    by (auto simp: PoolBlock_FromReaderFlags_def andThen_def failR_def giveR_def Let_def CalculateShareVersion_def FillPrivateKeys_def GetPrivateKeySeed_def zeroPoolBlock_def
        split: prod.splits sum.splits)
  then show ?thesis using decodes_poolblock [OF assms, of detKey getKey compact pruned] by (simp add: decodes_def)
qed

text \<open>The share as the other node reads it, and the node that has it on its heap with one pending request less.\<close>

definition received :: "env \<Rightarrow> u64 \<Rightarrow> bool \<Rightarrow> bool \<Rightarrow> PoolBlock \<Rightarrow> PoolBlock" where
  "received E now pruned compact b = (decoded_poolblock (e_detKey E) (\<lambda>x y. fst (e_getKey E x y)) pruned compact b)\<lparr>pb_LocalTimestamp := now\<rparr>"

definition holding :: "PoolBlock \<Rightarrow> P2PNode \<Rightarrow> P2PNode" where
  "holding b n = n\<lparr>pn_chain := modify (pn_next n) (\<lambda>_. b) (pn_chain n), pn_next := pn_next n + 1\<rparr>"

lemma readBlock_received:
  assumes "poolblock_ok (e_consensus E) b" "avail r = poolblock_enc pruned compact b @ rest"
  shows "readBlock E now c compact (length (poolblock_enc pruned compact b)) f r n =
    f (pn_next n) (advance (length (poolblock_enc pruned compact b)) r) (holding (received E now pruned compact b) n)"
  using decodesD [OF decodes_received [OF assms(1)], of "BytesReader (poolblock_enc pruned compact b)" pruned compact "[]"] assms(2)
  by (simp add: readBlock_def Let_def received_def holding_def)

lemma le32_length: "k < 2 ^ 32 \<Longrightarrow> unat (of_nat k :: u32) = k"
  by (simp add: unsigned_of_nat take_bit_nat_eq_self)

lemma share_enc_pos: "0 < length (poolblock_enc pruned compact b)"
  by (simp add: poolblock_enc_def block_enc_def)

lemma SendBlockResponse_ok:
  assumes "poolblock_ok C b" "length (poolblock_enc False False b) \<le> PoolBlockMaxTemplateSize" "live n c"
  shows "SendBlockResponse now c (Some b) n =
    Inr (writes c n [(MessageBlockResponse, le_bytes 4 (of_nat (length (poolblock_enc False False b)) :: u32) @ poolblock_enc False False b)])"
  using PoolBlock_AppendBinaryFlags_eq [OF assms(1,2)] assms(2,3)
  by (simp add: SendBlockResponse_def writes_send MaxBufferSize_def PoolBlockMaxTemplateSize_def)

text \<open>C19: A share gets from one node to another.  When node \<open>B\<close> has a well-formed share of the asked id that fits the message size, a BLOCK_REQUEST makes it send exactly this: if both sides know notifications,
a notification each for the parent and the uncles of the share and for the parent of its parent if that is known, and then one BLOCK_RESPONSE with the length and the encoding of the share; its side chain stays as it is.
Node \<open>A\<close>, whose oldest pending request is for that id, reads that answer to its end, takes the request off its queue, and hands the very share that
was sent, with version and keys recomputed and the time of arrival, to \<^verbatim>\<open>BlockSeen\<close> and \<^verbatim>\<open>AddPoolBlockExternal\<close>, where it is checked against the id that was asked for and its missing ancestors are asked for in turn.\<close>

theorem share_transfer:
  assumes "live B b" and "sc_byId (pn_chain B) h = Some t" and "h \<noteq> ZeroHash"
    and "poolblock_ok (e_consensus E) (blk (pn_chain B) t)" and "length (poolblock_enc False False (blk (pn_chain B) t)) \<le> PoolBlockMaxTemplateSize"
    and "cl_blockPending (client A a) = h # pending"
    and "answer = le_bytes 4 (of_nat (length (poolblock_enc False False (blk (pn_chain B) t))) :: u32) @ poolblock_enc False False (blk (pn_chain B) t)"
  shows "\<exists>B'. onBlockRequest now b (BytesReader (le_bytes 32 h)) B = Some (GoOn, B', BytesReader []) \<and>
    cl_sent (client B' b) = cl_sent (client B b) @ (if bothNotify B b then notices (announcedIds (pn_chain B) t) else []) @ [(MessageBlockResponse, answer)] \<and>
    pn_chain B' = pn_chain B \<and>
    onBlockResponse E i a (BytesReader answer) A =
      admitBlock E i a (pn_next A) (BytesReader []) GoOn False
        (holding (received E (in_now i) False False (blk (pn_chain B) t)) (updClient a (\<lambda>cl. cl\<lparr>cl_blockPending := pending\<rparr>) A))
        (\<lambda>missing n. if h \<noteq> templateIdOf E (blk (pn_chain n) (pn_next A)) then banned_with (in_now i) a (Err ''expected another block id'') (BytesReader []) n
          else askForMissing E (in_now i) a missing (BytesReader []) n)"
proof -
  let ?b = "blk (pn_chain B) t"
  let ?enc = "poolblock_enc False False ?b"
  let ?B = "updClient b (\<lambda>cl. cl\<lparr>cl_LastBlockRequest := now\<rparr>) B"
  let ?ms = "if bothNotify B b then notices (announcedIds (pn_chain B) t) else []"
  have l: "live ?B b" by (rule live_updClient [OF assms(1)]) (use assms(1) in \<open>simp add: live_def\<close>)
  have "bothNotify ?B b = bothNotify B b" using live_client [OF assms(1)] by (simp add: bothNotify_def)
  then have ms: "(if bothNotify ?B b then announceAncestors now b t ?B else ?B) = writes b ?B ?ms"
    using writes_announce [OF l, of now t] writes_none [OF l] by simp
  have chain: "pn_chain (writes b k ms) = pn_chain k" for k :: P2PNode and ms by (simp add: writes_def)
  have "onBlockRequest now b (BytesReader (le_bytes 32 h)) B = Some (GoOn, writes b ?B (?ms @ [(MessageBlockResponse, answer)]), BytesReader [])"
    using decodesD [OF decodes_ReadLE, of 32 "BytesReader (le_bytes 32 h)" h "[]"] assms(2,3) SendBlockResponse_ok [OF assms(4,5) writes_live [OF l]] ms
    by (simp add: onBlockRequest_def reading_def requestedBlock_def onChain_def chain writes_writes assms(7) del: if_split)
  moreover have "cl_sent (client (writes b ?B (?ms @ [(MessageBlockResponse, answer)])) b) = cl_sent (client B b) @ ?ms @ [(MessageBlockResponse, answer)]"
    using live_client [OF l] live_client [OF assms(1)] by (simp add: writes_def del: if_split)
  moreover have len: "unat (of_nat (length ?enc) :: u32) = length ?enc" by (rule le32_length) (use assms(5) in \<open>simp add: PoolBlockMaxTemplateSize_def\<close>)
  then have "(of_nat (length ?enc) :: u32) \<noteq> 0" using share_enc_pos [of False False ?b] by (metis unat_0 less_irrefl)
  moreover have "ReadLE 4 (BytesReader answer) = (Inr (of_nat (length ?enc) :: u32), BytesReader ?enc)"
    using decodesD [OF decodes_ReadLE, of 4 "BytesReader answer" "of_nat (length ?enc) :: u32" ?enc] assms(7) by simp
  ultimately show ?thesis
    using assms(3,6) readBlock_received [OF assms(4), of "BytesReader ?enc" False False "[]"]
    by (intro exI [of _ "writes b ?B (?ms @ [(MessageBlockResponse, answer)])"])
      (simp add: onBlockResponse_def reading_def len chain Let_def del: if_split)
qed

section \<open>Broadcasts\<close>

text \<open>The message with a share in one of its forms.\<close>

definition broadcast_of :: "PoolBlock \<Rightarrow> bool \<Rightarrow> bool \<Rightarrow> message" where
  "broadcast_of b pruned compact = (if compact then MessageBlockBroadcastCompact else MessageBlockBroadcast,
    le_bytes 4 (of_nat (length (poolblock_enc pruned compact b)) :: u32) @ poolblock_enc pruned compact b)"

definition fits :: "PoolBlock \<Rightarrow> bool" where
  "fits b \<longleftrightarrow> (\<forall>pruned compact. length (poolblock_enc pruned compact b) + 4 \<le> PoolBlockMaxTemplateSize)"

text \<open>What a peer is sent for a share, by what it has announced and what both sides support.\<close>

definition knowsAncestors :: "PoolBlock \<Rightarrow> Client \<Rightarrow> bool" where
  "knowsAncestors b cl \<longleftrightarrow> set (sd_Parent (pb_Side b) # sd_Uncles (pb_Side b)) \<subseteq> set (Slice (cl_Broadcasted cl))"

definition bothSupport :: "PeerVersionInformation \<Rightarrow> Client \<Rightarrow> ProtocolFeature \<Rightarrow> bool" where
  "bothSupport own cl feature \<longleftrightarrow> SupportsFeature own feature \<and> SupportsFeature (cl_Version cl) feature"

definition getsCompact :: "PeerVersionInformation \<Rightarrow> PoolBlock \<Rightarrow> Client \<Rightarrow> bool" where
  "getsCompact own b cl \<longleftrightarrow> knowsAncestors b cl \<and> bothSupport own cl FeatureCompactBroadcast \<and>
     length (poolblock_enc True True b) < length (poolblock_enc True False b)"

definition getsPruned :: "PeerVersionInformation \<Rightarrow> PoolBlock \<Rightarrow> Client \<Rightarrow> bool" where
  "getsPruned own b cl \<longleftrightarrow> knowsAncestors b cl \<and> (bothSupport own cl FeatureCompactBroadcast \<or> bothSupport own cl FeaturePrunedBroadcast \<or>
     SupportsFeature own FeaturePrunedBroadcast \<and> SupportsFeature (cl_Version cl) FeatureCompactBroadcast)"

definition suitable :: "PeerVersionInformation \<Rightarrow> hash \<Rightarrow> PoolBlock \<Rightarrow> Client \<Rightarrow> message" where
  "suitable own templateId b cl =
    (if knowsAncestors b cl \<and> templateId \<in> set (Slice (cl_Broadcasted cl)) \<and> bothSupport own cl FeatureBlockNotify
     then (MessageBlockNotify, le_bytes 32 templateId)
     else broadcast_of b (getsPruned own b cl) (getsCompact own b cl))"

lemma lengthPrefixed_eq:
  assumes "poolblock_ok C b"
  shows "lengthPrefixed b pruned compact =
    (if length (poolblock_enc pruned compact b) + 4 \<le> PoolBlockMaxTemplateSize then Inr (snd (broadcast_of b pruned compact)) else Inl (Err ''buffer too large''))"
proof -
  have 4: "replicate 4 x = [x, x, x, x]" for x :: byte by (simp add: numeral_eq_Suc)
  show ?thesis using assms
    by (simp add: lengthPrefixed_def PoolBlock_AppendBinaryFlags_def poolblock_ok_def Block_AppendBinaryFlags_eq block_ok_outputs
      SideData_AppendBinary_eq poolblock_enc_def Let_def broadcast_of_def 4)
qed

lemma broadcastMessages_ok:
  assumes "poolblock_ok C b" "fits b"
  obtains ms where "broadcastMessages own b = Inr ms" "\<And>cl. broadcastChoice own ms i (pb_Side b) cl = suitable own i b cl"
proof -
  have len: "lengthPrefixed b pruned compact = Inr (snd (broadcast_of b pruned compact))" for pruned compact
    using lengthPrefixed_eq [OF assms(1), of pruned compact] assms(2) by (simp add: fits_def)
  let ?m = "\<lambda>p c. broadcast_of b p c"
  let ?p = "if SupportsFeature own FeaturePrunedBroadcast then ?m True False else ?m False False"
  let ?c = "if SupportsFeature own FeatureCompactBroadcast then
      (if length (snd (?m True True)) \<ge> length (snd (?m True False)) then ?m True False else ?m True True) else ?p"
  have id: "(MessageBlockBroadcast, snd (?m p False)) = ?m p False" "(MessageBlockBroadcastCompact, snd (?m p True)) = ?m p True" for p by (simp_all add: broadcast_of_def)
  have shorter: "length (snd (?m True c)) = length (poolblock_enc True c b) + 4" for c by (simp add: broadcast_of_def)
  have ms: "broadcastMessages own b = Inr (?m False False, ?p, ?c)" unfolding broadcastMessages_def len by (simp add: id Let_def)
  have "broadcastChoice own (?m False False, ?p, ?c) i (pb_Side b) cl = suitable own i b cl" for cl
    by (simp add: broadcastChoice_def Let_def shorter suitable_def getsPruned_def getsCompact_def knowsAncestors_def bothSupport_def not_le del: SupportsFeature.simps)
  then show thesis using that ms by blast
qed

lemma suitable_size: "fits b \<Longrightarrow> length (snd (suitable own i b cl)) + 1 \<le> MaxBufferSize"
proof -
  assume "fits b"
  then have "length (poolblock_enc p c b) + 4 \<le> PoolBlockMaxTemplateSize" for p c unfolding fits_def by blast
  then have "length (snd (broadcast_of b p c)) \<le> PoolBlockMaxTemplateSize" for p c
    by (simp add: broadcast_of_def add.commute [of 4])
  then have "length (snd (broadcast_of b p c)) + 1 \<le> MaxBufferSize" for p c
    by (rule order_trans [OF add_le_mono1]) (simp add: MaxBufferSize_def PoolBlockMaxTemplateSize_def)
  then show ?thesis by (simp add: suitable_def MaxBufferSize_def)
qed

lemma writes_other: "c < length (nd_clients n) \<Longrightarrow> c \<noteq> d \<Longrightarrow> client (writes d n ms) c = client n c"
  by (simp add: writes_def client_updClient)

lemma writes_own: "c < length (nd_clients n) \<Longrightarrow> client (writes c n ms) c = (client n c)\<lparr>cl_sent := cl_sent (client n c) @ ms\<rparr>"
  by (simp add: writes_def client_updClient)

text \<open>Each client of a list is written to once, by what it was before.\<close>

lemma fold_writes:
  assumes "distinct cs" "\<forall>c \<in> set cs. live n c"
    "\<And>c m. c \<in> set cs \<Longrightarrow> live m c \<Longrightarrow> f c m = (if P (client m c) then writes c m [g (client m c)] else m)"
  shows "length (nd_clients (fold f cs n)) = length (nd_clients n) \<and>
    (\<forall>d < length (nd_clients n). client (fold f cs n) d =
      (if d \<in> set cs \<and> P (client n d) then (client n d)\<lparr>cl_sent := cl_sent (client n d) @ [g (client n d)]\<rparr> else client n d))"
  using assms
proof (induction cs arbitrary: n)
  case (Cons c cs)
  have c: "live n c" "c < length (nd_clients n)" using Cons.prems(2) by (simp_all add: live_def)
  have fc: "f c n = (if P (client n c) then writes c n [g (client n c)] else n)" using Cons.prems(3) c(1) by simp
  have len: "length (nd_clients (f c n)) = length (nd_clients n)" by (simp add: fc writes_def)
  have other: "client (f c n) d = client n d" if "d < length (nd_clients n)" "d \<noteq> c" for d using that by (simp add: fc writes_other)
  have own: "client (f c n) c = (if P (client n c) then (client n c)\<lparr>cl_sent := cl_sent (client n c) @ [g (client n c)]\<rparr> else client n c)"
    using c by (simp add: fc writes_own)
  have "\<forall>d \<in> set cs. live (f c n) d" 
  proof
    fix d assume "d \<in> set cs"
    then have "live n d" "d \<noteq> c" using Cons.prems(1,2) by auto
    then show "live (f c n) d" using other [of d] by (simp add: live_def len)
  qed
  from Cons.IH [OF _ this Cons.prems(3)] Cons.prems(1)
  have IH: "length (nd_clients (fold f cs (f c n))) = length (nd_clients (f c n))"
    "\<And>d. d < length (nd_clients (f c n)) \<Longrightarrow> client (fold f cs (f c n)) d =
      (if d \<in> set cs \<and> P (client (f c n) d) then (client (f c n) d)\<lparr>cl_sent := cl_sent (client (f c n) d) @ [g (client (f c n) d)]\<rparr> else client (f c n) d)"
    by simp_all
  have "client (fold f (c # cs) n) d =
      (if d \<in> set (c # cs) \<and> P (client n d) then (client n d)\<lparr>cl_sent := cl_sent (client n d) @ [g (client n d)]\<rparr> else client n d)"
    if d: "d < length (nd_clients n)" for d
  proof (cases "d = c")
    case True
    then show ?thesis using IH(2) [of c] d Cons.prems(1) own by (simp add: len)
  next
    case False
    then show ?thesis using IH(2) [of d] d other [OF d] by (simp add: len)
  qed
  then show ?case using IH(1) len by simp
qed simp

text \<open>C20: Broadcasts.  When a well-formed share fits with its length in front, \<^verbatim>\<open>Broadcast\<close> returns and writes exactly one message to every connected peer that is good, and nothing to the others.  The
message is a notification just when the peer has announced this share, its parent and its uncles and both sides know notifications, and otherwise the share.  The share is sent pruned just when the peer has announced the parent and
all uncles and both sides know the compact form, or this side knows the pruned form and the peer one of the two; compact just when the peer has announced them, both sides know the compact form and it
is shorter than the pruned form; and else in full.  Whatever the form, a peer with the same consensus reads the message to its end and holds the share in that form.  A share whose full form
with its four bytes of length exceeds the limit makes \<^verbatim>\<open>Broadcast\<close> panic, although without them it is within the limit of a share.\<close>

theorem Broadcast_suitable:
  assumes "poolblock_ok (e_consensus E) (blk (pn_chain n) t)"
    and "distinct (sv_clients (nd_server n))" and "\<forall>c \<in> set (sv_clients (nd_server n)). live n c"
  shows "(fits (blk (pn_chain n) t) \<longrightarrow>
      (\<exists>n'. Server_Broadcast E now (Some t) n = Inr n' \<and>
        (\<forall>c < length (nd_clients n). client n' c = (if c \<in> set (sv_clients (nd_server n)) \<and> IsGood (client n c)
          then (client n c)\<lparr>cl_sent := cl_sent (client n c) @
            [suitable (sv_version (nd_server n)) (templateIdOf E (blk (pn_chain n) t)) (blk (pn_chain n) t) (client n c)]\<rparr>
          else client n c)))) \<and>
    readBlock E now' d compact (length (poolblock_enc pruned compact (blk (pn_chain n) t))) f (BytesReader (poolblock_enc pruned compact (blk (pn_chain n) t))) peer =
      f (pn_next peer) (BytesReader []) (holding (received E now' pruned compact (blk (pn_chain n) t)) peer) \<and>
    (length (poolblock_enc False False (blk (pn_chain n) t)) + 4 > PoolBlockMaxTemplateSize \<longrightarrow> Server_Broadcast E now (Some t) n = Inl (Panic ''broadcast''))"
proof (intro conjI impI)
  let ?b = "blk (pn_chain n) t" and ?own = "sv_version (nd_server n)" and ?cs = "sv_clients (nd_server n)"
  let ?i = "templateIdOf E ?b"
  show "readBlock E now' d compact (length (poolblock_enc pruned compact ?b)) f (BytesReader (poolblock_enc pruned compact ?b)) peer =
      f (pn_next peer) (BytesReader []) (holding (received E now' pruned compact ?b) peer)"
    using readBlock_received [OF assms(1), of "BytesReader (poolblock_enc pruned compact ?b)" pruned compact "[]"] by simp
  show "Server_Broadcast E now (Some t) n = Inl (Panic ''broadcast'')" if "length (poolblock_enc False False ?b) + 4 > PoolBlockMaxTemplateSize"
    using that lengthPrefixed_eq [OF assms(1), of False False] by (simp add: Server_Broadcast_def broadcastMessages_def Let_def)
  assume fits: "fits ?b"
  obtain ms where ms: "broadcastMessages ?own ?b = Inr ms" "\<And>cl. broadcastChoice ?own ms ?i (pb_Side ?b) cl = suitable ?own ?i ?b cl"
    using broadcastMessages_ok [OF assms(1) fits] by metis
  let ?f = "\<lambda>c m. if IsGood (client m c) then let (messageId, buf) = suitable ?own ?i ?b (client m c) in SendMessage now c messageId buf m else m"
  have f: "?f c m = (if IsGood (client m c) then writes c m [suitable ?own ?i ?b (client m c)] else m)" if "live m c" for c and m :: P2PNode
    using that suitable_size [OF fits] by (simp add: Let_def split_beta writes_send)
  have "Server_Broadcast E now (Some t) n = Inr (fold ?f ?cs n)" using ms by (simp add: Server_Broadcast_def Let_def cong: if_cong)
  then show "\<exists>n'. Server_Broadcast E now (Some t) n = Inr n' \<and> (\<forall>c < length (nd_clients n). client n' c = (if c \<in> set ?cs \<and> IsGood (client n c)
      then (client n c)\<lparr>cl_sent := cl_sent (client n c) @ [suitable ?own ?i ?b (client n c)]\<rparr> else client n c))"
    using fold_writes [OF assms(2,3), of ?f IsGood "suitable ?own ?i ?b"] f by blast
qed

section \<open>Answers to requests for peers\<close>

definition offered :: "P2PNode \<Rightarrow> nat \<Rightarrow> AddrPort set" where
  "offered n c = {cl_AddressPort (client n d) | d. d \<in> set (sv_clients (nd_server n)) \<and> \<not> notOffered n c d}"

definition listed :: "P2PNode \<Rightarrow> AddrPort set" where
  "listed n = (\<lambda>p. (pe_Addr p, pe_Port p)) ` set (sv_peerList (nd_server n))"

lemma reservoir_ok:
  "length entries = min m target \<Longrightarrow>
   \<exists>es. reservoir i n c target ds m entries = Inr es \<and> length es \<le> target \<and>
     set es \<subseteq> set entries \<union> {cl_AddressPort (client n d) | d. d \<in> set ds \<and> \<not> notOffered n c d}"
proof (induction ds arbitrary: m entries)
  case (Cons d ds)
  show ?case
  proof (cases "notOffered n c d")
    case True
    then show ?thesis using Cons.IH [OF Cons.prems] by fastforce
  next
    case False
    let ?ap = "cl_AddressPort (client n d)"
    let ?es = "if length entries < target then entries @ [?ap] else entries"
    let ?k = "in_pick i (m + 1) (m + 1) mod (m + 1)"
    have len: "length ?es = min (m + 1) target" using Cons.prems by (auto simp: min_def)
    have k: "?k < m + 1" by simp
    have IH: "\<exists>es. reservoir i n c target ds (m + 1) xs = Inr es \<and> length es \<le> target \<and>
        set es \<subseteq> set xs \<union> {cl_AddressPort (client n d) | d. d \<in> set ds \<and> \<not> notOffered n c d}" if "length xs = min (m + 1) target" for xs
      using Cons.IH [OF that] .
    have sub: "set ?es \<subseteq> insert ?ap (set entries)" "set (?es[?k := ?ap]) \<subseteq> insert ?ap (set entries)"
      using set_update_subset_insert [of ?es ?k ?ap] by auto
    show ?thesis
    proof (cases "?k < target")
      case True
      then have "?k < length ?es" using k len by simp
      then have "reservoir i n c target (d # ds) m entries = reservoir i n c target ds (m + 1) (?es[?k := ?ap])"
        using False True by (simp add: IntN_def Let_def)
      then show ?thesis using IH [of "?es[?k := ?ap]"] len sub(2) False by fastforce
    next
      case big: False
      then have "reservoir i n c target (d # ds) m entries = reservoir i n c target ds (m + 1) ?es" using False by (simp add: IntN_def Let_def)
      then show ?thesis using IH [of ?es] len sub(1) False by fastforce
    qed
  qed
qed simp

lemma padPeers_ok:
  "l \<noteq> [] \<Longrightarrow> \<exists>es. padPeers i l k entries = Inr es \<and> length es \<le> length entries + k \<and> set es \<subseteq> set entries \<union> (\<lambda>p. (pe_Addr p, pe_Port p)) ` set l"
proof (induction k arbitrary: entries)
  case (Suc k)
  let ?j = "in_pick i (1000 + k) (length l) mod length l"
  let ?es = "if \<exists>e \<in> set entries. fst e = pe_Addr (l ! ?j) then entries else entries @ [(pe_Addr (l ! ?j), pe_Port (l ! ?j))]"
  have "l ! ?j \<in> set l" using Suc.prems by simp
  then have "set ?es \<subseteq> set entries \<union> (\<lambda>p. (pe_Addr p, pe_Port p)) ` set l" "length ?es \<le> length entries + 1" by auto
  moreover obtain es where "padPeers i l k ?es = Inr es" "length es \<le> length ?es + k" "set es \<subseteq> set ?es \<union> (\<lambda>p. (pe_Addr p, pe_Port p)) ` set l"
    using Suc by blast
  ultimately show ?case using Suc.prems by (fastforce simp: IntN_def Let_def)
qed simp

lemma withVersion_ok: "length (withVersion n c es) \<le> max 1 (length es) \<and> set (withVersion n c es) \<subseteq> insert (ToAddrPort (sv_version (nd_server n))) (set es)"
  using set_update_subset_insert [of es 0] by (auto simp: withVersion_def)

lemma withIPv6_ok:
  assumes "length es \<le> 16"
  shows "length (withIPv6 l es) \<le> 16 \<and> set (withIPv6 l es) \<subseteq> set es \<union> (\<lambda>p. (pe_Addr p, pe_Port p)) ` set l"
proof (cases "find (\<lambda>p. Is4In6 (pe_Addr p) \<or> Is6 (pe_Addr p)) l")
  case (Some p)
  then have "p \<in> set l" by (auto simp: find_Some_iff)
  then show ?thesis using assms Some set_update_subset_insert [of es "length es - 1" "(pe_Addr p, pe_Port p)"]
    by (auto simp: withIPv6_def PeerListResponseMaxPeers_def dest: subsetD)
qed (use assms in \<open>auto simp: withIPv6_def\<close>)

lemma peersToSend_reservoir:
  obtains es where "reservoir i n c (min 16 (max (length (sv_clients (nd_server n)) div 4) 1)) (sv_clients (nd_server n)) 0 [] = Inr es"
    "length es \<le> min 16 (max (length (sv_clients (nd_server n)) div 4) 1)" "set es \<subseteq> offered n c"
  using reservoir_ok [of "[]" 0 "min 16 (max (length (sv_clients (nd_server n)) div 4) 1)" i n c "sv_clients (nd_server n)"] by (auto simp: offered_def)

text \<open>C37: Answers to requests for peers.  As long as the peer list is not empty, a PEER_LIST_REQUEST is answered without panic, whatever the random numbers, with at most 16 entries, so that the answer
is never dropped for its length; every entry is the address of a good connected client that is neither private nor the one that asks, our version, or an entry of the peer list.\<close>

theorem PeerListRequest_reply:
  assumes "sv_peerList (nd_server n) \<noteq> []"
  shows "\<exists>es buf. peersToSend i c n = Inr es \<and> peerListPayload es = Some buf \<and> length es \<le> 16 \<and>
    set es \<subseteq> offered n c \<union> {ToAddrPort (sv_version (nd_server n))} \<union> listed n \<and>
    onPeerListRequest i c r n =
      Some (GoOn, SendMessage (in_now i) c MessagePeerListResponse buf (updClient c (\<lambda>cl. cl\<lparr>cl_LastIncomingPeerListRequest := Some (in_now i)\<rparr>) n), r)"
proof -
  let ?l = "sv_peerList (nd_server n)"
  obtain es where es: "reservoir i n c (min 16 (max (length (sv_clients (nd_server n)) div 4) 1)) (sv_clients (nd_server n)) 0 [] = Inr es"
    "length es \<le> min 16 (max (length (sv_clients (nd_server n)) div 4) 1)" "set es \<subseteq> offered n c" by (rule peersToSend_reservoir)
  let ?v = "withVersion n c es"
  have v: "length ?v \<le> 16" "set ?v \<subseteq> insert (ToAddrPort (sv_version (nd_server n))) (offered n c)" using withVersion_ok [of n c es] es by auto
  obtain ps where ps: "(if length ?v < 16 then padPeers i ?l (16 - length ?v) ?v else Inr ?v) = Inr ps" "length ps \<le> 16" "set ps \<subseteq> set ?v \<union> listed n"
    using padPeers_ok [OF assms, of i "16 - length ?v" ?v] v(1) by (cases "length ?v < 16") (auto simp: listed_def)
  let ?es = "withIPv6 ?l ps"
  have send: "peersToSend i c n = Inr ?es" using es(1) ps(1) by (cases "length ?v < 16") (simp_all add: peersToSend_def PeerListResponseMaxPeers_def Let_def)
  have six: "length ?es \<le> 16" "set ?es \<subseteq> set ps \<union> listed n" using withIPv6_ok [OF ps(2), of ?l] by (auto simp: listed_def)
  then obtain buf where "peerListPayload ?es = Some buf" by (simp add: peerListPayload_def PeerListResponseMaxPeers_def)
  moreover have "set ?es \<subseteq> offered n c \<union> {ToAddrPort (sv_version (nd_server n))} \<union> listed n" using six(2) ps(3) v(2) by blast
  ultimately show ?thesis using send six(1) by (auto simp: onPeerListRequest_def onChain_def SendPeerListResponse_def)
qed

text \<open>C38: Requests for peers, an error of the code.  While the peer list of a node is empty and it has fewer than 64 clients, every PEER_LIST_REQUEST makes the handler draw a random
number below zero, and the panic ends the process.\<close>

theorem PeerListRequest_crashes:
  assumes "sv_peerList (nd_server n) = []" and "length (sv_clients (nd_server n)) < 64"
  shows "onPeerListRequest i c r n = Some (Crash (Panic ''invalid argument to IntN''), n, r)"
proof -
  obtain es where es: "reservoir i n c (min 16 (max (length (sv_clients (nd_server n)) div 4) 1)) (sv_clients (nd_server n)) 0 [] = Inr es"
    "length es \<le> min 16 (max (length (sv_clients (nd_server n)) div 4) 1)" "set es \<subseteq> offered n c" by (rule peersToSend_reservoir)
  have "length (sv_clients (nd_server n)) div 4 < 16" using assms(2) by simp
  then have len: "length (withVersion n c es) < 16" using withVersion_ok [of n c es] es(2) by auto
  then obtain k where "16 - length (withVersion n c es) = Suc k" by (metis Suc_diff_Suc)
  then have "peersToSend i c n = Inl (Panic ''invalid argument to IntN'')"
    using es(1) len assms(1) by (simp add: peersToSend_def PeerListResponseMaxPeers_def Let_def IntN_def)
  then show ?thesis by (simp add: onPeerListRequest_def onChain_def)
qed

section \<open>A message that ends the process\<close>

lemma untagged_decode:
  assumes "block_base_ok m" "coinbase_ok (b_Coinbase m)"
    and "NetworkMajorVersion C (c_GenHeight (b_Coinbase m)) = Inr (b_MajorVersion m)" and "GetTag (c_Extra (b_Coinbase m)) TxExtraTagMergeMining = None"
  shows "fst (PoolBlock_FromReaderFlags detKey getKey C (zeroPoolBlock\<lparr>pb_LocalTimestamp := t\<rparr>) compact (BytesReader (block_enc pruned compact m))) =
    Inl (Panic ''nil pointer dereference'')"
  using decodesD [OF decodes_block [OF assms(1,2)], of "BytesReader (block_enc pruned compact m)" pruned compact "[]"] assms(3,4)
  by (simp add: PoolBlock_FromReaderFlags_def andThen_def failR_def zeroPoolBlock_def decoded_block_keeps)

text \<open>C39: Shares without a merge mining tag, an error of the code.  A peer whose handshake is complete ends the process with one message: a broadcast, full or compact, of a well-formed main-chain block of the right version whose extra data
has no merge mining tag.  The test of the tag dereferences the missing tag, nothing recovers, and the state is as before the message.\<close>

theorem untagged_share_crashes:
  assumes "cl_HandshakeComplete (client n c)"
    and "block_base_ok m" and "coinbase_ok (b_Coinbase m)" and "NetworkMajorVersion (e_consensus E) (c_GenHeight (b_Coinbase m)) = Inr (b_MajorVersion m)"
    and "GetTag (c_Extra (b_Coinbase m)) TxExtraTagMergeMining = None" and "length (block_enc pruned compact m) < 2 ^ 32"
  shows "receive E i salt c (BytesReader ((if compact then MessageBlockBroadcastCompact else MessageBlockBroadcast) #
      le_bytes 4 (of_nat (length (block_enc pruned compact m)) :: u32) @ block_enc pruned compact m)) n =
    Some (Crash (Panic ''nil pointer dereference''), n, BytesReader [])"
proof -
  let ?enc = "block_enc pruned compact m"
  let ?id = "if compact then MessageBlockBroadcastCompact else MessageBlockBroadcast"
  let ?msg = "le_bytes 4 (of_nat (length ?enc) :: u32) @ ?enc"
  have len: "unat (of_nat (length ?enc) :: u32) = length ?enc" by (rule le32_length [OF assms(6)])
  moreover have "0 < length ?enc" by (simp add: block_enc_def)
  ultimately have "(of_nat (length ?enc) :: u32) \<noteq> 0" by (metis unat_0 less_irrefl)
  moreover have "ReadLE 4 (BytesReader ?msg) = (Inr (of_nat (length ?enc) :: u32), BytesReader ?enc)"
    using decodesD [OF decodes_ReadLE, of 4 "BytesReader ?msg" "of_nat (length ?enc) :: u32" ?enc] by simp
  ultimately have "onBlockBroadcast E i c compact (BytesReader ?msg) n = Some (Crash (Panic ''nil pointer dereference''), n, BytesReader [])"
    by (simp add: onBlockBroadcast_def reading_def readBlock_def Let_def len untagged_decode [OF assms(2-5)])
  moreover have "afterHandshake E i c ?id = onBlockBroadcast E i c compact"
    by (intro ext) (simp add: afterHandshake_def MessageBlockRequest_def MessageBlockResponse_def MessageBlockBroadcast_def MessageBlockBroadcastCompact_def)
  moreover have "ReadFull 1 (BytesReader (?id # ?msg)) = (Inr [?id], BytesReader ?msg)" using ReadFull_ok [of 1 "BytesReader (?id # ?msg)"] by simp
  moreover have "?id \<noteq> MessageHandshakeChallenge" "?id \<noteq> MessageHandshakeSolution" "?id \<noteq> MessageListenPort"
    by (simp_all add: MessageHandshakeChallenge_def MessageHandshakeSolution_def MessageListenPort_def MessageBlockBroadcast_def MessageBlockBroadcastCompact_def)
  ultimately show ?thesis using assms(1) unfolding receive_def onMessage_def by (simp only: isComplete_def prod.case sum.case Let_def list.sel) simp
qed

section \<open>Examples\<close>

text \<open>A node with one client whose handshake is complete and who waits for the share of the example.\<close>

definition exampleNode :: P2PNode where
  "exampleNode = updClient 0 (\<lambda>cl. cl\<lparr>cl_HandshakeComplete := True, cl_ListenPort := 37889, cl_blockPending := [9]\<rparr>)
    (Node.extend fullNode (P2PNode.fields (ext_state\<lparr>sc_byId := [9 \<mapsto> 0]\<rparr>) None None 1))"

lemma exampleNode_simps:
  "client exampleNode 0 = (NewClient 1000 (Addr4 0x01020304, 5000) True)\<lparr>cl_HandshakeComplete := True, cl_ListenPort := 37889, cl_blockPending := [9]\<rparr>"
  "pn_chain exampleNode = ext_state\<lparr>sc_byId := [9 \<mapsto> 0]\<rparr>" "pn_next exampleNode = 1" "length (nd_clients exampleNode) = 1" "conn_inv exampleNode" "live exampleNode 0"
  "nd_server exampleNode = nd_server fullNode"
  "blk (pn_chain exampleNode) r = ext_share"
proof -
  let ?n = "Node.extend fullNode (P2PNode.fields (ext_state\<lparr>sc_byId := [9 \<mapsto> 0]\<rparr>) None None 1)"
  have one: "length (nd_clients fullNode) = 1" "client fullNode 0 = NewClient 1000 (Addr4 0x01020304, 5000) True"
    using example_nodes by (simp_all add: fullNode_def accept_def rejectIncoming_def NewNode_def NewServer_def Let_def GetAddressConnected_def IsLoopback_def IsBanned_def Unmap_def)
  have c: "client ?n = client fullNode" by (simp add: fun_eq_iff client_def Node.defs)
  show 1: "client exampleNode 0 = (NewClient 1000 (Addr4 0x01020304, 5000) True)\<lparr>cl_HandshakeComplete := True, cl_ListenPort := 37889, cl_blockPending := [9]\<rparr>"
    unfolding exampleNode_def by (subst client_updClient, simp add: Node.defs one) (simp only: c one simp_thms if_True)
  show "pn_chain exampleNode = ext_state\<lparr>sc_byId := [9 \<mapsto> 0]\<rparr>" "pn_next exampleNode = 1" "nd_server exampleNode = nd_server fullNode"
    by (simp_all add: exampleNode_def Node.defs P2PNode.defs)
  show "blk (pn_chain exampleNode) r = ext_share" using ext_state_simps by (simp add: exampleNode_def Node.defs P2PNode.defs blk_def)
  show 2: "length (nd_clients exampleNode) = 1" by (simp add: exampleNode_def Node.defs one)
  have "conn_inv fullNode" using conn_reach_inv [OF fullNode_reach(2,1)] by (simp add: node_inv_def)
  then have "conn_inv ?n" unfolding conn_inv_def c by (simp add: Node.defs)
  then show "conn_inv exampleNode" unfolding exampleNode_def by (intro conn_inv_client) simp_all
  show "live exampleNode 0" unfolding live_def 1 2 by (simp add: NewClient_def)
qed


lemma ext_share_ok: "poolblock_ok ConsensusDefault ext_share"
  using example_share_ok by (simp add: poolblock_ok_def ext_share_def example_share_def CalculateShareVersion_def)

lemma ext_share_size: "length (poolblock_enc False False ext_share) \<le> 1000"
proof -
  have "PoolBlock_BufferLength ext_share \<le> 1000"
    by (simp add: PoolBlock_BufferLength_def Block_BufferLength_def SideData_BufferLength_def ext_share_def example_share_def
        example_side_def example_block_def example_coinbase_def example_output_def example_tags_def
        Coinbase_BufferLength_def Outputs_BufferLength.simps ExtraTag_BufferLength_def
        UVarInt64Size_def VarIntLen_def zeroSideData_def)
  then show ?thesis using PoolBlock_BufferLength_ge [OF ext_share_ok] by linarith
qed

lemma ext_share_fits: "poolblock_ok ConsensusDefault ext_share" "fits ext_share"
proof -
  show "poolblock_ok ConsensusDefault ext_share" by (rule ext_share_ok)
  note full = ext_share_size
  have "length (txs_enc True example_block) \<le> 100" by (simp add: txs_enc_def example_block_def compact_tx_enc_def compact_entry_def parent_index_def length_AppendUvarint_small)
  then have compact: "length (poolblock_enc p True ext_share) \<le> length (poolblock_enc p False ext_share) + 100" for p
    by (simp add: poolblock_enc_def block_enc_def ext_share_simps)
  have pruned: "length (poolblock_enc True c ext_share) \<le> length (poolblock_enc False c ext_share) + 30" for c
  proof -
    have "length (AppendUvarint 0 @ AppendUvarint x @ AppendUvarint y) \<le> 30 + length (outputs_enc os)" for x y os
      using length_AppendUvarint_bounds(2) [of 0] length_AppendUvarint_bounds(2) [of x] length_AppendUvarint_bounds(2) [of y] by (simp del: length_AppendUvarint_bounds)
    then show ?thesis by (simp add: poolblock_enc_def block_enc_def coinbase_enc_def)
  qed
  show "fits ext_share" unfolding fits_def
  proof (intro allI)
    show "length (poolblock_enc p c ext_share) + 4 \<le> PoolBlockMaxTemplateSize" for p c
      using full compact [of p] pruned [of False] by (cases p; cases c) (simp_all add: PoolBlockMaxTemplateSize_def)
  qed
qed

definition exampleInputs :: inputs where
  "exampleInputs = \<lparr>in_now = 1000, in_micros = 1000000000, in_ping = 5, in_delay = 30, in_pick = (\<lambda>j m. j)\<rparr>"

theorem side_chain_isolated_witness:
  "\<exists>n'. receive ext_env exampleInputs 0 0 (BytesReader [0xEE]) exampleNode = Some (Stop, n', BytesReader []) \<and> pn_chain n' = pn_chain exampleNode \<and> conn_inv n'"
proof -
  have r: "receive ext_env exampleInputs 0 0 (BytesReader [0xEE]) exampleNode =
      Some (Stop, Ban 1000 0 DefaultBanTime (Err ''unknown MessageId'') exampleNode, BytesReader [])"
    using ReadFull_ok [of 1 "BytesReader [0xEE]"]
    by (simp add: receive_def onMessage_def Let_def isComplete_def exampleNode_simps afterHandshake_def exampleInputs_def MessageHandshakeChallenge_def
        MessageHandshakeSolution_def MessageListenPort_def MessageBlockRequest_def MessageBlockResponse_def MessageBlockBroadcast_def MessageBlockBroadcastCompact_def
        MessagePeerListRequest_def MessagePeerListResponse_def MessageBlockNotify_def MessageInternal_def)
  show ?thesis using side_chain_isolated [OF exampleNode_simps(5) _ _ _ r] r
    by (simp add: exampleNode_simps MessageBlockResponse_def MessageBlockBroadcast_def MessageBlockBroadcastCompact_def)
qed

theorem share_transfer_witness:
  "\<exists>B' answer. onBlockRequest 1000 0 (BytesReader (le_bytes 32 (9 :: hash))) exampleNode = Some (GoOn, B', BytesReader []) \<and>
    cl_sent (client B' 0) = (if bothNotify exampleNode 0 then notices (announcedIds (pn_chain exampleNode) 0) else []) @ [(MessageBlockResponse, answer)] \<and>
    (\<exists>f. onBlockResponse ext_env exampleInputs 0 (BytesReader answer) exampleNode =
      admitBlock ext_env exampleInputs 0 1 (BytesReader []) GoOn False
        (holding (received ext_env 1000 False False ext_share) (updClient 0 (\<lambda>cl. cl\<lparr>cl_blockPending := []\<rparr>) exampleNode)) f)"
proof -
  have len: "length (poolblock_enc False False ext_share) + 4 \<le> PoolBlockMaxTemplateSize" using ext_share_fits(2) unfolding fits_def by blast
  have *: "sc_byId (pn_chain exampleNode) 9 = Some 0" "(9 :: hash) \<noteq> ZeroHash" "cl_blockPending (client exampleNode 0) = [9]"
    "poolblock_ok (e_consensus ext_env) (blk (pn_chain exampleNode) 0)" "length (poolblock_enc False False (blk (pn_chain exampleNode) 0)) \<le> PoolBlockMaxTemplateSize"
    using ext_share_fits(1) len unfolding exampleNode_simps(8) by (simp_all add: exampleNode_simps(1,2) ext_env_simps ZeroHash_def)
  have "cl_sent (client exampleNode 0) = []" "in_now exampleInputs = 1000" by (simp_all add: exampleNode_simps NewClient_def exampleInputs_def)
  then show ?thesis using share_transfer [where E = ext_env and i = exampleInputs and now = 1000, OF exampleNode_simps(6) *(1,2,4,5,3) refl]
    unfolding exampleNode_simps(8) exampleNode_simps(3) by (elim exE conjE) (intro exI conjI, assumption, simp only: append_Nil, simp only:)
qed

theorem Broadcast_suitable_witness:
  "\<exists>n'. Server_Broadcast ext_env 1000 (Some 0) exampleNode = Inr n' \<and> cl_sent (client n' 0) = [broadcast_of ext_share True False]"
proof -
  have c: "sv_clients (nd_server exampleNode) = [0]" by (simp add: exampleNode_simps fullNode_incoming)
  have good: "IsGood (client exampleNode 0)" "cl_sent (client exampleNode 0) = []" by (simp_all add: IsGood_def exampleNode_simps NewClient_def)
  have ok: "poolblock_ok (e_consensus ext_env) (blk (pn_chain exampleNode) 0)" using ext_share_fits(1) by (simp only: exampleNode_simps(8) ext_env_simps)
  have l: "0 < length (nd_clients exampleNode)" using exampleNode_simps(6) by (simp add: live_def)
  have "distinct (sv_clients (nd_server exampleNode))" "\<forall>c \<in> set (sv_clients (nd_server exampleNode)). live exampleNode c" using exampleNode_simps(6) by (simp_all add: c)
  note b = Broadcast_suitable [OF ok this, unfolded exampleNode_simps(8), THEN conjunct1, rule_format, OF ext_share_fits(2), of 1000]
  then obtain n' where n': "Server_Broadcast ext_env 1000 (Some 0) exampleNode = Inr n'"
    "client n' 0 = (if 0 \<in> set (sv_clients (nd_server exampleNode)) \<and> IsGood (client exampleNode 0)
      then (client exampleNode 0)\<lparr>cl_sent := cl_sent (client exampleNode 0) @
        [suitable (sv_version (nd_server exampleNode)) (templateIdOf ext_env ext_share) ext_share (client exampleNode 0)]\<rparr> else client exampleNode 0)"
    using l by blast
  have "SupportsFeature (sv_version (nd_server exampleNode)) FeaturePrunedBroadcast"
    by (simp add: exampleNode_simps(7) fullNode_def accept_def rejectIncoming_def NewNode_def NewServer_def Let_def GetAddressConnected_def IsLoopback_def
      IsBanned_def Unmap_def ProtocolVersion_1_0_def ProtocolVersion_1_2_def)
  moreover have "\<not> SupportsFeature (cl_Version (client exampleNode 0)) FeatureBlockNotify" "\<not> SupportsFeature (cl_Version (client exampleNode 0)) FeatureCompactBroadcast"
    "SupportsFeature (cl_Version (client exampleNode 0)) FeaturePrunedBroadcast"
    by (simp_all add: exampleNode_simps(1) NewClient_def ProtocolVersion_1_1_def ProtocolVersion_1_2_def)
  moreover have "knowsAncestors ext_share (client exampleNode 0)"
    by (simp add: knowsAncestors_def ext_share_simps exampleNode_simps(1) NewClient_def Slice_def NewCircularBuffer_def)
  ultimately have "suitable (sv_version (nd_server exampleNode)) i ext_share (client exampleNode 0) = broadcast_of ext_share True False" for i
    by (simp add: suitable_def getsPruned_def getsCompact_def bothSupport_def del: SupportsFeature.simps)
  then show ?thesis using good c n' by (intro exI [of _ n']) simp
qed

theorem untagged_share_crashes_witness:
  "\<exists>message. receive ext_env exampleInputs 0 0 (BytesReader message) exampleNode = Some (Crash (Panic ''nil pointer dereference''), exampleNode, BytesReader [])"
proof -
  let ?tags = "take 2 example_tags"
  let ?m = "example_block\<lparr>b_Coinbase := example_coinbase\<lparr>c_Extra := ?tags\<rparr>\<rparr>"
  have "length (tags_enc ?tags) \<le> 65536" "tags_ok ?tags" using example_tags_ok
    by (simp_all add: example_tags_def tags_enc_def tag_enc_def length_AppendUvarint_small tags_ok_def)
  then have ok: "block_base_ok ?m" "coinbase_ok (b_Coinbase ?m)" using example_block_ok
    by (simp_all add: block_base_ok_def example_block_def coinbase_ok_def coinbase_base_ok_def example_coinbase_def)
  have net: "NetworkMajorVersion (e_consensus ext_env) (c_GenHeight (b_Coinbase ?m)) = Inr (b_MajorVersion ?m)"
    using ext_share_fits(1) by (simp add: poolblock_ok_def ext_env_simps ext_share_simps example_block_def example_coinbase_def)
  have tag: "GetTag (c_Extra (b_Coinbase ?m)) TxExtraTagMergeMining = None" by (simp add: example_tags_def GetTag_def extra_consts)
  have len: "length (block_enc False False ?m) < 2 ^ 32"
  proof -
    have "Block_BufferLength ?m \<le> 1000"
      by (simp add: Block_BufferLength_def example_block_def example_coinbase_def example_output_def example_tags_def Coinbase_BufferLength_def Outputs_BufferLength.simps
          ExtraTag_BufferLength_def UVarInt64Size_def VarIntLen_def)
    then show ?thesis using Block_BufferLength_eq [OF block_ok_outputs [OF ok(2)]] by simp
  qed
  have "cl_HandshakeComplete (client exampleNode 0)" by (simp add: exampleNode_simps)
  from untagged_share_crashes [OF this ok net tag len, of exampleInputs 0] show ?thesis by (intro exI)
qed

definition knownPeers :: "PeerListEntry list" where
  "knownPeers = [\<lparr>pe_Addr = Addr4 0x05060708, pe_Port = 37889, pe_FailedConnections = 0, pe_LastSeen = 900\<rparr>]"

theorem PeerListRequest_reply_witness:
  "\<exists>es. peersToSend exampleInputs 0 (updServer (\<lambda>s. s\<lparr>sv_peerList := knownPeers\<rparr>) exampleNode) = Inr es \<and> length es \<le> 16"
  using PeerListRequest_reply [of "updServer (\<lambda>s. s\<lparr>sv_peerList := knownPeers\<rparr>) exampleNode" exampleInputs 0] by (fastforce simp: knownPeers_def)

theorem PeerListRequest_crashes_witness:
  "onPeerListRequest exampleInputs 0 (BytesReader []) exampleNode = Some (Crash (Panic ''invalid argument to IntN''), exampleNode, BytesReader [])"
proof -
  have "sv_peerList (nd_server exampleNode) = []" "length (sv_clients (nd_server exampleNode)) < 64"
    by (simp_all add: exampleNode_simps fullNode_incoming) (simp add: fullNode_def accept_def rejectIncoming_def NewNode_def NewServer_def Let_def GetAddressConnected_def
        IsLoopback_def IsBanned_def Unmap_def)
  then show ?thesis by (rule PeerListRequest_crashes)
qed

end
