(* ===== verification/Storage.thy ===== *)
theory Storage
  imports Exchange
begin

text \<open>
  The file of stored shares, p2pool/cache/legacy/legacy.go.

  The file has a fixed number of slots of fixed size, each with the length of a share and the share.  A store takes the next slot; loading goes once around all
  slots and hands every share that can be read to the loader (\<^verbatim>\<open>AddCachedBlock\<close>, the parameter \<open>add\<close>).  The file is a function from offsets to bytes; writes and
  reads within its size succeed.  \<^verbatim>\<open>Store\<close> and \<^verbatim>\<open>LoadAll\<close> are steps; the key operations are those of the empty derivation cache.
\<close>

section \<open>The cache\<close>

definition blockSize :: nat where "blockSize = 96 * 1024"
definition NumBlocks :: nat where "NumBlocks = 4608"

type_synonym disk = "nat \<Rightarrow> byte"

record LegacyCache =
  ca_f :: disk
  ca_storeIndex :: u32
  ca_loadingStarted :: bool
  ca_loadingInProgress :: bool

definition WriteAt :: "byte list \<Rightarrow> nat \<Rightarrow> disk \<Rightarrow> disk" where
  "WriteAt bs off f = (\<lambda>i. if off \<le> i \<and> i < off + length bs then bs ! (i - off) else f i)"

definition ReadAt :: "nat \<Rightarrow> nat \<Rightarrow> disk \<Rightarrow> byte list" where
  "ReadAt n off f = map f [off..<off + n]"

text \<open>\<^verbatim>\<open>NewCache\<close> writes a byte at the end, so that the file has its full size.\<close>

definition NewCache :: "disk \<Rightarrow> LegacyCache" where
  "NewCache f = \<lparr>ca_f = WriteAt [0] (blockSize * NumBlocks - 1) f, ca_storeIndex = 0, ca_loadingStarted = False, ca_loadingInProgress = False\<rparr>"

definition slotOffset :: "u32 \<Rightarrow> nat" where
  "slotOffset i = unat ((i mod of_nat NumBlocks) * of_nat blockSize)"

definition Cache_Store :: "PoolBlock \<Rightarrow> LegacyCache \<Rightarrow> LegacyCache result" where
  "Cache_Store block c =
    (if ca_loadingInProgress c then Inr c
     else case PoolBlock_AppendBinaryFlags block [] False False of
       Inl (Panic m) \<Rightarrow> Inl (Panic m)
     | Inl _ \<Rightarrow> Inr c
     | Inr blob \<Rightarrow>
         if length blob + 4 > blockSize then Inr c
         else
           let storeIndex = ca_storeIndex c + 1; off = slotOffset storeIndex in
           Inr (c\<lparr>ca_storeIndex := storeIndex, ca_f := WriteAt blob (off + 4) (WriteAt (le_bytes 4 (of_nat (length blob) :: u32)) off (ca_f c))\<rparr>))"

definition stored_share :: "(hash \<Rightarrow> hash \<Rightarrow> hash) \<Rightarrow> (hash \<Rightarrow> hash \<Rightarrow> hash) \<Rightarrow> Consensus \<Rightarrow> u64 \<Rightarrow> byte list \<Rightarrow> PoolBlock result" where
  "stored_share detKey getKey consensus now data =
    (if length data > PoolBlockMaxTemplateSize then Inl (Err ''buffer too large'')
     else fst (PoolBlock_FromReaderFlags detKey getKey consensus (zeroPoolBlock\<lparr>pb_LocalTimestamp := now\<rparr>) False (BytesReader data)))"

text \<open>The loop of \<^verbatim>\<open>LoadAll\<close> with the slots still to be read; \<open>P\<close> reads a share.  The test of the length wraps, and slicing the buffer beyond its capacity panics.\<close>

fun loadLoop :: "(byte list \<Rightarrow> PoolBlock result) \<Rightarrow> (PoolBlock \<Rightarrow> 's \<Rightarrow> 's) \<Rightarrow> nat \<Rightarrow> LegacyCache \<Rightarrow> 's \<Rightarrow> (LegacyCache \<times> 's) result" where
  "loadLoop P add 0 c s = Inr (c, s)"
| "loadLoop P add (Suc k) c s =
    (let storeIndex = ca_storeIndex c + 1; off = slotOffset storeIndex; c = c\<lparr>ca_storeIndex := storeIndex\<rparr>;
         blobLength = le_word (ReadAt 4 off (ca_f c)) :: u32 in
     if blobLength + 4 > of_nat blockSize then loadLoop P add k c s
     else if unat blobLength > blockSize then Inl (Panic ''slice bounds out of range'')
     else case P (ReadAt (unat blobLength) (off + 4) (ca_f c)) of
       Inl (Panic m) \<Rightarrow> Inl (Panic m)
     | Inl _ \<Rightarrow> loadLoop P add k c s
     | Inr b \<Rightarrow> loadLoop P add k c (add b s))"

definition LoadAll ::
    "(hash \<Rightarrow> hash \<Rightarrow> hash) \<Rightarrow> (hash \<Rightarrow> hash \<Rightarrow> hash) \<Rightarrow> Consensus \<Rightarrow> u64 \<Rightarrow> (PoolBlock \<Rightarrow> 's \<Rightarrow> 's) \<Rightarrow> LegacyCache \<Rightarrow> 's \<Rightarrow> (LegacyCache \<times> 's) result" where
  "LoadAll detKey getKey consensus now add c s =
    (if ca_loadingStarted c then Inr (c, s)
     else bindR (loadLoop (stored_share detKey getKey consensus now) add NumBlocks (c\<lparr>ca_loadingStarted := True, ca_loadingInProgress := True\<rparr>) s)
       (\<lambda>(c, s). Inr (c\<lparr>ca_loadingInProgress := False\<rparr>, s)))"

fun storeAll :: "PoolBlock list \<Rightarrow> LegacyCache \<Rightarrow> LegacyCache result" where
  "storeAll [] c = Inr c"
| "storeAll (b # bs) c = bindR (Cache_Store b c) (storeAll bs)"

section \<open>Slots\<close>

lemma ReadAt_nth: "ReadAt n off f = bs \<longleftrightarrow> length bs = n \<and> (\<forall>i < n. f (off + i) = bs ! i)"
  by (auto simp: ReadAt_def list_eq_iff_nth_eq)

lemma ReadAt_same: "ReadAt (length bs) off (WriteAt bs off f) = bs"
  by (simp add: ReadAt_nth WriteAt_def)

lemma ReadAt_other: "off + n \<le> off' \<or> off' + length bs \<le> off \<Longrightarrow> ReadAt n off (WriteAt bs off' f) = ReadAt n off f"
  by (auto simp: ReadAt_def WriteAt_def)

text \<open>Slot \<open>j\<close> of the file has a share, or nothing.\<close>

definition slot_has :: "disk \<Rightarrow> nat \<Rightarrow> PoolBlock option \<Rightarrow> bool" where
  "slot_has f j x =
    (case x of
       None \<Rightarrow> ReadAt 4 (j * blockSize) f = le_bytes 4 (0 :: u32)
     | Some b \<Rightarrow> ReadAt 4 (j * blockSize) f = le_bytes 4 (of_nat (length (poolblock_enc False False b)) :: u32) \<and>
         ReadAt (length (poolblock_enc False False b)) (j * blockSize + 4) f = poolblock_enc False False b)"

text \<open>The well-formed shares that \<^verbatim>\<open>Store\<close> accepts.\<close>

definition storable :: "Consensus \<Rightarrow> PoolBlock \<Rightarrow> bool" where
  "storable C b \<longleftrightarrow> poolblock_ok C b \<and> length (poolblock_enc False False b) + 4 \<le> blockSize"

text \<open>A share that leaves no byte of its slot free.\<close>

definition fills_slot :: "PoolBlock \<Rightarrow> bool" where
  "fills_slot b \<longleftrightarrow> length (poolblock_enc False False b) + 4 = blockSize"

lemma slotOffset_eq:
  assumes "unat i = n"
  shows "slotOffset i = (n mod NumBlocks) * blockSize"
proof -
  have "unat (i mod of_nat NumBlocks) = n mod NumBlocks" using assms by (simp add: NumBlocks_def unat_mod)
  moreover have "n mod 4608 < 4608" by simp
  then have "n mod 4608 * 98304 < 2 ^ 32" by simp
  ultimately show ?thesis by (simp add: slotOffset_def blockSize_def NumBlocks_def unat_word_ariths)
qed

lemma slot_written:
  assumes "storable C b" "j < NumBlocks"
  shows "slot_has (WriteAt (poolblock_enc False False b) (j * blockSize + 4) (WriteAt (le_bytes 4 (of_nat (length (poolblock_enc False False b)) :: u32)) (j * blockSize) f)) j (Some b)"
  using ReadAt_same [of "le_bytes 4 (of_nat (length (poolblock_enc False False b)) :: u32)" "j * blockSize" f]
  by (simp add: slot_has_def ReadAt_same ReadAt_other)

lemma slot_kept:
  assumes "storable C b" "i \<noteq> j" "\<And>b'. x = Some b' \<Longrightarrow> storable C b'" "slot_has f i x"
  shows "slot_has (WriteAt (poolblock_enc False False b) (j * blockSize + 4) (WriteAt (le_bytes 4 (of_nat (length (poolblock_enc False False b)) :: u32)) (j * blockSize) f)) i x"
proof -
  have "i + 1 \<le> j \<or> j + 1 \<le> i" using assms(2) by linarith
  then have far: "i * blockSize + blockSize \<le> j * blockSize \<or> j * blockSize + blockSize \<le> i * blockSize"
    using mult_le_mono1 [of "i + 1" j blockSize] mult_le_mono1 [of "j + 1" i blockSize] by (auto simp del: mult_le_cancel2)
  have len: "length (poolblock_enc False False b) + 4 \<le> blockSize" using assms(1) by (simp add: storable_def)
  have keep: "ReadAt n (i * blockSize + k) (WriteAt (poolblock_enc False False b) (j * blockSize + 4)
      (WriteAt (le_bytes 4 (of_nat (length (poolblock_enc False False b)) :: u32)) (j * blockSize) f)) = ReadAt n (i * blockSize + k) f" if "k + n \<le> blockSize" for n k
  proof -
    have "i * blockSize + k + n \<le> j * blockSize + 4 \<or> j * blockSize + 4 + length (poolblock_enc False False b) \<le> i * blockSize + k"
      "i * blockSize + k + n \<le> j * blockSize \<or> j * blockSize + 4 \<le> i * blockSize + k" using far len that by auto
    then show ?thesis by (simp add: ReadAt_other)
  qed
  show ?thesis
  proof (cases x)
    case None
    then show ?thesis using assms(4) keep [of 0 4] by (simp add: slot_has_def blockSize_def)
  next
    case (Some b')
    then have "length (poolblock_enc False False b') + 4 \<le> blockSize" using assms(3) by (simp add: storable_def)
    then show ?thesis using Some assms(4) keep [of 0 4] keep [of 4 "length (poolblock_enc False False b')"] by (simp add: slot_has_def)
  qed
qed

text \<open>After the shares \<open>bs\<close> were stored: the slots that come next, in their order, are the empty ones and then the shares from the oldest on.\<close>

definition shelved :: "disk \<Rightarrow> PoolBlock list \<Rightarrow> bool" where
  "shelved f bs \<longleftrightarrow> (\<forall>i. length bs < i \<and> i \<le> length bs + NumBlocks \<longrightarrow>
     slot_has f (i mod NumBlocks) (if i \<le> NumBlocks then None else Some (bs ! (i - NumBlocks - 1))))"

lemma mod_apart: "k < i \<Longrightarrow> i < k + n \<Longrightarrow> i mod n \<noteq> k mod (n :: nat)"
  using mod_eq_dvd_iff_nat [of k i n] by (auto dest: dvd_imp_le)

lemma Cache_Store_ok:
  assumes "storable C b" "ca_storeIndex c = of_nat k" "k + 1 < 2 ^ 32" "\<not> ca_loadingInProgress c"
  shows "Cache_Store b c = Inr (c\<lparr>ca_storeIndex := of_nat (k + 1),
    ca_f := WriteAt (poolblock_enc False False b) ((k + 1) mod NumBlocks * blockSize + 4)
      (WriteAt (le_bytes 4 (of_nat (length (poolblock_enc False False b)) :: u32)) ((k + 1) mod NumBlocks * blockSize) (ca_f c))\<rparr>)"
proof -
  have "PoolBlock_AppendBinaryFlags b [] False False = Inr (poolblock_enc False False b)"
    by (rule PoolBlock_AppendBinaryFlags_eq [of C]) (use assms(1) in \<open>simp_all add: storable_def blockSize_def PoolBlockMaxTemplateSize_def\<close>)
  moreover have "unat (of_nat k + 1 :: u32) = k + 1" using le32_length [OF assms(3)] by (simp add: add.commute)
  then have "slotOffset (of_nat k + 1) = (k + 1) mod NumBlocks * blockSize" by (rule slotOffset_eq)
  ultimately show ?thesis using assms by (simp add: Cache_Store_def Let_def storable_def add.commute)
qed

lemma storeAll_append: "storeAll (bs @ cs) c = bindR (storeAll bs c) (storeAll cs)"
proof (induction bs arbitrary: c)
  case (Cons b bs)
  then show ?case by (cases "Cache_Store b c") simp_all
qed simp

lemma slot_of_zeros: "(\<And>i. f i = 0) \<Longrightarrow> slot_has f j None"
  by (simp add: slot_has_def ReadAt_nth le_bytes_def)

lemma storeAll_shelved:
  assumes "\<forall>b \<in> set bs. storable C b" "length bs < 2 ^ 32"
  shows "\<exists>c. storeAll bs (NewCache (\<lambda>_. 0)) = Inr c \<and> ca_storeIndex c = of_nat (length bs) \<and> \<not> ca_loadingInProgress c \<and> shelved (ca_f c) bs"
  using assms
proof (induction bs rule: rev_induct)
  case Nil
  have "ca_f (NewCache (\<lambda>_. 0)) i = 0" for i by (simp add: NewCache_def WriteAt_def)
  then show ?case using slot_of_zeros by (simp add: shelved_def) (simp add: NewCache_def)
next
  case (snoc b bs)
  then obtain c where c: "storeAll bs (NewCache (\<lambda>_. 0)) = Inr c" "ca_storeIndex c = of_nat (length bs)" "\<not> ca_loadingInProgress c" and sh: "shelved (ca_f c) bs" by auto
  have b: "storable C b" using snoc.prems by simp
  let ?k = "length bs + 1"
  let ?f = "WriteAt (poolblock_enc False False b) (?k mod NumBlocks * blockSize + 4)
      (WriteAt (le_bytes 4 (of_nat (length (poolblock_enc False False b)) :: u32)) (?k mod NumBlocks * blockSize) (ca_f c))"
  have "Cache_Store b c = Inr (c\<lparr>ca_storeIndex := of_nat ?k, ca_f := ?f\<rparr>)" by (rule Cache_Store_ok [OF b c(2) _ c(3)]) (use snoc.prems in simp)
  then have "storeAll (bs @ [b]) (NewCache (\<lambda>_. 0)) = Inr (c\<lparr>ca_storeIndex := of_nat ?k, ca_f := ?f\<rparr>)" using c(1) by (simp add: storeAll_append)
  moreover have "slot_has ?f (i mod NumBlocks) (if i \<le> NumBlocks then None else Some ((bs @ [b]) ! (i - NumBlocks - 1)))" if i: "?k < i" "i \<le> ?k + NumBlocks" for i
  proof (cases "i = ?k + NumBlocks")
    case True
    then have "i mod NumBlocks = ?k mod NumBlocks" "\<not> i \<le> NumBlocks" "(bs @ [b]) ! (i - NumBlocks - 1) = b" by (simp_all only: mod_add_self2) simp_all
    moreover have "?k mod NumBlocks < NumBlocks" by (simp add: NumBlocks_def)
    ultimately show ?thesis using slot_written [OF b, of "?k mod NumBlocks" "ca_f c"] by simp
  next
    case False
    then have "i mod NumBlocks \<noteq> ?k mod NumBlocks" using i by (intro mod_apart) simp_all
    moreover have "slot_has (ca_f c) (i mod NumBlocks) (if i \<le> NumBlocks then None else Some (bs ! (i - NumBlocks - 1)))" using sh i False by (simp add: shelved_def)
    moreover have "storable C b'" if "(if i \<le> NumBlocks then None else Some (bs ! (i - NumBlocks - 1))) = Some b'" for b'
      using that snoc.prems(1) i False by (auto split: if_splits)
    ultimately have "slot_has ?f (i mod NumBlocks) (if i \<le> NumBlocks then None else Some (bs ! (i - NumBlocks - 1)))" using slot_kept [OF b] by blast
    then show ?thesis using i False by (auto simp: nth_append)
  qed
  ultimately show ?case using c(3) by (auto simp: shelved_def)
qed

section \<open>Loading\<close>

definition reloaded :: "(hash \<Rightarrow> hash \<Rightarrow> hash) \<Rightarrow> (hash \<Rightarrow> hash \<Rightarrow> hash) \<Rightarrow> u64 \<Rightarrow> PoolBlock \<Rightarrow> PoolBlock" where
  "reloaded detKey getKey now b = (decoded_poolblock detKey getKey False False b)\<lparr>pb_LocalTimestamp := now\<rparr>"

lemma stored_share_ok: "storable C b \<Longrightarrow> stored_share detKey getKey C now (poolblock_enc False False b) = Inr (reloaded detKey getKey now b)"
  using decodesD [OF decodes_received, of C b "BytesReader (poolblock_enc False False b)" False False "[]"]
  by (simp add: storable_def stored_share_def reloaded_def blockSize_def PoolBlockMaxTemplateSize_def)

lemma stored_share_empty: "\<exists>e. stored_share detKey getKey C now [] = Inl e \<and> (\<forall>m. e \<noteq> Panic m)"
  by (simp add: stored_share_def PoolBlock_FromReaderFlags_def Block_FromReaderFlags_def andThen_def)

lemma le_word_u32: "le_word (le_bytes 4 (w :: u32)) = w"
  by (simp add: le_word_le_bytes_take take_bit_word_eq_self)

lemma loadLoop_slot:
  assumes "ca_storeIndex c = of_nat k" "k + 1 < 2 ^ 32" "slot_has (ca_f c) ((k + 1) mod NumBlocks) x" "\<And>b. x = Some b \<Longrightarrow> storable C b"
  shows "loadLoop (stored_share detKey getKey C now) add (Suc n) c s =
    loadLoop (stored_share detKey getKey C now) add n (c\<lparr>ca_storeIndex := of_nat (k + 1)\<rparr>) (case x of None \<Rightarrow> s | Some b \<Rightarrow> add (reloaded detKey getKey now b) s)"
proof -
  have "unat (of_nat k + 1 :: u32) = k + 1" using le32_length [OF assms(2)] by (simp add: add.commute)
  then have off: "slotOffset (of_nat k + 1) = (k + 1) mod NumBlocks * blockSize" by (rule slotOffset_eq)
  show ?thesis
  proof (cases x)
    case None
    obtain e where e: "stored_share detKey getKey C now [] = Inl e" "\<And>m. e \<noteq> Panic m" using stored_share_empty by blast
    have "le_word (ReadAt 4 ((k + 1) mod NumBlocks * blockSize) (ca_f c)) = (0 :: u32)" using None assms(3) le_word_u32 [of 0] by (simp add: slot_has_def)
    moreover have "ReadAt 0 off f = []" for off f by (simp add: ReadAt_def)
    moreover have "\<not> (of_nat blockSize :: u32) < 4" by (simp add: blockSize_def)
    ultimately show ?thesis using None e assms(1) off by (simp add: Let_def add.commute split: error.split)
  next
    case (Some b)
    let ?len = "length (poolblock_enc False False b)"
    have b: "storable C b" using assms(4) Some by simp
    then have small: "?len + 4 \<le> blockSize" by (simp add: storable_def)
    then have len: "unat (of_nat ?len :: u32) = ?len" "unat (of_nat ?len + 4 :: u32) = ?len + 4"
      using le32_length [of ?len] le32_length [of "?len + 4"] by (simp_all add: blockSize_def)
    have "\<not> (of_nat blockSize :: u32) < of_nat ?len + 4" using len(2) small by (simp add: word_less_nat_alt blockSize_def)
    moreover have "le_word (ReadAt 4 ((k + 1) mod NumBlocks * blockSize) (ca_f c)) = (of_nat ?len :: u32)"
      "ReadAt ?len ((k + 1) mod NumBlocks * blockSize + 4) (ca_f c) = poolblock_enc False False b"
      using Some assms(3) le_word_u32 [of "of_nat ?len"] by (simp_all add: slot_has_def)
    ultimately show ?thesis using Some assms(1) off len(1) small stored_share_ok [OF b] by (simp add: Let_def add.commute)
  qed
qed

lemma loadLoop_all:
  assumes "ca_storeIndex c = of_nat k" "k + n < 2 ^ 32"
    and "\<And>i. k < i \<Longrightarrow> i \<le> k + n \<Longrightarrow> slot_has (ca_f c) (i mod NumBlocks) (x i) \<and> (\<forall>b. x i = Some b \<longrightarrow> storable C b)"
  shows "loadLoop (stored_share detKey getKey C now) add n c s =
    Inr (c\<lparr>ca_storeIndex := of_nat (k + n)\<rparr>, fold add (map (reloaded detKey getKey now) (List.map_filter x [k + 1..<k + n + 1])) s)"
  using assms
proof (induction n arbitrary: k c s)
  case (Suc n)
  have slot: "slot_has (ca_f c) ((k + 1) mod NumBlocks) (x (k + 1)) \<and> (\<forall>b. x (k + 1) = Some b \<longrightarrow> storable C b)" by (rule Suc.prems(3)) simp_all
  let ?c = "c\<lparr>ca_storeIndex := of_nat (k + 1)\<rparr>"
  have IH: "loadLoop (stored_share detKey getKey C now) add n ?c s' =
    Inr (?c\<lparr>ca_storeIndex := of_nat (k + 1 + n)\<rparr>, fold add (map (reloaded detKey getKey now) (List.map_filter x [k + 1 + 1..<k + 1 + n + 1])) s')" for s'
  proof (rule Suc.IH)
    show "slot_has (ca_f ?c) (i mod NumBlocks) (x i) \<and> (\<forall>b. x i = Some b \<longrightarrow> storable C b)" if "k + 1 < i" "i \<le> k + 1 + n" for i using Suc.prems(3) [of i] that by simp
  qed (use Suc.prems(2) in simp_all)
  have u: "[k + 1..<k + Suc n + 1] = (k + 1) # [k + 1 + 1..<k + 1 + n + 1]" by (simp add: upt_conv_Cons)
  have l: "loadLoop (stored_share detKey getKey C now) add (Suc n) c s =
    loadLoop (stored_share detKey getKey C now) add n ?c (case x (k + 1) of None \<Rightarrow> s | Some b \<Rightarrow> add (reloaded detKey getKey now b) s)"
    by (rule loadLoop_slot) (use Suc.prems slot in auto)
  show ?case unfolding l IH u by (cases "x (k + 1)") (simp_all add: List.map_filter_simps ac_simps del: upt_Suc)
qed (simp add: List.map_filter_simps)

text \<open>A damaged length near \<open>2^32\<close> passes the test, which wraps, and slicing the buffer panics.\<close>

lemma damaged_length_panics:
  assumes "ReadAt 4 (slotOffset (ca_storeIndex c + 1)) (ca_f c) = le_bytes 4 (n :: u32)" "n \<ge> 0xFFFFFFFC"
  shows "loadLoop P add (Suc k) c s = Inl (Panic ''slice bounds out of range'')"
proof -
  have n: "unat n \<ge> 2 ^ 32 - 4" using assms(2) by (simp add: word_le_nat_alt)
  have "unat (n + 4) = (unat n + 4) mod 2 ^ 32" by (simp add: unat_word_ariths)
  moreover have "unat n < 2 ^ 32" using unsigned_less [of n] by simp
  moreover from this have "(unat n + 4) mod 2 ^ 32 = unat n + 4 - 2 ^ 32" using n by (subst le_mod_geq) (simp_all add: mod_less)
  ultimately have "unat (n + 4) < 4" by linarith
  then have "\<not> (of_nat blockSize :: u32) < n + 4" by (simp add: word_less_nat_alt blockSize_def)
  moreover have "blockSize < unat n" using n by (simp add: blockSize_def)
  ultimately show ?thesis using assms(1) le_word_u32 [of n] by (simp add: Let_def)
qed

section \<open>A restart\<close>

text \<open>Opening the file again overwrites its last byte, which only a share that fills the last slot uses.\<close>

lemma slot_reopened:
  assumes "slot_has f j x" "\<And>b. x = Some b \<Longrightarrow> storable C b \<and> (j = NumBlocks - 1 \<longrightarrow> \<not> fills_slot b)" "j < NumBlocks"
  shows "slot_has (ca_f (NewCache f)) j x"
proof -
  have "j * blockSize + blockSize \<le> NumBlocks * blockSize" using assms(3) mult_le_mono1 [of "j + 1" NumBlocks blockSize] by simp
  then have keep: "ReadAt n (j * blockSize + k) (ca_f (NewCache f)) = ReadAt n (j * blockSize + k) f"
    if "k + n \<le> blockSize" "j = NumBlocks - 1 \<longrightarrow> k + n < blockSize" for n k
  proof -
    have "j * blockSize + k + n \<le> blockSize * NumBlocks - 1"
    proof (cases "j = NumBlocks - 1")
      case True
      then have "k + n < blockSize" using that(2) by simp
      then show ?thesis using \<open>j * blockSize + blockSize \<le> NumBlocks * blockSize\<close> by (simp add: mult.commute)
    next
      case False
      then have "(j + 2) * blockSize \<le> NumBlocks * blockSize" using assms(3) by (intro mult_le_mono1) linarith
      then have "j * blockSize + 2 * blockSize \<le> NumBlocks * blockSize" by (simp only: add_mult_distrib)
      then show ?thesis using that(1) by (simp add: mult.commute blockSize_def)
    qed
    then show ?thesis by (simp add: NewCache_def ReadAt_other)
  qed
  show ?thesis
  proof (cases x)
    case None
    then show ?thesis using assms(1) keep [of 0 4] by (simp add: slot_has_def blockSize_def)
  next
    case (Some b)
    then have "length (poolblock_enc False False b) + 4 \<le> blockSize" "j = NumBlocks - 1 \<longrightarrow> length (poolblock_enc False False b) + 4 < blockSize"
      using assms(2) by (fastforce simp: storable_def fills_slot_def)+
    then show ?thesis using Some assms(1) keep [of 0 4] keep [of 4 "length (poolblock_enc False False b)"] by (simp add: slot_has_def blockSize_def)
  qed
qed

text \<open>What loading after a restart finds: the last shares that were stored, in the order of their slots.\<close>

definition survivors :: "PoolBlock list \<Rightarrow> PoolBlock list" where
  "survivors bs = (if length bs \<le> NumBlocks then bs else rotate (NumBlocks - length bs mod NumBlocks) (drop (length bs - NumBlocks) bs))"

text \<open>The share in slot \<open>i\<close>, for \<open>i\<close> from 1 on.\<close>

definition in_slot :: "PoolBlock list \<Rightarrow> nat \<Rightarrow> PoolBlock option" where
  "in_slot bs i = (if i \<le> length (survivors bs) then Some (survivors bs ! (i - 1)) else None)"

lemma mset_rotated: "mset (rotate n xs) = mset xs"
  unfolding rotate_drop_take mset_append by (metis append_take_drop_id mset_append union_commute)

lemma survivors_length: "length (survivors bs) = min (length bs) NumBlocks"
  by (simp add: survivors_def)

lemma in_slot_all: "List.map_filter (in_slot bs) [1..<NumBlocks + 1] = survivors bs"
proof -
  let ?m = "length (survivors bs)"
  have "[1..<NumBlocks + 1] = [1..<?m + 1] @ [?m + 1..<NumBlocks + 1]" 
    using upt_add_eq_append [of 1 "?m + 1" "NumBlocks - ?m"] by (simp add: survivors_length del: upt_Suc)
  moreover have "List.map_filter (in_slot bs) [?m + 1..<NumBlocks + 1] = []" by (auto simp: List.map_filter_def in_slot_def filter_empty_conv)
  moreover have "List.map_filter (in_slot bs) [1..<?m + 1] = map (\<lambda>i. survivors bs ! (i - 1)) [1..<?m + 1]"
    unfolding List.map_filter_def by (subst filter_True) (auto simp: in_slot_def)
  moreover have "map (\<lambda>i. survivors bs ! (i - 1)) [1..<?m + 1] = survivors bs"
    by (rule nth_equalityI) (simp_all add: nth_upt del: upt_Suc)
  ultimately show ?thesis by (simp add: List.map_filter_def del: upt_Suc)
qed

lemma shelved_slot:
  assumes "shelved f bs" "1 \<le> i" "i \<le> NumBlocks"
  shows "slot_has f (i mod NumBlocks) (in_slot bs i) \<and>
    (\<forall>b. in_slot bs i = Some b \<longrightarrow> (\<exists>m < length bs. b = bs ! m \<and> (m + 1) mod NumBlocks = i mod NumBlocks))"
proof (cases "length bs \<le> NumBlocks")
  case True
  show ?thesis
  proof (cases "i \<le> length bs")
    case le: True
    have "slot_has f ((i + NumBlocks) mod NumBlocks) (Some (bs ! (i + NumBlocks - NumBlocks - 1)))"
      using assms(1) [unfolded shelved_def, rule_format, of "i + NumBlocks"] assms(2,3) le True by simp
    moreover have "i - 1 < length bs" "i - 1 + 1 = i" using le assms(2) by simp_all
    ultimately show ?thesis using True le by (auto simp: in_slot_def survivors_def intro!: exI [of _ "i - 1"])
  next
    case False
    then have "slot_has f (i mod NumBlocks) (if i \<le> NumBlocks then None else Some (bs ! (i - NumBlocks - 1)))" 
      using assms(1) [unfolded shelved_def, rule_format, of i] assms(2,3) by simp
    then show ?thesis using assms True False by (simp add: in_slot_def survivors_def)
  qed
next
  case False
  let ?k = "length bs"
  define t where "t = (NumBlocks - ?k mod NumBlocks + (i - 1)) mod NumBlocks"
  have N: "0 < NumBlocks" by (simp add: NumBlocks_def)
  have t: "t < NumBlocks" by (simp add: t_def N)
  have "(?k + 1 + t) mod NumBlocks = (?k + 1 + (NumBlocks - ?k mod NumBlocks + (i - 1))) mod NumBlocks" by (simp only: t_def mod_add_right_eq)
  also have "?k + 1 + (NumBlocks - ?k mod NumBlocks + (i - 1)) = i + (?k - ?k mod NumBlocks) + NumBlocks"
    using assms(2) mod_less_divisor [OF N, of ?k] mod_less_eq_dividend [of ?k NumBlocks] by linarith
  also have "(i + (?k - ?k mod NumBlocks) + NumBlocks) mod NumBlocks = i mod NumBlocks" by (simp add: minus_mod_eq_mult_div)
  finally have slot: "(?k + 1 + t) mod NumBlocks = i mod NumBlocks" .
  have "slot_has f ((?k + 1 + t) mod NumBlocks) (Some (bs ! (?k + 1 + t - NumBlocks - 1)))"
    using assms(1) [unfolded shelved_def, rule_format, of "?k + 1 + t"] False t by simp
  moreover have "survivors bs ! (i - 1) = bs ! (?k + 1 + t - NumBlocks - 1)"
  proof -
    let ?D = "drop (?k - NumBlocks) bs"
    have D: "length ?D = NumBlocks" "i - 1 < length ?D" using False assms by simp_all
    have "survivors bs ! (i - 1) = rotate (NumBlocks - ?k mod NumBlocks) ?D ! (i - 1)" using False by (simp add: survivors_def)
    also have "\<dots> = ?D ! t" unfolding nth_rotate [OF D(2)] t_def D(1) ..
    finally show ?thesis using False t by (simp add: add.commute)
  qed
  moreover have "?k + t - NumBlocks < ?k" "?k + t - NumBlocks + 1 + NumBlocks = ?k + 1 + t" using False t by simp_all
  then have "?k + t - NumBlocks < ?k \<and> (?k + t - NumBlocks + 1) mod NumBlocks = i mod NumBlocks" using slot by (metis mod_add_self2)
  ultimately show ?thesis using slot assms False by (auto simp: in_slot_def survivors_length intro!: exI [of _ "?k + t - NumBlocks"])
qed

text \<open>C23: Stored shares survive a restart.  Store fewer than \<open>2^32\<close> well-formed shares in a new file, each of them at most as long as a slot has room for, and none that goes to the last slot of the file so long that it fills
it (its last byte is overwritten when the file is opened).  Then opening the file again and loading hands exactly the
last 4608 of them to the loader, or all when there are fewer, each with version and keys recomputed, and nothing else; up to 4608 shares come back in the order in which they were stored.\<close>

theorem stored_shares_survive:
  assumes "\<forall>b \<in> set bs. storable C b" and "length bs < 2 ^ 32"
    and "\<forall>m < length bs. (m + 1) mod NumBlocks = NumBlocks - 1 \<longrightarrow> \<not> fills_slot (bs ! m)"
  shows "\<exists>c c'. storeAll bs (NewCache (\<lambda>_. 0)) = Inr c \<and>
    LoadAll detKey getKey C now add (NewCache (ca_f c)) s = Inr (c', fold add (map (reloaded detKey getKey now) (survivors bs)) s) \<and>
    (length bs \<le> NumBlocks \<longrightarrow> survivors bs = bs) \<and> mset (survivors bs) = mset (drop (length bs - NumBlocks) bs)"
proof -
  obtain c where c: "storeAll bs (NewCache (\<lambda>_. 0)) = Inr c" and sh: "shelved (ca_f c) bs" using storeAll_shelved [OF assms(1,2)] by blast
  let ?c = "(NewCache (ca_f c))\<lparr>ca_loadingStarted := True, ca_loadingInProgress := True\<rparr>"
  have sub: "set (survivors bs) \<subseteq> set bs" by (auto simp: survivors_def dest: in_set_dropD)
  have fits: "storable C b" if "in_slot bs i = Some b" "1 \<le> i" for i b
  proof -
    have "b \<in> set (survivors bs)" using that by (auto simp: in_slot_def split: if_splits)
    then show ?thesis using sub assms(1) by blast
  qed
  have "loadLoop (stored_share detKey getKey C now) add NumBlocks ?c s =
    Inr (?c\<lparr>ca_storeIndex := of_nat (0 + NumBlocks)\<rparr>, fold add (map (reloaded detKey getKey now) (List.map_filter (in_slot bs) [0 + 1..<0 + NumBlocks + 1])) s)"
  proof (rule loadLoop_all)
    fix i assume i: "0 < i" "i \<le> 0 + NumBlocks"
    have slot: "slot_has (ca_f c) (i mod NumBlocks) (in_slot bs i)"
      "\<And>b. in_slot bs i = Some b \<Longrightarrow> \<exists>m < length bs. b = bs ! m \<and> (m + 1) mod NumBlocks = i mod NumBlocks"
      using shelved_slot [OF sh, of i] i by simp_all
    have "storable C b \<and> (i mod NumBlocks = NumBlocks - 1 \<longrightarrow> \<not> fills_slot b)" if b: "in_slot bs i = Some b" for b
      using fits [OF b] slot(2) [OF b] assms(3) i by auto
    then have "slot_has (ca_f (NewCache (ca_f c))) (i mod NumBlocks) (in_slot bs i)" by (rule slot_reopened [OF slot(1)]) (simp_all add: NumBlocks_def)
    then show "slot_has (ca_f ?c) (i mod NumBlocks) (in_slot bs i) \<and> (\<forall>b. in_slot bs i = Some b \<longrightarrow> storable C b)" using fits [of i] i by simp
  qed (simp_all add: NewCache_def NumBlocks_def)
  then have "LoadAll detKey getKey C now add (NewCache (ca_f c)) s =
      Inr (?c\<lparr>ca_storeIndex := of_nat NumBlocks, ca_loadingInProgress := False\<rparr>, fold add (map (reloaded detKey getKey now) (survivors bs)) s)"
    using in_slot_all [of bs] by (simp add: LoadAll_def NewCache_def del: upt_Suc)
  moreover have "mset (survivors bs) = mset (drop (length bs - NumBlocks) bs)" by (simp add: survivors_def mset_rotated)
  ultimately show ?thesis using c by (auto simp: survivors_def)
qed

theorem stored_shares_survive_witness:
  "\<exists>c c'. storeAll [ext_share, ext_share] (NewCache (\<lambda>_. 0)) = Inr c \<and>
    LoadAll (\<lambda>_ _. 1) (\<lambda>_ _. 2) ConsensusDefault 7 (#) (NewCache (ca_f c)) [] =
      Inr (c', [reloaded (\<lambda>_ _. 1) (\<lambda>_ _. 2) 7 ext_share, reloaded (\<lambda>_ _. 1) (\<lambda>_ _. 2) 7 ext_share])"
proof -
  have "length (poolblock_enc False False ext_share) \<le> 1000" by (rule ext_share_size)
  then have "storable ConsensusDefault ext_share" using ext_share_fits(1) by (simp add: storable_def blockSize_def)
  then have "\<forall>b \<in> set [ext_share, ext_share]. storable ConsensusDefault b" "length [ext_share, ext_share] < 2 ^ 32"
    "\<forall>m < length [ext_share, ext_share]. (m + 1) mod NumBlocks = NumBlocks - 1 \<longrightarrow> \<not> fills_slot ([ext_share, ext_share] ! m)"
    by (simp_all add: NumBlocks_def less_Suc_eq)
  from stored_shares_survive [OF this, of "\<lambda>_ _. 1" "\<lambda>_ _. 2" 7 "(#)" "[]"] obtain c c' where c: "storeAll [ext_share, ext_share] (NewCache (\<lambda>_. 0)) = Inr c"
    and l: "LoadAll (\<lambda>_ _. 1) (\<lambda>_ _. 2) ConsensusDefault 7 (#) (NewCache (ca_f c)) [] = Inr (c', fold (#) (map (reloaded (\<lambda>_ _. 1) (\<lambda>_ _. 2) 7) (survivors [ext_share, ext_share])) [])"
    by blast
  have "survivors [ext_share, ext_share] = [ext_share, ext_share]" by (simp add: survivors_def NumBlocks_def)
  then show ?thesis using c l by (intro exI [of _ c] exI [of _ c']) simp
qed

end
