(* ===== verification/Randomx.thy ===== *)
theory Randomx
  imports MainBlock
begin

unbundle bit_operations_syntax

text \<open>
  The RandomX hashers of monero/randomx: the collection of states over the bindings of the C library (randomx_cgo.go), the single state over the Go library
  (randomx_nocgo.go), and \<^verbatim>\<open>ConsensusHash\<close>.

  The libraries are parameters (\<open>rx_pkg\<close>, \<open>build\<close>, \<open>calc\<close>, \<open>memory\<close>); what the code relies on is that a state that was initialised for a key computes the RandomX hash for
  that key (\<open>rx_ok\<close>).  Both hashers implement the interface \<^verbatim>\<open>Hasher\<close>, the locale \<open>hasher\<close>.  Calls are made one after the other, as the locks have it.
\<close>

section \<open>The interface\<close>

text \<open>A sequence of requests, each with key and input.\<close>

fun hashAll :: "(byte list \<Rightarrow> byte list \<Rightarrow> 's \<Rightarrow> hash result \<times> 's) \<Rightarrow> (byte list \<times> byte list) list \<Rightarrow> 's \<Rightarrow> hash result list \<times> 's" where
  "hashAll f [] s = ([], s)"
| "hashAll f ((key, input) # reqs) s = (case f key input s of (h, s) \<Rightarrow> case hashAll f reqs s of (hs, s) \<Rightarrow> (h # hs, s))"

locale hasher =
  fixes f :: "byte list \<Rightarrow> byte list \<Rightarrow> 's \<Rightarrow> hash result \<times> 's" and inv :: "'s \<Rightarrow> bool" and RX :: "byte list \<Rightarrow> byte list \<Rightarrow> hash"
  assumes answer: "inv s \<Longrightarrow> fst (f key input s) = Inr (RX key input)"
    and keeps: "inv s \<Longrightarrow> inv (snd (f key input s))"
begin

lemma answers: "inv s \<Longrightarrow> fst (hashAll f reqs s) = map (\<lambda>(key, input). Inr (RX key input)) reqs"
proof (induction reqs arbitrary: s)
  case (Cons r reqs)
  obtain key input where r: "r = (key, input)" by fastforce
  obtain h s' where f: "f key input s = (h, s')" by fastforce
  then have "h = Inr (RX key input)" "inv s'" using answer [OF Cons.prems, of key input] keeps [OF Cons.prems, of key input] by simp_all
  then show ?case using Cons.IH [of s'] f r by (cases "hashAll f reqs s'") simp
qed simp

end

section \<open>The collection over the C library\<close>

datatype Flag = FlagLargePages | FlagFullMemory | FlagSecure

record ('d, 'v) rx_pkg =
  rx_GetFlags :: u32
  rx_flag :: "Flag \<Rightarrow> u32"
  rx_NewRxDataset :: "u32 \<Rightarrow> 'd result"
  rx_GoInit :: "byte list \<Rightarrow> 'd \<Rightarrow> bool \<times> 'd"
  rx_NewRxVM :: "'d \<Rightarrow> u32 \<Rightarrow> 'v result"
  rx_CalcHash :: "'v option \<Rightarrow> 'd \<Rightarrow> byte list \<Rightarrow> hash"

record ('d, 'v) hasherState =
  hs_dataset :: 'd
  hs_vm :: "'v option"
  hs_flags :: u32
  hs_key :: "byte list"

text \<open>Places of the cache are nil while the collection is set up.\<close>

record ('d, 'v) hasherCollection =
  hc_index :: nat
  hc_flags :: "Flag list"
  hc_cache :: "('d, 'v) hasherState option list"

definition newRandomXState :: "('d, 'v) rx_pkg \<Rightarrow> Flag list \<Rightarrow> ('d, 'v) hasherState result" where
  "newRandomXState pkg flags =
    (let applyFlags = fold (\<lambda>f a. a OR rx_flag pkg f) flags (rx_GetFlags pkg) in
     bindR (rx_NewRxDataset pkg applyFlags) (\<lambda>d. Inr \<lparr>hs_dataset = d, hs_vm = None, hs_flags = applyFlags, hs_key = []\<rparr>))"

text \<open>The key is set before the data set is initialised, and stays when that fails.\<close>

definition State_Init :: "('d, 'v) rx_pkg \<Rightarrow> byte list \<Rightarrow> ('d, 'v) hasherState \<Rightarrow> error option \<times> ('d, 'v) hasherState" where
  "State_Init pkg key h =
    (let h = h\<lparr>hs_key := key\<rparr>; (ok, d) = rx_GoInit pkg key (hs_dataset h); h = h\<lparr>hs_dataset := d\<rparr> in
     if \<not> ok then (Some (Err ''could not initialize dataset''), h)
     else case rx_NewRxVM pkg d (hs_flags h) of
       Inl e \<Rightarrow> (Some e, h\<lparr>hs_vm := None\<rparr>)
     | Inr vm \<Rightarrow> (None, h\<lparr>hs_vm := Some vm\<rparr>))"

definition State_Hash :: "('d, 'v) rx_pkg \<Rightarrow> byte list \<Rightarrow> ('d, 'v) hasherState \<Rightarrow> hash" where
  "State_Hash pkg input h = rx_CalcHash pkg (hs_vm h) (hs_dataset h) input"

text \<open>The first state with the key; a place that is nil panics.\<close>

fun findState :: "byte list \<Rightarrow> ('d, 'v) hasherState option list \<Rightarrow> ('d, 'v) hasherState option result" where
  "findState key [] = Inr None"
| "findState key (None # cs) = Inl (Panic ''nil pointer dereference'')"
| "findState key (Some c # cs) = (if hs_key c \<noteq> [] \<and> hs_key c = key then Inr (Some c) else findState key cs)"

definition hashSlow :: "('d, 'v) rx_pkg \<Rightarrow> byte list \<Rightarrow> byte list \<Rightarrow> ('d, 'v) hasherCollection \<Rightarrow> hash result \<times> ('d, 'v) hasherCollection" where
  "hashSlow pkg key input h =
    (let index = hc_index h in
     if hc_cache h = [] then (Inl (Panic ''integer divide by zero''), h)
     else
       let h = h\<lparr>hc_index := (index + 1) mod length (hc_cache h)\<rparr> in
       if index \<ge> length (hc_cache h) then (Inl (Panic ''index out of range''), h)
       else case hc_cache h ! index of
         None \<Rightarrow> (Inl (Panic ''nil pointer dereference''), h)
       | Some c \<Rightarrow>
           (case State_Init pkg key c of
              (err, c) \<Rightarrow>
                let h = h\<lparr>hc_cache := (hc_cache h)[index := Some c]\<rparr> in
                (case err of Some e \<Rightarrow> (Inl e, h) | None \<Rightarrow> (Inr (State_Hash pkg input c), h))))"

definition Collection_Hash :: "('d, 'v) rx_pkg \<Rightarrow> byte list \<Rightarrow> byte list \<Rightarrow> ('d, 'v) hasherCollection \<Rightarrow> hash result \<times> ('d, 'v) hasherCollection" where
  "Collection_Hash pkg key input h =
    (case findState key (hc_cache h) of
       Inl e \<Rightarrow> (Inl e, h)
     | Inr (Some c) \<Rightarrow> if State_Hash pkg input c \<noteq> ZeroHash then (Inr (State_Hash pkg input c), h) else hashSlow pkg key input h
     | Inr None \<Rightarrow> hashSlow pkg key input h)"

text \<open>New states for the first places; the places after an error stay nil.\<close>

fun newStates :: "('d, 'v) rx_pkg \<Rightarrow> Flag list \<Rightarrow> nat \<Rightarrow> error option \<times> ('d, 'v) hasherState option list" where
  "newStates pkg flags 0 = (None, [])"
| "newStates pkg flags (Suc n) =
    (case newRandomXState pkg flags of
       Inl e \<Rightarrow> (Some e, replicate (Suc n) None)
     | Inr c \<Rightarrow> (case newStates pkg flags n of (err, cs) \<Rightarrow> (err, Some c # cs)))"

definition initStates :: "('d, 'v) rx_pkg \<Rightarrow> nat \<Rightarrow> ('d, 'v) hasherCollection \<Rightarrow> error option \<times> ('d, 'v) hasherCollection" where
  "initStates pkg n h = (case newStates pkg (hc_flags h) n of (err, cs) \<Rightarrow> (err, h\<lparr>hc_cache := cs\<rparr>))"

definition OptionFlags :: "('d, 'v) rx_pkg \<Rightarrow> Flag list \<Rightarrow> ('d, 'v) hasherCollection \<Rightarrow> error option \<times> ('d, 'v) hasherCollection" where
  "OptionFlags pkg flags h = (if hc_flags h \<noteq> flags then initStates pkg (length (hc_cache h)) (h\<lparr>hc_flags := flags\<rparr>) else (None, h))"

definition OptionNumberOfCachedStates :: "('d, 'v) rx_pkg \<Rightarrow> nat \<Rightarrow> ('d, 'v) hasherCollection \<Rightarrow> error option \<times> ('d, 'v) hasherCollection" where
  "OptionNumberOfCachedStates pkg n h = (if length (hc_cache h) \<noteq> n then initStates pkg n h else (None, h))"

definition NewRandomX :: "('d, 'v) rx_pkg \<Rightarrow> nat \<Rightarrow> Flag list \<Rightarrow> ('d, 'v) hasherCollection result" where
  "NewRandomX pkg n flags =
    (case initStates pkg n \<lparr>hc_index = 0, hc_flags = flags, hc_cache = []\<rparr> of (Some e, h) \<Rightarrow> Inl e | (None, h) \<Rightarrow> Inr h)"

section \<open>The hasher over the Go library\<close>

text \<open>\<open>build key\<close> is the machine over a cache initialised for the key with its eight programs.\<close>

record 'v goHasher =
  gh_key :: "byte list option"
  gh_vm :: "'v option"

definition newGoHasher :: "'v goHasher" where
  "newGoHasher = \<lparr>gh_key = None, gh_vm = None\<rparr>"

definition goHasher_Hash ::
    "(byte list \<Rightarrow> 'v) \<Rightarrow> ('v option \<Rightarrow> byte list \<Rightarrow> hash) \<Rightarrow> byte list \<Rightarrow> byte list \<Rightarrow> 'v goHasher \<Rightarrow> hash result \<times> 'v goHasher" where
  "goHasher_Hash build calc key input h =
    (let h = (if gh_key h \<noteq> Some key then h\<lparr>gh_key := Some key, gh_vm := Some (build key)\<rparr> else h) in (Inr (calc (gh_vm h) input), h))"

section \<open>The hash of consensus parameters\<close>

text \<open>\<^verbatim>\<open>subtle.XORBytes\<close> into its first argument.\<close>

definition XORBytes :: "byte list \<Rightarrow> byte list \<Rightarrow> byte list" where
  "XORBytes x y = map2 (XOR) x y @ drop (length y) x"

definition chunkSize :: nat where "chunkSize = 1009 * 16"
definition argonSize :: nat where "argonSize = 262144 * 1024"

function xorLoop :: "nat \<Rightarrow> byte list \<Rightarrow> byte list \<Rightarrow> byte list" where
  "xorLoop i dst cachePtr =
    (if i < argonSize then
       let stride = min chunkSize (length cachePtr) in xorLoop (i + chunkSize) (XORBytes dst (take stride cachePtr)) (drop stride cachePtr)
     else dst)"
  by pat_completeness auto
termination by (relation "measure (\<lambda>(i, _). argonSize - i)") (auto simp: chunkSize_def)

declare xorLoop.simps [simp del]

definition ConsensusHash :: "(byte list \<Rightarrow> hash) \<Rightarrow> (byte list \<Rightarrow> byte list option) \<Rightarrow> byte list \<Rightarrow> hash" where
  "ConsensusHash K memory buf =
    (case memory buf of None \<Rightarrow> ZeroHash | Some scratchpad \<Rightarrow> K (xorLoop chunkSize (take chunkSize scratchpad) (drop chunkSize scratchpad)))"

section \<open>Answers\<close>

text \<open>What the code relies on: initialising succeeds and gives a machine that computes the RandomX hash for the key.\<close>

definition rx_ok :: "('d, 'v) rx_pkg \<Rightarrow> (byte list \<Rightarrow> byte list \<Rightarrow> hash) \<Rightarrow> bool" where
  "rx_ok pkg RX \<longleftrightarrow> (\<forall>flags. \<exists>d. rx_NewRxDataset pkg flags = Inr d) \<and>
    (\<forall>key d. \<exists>d'. rx_GoInit pkg key d = (True, d') \<and>
      (\<forall>flags. \<exists>vm. rx_NewRxVM pkg d' flags = Inr vm \<and> (\<forall>input. rx_CalcHash pkg (Some vm) d' input = RX key input)))"

text \<open>Every state with a key is ready for that key.\<close>

definition ready :: "('d, 'v) rx_pkg \<Rightarrow> (byte list \<Rightarrow> byte list \<Rightarrow> hash) \<Rightarrow> ('d, 'v) hasherState \<Rightarrow> bool" where
  "ready pkg RX c \<longleftrightarrow> hs_key c = [] \<or> (\<forall>input. State_Hash pkg input c = RX (hs_key c) input)"

definition collection_inv :: "('d, 'v) rx_pkg \<Rightarrow> (byte list \<Rightarrow> byte list \<Rightarrow> hash) \<Rightarrow> ('d, 'v) hasherCollection \<Rightarrow> bool" where
  "collection_inv pkg RX h \<longleftrightarrow> rx_ok pkg RX \<and> hc_index h < length (hc_cache h) \<and>
    (\<forall>x \<in> set (hc_cache h). \<exists>c. x = Some c \<and> ready pkg RX c)"

lemma State_Init_ok:
  assumes "rx_ok pkg RX"
  obtains c' where "State_Init pkg key c = (None, c')" "hs_key c' = key" "\<And>input. State_Hash pkg input c' = RX key input"
proof -
  obtain d' vm where "rx_GoInit pkg key (hs_dataset c) = (True, d')" "rx_NewRxVM pkg d' (hs_flags c) = Inr vm" "\<forall>input. rx_CalcHash pkg (Some vm) d' input = RX key input"
    using assms unfolding rx_ok_def by blast
  then show thesis using that by (simp add: State_Init_def State_Hash_def Let_def)
qed

lemma findState_ready:
  "\<forall>x \<in> set cs. \<exists>c. x = Some c \<and> ready pkg RX c \<Longrightarrow>
   findState key cs = Inr None \<or> (\<exists>c. findState key cs = Inr (Some c) \<and> (\<forall>input. State_Hash pkg input c = RX key input))"
  by (induction cs rule: findState.induct [of _ key]) (auto simp: ready_def)

lemma hashSlow_ok:
  assumes "collection_inv pkg RX h"
  shows "fst (hashSlow pkg key input h) = Inr (RX key input) \<and> collection_inv pkg RX (snd (hashSlow pkg key input h))"
proof -
  have i: "hc_index h < length (hc_cache h)" and ok: "rx_ok pkg RX" using assms by (simp_all add: collection_inv_def)
  then obtain c where c: "hc_cache h ! hc_index h = Some c" using assms nth_mem [OF i] unfolding collection_inv_def by blast
  obtain c' where c': "State_Init pkg key c = (None, c')" "hs_key c' = key" "\<And>input. State_Hash pkg input c' = RX key input" 
    by (rule State_Init_ok [OF ok, where key = key and c = c]) blast
  let ?h = "h\<lparr>hc_index := (hc_index h + 1) mod length (hc_cache h), hc_cache := (hc_cache h)[hc_index h := Some c']\<rparr>"
  have "hc_cache h \<noteq> []" using i by auto
  then have "hashSlow pkg key input h = (Inr (RX key input), ?h)" using i c c' by (simp add: hashSlow_def Let_def)
  moreover have "ready pkg RX c'" using c' by (simp add: ready_def)
  then have "\<forall>x \<in> set ((hc_cache h)[hc_index h := Some c']). \<exists>c. x = Some c \<and> ready pkg RX c"
    using assms set_update_subset_insert [of "hc_cache h" "hc_index h" "Some c'"] by (auto simp: collection_inv_def)
  then have "collection_inv pkg RX ?h" using ok \<open>hc_cache h \<noteq> []\<close> by (simp add: collection_inv_def)
  ultimately show ?thesis by simp
qed

lemma Collection_Hash_ok:
  assumes "collection_inv pkg RX h"
  shows "fst (Collection_Hash pkg key input h) = Inr (RX key input) \<and> collection_inv pkg RX (snd (Collection_Hash pkg key input h))"
proof -
  have "\<forall>x \<in> set (hc_cache h). \<exists>c. x = Some c \<and> ready pkg RX c" using assms by (simp add: collection_inv_def)
  from findState_ready [OF this, of key] show ?thesis using hashSlow_ok [OF assms, of key input] assms by (auto simp: Collection_Hash_def)
qed

interpretation collection: hasher "Collection_Hash pkg" "collection_inv pkg RX" RX for pkg RX
  by unfold_locales (simp_all add: Collection_Hash_ok)

definition go_inv :: "(byte list \<Rightarrow> 'v) \<Rightarrow> 'v goHasher \<Rightarrow> bool" where
  "go_inv build h \<longleftrightarrow> (\<forall>key. gh_key h = Some key \<longrightarrow> gh_vm h = Some (build key))"

interpretation go: hasher "goHasher_Hash build calc" "go_inv build" "\<lambda>key. calc (Some (build key))" for build calc
  by unfold_locales (auto simp: goHasher_Hash_def go_inv_def Let_def)

lemma newStates_ok: "rx_ok pkg RX \<Longrightarrow> \<exists>cs. newStates pkg flags n = (None, cs) \<and> length cs = n \<and> (\<forall>x \<in> set cs. \<exists>c. x = Some c \<and> ready pkg RX c)"
proof (induction n)
  case (Suc n)
  then obtain cs where cs: "newStates pkg flags n = (None, cs)" "length cs = n" "\<forall>x \<in> set cs. \<exists>c. x = Some c \<and> ready pkg RX c" by blast
  obtain d where "rx_NewRxDataset pkg (fold (\<lambda>f a. a OR rx_flag pkg f) flags (rx_GetFlags pkg)) = Inr d" using Suc.prems unfolding rx_ok_def by blast
  then obtain c where "newRandomXState pkg flags = Inr c" "hs_key c = []" by (simp add: newRandomXState_def Let_def)
  then show ?case using cs by (simp add: ready_def)
qed simp

lemma NewRandomX_ok: "rx_ok pkg RX \<Longrightarrow> 0 < n \<Longrightarrow> \<exists>h. NewRandomX pkg n flags = Inr h \<and> collection_inv pkg RX h \<and> length (hc_cache h) = n"
  using newStates_ok [of pkg RX flags n] by (auto simp: NewRandomX_def initStates_def collection_inv_def)

text \<open>C40: RandomX hashers.  Whatever positive number of states it keeps and whatever keys were asked for before, a new collection over a library that works answers every request of a sequence with the RandomX hash of
key and input, and so does the hasher over the Go library.\<close>

theorem RandomX_transparent:
  assumes "rx_ok pkg RX" and "0 < n" and "\<And>key input. calc (Some (build key)) input = RX key input"
  shows "\<exists>h. NewRandomX pkg n flags = Inr h \<and> fst (hashAll (Collection_Hash pkg) reqs h) = map (\<lambda>(key, input). Inr (RX key input)) reqs \<and>
    fst (hashAll (goHasher_Hash build calc) reqs newGoHasher) = map (\<lambda>(key, input). Inr (RX key input)) reqs"
proof -
  obtain h where h: "NewRandomX pkg n flags = Inr h" "collection_inv pkg RX h" using NewRandomX_ok [OF assms(1,2)] by blast
  have "go_inv build newGoHasher" by (simp add: go_inv_def newGoHasher_def)
  then show ?thesis using h collection.answers [OF h(2), of reqs] go.answers [of build newGoHasher calc reqs] assms(3) by simp
qed

text \<open>The library of a machine that hashes key and input with a given function.\<close>

definition rx_ref :: "(byte list \<Rightarrow> byte list \<Rightarrow> hash) \<Rightarrow> (byte list, byte list) rx_pkg" where
  "rx_ref RX = \<lparr>rx_GetFlags = 0, rx_flag = (\<lambda>_. 1), rx_NewRxDataset = (\<lambda>_. Inr []), rx_GoInit = (\<lambda>key d. (True, key)), rx_NewRxVM = (\<lambda>d _. Inr d),
     rx_CalcHash = (\<lambda>vm d input. RX d input)\<rparr>"

lemma rx_ref_ok: "rx_ok (rx_ref RX) RX"
  by (simp add: rx_ok_def rx_ref_def)

theorem RandomX_transparent_witness:
  "\<exists>h. NewRandomX (rx_ref (\<lambda>key input. le_word key)) 2 [FlagSecure] = Inr h \<and>
    fst (hashAll (Collection_Hash (rx_ref (\<lambda>key input. le_word key))) [([1], []), ([2], []), ([3], []), ([1], [])] h) =
      [Inr (le_word [1]), Inr (le_word [2]), Inr (le_word [3]), Inr (le_word [1])]"
proof -
  obtain h where "NewRandomX (rx_ref (\<lambda>key input. le_word key)) 2 [FlagSecure] = Inr h"
    "fst (hashAll (Collection_Hash (rx_ref (\<lambda>key input. le_word key))) [([1], []), ([2], []), ([3], []), ([1], [])] h) =
      map (\<lambda>(key, input). Inr (le_word key)) [([1], [] :: byte list), ([2], []), ([3], []), ([1], [])]"
    using RandomX_transparent [OF rx_ref_ok, where n = 2 and calc = "\<lambda>vm _. le_word (the vm)" and build = id and flags = "[FlagSecure]" and
      reqs = "[([1], []), ([2], []), ([3], []), ([1], [])]" and RX = "\<lambda>key input. le_word key"] by auto
  then show ?thesis by simp
qed

section \<open>Failures\<close>

text \<open>An error of the code.  When initialising a state for a new key fails, the error is returned once; the state keeps the key, so the same request asked again is answered
without another attempt, by the machine of the key before over what is left of its data set.\<close>

lemma RandomX_failed_key:
  assumes "findState key (hc_cache h) = Inr None" and "key \<noteq> []" and "hc_index h < length (hc_cache h)" and "hc_cache h ! hc_index h = Some c"
    and "\<forall>x \<in> set (hc_cache h). x \<noteq> None"
    and "rx_GoInit pkg key (hs_dataset c) = (False, d)" and "rx_CalcHash pkg (hs_vm c) d input \<noteq> ZeroHash"
  shows "fst (Collection_Hash pkg key input h) = Inl (Err ''could not initialize dataset'') \<and>
    Collection_Hash pkg key input (snd (Collection_Hash pkg key input h)) =
      (Inr (rx_CalcHash pkg (hs_vm c) d input), snd (Collection_Hash pkg key input h))"
proof -
  let ?c = "c\<lparr>hs_key := key, hs_dataset := d\<rparr>"
  let ?cs = "(hc_cache h)[hc_index h := Some ?c]"
  have "hc_cache h \<noteq> []" using assms(3) by auto
  then have 1: "Collection_Hash pkg key input h = (Inl (Err ''could not initialize dataset''), h\<lparr>hc_index := (hc_index h + 1) mod length (hc_cache h), hc_cache := ?cs\<rparr>)"
    using assms(1,3,4,6) by (simp add: Collection_Hash_def hashSlow_def State_Init_def Let_def)
  have find: "findState key cs = Inr None \<Longrightarrow> \<forall>x \<in> set cs. x \<noteq> None \<Longrightarrow> k < length cs \<Longrightarrow> findState key (cs[k := Some ?c]) = Inr (Some ?c)" for cs k
  proof (induction cs arbitrary: k)
    case (Cons x cs)
    then obtain y where x: "x = Some y" by auto
    then show ?case using Cons assms(2) by (cases k) (auto split: if_splits)
  qed simp
  have "findState key ?cs = Inr (Some ?c)" by (rule find [OF assms(1,5,3)])
  then show ?thesis using 1 assms(7) by (simp add: Collection_Hash_def State_Hash_def)
qed

lemma newStates_unused: "newStates pkg flags n = (None, cs) \<Longrightarrow> length cs = n \<and> (key \<noteq> [] \<longrightarrow> findState key cs = Inr None)"
proof (induction n arbitrary: cs)
  case (Suc n)
  then obtain c cs' where c: "newRandomXState pkg flags = Inr c" and cs: "newStates pkg flags n = (None, cs')" "cs = Some c # cs'" by (auto split: sum.splits prod.splits)
  have "hs_key c = []" using c by (cases "rx_NewRxDataset pkg (fold (\<lambda>f a. a OR rx_flag pkg f) flags (rx_GetFlags pkg))") (auto simp: newRandomXState_def Let_def)
  then show ?case using Suc.IH [OF cs(1)] cs(2) by simp
qed simp

text \<open>After the number of states was lowered, the place to be used next can lie beyond the end, and then the next request makes the hasher panic.\<close>

lemma RandomX_fewer_states:
  assumes "0 < n" "n \<le> hc_index h" "length (hc_cache h) \<noteq> n" "OptionNumberOfCachedStates pkg n h = (None, h')" "key \<noteq> []"
  shows "fst (Collection_Hash pkg key input h') = Inl (Panic ''index out of range'')"
proof -
  obtain cs where cs: "newStates pkg (hc_flags h) n = (None, cs)" "h' = h\<lparr>hc_cache := cs\<rparr>"
    using assms(3,4) by (auto simp: OptionNumberOfCachedStates_def initStates_def split: prod.splits)
  then show ?thesis using newStates_unused [OF cs(1), of key] assms(1,2,5) by (auto simp: Collection_Hash_def hashSlow_def Let_def)
qed

section \<open>The folded memory\<close>

text \<open>All bytes of the memory at the places that are \<open>j\<close> modulo the chunk size.\<close>

definition column :: "byte list \<Rightarrow> nat \<Rightarrow> byte" where
  "column p j = foldr (XOR) (map ((!) p) (filter (\<lambda>k. k mod chunkSize = j) [0..<length p])) 0"

lemma foldr_xor: "foldr (XOR) xs (a :: byte) = foldr (XOR) xs 0 XOR a"
  by (induction xs) (simp_all add: xor.assoc)

lemma column_append:
  assumes "length p mod chunkSize = 0" "length c \<le> chunkSize" "j < chunkSize"
  shows "column (p @ c) j = column p j XOR (if j < length c then c ! j else 0)"
proof -
  have shift: "(t + length p) mod chunkSize = t" if "t < length c" for t using assms(1,2) that by (simp add: mod_add_eq [symmetric, of t])
  have up: "[0..<length (p @ c)] = [0..<length p] @ map (\<lambda>i. i + length p) [0..<length c]"
    using map_add_upt [of "length p" "length c"] upt_add_eq_append [of 0 "length p" "length c"] by (simp add: add.commute [of "length p"])
  have "filter (\<lambda>k. k mod chunkSize = j) (map (\<lambda>i. i + length p) [0..<length c]) = map (\<lambda>i. i + length p) (filter (\<lambda>t. t = j) [0..<length c])"
    by (simp add: filter_map comp_def cong: filter_cong) (rule filter_cong [OF refl], simp add: shift)
  moreover have one: "filter (\<lambda>t. t = j) [0..<n] = (if j < n then [j] else [])" for n by (induction n) auto
  ultimately have second: "filter (\<lambda>k. k mod chunkSize = j) (map (\<lambda>i. i + length p) [0..<length c]) = (if j < length c then [j + length p] else [])" by simp
  have same: "map ((!) (p @ c)) (filter (\<lambda>k. k mod chunkSize = j) [0..<length p]) = map ((!) p) (filter (\<lambda>k. k mod chunkSize = j) [0..<length p])"
    by (auto simp: nth_append)
  have "map ((!) (p @ c)) (filter (\<lambda>k. k mod chunkSize = j) [0..<length (p @ c)]) =
      map ((!) p) (filter (\<lambda>k. k mod chunkSize = j) [0..<length p]) @ (if j < length c then [c ! j] else [])"
    unfolding up filter_append map_append same second by (simp add: nth_append)
  then show ?thesis unfolding column_def by (simp only: foldr_append) (simp add: foldr_xor [of _ "c ! j"])
qed

lemma XORBytes_columns:
  assumes "length p mod chunkSize = 0" "length c \<le> chunkSize"
  shows "XORBytes (map (column p) [0..<chunkSize]) c = map (column (p @ c)) [0..<chunkSize]"
  by (rule nth_equalityI) (use assms in \<open>auto simp: XORBytes_def column_append nth_append\<close>)

lemma xorLoop_columns:
  assumes "length mem = argonSize" "i mod chunkSize = 0"
  shows "xorLoop i (map (column (take i mem)) [0..<chunkSize]) (drop i mem) = map (column mem) [0..<chunkSize]"
  using assms(2)
proof (induction "argonSize - i" arbitrary: i rule: less_induct)
  case less
  show ?case
  proof (cases "i < argonSize")
    case False
    then show ?thesis using assms(1) by (subst xorLoop.simps) simp
  next
    case True
    let ?c = "take chunkSize (drop i mem)"
    have stride: "take (min chunkSize (length (drop i mem))) (drop i mem) = ?c" "drop (min chunkSize (length (drop i mem))) (drop i mem) = drop (i + chunkSize) mem"
      by (simp_all add: min_def add.commute)
    have "xorLoop i (map (column (take i mem)) [0..<chunkSize]) (drop i mem) =
        xorLoop (i + chunkSize) (map (column (take i mem @ ?c)) [0..<chunkSize]) (drop (i + chunkSize) mem)"
      using True assms(1) less.prems XORBytes_columns [of "take i mem" ?c] by (subst xorLoop.simps) (simp only: if_True Let_def stride, simp)
    also have "take i mem @ ?c = take (i + chunkSize) mem" by (simp add: take_add)
    also have "xorLoop (i + chunkSize) (map (column (take (i + chunkSize) mem)) [0..<chunkSize]) (drop (i + chunkSize) mem) = map (column mem) [0..<chunkSize]"
      using less.prems True by (intro less.hyps) (simp_all add: chunkSize_def)
    finally show ?thesis .
  qed
qed

text \<open>The loop of \<^verbatim>\<open>ConsensusHash\<close> over the 256 MiB of the library, which do not divide into chunks evenly, combines every byte exactly once into the place of its column.\<close>

lemma ConsensusHash_columns:
  assumes "memory buf = Some mem" "length mem = argonSize"
  shows "ConsensusHash K memory buf = K (map (column mem) [0..<chunkSize])"
proof -
  have "chunkSize \<le> argonSize" by (simp add: chunkSize_def argonSize_def)
  then have "take chunkSize mem = map (column (take chunkSize mem)) [0..<chunkSize]"
    using column_append [of "[]" "take chunkSize mem"] assms(2) by (intro nth_equalityI) (simp_all add: column_def [of "[]"])
  then show ?thesis using xorLoop_columns [OF assms(2), of chunkSize] assms(1) by (simp add: ConsensusHash_def)
qed

end
