(* ===== verification/Spec2Isabelle.thy ===== *)
theory Spec2Isabelle
  imports Wire Numbers Types Transaction Merkle MainBlock Consensus Shares Select Sidedata Poolblock Window Chainapi Ring Addresses Caches Parallel Events Storage Randomx
begin

text \<open>
  p2pool-observer: a verification development.

  p2pool-observer (module \<^verbatim>\<open>git.gammaspectra.live/P2Pool/p2pool-observer\<close>) is a Go implementation of a
  node of P2Pool, a decentralised mining pool for Monero.  Miners publish shares: main-chain block
  templates with a side-chain part.  Shares form the side chain.  A share pays in its coinbase
  transaction every miner with shares in the last window (PPLNS), so every node has to come to the
  same window, the same difficulty and the same outputs.  The parts of the program and the theories
  that model them (paths are below src/):

  \<^item> \<^bold>\<open>Bytes and numbers.\<close>  Prelude: machine words, errors as values, little-endian bytes.  Wire: readers and
    varints (utils/limitreader.go, utils/number.go and what \<^verbatim>\<open>encoding/binary\<close> offers); its locales \<open>codec\<close> and
    \<open>sized_codec\<close> are the contract of every encoder and decoder below.  Numbers: utils/number.go and other
    small helpers.  Types: types/difficulty.go, types/types.go.  Ring: utils/circular_buffer.go.
  \<^item> \<^bold>\<open>Main-chain data.\<close>  Transaction: monero/transaction.  Merkle: monero/crypto/merkle.go.  MainBlock:
    monero/block, monero/randomx/randomx.go, monero/constants.go.
  \<^item> \<^bold>\<open>Consensus and rewards.\<close>  Consensus: p2pool/sidechain/consensus.go, hardfork.go.  Shares:
    share.go, the reward split and the shuffle of utils.go.  Select: utils/nthelement.go.
  \<^item> \<^bold>\<open>Shares on the wire.\<close>  Sidedata: sidedata.go.  Poolblock: poolblock.go.
  \<^item> \<^bold>\<open>The side chain.\<close>  Window: the walks of utils.go (PPLNS window, payouts, next difficulty).  ChainSelect:
    \<^verbatim>\<open>IsLongerChain\<close>.  Sidechain: the state of sidechain.go and the verification of a share.  Chainstate: the
    operations that change the state.  Chaininv, Chaintip: their invariant, termination, pruning and the tip.  Chainapi: what
    the rest of the program calls, with the checks on shares from outside.
  \<^item> \<^bold>\<open>The main chain.\<close>  Mempool: p2pool/mempool.  Mainchain: p2pool/mainchain/mainchain.go, the headers and miner data of Monero the node keeps, with the
    blocks the pool has found.  Events: monero/client/zmq and \<^verbatim>\<open>Listen\<close> of mainchain.go, what the daemon announces.
  \<^item> \<^bold>\<open>The network.\<close>  Peers: versions, peer list and bans (p2pool/types, p2pool/p2p/server.go).  Clients: connections, closing and banning.  Handshake: challenge.go and
    the message loop of client.go up to the handshake.  Messages: the messages after the handshake, broadcasts and upkeep (client.go, server.go), over the node, its side chain and the
    miner data.  Exchange: what those messages can do.
  \<^item> \<^bold>\<open>Storage and hashing.\<close>  Storage: the file of stored shares (p2pool/cache/legacy).  Randomx: the RandomX hashers and \<^verbatim>\<open>ConsensusHash\<close>
    (monero/randomx).
  \<^item> \<^bold>\<open>Keys.\<close>  Scalars: the reduction of monero/crypto/edwards25519.go.  Keys: forms of keys, deterministic scalars,
    derivations and signatures (monero/crypto, p2pool/crypto, monero/address/crypto.go).  Addresses: monero/address.
    Caches: utils/cache.go and the derivation caches of p2pool/sidechain.
  \<^item> \<^bold>\<open>Concurrency.\<close>  Parallel: utils/concurrency.go, as a step relation over all interleavings.

  \<^bold>\<open>How code becomes definitions.\<close>  Definitions carry the names of the functions they translate; where several
  methods share a name the type is put in front (\<open>Block_Id\<close>).  A struct is a record, with a prefix on
  its fields.  \<^verbatim>\<open>uint8\<close> to \<^verbatim>\<open>uint64\<close> are words of their width and wrap; 32-byte arrays are 256-bit words;
  \<^verbatim>\<open>int64\<close> arithmetic is on integers that wrap explicitly.
  Fallible code returns \<open>'a result\<close>, with run-time panics as the error \<open>Panic\<close>.  An
  \<^verbatim>\<open>AppendBinary\<close> takes the buffer it appends to, a \<^verbatim>\<open>FromReader\<close> the receiver before and the
  reader, and returns the receiver after and the rest of the reader.  Pointers to shares that the
  code mutates and shares between its maps are references into a heap.  Calls on the server are recorded in a list.  Loops
  over slices and counters are structural recursion or functions with a measure.  A loop that the types do
  not bound (walks along parent links, work stacks, quickselect, a search for a scalar) is a partial function
  whose value \<open>None\<close> stands for not returning, and that it returns is a theorem under
  the invariant the program keeps.  No fuel is used.

  \<^bold>\<open>Parameters.\<close>  Code outside the repository is a parameter: the 128- and 256-bit integer packages (\<open>uint128_pkg\<close>,
  \<open>uint256_pkg\<close>), fast hexadecimal (\<open>hex_pkg\<close>), base 62 (\<open>base62_pkg\<close>), keccak (\<open>K\<close>), RandomX (\<open>hasher\<close>), sorting with its contract
  (locale \<open>sorter\<close>), clock, random numbers and what the daemon answers, the curve (\<open>ephemeral\<close>, \<open>detKey\<close>, \<open>curve_pkg\<close>).  Where a theorem relies on documented
  behaviour of one of these it says so in a named hypothesis (\<open>uint128_ok\<close>, \<open>uint256_ok\<close>, \<open>hex_ok\<close>, \<open>base62_ok\<close>), and a reference instance
  (\<open>uint128_ref\<close>, \<dots>) shows that it can hold.

  \<^bold>\<open>What is proved.\<close>
  \<^item> Codecs: varints, extra tags, coinbase transactions, main-chain blocks, side data and shares are read back to
    what was written, in the full, pruned and compact forms; sizes announced by \<^verbatim>\<open>BufferLength\<close> are the sizes written;
    compact shares are filled back to the sender's transactions.
  \<^item> Rewards: splitting a reward is exact and proportional; compaction and shuffling keep the weights; the outputs of
    a share pay each owner in its window once and add up to the block reward.
  \<^item> The window: both walks agree, weights add up modulo \<open>2^128\<close> and stay within the limit, and the next difficulty is
    defined by the rule and available under realistic bounds.
  \<^item> The side chain: verification is sound; adding a share returns and keeps the invariant of the two indexes, the
    caches and the tip; the tip moves only to a longer valid chain, and which of two
    chains is longer is the rule of the code, spelt out, and never flips; pruning never takes a share that is young and near the tip; offered uncles
    pass verification; a share from outside enters the index only with its proof of work.
  \<^item> Equivalence with reference definitions: the Merkle tree, quickselect, decimal parsing, \<^verbatim>\<open>CheckPoW\<close> as an inequality
    on integers, and the scalar reduction.
  \<^item> Error behaviour, including the panics and divergences that the code has: parent indices one past the end, padding tags, full ids without
    extra nonce, deletion during iteration when pruning.
  \<^item> Keys: the limb arithmetic of \<^verbatim>\<open>scReduce32\<close> is reduction modulo the group order, without overflow; deterministic keys are the
    first usable hash of the sequence; the allocating and the allocation-free derivations agree; signatures that are made verify; addresses
    survive their text forms; answers through the caches are those without caches, after any sequence of requests.
  \<^item> Parallel work: under every interleaving each index is handed out at most once, the result tells whether something failed, and
    the call returns.  The ring buffer remembers the last pushed values.
  \<^item> The main chain: its maps stay well formed; miner data completes the headers the side chain needs; a block the pool has found is announced
    when the daemon reports it, or when its share is added later.
  \<^item> The network: closing and banning end, although they call each other, and keep the counters and lists of connections right; a ban disconnects its range and refuses it until the ban ends; the handshake is
    authentic, and honest nodes complete it; only shares, and only after the handshake, reach the side chain; a share gets from one node to another unchanged; each peer is sent the one message
    that its version and what it was sent before ask for; answers to requests for peers are in bounds.  Two messages end the process, which are errors of the code.
  \<^item> Storage: shares that were stored come back after a restart, the last 4608 of them, if the one in the last slot does not fill it.  RandomX: answers do not depend on which keys were asked for before.

  \<^bold>\<open>Not modelled.\<close>  The compressed storage of shares (blobcache.go), which is unreachable code; the clients of the daemon and of the observer API, whose code is HTTP and JSON;
  sockets, logging, locks and the interleaving inside one message, which is handled in one step; RandomX, keccak and the curve, which are parameters; proofs of payment.
\<close>

end
